(* ===== verification/Prelude.thy ===== *)
theory Prelude
  imports Main "HOL-Library.Word" "HOL-Library.List_Lexorder"
begin

text \<open>
  Shared vocabulary of the development: the machine types of the Rust program, its
  error values and the \<open>?\<close> operator, little-endian encodings of the fixed-width
  integers (\<open>to_le_bytes\<close> and \<open>from_le_bytes\<close>), and the generic list and map
  lemmas the components share.

  \<open>usize\<close> and slice lengths are \<open>nat\<close> values; the program runs on 64-bit targets,
  where no slice is longer than \<open>2^63 - 1\<close> bytes.  Fixed-width integers are words;
  \<open>i64\<close> is a 64-bit word read with \<open>sint\<close>, and \<open>+\<close> on it wraps, as it does in the
  release profile of the crate.
\<close>

section \<open>Machine types\<close>

type_synonym byte = "8 word"
type_synonym bytes = "byte list"
type_synonym u16 = "16 word"
type_synonym u32 = "32 word"
type_synonym u64 = "64 word"
type_synonym i64 = "64 word"

named_theorems codec_simps "computation rules of the byte encoders and readers"
named_theorems inv_intros "introduction rules of the invariants"

section \<open>Errors and the question-mark operator\<close>

text \<open>
  \<open>anyhow::Error\<close> carries a message, or one of the typed errors the code downcasts to.
  \<open>Msg\<close> is a message of the source, \<open>ConflictError\<close> the error of \<open>state.rs\<close>,
  \<open>IoError\<close> a failed call of the operating system or of an external service.
\<close>

datatype error = Msg string | ConflictError bytes | IoError | Utf8Error | ParseError

type_synonym 'a result = "error + 'a"

definition rbind :: "'e + 'a \<Rightarrow> ('a \<Rightarrow> 'e + 'b) \<Rightarrow> 'e + 'b" where
  "rbind m f = (case m of Inl e \<Rightarrow> Inl e | Inr x \<Rightarrow> f x)"

definition ensure :: "bool \<Rightarrow> 'e \<Rightarrow> 'e + unit" where
  "ensure b e = (if b then Inr () else Inl e)"

definition or_else :: "'e + 'a \<Rightarrow> 'f + 'a \<Rightarrow> 'f + 'a" where
  "or_else m n = (case m of Inl _ \<Rightarrow> n | Inr x \<Rightarrow> Inr x)"

definition map_err :: "('e \<Rightarrow> 'f) \<Rightarrow> 'e + 'a \<Rightarrow> 'f + 'a" where
  "map_err f m = (case m of Inl e \<Rightarrow> Inl (f e) | Inr x \<Rightarrow> Inr x)"

definition is_ok :: "'e + 'a \<Rightarrow> bool" where
  "is_ok m = (case m of Inl _ \<Rightarrow> False | Inr _ \<Rightarrow> True)"

lemma rbind_simps [simp]:
  "rbind (Inl e) f = Inl e"
  "rbind (Inr x) f = f x"
  by (simp_all add: rbind_def)

lemma ensure_simps [simp]:
  "ensure True e = Inr ()"
  "ensure False e = Inl e"
  by (simp_all add: ensure_def)

lemma or_else_simps [simp]:
  "or_else (Inr x) n = Inr x"
  "or_else (Inl e) n = n"
  by (simp_all add: or_else_def)

lemma map_err_simps [simp]:
  "map_err f (Inr x) = Inr x"
  "map_err f (Inl e) = Inl (f e)"
  by (simp_all add: map_err_def)

lemma is_ok_simps [simp]:
  "is_ok (Inr x)"
  "\<not> is_ok (Inl e)"
  by (simp_all add: is_ok_def)

lemma is_ok_iff: "is_ok m \<longleftrightarrow> (\<exists>x. m = Inr x)"
  by (cases m) simp_all

lemma rbind_Inr_iff: "rbind m f = Inr y \<longleftrightarrow> (\<exists>x. m = Inr x \<and> f x = Inr y)"
  by (cases m) simp_all

lemma rbind_Inl_iff: "rbind m f = Inl e \<longleftrightarrow> m = Inl e \<or> (\<exists>x. m = Inr x \<and> f x = Inl e)"
  by (cases m) simp_all

lemma ensure_Inr_iff: "ensure b e = Inr u \<longleftrightarrow> b"
  by (cases b) simp_all

lemma rbind_ensure_Inr_iff: "rbind (ensure b e) f = Inr y \<longleftrightarrow> b \<and> f () = Inr y"
  by (cases b) simp_all

lemma map_err_Inr_iff: "map_err f m = Inr x \<longleftrightarrow> m = Inr x"
  by (cases m) simp_all

lemmas result_iffs = rbind_Inr_iff rbind_ensure_Inr_iff ensure_Inr_iff map_err_Inr_iff

text \<open>
  \<open>iter().map(f).collect::<Result<Vec<_>>>()\<close>: the results in order, or the first error.
\<close>

fun collect_results :: "('a \<Rightarrow> 'e + 'b) \<Rightarrow> 'a list \<Rightarrow> 'e + 'b list" where
  "collect_results f [] = Inr []"
| "collect_results f (x # xs) =
     rbind (f x) (\<lambda>y. rbind (collect_results f xs) (\<lambda>ys. Inr (y # ys)))"

lemma collect_results_Inr_iff:
  "collect_results f xs = Inr ys \<longleftrightarrow> list_all2 (\<lambda>x y. f x = Inr y) xs ys"
  by (induction xs arbitrary: ys) (auto simp: rbind_Inr_iff list_all2_Cons1)

lemma collect_results_map:
  "(\<And>x. x \<in> set xs \<Longrightarrow> f x = Inr (g x)) \<Longrightarrow> collect_results f xs = Inr (map g xs)"
  by (induction xs) simp_all

text \<open>
  A Rust \<open>for\<close> loop whose body may leave with \<open>?\<close>.
\<close>

fun for_each :: "('a \<Rightarrow> 's \<Rightarrow> 'e + 's) \<Rightarrow> 'a list \<Rightarrow> 's \<Rightarrow> 'e + 's" where
  "for_each f [] s = Inr s"
| "for_each f (x # xs) s = rbind (f x s) (for_each f xs)"

lemma for_each_append: "for_each f (xs @ ys) s = rbind (for_each f xs s) (for_each f ys)"
  by (induction xs arbitrary: s) (auto simp: rbind_def split: sum.splits)

lemma for_each_Inr: "(\<And>x s. x \<in> set xs \<Longrightarrow> f x s = Inr (g x s)) \<Longrightarrow> for_each f xs s = Inr (fold g xs s)"
  by (induction xs arbitrary: s) simp_all

lemma for_each_single:
  "distinct xs \<Longrightarrow> (\<And>x s. x \<noteq> k \<Longrightarrow> f x s = Inr s) \<Longrightarrow>
     for_each f xs s = (if k \<in> set xs then f k s else Inr s)"
proof (induction xs arbitrary: s)
  case (Cons x xs)
  show ?case
  proof (cases "x = k")
    case True
    have "for_each f xs = Inr"
      using Cons.IH Cons.prems True by (simp add: fun_eq_iff)
    with True show ?thesis by (simp add: rbind_def split: sum.splits)
  next
    case False
    then have "f x s = Inr s" by (rule Cons.prems(2))
    with False Cons show ?thesis by simp
  qed
qed simp

text \<open>
  A pass over an array that treats every slot on its own: its effect on slot \<open>i\<close> is
  \<open>g i\<close>, and it succeeds when all the slots do.
\<close>

definition pointwise :: "nat \<Rightarrow> ('a list \<Rightarrow> 'e + 'a list) \<Rightarrow> (nat \<Rightarrow> 'a \<Rightarrow> 'e + 'a) \<Rightarrow> bool" where
  "pointwise n pass g \<longleftrightarrow>
     (\<forall>r r'. length r = n \<longrightarrow>
        (pass r = Inr r' \<longleftrightarrow> length r' = n \<and> (\<forall>i < n. g i (r ! i) = Inr (r' ! i))))"

lemma pointwiseD:
  "pointwise n pass g \<Longrightarrow> length r = n \<Longrightarrow>
     pass r = Inr r' \<longleftrightarrow> length r' = n \<and> (\<forall>i < n. g i (r ! i) = Inr (r' ! i))"
  unfolding pointwise_def by blast

lemma pointwise_skip: "pointwise n Inr (\<lambda>i. Inr)"
  by (auto simp: pointwise_def intro: nth_equalityI)

lemma pointwise_bind:
  fixes p q :: "'a list \<Rightarrow> 'e + 'a list"
  assumes "pointwise n p g" "pointwise n q h"
  shows "pointwise n (\<lambda>r. rbind (p r) q) (\<lambda>i x. rbind (g i x) (h i))"
  unfolding pointwise_def
proof (intro allI impI)
  fix r r' :: "'a list"
  assume len: "length r = n"
  show "rbind (p r) q = Inr r' \<longleftrightarrow> length r' = n \<and> (\<forall>i < n. rbind (g i (r ! i)) (h i) = Inr (r' ! i))"
  proof
    assume "rbind (p r) q = Inr r'"
    then obtain m where "p r = Inr m" "q m = Inr r'" by (auto simp: rbind_Inr_iff)
    moreover from this have "length m = n" "\<forall>i < n. g i (r ! i) = Inr (m ! i)"
      using pointwiseD [OF assms(1) len, of m] by simp_all
    ultimately show "length r' = n \<and> (\<forall>i < n. rbind (g i (r ! i)) (h i) = Inr (r' ! i))"
      using pointwiseD [OF assms(2), of m r'] by simp
  next
    assume a: "length r' = n \<and> (\<forall>i < n. rbind (g i (r ! i)) (h i) = Inr (r' ! i))"
    then have "\<forall>i < n. \<exists>y. g i (r ! i) = Inr y \<and> h i y = Inr (r' ! i)"
      by (simp add: rbind_Inr_iff)
    then obtain f where f: "\<forall>i < n. g i (r ! i) = Inr (f i) \<and> h i (f i) = Inr (r' ! i)"
      by metis
    have "p r = Inr (map f [0..<n])"
      using f by (subst pointwiseD [OF assms(1) len]) simp
    moreover have "q (map f [0..<n]) = Inr r'"
      using f a by (subst pointwiseD [OF assms(2)]) simp_all
    ultimately show "rbind (p r) q = Inr r'" by simp
  qed
qed

lemma pointwise_for_each:
  "(\<And>s. s \<in> set ss \<Longrightarrow> pointwise n (pass s) (g s)) \<Longrightarrow>
     pointwise n (for_each pass ss) (\<lambda>i. for_each (\<lambda>s. g s i) ss)"
proof (induction ss)
  case Nil
  have "for_each pass [] = Inr" "(\<lambda>i. for_each (\<lambda>s. g s i) []) = (\<lambda>i. Inr)"
    by (simp_all add: fun_eq_iff)
  then show ?case by (simp only: pointwise_skip)
next
  case (Cons s ss)
  have "pointwise n (\<lambda>r. rbind (pass s r) (for_each pass ss))
      (\<lambda>i x. rbind (g s i x) (for_each (\<lambda>s. g s i) ss))"
    by (rule pointwise_bind) (use Cons in auto)
  moreover have "for_each pass (s # ss) = (\<lambda>r. rbind (pass s r) (for_each pass ss))"
    "(\<lambda>i. for_each (\<lambda>s. g s i) (s # ss)) = (\<lambda>i x. rbind (g s i x) (for_each (\<lambda>s. g s i) ss))"
    by (simp_all add: fun_eq_iff)
  ultimately show ?case by simp
qed

text \<open>The pass of a loop over the indices that selects slots before it starts.\<close>

lemma pointwise_slots:
  assumes step: "\<And>i r. i < n \<Longrightarrow> length r = n \<Longrightarrow> step i r = rbind (g i (r ! i)) (\<lambda>x. Inr (r[i := x]))"
  shows "pointwise n (\<lambda>r. for_each step (filter (\<lambda>i. P i (r ! i)) [0..<n]) r)
    (\<lambda>i x. if P i x then g i x else Inr x)"
  unfolding pointwise_def
proof (intro allI impI)
  have loop: "for_each step is r = Inr r' \<longleftrightarrow> length r' = n \<and>
      (\<forall>i < n. if i \<in> set is then g i (r ! i) = Inr (r' ! i) else r' ! i = r ! i)"
    if "length r = n" "distinct is" "set is \<subseteq> {..<n}" for "is" r r'
    using that
  proof (induction "is" arbitrary: r)
    case Nil
    then show ?case by (auto intro: nth_equalityI)
  next
    case (Cons j js)
    then have j: "j < n" "j \<notin> set js" by auto
    show ?case
    proof (cases "g j (r ! j)")
      case (Inl e)
      with j Cons.prems(1) show ?thesis by (auto simp: step)
    next
      case (Inr x)
      have "for_each step (j # js) r = for_each step js (r[j := x])"
        using j Cons.prems(1) Inr by (simp add: step)
      with Cons.IH [of "r[j := x]"] Cons.prems j Inr show ?thesis
        by (auto simp: nth_list_update split: if_splits)
    qed
  qed
  fix r r' :: "'a list"
  assume len: "length r = n"
  show "for_each step (filter (\<lambda>i. P i (r ! i)) [0..<n]) r = Inr r' \<longleftrightarrow>
      length r' = n \<and> (\<forall>i < n. (if P i (r ! i) then g i (r ! i) else Inr (r ! i)) = Inr (r' ! i))"
  proof -
    have "for_each step (filter (\<lambda>i. P i (r ! i)) [0..<n]) r = Inr r' \<longleftrightarrow> length r' = n \<and>
      (\<forall>i < n. if i \<in> set (filter (\<lambda>i. P i (r ! i)) [0..<n])
         then g i (r ! i) = Inr (r' ! i) else r' ! i = r ! i)"
      by (rule loop) (auto simp: len)
    then show ?thesis by (auto split: if_splits)
  qed
qed

lemma pointwise_all:
  assumes "\<And>i r. i < n \<Longrightarrow> length r = n \<Longrightarrow> step i r = rbind (g i (r ! i)) (\<lambda>x. Inr (r[i := x]))"
  shows "pointwise n (for_each step [0..<n]) g"
  using pointwise_slots [where P = "\<lambda>_ _. True", OF assms] by simp

section \<open>Little-endian integers\<close>

fun le_nat :: "nat \<Rightarrow> nat \<Rightarrow> bytes" where
  "le_nat 0 v = []"
| "le_nat (Suc n) v = word_of_nat v # le_nat n (v div 256)"

fun le_val :: "bytes \<Rightarrow> nat" where
  "le_val [] = 0"
| "le_val (b # bs) = unat b + 256 * le_val bs"

definition u16_to_le :: "u16 \<Rightarrow> bytes" where
  "u16_to_le w = le_nat 2 (unat w)"

definition u32_to_le :: "u32 \<Rightarrow> bytes" where
  "u32_to_le w = le_nat 4 (unat w)"

definition u64_to_le :: "u64 \<Rightarrow> bytes" where
  "u64_to_le w = le_nat 8 (unat w)"

definition u16_from_le :: "bytes \<Rightarrow> u16" where
  "u16_from_le bs = word_of_nat (le_val bs)"

definition u32_from_le :: "bytes \<Rightarrow> u32" where
  "u32_from_le bs = word_of_nat (le_val bs)"

definition u64_from_le :: "bytes \<Rightarrow> u64" where
  "u64_from_le bs = word_of_nat (le_val bs)"

lemma unat_lt: "unat (w :: 'a::len word) < 2 ^ LENGTH('a)"
  by (rule unsigned_less)

lemma length_le_nat [simp]: "length (le_nat n v) = n"
  by (induction n arbitrary: v) simp_all

lemma unat_byte_of_nat: "unat (word_of_nat v :: byte) = v mod 256"
  by (simp add: unat_of_nat)

lemma le_val_le_nat: "le_val (le_nat n v) = v mod 256 ^ n"
proof (induction n arbitrary: v)
  case (Suc n)
  then show ?case
    by (simp add: unat_byte_of_nat mod_mult2_eq)
qed simp

lemma le_val_bound: "le_val bs < 256 ^ length bs"
proof (induction bs)
  case (Cons b bs)
  have "unat b < 256"
    using unat_lt [of b] by simp
  with Cons show ?case by simp
qed simp

lemma le_nat_le_val: "le_nat (length bs) (le_val bs) = bs"
proof (induction bs)
  case (Cons b bs)
  have b: "unat b < 256"
    using unat_lt [of b] by simp
  then have "(unat b + 256 * le_val bs) div 256 = le_val bs"
    by simp
  moreover have "word_of_nat (unat b + 256 * le_val bs) = b"
    by (rule word_unat_eq_iff [THEN iffD2]) (use b in \<open>simp add: unat_byte_of_nat del: of_nat_add\<close>)
  ultimately show ?case using Cons by simp
qed simp

lemma le_val_append: "le_val (xs @ ys) = le_val xs + 256 ^ length xs * le_val ys"
  by (induction xs) (simp_all add: algebra_simps)

lemma take_le_nat: "n \<le> m \<Longrightarrow> take n (le_nat m v) = le_nat n v"
proof (induction n arbitrary: m v)
  case (Suc n)
  then show ?case by (cases m) simp_all
qed simp

lemma length_u_to_le [simp]:
  "length (u16_to_le w) = 2"
  "length (u32_to_le v) = 4"
  "length (u64_to_le u) = 8"
  by (simp_all add: u16_to_le_def u32_to_le_def u64_to_le_def)

lemma u16_le_roundtrip [simp]: "u16_from_le (u16_to_le w) = w"
  using unat_lt [of w] by (simp add: u16_from_le_def u16_to_le_def le_val_le_nat)

lemma u32_le_roundtrip [simp]: "u32_from_le (u32_to_le w) = w"
  using unat_lt [of w] by (simp add: u32_from_le_def u32_to_le_def le_val_le_nat)

lemma u64_le_roundtrip [simp]: "u64_from_le (u64_to_le w) = w"
  using unat_lt [of w] by (simp add: u64_from_le_def u64_to_le_def le_val_le_nat)

lemma u16_le_canonical: "length bs = 2 \<Longrightarrow> u16_to_le (u16_from_le bs) = bs"
  using le_val_bound [of bs] le_nat_le_val [of bs]
  by (simp add: u16_from_le_def u16_to_le_def unat_of_nat)

lemma u32_le_canonical: "length bs = 4 \<Longrightarrow> u32_to_le (u32_from_le bs) = bs"
  using le_val_bound [of bs] le_nat_le_val [of bs]
  by (simp add: u32_from_le_def u32_to_le_def unat_of_nat)

lemma u64_le_canonical: "length bs = 8 \<Longrightarrow> u64_to_le (u64_from_le bs) = bs"
  using le_val_bound [of bs] le_nat_le_val [of bs]
  by (simp add: u64_from_le_def u64_to_le_def unat_of_nat)

lemma unat_u32_from_le: "length bs = 4 \<Longrightarrow> unat (u32_from_le bs) = le_val bs"
  using le_val_bound [of bs] by (simp add: u32_from_le_def unat_of_nat)

lemma u_to_le_inject [simp]:
  "u16_to_le a = u16_to_le b \<longleftrightarrow> a = b"
  "u32_to_le c = u32_to_le d \<longleftrightarrow> c = d"
  "u64_to_le e = u64_to_le f \<longleftrightarrow> e = f"
  by (metis u16_le_roundtrip, metis u32_le_roundtrip, metis u64_le_roundtrip)

section \<open>Saturating and checked machine arithmetic\<close>

definition u64_saturating_add :: "u64 \<Rightarrow> u64 \<Rightarrow> u64" where
  "u64_saturating_add a b = (if unat a + unat b < 2 ^ 64 then a + b else - 1)"

definition usize_checked_add :: "nat \<Rightarrow> nat \<Rightarrow> nat option" where
  "usize_checked_add a b = (if a + b < 2 ^ 64 then Some (a + b) else None)"

definition i64_min :: i64 where
  "i64_min = 0x8000000000000000"

definition i64_abs :: "i64 \<Rightarrow> i64" where
  "i64_abs d = (if sint d < 0 then - d else d)"

lemma sint_i64_range: "- (2 ^ 63) \<le> sint (d :: i64)" "sint (d :: i64) < 2 ^ 63"
  using sint_range_size [of d] by (simp_all add: word_size)

lemma sint_i64_min: "sint i64_min = - (2 ^ 63)"
  by (simp add: i64_min_def)

lemma sint_i64_eq_min_iff: "d = i64_min \<longleftrightarrow> sint d = - (2 ^ 63)"
proof
  assume "sint d = - (2 ^ 63)"
  then have "sint d = sint i64_min" by (simp add: sint_i64_min)
  then have "(word_of_int (sint d) :: i64) = word_of_int (sint i64_min)" by (rule arg_cong)
  then show "d = i64_min" by simp
qed (simp add: sint_i64_min)

lemma sint_i64_eq_0_iff: "sint (d :: i64) = 0 \<longleftrightarrow> d = 0"
proof
  assume "sint d = 0"
  then have "(word_of_int (sint d) :: i64) = word_of_int 0" by (rule arg_cong)
  then show "d = 0" by simp
qed simp

lemma sint_i64_abs: "d \<noteq> i64_min \<Longrightarrow> sint (i64_abs d) = \<bar>sint d\<bar>"
proof -
  assume "d \<noteq> i64_min"
  then have "sint d \<noteq> - (2 ^ 63)" by (simp add: sint_i64_eq_min_iff)
  with sint_i64_range [of d] have b: "- (2 ^ 63) \<le> - sint d" "- sint d < 2 ^ 63" by auto
  have "- d = word_of_int (- sint d)" by simp
  then have "sint (- d) = signed_take_bit 63 (- sint d)"
    using sint_sbintrunc' [of "- sint d", where 'a = 64] by simp
  also have "\<dots> = - sint d"
    using b by (simp add: signed_take_bit_int_eq_self)
  finally have "sint (- d) = - sint d" .
  then show ?thesis by (simp add: i64_abs_def)
qed

section \<open>Files\<close>

text \<open>What \<open>tokio::fs::read\<close> answers: the content, \<open>ErrorKind::NotFound\<close>, or another error.\<close>

datatype read_outcome = FileData bytes | FileNotFound | FileError

section \<open>Lists\<close>

lemma take_append_exact: "take (length xs) (xs @ ys) = xs"
  by simp

lemma drop_append_exact: "drop (length xs) (xs @ ys) = ys"
  by simp

lemma take_eq_append_drop: "take n xs = ys \<Longrightarrow> xs = ys @ drop n xs"
  by (metis append_take_drop_id)

end
