(* ===== verification/Utf8.thy ===== *)
theory Utf8
  imports Prelude
begin

text \<open>
  The parts of Rust's \<open>str\<close> the program uses.  A \<open>String\<close> is modelled by its bytes; the
  type invariant of Rust (the bytes are valid UTF-8) is the predicate \<open>str_ok\<close>.
  \<open>utf8_chars\<close> decodes the code points with exactly the sequences \<open>str::from_utf8\<close>
  accepts (no overlong forms, no surrogates, nothing above U+10FFFF).  \<open>str::trim\<close> and
  \<open>char::is_control\<close> work on these code points.
\<close>

section \<open>Decoding\<close>

definition is_cont :: "byte \<Rightarrow> bool" where
  "is_cont b \<longleftrightarrow> 0x80 \<le> b \<and> b \<le> 0xBF"

definition cont_bits :: "byte \<Rightarrow> nat" where
  "cont_bits b = unat b - 0x80"

text \<open>The admissible second byte of a three- or four-byte sequence, by its first byte.\<close>

definition second_ok :: "byte \<Rightarrow> byte \<Rightarrow> bool" where
  "second_ok a b \<longleftrightarrow>
     (if a = 0xE0 then 0xA0 \<le> b \<and> b \<le> 0xBF
      else if a = 0xED then 0x80 \<le> b \<and> b \<le> 0x9F
      else if a = 0xF0 then 0x90 \<le> b \<and> b \<le> 0xBF
      else if a = 0xF4 then 0x80 \<le> b \<and> b \<le> 0x8F
      else is_cont b)"

definition utf8_two :: "byte \<Rightarrow> bytes \<Rightarrow> (nat \<times> bytes) option" where
  "utf8_two a r =
     (case r of
        b # r1 \<Rightarrow> if is_cont b then Some ((unat a - 0xC0) * 64 + cont_bits b, r1) else None
      | _ \<Rightarrow> None)"

definition utf8_three :: "byte \<Rightarrow> bytes \<Rightarrow> (nat \<times> bytes) option" where
  "utf8_three a r =
     (case r of
        b # c # r1 \<Rightarrow>
          if second_ok a b \<and> is_cont c
          then Some ((unat a - 0xE0) * 4096 + cont_bits b * 64 + cont_bits c, r1) else None
      | _ \<Rightarrow> None)"

definition utf8_four :: "byte \<Rightarrow> bytes \<Rightarrow> (nat \<times> bytes) option" where
  "utf8_four a r =
     (case r of
        b # c # d # r1 \<Rightarrow>
          if second_ok a b \<and> is_cont c \<and> is_cont d
          then Some ((unat a - 0xF0) * 262144 + cont_bits b * 4096 + cont_bits c * 64
                     + cont_bits d, r1) else None
      | _ \<Rightarrow> None)"

fun utf8_step :: "bytes \<Rightarrow> (nat \<times> bytes) option" where
  "utf8_step [] = None"
| "utf8_step (a # r) =
     (if a < 0x80 then Some (unat a, r)
      else if 0xC2 \<le> a \<and> a \<le> 0xDF then utf8_two a r
      else if 0xE0 \<le> a \<and> a \<le> 0xEF then utf8_three a r
      else if 0xF0 \<le> a \<and> a \<le> 0xF4 then utf8_four a r
      else None)"

lemma cont_nonzero: "is_cont b \<Longrightarrow> b \<noteq> 0 \<and> b < 0xF5"
  by (auto simp: is_cont_def word_less_nat_alt word_le_nat_alt)

lemma second_nonzero: "second_ok a b \<Longrightarrow> b \<noteq> 0 \<and> b < 0xF5"
  by (auto simp: second_ok_def is_cont_def word_less_nat_alt word_le_nat_alt split: if_splits)

text \<open>
  What one step consumes: a non-empty prefix of bytes below \<open>0xF5\<close>, in which the byte
  zero occurs only as the code point zero.
\<close>

definition step_prefix :: "bytes \<Rightarrow> nat \<Rightarrow> bool" where
  "step_prefix p c \<longleftrightarrow> p \<noteq> [] \<and> (\<forall>b \<in> set p. b < 0xF5) \<and> (0 \<in> set p \<longrightarrow> c = 0)"

lemma utf8_two_prefix:
  "utf8_two a r = Some (c, r') \<Longrightarrow> 0xC2 \<le> a \<Longrightarrow> a \<le> 0xDF \<Longrightarrow>
     \<exists>p. a # r = p @ r' \<and> step_prefix p c"
  by (auto simp: utf8_two_def step_prefix_def word_less_nat_alt word_le_nat_alt
      dest!: cont_nonzero split: list.splits if_splits intro!: exI [of _ "[a, _]"])

lemma utf8_three_prefix:
  "utf8_three a r = Some (c, r') \<Longrightarrow> 0xE0 \<le> a \<Longrightarrow> a \<le> 0xEF \<Longrightarrow>
     \<exists>p. a # r = p @ r' \<and> step_prefix p c"
  by (auto simp: utf8_three_def step_prefix_def word_less_nat_alt word_le_nat_alt
      dest!: cont_nonzero second_nonzero split: list.splits if_splits
      intro!: exI [of _ "[a, _, _]"])

lemma utf8_four_prefix:
  "utf8_four a r = Some (c, r') \<Longrightarrow> 0xF0 \<le> a \<Longrightarrow> a \<le> 0xF4 \<Longrightarrow>
     \<exists>p. a # r = p @ r' \<and> step_prefix p c"
  by (auto simp: utf8_four_def step_prefix_def word_less_nat_alt word_le_nat_alt
      dest!: cont_nonzero second_nonzero split: list.splits if_splits
      intro!: exI [of _ "[a, _, _, _]"])

lemma utf8_step_prefix:
  assumes "utf8_step bs = Some (c, r)"
  shows "\<exists>p. bs = p @ r \<and> step_prefix p c"
proof (cases bs)
  case (Cons a q)
  show ?thesis
  proof (cases "a < 0x80")
    case True
    then have "step_prefix [a] (unat a)"
      by (auto simp: step_prefix_def word_less_nat_alt)
    with True assms Cons show ?thesis by (auto intro!: exI [of _ "[a]"])
  next
    case False
    with assms Cons show ?thesis
      by (auto split: if_splits dest: utf8_two_prefix utf8_three_prefix utf8_four_prefix)
  qed
qed (use assms in simp)

lemma utf8_step_shorter: "utf8_step bs = Some (c, r) \<Longrightarrow> length r < length bs"
  by (auto dest!: utf8_step_prefix simp: step_prefix_def)

function utf8_chars :: "bytes \<Rightarrow> nat list option" where
  "utf8_chars bs =
     (if bs = [] then Some []
      else case utf8_step bs of
             None \<Rightarrow> None
           | Some (c, r) \<Rightarrow> map_option (Cons c) (utf8_chars r))"
  by pat_completeness auto
termination
  by (relation "measure length") (auto dest: utf8_step_shorter)

declare utf8_chars.simps [simp del]

lemma utf8_chars_Nil [simp]: "utf8_chars [] = Some []"
  by (simp add: utf8_chars.simps)

lemma utf8_chars_Cons:
  "utf8_chars (a # bs) =
     (case utf8_step (a # bs) of None \<Rightarrow> None | Some (c, r) \<Rightarrow> map_option (Cons c) (utf8_chars r))"
  by (simp add: utf8_chars.simps [of "a # bs"])

lemma utf8_chars_ascii: "a < 0x80 \<Longrightarrow> utf8_chars (a # bs) = map_option (Cons (unat a)) (utf8_chars bs)"
  by (simp add: utf8_chars_Cons)

definition str_ok :: "bytes \<Rightarrow> bool" where
  "str_ok s \<longleftrightarrow> utf8_chars s \<noteq> None"

definition chars :: "bytes \<Rightarrow> nat list" where
  "chars s = (case utf8_chars s of None \<Rightarrow> [] | Some cs \<Rightarrow> cs)"

text \<open>\<open>std::str::from_utf8\<close>\<close>

definition from_utf8 :: "bytes \<Rightarrow> bytes result" where
  "from_utf8 bs = (if str_ok bs then Inr bs else Inl Utf8Error)"

lemma from_utf8_Inr_iff: "from_utf8 bs = Inr s \<longleftrightarrow> str_ok bs \<and> s = bs"
  by (auto simp: from_utf8_def)

lemma str_ok_Nil [simp]: "str_ok []"
  by (simp add: str_ok_def)

lemma ascii_chars:
  "\<forall>b \<in> set bs. b < 0x80 \<Longrightarrow> utf8_chars bs = Some (map unat bs)"
  by (induction bs) (simp_all add: utf8_chars_ascii)

lemma ascii_str_ok: "\<forall>b \<in> set bs. b < 0x80 \<Longrightarrow> str_ok bs"
  by (simp add: ascii_chars str_ok_def)

section \<open>Bytes of a valid string\<close>

lemma utf8_chars_bytes:
  "utf8_chars bs = Some cs \<Longrightarrow>
     (\<forall>b \<in> set bs. b < 0xF5) \<and> (0 \<in> set bs \<longrightarrow> 0 \<in> set cs) \<and> (bs \<noteq> [] \<longrightarrow> cs \<noteq> [])"
proof (induction bs arbitrary: cs rule: utf8_chars.induct)
  case (1 bs)
  show ?case
  proof (cases "bs = []")
    case False
    with "1.prems" obtain c r cs' where st: "utf8_step bs = Some (c, r)"
      and r: "utf8_chars r = Some cs'" and cs: "cs = c # cs'"
      by (auto simp: utf8_chars.simps [of bs] split: option.splits prod.splits)
    obtain p where p: "bs = p @ r" "step_prefix p c"
      using utf8_step_prefix [OF st] by auto
    from "1.IH" [OF False st] r have "(\<forall>b \<in> set r. b < 0xF5) \<and> (0 \<in> set r \<longrightarrow> 0 \<in> set cs')"
      by simp
    with p cs show ?thesis by (auto simp: step_prefix_def)
  qed (use "1.prems" in simp)
qed

lemma str_ok_byte_bound: "str_ok s \<Longrightarrow> b \<in> set s \<Longrightarrow> b < 0xF5"
  using utf8_chars_bytes by (auto simp: str_ok_def)

lemma str_ok_zero_byte: "str_ok s \<Longrightarrow> 0 \<in> set s \<Longrightarrow> 0 \<in> set (chars s)"
  using utf8_chars_bytes by (auto simp: str_ok_def chars_def)

lemma str_ok_chars_Nil_iff: "str_ok s \<Longrightarrow> chars s = [] \<longleftrightarrow> s = []"
  using utf8_chars_bytes [of s "[]"] by (auto simp: str_ok_def chars_def)

section \<open>Trimming and control characters\<close>

text \<open>The code points with the Unicode property \<open>White_Space\<close>.\<close>

definition is_whitespace :: "nat \<Rightarrow> bool" where
  "is_whitespace c \<longleftrightarrow>
     0x09 \<le> c \<and> c \<le> 0x0D \<or> c = 0x20 \<or> c = 0x85 \<or> c = 0xA0 \<or> c = 0x1680
     \<or> 0x2000 \<le> c \<and> c \<le> 0x200A \<or> c = 0x2028 \<or> c = 0x2029 \<or> c = 0x202F \<or> c = 0x205F
     \<or> c = 0x3000"

text \<open>\<open>char::is_control\<close>: general category \<open>Cc\<close>.\<close>

definition is_control :: "nat \<Rightarrow> bool" where
  "is_control c \<longleftrightarrow> c \<le> 0x1F \<or> 0x7F \<le> c \<and> c \<le> 0x9F"

definition trim_chars :: "nat list \<Rightarrow> nat list" where
  "trim_chars cs = rev (dropWhile is_whitespace (rev (dropWhile is_whitespace cs)))"

lemma dropWhile_eq_self_iff: "dropWhile P xs = xs \<longleftrightarrow> xs = [] \<or> \<not> P (hd xs)"
proof (cases xs)
  case (Cons x ys)
  then show ?thesis
    by (metis dropWhile.simps(2) impossible_Cons length_dropWhile_le list.distinct(1) list.sel(1))
qed simp

lemma trim_chars_eq_self_iff:
  "trim_chars cs = cs \<longleftrightarrow> cs = [] \<or> \<not> is_whitespace (hd cs) \<and> \<not> is_whitespace (last cs)"
proof (cases "dropWhile is_whitespace cs = cs")
  case True
  then have "trim_chars cs = cs \<longleftrightarrow> dropWhile is_whitespace (rev cs) = rev cs"
    by (metis rev_rev_ident trim_chars_def)
  with True show ?thesis
    by (auto simp: dropWhile_eq_self_iff hd_rev)
next
  case False
  then have "length (dropWhile is_whitespace cs) < length cs"
    by (metis dropWhile_eq_drop length_dropWhile_le le_neq_implies_less length_drop
        drop_0 append_Nil append_take_drop_id append_same_eq length_append takeWhile_dropWhile_id
        add_cancel_left_left length_0_conv)
  then have "length (trim_chars cs) < length cs"
    by (metis trim_chars_def length_rev length_dropWhile_le le_less_trans)
  then have "trim_chars cs \<noteq> cs" by auto
  with False show ?thesis by (simp add: dropWhile_eq_self_iff)
qed

section \<open>ASCII literals\<close>

definition ascii :: "string \<Rightarrow> bytes" where
  "ascii s = map of_char s"

definition ascii_only :: "string \<Rightarrow> bool" where
  "ascii_only s \<longleftrightarrow> list_all (\<lambda>c. of_char c < (128 :: nat)) s"

lemma unat_of_char: "unat (of_char c :: byte) = of_char c"
  by (metis of_char_mod_256 of_nat_of_char unat_byte_of_nat)

lemma chars_ascii:
  assumes "ascii_only s"
  shows "utf8_chars (ascii s) = Some (map of_char s)"
proof -
  have "\<forall>b \<in> set (ascii s). b < 0x80"
    using assms by (auto simp: ascii_def ascii_only_def list_all_iff word_less_nat_alt unat_of_char)
  then have "utf8_chars (ascii s) = Some (map unat (ascii s))" by (rule ascii_chars)
  then show ?thesis by (simp add: ascii_def unat_of_char)
qed

lemma ascii_str_facts:
  assumes "ascii_only s"
  shows "str_ok (ascii s)" "chars (ascii s) = map of_char s"
  using chars_ascii [OF assms] by (simp_all add: str_ok_def chars_def)

lemma length_ascii [simp]: "length (ascii s) = length s"
  by (simp add: ascii_def)

end
