(* ===== verification/Codec.thy ===== *)
theory Codec
  imports Utf8
begin

text \<open>
  The interface of the binary formats.  Both \<open>binary.rs\<close> and \<open>snapshot.rs\<close> read with a
  cursor over a byte slice (\<open>Reader\<close>) and write by appending to a buffer.  A reading
  operation \<^emph>\<open>decodes\<close> an encoding when it succeeds exactly on the encodings of
  well-formed values, returns the value and leaves the cursor right behind it.  The
  predicate is closed under sequencing, so a format is correct as soon as its fields are;
  the locales \<open>decoder\<close> and \<open>codec\<close> lift it to counted lists.
\<close>

section \<open>The reader\<close>

record reader =
  rdata :: bytes
  rcursor :: nat

definition rest :: "reader \<Rightarrow> bytes" where
  "rest r = drop (rcursor r) (rdata r)"

definition advance :: "nat \<Rightarrow> reader \<Rightarrow> reader" where
  "advance n r = r\<lparr>rcursor := rcursor r + n\<rparr>"

definition reader_ok :: "reader \<Rightarrow> bool" where
  "reader_ok r \<longleftrightarrow> rcursor r \<le> length (rdata r) \<and> length (rdata r) < 2 ^ 63"

definition reader_new :: "bytes \<Rightarrow> reader" where
  "reader_new bs = \<lparr>rdata = bs, rcursor = 0\<rparr>"

lemma reader_new_facts [simp]:
  "rest (reader_new bs) = bs"
  "reader_ok (reader_new bs) \<longleftrightarrow> length bs < 2 ^ 63"
  "rdata (reader_new bs) = bs"
  "rcursor (reader_new bs) = 0"
  by (simp_all add: reader_new_def rest_def reader_ok_def)

lemma advance_facts [simp]:
  "rdata (advance n r) = rdata r"
  "rcursor (advance n r) = rcursor r + n"
  "advance m (advance n r) = advance (n + m) r"
  "advance 0 r = r"
  by (simp_all add: advance_def add.assoc)

lemma rest_advance: "rest r = xs @ ys \<Longrightarrow> rest (advance (length xs) r) = ys"
  by (simp add: rest_def) (metis append_eq_conv_conj drop_drop add.commute)

lemma reader_ok_advance:
  "reader_ok r \<Longrightarrow> rest r = xs @ ys \<Longrightarrow> reader_ok (advance (length xs) r)"
proof -
  assume ok: "reader_ok r" and "rest r = xs @ ys"
  then have "length (rdata r) - rcursor r = length xs + length ys"
    by (metis length_append length_drop rest_def)
  with ok show "reader_ok (advance (length xs) r)"
    by (auto simp: reader_ok_def)
qed

lemma length_rest: "length (rest r) = length (rdata r) - rcursor r"
  by (simp add: rest_def)

lemma rest_Nil_iff: "reader_ok r \<Longrightarrow> rest r = [] \<longleftrightarrow> rcursor r = length (rdata r)"
  by (auto simp: rest_def reader_ok_def)

section \<open>Decoding\<close>

definition decodes :: "(reader \<Rightarrow> 'e + ('a \<times> reader)) \<Rightarrow> ('a \<Rightarrow> bytes) \<Rightarrow> ('a \<Rightarrow> bool) \<Rightarrow> bool" where
  "decodes get enc good \<longleftrightarrow>
     (\<forall>r x bs. reader_ok r \<longrightarrow> good x \<longrightarrow> rest r = enc x @ bs \<longrightarrow>
        get r = Inr (x, advance (length (enc x)) r))
     \<and> (\<forall>r x r'. reader_ok r \<longrightarrow> get r = Inr (x, r') \<longrightarrow>
        good x \<and> (\<exists>bs. rest r = enc x @ bs) \<and> r' = advance (length (enc x)) r)"

lemma decodes_okD:
  "decodes get enc good \<Longrightarrow> reader_ok r \<Longrightarrow> good x \<Longrightarrow> rest r = enc x @ bs \<Longrightarrow>
     get r = Inr (x, advance (length (enc x)) r)"
  unfolding decodes_def by blast

lemma decodes_invD:
  assumes "decodes get enc good" "reader_ok r" "get r = Inr (x, r')"
  obtains bs where "good x" "rest r = enc x @ bs" "r' = advance (length (enc x)) r"
    "reader_ok r'" "rest r' = bs"
proof -
  from assms have "good x \<and> (\<exists>bs. rest r = enc x @ bs) \<and> r' = advance (length (enc x)) r"
    unfolding decodes_def by blast
  then obtain bs where 1: "good x" "rest r = enc x @ bs" "r' = advance (length (enc x)) r"
    by blast
  from 1(3) reader_ok_advance [OF assms(2) 1(2)] rest_advance [OF 1(2)]
  have "reader_ok r'" "rest r' = bs" by simp_all
  with 1 show thesis by (rule that)
qed

lemma decodesI:
  assumes "\<And>r x bs. reader_ok r \<Longrightarrow> good x \<Longrightarrow> rest r = enc x @ bs \<Longrightarrow>
      get r = Inr (x, advance (length (enc x)) r)"
    and "\<And>r x r'. reader_ok r \<Longrightarrow> get r = Inr (x, r') \<Longrightarrow>
      good x \<and> (\<exists>bs. rest r = enc x @ bs) \<and> r' = advance (length (enc x)) r"
  shows "decodes get enc good"
  using assms unfolding decodes_def by blast

lemma decodes_cong:
  assumes "decodes get enc good" "\<And>x. good x \<Longrightarrow> enc x = enc' x" "\<And>x. good x = good' x"
  shows "decodes get enc' good'"
proof (rule decodesI)
  fix r x bs
  assume a: "reader_ok r" "good' x" "rest r = enc' x @ bs"
  with assms(2,3) have "rest r = enc x @ bs" "good x" by auto
  with decodes_okD [OF assms(1) a(1)] have "get r = Inr (x, advance (length (enc x)) r)"
    by blast
  with assms(2) \<open>good x\<close> show "get r = Inr (x, advance (length (enc' x)) r)" by simp
next
  fix r x r'
  assume "reader_ok r" "get r = Inr (x, r')"
  with assms(1) have "good x \<and> (\<exists>bs. rest r = enc x @ bs) \<and> r' = advance (length (enc x)) r"
    unfolding decodes_def by blast
  with assms(2,3) show
    "good' x \<and> (\<exists>bs. rest r = enc' x @ bs) \<and> r' = advance (length (enc' x)) r"
    by auto
qed

lemma decodes_return: "decodes (\<lambda>r. Inr (y, r)) (\<lambda>_. []) (\<lambda>z. z = y)"
  by (rule decodesI) auto

lemma decodes_fail: "decodes (\<lambda>r. Inl e) enc (\<lambda>_. False)"
  by (rule decodesI) auto

text \<open>
  Sequencing: the value \<open>y\<close> read in the end determines the part \<open>f y\<close> read first.
\<close>

lemma decodes_seq:
  assumes g: "decodes g enc good"
    and k: "\<And>x. good x \<Longrightarrow> decodes (k x) (enck x) (goodk x)"
    and f: "\<And>x y. good x \<Longrightarrow> goodk x y \<Longrightarrow> f y = x"
  shows "decodes (\<lambda>r. rbind (g r) (\<lambda>(x, r'). k x r'))
    (\<lambda>y. enc (f y) @ enck (f y) y) (\<lambda>y. good (f y) \<and> goodk (f y) y)"
proof (rule decodesI)
  fix r y bs
  assume ok: "reader_ok r" and good: "good (f y) \<and> goodk (f y) y"
    and r: "rest r = (enc (f y) @ enck (f y) y) @ bs"
  let ?r = "advance (length (enc (f y))) r"
  from r have r1: "rest r = enc (f y) @ (enck (f y) y @ bs)" by simp
  have "g r = Inr (f y, ?r)"
    using decodes_okD [OF g ok _ r1] good by simp
  moreover have "k (f y) ?r = Inr (y, advance (length (enck (f y) y)) ?r)"
    using decodes_okD [OF k [of "f y"]] good reader_ok_advance [OF ok r1] rest_advance [OF r1]
    by blast
  ultimately show "rbind (g r) (\<lambda>(x, r'). k x r')
      = Inr (y, advance (length (enc (f y) @ enck (f y) y)) r)"
    by simp
next
  fix r y r'
  assume ok: "reader_ok r" and "rbind (g r) (\<lambda>(x, r'). k x r') = Inr (y, r')"
  then obtain x r1 where x: "g r = Inr (x, r1)" and y: "k x r1 = Inr (y, r')"
    by (auto simp: rbind_Inr_iff)
  from g ok x obtain bs where wx: "good x" and 1: "rest r = enc x @ bs"
    "r1 = advance (length (enc x)) r" "reader_ok r1" "rest r1 = bs"
    by (rule decodes_invD)
  from k [OF wx] \<open>reader_ok r1\<close> y obtain bs' where wy: "goodk x y"
    and 2: "rest r1 = enck x y @ bs'" "r' = advance (length (enck x y)) r1"
    by (rule decodes_invD)
  from f [OF wx wy] 1 2 wx wy show "(good (f y) \<and> goodk (f y) y)
      \<and> (\<exists>bs. rest r = (enc (f y) @ enck (f y) y) @ bs)
      \<and> r' = advance (length (enc (f y) @ enck (f y) y)) r"
    by auto
qed

text \<open>A check between two reads.\<close>

lemma decodes_ensure:
  assumes "b \<Longrightarrow> decodes k enc good"
  shows "decodes (\<lambda>r. rbind (ensure b e) (\<lambda>_. k r)) enc (\<lambda>x. b \<and> good x)"
  using assms by (cases b) (simp_all add: decodes_fail)

section \<open>Counted lists\<close>

text \<open>\<open>for _ in 0..count { result.push(reader.item()?) }\<close>\<close>

fun read_each :: "(reader \<Rightarrow> 'e + ('a \<times> reader)) \<Rightarrow> nat \<Rightarrow> reader \<Rightarrow> 'e + ('a list \<times> reader)" where
  "read_each get 0 r = Inr ([], r)"
| "read_each get (Suc n) r =
     rbind (get r) (\<lambda>(x, r1). rbind (read_each get n r1) (\<lambda>(xs, r2). Inr (x # xs, r2)))"

text \<open>\<open>for item in items { put_item(&mut out, item)?; }\<close>\<close>

fun put_each :: "(bytes \<Rightarrow> 'a \<Rightarrow> 'e + bytes) \<Rightarrow> bytes \<Rightarrow> 'a list \<Rightarrow> 'e + bytes" where
  "put_each put out [] = Inr out"
| "put_each put out (x # xs) = rbind (put out x) (\<lambda>out'. put_each put out' xs)"

locale decoder =
  fixes get :: "reader \<Rightarrow> error + ('a \<times> reader)"
    and enc :: "'a \<Rightarrow> bytes"
    and good :: "'a \<Rightarrow> bool"
  assumes get_decodes: "decodes get enc good"
begin

lemma read_each_decodes:
  "decodes (read_each get n) (\<lambda>xs. concat (map enc xs)) (\<lambda>xs. length xs = n \<and> list_all good xs)"
proof (induction n)
  case 0
  show ?case
    unfolding read_each.simps by (rule decodes_cong [OF decodes_return [of "[]"]]) auto
next
  case (Suc n)
  have ret: "decodes (\<lambda>r. Inr (x # xs, r)) (\<lambda>_. []) (\<lambda>ys. ys \<noteq> [] \<and> hd ys = x \<and> tl ys = xs)"
    for x :: 'a and xs
    by (rule decodes_cong [OF decodes_return [of "x # xs"]]) (auto simp: neq_Nil_conv)
  have inner: "decodes (\<lambda>r. rbind (read_each get n r) (\<lambda>(xs, r2). Inr (x # xs, r2)))
     (\<lambda>ys. concat (map enc (tl ys)) @ [])
     (\<lambda>ys. (length (tl ys) = n \<and> list_all good (tl ys)) \<and> ys \<noteq> [] \<and> hd ys = x \<and> tl ys = tl ys)" for x
    by (rule decodes_seq [OF Suc ret, where f = tl]) simp
  show ?case
    unfolding read_each.simps
  proof (rule decodes_cong [OF decodes_seq [OF get_decodes inner, where f = hd]])
    fix ys :: "'a list"
    show "good (hd ys) \<and> (length (tl ys) = n \<and> list_all good (tl ys)) \<and> ys \<noteq> [] \<and> hd ys = hd ys
        \<and> tl ys = tl ys \<longleftrightarrow> length ys = Suc n \<and> list_all good ys"
      by (cases ys) auto
    assume "good (hd ys) \<and> (length (tl ys) = n \<and> list_all good (tl ys)) \<and> ys \<noteq> []
      \<and> hd ys = hd ys \<and> tl ys = tl ys"
    then show "enc (hd ys) @ concat (map enc (tl ys)) @ [] = concat (map enc ys)"
      by (cases ys) auto
  qed auto
qed

lemma enc_prefix_free:
  assumes "good x" "good y" "enc x @ a = enc y @ b" "length (enc x @ a) < 2 ^ 63"
  shows "x = y"
proof -
  let ?r = "reader_new (enc x @ a)"
  have "get ?r = Inr (x, advance (length (enc x)) ?r)"
    using decodes_okD [OF get_decodes, of ?r x a] assms by simp
  moreover have "get ?r = Inr (y, advance (length (enc y)) ?r)"
    using decodes_okD [OF get_decodes, of ?r y b] assms by simp
  ultimately show ?thesis by simp
qed

end

locale codec = decoder +
  fixes put :: "bytes \<Rightarrow> 'a \<Rightarrow> error + bytes"
    and fits :: "'a \<Rightarrow> bool"
  assumes put_ok: "fits x \<Longrightarrow> put out x = Inr (out @ enc x)"
    and put_inv: "put out x = Inr out' \<Longrightarrow> fits x \<and> out' = out @ enc x"
    and good_fits: "good x \<Longrightarrow> fits x"
begin

lemma put_each_ok:
  "list_all fits xs \<Longrightarrow> put_each put out xs = Inr (out @ concat (map enc xs))"
  by (induction xs arbitrary: out) (simp_all add: put_ok)

lemma put_each_inv:
  "put_each put out xs = Inr out' \<Longrightarrow> list_all fits xs \<and> out' = out @ concat (map enc xs)"
proof (induction xs arbitrary: out)
  case (Cons x xs)
  then obtain out1 where 1: "put out x = Inr out1" "put_each put out1 xs = Inr out'"
    by (auto simp: rbind_Inr_iff)
  from put_inv [OF 1(1)] Cons.IH [OF 1(2)] show ?case by simp
qed simp

lemma put_Inr_iff: "put out x = Inr out' \<longleftrightarrow> fits x \<and> out' = out @ enc x"
  using put_ok put_inv by blast

lemma put_each_Inr_iff:
  "put_each put out xs = Inr out' \<longleftrightarrow> list_all fits xs \<and> out' = out @ concat (map enc xs)"
  using put_each_ok put_each_inv by blast

end

section \<open>Fields over a bounds-checked take\<close>

text \<open>
  The contract of \<open>Reader::take\<close>, and the fixed-width integers and length-prefixed
  strings both readers build on it.
\<close>

locale byte_reader =
  fixes tk :: "nat \<Rightarrow> reader \<Rightarrow> error + (bytes \<times> reader)"
  assumes take_decodes: "decodes (tk n) (\<lambda>bs. bs) (\<lambda>bs. length bs = n)"
begin

lemma field_decodes:
  assumes "\<And>x. length (to_le x) = n" "\<And>x. from_le (to_le x) = x"
    and "\<And>bs. length bs = n \<Longrightarrow> to_le (from_le bs) = bs"
  shows "decodes (\<lambda>r. rbind (tk n r) (\<lambda>(bs, r'). Inr (from_le bs, r'))) to_le (\<lambda>_. True)"
proof -
  have ret: "decodes (\<lambda>r. Inr (from_le bs, r)) (\<lambda>_. []) (\<lambda>y. y = from_le bs)" for bs
    by (rule decodes_return)
  show ?thesis
    by (rule decodes_cong [OF decodes_seq [OF take_decodes ret, where f = to_le]])
      (use assms in auto)
qed

lemmas u16_decodes = field_decodes [of u16_to_le 2 u16_from_le, OF length_u_to_le(1)
    u16_le_roundtrip u16_le_canonical]
lemmas u32_decodes = field_decodes [of u32_to_le 4 u32_from_le, OF length_u_to_le(2)
    u32_le_roundtrip u32_le_canonical]
lemmas u64_decodes = field_decodes [of u64_to_le 8 u64_from_le, OF length_u_to_le(3)
    u64_le_roundtrip u64_le_canonical]

end

text \<open>A string is its length as a \<open>u16\<close> and its bytes.\<close>

definition enc_string :: "bytes \<Rightarrow> bytes" where
  "enc_string s = u16_to_le (word_of_nat (length s)) @ s"

definition string_fits :: "bytes \<Rightarrow> bool" where
  "string_fits s \<longleftrightarrow> length s \<le> 65535"

definition string_good :: "bytes \<Rightarrow> bool" where
  "string_good s \<longleftrightarrow> string_fits s \<and> str_ok s"

lemma unat_u16_length: "length s \<le> 65535 \<Longrightarrow> unat (word_of_nat (length s) :: u16) = length s"
  by (simp add: unat_of_nat)

context byte_reader
begin

lemma string_decodes:
  assumes rd: "decodes rd u16_to_le (\<lambda>_. True)"
  shows "decodes (\<lambda>r. rbind (rd r) (\<lambda>(n, r1). rbind (tk (unat n) r1)
      (\<lambda>(bs, r2). rbind (from_utf8 bs) (\<lambda>s. Inr (s, r2))))) enc_string string_good"
proof -
  have ret: "decodes (\<lambda>r. rbind (from_utf8 bs) (\<lambda>s. Inr (s, r))) (\<lambda>_. [])
      (\<lambda>y. str_ok bs \<and> y = bs)" for bs
    by (cases "str_ok bs") (simp_all add: from_utf8_def decodes_return decodes_fail)
  have inner: "decodes (\<lambda>r1. rbind (tk (unat n) r1)
      (\<lambda>(bs, r2). rbind (from_utf8 bs) (\<lambda>s. Inr (s, r2)))) (\<lambda>s. s)
      (\<lambda>s. str_ok s \<and> word_of_nat (length s) = n \<and> length s \<le> 65535)" for n :: u16
    using unat_lt [of n] unat_u16_length
    by (intro decodes_cong [OF decodes_seq [OF take_decodes ret, where f = "\<lambda>s. s"]])
      (auto simp: unat_of_nat)
  show ?thesis
    by (rule decodes_cong [OF decodes_seq [OF rd inner, where f = "\<lambda>s. word_of_nat (length s)"]])
      (auto simp: enc_string_def string_good_def string_fits_def)
qed

end

section \<open>Whole payloads\<close>

text \<open>
  A payload decoder reads a value and insists that nothing is left.  It is the exact
  inverse of the encoder on well-formed values: it accepts the encodings and nothing else.
\<close>

lemma payload_decode_iff:
  assumes "decodes get enc good" and "length bs < 2 ^ 63"
    and fin: "\<And>r. reader_ok r \<Longrightarrow> fin r = ensure (rcursor r = length (rdata r)) e"
  shows "rbind (get (reader_new bs)) (\<lambda>(x, r). rbind (fin r) (\<lambda>_. Inr x)) = Inr y
    \<longleftrightarrow> good y \<and> bs = enc y"
proof
  assume "rbind (get (reader_new bs)) (\<lambda>(x, r). rbind (fin r) (\<lambda>_. Inr x)) = Inr y"
  then obtain r where g: "get (reader_new bs) = Inr (y, r)" and d: "is_ok (fin r)"
    by (auto simp: rbind_Inr_iff)
  from assms(1) _ g obtain cs where "good y" "rest (reader_new bs) = enc y @ cs" "reader_ok r"
    "rest r = cs"
    by (rule decodes_invD) (use assms(2) in simp)
  moreover with d have "cs = []"
    by (auto simp: fin ensure_def rest_def split: if_splits)
  ultimately show "good y \<and> bs = enc y" by simp
next
  assume "good y \<and> bs = enc y"
  then show "rbind (get (reader_new bs)) (\<lambda>(x, r). rbind (fin r) (\<lambda>_. Inr x)) = Inr y"
    using decodes_okD [OF assms(1), of "reader_new bs" y "[]"] assms(2)
      reader_ok_advance [of "reader_new bs" bs "[]"]
    by (simp add: fin)
qed

end
