(* ===== verification/Model.thy ===== *)
theory Model
  imports Utf8
begin

text \<open>
  \<open>src/model.rs\<close>: the operation a client submits, its validation, and the results the
  service answers with.
\<close>

record operation =
  operation_id :: bytes
  owner_id :: bytes
  sku :: bytes
  delta :: i64
  event_version :: u64

lemma operation_eq_iff:
  "op = \<lparr>operation_id = i, owner_id = ow, sku = s, delta = d, event_version = v\<rparr> \<longleftrightarrow>
     operation_id op = i \<and> owner_id op = ow \<and> sku op = s \<and> delta op = d \<and> event_version op = v"
  by (cases op) auto

datatype apply_status = Applied | Duplicate

record apply_result =
  res_operation_id :: bytes
  res_status :: apply_status
  res_balance :: i64

definition default_event_version :: u64 where
  "default_event_version = 1"

section \<open>Validation\<close>

definition validate_identifier :: "string \<Rightarrow> bytes \<Rightarrow> string + unit" where
  "validate_identifier field v =
     (if v = [] \<or> length v > 128 then Inl ''identifier must contain 1..=128 bytes''
      else if trim_chars (chars v) \<noteq> chars v \<or> list_ex is_control (chars v)
      then Inl ''identifier must not contain surrounding whitespace or control characters''
      else Inr ())"

definition validate :: "operation \<Rightarrow> string + unit" where
  "validate op =
     rbind (validate_identifier ''operation_id'' (operation_id op)) (\<lambda>_.
     rbind (validate_identifier ''owner_id'' (owner_id op)) (\<lambda>_.
     rbind (validate_identifier ''sku'' (sku op)) (\<lambda>_.
     if delta op = 0 then Inl ''delta must not be zero''
     else if delta op = i64_min \<or> sint (i64_abs (delta op)) > 1000000000
     then Inl ''delta absolute value must be <= 1000000000''
     else if event_version op \<noteq> 1 then Inl ''unsupported event_version''
     else Inr ())))"

text \<open>The type invariant of Rust's \<open>String\<close> fields.\<close>

definition op_strings_ok :: "operation \<Rightarrow> bool" where
  "op_strings_ok op \<longleftrightarrow> str_ok (operation_id op) \<and> str_ok (owner_id op) \<and> str_ok (sku op)"

text \<open>What an accepted identifier and an accepted operation look like.\<close>

definition identifier_ok :: "bytes \<Rightarrow> bool" where
  "identifier_ok v \<longleftrightarrow>
     1 \<le> length v \<and> length v \<le> 128
     \<and> \<not> is_whitespace (hd (chars v)) \<and> \<not> is_whitespace (last (chars v))
     \<and> (\<forall>c \<in> set (chars v). \<not> is_control c)"

definition operation_ok :: "operation \<Rightarrow> bool" where
  "operation_ok op \<longleftrightarrow>
     identifier_ok (operation_id op) \<and> identifier_ok (owner_id op) \<and> identifier_ok (sku op)
     \<and> sint (delta op) \<noteq> 0 \<and> \<bar>sint (delta op)\<bar> \<le> 1000000000 \<and> event_version op = 1"

lemma validate_identifier_iff:
  assumes "str_ok v"
  shows "validate_identifier f v = Inr () \<longleftrightarrow> identifier_ok v"
proof -
  have "v \<noteq> [] \<Longrightarrow> chars v \<noteq> []"
    using assms by (simp add: str_ok_chars_Nil_iff)
  then show ?thesis
    by (auto simp: validate_identifier_def identifier_ok_def trim_chars_eq_self_iff list_ex_iff
        not_less Suc_le_eq)
qed

lemma delta_checks_iff:
  "\<not> (d = 0) \<and> \<not> (d = i64_min \<or> sint (i64_abs d) > 1000000000)
   \<longleftrightarrow> sint d \<noteq> 0 \<and> \<bar>sint d\<bar> \<le> 1000000000" for d :: i64
  by (cases "d = i64_min") (auto simp: sint_i64_abs sint_i64_min sint_i64_eq_0_iff)

lemma validate_iff:
  assumes "op_strings_ok op"
  shows "validate op = Inr () \<longleftrightarrow> operation_ok op"
proof -
  have "validate op = Inr () \<longleftrightarrow>
      identifier_ok (operation_id op) \<and> identifier_ok (owner_id op) \<and> identifier_ok (sku op)
      \<and> (\<not> (delta op = 0) \<and> \<not> (delta op = i64_min \<or> sint (i64_abs (delta op)) > 1000000000))
      \<and> event_version op = 1"
    using assms by (simp add: validate_def op_strings_ok_def rbind_Inr_iff validate_identifier_iff)
  also have "\<dots> \<longleftrightarrow> operation_ok op"
    unfolding delta_checks_iff operation_ok_def by blast
  finally show ?thesis .
qed

text \<open>
  A request operation passes \<open>Operation::validate\<close> exactly when its three identifiers
  have 1 to 128 bytes, start and end with a non-whitespace character and hold no control
  character, its delta is non-zero with absolute value at most one billion (so never
  \<open>i64::MIN\<close>, whose \<open>abs\<close> would overflow), and its event version is 1.
\<close>
theorem validate_exact:
  assumes "op_strings_ok op"
  shows "validate op = Inr () \<longleftrightarrow> operation_ok op"
  using assms by (rule validate_iff)

lemma identifier_ok_no_zero: "str_ok v \<Longrightarrow> identifier_ok v \<Longrightarrow> 0 \<notin> set v"
  using str_ok_zero_byte [of v] by (auto simp: identifier_ok_def is_control_def)

definition sample_op :: "string \<Rightarrow> string \<Rightarrow> string \<Rightarrow> int \<Rightarrow> operation" where
  "sample_op i ow s d =
     \<lparr>operation_id = ascii i, owner_id = ascii ow, sku = ascii s,
      delta = word_of_int d, event_version = 1\<rparr>"

lemma identifier_ok_ascii:
  "ascii_only s \<Longrightarrow> identifier_ok (ascii s) \<longleftrightarrow>
     1 \<le> length s \<and> length s \<le> 128
     \<and> \<not> is_whitespace (of_char (hd s)) \<and> \<not> is_whitespace (of_char (last s))
     \<and> list_all (\<lambda>c. \<not> is_control (of_char c)) s"
  by (cases "s = []") (auto simp: identifier_ok_def ascii_str_facts hd_map last_map list_all_iff)

lemmas sample_simps = sample_op_def operation_ok_def op_strings_ok_def identifier_ok_ascii
  ascii_only_def ascii_str_facts is_whitespace_def is_control_def

lemma sample_op_ok:
  "op_strings_ok (sample_op ''op-1'' ''owner-1'' ''sku-1'' 5)"
  "operation_ok (sample_op ''op-1'' ''owner-1'' ''sku-1'' 5)"
  by (simp_all add: sample_simps)

lemma validate_exact_witness:
  "validate (sample_op ''op-1'' ''owner-1'' ''sku-1'' 5) = Inr ()"
  using validate_exact [OF sample_op_ok(1)] sample_op_ok(2) by blast

end
