(* ===== verification/Binary.thy ===== *)
theory Binary
  imports Codec Model
begin

text \<open>
  \<open>src/binary.rs\<close>: the binary formats of an operation (WAL payloads and history rows), of
  a batch, and of a replicated log record (fence or operations).  The encoders append to
  a buffer as the code does; the decoders run the \<open>Reader\<close> and check that nothing is
  left over.  Each decoder is shown to be the exact inverse of its encoder.
\<close>

section \<open>Constants and records\<close>

definition OP_MAGIC :: bytes where
  "OP_MAGIC = [0x57, 0x4F, 0x50, 0x31]" \<comment> \<open>WOP1\<close>

definition BATCH_MAGIC :: bytes where
  "BATCH_MAGIC = [0x57, 0x42, 0x54, 0x31]" \<comment> \<open>WBT1\<close>

definition LOG_MAGIC :: bytes where
  "LOG_MAGIC = [0x57, 0x4C, 0x47, 0x31]" \<comment> \<open>WLG1\<close>

datatype binary_log_record =
    BinFence (bin_epoch: u64) (bin_owner: bytes)
  | BinOperations (bin_epoch: u64) (bin_operations: "operation list")

definition starts_with :: "bytes \<Rightarrow> bytes \<Rightarrow> bool" where
  "starts_with p d \<longleftrightarrow> take (length p) d = p"

section \<open>Encoders\<close>

definition put_u32 :: "bytes \<Rightarrow> nat \<Rightarrow> bytes result" where
  "put_u32 out v =
     (if v < 2 ^ 32 then Inr (out @ u32_to_le (word_of_nat v))
      else Inl (Msg ''count exceeds u32''))"

definition put_string :: "bytes \<Rightarrow> bytes \<Rightarrow> bytes result" where
  "put_string out s =
     (if length s < 2 ^ 16 then Inr (out @ u16_to_le (word_of_nat (length s)) @ s)
      else Inl (Msg ''string exceeds u16''))"

definition put_operation :: "bytes \<Rightarrow> operation \<Rightarrow> bytes result" where
  "put_operation out op =
     rbind (put_string out (operation_id op)) (\<lambda>out.
     rbind (put_string out (owner_id op)) (\<lambda>out.
     rbind (put_string out (sku op)) (\<lambda>out.
     Inr (out @ u64_to_le (delta op) @ u64_to_le (event_version op)))))"

definition encode_operation :: "operation \<Rightarrow> bytes result" where
  "encode_operation op = put_operation OP_MAGIC op"

definition encode_batch :: "operation list \<Rightarrow> bytes result" where
  "encode_batch ops =
     rbind (put_u32 BATCH_MAGIC (length ops)) (\<lambda>out. put_each put_operation out ops)"

definition encode_log_operations :: "u64 \<Rightarrow> operation list \<Rightarrow> bytes result" where
  "encode_log_operations epoch ops =
     rbind (put_u32 (LOG_MAGIC @ [2] @ u64_to_le epoch) (length ops))
       (\<lambda>out. put_each put_operation out ops)"

definition encode_log_fence :: "u64 \<Rightarrow> bytes \<Rightarrow> bytes result" where
  "encode_log_fence epoch own = put_string (LOG_MAGIC @ [1] @ u64_to_le epoch) own"

section \<open>The reader\<close>

definition reader_take :: "nat \<Rightarrow> reader \<Rightarrow> (bytes \<times> reader) result" where
  "reader_take n r =
     (case usize_checked_add (rcursor r) n of
        None \<Rightarrow> Inl (Msg ''binary offset overflow'')
      | Some e \<Rightarrow>
          rbind (ensure (e \<le> length (rdata r)) (Msg ''binary payload truncated'')) (\<lambda>_.
          Inr (take (e - rcursor r) (drop (rcursor r) (rdata r)), r\<lparr>rcursor := e\<rparr>)))"

definition reader_u8 :: "reader \<Rightarrow> (byte \<times> reader) result" where
  "reader_u8 r = rbind (reader_take 1 r) (\<lambda>(bs, r'). Inr (bs ! 0, r'))"

definition reader_u16 :: "reader \<Rightarrow> (u16 \<times> reader) result" where
  "reader_u16 r = rbind (reader_take 2 r) (\<lambda>(bs, r'). Inr (u16_from_le bs, r'))"

definition reader_u32 :: "reader \<Rightarrow> (u32 \<times> reader) result" where
  "reader_u32 r = rbind (reader_take 4 r) (\<lambda>(bs, r'). Inr (u32_from_le bs, r'))"

definition reader_u64 :: "reader \<Rightarrow> (u64 \<times> reader) result" where
  "reader_u64 r = rbind (reader_take 8 r) (\<lambda>(bs, r'). Inr (u64_from_le bs, r'))"

definition reader_i64 :: "reader \<Rightarrow> (i64 \<times> reader) result" where
  "reader_i64 r = rbind (reader_take 8 r) (\<lambda>(bs, r'). Inr (u64_from_le bs, r'))"

definition reader_count :: "reader \<Rightarrow> (nat \<times> reader) result" where
  "reader_count r =
     rbind (reader_u32 r) (\<lambda>(w, r').
     rbind (ensure (unat w \<le> 100000) (Msg ''binary batch count is unreasonable'')) (\<lambda>_.
     Inr (unat w, r')))"

definition reader_string :: "reader \<Rightarrow> (bytes \<times> reader) result" where
  "reader_string r =
     rbind (reader_u16 r) (\<lambda>(n, r1).
     rbind (reader_take (unat n) r1) (\<lambda>(bs, r2).
     rbind (from_utf8 bs) (\<lambda>s. Inr (s, r2))))"

definition reader_operation :: "reader \<Rightarrow> (operation \<times> reader) result" where
  "reader_operation r =
     rbind (reader_string r) (\<lambda>(i, r).
     rbind (reader_string r) (\<lambda>(ow, r).
     rbind (reader_string r) (\<lambda>(sk, r).
     rbind (reader_i64 r) (\<lambda>(d, r).
     rbind (reader_u64 r) (\<lambda>(v, r).
     Inr (\<lparr>operation_id = i, owner_id = ow, sku = sk, delta = d, event_version = v\<rparr>, r))))))"

definition reader_done :: "reader \<Rightarrow> unit result" where
  "reader_done r =
     ensure (rcursor r = length (rdata r)) (Msg ''binary payload has trailing bytes'')"

section \<open>Decoders\<close>

definition decode_operation :: "bytes \<Rightarrow> operation result" where
  "decode_operation data =
     rbind (ensure (starts_with OP_MAGIC data) (Msg ''not binary operation'')) (\<lambda>_.
     rbind (reader_operation (reader_new (drop 4 data))) (\<lambda>(op, r).
     rbind (reader_done r) (\<lambda>_. Inr op)))"

definition reader_operations :: "reader \<Rightarrow> (operation list \<times> reader) result" where
  "reader_operations r =
     rbind (reader_count r) (\<lambda>(n, r). read_each reader_operation n r)"

definition decode_batch :: "bytes \<Rightarrow> operation list result" where
  "decode_batch data =
     rbind (ensure (starts_with BATCH_MAGIC data) (Msg ''not binary batch'')) (\<lambda>_.
     rbind (reader_operations (reader_new (drop 4 data))) (\<lambda>(ops, r).
     rbind (reader_done r) (\<lambda>_. Inr ops)))"

definition reader_log_body :: "byte \<Rightarrow> u64 \<Rightarrow> reader \<Rightarrow> (binary_log_record \<times> reader) result" where
  "reader_log_body kind epoch r =
     (if kind = 1 then rbind (reader_string r) (\<lambda>(own, r). Inr (BinFence epoch own, r))
      else if kind = 2 then
        rbind (reader_operations r) (\<lambda>(ops, r). Inr (BinOperations epoch ops, r))
      else Inl (Msg ''unknown binary log record kind''))"

definition reader_log :: "reader \<Rightarrow> (binary_log_record \<times> reader) result" where
  "reader_log r =
     rbind (reader_u8 r) (\<lambda>(kind, r).
     rbind (reader_u64 r) (\<lambda>(epoch, r). reader_log_body kind epoch r))"

definition decode_log :: "bytes \<Rightarrow> binary_log_record result" where
  "decode_log data =
     rbind (ensure (starts_with LOG_MAGIC data) (Msg ''not binary log record'')) (\<lambda>_.
     rbind (reader_log (reader_new (drop 4 data))) (\<lambda>(rec, r).
     rbind (reader_done r) (\<lambda>_. Inr rec)))"

section \<open>The formats\<close>

definition enc_operation :: "operation \<Rightarrow> bytes" where
  "enc_operation op =
     enc_string (operation_id op) @ enc_string (owner_id op) @ enc_string (sku op)
     @ u64_to_le (delta op) @ u64_to_le (event_version op)"

definition operation_fits :: "operation \<Rightarrow> bool" where
  "operation_fits op \<longleftrightarrow>
     string_fits (operation_id op) \<and> string_fits (owner_id op) \<and> string_fits (sku op)"

definition operation_good :: "operation \<Rightarrow> bool" where
  "operation_good op \<longleftrightarrow>
     string_good (operation_id op) \<and> string_good (owner_id op) \<and> string_good (sku op)"

definition enc_operations :: "operation list \<Rightarrow> bytes" where
  "enc_operations ops = u32_to_le (word_of_nat (length ops)) @ concat (map enc_operation ops)"

definition operations_good :: "operation list \<Rightarrow> bool" where
  "operations_good ops \<longleftrightarrow> length ops \<le> 100000 \<and> list_all operation_good ops"

fun enc_log :: "binary_log_record \<Rightarrow> bytes" where
  "enc_log (BinFence epoch own) = [1] @ u64_to_le epoch @ enc_string own"
| "enc_log (BinOperations epoch ops) = [2] @ u64_to_le epoch @ enc_operations ops"

fun log_good :: "binary_log_record \<Rightarrow> bool" where
  "log_good (BinFence epoch own) = string_good own"
| "log_good (BinOperations epoch ops) = operations_good ops"

lemma reader_take_decodes: "decodes (reader_take n) (\<lambda>bs. bs) (\<lambda>bs. length bs = n)"
proof (rule decodesI)
  fix r x bs
  assume ok: "reader_ok r" and n: "length x = n" and r: "rest r = x @ bs"
  have le: "rcursor r + n \<le> length (rdata r)"
    using ok n reader_ok_advance [OF ok r] by (simp add: reader_ok_def)
  with ok n r show "reader_take n r = Inr (x, advance (length x) r)"
    by (auto simp: reader_take_def usize_checked_add_def reader_ok_def advance_def rest_def)
next
  fix r x r'
  assume ok: "reader_ok r" and t: "reader_take n r = Inr (x, r')"
  then have le: "rcursor r + n \<le> length (rdata r)"
    by (auto simp: reader_take_def usize_checked_add_def rbind_ensure_Inr_iff split: if_splits)
  with t ok have "x = take n (rest r)" "r' = advance n r" "length x = n"
    by (auto simp: reader_take_def usize_checked_add_def rest_def advance_def reader_ok_def)
  then show "length x = n \<and> (\<exists>bs. rest r = x @ bs) \<and> r' = advance (length x) r"
    by (metis append_take_drop_id)
qed

interpretation bin: byte_reader reader_take
  by unfold_locales (rule reader_take_decodes)

lemma reader_u16_decodes: "decodes reader_u16 u16_to_le (\<lambda>_. True)"
  unfolding reader_u16_def [abs_def] by (rule bin.u16_decodes)

lemma reader_u32_decodes: "decodes reader_u32 u32_to_le (\<lambda>_. True)"
  unfolding reader_u32_def [abs_def] by (rule bin.u32_decodes)

lemma reader_u64_decodes: "decodes reader_u64 u64_to_le (\<lambda>_. True)"
  unfolding reader_u64_def [abs_def] by (rule bin.u64_decodes)

lemma reader_i64_decodes: "decodes reader_i64 u64_to_le (\<lambda>_. True)"
  unfolding reader_i64_def [abs_def] by (rule bin.u64_decodes)

lemma reader_u8_decodes: "decodes reader_u8 (\<lambda>b. [b]) (\<lambda>_. True)"
proof -
  have "decodes (\<lambda>r. rbind (reader_take 1 r) (\<lambda>(bs, r'). Inr (bs ! 0, r'))) (\<lambda>b. [b]) (\<lambda>_. True)"
    by (rule bin.field_decodes) (auto simp: length_Suc_conv)
  then show ?thesis unfolding reader_u8_def [abs_def] .
qed

lemma reader_string_decodes: "decodes reader_string enc_string string_good"
  unfolding reader_string_def [abs_def] by (rule bin.string_decodes [OF reader_u16_decodes])

lemma reader_count_decodes:
  "decodes reader_count (\<lambda>n. u32_to_le (word_of_nat n)) (\<lambda>n. n \<le> 100000)"
proof -
  have ret: "decodes (\<lambda>r. rbind (ensure (unat w \<le> 100000) (Msg ''binary batch count is unreasonable''))
      (\<lambda>_. Inr (unat w, r))) (\<lambda>_. []) (\<lambda>n. unat w \<le> 100000 \<and> n = unat w)" for w :: u32
    by (rule decodes_ensure) (rule decodes_return)
  show ?thesis
    unfolding reader_count_def [abs_def]
    by (rule decodes_cong [OF decodes_seq [OF reader_u32_decodes ret, where f = word_of_nat]])
      (auto simp: unat_of_nat)
qed

lemma reader_operation_decodes: "decodes reader_operation enc_operation operation_good"
proof -
  note step = decodes_seq
  have 5: "decodes (\<lambda>r. rbind (reader_u64 r) (\<lambda>(v, r).
       Inr (\<lparr>operation_id = i, owner_id = ow, sku = sk, delta = d, event_version = v\<rparr>, r)))
     (\<lambda>op. u64_to_le (event_version op))
     (\<lambda>op. operation_id op = i \<and> owner_id op = ow \<and> sku op = sk \<and> delta op = d)" for i ow sk d
    by (rule decodes_cong [OF step [OF reader_u64_decodes decodes_return, where f = event_version]])
      (auto simp: operation_eq_iff)
  note 4 = step [OF reader_i64_decodes 5, where f = delta]
  note 3 = step [OF reader_string_decodes 4, where f = sku]
  note 2 = step [OF reader_string_decodes 3, where f = owner_id]
  note 1 = step [OF reader_string_decodes 2, where f = operation_id]
  show ?thesis
    unfolding reader_operation_def [abs_def]
    by (rule decodes_cong [OF 1]) (auto simp: enc_operation_def operation_good_def)
qed

lemma put_string_iff:
  "put_string out s = Inr out' \<longleftrightarrow> string_fits s \<and> out' = out @ enc_string s"
  by (auto simp: put_string_def string_fits_def enc_string_def)

lemma put_operation_iff:
  "put_operation out op = Inr out' \<longleftrightarrow> operation_fits op \<and> out' = out @ enc_operation op"
  by (auto simp: put_operation_def rbind_Inr_iff put_string_iff operation_fits_def enc_operation_def)

interpretation op_codec: codec reader_operation enc_operation operation_good put_operation operation_fits
  by unfold_locales
    (auto simp: reader_operation_decodes put_operation_iff operation_good_def operation_fits_def
      string_good_def)

interpretation string_codec: codec reader_string enc_string string_good put_string string_fits
  by unfold_locales (auto simp: reader_string_decodes put_string_iff string_good_def)

lemma reader_operations_decodes: "decodes reader_operations enc_operations operations_good"
  unfolding reader_operations_def [abs_def]
  by (rule decodes_cong [OF decodes_seq [OF reader_count_decodes op_codec.read_each_decodes,
        where f = length]])
    (auto simp: enc_operations_def operations_good_def)

lemma fence_shape:
  "string_good (bin_owner rec) \<and> rec = BinFence e (bin_owner rec) \<longleftrightarrow>
     log_good rec \<and> bin_epoch rec = e \<and> hd (enc_log rec) = 1"
  "hd (enc_log rec) = 1 \<Longrightarrow> enc_string (bin_owner rec) = drop 9 (enc_log rec)"
  by (cases rec; force)+

lemma operations_shape:
  "operations_good (bin_operations rec) \<and> rec = BinOperations e (bin_operations rec) \<longleftrightarrow>
     log_good rec \<and> bin_epoch rec = e \<and> hd (enc_log rec) = 2"
  "hd (enc_log rec) = 2 \<Longrightarrow>
     enc_operations (bin_operations rec) = drop 9 (enc_log rec)"
  by (cases rec; force)+

lemma reader_log_body_decodes:
  "decodes (reader_log_body kind epoch) (\<lambda>rec. drop 9 (enc_log rec))
     (\<lambda>rec. log_good rec \<and> bin_epoch rec = epoch \<and> hd (enc_log rec) = kind)"
proof -
  consider (fence) "kind = 1" | (ops) "kind = 2" | (other) "kind \<noteq> 1" "kind \<noteq> 2" by blast
  then show ?thesis
  proof cases
    case fence
    have "decodes (\<lambda>r. rbind (reader_string r) (\<lambda>(own, r). Inr (BinFence epoch own, r)))
      (\<lambda>rec. drop 9 (enc_log rec))
      (\<lambda>rec. log_good rec \<and> bin_epoch rec = epoch \<and> hd (enc_log rec) = 1)"
      by (rule decodes_cong [OF decodes_seq [OF reader_string_decodes decodes_return,
              where f = bin_owner]]) (auto simp only: fence_shape append_Nil2 binary_log_record.sel)
    with fence show ?thesis by (simp add: reader_log_body_def [abs_def])
  next
    case ops
    have "decodes (\<lambda>r. rbind (reader_operations r) (\<lambda>(ops, r). Inr (BinOperations epoch ops, r)))
      (\<lambda>rec. drop 9 (enc_log rec))
      (\<lambda>rec. log_good rec \<and> bin_epoch rec = epoch \<and> hd (enc_log rec) = 2)"
      by (rule decodes_cong [OF decodes_seq [OF reader_operations_decodes decodes_return,
              where f = bin_operations]])
        (auto simp only: operations_shape append_Nil2 binary_log_record.sel)
    with ops show ?thesis by (simp add: reader_log_body_def [abs_def])
  next
    case other
    then have "decodes (reader_log_body kind epoch) (\<lambda>rec. drop 9 (enc_log rec)) (\<lambda>_. False)"
      by (simp add: reader_log_body_def [abs_def] decodes_fail)
    then show ?thesis
      by (rule decodes_cong) (use other in \<open>auto elim!: log_good.elims\<close>)
  qed
qed

lemma enc_log_split:
  "enc_log rec = [hd (enc_log rec)] @ u64_to_le (bin_epoch rec) @ drop 9 (enc_log rec)"
  by (cases rec) simp_all

lemma reader_log_decodes: "decodes reader_log enc_log log_good"
  unfolding reader_log_def [abs_def]
  by (rule decodes_cong [OF decodes_seq [OF reader_u8_decodes
        decodes_seq [OF reader_u64_decodes reader_log_body_decodes, where f = bin_epoch],
        where f = "\<lambda>rec. hd (enc_log rec)"]])
    (use enc_log_split in auto)

section \<open>Encoders and decoders are exact inverses\<close>

lemma magic_length [simp]: "length OP_MAGIC = 4" "length BATCH_MAGIC = 4" "length LOG_MAGIC = 4"
  by (simp_all add: OP_MAGIC_def BATCH_MAGIC_def LOG_MAGIC_def)

lemma starts_with_iff: "starts_with p d \<longleftrightarrow> (\<exists>ys. d = p @ ys)"
  unfolding starts_with_def by (metis append_eq_conv_conj append_take_drop_id)

lemma encode_operation_iff:
  "encode_operation op = Inr bs \<longleftrightarrow> operation_fits op \<and> bs = OP_MAGIC @ enc_operation op"
  by (simp add: encode_operation_def put_operation_iff)

lemma operation_good_fits: "operation_good op \<Longrightarrow> operation_fits op"
  by (auto simp: operation_good_def operation_fits_def string_good_def)

lemma decode_payload_iff:
  fixes get :: "reader \<Rightarrow> ('a \<times> reader) result"
  assumes "decodes get enc good" "length bs < 2 ^ 63" "length magic = 4"
  shows "rbind (ensure (starts_with magic bs) e) (\<lambda>_. rbind (get (reader_new (drop 4 bs)))
      (\<lambda>(x, r). rbind (reader_done r) (\<lambda>_. Inr x))) = Inr y
    \<longleftrightarrow> good y \<and> bs = magic @ enc y"
proof -
  have "length (drop 4 bs) < 2 ^ 63" using assms(2) by simp
  note body = payload_decode_iff [OF assms(1) this reader_done_def]
  show ?thesis
  proof (cases "starts_with magic bs")
    case True
    then obtain ys where "bs = magic @ ys" by (auto simp: starts_with_iff)
    with True body assms(3) show ?thesis by simp
  qed (auto simp: starts_with_iff)
qed

lemma decode_operation_iff:
  "length bs < 2 ^ 63 \<Longrightarrow>
     decode_operation bs = Inr op \<longleftrightarrow> operation_good op \<and> bs = OP_MAGIC @ enc_operation op"
  unfolding decode_operation_def by (rule decode_payload_iff [OF reader_operation_decodes]) simp_all

text \<open>
  \<open>decode_operation\<close> is the exact inverse of \<open>encode_operation\<close>: on any byte string
  it returns an operation if and only if these bytes are the encoding of that operation
  and the operation's strings are valid UTF-8.  So every operation round-trips, and
  nothing but a canonical encoding is accepted (truncation, trailing bytes, a wrong magic
  and invalid UTF-8 are errors).
\<close>
theorem decode_operation_exact:
  assumes "length bs < 2 ^ 63"
  shows "decode_operation bs = Inr op \<longleftrightarrow> op_strings_ok op \<and> encode_operation op = Inr bs"
  using decode_operation_iff [OF assms]
  by (auto simp: encode_operation_iff operation_good_def operation_fits_def string_good_def
      op_strings_ok_def)

lemma sample_op_encodes:
  assumes "op = sample_op ''op-1'' ''owner-1'' ''sku-1'' 5"
  shows "encode_operation op = Inr (OP_MAGIC @ enc_operation op)"
    and "length (OP_MAGIC @ enc_operation op) = 42"
    and "op_strings_ok op"
    and "operation_good op"
  using sample_op_ok(1) unfolding assms
  by (simp_all add: encode_operation_iff operation_fits_def string_fits_def sample_op_def
      enc_operation_def enc_string_def op_strings_ok_def operation_good_def string_good_def)

lemma decode_operation_exact_witness:
  "\<exists>bs. length bs = 42 \<and> encode_operation (sample_op ''op-1'' ''owner-1'' ''sku-1'' 5) = Inr bs
     \<and> decode_operation bs = Inr (sample_op ''op-1'' ''owner-1'' ''sku-1'' 5)"
proof -
  let ?op = "sample_op ''op-1'' ''owner-1'' ''sku-1'' 5"
  note s = sample_op_encodes [of ?op, OF refl]
  have "length (OP_MAGIC @ enc_operation ?op) < 2 ^ 63" by (subst s(2)) simp
  from decode_operation_exact [OF this, of ?op] s show ?thesis by blast
qed

lemma operations_good_iff:
  "operations_good ops \<longleftrightarrow>
     length ops \<le> 100000 \<and> list_all op_strings_ok ops \<and> list_all operation_fits ops"
  by (auto simp: operations_good_def operation_good_def operation_fits_def op_strings_ok_def
      string_good_def list_all_iff)

lemma encode_batch_iff:
  "encode_batch ops = Inr bs \<longleftrightarrow>
     length ops < 2 ^ 32 \<and> list_all operation_fits ops \<and> bs = BATCH_MAGIC @ enc_operations ops"
  by (auto simp: encode_batch_def put_u32_def rbind_Inr_iff op_codec.put_each_Inr_iff
      enc_operations_def)

text \<open>
  \<open>decode_batch\<close> is the exact inverse of \<open>encode_batch\<close> on batches of at most 100000
  operations: it returns a list if and only if the bytes are this list's encoding.
\<close>
theorem decode_batch_exact:
  assumes "length bs < 2 ^ 63"
  shows "decode_batch bs = Inr ops \<longleftrightarrow>
    length ops \<le> 100000 \<and> list_all op_strings_ok ops \<and> encode_batch ops = Inr bs"
proof -
  have "decode_batch bs = Inr ops \<longleftrightarrow> operations_good ops \<and> bs = BATCH_MAGIC @ enc_operations ops"
    unfolding decode_batch_def
    by (rule decode_payload_iff [OF reader_operations_decodes assms]) simp
  then show ?thesis by (auto simp: operations_good_iff encode_batch_iff)
qed

lemma decode_batch_exact_witness:
  "\<exists>bs. encode_batch [sample_op ''op-1'' ''owner-1'' ''sku-1'' 5] = Inr bs
     \<and> decode_batch bs = Inr [sample_op ''op-1'' ''owner-1'' ''sku-1'' 5]"
proof -
  let ?op = "sample_op ''op-1'' ''owner-1'' ''sku-1'' 5"
  note s = sample_op_encodes [of ?op, OF refl]
  from s(2) have len: "length (BATCH_MAGIC @ enc_operations [?op]) < 2 ^ 63"
    by (simp add: enc_operations_def)
  have "encode_batch [?op] = Inr (BATCH_MAGIC @ enc_operations [?op])"
    using operation_good_fits [OF s(4)] by (simp add: encode_batch_iff)
  with decode_batch_exact [OF len, of "[?op]"] s(3) show ?thesis by auto
qed

text \<open>An operation that passed validation: it fits every format.\<close>

definition storable :: "operation \<Rightarrow> bool" where
  "storable op \<longleftrightarrow> op_strings_ok op \<and> operation_ok op"

lemma storable_facts:
  assumes "storable op"
  shows "operation_good op" "operation_fits op" "length (OP_MAGIC @ enc_operation op) < 2 ^ 63"
    "str_ok (operation_id op)" "0 \<notin> set (operation_id op)" "0 \<notin> set (owner_id op)" "0 \<notin> set (sku op)"
proof -
  have len: "length (operation_id op) \<le> 128" "length (owner_id op) \<le> 128" "length (sku op) \<le> 128"
    using assms by (simp_all add: storable_def operation_ok_def identifier_ok_def)
  with assms show good: "operation_good op"
    by (simp add: operation_good_def string_good_def string_fits_def storable_def op_strings_ok_def)
  then show "operation_fits op" by (rule operation_good_fits)
  show "length (OP_MAGIC @ enc_operation op) < 2 ^ 63"
    using len by (simp add: enc_operation_def enc_string_def)
  show "str_ok (operation_id op)" "0 \<notin> set (operation_id op)" "0 \<notin> set (owner_id op)" "0 \<notin> set (sku op)"
    using assms identifier_ok_no_zero by (simp_all add: storable_def operation_ok_def op_strings_ok_def)
qed

lemma storable_encode: "storable op \<Longrightarrow> encode_operation op = Inr (OP_MAGIC @ enc_operation op)"
  by (simp add: encode_operation_iff storable_facts)

lemma storable_decode: "storable op \<Longrightarrow> decode_operation (OP_MAGIC @ enc_operation op) = Inr op"
  using decode_operation_iff storable_facts by blast

text \<open>The encoder of a log record, by its kind.\<close>

definition encode_log :: "binary_log_record \<Rightarrow> bytes result" where
  "encode_log rec =
     (case rec of
        BinFence epoch own \<Rightarrow> encode_log_fence epoch own
      | BinOperations epoch ops \<Rightarrow> encode_log_operations epoch ops)"

definition log_strings_ok :: "binary_log_record \<Rightarrow> bool" where
  "log_strings_ok rec =
     (case rec of
        BinFence epoch own \<Rightarrow> str_ok own
      | BinOperations epoch ops \<Rightarrow> length ops \<le> 100000 \<and> list_all op_strings_ok ops)"

lemma encode_log_fence_iff:
  "encode_log_fence epoch own = Inr bs \<longleftrightarrow>
     string_fits own \<and> bs = LOG_MAGIC @ enc_log (BinFence epoch own)"
  by (auto simp: encode_log_fence_def put_string_iff)

lemma encode_log_operations_iff:
  "encode_log_operations epoch ops = Inr bs \<longleftrightarrow>
     length ops < 2 ^ 32 \<and> list_all operation_fits ops
     \<and> bs = LOG_MAGIC @ enc_log (BinOperations epoch ops)"
  by (auto simp: encode_log_operations_def put_u32_def rbind_Inr_iff op_codec.put_each_Inr_iff
      enc_operations_def)

lemma decode_log_iff:
  assumes "length bs < 2 ^ 63"
  shows "decode_log bs = Inr rec \<longleftrightarrow> log_good rec \<and> bs = LOG_MAGIC @ enc_log rec"
  unfolding decode_log_def by (rule decode_payload_iff [OF reader_log_decodes assms]) simp

text \<open>
  C32: \<open>decode_log\<close> is the exact inverse of \<open>encode_log_fence\<close> and \<open>encode_log_operations\<close>:
  a replicated record decodes to a fence or to a batch if and only if its bytes are what
  the writer publishes for it, with the same epoch.
\<close>
theorem decode_log_exact:
  assumes "length bs < 2 ^ 63"
  shows "decode_log bs = Inr rec \<longleftrightarrow> log_strings_ok rec \<and> encode_log rec = Inr bs"
  unfolding decode_log_iff [OF assms]
  by (cases rec) (auto simp: encode_log_def log_strings_ok_def encode_log_fence_iff
      encode_log_operations_iff operations_good_iff string_good_def simp del: enc_log.simps)

lemma decode_log_exact_witness:
  "\<exists>bs. encode_log_fence 8 (ascii ''writer-1'') = Inr bs
     \<and> decode_log bs = Inr (BinFence 8 (ascii ''writer-1''))"
proof -
  let ?rec = "BinFence 8 (ascii ''writer-1'')"
  have len: "length (LOG_MAGIC @ enc_log ?rec) < 2 ^ 63"
    by (simp add: enc_string_def)
  have "encode_log_fence 8 (ascii ''writer-1'') = Inr (LOG_MAGIC @ enc_log ?rec)"
    by (simp add: encode_log_fence_iff string_fits_def del: enc_log.simps)
  moreover from this have "decode_log (LOG_MAGIC @ enc_log ?rec) = Inr ?rec"
    by (subst decode_log_exact [OF len])
      (simp add: log_strings_ok_def encode_log_def ascii_str_facts ascii_only_def)
  ultimately show ?thesis by blast
qed

lemma decoded_prefix_eq:
  assumes "encode_operation op = Inr (bs1 @ bs2)" "op_strings_ok op" "length (bs1 @ bs2) < 2 ^ 63"
    and d: "decode_operation bs1 = Inr op'"
  shows "op' = op \<and> bs2 = []"
proof -
  from d assms(3) have o': "operation_good op'" "bs1 = OP_MAGIC @ enc_operation op'"
    by (simp_all add: decode_operation_iff)
  have o: "operation_good op" "bs1 @ bs2 = OP_MAGIC @ enc_operation op"
    using assms(1-3) by (auto simp: encode_operation_iff operation_good_def operation_fits_def
        string_good_def op_strings_ok_def)
  with o' have eq: "enc_operation op' @ bs2 = enc_operation op @ []" by simp
  have "length (enc_operation op' @ bs2) < 2 ^ 63"
    using assms(3) o'(2) by simp
  from op_codec.enc_prefix_free [OF o'(1) o(1) eq this] eq show ?thesis by simp
qed

text \<open>
  No proper prefix and no proper extension of an encoded operation decodes: a payload
  cut short or followed by further bytes is an error, never another operation.
\<close>
theorem operation_truncation_rejected:
  assumes "encode_operation op = Inr bs" and "op_strings_ok op" and "length (bs @ extra) < 2 ^ 63"
    and "k < length bs" and "extra \<noteq> []"
  shows "\<not> is_ok (decode_operation (take k bs)) \<and> \<not> is_ok (decode_operation (bs @ extra))"
proof -
  have "encode_operation op = Inr (take k bs @ drop k bs)" "length (take k bs @ drop k bs) < 2 ^ 63"
    using assms(1,3) by simp_all
  from decoded_prefix_eq [OF this(1) assms(2) this(2)] assms(4)
  have 1: "\<not> is_ok (decode_operation (take k bs))" by (auto simp: is_ok_iff)
  have "bs = OP_MAGIC @ enc_operation op" using assms(1) by (simp add: encode_operation_iff)
  moreover have False if "decode_operation (bs @ extra) = Inr op'" for op'
  proof -
    from that assms(3) have "operation_good op'" "bs @ extra = OP_MAGIC @ enc_operation op'"
      by (simp_all add: decode_operation_iff)
    then have "encode_operation op' = Inr (bs @ extra)" "op_strings_ok op'"
      by (auto simp: encode_operation_iff operation_good_fits operation_good_def op_strings_ok_def
          string_good_def)
    moreover have "decode_operation bs = Inr op"
      using assms(1-3) decode_operation_exact [of bs op] by simp
    ultimately show False using decoded_prefix_eq [of op' bs extra op] assms(3,5) by simp
  qed
  ultimately show ?thesis using 1 by (auto simp: is_ok_iff)
qed

lemma operation_truncation_rejected_witness:
  "\<exists>bs. encode_operation (sample_op ''op-1'' ''owner-1'' ''sku-1'' 5) = Inr bs
     \<and> \<not> is_ok (decode_operation (take 41 bs)) \<and> \<not> is_ok (decode_operation (bs @ [0]))"
proof -
  let ?op = "sample_op ''op-1'' ''owner-1'' ''sku-1'' 5"
  note s = sample_op_encodes [of ?op, OF refl]
  have "length ((OP_MAGIC @ enc_operation ?op) @ [0]) < 2 ^ 63" by (subst length_append, subst s(2)) simp
  from operation_truncation_rejected [OF s(1) s(3) this, of 41] s(1,2) show ?thesis by auto
qed

end
