(* ===== verification/Wal.thy ===== *)
theory Wal
  imports Binary
begin

text \<open>
  \<open>src/wal.rs\<close>: the local write-ahead log.  A record is \<open>len:u32 LE\<close>, \<open>crc:u32 LE\<close> and
  the payload.  The model has the recovery loop over the file's bytes, the writer task
  (group commit, reset) as a function from the commands it receives and the outcomes of
  its I/O to the new file and the acknowledgements, and the contents a crash can leave.

  \<open>crc32fast::hash\<close> and \<open>serde_json::from_slice\<close> are parameters (\<open>crc\<close>, \<open>json\<close>).
\<close>

section \<open>Records and recovery\<close>

definition HEADER_SIZE :: nat where
  "HEADER_SIZE = 8"

definition frame :: "(bytes \<Rightarrow> u32) \<Rightarrow> bytes \<Rightarrow> bytes" where
  "frame crc payload =
     u32_to_le (word_of_nat (length payload)) @ u32_to_le (crc payload) @ payload"

definition frames :: "(bytes \<Rightarrow> u32) \<Rightarrow> bytes list \<Rightarrow> bytes" where
  "frames crc payloads = concat (map (frame crc) payloads)"

function recover_loop :: "(bytes \<Rightarrow> u32) \<Rightarrow> (bytes \<Rightarrow> operation result) \<Rightarrow> bytes \<Rightarrow> nat
    \<Rightarrow> operation list \<Rightarrow> (operation list \<times> nat) result" where
  "recover_loop crc json data cursor ops =
     (if length data - cursor \<ge> HEADER_SIZE then
        let header = take HEADER_SIZE (drop cursor data);
            size = unat (u32_from_le (take 4 header));
            checksum = u32_from_le (drop 4 header)
        in rbind (ensure (size \<le> 1024 * 1024) (Msg ''WAL record exceeds 1 MiB'')) (\<lambda>_.
           let record_end = cursor + HEADER_SIZE + size in
           if record_end > length data then Inr (ops, cursor)
           else let payload = take size (drop (cursor + HEADER_SIZE) data)
           in rbind (ensure (crc payload = checksum) (Msg ''WAL checksum mismatch'')) (\<lambda>_.
              rbind (or_else (decode_operation payload)
                       (map_err (\<lambda>_. Msg ''invalid legacy JSON WAL record'') (json payload)))
                (\<lambda>op. recover_loop crc json data record_end (ops @ [op]))))
      else Inr (ops, cursor))"
  by pat_completeness auto
termination
  by (relation "measure (\<lambda>(crc, json, data, cursor, ops). length data - cursor)")
    (auto simp: HEADER_SIZE_def)

declare recover_loop.simps [simp del]

definition recover :: "(bytes \<Rightarrow> u32) \<Rightarrow> (bytes \<Rightarrow> operation result) \<Rightarrow> read_outcome
    \<Rightarrow> (operation list \<times> nat) result" where
  "recover crc json rd =
     (case rd of
        FileData data \<Rightarrow> recover_loop crc json data 0 []
      | FileNotFound \<Rightarrow> Inr ([], 0)
      | FileError \<Rightarrow> Inl IoError)"

text \<open>
  \<open>Wal::open\<close>: recover, then cut the file to its valid length.  The result is the new
  content of the file and the recovered operations.
\<close>

definition file_content :: "read_outcome \<Rightarrow> bytes" where
  "file_content rd = (case rd of FileData data \<Rightarrow> data | _ \<Rightarrow> [])"

definition wal_open :: "(bytes \<Rightarrow> u32) \<Rightarrow> (bytes \<Rightarrow> operation result) \<Rightarrow> read_outcome
    \<Rightarrow> (bytes \<times> operation list) result" where
  "wal_open crc json rd =
     rbind (recover crc json rd) (\<lambda>(ops, valid_len). Inr (take valid_len (file_content rd), ops))"

definition queue_capacity :: "nat \<Rightarrow> nat" where
  "queue_capacity max_batch = min (max max_batch 64) 4096"

section \<open>The writer task\<close>

text \<open>Commands carry the identity of the one-shot channel that takes their answer.\<close>

datatype write_command = Append "bytes list" nat | Reset nat

text \<open>\<open>append_many\<close>: nothing to send for an empty list, else one \<open>Append\<close> command.\<close>

definition append_many :: "operation list \<Rightarrow> nat \<Rightarrow> write_command option result" where
  "append_many ops completed =
     (if ops = [] then Inr None
      else rbind (collect_results encode_operation ops)
             (\<lambda>payloads. Inr (Some (Append payloads completed))))"

text \<open>
  The collection loop of a group commit.  \<open>arrivals\<close> are the commands that arrive before
  the deadline.  \<open>select!\<close> takes an \<open>Append\<close>; a \<open>Reset\<close> does not match the branch's
  pattern: it has been received and is dropped with its channel, the branch is disabled
  and the loop ends at the deadline.  Result: the batch, the dropped channels, the
  commands still queued.
\<close>

fun collect :: "nat \<Rightarrow> nat \<Rightarrow> (bytes list \<times> nat) list \<Rightarrow> write_command list
    \<Rightarrow> (bytes list \<times> nat) list \<times> nat list \<times> write_command list" where
  "collect max_batch records batch [] = (batch, [], [])"
| "collect max_batch records batch (c # q) =
     (if records < max_batch then
        case c of
          Append payloads completed \<Rightarrow>
            collect max_batch (records + length payloads) (batch @ [(payloads, completed)]) q
        | Reset completed \<Rightarrow> (batch, [completed], q)
      else (batch, [], c # q))"

text \<open>
  The file, the length of the prefix known to be on disk, and the earlier content a crash
  can bring back while a truncation is not yet synced.
\<close>

record wal =
  wal_file :: bytes
  wal_synced :: nat
  wal_shadow :: "bytes option"

datatype io_outcome =
    IoOk
  | IoFail nat \<comment> \<open>\<open>write_all\<close> or \<open>sync_data\<close> failed after this many bytes of the buffer\<close>

datatype reset_outcome = ResetOk | ResetFailed | ResetNotSynced

definition batch_buffer :: "(bytes \<Rightarrow> u32) \<Rightarrow> (bytes list \<times> nat) list \<Rightarrow> bytes" where
  "batch_buffer crc batch = concat (map (\<lambda>(payloads, _). frames crc payloads) batch)"

definition write_batch :: "(bytes \<Rightarrow> u32) \<Rightarrow> io_outcome \<Rightarrow> wal \<Rightarrow> (bytes list \<times> nat) list
    \<Rightarrow> wal \<times> (nat \<times> bool) list" where
  "write_batch crc io w batch =
     (let buffer = batch_buffer crc batch in
      case io of
        IoOk \<Rightarrow>
          (\<lparr>wal_file = wal_file w @ buffer, wal_synced = length (wal_file w @ buffer),
            wal_shadow = None\<rparr>,
           map (\<lambda>(_, completed). (completed, True)) batch)
      | IoFail k \<Rightarrow>
          (w\<lparr>wal_file := wal_file w @ take k buffer\<rparr>,
           map (\<lambda>(_, completed). (completed, False)) batch))"

definition write_reset :: "reset_outcome \<Rightarrow> wal \<Rightarrow> nat \<Rightarrow> wal \<times> (nat \<times> bool) list" where
  "write_reset out w completed =
     (case out of
        ResetOk \<Rightarrow> (\<lparr>wal_file = [], wal_synced = 0, wal_shadow = None\<rparr>, [(completed, True)])
      | ResetFailed \<Rightarrow> (w, [(completed, False)])
      | ResetNotSynced \<Rightarrow>
          (\<lparr>wal_file = [], wal_synced = 0, wal_shadow = Some (wal_file w)\<rparr>, [(completed, False)]))"

text \<open>
  One turn of the writer loop, for the first command and the arrivals before the deadline:
  the new state, the answers sent, the channels dropped, the commands left in the queue.
\<close>

definition writer_turn :: "(bytes \<Rightarrow> u32) \<Rightarrow> nat \<Rightarrow> io_outcome \<Rightarrow> reset_outcome \<Rightarrow> wal
    \<Rightarrow> write_command \<Rightarrow> write_command list
    \<Rightarrow> wal \<times> (nat \<times> bool) list \<times> nat list \<times> write_command list" where
  "writer_turn crc max_batch io rio w first arrivals =
     (case first of
        Reset completed \<Rightarrow> (case write_reset rio w completed of (w', acks) \<Rightarrow> (w', acks, [], arrivals))
      | Append payloads completed \<Rightarrow>
          (case collect max_batch (length payloads) [(payloads, completed)] arrivals of
             (batch, dropped, left) \<Rightarrow>
               (case write_batch crc io w batch of (w', acks) \<Rightarrow> (w', acks, dropped, left))))"

text \<open>What can be in the file after a crash.\<close>

definition crash_content :: "wal \<Rightarrow> bytes \<Rightarrow> bool" where
  "crash_content w c \<longleftrightarrow>
     (\<exists>k. wal_synced w \<le> k \<and> k \<le> length (wal_file w) \<and> c = take k (wal_file w))
     \<or> wal_shadow w = Some c"

section \<open>Recovery of intact and torn logs\<close>

definition op_payload :: "operation \<Rightarrow> bytes" where
  "op_payload op = OP_MAGIC @ enc_operation op"

definition log_bytes :: "(bytes \<Rightarrow> u32) \<Rightarrow> operation list \<Rightarrow> bytes" where
  "log_bytes crc ops = frames crc (map op_payload ops)"

lemma length_frame [simp]: "length (frame crc p) = 8 + length p"
  by (simp add: frame_def)

lemma frames_simps [simp]:
  "frames crc [] = []"
  "frames crc (p # ps) = frame crc p @ frames crc ps"
  "frames crc (ps @ qs) = frames crc ps @ frames crc qs"
  by (simp_all add: frames_def)

lemma log_bytes_simps [simp]:
  "log_bytes crc [] = []"
  "log_bytes crc (op # ops) = frame crc (op_payload op) @ log_bytes crc ops"
  "log_bytes crc (xs @ ys) = log_bytes crc xs @ log_bytes crc ys"
  by (simp_all add: log_bytes_def)

lemma length_op_payload: "operation_fits op \<Longrightarrow> length (op_payload op) \<le> 1024 * 1024"
  by (simp add: op_payload_def enc_operation_def enc_string_def operation_fits_def string_fits_def)

lemma decode_op_payload: "operation_good op \<Longrightarrow> decode_operation (op_payload op) = Inr op"
  using length_op_payload [OF operation_good_fits, of op]
  by (simp add: op_payload_def decode_operation_iff)

lemma recover_loop_end:
  "length data - cursor < 8 \<Longrightarrow> recover_loop crc json data cursor ops = Inr (ops, cursor)"
  by (simp add: recover_loop.simps [of crc json data cursor ops] HEADER_SIZE_def)

text \<open>One step of the loop, in front of a header that announces the size \<open>sz\<close> and the checksum \<open>sm\<close>.\<close>

lemma recover_loop_header:
  assumes "data = pre @ hd8 @ tail" "length hd8 = 8"
    and "unat (u32_from_le (take 4 hd8)) = sz" "u32_from_le (drop 4 hd8) = sm"
  shows "recover_loop crc json data (length pre) ops =
    (if sz > 1024 * 1024 then Inl (Msg ''WAL record exceeds 1 MiB'')
     else if sz > length tail then Inr (ops, length pre)
     else if crc (take sz tail) \<noteq> sm then Inl (Msg ''WAL checksum mismatch'')
     else rbind (or_else (decode_operation (take sz tail))
                   (map_err (\<lambda>_. Msg ''invalid legacy JSON WAL record'') (json (take sz tail))))
            (\<lambda>op. recover_loop crc json data (length pre + 8 + sz) (ops @ [op])))"
proof -
  have h: "take 8 (drop (length pre) data) = hd8" "take sz (drop (length pre + 8) data) = take sz tail"
    using assms(1,2) by simp_all
  have l: "length data = length pre + 8 + length tail"
    using assms(1,2) by simp
  show ?thesis
    by (subst recover_loop.simps) (simp add: HEADER_SIZE_def h l assms(3,4) Let_def ensure_def)
qed

lemma recover_loop_frame:
  assumes "data = pre @ frame crc (op_payload op) @ post" "operation_good op"
  shows "recover_loop crc json data (length pre) ops =
    recover_loop crc json data (length pre + length (frame crc (op_payload op))) (ops @ [op])"
proof -
  let ?p = "op_payload op"
  have len: "length ?p \<le> 1024 * 1024"
    using assms(2) by (intro length_op_payload operation_good_fits)
  let ?h = "u32_to_le (word_of_nat (length ?p)) @ u32_to_le (crc ?p)"
  have d: "data = pre @ ?h @ (?p @ post)" using assms(1) by (simp add: frame_def)
  have "unat (u32_from_le (take 4 ?h)) = length ?p" using len by (simp add: unat_of_nat)
  from recover_loop_header [OF d _ this, of "crc ?p" crc json ops] len decode_op_payload [OF assms(2)]
  show ?thesis by (simp add: add.assoc)
qed

lemma recover_loop_torn:
  assumes "data = pre @ take k (frame crc p)" "k < length (frame crc p)" "length p \<le> 1024 * 1024"
  shows "recover_loop crc json data (length pre) ops = Inr (ops, length pre)"
proof (cases "k < 8")
  case True
  then show ?thesis using assms by (intro recover_loop_end) simp
next
  case False
  let ?h = "u32_to_le (word_of_nat (length p)) @ u32_to_le (crc p)"
  have d: "data = pre @ ?h @ take (k - 8) p" using assms(1) False by (simp add: frame_def)
  have "unat (u32_from_le (take 4 ?h)) = length p" using assms(3) by (simp add: unat_of_nat)
  moreover have "k - 8 < length p" using assms(2) False by simp
  ultimately show ?thesis
    using recover_loop_header [OF d _ _ _, of "length p" "crc p" crc json ops] assms(3) by simp
qed

lemma recover_loop_log:
  assumes "data = pre @ log_bytes crc xs @ tail" "list_all operation_good xs"
  shows "recover_loop crc json data (length pre) ops =
    recover_loop crc json data (length pre + length (log_bytes crc xs)) (ops @ xs)"
  using assms
proof (induction xs arbitrary: pre ops)
  case (Cons x xs)
  let ?pre = "pre @ frame crc (op_payload x)"
  have "recover_loop crc json data (length pre) ops =
      recover_loop crc json data (length ?pre) (ops @ [x])"
    using recover_loop_frame [of data pre crc x "log_bytes crc xs @ tail" json ops] Cons.prems by simp
  also have "\<dots> = recover_loop crc json data (length ?pre + length (log_bytes crc xs)) ((ops @ [x]) @ xs)"
    using Cons.prems by (intro Cons.IH) simp_all
  finally show ?case by (simp add: add.assoc)
qed simp

lemma take_log_bytes:
  "\<exists>j \<le> length ops.
     take k (log_bytes crc ops) = log_bytes crc (take j ops)
       @ (if j < length ops then take (k - length (log_bytes crc (take j ops)))
            (frame crc (op_payload (ops ! j))) else [])
     \<and> (length (log_bytes crc (take j ops)) \<le> k)
     \<and> (j < length ops \<longrightarrow> k < length (log_bytes crc (take (Suc j) ops)))"
proof (induction ops arbitrary: k)
  case (Cons x xs)
  let ?f = "frame crc (op_payload x)"
  show ?case
  proof (cases "k < length ?f")
    case True
    then show ?thesis by (intro exI [of _ 0]) simp
  next
    case False
    from Cons.IH [of "k - length ?f"] obtain j where j: "j \<le> length xs"
      "take (k - length ?f) (log_bytes crc xs) = log_bytes crc (take j xs)
       @ (if j < length xs then take (k - length ?f - length (log_bytes crc (take j xs)))
            (frame crc (op_payload (xs ! j))) else [])"
      "length (log_bytes crc (take j xs)) \<le> k - length ?f"
      "j < length xs \<longrightarrow> k - length ?f < length (log_bytes crc (take (Suc j) xs))"
      by blast
    have "take k (log_bytes crc (x # xs)) = ?f @ take (k - length ?f) (log_bytes crc xs)"
      using False by simp
    with False j show ?thesis by (intro exI [of _ "Suc j"]) auto
  qed
qed simp

text \<open>
  C11: recovery of a log cut anywhere.  After a crash the file is some prefix of the frames
  written; recovery returns exactly the operations whose frames are complete in it, in
  order, and the valid length is the end of the last complete frame.  It never fails and
  never returns a half-written operation.
\<close>
theorem recover_torn_log:
  assumes "list_all operation_good ops"
  shows "\<exists>j \<le> length ops.
    recover crc json (FileData (take k (log_bytes crc ops))) =
      Inr (take j ops, length (log_bytes crc (take j ops)))
    \<and> length (log_bytes crc (take j ops)) \<le> k
    \<and> (j < length ops \<longrightarrow> k < length (log_bytes crc (take (Suc j) ops)))"
proof -
  let ?data = "take k (log_bytes crc ops)"
  from take_log_bytes [of ops k crc] obtain j where j: "j \<le> length ops"
    "?data = log_bytes crc (take j ops)
       @ (if j < length ops then take (k - length (log_bytes crc (take j ops)))
            (frame crc (op_payload (ops ! j))) else [])"
    "length (log_bytes crc (take j ops)) \<le> k"
    "j < length ops \<longrightarrow> k < length (log_bytes crc (take (Suc j) ops))"
    by blast
  let ?n = "length (log_bytes crc (take j ops))"
  have "list_all operation_good (take j ops)"
    using assms by (auto simp: list_all_iff dest: in_set_takeD)
  then have "recover_loop crc json ?data 0 [] = recover_loop crc json ?data ?n (take j ops)"
    using recover_loop_log [of ?data "[]" crc "take j ops" _ json "[]"] j(2) by simp
  also have "\<dots> = Inr (take j ops, ?n)"
  proof (cases "j < length ops")
    case True
    have "length (op_payload (ops ! j)) \<le> 1024 * 1024"
      using assms True by (intro length_op_payload operation_good_fits) (simp add: list_all_length)
    moreover have "k - ?n < length (frame crc (op_payload (ops ! j)))"
      using j(3,4) True by (auto simp: take_Suc_conv_app_nth)
    ultimately show ?thesis using recover_loop_torn [OF _ _ _] j(2) True by simp
  qed (use j(2) in \<open>simp add: recover_loop_end\<close>)
  finally show ?thesis using j by (intro exI [of _ j]) (simp add: recover_def)
qed

lemma recover_torn_log_witness:
  "\<exists>j \<le> 1. recover (\<lambda>_. 7) (\<lambda>_. Inl ParseError)
       (FileData (take 30 (log_bytes (\<lambda>_. 7) [sample_op ''op-1'' ''owner-1'' ''sku-1'' 5]))) =
     Inr (take j [sample_op ''op-1'' ''owner-1'' ''sku-1'' 5],
          length (log_bytes (\<lambda>_. 7) (take j [sample_op ''op-1'' ''owner-1'' ''sku-1'' 5])))"
proof -
  let ?op = "sample_op ''op-1'' ''owner-1'' ''sku-1'' 5"
  have "list_all operation_good [?op]" using sample_op_encodes(4) [OF refl] by simp
  from recover_torn_log [OF this, of "\<lambda>_. 7" "\<lambda>_. Inl ParseError" 30] show ?thesis by auto
qed

lemma recover_full_log:
  "list_all operation_good ops \<Longrightarrow>
     recover crc json (FileData (log_bytes crc ops)) = Inr (ops, length (log_bytes crc ops))"
  using recover_loop_log [of "log_bytes crc ops" "[]" crc ops "[]" json "[]"]
  by (simp add: recover_def recover_loop_end)

section \<open>Durability of acknowledged appends\<close>

text \<open>
  The writer as a system: the file, the queue of commands, the operations each channel
  submitted, and, since the last reset, the log of operations written and the channels
  answered with success.  Writers that fail are treated below.
\<close>

record wal_sys =
  ws_wal :: wal
  ws_queue :: "write_command list"
  ws_sent :: "nat \<Rightarrow> operation list"
  ws_acked :: "nat list"

definition wal_init :: wal_sys where
  "wal_init = \<lparr>ws_wal = \<lparr>wal_file = [], wal_synced = 0, wal_shadow = None\<rparr>,
     ws_queue = [], ws_sent = (\<lambda>_. []), ws_acked = []\<rparr>"

definition acked_ok :: "(nat \<times> bool) list \<Rightarrow> nat list" where
  "acked_ok acks = map fst (filter snd acks)"

fun channel_of :: "write_command \<Rightarrow> nat" where
  "channel_of (Append payloads completed) = completed"
| "channel_of (Reset completed) = completed"

definition acked_after :: "write_command \<Rightarrow> nat list \<Rightarrow> (nat \<times> bool) list \<Rightarrow> nat list" where
  "acked_after first acked acks =
     (case first of Reset _ \<Rightarrow> [] | Append _ _ \<Rightarrow> acked @ acked_ok acks)"

inductive wal_step :: "(bytes \<Rightarrow> u32) \<Rightarrow> nat \<Rightarrow> wal_sys \<Rightarrow> wal_sys \<Rightarrow> bool"
  for crc :: "bytes \<Rightarrow> u32" and max_batch :: nat where
  send_append: "append_many ops a = Inr (Some c) \<Longrightarrow> list_all op_strings_ok ops \<Longrightarrow>
     a \<notin> set (ws_acked s) \<Longrightarrow> a \<notin> channel_of ` set (ws_queue s) \<Longrightarrow>
     wal_step crc max_batch s
       (s\<lparr>ws_queue := ws_queue s @ [c], ws_sent := (ws_sent s)(a := ops)\<rparr>)"
| send_reset: "a \<notin> channel_of ` set (ws_queue s) \<Longrightarrow>
     wal_step crc max_batch s (s\<lparr>ws_queue := ws_queue s @ [Reset a]\<rparr>)"
| turn: "ws_queue s = first # q \<Longrightarrow>
     writer_turn crc max_batch IoOk ResetOk (ws_wal s) first (take n q) = (w', acks, dropped, left) \<Longrightarrow>
     wal_step crc max_batch s
       (s\<lparr>ws_wal := w', ws_queue := left @ drop n q,
          ws_acked := acked_after first (ws_acked s) acks\<rparr>)"

inductive wal_reachable :: "(bytes \<Rightarrow> u32) \<Rightarrow> nat \<Rightarrow> wal_sys \<Rightarrow> bool"
  for crc :: "bytes \<Rightarrow> u32" and max_batch :: nat where
  start: "wal_reachable crc max_batch wal_init"
| step: "wal_reachable crc max_batch s \<Longrightarrow> wal_step crc max_batch s t \<Longrightarrow>
     wal_reachable crc max_batch t"

definition acked_ops :: "wal_sys \<Rightarrow> operation list" where
  "acked_ops s = concat (map (ws_sent s) (ws_acked s))"

definition queue_ok :: "(nat \<Rightarrow> operation list) \<Rightarrow> write_command list \<Rightarrow> bool" where
  "queue_ok sent q \<longleftrightarrow>
     (\<forall>p a. Append p a \<in> set q \<longrightarrow> p = map op_payload (sent a) \<and> list_all operation_good (sent a))"

definition wal_inv :: "(bytes \<Rightarrow> u32) \<Rightarrow> wal_sys \<Rightarrow> bool" where
  "wal_inv crc s \<longleftrightarrow>
     wal_file (ws_wal s) = log_bytes crc (acked_ops s)
     \<and> list_all operation_good (acked_ops s)
     \<and> wal_synced (ws_wal s) = length (wal_file (ws_wal s)) \<and> wal_shadow (ws_wal s) = None
     \<and> queue_ok (ws_sent s) (ws_queue s)"

lemma append_many_Some:
  assumes "append_many ops a = Inr (Some c)" "list_all op_strings_ok ops"
  shows "c = Append (map op_payload ops) a" "list_all operation_good ops"
proof -
  from assms(1) obtain ps where ps: "collect_results encode_operation ops = Inr ps" "c = Append ps a"
    by (auto simp: append_many_def rbind_Inr_iff split: if_splits)
  then have "list_all2 (\<lambda>op p. operation_fits op \<and> p = op_payload op) ops ps"
    by (simp add: collect_results_Inr_iff encode_operation_iff op_payload_def)
  then have "ps = map op_payload ops" "list_all operation_fits ops"
    by (auto simp: list_all2_conv_all_nth list_all_length intro!: nth_equalityI)
  with ps(2) assms(2) show "c = Append (map op_payload ops) a" "list_all operation_good ops"
    by (auto simp: list_all_iff operation_good_def operation_fits_def op_strings_ok_def
        string_good_def)
qed

definition batch_ok :: "(nat \<Rightarrow> operation list) \<Rightarrow> (bytes list \<times> nat) list \<Rightarrow> bool" where
  "batch_ok sent b \<longleftrightarrow>
     (\<forall>(p, a) \<in> set b. p = map op_payload (sent a) \<and> list_all operation_good (sent a))"

lemma batch_ok_append:
  "batch_ok sent (b @ [(p, a)]) \<longleftrightarrow>
     batch_ok sent b \<and> p = map op_payload (sent a) \<and> list_all operation_good (sent a)"
  by (auto simp: batch_ok_def)

lemma queue_ok_Cons: "queue_ok sent (c # q) \<Longrightarrow> queue_ok sent q"
  by (simp add: queue_ok_def)

lemma queue_ok_Append:
  "queue_ok sent (Append p a # q) \<Longrightarrow> p = map op_payload (sent a) \<and> list_all operation_good (sent a)"
  by (simp add: queue_ok_def)

lemma collect_ok:
  "collect m n b q = (b', d, left) \<Longrightarrow> batch_ok sent b \<Longrightarrow> queue_ok sent q \<Longrightarrow>
     batch_ok sent b' \<and> set left \<subseteq> set q"
proof (induction m n b q rule: collect.induct)
  case (2 m n b c q)
  show ?case
  proof (cases "n < m")
    case less: True
    show ?thesis
    proof (cases c)
      case (Append p a)
      from 2(2) less Append have "collect m (n + length p) (b @ [(p, a)]) q = (b', d, left)" by simp
      moreover have "batch_ok sent (b @ [(p, a)])"
        using 2(3) queue_ok_Append 2(4) unfolding Append batch_ok_append by blast
      ultimately have "batch_ok sent b' \<and> set left \<subseteq> set q"
        using 2(1) [OF less Append] queue_ok_Cons [OF 2(4)] by blast
      then show ?thesis by auto
    next
      case (Reset a)
      with 2(2,3) less show ?thesis by auto
    qed
  qed (use 2(2,3) in auto)
qed simp

lemma batch_buffer_ok:
  "batch_ok sent b \<Longrightarrow> batch_buffer crc b = log_bytes crc (concat (map sent (map snd b)))"
  by (induction b) (auto simp: batch_buffer_def batch_ok_def log_bytes_def)

lemma batch_ops_good:
  "batch_ok sent b \<Longrightarrow> list_all operation_good (concat (map sent (map snd b)))"
  by (auto simp: batch_ok_def list_all_iff)

lemma queue_ok_subset: "queue_ok sent q \<Longrightarrow> set q' \<subseteq> set q \<Longrightarrow> queue_ok sent q'"
  by (auto simp: queue_ok_def)

lemma acked_ok_all: "acked_ok (map (\<lambda>(_, c). (c, True)) b) = map snd b"
  by (induction b) (auto simp: acked_ok_def)

lemma writer_turn_inv:
  assumes inv: "wal_inv crc s" and q: "ws_queue s = first # q"
    and t: "writer_turn crc m IoOk ResetOk (ws_wal s) first (take n q) = (w', acks, dropped, left)"
  shows "wal_inv crc (s\<lparr>ws_wal := w', ws_queue := left @ drop n q,
      ws_acked := acked_after first (ws_acked s) acks\<rparr>)"
proof (cases first)
  case (Reset a)
  with t have "w' = \<lparr>wal_file = [], wal_synced = 0, wal_shadow = None\<rparr>" "left = take n q"
    by (auto simp: writer_turn_def write_reset_def)
  with inv q Reset show ?thesis
    by (simp add: wal_inv_def acked_after_def acked_ops_def queue_ok_def)
next
  case (Append p a)
  obtain batch where c: "collect m (length p) [(p, a)] (take n q) = (batch, dropped, left)"
    and w: "write_batch crc IoOk (ws_wal s) batch = (w', acks)"
    using t Append by (auto simp: writer_turn_def split: prod.splits)
  have qs: "queue_ok (ws_sent s) (Append p a # q)" using inv q Append by (simp add: wal_inv_def)
  have "queue_ok (ws_sent s) (take n q)"
    by (rule queue_ok_subset [OF qs]) (auto dest: in_set_takeD)
  moreover have "batch_ok (ws_sent s) [(p, a)]"
    using queue_ok_Append [OF qs] by (simp add: batch_ok_def)
  ultimately have b: "batch_ok (ws_sent s) batch" and l: "set left \<subseteq> set (take n q)"
    using collect_ok [OF c] by auto
  let ?new = "concat (map (ws_sent s) (map snd batch))"
  have "acks = map (\<lambda>(_, c). (c, True)) batch"
    and w': "w' = \<lparr>wal_file = wal_file (ws_wal s) @ log_bytes crc ?new,
      wal_synced = length (wal_file (ws_wal s) @ log_bytes crc ?new), wal_shadow = None\<rparr>"
    using w batch_buffer_ok [OF b, of crc] by (auto simp: write_batch_def Let_def)
  then have "acked_after first (ws_acked s) acks = ws_acked s @ map snd batch"
    using Append by (simp add: acked_after_def acked_ok_all)
  moreover have "queue_ok (ws_sent s) (left @ drop n q)"
    by (rule queue_ok_subset [OF qs]) (use l in \<open>auto dest: in_set_takeD in_set_dropD\<close>)
  ultimately show ?thesis
    using inv w' batch_ops_good [OF b] by (simp add: wal_inv_def acked_ops_def)
qed

lemma wal_step_inv:
  assumes "wal_step crc m s t" "wal_inv crc s"
  shows "wal_inv crc t"
  using assms
proof (induction rule: wal_step.induct)
  case (send_append ops a c s)
  have "map ((ws_sent s)(a := ops)) (ws_acked s) = map (ws_sent s) (ws_acked s)"
    using send_append.hyps(3) by auto
  then have acked: "acked_ops (s\<lparr>ws_queue := ws_queue s @ [c], ws_sent := (ws_sent s)(a := ops)\<rparr>)
      = acked_ops s"
    by (simp add: acked_ops_def del: map_eq_conv fun_upd_apply)
  have "queue_ok ((ws_sent s)(a := ops)) (ws_queue s @ [c])"
    using send_append.prems send_append.hyps(4) append_many_Some [OF send_append.hyps(1,2)]
    by (auto simp: wal_inv_def queue_ok_def image_iff)
  with send_append.prems acked show ?case by (simp add: wal_inv_def)
next
  case (send_reset a s)
  then show ?case by (auto simp: wal_inv_def acked_ops_def queue_ok_def)
next
  case (turn s first q n w' acks dropped left)
  then show ?case by (intro writer_turn_inv)
qed

lemma wal_reachable_inv: "wal_reachable crc m s \<Longrightarrow> wal_inv crc s"
proof (induction rule: wal_reachable.induct)
  case start
  show ?case by (simp add: wal_inv_def wal_init_def acked_ops_def queue_ok_def)
qed (rule wal_step_inv)

text \<open>
  C14: an acknowledged append survives every crash.  In every state the writer reaches
  while its writes succeed, whatever a crash leaves in the file (also a crash in the
  middle of the next group commit, after any number of its bytes), recovery succeeds and
  returns all operations of the channels answered with success since the last reset, in
  the order of the answers, followed only by operations of the commit under way.
\<close>
theorem acked_append_durable:
  assumes "wal_reachable crc m s" and "batch_ok (ws_sent s) batch"
    and "crash_content (fst (write_batch crc (IoFail n) (ws_wal s) batch)) c"
  shows "\<exists>j len. recover crc json (FileData c) =
    Inr (acked_ops s @ take j (concat (map (ws_sent s) (map snd batch))), len)"
proof -
  let ?old = "acked_ops s" and ?new = "concat (map (ws_sent s) (map snd batch))"
  have inv: "wal_inv crc s" using assms(1) by (rule wal_reachable_inv)
  then have good: "list_all operation_good (?old @ ?new)"
    using batch_ops_good [OF assms(2)] by (simp add: wal_inv_def)
  let ?L = "length (log_bytes crc ?old)"
  from assms(3) inv obtain k where k: "?L \<le> k" "c = take k (take (?L + n) (log_bytes crc (?old @ ?new)))"
    by (auto simp: crash_content_def write_batch_def wal_inv_def batch_buffer_ok [OF assms(2)])
  then have c: "c = take (min k (?L + n)) (log_bytes crc (?old @ ?new))" by (simp only: take_take)
  from recover_torn_log [OF good, of crc json "min k (?L + n)"] obtain i where
    i: "recover crc json (FileData c) = Inr (take i (?old @ ?new), length (log_bytes crc (take i (?old @ ?new))))"
      "i < length (?old @ ?new) \<longrightarrow> min k (?L + n) < length (log_bytes crc (take (Suc i) (?old @ ?new)))"
    unfolding c by blast
  have "length ?old \<le> i"
  proof (rule ccontr)
    assume "\<not> length ?old \<le> i"
    then have less: "i < length ?old" by simp
    then have "log_bytes crc ?old = log_bytes crc (take (Suc i) ?old) @ log_bytes crc (drop (Suc i) ?old)"
      by (metis append_take_drop_id log_bytes_simps(3))
    then have "length (log_bytes crc (take (Suc i) ?old)) \<le> ?L" by simp
    with i(2) less k(1) show False by simp
  qed
  then have "take i (?old @ ?new) = ?old @ take (i - length ?old) ?new" by simp
  with i(1) show ?thesis by metis
qed

lemma wal_reachable_one:
  assumes "operation_good op"
  defines "s1 \<equiv> wal_init\<lparr>ws_queue := [Append [op_payload op] 0], ws_sent := (\<lambda>_. [])(0 := [op])\<rparr>"
  shows "\<exists>s. wal_reachable crc 4 s \<and> acked_ops s = [op]"
proof -
  have ok: "op_strings_ok op"
    using assms(1) by (simp add: operation_good_def op_strings_ok_def string_good_def)
  have "append_many [op] 0 = Inr (Some (Append [op_payload op] 0))"
    using operation_good_fits [OF assms(1)]
    by (simp add: append_many_def encode_operation_iff [THEN iffD2] op_payload_def)
  from wal_step.send_append [OF this, of wal_init crc 4] ok
  have "wal_step crc 4 wal_init s1" by (simp add: s1_def wal_init_def)
  with wal_reachable.start have r1: "wal_reachable crc 4 s1" by (rule wal_reachable.step)
  obtain w' acks dropped left where
    t: "writer_turn crc 4 IoOk ResetOk (ws_wal s1) (Append [op_payload op] 0) (take 0 []) = (w', acks, dropped, left)"
    using prod_cases4 by metis
  then have acks: "acked_ok acks = [0]"
    by (auto simp: writer_turn_def write_batch_def Let_def acked_ok_def)
  from wal_step.turn [OF _ t] have
    "wal_step crc 4 s1 (s1\<lparr>ws_wal := w', ws_queue := left @ drop 0 [],
      ws_acked := acked_after (Append [op_payload op] 0) (ws_acked s1) acks\<rparr>)"
    by (simp add: s1_def)
  note r2 = wal_reachable.step [OF r1 this]
  have "acked_ops (s1\<lparr>ws_wal := w', ws_queue := left @ drop 0 [],
      ws_acked := acked_after (Append [op_payload op] 0) (ws_acked s1) acks\<rparr>) = [op]"
    by (simp add: acked_ops_def acked_after_def acks s1_def wal_init_def)
  with r2 show ?thesis by blast
qed

lemma acked_append_durable_witness:
  "\<exists>s c len. wal_reachable (\<lambda>_. 7) 4 s
     \<and> acked_ops s = [sample_op ''op-1'' ''owner-1'' ''sku-1'' 5]
     \<and> recover (\<lambda>_. 7) (\<lambda>_. Inl ParseError) (FileData c)
         = Inr ([sample_op ''op-1'' ''owner-1'' ''sku-1'' 5], len)"
proof -
  obtain s where s: "wal_reachable (\<lambda>_. 7) 4 s"
    "acked_ops s = [sample_op ''op-1'' ''owner-1'' ''sku-1'' 5]"
    using wal_reachable_one [OF sample_op_encodes(4) [OF refl]] by blast
  let ?w = "fst (write_batch (\<lambda>_. 7) (IoFail 0) (ws_wal s) [])"
  have "crash_content ?w (wal_file ?w)"
    using wal_reachable_inv [OF s(1)] by (auto simp: crash_content_def write_batch_def wal_inv_def)
  from acked_append_durable [OF s(1) _ this, of "\<lambda>_. Inl ParseError"] s show ?thesis
    by (auto simp: batch_ok_def)
qed

section \<open>Where the writer falls short\<close>

text \<open>
  C38: a failed group commit poisons the log.  The writer neither truncates the partial
  record of a failed write nor stops: if two bytes of a failed commit reached the file and
  the next commit succeeds and is acknowledged, the file no longer recovers.  The next
  start stops with an error, whatever the checksum function, although the second
  operation was acknowledged as durable.
\<close>
theorem failed_write_poisons_log:
  assumes "operation_good op1" "operation_good op2" "operation_ok op2"
    and "w0 = \<lparr>wal_file = [], wal_synced = 0, wal_shadow = None\<rparr>"
    and "writer_turn crc m (IoFail 2) rio w0 (Append [op_payload op1] a1) [] = (w1, acks1, d1, l1)"
    and "writer_turn crc m IoOk rio w1 (Append [op_payload op2] a2) [] = (w2, acks2, d2, l2)"
  shows "acks1 = [(a1, False)] \<and> acks2 = [(a2, True)]
    \<and> recover crc json (FileData (wal_file w2)) = Inl (Msg ''WAL record exceeds 1 MiB'')"
proof -
  let ?f1 = "frame crc (op_payload op1)" and ?f2 = "frame crc (op_payload op2)"
  let ?l1 = "length (op_payload op1)" and ?l2 = "length (op_payload op2)"
  have w: "acks1 = [(a1, False)]" "acks2 = [(a2, True)]" "wal_file w2 = take 2 ?f1 @ ?f2"
    using assms(4-6)
    by (auto simp: writer_turn_def write_batch_def batch_buffer_def split: prod.splits)
  have l2: "17 \<le> ?l2" "?l2 < 65536"
    using assms(3) by (auto simp: op_payload_def enc_operation_def enc_string_def
        operation_ok_def identifier_ok_def)
  have l1: "?l1 < 2 ^ 32"
    using length_op_payload [OF operation_good_fits [OF assms(1)]] by simp
  let ?h = "take 8 (wal_file w2)"
  have "take 4 ?h = le_nat 2 ?l1 @ le_nat 2 ?l2"
    using l1 l2 by (simp add: w(3) frame_def u32_to_le_def unat_of_nat take_le_nat)
  then have "le_val (take 4 ?h) = ?l1 mod 65536 + 65536 * ?l2"
    using l2 by (simp add: le_val_append le_val_le_nat)
  moreover have "unat (u32_from_le (take 4 ?h)) = le_val (take 4 ?h)"
    by (rule unat_u32_from_le) (simp add: w(3))
  ultimately have big: "unat (u32_from_le (take 4 ?h)) > 1024 * 1024" using l2 by simp
  have "wal_file w2 = [] @ ?h @ drop 8 (wal_file w2)" "length ?h = 8"
    by (simp_all add: w(3))
  from recover_loop_header [OF this refl refl, of crc json "[]"] big
  have "recover_loop crc json (wal_file w2) 0 [] = Inl (Msg ''WAL record exceeds 1 MiB'')" by simp
  with w show ?thesis by (simp add: recover_def)
qed

lemma failed_write_poisons_log_witness:
  "\<exists>w1 w2 acks1 d1 l1 d2 l2.
     writer_turn (\<lambda>_. 7) 4 IoOk ResetOk w1
       (Append [op_payload (sample_op ''op-1'' ''owner-1'' ''sku-1'' 5)] 1) [] = (w2, [(1, True)], d2, l2)
     \<and> recover (\<lambda>_. 7) (\<lambda>_. Inl ParseError) (FileData (wal_file w2))
         = Inl (Msg ''WAL record exceeds 1 MiB'')"
proof -
  let ?op = "sample_op ''op-1'' ''owner-1'' ''sku-1'' 5"
  obtain w1 acks1 d1 l1 where 1: "writer_turn (\<lambda>_. 7) 4 (IoFail 2) ResetOk
      \<lparr>wal_file = [], wal_synced = 0, wal_shadow = None\<rparr> (Append [op_payload ?op] 0) [] = (w1, acks1, d1, l1)"
    using prod_cases4 by metis
  obtain w2 acks2 d2 l2 where 2: "writer_turn (\<lambda>_. 7) 4 IoOk ResetOk w1
      (Append [op_payload ?op] 1) [] = (w2, acks2, d2, l2)"
    using prod_cases4 by metis
  note g = sample_op_encodes(4) [OF refl]
  from failed_write_poisons_log [OF g g sample_op_ok(2) refl 1 2, of "\<lambda>_. Inl ParseError"] 2
  show ?thesis by blast
qed

text \<open>
  A reset that arrives while a group commit is being collected is lost.  The commit
  goes through, the file keeps its content, and the reset's channel is dropped without an
  answer, so its caller gets an error for an operation that was never attempted.
\<close>
theorem reset_lost_in_commit_window:
  assumes "length p < m"
    and "writer_turn crc m IoOk rio w (Append p a) (Reset r # q) = (w', acks, dropped, left)"
  shows "dropped = [r] \<and> acks = [(a, True)] \<and> left = q \<and> wal_file w' = wal_file w @ frames crc p"
  using assms
  by (auto simp: writer_turn_def write_batch_def batch_buffer_def Let_def split: prod.splits)

lemma reset_lost_in_commit_window_witness:
  "\<exists>w' acks left. writer_turn (\<lambda>_. 7) 4 IoOk ResetOk
       \<lparr>wal_file = [1], wal_synced = 1, wal_shadow = None\<rparr> (Append [[2]] 0) [Reset 1]
     = (w', acks, [1], left) \<and> wal_file w' = [1] @ frames (\<lambda>_. 7) [[2]]"
proof -
  obtain w' acks dropped left where t: "writer_turn (\<lambda>_. 7) 4 IoOk ResetOk
       \<lparr>wal_file = [1], wal_synced = 1, wal_shadow = None\<rparr> (Append [[2]] 0) [Reset 1]
     = (w', acks, dropped, left)"
    using prod_cases4 by metis
  from reset_lost_in_commit_window [OF _ t] t show ?thesis by auto
qed

end
