(* ===== verification/Checkpoint.thy ===== *)
theory Checkpoint
  imports Binary
begin

text \<open>
  \<open>src/checkpoint.rs\<close>: the durable position in the replicated log and the writer epoch at
  that position.  The value is kept in memory and in a 20-byte file that is replaced by
  writing a temporary file and renaming it.  The two older text formats (JSON and a plain
  number) are read too; \<open>serde_json::from_str\<close> is the parameter \<open>json\<close>.
\<close>

section \<open>Parsing a decimal u64\<close>

text \<open>
  \<open>str::parse::<u64>\<close> on the code points of a string: an optional plus sign, at least one
  digit, and a value that fits in 64 bits.
\<close>

definition is_digit :: "nat \<Rightarrow> bool" where
  "is_digit c \<longleftrightarrow> 48 \<le> c \<and> c \<le> 57"

definition digits_value :: "nat list \<Rightarrow> nat" where
  "digits_value cs = foldl (\<lambda>v c. v * 10 + (c - 48)) 0 cs"

definition parse_u64 :: "nat list \<Rightarrow> u64 result" where
  "parse_u64 cs =
     (let ds = (case cs of c # r \<Rightarrow> if c = 43 then r else cs | [] \<Rightarrow> []) in
      if ds \<noteq> [] \<and> list_all is_digit ds \<and> digits_value ds < 2 ^ 64
      then Inr (word_of_nat (digits_value ds)) else Inl ParseError)"

section \<open>The value and its file\<close>

record checkpoint_value =
  cp_sequence :: u64
  cp_writer_epoch :: u64

definition checkpoint_default :: checkpoint_value where
  "checkpoint_default = \<lparr>cp_sequence = 0, cp_writer_epoch = 0\<rparr>"

definition CHECKPOINT_MAGIC :: bytes where
  "CHECKPOINT_MAGIC = [0x57, 0x43, 0x50, 0x31]" \<comment> \<open>WCP1\<close>

definition checkpoint_load :: "(bytes \<Rightarrow> checkpoint_value result) \<Rightarrow> read_outcome
    \<Rightarrow> checkpoint_value result" where
  "checkpoint_load json rd =
     (case rd of
        FileData data \<Rightarrow>
          if starts_with CHECKPOINT_MAGIC data \<and> length data = 20
          then Inr \<lparr>cp_sequence = u64_from_le (take 8 (drop 4 data)),
                    cp_writer_epoch = u64_from_le (take 8 (drop 12 data))\<rparr>
          else rbind (from_utf8 data) (\<lambda>text.
               or_else (json text)
                 (rbind (parse_u64 (trim_chars (chars text))) (\<lambda>sequence.
                    Inr \<lparr>cp_sequence = sequence, cp_writer_epoch = 0\<rparr>)))
      | FileNotFound \<Rightarrow> Inr checkpoint_default
      | FileError \<Rightarrow> Inl IoError)"

record checkpoint =
  cp_file :: "bytes option" \<comment> \<open>content of \<open>path\<close>, if it exists\<close>
  cp_tmp :: "bytes option" \<comment> \<open>content of the temporary file\<close>
  cp_value :: checkpoint_value \<comment> \<open>the value in memory\<close>

definition file_read :: "bytes option \<Rightarrow> read_outcome" where
  "file_read f = (case f of None \<Rightarrow> FileNotFound | Some data \<Rightarrow> FileData data)"

definition checkpoint_open :: "(bytes \<Rightarrow> checkpoint_value result) \<Rightarrow> bytes option \<Rightarrow> bytes option
    \<Rightarrow> checkpoint result" where
  "checkpoint_open json f tmp =
     rbind (checkpoint_load json (file_read f)) (\<lambda>v.
       Inr \<lparr>cp_file = f, cp_tmp = tmp, cp_value = v\<rparr>)"

definition current :: "checkpoint \<Rightarrow> u64" where
  "current c = cp_sequence (cp_value c)"

definition writer_epoch :: "checkpoint \<Rightarrow> u64" where
  "writer_epoch c = cp_writer_epoch (cp_value c)"

section \<open>Replacing the file\<close>

text \<open>Where the sequence open, write, sync, rename stops.\<close>

datatype replace_outcome =
    ReplaceOk
  | OpenFailed
  | WriteFailed nat \<comment> \<open>a write or the sync failed with this many bytes in the file\<close>
  | RenameFailed

definition checkpoint_bytes :: "checkpoint_value \<Rightarrow> bytes" where
  "checkpoint_bytes v =
     CHECKPOINT_MAGIC @ u64_to_le (cp_sequence v) @ u64_to_le (cp_writer_epoch v)"

definition replace_checkpoint :: "replace_outcome \<Rightarrow> checkpoint_value \<Rightarrow> checkpoint
    \<Rightarrow> unit result \<times> checkpoint" where
  "replace_checkpoint io v c =
     (case io of
        OpenFailed \<Rightarrow> (Inl IoError, c)
      | WriteFailed k \<Rightarrow> (Inl IoError, c\<lparr>cp_tmp := Some (take k (checkpoint_bytes v))\<rparr>)
      | RenameFailed \<Rightarrow> (Inl IoError, c\<lparr>cp_tmp := Some (checkpoint_bytes v)\<rparr>)
      | ReplaceOk \<Rightarrow>
          (Inr (), \<lparr>cp_file = Some (checkpoint_bytes v), cp_tmp = None, cp_value = v\<rparr>))"

definition advance_checkpoint :: "replace_outcome \<Rightarrow> u64 \<Rightarrow> u64 \<Rightarrow> checkpoint
    \<Rightarrow> unit result \<times> checkpoint" where
  "advance_checkpoint io nxt epoch c =
     (if nxt \<le> cp_sequence (cp_value c) then (Inr (), c)
      else replace_checkpoint io \<lparr>cp_sequence = nxt, cp_writer_epoch = epoch\<rparr> c)"

definition reset_checkpoint :: "replace_outcome \<Rightarrow> checkpoint \<Rightarrow> unit result \<times> checkpoint" where
  "reset_checkpoint io c = replace_checkpoint io checkpoint_default c"

section \<open>Durability and monotonicity\<close>

text \<open>The file always holds the value in memory.\<close>

definition checkpoint_inv :: "(bytes \<Rightarrow> checkpoint_value result) \<Rightarrow> checkpoint \<Rightarrow> bool" where
  "checkpoint_inv json c \<longleftrightarrow> checkpoint_load json (file_read (cp_file c)) = Inr (cp_value c)"

lemma load_checkpoint_bytes: "checkpoint_load json (FileData (checkpoint_bytes v)) = Inr v"
  by (cases v) (simp add: checkpoint_load_def checkpoint_bytes_def starts_with_def CHECKPOINT_MAGIC_def)

lemma checkpoint_inv_open: "checkpoint_open json f tmp = Inr c \<Longrightarrow> checkpoint_inv json c"
  by (auto simp: checkpoint_open_def checkpoint_inv_def rbind_Inr_iff)

lemma replace_inv [inv_intros]:
  "checkpoint_inv json c \<Longrightarrow> checkpoint_inv json (snd (replace_checkpoint io v c))"
  by (auto simp: replace_checkpoint_def checkpoint_inv_def file_read_def load_checkpoint_bytes
      split: replace_outcome.splits)

datatype checkpoint_call = CallAdvance u64 u64 | CallReset

fun checkpoint_call_step :: "checkpoint \<Rightarrow> replace_outcome \<times> checkpoint_call \<Rightarrow> checkpoint" where
  "checkpoint_call_step c (io, CallAdvance nxt epoch) = snd (advance_checkpoint io nxt epoch c)"
| "checkpoint_call_step c (io, CallReset) = snd (reset_checkpoint io c)"

lemma call_inv [inv_intros]:
  "checkpoint_inv json c \<Longrightarrow> checkpoint_inv json (checkpoint_call_step c op)"
  by (cases "(c, op)" rule: checkpoint_call_step.cases)
    (auto simp: advance_checkpoint_def reset_checkpoint_def intro: inv_intros)

lemma calls_inv: "checkpoint_inv json c \<Longrightarrow> checkpoint_inv json (foldl checkpoint_call_step c calls)"
  by (induction calls arbitrary: c) (auto intro: inv_intros)

text \<open>
  The checkpoint file is always readable and current.  After any sequence of
  \<open>advance\<close> and \<open>reset\<close> calls, each with any failure of the open, write, sync or rename,
  a reopened checkpoint holds exactly the value the process held in memory, whatever is
  left in the temporary file.
\<close>
theorem checkpoint_survives_reopen:
  assumes "checkpoint_open json f tmp = Inr c0"
    and "c = foldl checkpoint_call_step c0 calls"
  shows "checkpoint_open json (cp_file c) tmp' = Inr \<lparr>cp_file = cp_file c, cp_tmp = tmp', cp_value = cp_value c\<rparr>"
  using calls_inv [OF checkpoint_inv_open [OF assms(1)], of calls] assms(2)
  by (simp add: checkpoint_open_def checkpoint_inv_def)

lemma checkpoint_survives_reopen_witness:
  "checkpoint_open (\<lambda>_. Inl ParseError)
     (cp_file (foldl checkpoint_call_step \<lparr>cp_file = None, cp_tmp = None, cp_value = checkpoint_default\<rparr>
       [(ReplaceOk, CallAdvance 9 3), (WriteFailed 7, CallAdvance 12 3), (ReplaceOk, CallAdvance 4 1)])) None
   = Inr \<lparr>cp_file = Some (checkpoint_bytes \<lparr>cp_sequence = 9, cp_writer_epoch = 3\<rparr>), cp_tmp = None,
          cp_value = \<lparr>cp_sequence = 9, cp_writer_epoch = 3\<rparr>\<rparr>"
proof -
  let ?json = "\<lambda>_. Inl ParseError"
  let ?c0 = "\<lparr>cp_file = None, cp_tmp = None, cp_value = checkpoint_default\<rparr>"
  have "checkpoint_open ?json None None = Inr ?c0"
    by (simp add: checkpoint_open_def checkpoint_load_def file_read_def)
  from checkpoint_survives_reopen [OF this refl, of "[(ReplaceOk, CallAdvance 9 3),
      (WriteFailed 7, CallAdvance 12 3), (ReplaceOk, CallAdvance 4 1)]" None]
  show ?thesis
    by (simp add: advance_checkpoint_def replace_checkpoint_def checkpoint_default_def)
qed

text \<open>
  \<open>advance\<close> never moves the position back and reports failures honestly.  The sequence
  never decreases; on success it is the maximum of the old and the requested one (with
  the requested epoch when it moved); on an error file and memory keep the old value.
\<close>
theorem advance_monotonic:
  assumes "advance_checkpoint io nxt epoch c = (r, c')"
  shows "current c \<le> current c'
    \<and> (r = Inr () \<longrightarrow> current c' = max (current c) nxt
         \<and> (current c < nxt \<longrightarrow> writer_epoch c' = epoch)
         \<and> (nxt \<le> current c \<longrightarrow> c' = c))
    \<and> (r \<noteq> Inr () \<longrightarrow> cp_file c' = cp_file c \<and> cp_value c' = cp_value c)"
  using assms
  by (auto simp: advance_checkpoint_def replace_checkpoint_def current_def writer_epoch_def max_def
      not_le split: replace_outcome.splits if_splits)

lemma advance_monotonic_witness:
  "current (snd (advance_checkpoint ReplaceOk 9 3
     \<lparr>cp_file = None, cp_tmp = None, cp_value = checkpoint_default\<rparr>)) = 9"
proof -
  obtain r c' where a: "advance_checkpoint ReplaceOk 9 3
     \<lparr>cp_file = None, cp_tmp = None, cp_value = checkpoint_default\<rparr> = (r, c')"
    by fastforce
  moreover from a have "r = Inr ()"
    by (auto simp: advance_checkpoint_def replace_checkpoint_def checkpoint_default_def)
  ultimately show ?thesis
    using advance_monotonic [OF a] by (simp add: current_def checkpoint_default_def max_def)
qed

lemma trim_chars_Cons: "\<not> is_whitespace c \<Longrightarrow> \<exists>ys. trim_chars (c # cs) = c # ys"
  by (simp add: trim_chars_def dropWhile_append) (metis rev_rev_ident)

text \<open>
  A damaged binary checkpoint is an error, not a position: a file that starts with the
  magic but has not exactly 20 bytes is refused, unless the JSON parser accepts it.
\<close>
theorem damaged_checkpoint_rejected:
  assumes "starts_with CHECKPOINT_MAGIC data" and "length data \<noteq> 20"
    and "\<not> is_ok (json data)"
  shows "\<not> is_ok (checkpoint_load json (FileData data))"
proof (cases "str_ok data")
  case True
  from assms(1) obtain r where r: "data = 0x57 # r"
    by (auto simp: starts_with_iff CHECKPOINT_MAGIC_def)
  with True obtain cs where "chars data = 87 # cs"
    by (auto simp: str_ok_def chars_def utf8_chars_ascii)
  moreover obtain ys where "trim_chars (87 # cs) = 87 # ys"
    using trim_chars_Cons [of 87 cs] by (auto simp: is_whitespace_def)
  ultimately have "parse_u64 (trim_chars (chars data)) = Inl ParseError"
    by (simp add: parse_u64_def is_digit_def)
  with True assms(2,3) show ?thesis
    by (cases "json data") (simp_all add: checkpoint_load_def from_utf8_def)
qed (use assms(2) in \<open>simp add: checkpoint_load_def from_utf8_def\<close>)

lemma damaged_checkpoint_rejected_witness:
  "\<not> is_ok (checkpoint_load (\<lambda>_. Inl ParseError) (FileData (ascii ''WCP1-short'')))"
  by (rule damaged_checkpoint_rejected)
    (simp_all add: starts_with_def CHECKPOINT_MAGIC_def ascii_def)

end
