(* ===== verification/FileReplace.thy ===== *)
theory FileReplace
  imports Checkpoint
begin

text \<open>
  The calls of the file system by which a file is replaced through a temporary file, executed
  one by one on a model of the disk.  The program waits for every call; a call can fail, and the
  process or the machine can stop between any two calls.  After a stop of the machine a file
  has its contents only if it was synchronized since the last write, and a name refers to
  its last file only if the directory was synchronized since the rename: otherwise the
  contents are any bytes, and the name may refer to any earlier file.
\<close>

section \<open>Calls\<close>

datatype file_call =
    Create \<comment> \<open>open the temporary file with \<open>create\<close> and \<open>truncate\<close>\<close>
  | Append bytes
  | Sync
  | Rename
  | Sync_dir

text \<open>A failing write has written a prefix.\<close>

datatype call_end = Done | Failed nat

record disk_file =
  df_data :: bytes
  df_synced :: bool

record disk_names =
  dn_file :: "disk_file option" \<comment> \<open>the file under the name\<close>
  dn_tmp :: "disk_file option" \<comment> \<open>the file under the temporary name\<close>
  dn_earlier :: "disk_file option list" \<comment> \<open>what the name referred to since the directory was synchronized\<close>

fun do_call :: "file_call \<Rightarrow> call_end \<Rightarrow> disk_names \<Rightarrow> unit result \<times> disk_names" where
  "do_call Create Done d = (Inr (), d\<lparr>dn_tmp := Some \<lparr>df_data = [], df_synced = False\<rparr>\<rparr>)"
| "do_call (Append bs) Done d =
     (Inr (), d\<lparr>dn_tmp := map_option (\<lambda>f. \<lparr>df_data = df_data f @ bs, df_synced = False\<rparr>) (dn_tmp d)\<rparr>)"
| "do_call (Append bs) (Failed k) d =
     (Inl IoError, d\<lparr>dn_tmp := map_option (\<lambda>f. \<lparr>df_data = df_data f @ take k bs, df_synced = False\<rparr>) (dn_tmp d)\<rparr>)"
| "do_call Sync Done d = (Inr (), d\<lparr>dn_tmp := map_option (\<lambda>f. f\<lparr>df_synced := True\<rparr>) (dn_tmp d)\<rparr>)"
| "do_call Rename Done d = (Inr (), \<lparr>dn_file = dn_tmp d, dn_tmp = None, dn_earlier = dn_file d # dn_earlier d\<rparr>)"
| "do_call Sync_dir Done d = (Inr (), d\<lparr>dn_earlier := []\<rparr>)"
| "do_call _ (Failed _) d = (Inl IoError, d)"

text \<open>The caller returns the error of a call (\<open>?\<close>) or ignores it (\<open>let _ =\<close>).\<close>

datatype file_step = Try file_call | Ignore file_call

text \<open>
  \<open>ends\<close> says how the calls end, in their order.  When it is used up before the calls are, the
  process has stopped there: the result is \<open>None\<close>.
\<close>

fun run_calls :: "file_step list \<Rightarrow> call_end list \<Rightarrow> disk_names \<Rightarrow> unit result option \<times> disk_names" where
  "run_calls [] ends d = (Some (Inr ()), d)"
| "run_calls (c # cs) [] d = (None, d)"
| "run_calls (Try c # cs) (e # ends) d =
     (case do_call c e d of (Inl err, d') \<Rightarrow> (Some (Inl err), d') | (Inr _, d') \<Rightarrow> run_calls cs ends d')"
| "run_calls (Ignore c # cs) (e # ends) d = run_calls cs ends (snd (do_call c e d))"

section \<open>What is found afterwards\<close>

definition name_reads :: "disk_names \<Rightarrow> bytes option" where
  "name_reads d = map_option df_data (dn_file d)"

definition file_after :: "disk_file option \<Rightarrow> bytes option \<Rightarrow> bool" where
  "file_after f c = (case f of None \<Rightarrow> c = None | Some g \<Rightarrow> c \<noteq> None \<and> (df_synced g \<longrightarrow> c = Some (df_data g)))"

text \<open>The contents that a start can find under the name after a stop of the machine.\<close>

definition after_stop :: "disk_names \<Rightarrow> bytes option \<Rightarrow> bool" where
  "after_stop d c \<longleftrightarrow> (\<exists>f \<in> set (dn_file d # dn_earlier d). file_after f c)"

definition file_durable :: "disk_file option \<Rightarrow> bool" where
  "file_durable f \<longleftrightarrow> (\<forall>g. f = Some g \<longrightarrow> df_synced g)"

definition name_durable :: "disk_names \<Rightarrow> bool" where
  "name_durable d \<longleftrightarrow> (\<forall>f \<in> set (dn_file d # dn_earlier d). file_durable f)"

lemma after_stop_reads: "after_stop d (name_reads d)"
  by (cases "dn_file d") (auto simp: after_stop_def name_reads_def file_after_def)

section \<open>Replacing a file\<close>

text \<open>A call that fails leaves the name alone, and so do the calls on the temporary file.\<close>

definition keeps_name :: "file_call \<Rightarrow> bool" where
  "keeps_name c \<longleftrightarrow> c \<noteq> Rename \<and> c \<noteq> Sync_dir"

lemma do_call_ends: "\<exists>x. do_call c Done d = (Inr (), x)" "\<exists>x. do_call c (Failed k) d = (Inl IoError, x)"
  by (cases c; simp)+

lemma do_call_failed: "dn_file (snd (do_call c (Failed k) d)) = dn_file d" "dn_earlier (snd (do_call c (Failed k) d)) = dn_earlier d"
  by (cases c; simp)+

lemma do_call_keeps:
  "keeps_name c \<Longrightarrow> dn_file (snd (do_call c e d)) = dn_file d \<and> dn_earlier (snd (do_call c e d)) = dn_earlier d"
  by (cases c; cases e) (simp_all add: keeps_name_def)

definition calls_done :: "file_call list \<Rightarrow> disk_names \<Rightarrow> disk_names" where
  "calls_done cs d = fold (\<lambda>c d. snd (do_call c Done d)) cs d"

lemma calls_done_simps [simp]:
  "calls_done [] d = d" "calls_done (c # cs) d = calls_done cs (snd (do_call c Done d))"
  "calls_done (cs @ cs') d = calls_done cs' (calls_done cs d)"
  by (simp_all add: calls_done_def)

text \<open>A step with \<open>?\<close> stops the program with the name as before, or is done.\<close>

lemma run_try:
  assumes "run_calls (Try c # cs) ends d = (r, d')"
  shows "r \<noteq> Some (Inr ()) \<and> dn_file d' = dn_file d \<and> dn_earlier d' = dn_earlier d
    \<or> (\<exists>ends'. run_calls cs ends' (snd (do_call c Done d)) = (r, d'))"
proof (cases ends)
  case (Cons e ends')
  show ?thesis
  proof (cases e)
    case Done
    from do_call_ends(1) [of c d] obtain x where "do_call c Done d = (Inr (), x)" by blast
    with assms Cons Done show ?thesis by auto
  next
    case (Failed k)
    from do_call_ends(2) [of c k d] obtain x where x: "do_call c (Failed k) d = (Inl IoError, x)" by blast
    with assms Cons Failed have "r = Some (Inl IoError)" "d' = snd (do_call c (Failed k) d)" by simp_all
    then show ?thesis by (simp add: do_call_failed)
  qed
qed (use assms in auto)

lemma run_tries:
  assumes "run_calls (map Try cs @ cs2) ends d = (r, d')" "\<forall>c \<in> set cs. keeps_name c"
  shows "r \<noteq> Some (Inr ()) \<and> dn_file d' = dn_file d \<and> dn_earlier d' = dn_earlier d
    \<or> (\<exists>ends'. run_calls cs2 ends' (calls_done cs d) = (r, d'))"
  using assms
proof (induction cs arbitrary: ends d)
  case (Cons c cs)
  from Cons.prems(1) have "run_calls (Try c # (map Try cs @ cs2)) ends d = (r, d')" by simp
  from run_try [OF this] Cons.IH Cons.prems(2) do_call_keeps [of c Done d] show ?case by fastforce
qed auto

lemma appends_done:
  "dn_tmp d = Some f \<Longrightarrow>
     calls_done (map Append bss) d = d\<lparr>dn_tmp := Some \<lparr>df_data = df_data f @ concat bss, df_synced = df_synced f \<and> bss = []\<rparr>\<rparr>"
proof (induction bss arbitrary: d f)
  case (Cons bs bss)
  from Cons.IH [of "d\<lparr>dn_tmp := Some \<lparr>df_data = df_data f @ bs, df_synced = False\<rparr>\<rparr>"] Cons.prems show ?case by simp
qed (cases f, simp)

text \<open>
  Creating the temporary file, writing and synchronizing it, and only then renaming it: the
  name refers to the file as before, or to the complete new file, which is on the disk.
\<close>

lemma replace_run:
  assumes "run_calls (map Try (Create # map Append bss @ [Sync, Rename]) @ [Ignore Sync_dir]) ends d = (r, d')"
  shows "r \<noteq> Some (Inr ()) \<and> dn_file d' = dn_file d \<and> dn_earlier d' = dn_earlier d
    \<or> (r = None \<or> r = Some (Inr ())) \<and> dn_file d' = Some \<lparr>df_data = concat bss, df_synced = True\<rparr>
        \<and> (dn_earlier d' = dn_file d # dn_earlier d \<or> dn_earlier d' = [])"
proof -
  let ?cs = "Create # map Append bss @ [Sync]" and ?rest = "[Try Rename, Ignore Sync_dir]"
  let ?written = "calls_done ?cs d"
  have start: "dn_tmp (d\<lparr>dn_tmp := Some \<lparr>df_data = [], df_synced = False\<rparr>\<rparr>) = Some \<lparr>df_data = [], df_synced = False\<rparr>" by simp
  have written: "?written = d\<lparr>dn_tmp := Some \<lparr>df_data = concat bss, df_synced = True\<rparr>\<rparr>"
    by (simp add: appends_done [OF start])
  have "run_calls (map Try ?cs @ ?rest) ends d = (r, d')" using assms by simp
  from run_tries [OF this] consider "r \<noteq> Some (Inr ()) \<and> dn_file d' = dn_file d \<and> dn_earlier d' = dn_earlier d"
    | ends1 where "run_calls ?rest ends1 ?written = (r, d')" by (auto simp: keeps_name_def)
  then show ?thesis
  proof cases
    case 2
    from run_try [OF this] consider "r \<noteq> Some (Inr ()) \<and> dn_file d' = dn_file d \<and> dn_earlier d' = dn_earlier d"
      | ends2 where "run_calls [Ignore Sync_dir] ends2 (snd (do_call Rename Done ?written)) = (r, d')"
      unfolding written by auto
    then show ?thesis
    proof cases
      case 2
      note renamed = 2 [unfolded written]
      show ?thesis
      proof (cases ends2)
        case Nil
        with renamed show ?thesis by auto
      next
        case (Cons e ends3)
        with renamed show ?thesis by (cases e) auto
      qed
    qed blast
  qed blast
qed

section \<open>The outcomes of a program that is not stopped\<close>

text \<open>The calls end so that the writing stops after \<open>k\<close> bytes, or with all bytes at the synchronization.\<close>

fun stop_at :: "bytes list \<Rightarrow> nat \<Rightarrow> call_end list" where
  "stop_at [] k = [Failed 0]"
| "stop_at (bs # bss) k = (if k < length bs then [Failed k] else Done # stop_at bss (k - length bs))"

definition replace_ends :: "bytes list \<Rightarrow> replace_outcome \<Rightarrow> call_end list" where
  "replace_ends bss io =
     (case io of
        ReplaceOk \<Rightarrow> replicate (length bss + 4) Done
      | OpenFailed \<Rightarrow> [Failed 0]
      | WriteFailed k \<Rightarrow> Done # stop_at bss k
      | RenameFailed \<Rightarrow> replicate (length bss + 2) Done @ [Failed 0])"

abbreviation "unsynced bs \<equiv> \<lparr>df_data = bs, df_synced = False\<rparr>"

lemma run_stop:
  "dn_tmp d = Some (unsynced bs) \<Longrightarrow> run_calls (map (Try \<circ> Append) bss @ Try Sync # cs) (stop_at bss k) d
     = (Some (Inl IoError), d\<lparr>dn_tmp := Some (unsynced (bs @ take k (concat bss)))\<rparr>)"
proof (induction bss arbitrary: d bs k)
  case Nil
  then show ?case by (cases d) simp
next
  case (Cons x bss)
  show ?case
  proof (cases "k < length x")
    case False
    with Cons.IH [of "d\<lparr>dn_tmp := Some (unsynced (bs @ x))\<rparr>" "bs @ x" "k - length x"] Cons.prems show ?thesis by simp
  qed (use Cons.prems in simp)
qed

lemma run_done:
  "dn_tmp d = Some (unsynced bs) \<Longrightarrow>
     run_calls (map (Try \<circ> Append) bss @ Try Sync # cs) (replicate (length bss) Done @ Done # ends) d
     = run_calls cs ends (d\<lparr>dn_tmp := Some \<lparr>df_data = bs @ concat bss, df_synced = True\<rparr>\<rparr>)"
proof (induction bss arbitrary: d bs)
  case (Cons x bss)
  from Cons.IH [of "d\<lparr>dn_tmp := Some (unsynced (bs @ x))\<rparr>" "bs @ x"] Cons.prems show ?case by simp
qed (cases d, simp)

text \<open>There are no others.\<close>

lemma run_written:
  "dn_tmp d = Some (unsynced bs) \<Longrightarrow> run_calls (map (Try \<circ> Append) bss @ Try Sync # cs) ends d = (Some r, d') \<Longrightarrow>
     (\<exists>k. r = Inl IoError \<and> d' = d\<lparr>dn_tmp := Some (unsynced (bs @ take k (concat bss)))\<rparr>)
     \<or> (\<exists>ends'. run_calls cs ends' (d\<lparr>dn_tmp := Some \<lparr>df_data = bs @ concat bss, df_synced = True\<rparr>\<rparr>) = (Some r, d'))"
proof (induction bss arbitrary: d bs ends)
  case Nil
  then show ?case
  proof (cases ends)
    case (Cons e ends')
    with Nil show ?thesis by (cases e; cases d) auto
  qed simp
next
  case (Cons x bss)
  then show ?case
  proof (cases ends)
    case ends: (Cons e ends')
    show ?thesis
    proof (cases e)
      case Done
      let ?d = "d\<lparr>dn_tmp := Some (unsynced (bs @ x))\<rparr>"
      from ends Done Cons.prems have "run_calls (map (Try \<circ> Append) bss @ Try Sync # cs) ends' ?d = (Some r, d')"
        by (simp add: comp_def)
      from Cons.IH [OF _ this, of "bs @ x"] consider
          k where "r = Inl IoError" "d' = d\<lparr>dn_tmp := Some (unsynced (bs @ x @ take k (concat bss)))\<rparr>"
        | ends2 where "run_calls cs ends2 (d\<lparr>dn_tmp := Some \<lparr>df_data = bs @ x @ concat bss, df_synced = True\<rparr>\<rparr>) = (Some r, d')"
        by auto
      then show ?thesis
      proof cases
        case (1 k)
        then show ?thesis by (intro disjI1 exI [of _ "length x + k"]) simp
      qed auto
    next
      case (Failed k)
      moreover have "take (min k (length x)) x = take k x" by (simp add: min_def)
      ultimately show ?thesis using ends Cons.prems by (intro disjI1 exI [of _ "min k (length x)"]) auto
    qed
  qed simp
qed

text \<open>A stop of the machine then finds what it would have found before, or the new contents.\<close>

lemma replace_durable:
  assumes "name_durable d" "name_reads d = name_reads d' \<and> dn_file d' = dn_file d \<and> dn_earlier d' = dn_earlier d
    \<or> dn_file d' = Some \<lparr>df_data = bs, df_synced = True\<rparr> \<and> (dn_earlier d' = dn_file d # dn_earlier d \<or> dn_earlier d' = [])"
  shows "name_durable d'" "after_stop d' c \<Longrightarrow> after_stop d c \<or> c = Some bs"
  using assms by (auto simp: name_durable_def file_durable_def after_stop_def file_after_def)

end
