(* ===== verification/Snapshot.thy ===== *)
theory Snapshot
  imports FileReplace
begin

text \<open>
  \<open>src/snapshot.rs\<close>: the compacted state on disk.  A file is magic, payload length,
  SHA-256 of the payload, payload.  \<open>sha2::Sha256::digest\<close> is the parameter \<open>sha\<close> (the
  round trip relies only on its 32-byte result), \<open>serde_json::from_slice\<close> for legacy
  payloads is the parameter \<open>json\<close>.
\<close>

section \<open>Data\<close>

record balance_snapshot =
  bs_owner_id :: bytes
  bs_sku :: bytes
  bs_balance :: i64

record dedup_snapshot =
  ds_operation_id :: bytes
  ds_fingerprint :: bytes

record snapshot_data =
  sn_version :: u32
  sn_sequence :: u64
  sn_balances :: "balance_snapshot list"
  sn_dedup :: "dedup_snapshot list"
  sn_writer_epoch :: u64

definition SNAP_MAGIC :: bytes where
  "SNAP_MAGIC = [0x57, 0x48, 0x53, 0x4E, 0x41, 0x50, 0x30, 0x32]" \<comment> \<open>WHSNAP02\<close>

definition SNAP_LEGACY_MAGIC :: bytes where
  "SNAP_LEGACY_MAGIC = [0x57, 0x48, 0x53, 0x4E, 0x41, 0x50, 0x30, 0x31]" \<comment> \<open>WHSNAP01\<close>

definition SNAP_HEADER_SIZE :: nat where
  "SNAP_HEADER_SIZE = 48"

section \<open>Writing\<close>

definition snap_put_string :: "bytes \<Rightarrow> bytes \<Rightarrow> bytes result" where
  "snap_put_string out s =
     rbind (ensure (length s \<le> 65535) (Msg ''snapshot string is too long'')) (\<lambda>_.
     Inr (out @ u16_to_le (word_of_nat (length s)) @ s))"

definition snap_put_balance :: "bytes \<Rightarrow> balance_snapshot \<Rightarrow> bytes result" where
  "snap_put_balance out e =
     rbind (snap_put_string out (bs_owner_id e)) (\<lambda>out.
     rbind (snap_put_string out (bs_sku e)) (\<lambda>out.
     Inr (out @ u64_to_le (bs_balance e))))"

definition snap_put_dedup :: "bytes \<Rightarrow> dedup_snapshot \<Rightarrow> bytes result" where
  "snap_put_dedup out e =
     rbind (snap_put_string out (ds_operation_id e)) (\<lambda>out. Inr (out @ ds_fingerprint e))"

definition snap_encode :: "snapshot_data \<Rightarrow> bytes result" where
  "snap_encode s =
     rbind (put_each snap_put_balance
              (u32_to_le (sn_version s) @ u64_to_le (sn_sequence s)
               @ u64_to_le (word_of_nat (length (sn_balances s)))) (sn_balances s)) (\<lambda>out.
     rbind (put_each snap_put_dedup (out @ u64_to_le (word_of_nat (length (sn_dedup s))))
              (sn_dedup s)) (\<lambda>out.
     Inr (if sn_version s \<ge> 3 then out @ u64_to_le (sn_writer_epoch s) else out)))"

section \<open>Reading\<close>

definition snap_take :: "nat \<Rightarrow> reader \<Rightarrow> (bytes \<times> reader) result" where
  "snap_take n r =
     (case usize_checked_add (rcursor r) n of
        None \<Rightarrow> Inl (Msg ''snapshot offset overflow'')
      | Some e \<Rightarrow>
          rbind (ensure (e \<le> length (rdata r)) (Msg ''snapshot is truncated'')) (\<lambda>_.
          Inr (take (e - rcursor r) (drop (rcursor r) (rdata r)), r\<lparr>rcursor := e\<rparr>)))"

definition snap_u16 :: "reader \<Rightarrow> (u16 \<times> reader) result" where
  "snap_u16 r = rbind (snap_take 2 r) (\<lambda>(bs, r'). Inr (u16_from_le bs, r'))"

definition snap_u32 :: "reader \<Rightarrow> (u32 \<times> reader) result" where
  "snap_u32 r = rbind (snap_take 4 r) (\<lambda>(bs, r'). Inr (u32_from_le bs, r'))"

definition snap_u64 :: "reader \<Rightarrow> (u64 \<times> reader) result" where
  "snap_u64 r = rbind (snap_take 8 r) (\<lambda>(bs, r'). Inr (u64_from_le bs, r'))"

definition snap_i64 :: "reader \<Rightarrow> (i64 \<times> reader) result" where
  "snap_i64 r = rbind (snap_take 8 r) (\<lambda>(bs, r'). Inr (u64_from_le bs, r'))"

text \<open>\<open>usize::try_from\<close> of a \<open>u64\<close> cannot fail on a 64-bit target.\<close>

definition snap_count :: "reader \<Rightarrow> (nat \<times> reader) result" where
  "snap_count r =
     rbind (snap_u64 r) (\<lambda>(w, r').
     rbind (ensure (unat w \<le> 100000000) (Msg ''snapshot item count is unreasonable'')) (\<lambda>_.
     Inr (unat w, r')))"

definition snap_string :: "reader \<Rightarrow> (bytes \<times> reader) result" where
  "snap_string r =
     rbind (snap_u16 r) (\<lambda>(n, r1).
     rbind (snap_take (unat n) r1) (\<lambda>(bs, r2).
     rbind (from_utf8 bs) (\<lambda>s. Inr (s, r2))))"

definition snap_balance :: "reader \<Rightarrow> (balance_snapshot \<times> reader) result" where
  "snap_balance r =
     rbind (snap_string r) (\<lambda>(ow, r).
     rbind (snap_string r) (\<lambda>(sk, r).
     rbind (snap_i64 r) (\<lambda>(b, r).
     Inr (\<lparr>bs_owner_id = ow, bs_sku = sk, bs_balance = b\<rparr>, r))))"

definition snap_dedup :: "reader \<Rightarrow> (dedup_snapshot \<times> reader) result" where
  "snap_dedup r =
     rbind (snap_string r) (\<lambda>(i, r).
     rbind (snap_take 32 r) (\<lambda>(f, r).
     Inr (\<lparr>ds_operation_id = i, ds_fingerprint = f\<rparr>, r)))"

definition snap_epoch :: "u32 \<Rightarrow> reader \<Rightarrow> (u64 \<times> reader) result" where
  "snap_epoch version r = (if version \<ge> 3 then snap_u64 r else Inr (0, r))"

definition snap_reader :: "reader \<Rightarrow> (snapshot_data \<times> reader) result" where
  "snap_reader r =
     rbind (snap_u32 r) (\<lambda>(version, r).
     rbind (snap_u64 r) (\<lambda>(sequence, r).
     rbind (snap_count r) (\<lambda>(balance_count, r).
     rbind (read_each snap_balance balance_count r) (\<lambda>(balances, r).
     rbind (snap_count r) (\<lambda>(dedup_count, r).
     rbind (read_each snap_dedup dedup_count r) (\<lambda>(dedup, r).
     rbind (snap_epoch version r) (\<lambda>(epoch, r).
     Inr (\<lparr>sn_version = version, sn_sequence = sequence, sn_balances = balances,
           sn_dedup = dedup, sn_writer_epoch = epoch\<rparr>, r))))))))"

definition snap_decode :: "bytes \<Rightarrow> snapshot_data result" where
  "snap_decode payload =
     rbind (snap_reader (reader_new payload)) (\<lambda>(s, r).
     rbind (ensure (rcursor r = length (rdata r)) (Msg ''snapshot contains trailing data''))
       (\<lambda>_. Inr s))"

definition snap_load :: "(bytes \<Rightarrow> bytes) \<Rightarrow> (bytes \<Rightarrow> snapshot_data result) \<Rightarrow> read_outcome
    \<Rightarrow> snapshot_data option result" where
  "snap_load sha json rd =
     (case rd of
        FileNotFound \<Rightarrow> Inr None
      | FileError \<Rightarrow> Inl IoError
      | FileData data \<Rightarrow>
          rbind (ensure (length data \<ge> SNAP_HEADER_SIZE) (Msg ''snapshot header is truncated'')) (\<lambda>_.
          let magic = take 8 data in
          rbind (ensure (magic = SNAP_MAGIC \<or> magic = SNAP_LEGACY_MAGIC)
                   (Msg ''snapshot magic mismatch'')) (\<lambda>_.
          let len = unat (u64_from_le (take 8 (drop 8 data))) in
          rbind (ensure (len \<le> 4 * 1024 * 1024 * 1024) (Msg ''snapshot exceeds 4 GiB'')) (\<lambda>_.
          rbind (ensure (length data = SNAP_HEADER_SIZE + len) (Msg ''snapshot length mismatch'')) (\<lambda>_.
          let payload = drop SNAP_HEADER_SIZE data in
          rbind (ensure (sha payload = take 32 (drop 16 data)) (Msg ''snapshot checksum mismatch'')) (\<lambda>_.
          rbind (if magic = SNAP_LEGACY_MAGIC
                 then map_err (\<lambda>_. Msg ''invalid legacy snapshot payload'') (json payload)
                 else map_err (\<lambda>_. Msg ''invalid snapshot payload'') (snap_decode payload)) (\<lambda>s.
          rbind (ensure (1 \<le> sn_version s \<and> sn_version s \<le> 3) (Msg ''unsupported snapshot version'')) (\<lambda>_.
          Inr (Some s)))))))))"

section \<open>Saving\<close>

definition snap_bytes :: "(bytes \<Rightarrow> bytes) \<Rightarrow> bytes \<Rightarrow> bytes" where
  "snap_bytes sha payload =
     SNAP_MAGIC @ u64_to_le (word_of_nat (length payload)) @ sha payload @ payload"

text \<open>The calls of \<open>save\<close> on the files, in their order.\<close>

definition save_calls :: "(bytes \<Rightarrow> bytes) \<Rightarrow> bytes \<Rightarrow> file_step list" where
  "save_calls sha payload =
     [Try Create,
      Try (Append SNAP_MAGIC),
      Try (Append (u64_to_le (word_of_nat (length payload)))),
      Try (Append (sha payload)),
      Try (Append payload),
      Try Sync,
      Try Rename,
      Ignore Sync_dir]"

definition snap_write :: "(bytes \<Rightarrow> bytes) \<Rightarrow> call_end list \<Rightarrow> snapshot_data \<Rightarrow> disk_names
    \<Rightarrow> unit result option \<times> disk_names" where
  "snap_write sha ends s d =
     (case snap_encode s of
        Inl e \<Rightarrow> (Some (Inl e), d)
      | Inr payload \<Rightarrow> run_calls (save_calls sha payload) ends d)"

text \<open>
  For a caller that is not stopped meanwhile only the contents of the two files matter, and
  where the calls end: \<open>snap_save_outcomes\<close> shows that \<open>replace_outcome\<close> has all cases.
\<close>

record snap_files =
  sf_file :: "bytes option"
  sf_tmp :: "bytes option"

definition names_of :: "snap_files \<Rightarrow> disk_names" where
  "names_of f = \<lparr>dn_file = map_option (\<lambda>bs. \<lparr>df_data = bs, df_synced = True\<rparr>) (sf_file f),
     dn_tmp = map_option (\<lambda>bs. \<lparr>df_data = bs, df_synced = False\<rparr>) (sf_tmp f), dn_earlier = []\<rparr>"

definition files_of :: "disk_names \<Rightarrow> snap_files" where
  "files_of d = \<lparr>sf_file = map_option df_data (dn_file d), sf_tmp = map_option df_data (dn_tmp d)\<rparr>"

definition save_chunks :: "(bytes \<Rightarrow> bytes) \<Rightarrow> bytes \<Rightarrow> bytes list" where
  "save_chunks sha payload = [SNAP_MAGIC, u64_to_le (word_of_nat (length payload)), sha payload, payload]"

definition save_ends :: "(bytes \<Rightarrow> bytes) \<Rightarrow> replace_outcome \<Rightarrow> snapshot_data \<Rightarrow> call_end list" where
  "save_ends sha io s = (case snap_encode s of Inl e \<Rightarrow> [] | Inr payload \<Rightarrow> replace_ends (save_chunks sha payload) io)"

definition snap_save :: "(bytes \<Rightarrow> bytes) \<Rightarrow> replace_outcome \<Rightarrow> snapshot_data \<Rightarrow> snap_files
    \<Rightarrow> unit result \<times> snap_files" where
  "snap_save sha io s f =
     (case snap_write sha (save_ends sha io s) s (names_of f) of
        (Some r, d) \<Rightarrow> (r, files_of d)
      | (None, d) \<Rightarrow> (Inl IoError, files_of d))"

lemma save_calls_eq:
  "save_calls sha p = Try Create # map (Try \<circ> Append) (save_chunks sha p) @ Try Sync # [Try Rename, Ignore Sync_dir]"
  "concat (save_chunks sha p) = snap_bytes sha p"
  by (simp_all add: save_calls_def save_chunks_def snap_bytes_def)

lemma sf_tmp_update: "f\<lparr>sf_tmp := x\<rparr> = \<lparr>sf_file = sf_file f, sf_tmp = x\<rparr>"
  by (cases f) simp

lemma files_of_names: "files_of (names_of f) = f"
  by (cases f) (simp add: files_of_def names_of_def option.map_comp comp_def option.map_ident)

text \<open>The contents after each outcome.\<close>

lemma snap_save_outcome:
  "snap_save sha io s f =
     (case snap_encode s of
        Inl e \<Rightarrow> (Inl e, f)
      | Inr payload \<Rightarrow>
          (case io of
             OpenFailed \<Rightarrow> (Inl IoError, f)
           | WriteFailed k \<Rightarrow> (Inl IoError, f\<lparr>sf_tmp := Some (take k (snap_bytes sha payload))\<rparr>)
           | RenameFailed \<Rightarrow> (Inl IoError, f\<lparr>sf_tmp := Some (snap_bytes sha payload)\<rparr>)
           | ReplaceOk \<Rightarrow> (Inr (), \<lparr>sf_file = Some (snap_bytes sha payload), sf_tmp = None\<rparr>)))"
proof (cases "snap_encode s")
  case (Inl e)
  then show ?thesis by (simp add: snap_save_def snap_write_def files_of_names)
next
  case (Inr p)
  let ?bss = "save_chunks sha p" and ?d = "(names_of f)\<lparr>dn_tmp := Some (unsynced [])\<rparr>"
  have tmp: "dn_tmp ?d = Some (unsynced [])" by simp
  have kept: "map_option df_data (dn_file (names_of f)) = sf_file f"
    by (simp add: names_of_def option.map_comp comp_def option.map_ident)
  note run = snap_save_def snap_write_def save_ends_def Inr save_calls_eq(1) replace_ends_def
  show ?thesis
  proof (cases io)
    case ReplaceOk
    have "replicate (length ?bss + 4) Done = Done # replicate (length ?bss) Done @ Done # [Done, Done]"
      by (simp add: save_chunks_def eval_nat_numeral)
    with run_done [OF tmp, of ?bss "[Try Rename, Ignore Sync_dir]" "[Done, Done]"] show ?thesis
      by (simp add: run ReplaceOk files_of_def save_calls_eq(2))
  next
    case RenameFailed
    have "replicate (length ?bss + 2) Done @ [Failed 0] = Done # replicate (length ?bss) Done @ Done # [Failed 0]"
      by (simp add: save_chunks_def eval_nat_numeral)
    with run_done [OF tmp, of ?bss "[Try Rename, Ignore Sync_dir]" "[Failed 0]"] show ?thesis
      by (simp add: run RenameFailed files_of_def save_calls_eq(2) kept sf_tmp_update)
  next
    case (WriteFailed k)
    with run_stop [OF tmp, of ?bss "[Try Rename, Ignore Sync_dir]" k] show ?thesis
      by (simp add: run files_of_def save_calls_eq(2) kept sf_tmp_update)
  next
    case OpenFailed
    then show ?thesis by (simp add: run files_of_names)
  qed
qed

lemma snap_save_outcomes:
  assumes "snap_write sha ends s (names_of f) = (Some r, d)"
  shows "\<exists>io. snap_save sha io s f = (r, files_of d)"
proof (cases "snap_encode s")
  case (Inl e)
  with assms show ?thesis by (simp add: snap_save_outcome snap_write_def) (use files_of_names in metis)
next
  case (Inr p)
  show ?thesis
  proof (cases ends)
    case Nil
    with assms Inr show ?thesis by (simp add: snap_write_def save_calls_eq(1))
  next
    case (Cons e ends')
    show ?thesis
    proof (cases e)
      case (Failed k)
      with assms Inr Cons have "r = Inl IoError" "d = names_of f" by (simp_all add: snap_write_def save_calls_eq(1))
      then show ?thesis by (intro exI [of _ OpenFailed]) (simp add: snap_save_outcome Inr files_of_names)
    next
      case Done
      let ?d = "(names_of f)\<lparr>dn_tmp := Some (unsynced [])\<rparr>"
      have kept: "map_option df_data (dn_file (names_of f)) = sf_file f"
        by (simp add: names_of_def option.map_comp comp_def option.map_ident)
      from assms Inr Cons Done have
        "run_calls (map (Try \<circ> Append) (save_chunks sha p) @ Try Sync # [Try Rename, Ignore Sync_dir]) ends' ?d = (Some r, d)"
        by (simp add: snap_write_def save_calls_eq(1))
      from run_written [OF _ this] consider
          k where "r = Inl IoError" "d = ?d\<lparr>dn_tmp := Some (unsynced (take k (snap_bytes sha p)))\<rparr>"
        | ends2 where "run_calls [Try Rename, Ignore Sync_dir] ends2
            (?d\<lparr>dn_tmp := Some \<lparr>df_data = snap_bytes sha p, df_synced = True\<rparr>\<rparr>) = (Some r, d)"
        by (auto simp: save_calls_eq(2))
      then show ?thesis
      proof cases
        case (1 k)
        then show ?thesis by (intro exI [of _ "WriteFailed k"]) (simp add: snap_save_outcome Inr files_of_def kept sf_tmp_update)
      next
        case (2 ends2)
        show ?thesis
        proof (cases ends2)
          case (Cons e2 ends3)
          show ?thesis
          proof (cases e2)
            case (Failed k)
            with 2 Cons have "r = Inl IoError" "d = ?d\<lparr>dn_tmp := Some \<lparr>df_data = snap_bytes sha p, df_synced = True\<rparr>\<rparr>" by simp_all
            then show ?thesis by (intro exI [of _ RenameFailed]) (simp add: snap_save_outcome Inr files_of_def kept sf_tmp_update)
          next
            case Done
            with 2 Cons have "r = Inr () \<and> dn_file d = Some \<lparr>df_data = snap_bytes sha p, df_synced = True\<rparr> \<and> dn_tmp d = None"
              by (cases ends3; cases "hd ends3") auto
            then show ?thesis by (intro exI [of _ ReplaceOk]) (simp add: snap_save_outcome Inr files_of_def)
          qed
        qed (use 2 in simp)
      qed
    qed
  qed
qed

section \<open>The payload format\<close>

definition enc_balance :: "balance_snapshot \<Rightarrow> bytes" where
  "enc_balance e = enc_string (bs_owner_id e) @ enc_string (bs_sku e) @ u64_to_le (bs_balance e)"

definition enc_dedup :: "dedup_snapshot \<Rightarrow> bytes" where
  "enc_dedup e = enc_string (ds_operation_id e) @ ds_fingerprint e"

definition enc_snapshot :: "snapshot_data \<Rightarrow> bytes" where
  "enc_snapshot s =
     u32_to_le (sn_version s) @ u64_to_le (sn_sequence s)
     @ u64_to_le (word_of_nat (length (sn_balances s))) @ concat (map enc_balance (sn_balances s))
     @ u64_to_le (word_of_nat (length (sn_dedup s))) @ concat (map enc_dedup (sn_dedup s))
     @ (if sn_version s \<ge> 3 then u64_to_le (sn_writer_epoch s) else [])"

definition balance_good :: "balance_snapshot \<Rightarrow> bool" where
  "balance_good e \<longleftrightarrow> string_good (bs_owner_id e) \<and> string_good (bs_sku e)"

definition balance_fits :: "balance_snapshot \<Rightarrow> bool" where
  "balance_fits e \<longleftrightarrow> string_fits (bs_owner_id e) \<and> string_fits (bs_sku e)"

definition dedup_good :: "dedup_snapshot \<Rightarrow> bool" where
  "dedup_good e \<longleftrightarrow> string_good (ds_operation_id e) \<and> length (ds_fingerprint e) = 32"

definition dedup_fits :: "dedup_snapshot \<Rightarrow> bool" where
  "dedup_fits e \<longleftrightarrow> string_fits (ds_operation_id e)"

text \<open>
  The snapshots a payload can represent: at most a hundred million entries of each kind,
  with the type invariants of Rust (UTF-8 strings, 32-byte fingerprints); before version 3
  there is no writer epoch.
\<close>

definition snapshot_good :: "snapshot_data \<Rightarrow> bool" where
  "snapshot_good s \<longleftrightarrow>
     length (sn_balances s) \<le> 100000000 \<and> list_all balance_good (sn_balances s)
     \<and> length (sn_dedup s) \<le> 100000000 \<and> list_all dedup_good (sn_dedup s)
     \<and> (sn_version s < 3 \<longrightarrow> sn_writer_epoch s = 0)"

lemma snap_take_decodes: "decodes (snap_take n) (\<lambda>bs. bs) (\<lambda>bs. length bs = n)"
proof (rule decodesI)
  fix r x bs
  assume ok: "reader_ok r" and n: "length x = n" and r: "rest r = x @ bs"
  have "rcursor r + n \<le> length (rdata r)"
    using n reader_ok_advance [OF ok r] by (simp add: reader_ok_def)
  with ok n r show "snap_take n r = Inr (x, advance (length x) r)"
    by (auto simp: snap_take_def usize_checked_add_def reader_ok_def advance_def rest_def)
next
  fix r x r'
  assume ok: "reader_ok r" and t: "snap_take n r = Inr (x, r')"
  then have "rcursor r + n \<le> length (rdata r)"
    by (auto simp: snap_take_def usize_checked_add_def rbind_ensure_Inr_iff split: if_splits)
  with t ok have "x = take n (rest r)" "r' = advance n r" "length x = n"
    by (auto simp: snap_take_def usize_checked_add_def rest_def advance_def reader_ok_def)
  then show "length x = n \<and> (\<exists>bs. rest r = x @ bs) \<and> r' = advance (length x) r"
    by (metis append_take_drop_id)
qed

interpretation snap: byte_reader snap_take
  by unfold_locales (rule snap_take_decodes)

lemma snap_u32_decodes: "decodes snap_u32 u32_to_le (\<lambda>_. True)"
  unfolding snap_u32_def [abs_def] by (rule snap.u32_decodes)

lemma snap_u64_decodes: "decodes snap_u64 u64_to_le (\<lambda>_. True)"
  unfolding snap_u64_def [abs_def] by (rule snap.u64_decodes)

lemma snap_i64_decodes: "decodes snap_i64 u64_to_le (\<lambda>_. True)"
  unfolding snap_i64_def [abs_def] by (rule snap.u64_decodes)

lemma snap_string_decodes: "decodes snap_string enc_string string_good"
  unfolding snap_string_def [abs_def]
  by (rule snap.string_decodes) (unfold snap_u16_def [abs_def], rule snap.u16_decodes)

lemma snap_count_decodes:
  "decodes snap_count (\<lambda>n. u64_to_le (word_of_nat n)) (\<lambda>n. n \<le> 100000000)"
proof -
  have ret: "decodes (\<lambda>r. rbind (ensure (unat w \<le> 100000000) (Msg ''snapshot item count is unreasonable''))
      (\<lambda>_. Inr (unat w, r))) (\<lambda>_. []) (\<lambda>n. unat w \<le> 100000000 \<and> n = unat w)" for w :: u64
    by (rule decodes_ensure) (rule decodes_return)
  show ?thesis
    unfolding snap_count_def [abs_def]
    by (rule decodes_cong [OF decodes_seq [OF snap_u64_decodes ret, where f = word_of_nat]])
      (auto simp: unat_of_nat)
qed

lemma balance_eq_iff:
  "e = \<lparr>bs_owner_id = ow, bs_sku = s, bs_balance = b\<rparr> \<longleftrightarrow>
     bs_owner_id e = ow \<and> bs_sku e = s \<and> bs_balance e = b"
  by (cases e) auto

lemma dedup_eq_iff:
  "e = \<lparr>ds_operation_id = i, ds_fingerprint = f\<rparr> \<longleftrightarrow>
     ds_operation_id e = i \<and> ds_fingerprint e = f"
  by (cases e) auto

lemma snapshot_eq_iff:
  "s = \<lparr>sn_version = v, sn_sequence = q, sn_balances = bs, sn_dedup = ds, sn_writer_epoch = e\<rparr> \<longleftrightarrow>
     sn_version s = v \<and> sn_sequence s = q \<and> sn_balances s = bs \<and> sn_dedup s = ds
     \<and> sn_writer_epoch s = e"
  by (cases s) auto

lemma snap_balance_decodes: "decodes snap_balance enc_balance balance_good"
proof -
  note 3 = decodes_seq [OF snap_i64_decodes decodes_return, where f = bs_balance]
  note 2 = decodes_seq [OF snap_string_decodes 3, where f = bs_sku]
  note 1 = decodes_seq [OF snap_string_decodes 2, where f = bs_owner_id]
  show ?thesis
    unfolding snap_balance_def [abs_def]
    by (rule decodes_cong [OF 1]) (auto simp: enc_balance_def balance_good_def balance_eq_iff)
qed

lemma snap_dedup_decodes: "decodes snap_dedup enc_dedup dedup_good"
proof -
  note 2 = decodes_seq [OF snap_take_decodes decodes_return, where f = ds_fingerprint]
  note 1 = decodes_seq [OF snap_string_decodes 2, where f = ds_operation_id]
  show ?thesis
    unfolding snap_dedup_def [abs_def]
    by (rule decodes_cong [OF 1]) (auto simp: enc_dedup_def dedup_good_def dedup_eq_iff)
qed

lemma snap_epoch_decodes:
  "decodes (snap_epoch v) (\<lambda>e. if v \<ge> 3 then u64_to_le e else []) (\<lambda>e. v < 3 \<longrightarrow> e = 0)"
proof (cases "v \<ge> 3")
  case True
  then have "(v < 3) = False" by (simp add: not_less)
  with True show ?thesis
    unfolding snap_epoch_def [abs_def] using snap_u64_decodes by simp
next
  case False
  then have "(v < 3) = True" by (simp add: not_le)
  with False show ?thesis
    unfolding snap_epoch_def [abs_def] using decodes_return [of "0 :: u64"] by simp
qed

lemma snap_put_string_iff:
  "snap_put_string out s = Inr out' \<longleftrightarrow> string_fits s \<and> out' = out @ enc_string s"
  by (auto simp: snap_put_string_def string_fits_def enc_string_def rbind_ensure_Inr_iff)

lemma snap_put_balance_iff:
  "snap_put_balance out e = Inr out' \<longleftrightarrow> balance_fits e \<and> out' = out @ enc_balance e"
  by (auto simp: snap_put_balance_def rbind_Inr_iff snap_put_string_iff balance_fits_def enc_balance_def)

lemma snap_put_dedup_iff:
  "snap_put_dedup out e = Inr out' \<longleftrightarrow> dedup_fits e \<and> out' = out @ enc_dedup e"
  by (auto simp: snap_put_dedup_def rbind_Inr_iff snap_put_string_iff dedup_fits_def enc_dedup_def)

interpretation balance_codec: codec snap_balance enc_balance balance_good snap_put_balance balance_fits
  by unfold_locales
    (auto simp: snap_balance_decodes snap_put_balance_iff balance_good_def balance_fits_def string_good_def)

interpretation dedup_codec: codec snap_dedup enc_dedup dedup_good snap_put_dedup dedup_fits
  by unfold_locales
    (auto simp: snap_dedup_decodes snap_put_dedup_iff dedup_good_def dedup_fits_def string_good_def)

lemma snap_reader_decodes: "decodes snap_reader enc_snapshot snapshot_good"
proof -
  note 7 = decodes_seq [OF snap_epoch_decodes decodes_return, where f = sn_writer_epoch]
  note 6 = decodes_seq [OF dedup_codec.read_each_decodes 7, where f = sn_dedup]
  note 5 = decodes_seq [OF snap_count_decodes 6, where f = "\<lambda>s. length (sn_dedup s)"]
  note 4 = decodes_seq [OF balance_codec.read_each_decodes 5, where f = sn_balances]
  note 3 = decodes_seq [OF snap_count_decodes 4, where f = "\<lambda>s. length (sn_balances s)"]
  note 2 = decodes_seq [OF snap_u64_decodes 3, where f = sn_sequence]
  note 1 = decodes_seq [OF snap_u32_decodes 2, where f = sn_version]
  show ?thesis
    unfolding snap_reader_def [abs_def]
    by (rule decodes_cong [OF 1]) (auto simp: enc_snapshot_def snapshot_good_def snapshot_eq_iff)
qed

definition snapshot_fits :: "snapshot_data \<Rightarrow> bool" where
  "snapshot_fits s \<longleftrightarrow> list_all balance_fits (sn_balances s) \<and> list_all dedup_fits (sn_dedup s)"

lemma snap_encode_iff: "snap_encode s = Inr p \<longleftrightarrow> snapshot_fits s \<and> p = enc_snapshot s"
  by (auto simp: snap_encode_def rbind_Inr_iff balance_codec.put_each_Inr_iff
      dedup_codec.put_each_Inr_iff snapshot_fits_def enc_snapshot_def)

lemma snapshot_good_fits: "snapshot_good s \<Longrightarrow> snapshot_fits s"
  by (auto simp: snapshot_good_def snapshot_fits_def list_all_iff balance_codec.good_fits
      dedup_codec.good_fits)

lemma snap_decode_iff:
  assumes "length p < 2 ^ 63"
  shows "snap_decode p = Inr s \<longleftrightarrow> snapshot_good s \<and> p = enc_snapshot s"
  unfolding snap_decode_def
  by (rule payload_decode_iff [OF snap_reader_decodes assms refl])

section \<open>Round trip, atomicity, damage\<close>

definition snapshot_loadable :: "snapshot_data \<Rightarrow> bool" where
  "snapshot_loadable s \<longleftrightarrow>
     snapshot_good s \<and> 1 \<le> sn_version s \<and> sn_version s \<le> 3
     \<and> length (enc_snapshot s) \<le> 4 * 1024 * 1024 * 1024"

lemma unat_u64_le: "n < 2 ^ 64 \<Longrightarrow> unat (u64_from_le (u64_to_le (word_of_nat n))) = n"
  by (simp add: unat_of_nat)

lemma SNAP_MAGIC_facts:
  "length SNAP_MAGIC = 8" "SNAP_MAGIC \<noteq> SNAP_LEGACY_MAGIC"
  by (simp_all add: SNAP_MAGIC_def SNAP_LEGACY_MAGIC_def)

lemma snap_load_bytes:
  assumes "length (sha p) = 32" "length p \<le> 4 * 1024 * 1024 * 1024"
  shows "snap_load sha json (FileData (snap_bytes sha p)) =
    rbind (map_err (\<lambda>_. Msg ''invalid snapshot payload'') (snap_decode p)) (\<lambda>s.
    rbind (ensure (1 \<le> sn_version s \<and> sn_version s \<le> 3) (Msg ''unsupported snapshot version''))
      (\<lambda>_. Inr (Some s)))"
proof -
  let ?d = "snap_bytes sha p"
  have "take 8 ?d = SNAP_MAGIC" "take 8 (drop 8 ?d) = u64_to_le (word_of_nat (length p))"
    "drop 48 ?d = p" "take 32 (drop 16 ?d) = sha p" "length ?d = 48 + length p"
    using assms(1) by (simp_all add: snap_bytes_def SNAP_MAGIC_facts)
  with assms(2) show ?thesis
    by (simp add: snap_load_def SNAP_HEADER_SIZE_def Let_def SNAP_MAGIC_facts unat_of_nat)
qed

lemma saved_snapshot_loads:
  assumes "\<And>bs. length (sha bs) = 32" and "snapshot_loadable s"
    and "snap_save sha io s f = (Inr (), f')"
  shows "snap_load sha json (file_read (sf_file f')) = Inr (Some s)"
proof -
  let ?p = "enc_snapshot s"
  have good: "snapshot_good s" and len: "length ?p \<le> 4 * 1024 * 1024 * 1024"
    and v: "1 \<le> sn_version s \<and> sn_version s \<le> 3"
    using assms(2) by (simp_all add: snapshot_loadable_def)
  from snapshot_good_fits [OF good] have "snap_encode s = Inr ?p" by (simp add: snap_encode_iff)
  with assms(3) have "sf_file f' = Some (snap_bytes sha ?p)"
    by (auto simp: snap_save_outcome split: replace_outcome.splits)
  moreover have "snap_decode ?p = Inr s" using good len by (subst snap_decode_iff) simp_all
  ultimately show ?thesis
    using snap_load_bytes [OF assms(1) len] v by (simp add: file_read_def)
qed

text \<open>
  C24: a saved snapshot loads back unchanged.  When \<open>save\<close> reports success for a snapshot
  of version 1 to 3 whose payload has at most 4 GiB and whose lists have at most a hundred
  million entries, \<open>load\<close> returns exactly this snapshot (balances, dedup entries, sequence
  and, from version 3, the writer epoch).
\<close>
theorem snapshot_roundtrip:
  assumes "\<And>bs. length (sha bs) = 32" and "snapshot_loadable s"
    and "snap_save sha io s f = (Inr (), f')"
  shows "snap_load sha json (file_read (sf_file f')) = Inr (Some s)"
  by (rule saved_snapshot_loads [OF assms])

definition sample_snapshot :: snapshot_data where
  "sample_snapshot = \<lparr>sn_version = 3, sn_sequence = 42,
     sn_balances = [\<lparr>bs_owner_id = ascii ''owner'', bs_sku = ascii ''sku'', bs_balance = 77\<rparr>],
     sn_dedup = [\<lparr>ds_operation_id = ascii ''op-1'', ds_fingerprint = replicate 32 5\<rparr>],
     sn_writer_epoch = 8\<rparr>"

lemma sample_snapshot_loadable: "snapshot_loadable sample_snapshot"
  by (simp add: snapshot_loadable_def snapshot_good_def sample_snapshot_def balance_good_def
      dedup_good_def string_good_def string_fits_def ascii_str_facts ascii_only_def
      enc_snapshot_def enc_balance_def enc_dedup_def enc_string_def)

lemma snapshot_roundtrip_witness:
  "\<exists>f'. snap_save (\<lambda>_. replicate 32 1) ReplaceOk sample_snapshot \<lparr>sf_file = None, sf_tmp = None\<rparr> = (Inr (), f')
     \<and> snap_load (\<lambda>_. replicate 32 1) (\<lambda>_. Inl ParseError) (file_read (sf_file f')) = Inr (Some sample_snapshot)"
proof -
  have "snap_encode sample_snapshot = Inr (enc_snapshot sample_snapshot)"
    using sample_snapshot_loadable by (simp add: snap_encode_iff snapshot_loadable_def snapshot_good_fits)
  then obtain f' where f': "snap_save (\<lambda>_. replicate 32 1) ReplaceOk sample_snapshot
      \<lparr>sf_file = None, sf_tmp = None\<rparr> = (Inr (), f')"
    by (simp add: snap_save_outcome)
  from snapshot_roundtrip [OF _ sample_snapshot_loadable f'] f' show ?thesis by auto
qed

text \<open>
  C23: saving is atomic, on the disk.  Let every file that the name of the snapshot may refer to
  be on the disk.  Whatever happens during \<open>save\<close>, an encoding error, the failure of any
  call or a stop of the machine after any call, and whatever bytes the disk then has for data
  that was not synchronized: a start finds what it would have found before, or the complete new
  snapshot; the same holds at the next \<open>save\<close>.  A \<open>save\<close> that fails leaves the file as it was,
  and one that succeeds has put the complete snapshot there.
\<close>
theorem snapshot_save_atomic:
  assumes "name_durable d" "snap_write sha ends s d = (r, d')"
  shows "name_durable d'
    \<and> (after_stop d' c \<longrightarrow> after_stop d c \<or> (\<exists>p. snap_encode s = Inr p \<and> c = Some (snap_bytes sha p)))
    \<and> (\<forall>e. r = Some (Inl e) \<longrightarrow> name_reads d' = name_reads d)
    \<and> (r = Some (Inr ()) \<longrightarrow> (\<exists>p. snap_encode s = Inr p \<and> name_reads d' = Some (snap_bytes sha p)))"
proof (cases "snap_encode s")
  case (Inl e)
  with assms show ?thesis by (auto simp: snap_write_def)
next
  case (Inr p)
  have "save_calls sha p = map Try (Create # map Append (save_chunks sha p) @ [Sync, Rename]) @ [Ignore Sync_dir]"
    by (simp add: save_calls_eq(1))
  with assms(2) Inr have "run_calls (map Try (Create # map Append (save_chunks sha p) @ [Sync, Rename]) @ [Ignore Sync_dir]) ends d = (r, d')"
    by (simp add: snap_write_def)
  note run = replace_run [OF this, unfolded save_calls_eq(2)]
  then have "name_reads d = name_reads d' \<and> dn_file d' = dn_file d \<and> dn_earlier d' = dn_earlier d
    \<or> dn_file d' = Some \<lparr>df_data = snap_bytes sha p, df_synced = True\<rparr> \<and> (dn_earlier d' = dn_file d # dn_earlier d \<or> dn_earlier d' = [])"
    by (auto simp: name_reads_def)
  from replace_durable [OF assms(1) this] run Inr show ?thesis by (auto simp: name_reads_def)
qed

lemma snapshot_save_atomic_witness:
  "\<exists>r d'. snap_write (\<lambda>_. replicate 32 1) [Done, Done, Done, Failed 9] sample_snapshot (names_of \<lparr>sf_file = Some [1], sf_tmp = None\<rparr>) = (r, d')
     \<and> name_durable d' \<and> name_reads d' = Some [1]"
proof -
  let ?d = "names_of \<lparr>sf_file = Some [1], sf_tmp = None\<rparr>" and ?ends = "[Done, Done, Done, Failed 9]"
  have "snap_encode sample_snapshot = Inr (enc_snapshot sample_snapshot)"
    using sample_snapshot_loadable by (simp add: snap_encode_iff snapshot_loadable_def snapshot_good_fits)
  then obtain d' where run: "snap_write (\<lambda>_. replicate 32 1) ?ends sample_snapshot ?d = (Some (Inl IoError), d')"
    by (simp add: snap_write_def save_calls_def names_of_def)
  have durable: "name_durable ?d" and reads: "name_reads ?d = Some [1]"
    by (simp_all add: name_durable_def file_durable_def names_of_def name_reads_def)
  from snapshot_save_atomic [OF durable run] run reads show ?thesis by simp
qed

lemma snap_load_length:
  "snap_load sha json (FileData d) = Inr x \<Longrightarrow>
     48 \<le> length d \<and> length d = 48 + unat (u64_from_le (take 8 (drop 8 d)))"
  unfolding snap_load_def Let_def SNAP_HEADER_SIZE_def read_outcome.case rbind_ensure_Inr_iff
  by blast

text \<open>
  A snapshot whose payload was altered is refused.  If payload bytes changed while the
  header stayed, \<open>load\<close> fails with the checksum error unless the digests collide; a file
  that was cut or extended fails with an error as well.
\<close>
theorem snapshot_damage_detected:
  assumes "\<And>bs. length (sha bs) = 32" and "length p \<le> 4 * 1024 * 1024 * 1024"
    and "length p' = length p" and "sha p' \<noteq> sha p"
    and "data = SNAP_MAGIC @ u64_to_le (word_of_nat (length p)) @ sha p @ p'"
    and "k < length data" and "extra \<noteq> []"
  shows "snap_load sha json (FileData data) = Inl (Msg ''snapshot checksum mismatch'')
    \<and> \<not> is_ok (snap_load sha json (FileData (take k (snap_bytes sha p))))
    \<and> \<not> is_ok (snap_load sha json (FileData (snap_bytes sha p @ extra)))"
proof (intro conjI)
  have "take 8 data = SNAP_MAGIC" "take 8 (drop 8 data) = u64_to_le (word_of_nat (length p))"
    "drop 48 data = p'" "take 32 (drop 16 data) = sha p" "length data = 48 + length p"
    using assms(1,3,5) by (simp_all add: SNAP_MAGIC_facts)
  with assms(2,4) show "snap_load sha json (FileData data) = Inl (Msg ''snapshot checksum mismatch'')"
    by (simp add: snap_load_def SNAP_HEADER_SIZE_def Let_def unat_of_nat)
  have len: "length (snap_bytes sha p) = 48 + length p" "length data = 48 + length p"
    using assms(1,3,5) by (simp_all add: snap_bytes_def SNAP_MAGIC_facts)
  have wrong: "\<not> is_ok (snap_load sha json (FileData d))"
    if "take 8 (drop 8 d) = u64_to_le (word_of_nat (length p)) \<or> length d < 48"
      "length d \<noteq> 48 + length p" for d
  proof
    assume "is_ok (snap_load sha json (FileData d))"
    then obtain x where "snap_load sha json (FileData d) = Inr x" unfolding is_ok_iff by blast
    then have l: "48 \<le> length d \<and> length d = 48 + unat (u64_from_le (take 8 (drop 8 d)))"
      by (rule snap_load_length)
    have "unat (u64_from_le (u64_to_le (word_of_nat (length p)))) = length p"
      using assms(2) by (intro unat_u64_le) simp
    with l that show False by (metis not_le)
  qed
  let ?d = "snap_bytes sha p"
  have hdr: "take 8 (drop 8 ?d) = u64_to_le (word_of_nat (length p))"
    by (simp add: snap_bytes_def SNAP_MAGIC_facts)
  have k: "length (take k ?d) < 48 + length p" using assms(6) len by simp
  have "take 8 (drop 8 (take k ?d)) = take 8 (drop 8 ?d)" if "\<not> length (take k ?d) < 48"
    using that by (auto simp: drop_take min_def split: if_splits)
  with hdr k show "\<not> is_ok (snap_load sha json (FileData (take k ?d)))"
    by (intro wrong) auto
  have "take 8 (drop 8 (?d @ extra)) = take 8 (drop 8 ?d)" using len by simp
  with hdr len assms(7) show "\<not> is_ok (snap_load sha json (FileData (?d @ extra)))"
    by (intro wrong) auto
qed

lemma snapshot_damage_detected_witness:
  "snap_load (\<lambda>bs. le_nat 32 (le_val bs)) (\<lambda>_. Inl ParseError)
     (FileData (SNAP_MAGIC @ u64_to_le 1 @ le_nat 32 1 @ [2])) = Inl (Msg ''snapshot checksum mismatch'')"
proof -
  let ?sha = "\<lambda>bs. le_nat 32 (le_val bs)"
  have "le_val (?sha [2]) \<noteq> le_val (?sha [1])" by (simp only: le_val_le_nat) simp
  then have "?sha [2] \<noteq> ?sha [1]" by metis
  from snapshot_damage_detected [of ?sha "[1]" "[2]" _ 0 "[0]" "\<lambda>_. Inl ParseError", OF _ _ _ this refl]
  show ?thesis by simp
qed

end
