(* ===== verification/Bloom.thy ===== *)
theory Bloom
  imports Prelude
begin

unbundle bit_operations_syntax

text \<open>
  The Bloom filter of \<open>src/dedup_disk.rs\<close>: four bit positions per 32-byte key, taken from
  the key's own bytes.  The filter answers negative lookups from memory; what matters is
  that it has no false negative, also while it is rebuilt in the background.
\<close>

definition bloom_positions :: "bytes \<Rightarrow> nat \<Rightarrow> nat list" where
  "bloom_positions key bits =
     map (\<lambda>offset. unat (u64_from_le (take 8 (drop offset key))) mod bits) [0, 8, 16, 24]"

definition bloom_maybe :: "bytes \<Rightarrow> bytes \<Rightarrow> bool" where
  "bloom_maybe bloom key =
     list_all (\<lambda>p. bloom ! (p div 8) AND push_bit (p mod 8) 1 \<noteq> 0)
       (bloom_positions key (length bloom * 8))"

fun bloom_set :: "bytes \<Rightarrow> nat list \<Rightarrow> bytes" where
  "bloom_set bloom [] = bloom"
| "bloom_set bloom (p # ps) =
     bloom_set (bloom[p div 8 := bloom ! (p div 8) OR push_bit (p mod 8) 1]) ps"

definition bloom_add :: "bytes \<Rightarrow> bytes \<Rightarrow> bytes" where
  "bloom_add bloom key = bloom_set bloom (bloom_positions key (length bloom * 8))"

text \<open>The completed image of a rebuild is ORed into the current filter.\<close>

definition bloom_or :: "bytes \<Rightarrow> bytes \<Rightarrow> bytes" where
  "bloom_or target source = map2 (\<lambda>t s. t OR s) target source"

section \<open>Bits\<close>

definition bloom_bit :: "bytes \<Rightarrow> nat \<Rightarrow> bool" where
  "bloom_bit bloom p = bit (bloom ! (p div 8)) (p mod 8)"

lemma bloom_maybe_iff:
  "bloom_maybe b key \<longleftrightarrow> (\<forall>p \<in> set (bloom_positions key (length b * 8)). bloom_bit b p)"
  unfolding bloom_maybe_def list_all_iff bloom_bit_def
  by (simp only: bit_iff_and_push_bit_not_eq_0)

lemma length_bloom_set [simp]: "length (bloom_set b ps) = length b"
  by (induction b ps rule: bloom_set.induct) simp_all

lemma length_bloom_add [simp]: "length (bloom_add b key) = length b"
  by (simp add: bloom_add_def)

lemma bloom_bit_update:
  assumes "p div 8 < length b"
  shows "bloom_bit (b[p div 8 := b ! (p div 8) OR push_bit (p mod 8) 1]) q
    \<longleftrightarrow> bloom_bit b q \<or> q = p"
proof (cases "q div 8 = p div 8")
  case True
  have "q = p \<longleftrightarrow> q mod 8 = p mod 8"
    using True by (metis div_mult_mod_eq)
  with True assms show ?thesis
    by (auto simp: bloom_bit_def bit_simps)
next
  case False
  then show ?thesis by (auto simp: bloom_bit_def)
qed

lemma bloom_bit_set:
  "\<forall>p \<in> set ps. p div 8 < length b \<Longrightarrow> bloom_bit (bloom_set b ps) q \<longleftrightarrow> bloom_bit b q \<or> q \<in> set ps"
  by (induction b ps rule: bloom_set.induct) (auto simp: bloom_bit_update [simplified])

lemma bloom_positions_bound:
  "0 < n \<Longrightarrow> p \<in> set (bloom_positions key (n * 8)) \<Longrightarrow> p div 8 < n"
  by (auto simp: bloom_positions_def less_mult_imp_div_less)

lemma bloom_bit_add:
  "b \<noteq> [] \<Longrightarrow> bloom_bit (bloom_add b key) q \<longleftrightarrow>
     bloom_bit b q \<or> q \<in> set (bloom_positions key (length b * 8))"
  unfolding bloom_add_def by (rule bloom_bit_set) (simp add: bloom_positions_bound)

lemma bloom_add_self: "b \<noteq> [] \<Longrightarrow> bloom_maybe (bloom_add b key) key"
  by (simp add: bloom_maybe_iff bloom_bit_add)

lemma bloom_add_mono: "b \<noteq> [] \<Longrightarrow> bloom_maybe b k \<Longrightarrow> bloom_maybe (bloom_add b key) k"
  by (simp add: bloom_maybe_iff bloom_bit_add)

lemma length_fold_bloom_add [simp]: "length (fold (\<lambda>k b. bloom_add b k) ks b) = length b"
  by (induction ks arbitrary: b) simp_all

lemma bloom_fold_add:
  assumes "b \<noteq> []"
  shows "k \<in> set ks \<or> bloom_maybe b k \<Longrightarrow> bloom_maybe (fold (\<lambda>k b. bloom_add b k) ks b) k"
  using assms
proof (induction ks arbitrary: b)
  case (Cons x xs)
  have ne: "bloom_add b x \<noteq> []"
    using Cons.prems(2) by (metis length_0_conv length_bloom_add)
  have "k \<in> set xs \<or> bloom_maybe (bloom_add b x) k"
    using Cons.prems bloom_add_self bloom_add_mono by auto
  with Cons.IH ne show ?case by simp
qed simp

lemma length_bloom_or: "length t = length s \<Longrightarrow> length (bloom_or t s) = length t"
  by (simp add: bloom_or_def)

lemma bloom_or_maybe:
  assumes "length t = length s" "t \<noteq> []" and "bloom_maybe t k \<or> bloom_maybe s k"
  shows "bloom_maybe (bloom_or t s) k"
proof -
  have "bloom_bit (bloom_or t s) p \<longleftrightarrow> bloom_bit t p \<or> bloom_bit s p" if "p div 8 < length t" for p
    using that assms(1) by (simp add: bloom_bit_def bloom_or_def bit_simps)
  moreover have "p div 8 < length t" if "p \<in> set (bloom_positions k (length t * 8))" for p
    using that assms(2) by (intro bloom_positions_bound) simp_all
  ultimately show ?thesis
    using assms(3) unfolding bloom_maybe_iff length_bloom_or [OF assms(1)] assms(1) [symmetric] by blast
qed

end
