(* ===== verification/KeyValue.thy ===== *)
theory KeyValue
  imports Prelude
begin

text \<open>
  The interface of the embedded stores the program links against (fjall keyspaces and redb
  tables).  Their code is not part of the repository: an \<open>api\<close> is an argument of every
  definition that uses a store, and the locale \<open>kv_store\<close> states the documented behaviour
  the code relies on: a store is an ordered map from byte strings to byte strings, reads
  see what was written, ranges come in ascending order of the keys, a read transaction opens.  The sorted
  association list at the end has this behaviour, so the laws can be met.
\<close>

record 'ks kv_api =
  kv_get :: "'ks \<Rightarrow> bytes \<Rightarrow> bytes option result"
  kv_put :: "bytes \<Rightarrow> bytes \<Rightarrow> 'ks \<Rightarrow> 'ks"
  kv_range :: "'ks \<Rightarrow> bytes \<Rightarrow> bytes option \<Rightarrow> (bytes \<times> bytes) list result"
  kv_len :: "'ks \<Rightarrow> nat result"
  kv_open :: "'ks \<Rightarrow> unit result"

definition in_range :: "bytes \<Rightarrow> bytes option \<Rightarrow> bytes \<Rightarrow> bool" where
  "in_range lo hi k \<longleftrightarrow> lo \<le> k \<and> (case hi of None \<Rightarrow> True | Some h \<Rightarrow> k < h)"

locale kv_store =
  fixes api :: "'ks kv_api" and content :: "'ks \<Rightarrow> (bytes \<times> bytes) list"
  assumes open_ok: "kv_open api ks = Inr ()"
    and content_sorted: "sorted_wrt (<) (map fst (content ks))"
    and get: "kv_get api ks k = Inr (map_of (content ks) k)"
    and put: "map_of (content (kv_put api k v ks)) = (map_of (content ks))(k \<mapsto> v)"
    and range: "kv_range api ks lo hi = Inr (filter (\<lambda>(k, v). in_range lo hi k) (content ks))"
    and len: "kv_len api ks = Inr (length (content ks))"
begin

lemma content_distinct: "distinct (map fst (content ks))"
  using content_sorted strict_sorted_iff [of "map fst (content ks)"] by simp

lemma content_mem: "(k, v) \<in> set (content ks) \<longleftrightarrow> map_of (content ks) k = Some v"
  using content_distinct by (metis map_of_eq_Some_iff)

lemma range_entries:
  assumes "kv_range api ks lo hi = Inr es"
  shows "sorted_wrt (<) (map fst es)"
    and "(k, v) \<in> set es \<longleftrightarrow> in_range lo hi k \<and> map_of (content ks) k = Some v"
proof -
  have es: "es = filter (\<lambda>(k, v). in_range lo hi k) (content ks)"
    using assms by (simp add: range)
  have "sorted_wrt (\<lambda>x y. fst x < fst y) (content ks)"
    using content_sorted by (simp add: sorted_wrt_map)
  then show "sorted_wrt (<) (map fst es)"
    unfolding es sorted_wrt_map by (rule sorted_wrt_filter)
  show "(k, v) \<in> set es \<longleftrightarrow> in_range lo hi k \<and> map_of (content ks) k = Some v"
    unfolding es by (auto simp: content_mem)
qed

lemma fold_put:
  "map_of (content (fold (\<lambda>(k, v). kv_put api k v) es ks)) = map_of (content ks) ++ map_of (rev es)"
  by (induction es arbitrary: ks) (auto simp: put map_add_def fun_eq_iff split: option.splits)

lemma content_eqI: "map_of (content ks) = map_of (content ks') \<Longrightarrow> content ks = content ks'"
  by (rule map_sorted_distinct_set_unique [where f = fst])
    (use content_sorted strict_sorted_iff content_distinct map_of_inject_set in
      \<open>auto simp: map_of_inject_set distinct_map inj_on_def\<close>)

end

section \<open>Sorted association lists\<close>

fun alist_put :: "bytes \<Rightarrow> bytes \<Rightarrow> (bytes \<times> bytes) list \<Rightarrow> (bytes \<times> bytes) list" where
  "alist_put k v [] = [(k, v)]"
| "alist_put k v ((k', v') # xs) =
     (if k < k' then (k, v) # (k', v') # xs
      else if k = k' then (k, v) # xs
      else (k', v') # alist_put k v xs)"

typedef sorted_alist = "{xs :: (bytes \<times> bytes) list. sorted_wrt (<) (map fst xs)}"
  morphisms alist_of Alist
  by (rule exI [of _ "[]"]) simp

setup_lifting type_definition_sorted_alist

lemma set_alist_put: "set (map fst (alist_put k v xs)) = insert k (set (map fst xs))"
  by (induction k v xs rule: alist_put.induct) auto

lemma alist_put_sorted: "sorted_wrt (<) (map fst xs) \<Longrightarrow> sorted_wrt (<) (map fst (alist_put k v xs))"
proof (induction k v xs rule: alist_put.induct)
  case (2 k v k' v' xs)
  show ?case
  proof (cases "k < k' \<or> k = k'")
    case True
    with "2.prems" show ?thesis by auto
  next
    case False
    with 2 set_alist_put [of k v xs] show ?thesis by auto
  qed
qed simp

lemma map_of_alist_put: "map_of (alist_put k v xs) = (map_of xs)(k \<mapsto> v)"
  by (induction k v xs rule: alist_put.induct) auto

lift_definition alist_empty :: sorted_alist is "[]" by simp

lift_definition alist_insert :: "bytes \<Rightarrow> bytes \<Rightarrow> sorted_alist \<Rightarrow> sorted_alist" is alist_put
  by (rule alist_put_sorted)

definition alist_api :: "sorted_alist kv_api" where
  "alist_api =
     \<lparr>kv_get = (\<lambda>ks k. Inr (map_of (alist_of ks) k)),
      kv_put = alist_insert,
      kv_range = (\<lambda>ks lo hi. Inr (filter (\<lambda>(k, v). in_range lo hi k) (alist_of ks))),
      kv_len = (\<lambda>ks. Inr (length (alist_of ks))),
      kv_open = (\<lambda>ks. Inr ())\<rparr>"

interpretation alist: kv_store alist_api alist_of
proof
  fix ks show "sorted_wrt (<) (map fst (alist_of ks))" using alist_of [of ks] by simp
next
  fix k v ks show "map_of (alist_of (kv_put alist_api k v ks)) = (map_of (alist_of ks))(k \<mapsto> v)"
    by (simp add: alist_api_def alist_insert.rep_eq map_of_alist_put)
qed (simp_all add: alist_api_def)

end
