(* ===== verification/DedupDisk.thy ===== *)
theory DedupDisk
  imports Bloom KeyValue Binary
begin

unbundle bit_operations_syntax

text \<open>
  The disk index of operation ids, \<open>src/dedup_disk.rs\<close>: 64 LSM trees receive the new
  fingerprints; the first monolithic LSM tree and 17 redb files of earlier releases are
  read-only fallbacks; a Bloom filter in memory answers most negative lookups and is
  rebuilt in the background after a restart.  The record \<open>disk_stores\<close> holds the stores,
  \<open>disk\<close> adds the fields \<open>open\<close> computes.  \<open>disk_index\<close> is the abstract map the stores
  stand for; lookups are proved to read it and inserts to update it, also while the
  filter is being rebuilt.
\<close>

section \<open>The code\<close>

record ('l, 'r) disk_stores =
  lsm_dedup :: 'l
  lsm_dedup_shards :: "'l list"
  lsm_history :: 'l
  lsm_by_owner :: 'l
  lsm_by_sku :: 'l
  lsm_history_meta :: 'l
  redb_dedup :: 'r
  redb_dedup_shards :: "'r list"
  redb_history :: 'r
  redb_by_owner :: 'r
  redb_by_sku :: 'r

record ('l, 'r) disk = "('l, 'r) disk_stores" +
  legacy_fallback :: bool
  bloom :: bytes
  bloom_ready :: bool

definition BLOOM_BYTES :: nat where
  "BLOOM_BYTES = 112 * 1024 * 1024"

definition DEDUP_LSM_SHARDS :: nat where
  "DEDUP_LSM_SHARDS = 64"

definition DEDUP_SHARDS :: nat where
  "DEDUP_SHARDS = 16"

definition dedup_disk_shard :: "bytes \<Rightarrow> nat" where
  "dedup_disk_shard key = unat (key ! 0) AND (DEDUP_SHARDS - 1)"

definition dedup_lsm_shard :: "bytes \<Rightarrow> nat" where
  "dedup_lsm_shard key = unat (key ! 0) AND (DEDUP_LSM_SHARDS - 1)"

definition fingerprint_bytes :: "bytes \<Rightarrow> bytes result" where
  "fingerprint_bytes bs =
     rbind (ensure (length bs = 32) (Msg ''invalid disk dedup fingerprint length'')) (\<lambda>_. Inr bs)"

definition read_fingerprint :: "'r kv_api \<Rightarrow> 'r \<Rightarrow> bytes \<Rightarrow> bytes option result" where
  "read_fingerprint red db key =
     rbind (kv_open red db) (\<lambda>_. rbind (kv_get red db key) (\<lambda>found.
       case found of None \<Rightarrow> Inr None | Some v \<Rightarrow> rbind (fingerprint_bytes v) (\<lambda>f. Inr (Some f))))"

definition dedup_table_len :: "'r kv_api \<Rightarrow> 'r \<Rightarrow> nat result" where
  "dedup_table_len red db = rbind (kv_open red db) (\<lambda>_. kv_len red db)"

definition disk_open :: "'r kv_api \<Rightarrow> bool \<Rightarrow> bool \<Rightarrow> ('l, 'r) disk_stores \<Rightarrow> ('l, 'r) disk result" where
  "disk_open red existing_dedup existing_lsm s =
     rbind (dedup_table_len red (redb_dedup s)) (\<lambda>n.
     rbind (if 0 < n then Inr True
            else for_each (\<lambda>db found. if found then Inr True
                    else rbind (dedup_table_len red db) (\<lambda>m. Inr (0 < m))) (redb_dedup_shards s) False)
       (\<lambda>legacy. Inr (disk_stores.extend s
          \<lparr>legacy_fallback = legacy,
           bloom = replicate BLOOM_BYTES 0,
           bloom_ready = (\<not> existing_dedup \<and> \<not> existing_lsm)\<rparr>)))"

definition disk_get :: "'l kv_api \<Rightarrow> 'r kv_api \<Rightarrow> ('l, 'r) disk \<Rightarrow> bytes \<Rightarrow> bytes option result" where
  "disk_get lsm red d key =
     (if bloom_ready d \<and> \<not> bloom_maybe (bloom d) key then Inr None
      else rbind (kv_get lsm (lsm_dedup_shards d ! dedup_lsm_shard key) key) (\<lambda>v1.
        case v1 of Some v \<Rightarrow> rbind (fingerprint_bytes v) (\<lambda>f. Inr (Some f))
        | None \<Rightarrow> rbind (kv_get lsm (lsm_dedup d) key) (\<lambda>v2.
            case v2 of Some v \<Rightarrow> rbind (fingerprint_bytes v) (\<lambda>f. Inr (Some f))
            | None \<Rightarrow>
                if \<not> legacy_fallback d then Inr None
                else rbind (read_fingerprint red (redb_dedup_shards d ! dedup_disk_shard key) key)
                  (\<lambda>v3. case v3 of Some f \<Rightarrow> Inr (Some f)
                     | None \<Rightarrow> read_fingerprint red (redb_dedup d) key))))"

text \<open>
  The body all the loops of \<open>get_many\<close> share: read one store and fill the slot when the
  key is there.
\<close>

definition fill_slot ::
  "(bytes \<Rightarrow> bytes option result) \<Rightarrow> bytes list \<Rightarrow> nat \<Rightarrow> bytes option list \<Rightarrow> bytes option list result" where
  "fill_slot read keys i r =
     rbind (read (keys ! i)) (\<lambda>found. case found of
         None \<Rightarrow> Inr r
       | Some v \<Rightarrow> rbind (fingerprint_bytes v) (\<lambda>f. Inr (r[i := Some f])))"

definition get_many_lsm_shards ::
  "'l kv_api \<Rightarrow> ('l, 'r) disk \<Rightarrow> bytes list \<Rightarrow> bool list \<Rightarrow> bytes option list \<Rightarrow> bytes option list result" where
  "get_many_lsm_shards lsm d keys candidates =
     for_each (\<lambda>shard. for_each (\<lambda>i r.
         if candidates ! i \<and> dedup_lsm_shard (keys ! i) = shard
         then fill_slot (kv_get lsm (lsm_dedup_shards d ! shard)) keys i r else Inr r)
       [0..<length keys]) [0..<DEDUP_LSM_SHARDS]"

definition get_many_lsm ::
  "'l kv_api \<Rightarrow> ('l, 'r) disk \<Rightarrow> bytes list \<Rightarrow> bool list \<Rightarrow> bytes option list \<Rightarrow> bytes option list result" where
  "get_many_lsm lsm d keys candidates =
     for_each (\<lambda>i r. if candidates ! i \<and> r ! i = None
         then fill_slot (kv_get lsm (lsm_dedup d)) keys i r else Inr r) [0..<length keys]"

definition get_many_redb_shards ::
  "'r kv_api \<Rightarrow> ('l, 'r) disk \<Rightarrow> bytes list \<Rightarrow> bool list \<Rightarrow> bytes option list \<Rightarrow> bytes option list result" where
  "get_many_redb_shards red d keys candidates =
     for_each (\<lambda>shard r.
       let indices = filter (\<lambda>i. candidates ! i \<and> r ! i = None \<and> dedup_disk_shard (keys ! i) = shard)
                       [0..<length keys]
       in if indices = [] then Inr r
          else rbind (kv_open red (redb_dedup_shards d ! shard)) (\<lambda>_.
            for_each (fill_slot (kv_get red (redb_dedup_shards d ! shard)) keys) indices r))
       [0..<DEDUP_SHARDS]"

definition get_many_redb ::
  "'r kv_api \<Rightarrow> ('l, 'r) disk \<Rightarrow> bytes list \<Rightarrow> bool list \<Rightarrow> bytes option list \<Rightarrow> bytes option list result" where
  "get_many_redb red d keys candidates r =
     rbind (kv_open red (redb_dedup d)) (\<lambda>_.
       for_each (\<lambda>i r. if candidates ! i \<and> r ! i = None
         then fill_slot (kv_get red (redb_dedup d)) keys i r else Inr r) [0..<length keys] r)"

definition disk_get_many ::
  "'l kv_api \<Rightarrow> 'r kv_api \<Rightarrow> ('l, 'r) disk \<Rightarrow> bytes list \<Rightarrow> bytes option list result" where
  "disk_get_many lsm red d keys =
     (let candidates = map (\<lambda>key. \<not> bloom_ready d \<or> bloom_maybe (bloom d) key) keys in
      if \<not> list_ex (\<lambda>c. c) candidates then Inr (replicate (length keys) None)
      else rbind (get_many_lsm_shards lsm d keys candidates (replicate (length keys) None)) (\<lambda>r.
        rbind (get_many_lsm lsm d keys candidates r) (\<lambda>r.
        if legacy_fallback d
        then rbind (get_many_redb_shards red d keys candidates r) (get_many_redb red d keys candidates)
        else Inr r)))"

text \<open>
  The batch of \<open>insert_many\<close>, committed as a whole or not at all; then the filter.
\<close>

definition put_entry :: "'l kv_api \<Rightarrow> bytes \<times> bytes \<Rightarrow> 'l list \<Rightarrow> 'l list" where
  "put_entry lsm e shards =
     (let s = dedup_lsm_shard (fst e) in shards[s := kv_put lsm (fst e) (snd e) (shards ! s)])"

definition commit_entries :: "'l kv_api \<Rightarrow> (bytes \<times> bytes) list \<Rightarrow> ('l, 'r) disk \<Rightarrow> ('l, 'r) disk" where
  "commit_entries lsm entries d =
     d\<lparr>lsm_dedup_shards := fold (put_entry lsm) entries (lsm_dedup_shards d)\<rparr>"

definition mark_keys :: "bytes list \<Rightarrow> ('l, 'r) disk \<Rightarrow> ('l, 'r) disk" where
  "mark_keys keys d = d\<lparr>bloom := fold (\<lambda>k b. bloom_add b k) keys (bloom d)\<rparr>"

definition disk_insert_many ::
  "'l kv_api \<Rightarrow> unit result \<Rightarrow> (bytes \<times> bytes) list \<Rightarrow> ('l, 'r) disk \<Rightarrow> unit result \<times> ('l, 'r) disk" where
  "disk_insert_many lsm commit entries d =
     (if entries = [] then (Inr (), d)
      else case commit of
          Inl e \<Rightarrow> (Inl e, d)
        | Inr _ \<Rightarrow> (Inr (), mark_keys (map fst entries) (commit_entries lsm entries d)))"

definition disk_len :: "'l kv_api \<Rightarrow> 'r kv_api \<Rightarrow> ('l, 'r) disk \<Rightarrow> nat result" where
  "disk_len lsm red d =
     rbind (dedup_table_len red (redb_dedup d)) (\<lambda>legacy.
     rbind (kv_len lsm (lsm_dedup d)) (\<lambda>mono.
     rbind (for_each (\<lambda>s total. rbind (kv_len lsm s) (\<lambda>n. Inr (total + n))) (lsm_dedup_shards d) 0) (\<lambda>sharded.
     for_each (\<lambda>db total. rbind (dedup_table_len red db) (\<lambda>n. Inr (total + n)))
       (redb_dedup_shards d) (legacy + (mono + sharded)))))"

text \<open>
  The rebuild walks the sources one after the other; each source is read when the walk
  reaches it, while inserts go on.
\<close>

definition store_keys :: "'k kv_api \<Rightarrow> 'k \<Rightarrow> bytes list result" where
  "store_keys api ks = rbind (kv_range api ks [] None) (\<lambda>es. Inr (map fst es))"

definition redb_keys :: "'r kv_api \<Rightarrow> 'r \<Rightarrow> bytes list result" where
  "redb_keys red db = rbind (kv_open red db) (\<lambda>_. store_keys red db)"

definition bloom_sources :: "'l kv_api \<Rightarrow> 'r kv_api \<Rightarrow> ('l, 'r) disk \<Rightarrow> bytes list result list" where
  "bloom_sources lsm red d =
     map (store_keys lsm) (lsm_dedup d # lsm_dedup_shards d)
     @ map (redb_keys red) (redb_dedup d # redb_dedup_shards d)"

definition add_source :: "bytes list result \<Rightarrow> bytes \<Rightarrow> bytes result" where
  "add_source source rebuilt =
     rbind source (\<lambda>keys. for_each (\<lambda>key b.
         rbind (ensure (length key = 32) (Msg ''invalid dedup key length'')) (\<lambda>_. Inr (bloom_add b key)))
       keys rebuilt)"

definition rebuild_bloom :: "'l kv_api \<Rightarrow> 'r kv_api \<Rightarrow> ('l, 'r) disk \<Rightarrow> bytes result" where
  "rebuild_bloom lsm red d = for_each add_source (bloom_sources lsm red d) (replicate BLOOM_BYTES 0)"

definition finish_rebuild :: "bytes result \<Rightarrow> ('l, 'r) disk \<Rightarrow> ('l, 'r) disk" where
  "finish_rebuild outcome d =
     (case outcome of
        Inr rebuilt \<Rightarrow> d\<lparr>bloom := bloom_or (bloom d) rebuilt, bloom_ready := True\<rparr>
      | Inl _ \<Rightarrow> d)"

section \<open>One lookup for a whole batch\<close>

text \<open>What a pass of \<open>get_many\<close> does to one slot.\<close>

definition slot :: "(bytes \<Rightarrow> bytes option result) \<Rightarrow> bytes \<Rightarrow> bytes option \<Rightarrow> bytes option result" where
  "slot read key x = rbind (read key) (\<lambda>found. case found of
       None \<Rightarrow> Inr x | Some v \<Rightarrow> rbind (fingerprint_bytes v) (\<lambda>f. Inr (Some f)))"

lemma fill_slot_step:
  "i < length r \<Longrightarrow> fill_slot read keys i r = rbind (slot read (keys ! i) (r ! i)) (\<lambda>x. Inr (r[i := x]))"
  by (auto simp: fill_slot_def slot_def rbind_def split: sum.splits option.splits)

lemma pointwise_fill:
  "pointwise (length keys)
     (for_each (\<lambda>i r. if P i (r ! i) then fill_slot read keys i r else Inr r) [0..<length keys])
     (\<lambda>i x. if P i x then slot read (keys ! i) x else Inr x)"
  by (rule pointwise_all) (auto simp: fill_slot_step)

lemma dedup_shard_bounds [simp]:
  "dedup_lsm_shard key < DEDUP_LSM_SHARDS" "dedup_disk_shard key < DEDUP_SHARDS"
  using take_bit_nat_less_exp [of 6 "unat (key ! 0)"] take_bit_nat_less_exp [of 4 "unat (key ! 0)"]
  by (simp_all add: dedup_lsm_shard_def dedup_disk_shard_def DEDUP_LSM_SHARDS_def DEDUP_SHARDS_def
      take_bit_eq_mask mask_eq_exp_minus_1)

lemma pointwise_lsm_shards:
  "pointwise (length keys) (get_many_lsm_shards lsm d keys c)
     (\<lambda>i x. if c ! i then slot (kv_get lsm (lsm_dedup_shards d ! dedup_lsm_shard (keys ! i))) (keys ! i) x
            else Inr x)"
proof -
  have "pointwise (length keys) (get_many_lsm_shards lsm d keys c)
     (\<lambda>i. for_each (\<lambda>s x. if c ! i \<and> dedup_lsm_shard (keys ! i) = s
        then slot (kv_get lsm (lsm_dedup_shards d ! s)) (keys ! i) x else Inr x) [0..<DEDUP_LSM_SHARDS])"
    unfolding get_many_lsm_shards_def by (rule pointwise_for_each) (rule pointwise_fill)
  moreover have "for_each (\<lambda>s x. if c ! i \<and> dedup_lsm_shard (keys ! i) = s
        then slot (kv_get lsm (lsm_dedup_shards d ! s)) (keys ! i) x else Inr x) [0..<DEDUP_LSM_SHARDS]
      = (\<lambda>x. if c ! i then slot (kv_get lsm (lsm_dedup_shards d ! dedup_lsm_shard (keys ! i))) (keys ! i) x
            else Inr x)" for i
    by (rule ext, subst for_each_single [where k = "dedup_lsm_shard (keys ! i)"]) auto
  ultimately show ?thesis by simp
qed


lemma pointwise_lsm:
  "pointwise (length keys) (get_many_lsm lsm d keys c)
     (\<lambda>i x. if c ! i \<and> x = None then slot (kv_get lsm (lsm_dedup d)) (keys ! i) x else Inr x)"
  unfolding get_many_lsm_def by (rule pointwise_fill)

lemma pointwise_redb_shards:
  assumes "\<And>db. kv_open red db = Inr ()"
  shows "pointwise (length keys) (get_many_redb_shards red d keys c)
     (\<lambda>i x. if c ! i \<and> x = None
        then slot (kv_get red (redb_dedup_shards d ! dedup_disk_shard (keys ! i))) (keys ! i) x else Inr x)"
proof -
  let ?pass = "\<lambda>s r. for_each (fill_slot (kv_get red (redb_dedup_shards d ! s)) keys)
      (filter (\<lambda>i. c ! i \<and> r ! i = None \<and> dedup_disk_shard (keys ! i) = s) [0..<length keys]) r"
  let ?g = "\<lambda>s i x. if c ! i \<and> x = None \<and> dedup_disk_shard (keys ! i) = s
      then slot (kv_get red (redb_dedup_shards d ! s)) (keys ! i) x else Inr x"
  have eq: "get_many_redb_shards red d keys c = for_each ?pass [0..<DEDUP_SHARDS]"
    unfolding get_many_redb_shards_def
    by (rule arg_cong [where f = "\<lambda>f. for_each f [0..<DEDUP_SHARDS]"]) (auto simp: fun_eq_iff Let_def assms)
  have "pointwise (length keys) (for_each ?pass [0..<DEDUP_SHARDS])
      (\<lambda>i. for_each (\<lambda>s. ?g s i) [0..<DEDUP_SHARDS])"
    by (rule pointwise_for_each, rule pointwise_slots) (simp add: fill_slot_step)
  moreover have "for_each (\<lambda>s. ?g s i) [0..<DEDUP_SHARDS] =
      (\<lambda>x. if c ! i \<and> x = None
        then slot (kv_get red (redb_dedup_shards d ! dedup_disk_shard (keys ! i))) (keys ! i) x else Inr x)" for i
    by (rule ext, subst for_each_single [where k = "dedup_disk_shard (keys ! i)"]) auto
  ultimately show ?thesis by (simp add: eq)
qed

lemma pointwise_redb:
  assumes "\<And>db. kv_open red db = Inr ()"
  shows "pointwise (length keys) (get_many_redb red d keys c)
     (\<lambda>i x. if c ! i \<and> x = None then slot (kv_get red (redb_dedup d)) (keys ! i) x else Inr x)"
proof -
  have eq: "get_many_redb red d keys c = for_each (\<lambda>i r. if c ! i \<and> r ! i = None
         then fill_slot (kv_get red (redb_dedup d)) keys i r else Inr r) [0..<length keys]"
    by (simp add: get_many_redb_def assms fun_eq_iff)
  show ?thesis unfolding eq by (rule pointwise_fill)
qed

text \<open>All the passes over one slot are the single lookup.\<close>

definition slot_passes :: "'l kv_api \<Rightarrow> 'r kv_api \<Rightarrow> ('l, 'r) disk \<Rightarrow> bool \<Rightarrow> bytes \<Rightarrow> bytes option result" where
  "slot_passes lsm red d c key =
     rbind (if c then slot (kv_get lsm (lsm_dedup_shards d ! dedup_lsm_shard key)) key None else Inr None) (\<lambda>x.
     rbind (if c \<and> x = None then slot (kv_get lsm (lsm_dedup d)) key x else Inr x) (\<lambda>x.
     if legacy_fallback d
     then rbind (if c \<and> x = None then slot (kv_get red (redb_dedup_shards d ! dedup_disk_shard key)) key x else Inr x)
       (\<lambda>x. if c \<and> x = None then slot (kv_get red (redb_dedup d)) key x else Inr x)
     else Inr x))"

lemma slot_passes_get:
  assumes "\<And>db. kv_open red db = Inr ()"
  shows "slot_passes lsm red d (\<not> bloom_ready d \<or> bloom_maybe (bloom d) key) key = disk_get lsm red d key"
proof -
  have slot: "rbind (slot read key None) f = rbind (read key) (\<lambda>found. case found of None \<Rightarrow> f None
      | Some v \<Rightarrow> rbind (fingerprint_bytes v) (\<lambda>x. f (Some x)))" for read and f :: "bytes option \<Rightarrow> 'z result"
    by (simp add: slot_def rbind_def split: sum.split option.split)
  have last: "slot (kv_get red db) key None = read_fingerprint red db key" for db
    by (simp add: slot_def read_fingerprint_def assms)
  show ?thesis
  proof (cases "bloom_ready d \<and> \<not> bloom_maybe (bloom d) key")
    case True
    then show ?thesis by (simp add: slot_passes_def disk_get_def)
  next
    case False
    have redb: "rbind (read_fingerprint red db key) f = rbind (kv_get red db key) (\<lambda>found.
        case found of None \<Rightarrow> f None | Some v \<Rightarrow> rbind (fingerprint_bytes v) (\<lambda>x. f (Some x)))"
      for db and f :: "bytes option \<Rightarrow> 'z result"
      unfolding last [symmetric] by (rule slot)
    from False have c: "(\<not> bloom_ready d \<or> bloom_maybe (bloom d) key) = True" by blast
    show ?thesis
      unfolding slot_passes_def c disk_get_def if_True simp_thms slot
      by (simp only: False if_False) (simp add: slot redb last cong: option.case_cong)
  qed
qed

lemma get_many_passes:
  assumes "\<And>db. kv_open red db = Inr ()"
    and c: "c = map (\<lambda>key. \<not> bloom_ready d \<or> bloom_maybe (bloom d) key) keys"
  shows "pointwise (length keys) (\<lambda>r. rbind (get_many_lsm_shards lsm d keys c r) (\<lambda>r.
      rbind (get_many_lsm lsm d keys c r) (\<lambda>r.
      if legacy_fallback d
      then rbind (get_many_redb_shards red d keys c r) (get_many_redb red d keys c) else Inr r)))
    (\<lambda>i x. rbind (if c ! i then slot (kv_get lsm (lsm_dedup_shards d ! dedup_lsm_shard (keys ! i))) (keys ! i) x else Inr x) (\<lambda>x.
     rbind (if c ! i \<and> x = None then slot (kv_get lsm (lsm_dedup d)) (keys ! i) x else Inr x) (\<lambda>x.
     if legacy_fallback d
     then rbind (if c ! i \<and> x = None then slot (kv_get red (redb_dedup_shards d ! dedup_disk_shard (keys ! i))) (keys ! i) x else Inr x)
       (\<lambda>x. if c ! i \<and> x = None then slot (kv_get red (redb_dedup d)) (keys ! i) x else Inr x)
     else Inr x)))"
proof (cases "legacy_fallback d")
  case True
  then show ?thesis
    by (simp only: if_True) (intro pointwise_bind pointwise_lsm_shards pointwise_redb_shards
        pointwise_redb assms(1) pointwise_lsm)
next
  case False
  then show ?thesis
    by (simp only: if_False) (intro pointwise_bind pointwise_lsm_shards pointwise_lsm pointwise_skip)
qed

lemma get_many_iff:
  assumes "\<And>db. kv_open red db = Inr ()"
  shows "disk_get_many lsm red d keys = Inr rs
    \<longleftrightarrow> collect_results (disk_get lsm red d) keys = Inr rs"
proof -
  define c where "c = map (\<lambda>key. \<not> bloom_ready d \<or> bloom_maybe (bloom d) key) keys"
  have get: "slot_passes lsm red d (c ! i) (keys ! i) = disk_get lsm red d (keys ! i)" if "i < length keys" for i
    using slot_passes_get [OF assms, of lsm d "keys ! i"] that by (simp add: c_def)
  have "collect_results (disk_get lsm red d) keys = Inr rs \<longleftrightarrow>
      length rs = length keys \<and> (\<forall>i < length keys. slot_passes lsm red d (c ! i) (keys ! i) = Inr (rs ! i))"
    by (auto simp: collect_results_Inr_iff list_all2_conv_all_nth get)
  also have "\<dots> \<longleftrightarrow> rbind (get_many_lsm_shards lsm d keys c (replicate (length keys) None)) (\<lambda>r.
      rbind (get_many_lsm lsm d keys c r) (\<lambda>r.
      if legacy_fallback d
      then rbind (get_many_redb_shards red d keys c r) (get_many_redb red d keys c) else Inr r)) = Inr rs"
    by (subst pointwiseD [OF get_many_passes [OF assms c_def]]) (simp_all add: slot_passes_def)
  finally have main: "collect_results (disk_get lsm red d) keys = Inr rs \<longleftrightarrow> \<dots>" .
  show ?thesis
  proof (cases "list_ex (\<lambda>c. c) c")
    case True
    then show ?thesis unfolding main disk_get_many_def Let_def c_def [symmetric] by simp
  next
    case False
    then have "disk_get lsm red d key = Inr None" if "key \<in> set keys" for key
      using that by (auto simp: c_def list_ex_iff disk_get_def)
    then have "collect_results (disk_get lsm red d) keys = Inr (replicate (length keys) None)"
      by (subst collect_results_map [where g = "\<lambda>_. None"]) (simp_all add: map_replicate_const)
    with False show ?thesis unfolding disk_get_many_def Let_def c_def [symmetric] by simp
  qed
qed


section \<open>The abstract index\<close>

text \<open>
  \<open>lc\<close> and \<open>rc\<close> are the contents of the two kinds of stores.  The shard tree overrides the
  monolithic tree, which overrides the redb files; those count only when \<open>open\<close> found them
  non-empty.
\<close>

definition disk_index ::
  "('l \<Rightarrow> (bytes \<times> bytes) list) \<Rightarrow> ('r \<Rightarrow> (bytes \<times> bytes) list) \<Rightarrow> ('l, 'r) disk \<Rightarrow> bytes \<Rightarrow> bytes option" where
  "disk_index lc rc d key =
     ((if legacy_fallback d
       then map_of (rc (redb_dedup d)) ++ map_of (rc (redb_dedup_shards d ! dedup_disk_shard key))
       else Map.empty)
      ++ map_of (lc (lsm_dedup d))
      ++ map_of (lc (lsm_dedup_shards d ! dedup_lsm_shard key))) key"

definition entries_ok :: "(bytes \<times> bytes) list \<Rightarrow> bool" where
  "entries_ok es \<longleftrightarrow> (\<forall>(k, v) \<in> set es. length k = 32 \<and> length v = 32)"

definition stores_ok ::
  "('l \<Rightarrow> (bytes \<times> bytes) list) \<Rightarrow> ('r \<Rightarrow> (bytes \<times> bytes) list) \<Rightarrow> ('l, 'r, 'z) disk_stores_scheme \<Rightarrow> bool" where
  "stores_ok lc rc s \<longleftrightarrow>
     length (lsm_dedup_shards s) = DEDUP_LSM_SHARDS \<and> length (redb_dedup_shards s) = DEDUP_SHARDS
     \<and> entries_ok (lc (lsm_dedup s)) \<and> list_all (\<lambda>ks. entries_ok (lc ks)) (lsm_dedup_shards s)
     \<and> entries_ok (rc (redb_dedup s)) \<and> list_all (\<lambda>db. entries_ok (rc db)) (redb_dedup_shards s)"

definition disk_ok ::
  "('l \<Rightarrow> (bytes \<times> bytes) list) \<Rightarrow> ('r \<Rightarrow> (bytes \<times> bytes) list) \<Rightarrow> ('l, 'r) disk \<Rightarrow> bool" where
  "disk_ok lc rc d \<longleftrightarrow> stores_ok lc rc d \<and> length (bloom d) = BLOOM_BYTES"

definition filter_ok ::
  "('l \<Rightarrow> (bytes \<times> bytes) list) \<Rightarrow> ('r \<Rightarrow> (bytes \<times> bytes) list) \<Rightarrow> ('l, 'r) disk \<Rightarrow> bool" where
  "filter_ok lc rc d \<longleftrightarrow>
     (bloom_ready d \<longrightarrow> (\<forall>key. disk_index lc rc d key \<noteq> None \<longrightarrow> bloom_maybe (bloom d) key))"

lemma fingerprint_bytes_ok: "length v = 32 \<Longrightarrow> fingerprint_bytes v = Inr v"
  by (simp add: fingerprint_bytes_def ensure_def)

lemma entries_ok_map_of: "entries_ok es \<Longrightarrow> map_of es k = Some v \<Longrightarrow> length k = 32 \<and> length v = 32"
  by (auto simp: entries_ok_def dest!: map_of_SomeD)

lemma bloom_bytes_pos: "0 < BLOOM_BYTES"
  by (simp add: BLOOM_BYTES_def)

lemma disk_ok_filter_nonempty: "disk_ok lc rc d \<Longrightarrow> bloom d \<noteq> []"
  using bloom_bytes_pos by (auto simp: disk_ok_def)

locale disk_laws = lsm: kv_store lsm lc + red: kv_store red rc
  for lsm :: "'l kv_api" and lc and red :: "'r kv_api" and rc
begin

lemma store_entry:
  assumes "stores_ok lc rc s"
  shows "map_of (lc (lsm_dedup s)) k = Some v \<Longrightarrow> length v = 32"
    and "map_of (lc (lsm_dedup_shards s ! dedup_lsm_shard k')) k = Some v \<Longrightarrow> length v = 32"
    and "map_of (rc (redb_dedup s)) k = Some v \<Longrightarrow> length v = 32"
    and "map_of (rc (redb_dedup_shards s ! dedup_disk_shard k')) k = Some v \<Longrightarrow> length v = 32"
proof -
  from assms dedup_shard_bounds [of k']
  have "entries_ok (lc (lsm_dedup s))" "entries_ok (lc (lsm_dedup_shards s ! dedup_lsm_shard k'))"
    "entries_ok (rc (redb_dedup s))" "entries_ok (rc (redb_dedup_shards s ! dedup_disk_shard k'))"
    by (simp_all add: stores_ok_def list_all_length)
  then show "map_of (lc (lsm_dedup s)) k = Some v \<Longrightarrow> length v = 32"
    "map_of (lc (lsm_dedup_shards s ! dedup_lsm_shard k')) k = Some v \<Longrightarrow> length v = 32"
    "map_of (rc (redb_dedup s)) k = Some v \<Longrightarrow> length v = 32"
    "map_of (rc (redb_dedup_shards s ! dedup_disk_shard k')) k = Some v \<Longrightarrow> length v = 32"
    by (auto dest: entries_ok_map_of)
qed

lemma read_fingerprint_eq:
  "(\<And>v. map_of (rc db) key = Some v \<Longrightarrow> length v = 32) \<Longrightarrow>
     read_fingerprint red db key = Inr (map_of (rc db) key)"
  by (auto simp: read_fingerprint_def red.open_ok red.get fingerprint_bytes_ok split: option.split)

lemma get_eq:
  assumes ok: "disk_ok lc rc d"
    and "\<not> bloom_ready d \<or> bloom_maybe (bloom d) key \<or> disk_index lc rc d key = None"
  shows "disk_get lsm red d key = Inr (disk_index lc rc d key)"
proof (cases "bloom_ready d \<and> \<not> bloom_maybe (bloom d) key")
  case True
  with assms(2) show ?thesis by (simp add: disk_get_def)
next
  case False
  from ok have s: "stores_ok lc rc d" by (simp add: disk_ok_def)
  note entry = store_entry [OF s]
  have redb: "read_fingerprint red (redb_dedup d) key = Inr (map_of (rc (redb_dedup d)) key)"
    "read_fingerprint red (redb_dedup_shards d ! dedup_disk_shard key) key
      = Inr (map_of (rc (redb_dedup_shards d ! dedup_disk_shard key)) key)"
    using entry(3,4) by (auto intro!: read_fingerprint_eq)
  from False show ?thesis
    by (simp only: disk_get_def if_False lsm.get rbind_simps redb)
      (auto simp: disk_index_def map_add_def redb fingerprint_bytes_ok entry split: option.split)
qed

lemma put_entry_length [simp]: "length (put_entry lsm e shards) = length shards"
  by (simp add: put_entry_def Let_def)

lemma fold_put_entry_length [simp]: "length (fold (put_entry lsm) es shards) = length shards"
  by (induction es arbitrary: shards) simp_all

lemma put_entry_lookup:
  "length shards = DEDUP_LSM_SHARDS \<Longrightarrow>
     map_of (lc (put_entry lsm e shards ! dedup_lsm_shard key)) key
     = ((\<lambda>k. map_of (lc (shards ! dedup_lsm_shard k)) k)(fst e \<mapsto> snd e)) key"
  by (auto simp: put_entry_def Let_def nth_list_update lsm.put)

lemma fold_put_entry_lookup:
  "length shards = DEDUP_LSM_SHARDS \<Longrightarrow>
     map_of (lc (fold (put_entry lsm) es shards ! dedup_lsm_shard key)) key
     = ((\<lambda>k. map_of (lc (shards ! dedup_lsm_shard k)) k) ++ map_of (rev es)) key"
proof (induction es arbitrary: shards)
  case (Cons e es)
  then show ?case
    by (cases e) (auto simp: put_entry_lookup map_add_def split: option.split)
qed simp

lemma commit_index:
  assumes "disk_ok lc rc d"
  shows "disk_index lc rc (commit_entries lsm es d) key = (disk_index lc rc d ++ map_of (rev es)) key"
  using assms fold_put_entry_lookup [of "lsm_dedup_shards d" es key]
  by (simp add: disk_index_def commit_entries_def disk_ok_def stores_ok_def map_add_def split: option.split)

lemma entries_ok_put:
  "entries_ok (lc ks) \<Longrightarrow> length k = 32 \<Longrightarrow> length v = 32 \<Longrightarrow> entries_ok (lc (kv_put lsm k v ks))"
  by (auto simp: entries_ok_def lsm.content_mem lsm.put split: if_splits)

lemma commit_ok:
  assumes "disk_ok lc rc d" "entries_ok es"
  shows "disk_ok lc rc (commit_entries lsm es d)"
proof -
  have "list_all (\<lambda>ks. entries_ok (lc ks)) (fold (put_entry lsm) es shards)"
    if "list_all (\<lambda>ks. entries_ok (lc ks)) shards" "entries_ok es" for shards
    using that
  proof (induction es arbitrary: shards)
    case (Cons e es)
    from Cons.prems(2) have e: "length (fst e) = 32" "length (snd e) = 32"
      by (auto simp: entries_ok_def)
    have "entries_ok (lc (put_entry lsm e shards ! n))" if "n < length shards" for n
      using Cons.prems(1) that e
      by (cases "n = dedup_lsm_shard (fst e)")
        (simp_all add: put_entry_def Let_def list_all_length entries_ok_put)
    then have "list_all (\<lambda>ks. entries_ok (lc ks)) (put_entry lsm e shards)"
      by (simp add: list_all_length)
    with Cons show ?case by (simp add: entries_ok_def)
  qed simp
  with assms show ?thesis by (simp add: disk_ok_def stores_ok_def commit_entries_def)
qed

lemma get_filter_ok:
  "disk_ok lc rc d \<Longrightarrow> filter_ok lc rc d \<Longrightarrow> disk_get lsm red d = (\<lambda>key. Inr (disk_index lc rc d key))"
  by (auto simp: fun_eq_iff filter_ok_def intro!: get_eq)

lemma mark_keys_index [simp]: "disk_index lc rc (mark_keys keys d) = disk_index lc rc d"
  by (simp add: fun_eq_iff disk_index_def mark_keys_def)

lemma mark_keys_ok [simp]: "disk_ok lc rc (mark_keys keys d) = disk_ok lc rc d"
  by (simp add: disk_ok_def stores_ok_def mark_keys_def)

lemma insert_many_Inr:
  assumes "disk_ok lc rc d" "filter_ok lc rc d" "entries_ok es"
  shows "disk_insert_many lsm (Inr ()) es d = (Inr (), d') \<Longrightarrow>
      disk_ok lc rc d' \<and> filter_ok lc rc d' \<and> disk_index lc rc d' = disk_index lc rc d ++ map_of (rev es)"
proof (cases "es = []")
  case False
  assume "disk_insert_many lsm (Inr ()) es d = (Inr (), d')"
  with False have d': "d' = mark_keys (map fst es) (commit_entries lsm es d)"
    by (simp add: disk_insert_many_def)
  have index: "disk_index lc rc d' = disk_index lc rc d ++ map_of (rev es)"
    by (simp add: d' fun_eq_iff commit_index [OF assms(1)])
  have "filter_ok lc rc d'"
    unfolding filter_ok_def
  proof (intro impI allI)
    fix key
    assume ready: "bloom_ready d'" and some: "disk_index lc rc d' key \<noteq> None"
    from some index have "disk_index lc rc d key \<noteq> None \<or> key \<in> set (map fst es)"
      by (auto simp: map_add_def map_of_eq_None_iff split: option.splits dest: map_of_SomeD)
        (metis image_eqI fst_conv map_of_SomeD set_rev)
    with ready assms(2) have "key \<in> set (map fst es) \<or> bloom_maybe (bloom d) key"
      by (auto simp: filter_ok_def d' mark_keys_def commit_entries_def)
    then show "bloom_maybe (bloom d') key"
      using bloom_fold_add [OF disk_ok_filter_nonempty [OF assms(1)]]
      by (simp add: d' mark_keys_def commit_entries_def)
  qed
  with index commit_ok [OF assms(1,3)] show ?thesis by (simp add: d')
next
  case True
  assume "disk_insert_many lsm (Inr ()) es d = (Inr (), d')"
  with True assms show ?thesis by (simp add: disk_insert_many_def)
qed

end

interpretation alist_disk: disk_laws alist_api alist_of alist_api alist_of
  by (rule disk_laws.intro) (rule alist.kv_store_axioms)+

section \<open>Properties\<close>

text \<open>
  \<open>DiskDedup::get_many\<close>, which visits the shard trees, the monolithic tree, the redb
  shards and the legacy file in turn for the whole batch and skips what the Bloom filter
  excludes, returns the list \<open>rs\<close> exactly when looking up the keys one by one with
  \<open>DiskDedup::get\<close> returns \<open>rs\<close>; it fails when one of the lookups fails.
\<close>

theorem get_many_agrees:
  assumes "kv_store lsm lc" "kv_store red rc"
  shows "disk_get_many lsm red d keys = Inr rs \<longleftrightarrow> collect_results (disk_get lsm red d) keys = Inr rs"
  by (rule get_many_iff) (rule kv_store.open_ok [OF assms(2)])

text \<open>A disk with one operation in a shard tree and one in the legacy redb file.\<close>

definition sample_key :: "nat \<Rightarrow> bytes" where
  "sample_key n = replicate 32 (word_of_nat n)"

definition sample_disk :: "(sorted_alist, sorted_alist) disk" where
  "sample_disk =
     \<lparr>lsm_dedup = alist_empty,
      lsm_dedup_shards = (replicate 64 alist_empty)[5 := alist_insert (sample_key 5) (sample_key 7) alist_empty],
      lsm_history = alist_empty, lsm_by_owner = alist_empty, lsm_by_sku = alist_empty,
      lsm_history_meta = alist_empty,
      redb_dedup = alist_insert (sample_key 2) (sample_key 8) alist_empty,
      redb_dedup_shards = replicate 16 alist_empty,
      redb_history = alist_empty, redb_by_owner = alist_empty, redb_by_sku = alist_empty,
      legacy_fallback = True, bloom = replicate BLOOM_BYTES 0, bloom_ready = False\<rparr>"

lemma alist_get: "kv_get alist_api ks k = Inr (map_of (alist_of ks) k)"
  by (rule alist.get)

lemmas alist_eval = alist_get alist_empty.rep_eq alist_insert.rep_eq alist.open_ok

lemma sample_key_facts [simp]:
  "sample_key n ! 0 = word_of_nat n" "length (sample_key n) = 32"
  by (simp_all add: sample_key_def)

lemma sample_key_eq_iff: "sample_key m = sample_key n \<longleftrightarrow> (word_of_nat m :: byte) = word_of_nat n"
  by (simp add: sample_key_def)

lemma sample_shards:
  "dedup_lsm_shard (sample_key 5) = 5" "dedup_disk_shard (sample_key 5) = 5" "dedup_lsm_shard (sample_key 2) = 2" "dedup_lsm_shard (sample_key 3) = 3"
  "dedup_disk_shard (sample_key 2) = 2" "dedup_disk_shard (sample_key 3) = 3"
  by (simp_all add: dedup_lsm_shard_def dedup_disk_shard_def DEDUP_LSM_SHARDS_def DEDUP_SHARDS_def)

lemma sample_disk_get:
  "collect_results (disk_get alist_api alist_api sample_disk) [sample_key 5, sample_key 2, sample_key 3]
     = Inr [Some (sample_key 7), Some (sample_key 8), None]"
  by (simp add: disk_get_def sample_disk_def read_fingerprint_def alist_eval sample_shards
      sample_key_eq_iff fingerprint_bytes_ok)

lemma get_many_agrees_witness:
  "disk_get_many alist_api alist_api sample_disk [sample_key 5, sample_key 2, sample_key 3]
     = Inr [Some (sample_key 7), Some (sample_key 8), None]"
  using get_many_agrees [OF alist.kv_store_axioms alist.kv_store_axioms, of sample_disk] sample_disk_get
  by blast

text \<open>
  \<open>DiskDedup::insert_many\<close> commits its batch as a whole: afterwards every lookup
  returns the fingerprint of the batch for the batch's keys and the previous answer for the
  others, through the Bloom filter as well, and the index stays well formed.  When the
  commit fails the call fails and nothing changes.
\<close>

theorem insert_many_updates_index:
  assumes "kv_store lsm lc" "kv_store red rc"
    and "disk_ok lc rc d" "filter_ok lc rc d" "entries_ok entries"
  shows "(\<exists>d'. disk_insert_many lsm (Inr ()) entries d = (Inr (), d')
      \<and> disk_ok lc rc d' \<and> filter_ok lc rc d'
      \<and> (\<forall>key. disk_get lsm red d' key = Inr ((disk_index lc rc d ++ map_of (rev entries)) key)))
    \<and> disk_insert_many lsm (Inl e) entries d = (if entries = [] then Inr () else Inl e, d)"
proof
  note laws = disk_laws.intro [OF assms(1,2)]
  have "\<exists>d'. disk_insert_many lsm (Inr ()) entries d = (Inr (), d')"
    by (simp add: disk_insert_many_def)
  then obtain d' where d': "disk_insert_many lsm (Inr ()) entries d = (Inr (), d')" ..
  from disk_laws.insert_many_Inr [OF laws assms(3-5) d'] d' disk_laws.get_filter_ok [OF laws, of d']
  show "\<exists>d'. disk_insert_many lsm (Inr ()) entries d = (Inr (), d')
      \<and> disk_ok lc rc d' \<and> filter_ok lc rc d'
      \<and> (\<forall>key. disk_get lsm red d' key = Inr ((disk_index lc rc d ++ map_of (rev entries)) key))"
    by simp
  show "disk_insert_many lsm (Inl e) entries d = (if entries = [] then Inr () else Inl e, d)"
    by (simp add: disk_insert_many_def)
qed

lemma sample_disk_ok: "disk_ok alist_of alist_of sample_disk" "filter_ok alist_of alist_of sample_disk"
proof -
  have "entries_ok (alist_of ks)" if "ks \<in> set (lsm_dedup sample_disk # lsm_dedup_shards sample_disk)" for ks
  proof -
    from that have "ks = alist_empty \<or> ks = alist_insert (sample_key 5) (sample_key 7) alist_empty"
      by (auto simp: sample_disk_def dest!: subsetD [OF set_update_subset_insert])
    then show ?thesis by (auto simp: entries_ok_def alist_eval)
  qed
  then show "disk_ok alist_of alist_of sample_disk"
    by (simp add: disk_ok_def stores_ok_def list_all_iff)
      (simp add: sample_disk_def DEDUP_LSM_SHARDS_def DEDUP_SHARDS_def entries_ok_def alist_eval)
  show "filter_ok alist_of alist_of sample_disk"
    by (simp add: filter_ok_def sample_disk_def)
qed

lemma insert_many_updates_index_witness:
  "(\<exists>d'. disk_insert_many alist_api (Inr ()) [(sample_key 3, sample_key 9)] sample_disk = (Inr (), d')
      \<and> disk_ok alist_of alist_of d' \<and> filter_ok alist_of alist_of d'
      \<and> (\<forall>key. disk_get alist_api alist_api d' key
           = Inr ((disk_index alist_of alist_of sample_disk ++ map_of (rev [(sample_key 3, sample_key 9)])) key)))
   \<and> disk_insert_many alist_api (Inl IoError) [(sample_key 3, sample_key 9)] sample_disk = (Inl IoError, sample_disk)"
proof -
  have e: "entries_ok [(sample_key 3, sample_key 9)]" by (simp add: entries_ok_def)
  show ?thesis
    using insert_many_updates_index [OF alist.kv_store_axioms alist.kv_store_axioms sample_disk_ok e]
    by auto
qed

end
