(* ===== verification/BloomWarmup.thy ===== *)
theory BloomWarmup
  imports DedupDisk
begin

text \<open>
  The background rebuild of the Bloom filter (\<open>rebuild_bloom_in_background\<close>) next to
  concurrent inserts.  An insert is two steps, the commit of the batch and the marking of
  its keys; the rebuild reads one source at a time and finally ORs its image into the
  filter and sets the ready flag.  The steps interleave in any order.  Lookups answer
  exactly what the stores hold for every key whose insert has returned.
\<close>

datatype rebuild_walk = Scanning nat bytes | Ended

record ('l, 'r) warm =
  wdisk :: "('l, 'r) disk"
  in_flight :: "bytes list list"
  walk :: rebuild_walk

definition warm_start ::
  "'r kv_api \<Rightarrow> bool \<Rightarrow> bool \<Rightarrow> ('l, 'r) disk_stores \<Rightarrow> ('l, 'r) warm result" where
  "warm_start red existing_dedup existing_lsm s =
     rbind (disk_open red existing_dedup existing_lsm s) (\<lambda>d. Inr
       \<lparr>wdisk = d, in_flight = [],
        walk = (if existing_dedup \<or> existing_lsm then Scanning 0 (replicate BLOOM_BYTES 0) else Ended)\<rparr>)"

inductive warm_step :: "'l kv_api \<Rightarrow> 'r kv_api \<Rightarrow> ('l, 'r) warm \<Rightarrow> ('l, 'r) warm \<Rightarrow> bool"
  for lsm red where
  commit: "entries \<noteq> [] \<Longrightarrow> entries_ok entries \<Longrightarrow>
     warm_step lsm red w
       (w\<lparr>wdisk := commit_entries lsm entries (wdisk w), in_flight := map fst entries # in_flight w\<rparr>)"
| mark: "in_flight w = before @ keys # after \<Longrightarrow>
     warm_step lsm red w (w\<lparr>wdisk := mark_keys keys (wdisk w), in_flight := before @ after\<rparr>)"
| scan: "walk w = Scanning i b \<Longrightarrow> i < length (bloom_sources lsm red (wdisk w)) \<Longrightarrow>
     add_source (bloom_sources lsm red (wdisk w) ! i) b = Inr b' \<Longrightarrow>
     warm_step lsm red w (w\<lparr>walk := Scanning (Suc i) b'\<rparr>)"
| scan_failed: "walk w = Scanning i b \<Longrightarrow> i < length (bloom_sources lsm red (wdisk w)) \<Longrightarrow>
     add_source (bloom_sources lsm red (wdisk w) ! i) b = Inl e \<Longrightarrow>
     warm_step lsm red w (w\<lparr>wdisk := finish_rebuild (Inl e) (wdisk w), walk := Ended\<rparr>)"
| publish: "walk w = Scanning i b \<Longrightarrow> i = length (bloom_sources lsm red (wdisk w)) \<Longrightarrow>
     warm_step lsm red w (w\<lparr>wdisk := finish_rebuild (Inr b) (wdisk w), walk := Ended\<rparr>)"

inductive_cases warm_stepE: "warm_step lsm red w w'"

section \<open>The sources and the abstract index\<close>

definition source_contents ::
  "('l \<Rightarrow> (bytes \<times> bytes) list) \<Rightarrow> ('r \<Rightarrow> (bytes \<times> bytes) list) \<Rightarrow> ('l, 'r) disk \<Rightarrow> bytes list list" where
  "source_contents lc rc d =
     map (\<lambda>ks. map fst (lc ks)) (lsm_dedup d # lsm_dedup_shards d)
     @ map (\<lambda>db. map fst (rc db)) (redb_dedup d # redb_dedup_shards d)"

definition covered :: "('l, 'r) warm \<Rightarrow> nat \<Rightarrow> bytes \<Rightarrow> bool" where
  "covered w j key \<longleftrightarrow>
     key \<in> set (concat (in_flight w)) \<or> bloom_maybe (bloom (wdisk w)) key
     \<or> (\<not> bloom_ready (wdisk w) \<and>
        (case walk w of Ended \<Rightarrow> True | Scanning i b \<Rightarrow> i \<le> j \<or> bloom_maybe b key))"

definition warm_inv ::
  "('l \<Rightarrow> (bytes \<times> bytes) list) \<Rightarrow> ('r \<Rightarrow> (bytes \<times> bytes) list) \<Rightarrow> ('l, 'r) warm \<Rightarrow> bool" where
  "warm_inv lc rc w \<longleftrightarrow>
     disk_ok lc rc (wdisk w)
     \<and> (case walk w of Ended \<Rightarrow> True | Scanning i b \<Rightarrow> length b = BLOOM_BYTES)
     \<and> (\<forall>j < length (source_contents lc rc (wdisk w)).
          \<forall>key \<in> set (source_contents lc rc (wdisk w) ! j). covered w j key)"

lemma add_source_Inr:
  assumes "add_source (Inr keys) b = Inr b'"
  shows "b' = fold (\<lambda>k b. bloom_add b k) keys b"
proof -
  have "for_each (\<lambda>key b. rbind (ensure (length key = 32) (Msg ''invalid dedup key length''))
      (\<lambda>_. Inr (bloom_add b key))) keys b = Inr b' \<Longrightarrow> b' = fold (\<lambda>k b. bloom_add b k) keys b"
    by (induction keys arbitrary: b) (auto simp: rbind_Inr_iff rbind_ensure_Inr_iff)
  with assms show ?thesis by (simp add: add_source_def)
qed

context disk_laws
begin

lemma store_keys_eq: "store_keys lsm ks = Inr (map fst (lc ks))" "store_keys red db = Inr (map fst (rc db))"
  by (simp_all add: store_keys_def lsm.range red.range in_range_def)

lemma bloom_sources_eq: "bloom_sources lsm red d = map Inr (source_contents lc rc d)"
  by (simp add: bloom_sources_def source_contents_def redb_keys_def red.open_ok store_keys_eq)

lemma index_source:
  assumes "stores_ok lc rc d" "disk_index lc rc d key \<noteq> None"
  shows "\<exists>j < length (source_contents lc rc d). key \<in> set (source_contents lc rc d ! j)"
proof -
  from assms(2) obtain f where
    "map_of (rc (redb_dedup d)) key = Some f \<or> map_of (rc (redb_dedup_shards d ! dedup_disk_shard key)) key = Some f
     \<or> map_of (lc (lsm_dedup d)) key = Some f \<or> map_of (lc (lsm_dedup_shards d ! dedup_lsm_shard key)) key = Some f"
    by (auto simp: disk_index_def map_add_def split: option.splits if_splits)
  then have "key \<in> set (map fst (rc (redb_dedup d)))
     \<or> key \<in> set (map fst (rc (redb_dedup_shards d ! dedup_disk_shard key)))
     \<or> key \<in> set (map fst (lc (lsm_dedup d)))
     \<or> key \<in> set (map fst (lc (lsm_dedup_shards d ! dedup_lsm_shard key)))"
    by (auto dest!: map_of_SomeD intro: rev_image_eqI)
  moreover have "redb_dedup_shards d ! dedup_disk_shard key \<in> set (redb_dedup_shards d)"
    "lsm_dedup_shards d ! dedup_lsm_shard key \<in> set (lsm_dedup_shards d)"
    using assms(1) by (simp_all add: stores_ok_def)
  then have "map fst (rc (redb_dedup d)) \<in> set (source_contents lc rc d)"
    "map fst (rc (redb_dedup_shards d ! dedup_disk_shard key)) \<in> set (source_contents lc rc d)"
    "map fst (lc (lsm_dedup d)) \<in> set (source_contents lc rc d)"
    "map fst (lc (lsm_dedup_shards d ! dedup_lsm_shard key)) \<in> set (source_contents lc rc d)"
    by (simp_all add: source_contents_def)
  ultimately have "\<exists>c \<in> set (source_contents lc rc d). key \<in> set c" by blast
  then show ?thesis by (metis in_set_conv_nth)
qed

lemma commit_sources:
  assumes "disk_ok lc rc d"
  shows "length (source_contents lc rc (commit_entries lsm es d)) = length (source_contents lc rc d)"
    and "j < length (source_contents lc rc d) \<Longrightarrow> key \<in> set (source_contents lc rc (commit_entries lsm es d) ! j)
      \<Longrightarrow> key \<in> set (source_contents lc rc d ! j) \<or> key \<in> set (map fst es)"
proof -
  show len: "length (source_contents lc rc (commit_entries lsm es d)) = length (source_contents lc rc d)"
    by (simp add: source_contents_def commit_entries_def)
  have keys: "fst ` set (lc ks) = dom (map_of (lc ks))" for ks
    by (simp add: dom_map_of_conv_image_fst)
  have fold: "fst ` set (lc (fold (put_entry lsm) es shards ! i)) \<subseteq> fst ` set (lc (shards ! i)) \<union> fst ` set es"
    if "i < length shards" for i shards
    using that
  proof (induction es arbitrary: shards)
    case (Cons e es)
    have "fst ` set (lc (put_entry lsm e shards ! i)) \<subseteq> fst ` set (lc (shards ! i)) \<union> {fst e}"
      using Cons.prems
      by (cases "i = dedup_lsm_shard (fst e)") (auto simp: keys put_entry_def Let_def lsm.put)
    with Cons.IH [of "put_entry lsm e shards"] Cons.prems show ?case by auto
  qed simp
  assume j: "j < length (source_contents lc rc d)"
    and key: "key \<in> set (source_contents lc rc (commit_entries lsm es d) ! j)"
  show "key \<in> set (source_contents lc rc d ! j) \<or> key \<in> set (map fst es)"
  proof (cases "0 < j \<and> j \<le> length (lsm_dedup_shards d)")
    case True
    then obtain i where i: "j = Suc i" "i < length (lsm_dedup_shards d)"
      by (metis Suc_le_eq gr0_implies_Suc)
    with key fold [OF i(2)] show ?thesis
      by (auto simp: source_contents_def commit_entries_def nth_append)
  next
    case False
    with key show ?thesis
      by (cases j) (auto simp: source_contents_def commit_entries_def nth_append)
  qed
qed

lemma warm_inv_step: "warm_step lsm red w w' \<Longrightarrow> warm_inv lc rc w \<Longrightarrow> warm_inv lc rc w'"
proof (induction rule: warm_step.induct)
  case (commit entries w)
  then have ok: "disk_ok lc rc (wdisk w)" by (simp add: warm_inv_def)
  have "covered (w\<lparr>wdisk := commit_entries lsm entries (wdisk w), in_flight := map fst entries # in_flight w\<rparr>) j key"
    if "j < length (source_contents lc rc (wdisk w))"
      "key \<in> set (source_contents lc rc (commit_entries lsm entries (wdisk w)) ! j)" for j key
    using commit_sources(2) [OF ok that] that(1) commit.prems
    by (auto simp: covered_def warm_inv_def commit_entries_def split: rebuild_walk.splits)
  with commit commit_ok [OF ok] show ?case
    by (auto simp: warm_inv_def commit_sources(1) [OF ok])
next
  case (mark w before keys after)
  then have ok: "disk_ok lc rc (wdisk w)" by (simp add: warm_inv_def)
  have src: "source_contents lc rc (mark_keys keys (wdisk w)) = source_contents lc rc (wdisk w)"
    by (simp add: source_contents_def mark_keys_def)
  have "covered w j key \<Longrightarrow>
      covered (w\<lparr>wdisk := mark_keys keys (wdisk w), in_flight := before @ after\<rparr>) j key" for j key
    using bloom_fold_add [OF disk_ok_filter_nonempty [OF ok], of key keys] mark.hyps
    by (auto simp: covered_def mark_keys_def split: rebuild_walk.splits)
  with mark.prems show ?case by (auto simp: warm_inv_def src)
next
  case (scan w i b b')
  have b: "length b = BLOOM_BYTES" "b \<noteq> []"
    using scan bloom_bytes_pos by (auto simp: warm_inv_def)
  have b': "b' = fold (\<lambda>k b. bloom_add b k) (source_contents lc rc (wdisk w) ! i) b"
    using scan.hyps by (intro add_source_Inr) (simp add: bloom_sources_eq)
  have "covered (w\<lparr>walk := Scanning (Suc i) b'\<rparr>) j key"
    if "covered w j key" "key \<in> set (source_contents lc rc (wdisk w) ! j)" for j key
    using that scan.hyps(1) bloom_fold_add [OF b(2), of key "source_contents lc rc (wdisk w) ! i"] b'
    by (cases "j = i") (auto simp: covered_def)
  with scan.prems b(1) b' show ?case by (auto simp: warm_inv_def)
next
  case (scan_failed w i b e)
  then show ?case
    by (auto simp: warm_inv_def covered_def finish_rebuild_def)
next
  case (publish w i b)
  let ?d = "finish_rebuild (Inr b) (wdisk w)"
  have ok: "disk_ok lc rc (wdisk w)" and b: "length b = BLOOM_BYTES"
    using publish by (auto simp: warm_inv_def)
  then have len: "length (bloom (wdisk w)) = length b" "bloom (wdisk w) \<noteq> []"
    using disk_ok_filter_nonempty [OF ok] by (simp_all add: disk_ok_def)
  have src: "source_contents lc rc ?d = source_contents lc rc (wdisk w)"
    by (simp add: source_contents_def finish_rebuild_def)
  have "covered (w\<lparr>wdisk := ?d, walk := Ended\<rparr>) j key"
    if "covered w j key" "j < length (source_contents lc rc (wdisk w))" for j key
    using that publish.hyps bloom_or_maybe [OF len, of key]
    by (auto simp: covered_def finish_rebuild_def bloom_sources_eq)
  with publish.prems ok len b show ?case
    by (auto simp: warm_inv_def src) (simp add: disk_ok_def stores_ok_def finish_rebuild_def length_bloom_or)
qed

lemma warm_inv_reachable:
  "(warm_step lsm red)\<^sup>*\<^sup>* w w' \<Longrightarrow> warm_inv lc rc w \<Longrightarrow> warm_inv lc rc w'"
  by (induction rule: rtranclp_induct) (auto intro: warm_inv_step)

lemma warm_get:
  assumes "warm_inv lc rc w" "key \<notin> set (concat (in_flight w))"
  shows "disk_get lsm red (wdisk w) key = Inr (disk_index lc rc (wdisk w) key)"
proof (rule get_eq)
  from assms(1) show ok: "disk_ok lc rc (wdisk w)" by (simp add: warm_inv_def)
  then have s: "stores_ok lc rc (wdisk w)" by (simp add: disk_ok_def)
  show "\<not> bloom_ready (wdisk w) \<or> bloom_maybe (bloom (wdisk w)) key \<or> disk_index lc rc (wdisk w) key = None"
    using index_source [OF s, of key] assms by (fastforce simp: warm_inv_def covered_def)
qed

end

definition stores_empty ::
  "('l \<Rightarrow> (bytes \<times> bytes) list) \<Rightarrow> ('r \<Rightarrow> (bytes \<times> bytes) list) \<Rightarrow> ('l, 'r) disk_stores \<Rightarrow> bool" where
  "stores_empty lc rc s \<longleftrightarrow>
     list_all (\<lambda>ks. lc ks = []) (lsm_dedup s # lsm_dedup_shards s)
     \<and> list_all (\<lambda>db. rc db = []) (redb_dedup s # redb_dedup_shards s)"

definition warm_reachable ::
  "'l kv_api \<Rightarrow> 'r kv_api \<Rightarrow> bool \<Rightarrow> bool \<Rightarrow> ('l, 'r) disk_stores \<Rightarrow> ('l, 'r) warm \<Rightarrow> bool" where
  "warm_reachable lsm red existing_dedup existing_lsm s w \<longleftrightarrow>
     (\<exists>w0. warm_start red existing_dedup existing_lsm s = Inr w0 \<and> (warm_step lsm red)\<^sup>*\<^sup>* w0 w)"

lemma warm_start_shape:
  "warm_start red ed el s = Inr w \<Longrightarrow> \<exists>legacy.
     w = \<lparr>wdisk = disk_stores.extend s \<lparr>legacy_fallback = legacy, bloom = replicate BLOOM_BYTES 0,
            bloom_ready = (\<not> ed \<and> \<not> el)\<rparr>,
          in_flight = [], walk = (if ed \<or> el then Scanning 0 (replicate BLOOM_BYTES 0) else Ended)\<rparr>"
  by (auto simp: warm_start_def disk_open_def rbind_Inr_iff)

lemma warm_start_inv:
  assumes "stores_ok lc rc s" "\<not> ed \<and> \<not> el \<longrightarrow> stores_empty lc rc s" "warm_start red ed el s = Inr w"
  shows "warm_inv lc rc w"
proof -
  obtain legacy where w: "w = \<lparr>wdisk = disk_stores.extend s \<lparr>legacy_fallback = legacy,
        bloom = replicate BLOOM_BYTES 0, bloom_ready = (\<not> ed \<and> \<not> el)\<rparr>,
      in_flight = [], walk = (if ed \<or> el then Scanning 0 (replicate BLOOM_BYTES 0) else Ended)\<rparr>"
    using warm_start_shape [OF assms(3)] ..
  have "disk_ok lc rc (wdisk w)"
    using assms(1) by (simp add: w disk_ok_def stores_ok_def disk_stores.defs)
  moreover have "covered w j key" if "ed \<or> el" for j key
    using that by (auto simp: covered_def w disk_stores.defs)
  moreover have "c = []" if "\<not> (ed \<or> el)" "c \<in> set (source_contents lc rc (wdisk w))" for c
    using that assms(2) by (auto simp: w source_contents_def disk_stores.defs stores_empty_def list_all_iff)
  ultimately show ?thesis
    by (auto simp: warm_inv_def w) (metis empty_iff nth_mem set_empty)
qed

section \<open>Properties\<close>

text \<open>
  C17: The Bloom filter never hides a stored operation, also while it is rebuilt in the
  background of a restarted node: in every state reachable by interleaving committed
  batches, the marking of their keys and the steps of the rebuild (a failed one too), a
  lookup returns exactly the content of the stores, unless the key belongs to a batch whose
  \<open>insert_many\<close> has not returned.
\<close>

theorem warmup_has_no_false_negative:
  assumes "kv_store lsm lc" "kv_store red rc" "stores_ok lc rc s"
    and "\<not> existing_dedup \<and> \<not> existing_lsm \<longrightarrow> stores_empty lc rc s"
    and "warm_reachable lsm red existing_dedup existing_lsm s w"
    and "key \<notin> set (concat (in_flight w))"
  shows "disk_get lsm red (wdisk w) key = Inr (disk_index lc rc (wdisk w) key)"
proof -
  note laws = disk_laws.intro [OF assms(1,2)]
  from assms(5) obtain w0 where w0: "warm_start red existing_dedup existing_lsm s = Inr w0"
    "(warm_step lsm red)\<^sup>*\<^sup>* w0 w" unfolding warm_reachable_def by blast
  from warm_start_inv [OF assms(3,4) w0(1)] have "warm_inv lc rc w"
    by (rule disk_laws.warm_inv_reachable [OF laws w0(2)])
  then show ?thesis by (rule disk_laws.warm_get [OF laws _ assms(6)])
qed

definition sample_stores :: "(sorted_alist, sorted_alist) disk_stores" where
  "sample_stores = disk_stores.truncate sample_disk"

definition sample_warm :: "(sorted_alist, sorted_alist) warm" where
  "sample_warm =
     \<lparr>wdisk = mark_keys [sample_key 3] (commit_entries alist_api [(sample_key 3, sample_key 9)] sample_disk),
      in_flight = [], walk = Scanning 0 (replicate BLOOM_BYTES 0)\<rparr>"

lemma sample_stores_ok: "stores_ok alist_of alist_of sample_stores"
  using sample_disk_ok(1) by (simp add: disk_ok_def stores_ok_def sample_stores_def disk_stores.defs)

lemma sample_warm_start:
  "warm_start alist_api True True sample_stores
     = Inr \<lparr>wdisk = sample_disk, in_flight = [], walk = Scanning 0 (replicate BLOOM_BYTES 0)\<rparr>"
  by (simp add: warm_start_def disk_open_def dedup_table_len_def alist.len alist_eval
      sample_stores_def sample_disk_def disk_stores.defs)

lemma sample_warm_reachable: "warm_reachable alist_api alist_api True True sample_stores sample_warm"
proof -
  let ?w0 = "\<lparr>wdisk = sample_disk, in_flight = [], walk = Scanning 0 (replicate BLOOM_BYTES 0)\<rparr>"
  let ?w1 = "?w0\<lparr>wdisk := commit_entries alist_api [(sample_key 3, sample_key 9)] sample_disk,
      in_flight := [[sample_key 3]]\<rparr>"
  have "warm_step alist_api alist_api ?w0 ?w1"
    using warm_step.commit [of "[(sample_key 3, sample_key 9)]" alist_api alist_api ?w0]
    by (simp add: entries_ok_def)
  moreover have "warm_step alist_api alist_api ?w1 sample_warm"
    using warm_step.mark [of ?w1 "[]" "[sample_key 3]" "[]" alist_api alist_api]
    by (simp add: sample_warm_def)
  ultimately have "(warm_step alist_api alist_api)\<^sup>*\<^sup>* ?w0 sample_warm" by (rule converse_rtranclp_into_rtranclp [OF _ r_into_rtranclp])
  then show ?thesis unfolding warm_reachable_def sample_warm_start by blast
qed

lemma warmup_has_no_false_negative_witness:
  "disk_get alist_api alist_api (wdisk sample_warm) (sample_key 3)
     = Inr (disk_index alist_of alist_of (wdisk sample_warm) (sample_key 3))"
  by (rule warmup_has_no_false_negative [OF alist.kv_store_axioms alist.kv_store_axioms
        sample_stores_ok _ sample_warm_reachable]) (simp_all add: sample_warm_def)

end
