(* ===== verification/ReplicatedLog.thy ===== *)
theory ReplicatedLog
  imports Binary
begin

text \<open>
  \<open>src/cluster.rs\<close>: the operations of the replicated log.  The JetStream streams are a
  service outside the repository: \<open>log_api\<close> holds the calls the code makes of them, and the
  locale \<open>replicated_log\<close> what it relies on.  \<open>serde_json\<close> is the parameter \<open>json_api\<close>.
\<close>

section \<open>Numbers in messages\<close>

definition digit :: "nat \<Rightarrow> char" where
  "digit d = char_of (if d < 10 then 48 + d else 87 + d)"

fun decimal :: "nat \<Rightarrow> string" where
  "decimal n = (if n < 10 then [digit n] else decimal (n div 10) @ [digit (n mod 10)])"

declare decimal.simps [simp del]

definition hex :: "bytes \<Rightarrow> string" where
  "hex bs = concat (map (\<lambda>b. [digit (unat b div 16), digit (unat b mod 16)]) bs)"

lemma hex_inject: "hex xs = hex ys \<longleftrightarrow> xs = ys"
proof (induction xs arbitrary: ys)
  case Nil
  show ?case by (cases ys) (simp_all add: hex_def)
next
  case (Cons x xs)
  have nib: "digit a = digit b \<longleftrightarrow> a = b" if "a < 16" "b < 16" for a b
    using that by (auto simp: digit_def dest: arg_cong [of _ _ "of_char :: char \<Rightarrow> nat"] split: if_splits)
  have byte: "unat (b :: byte) div 16 < 16" for b using unat_lt [of b] by simp
  show ?case
  proof (cases ys)
    case (Cons y zs)
    have "digit (unat x div 16) = digit (unat y div 16) \<and> digit (unat x mod 16) = digit (unat y mod 16) \<longleftrightarrow> x = y"
      using byte [of x] byte [of y] by (simp add: nib) (metis div_mult_mod_eq word_unat_eq_iff)
    with Cons.IH [of zs] Cons show ?thesis by (auto simp: hex_def)
  qed (simp add: hex_def)
qed

section \<open>Records and services\<close>

datatype log_record =
    LogFence (lr_epoch: u64) (lr_owner: bytes)
  | LogOperations (lr_epoch: u64) (lr_operations: "operation list")

record dlq_record =
  dlq_source_stream :: string
  dlq_source_sequence :: u64
  dlq_reason :: string
  dlq_payload :: bytes

definition STREAM :: string where
  "STREAM = ''WAREHOUSE_OPERATIONS''"

record json_api =
  json_record :: "bytes \<Rightarrow> log_record result"
  json_operations :: "bytes \<Rightarrow> operation list result"
  json_dlq :: "dlq_record \<Rightarrow> bytes result"

text \<open>
  \<open>js_publish\<close> is the publication of a payload, with or without a \<open>Nats-Msg-Id\<close> header, and
  the wait for its acknowledgement; \<open>js_dlq\<close> the same on the dead-letter subject.
\<close>

record 'l log_api =
  js_publish :: "string option \<Rightarrow> bytes \<Rightarrow> 'l \<Rightarrow> u64 result \<times> 'l"
  js_last :: "'l \<Rightarrow> u64 result"
  js_get :: "'l \<Rightarrow> u64 \<Rightarrow> bytes result"
  js_dlq :: "string \<Rightarrow> bytes \<Rightarrow> 'l \<Rightarrow> unit result \<times> 'l"

section \<open>Writing\<close>

definition message_id :: "(bytes \<Rightarrow> bytes) \<Rightarrow> bytes \<Rightarrow> string" where
  "message_id sha payload = ''operations-'' @ hex (sha payload)"

lemma message_id_eq: "message_id sha p = message_id sha p' \<longleftrightarrow> sha p = sha p'"
  by (simp add: message_id_def hex_inject)

definition log_append :: "(bytes \<Rightarrow> bytes) \<Rightarrow> 'l log_api \<Rightarrow> u64 \<Rightarrow> operation list \<Rightarrow> 'l \<Rightarrow> u64 result \<times> 'l" where
  "log_append sha api epoch ops l =
     (if ops = [] then (Inr 0, l)
      else case encode_log_operations epoch ops of
        Inl e \<Rightarrow> (Inl e, l)
      | Inr payload \<Rightarrow> js_publish api (Some (message_id sha payload)) payload l)"

definition append_fence :: "'l log_api \<Rightarrow> u64 \<Rightarrow> bytes \<Rightarrow> 'l \<Rightarrow> u64 result \<times> 'l" where
  "append_fence api epoch owner l =
     (case encode_log_fence epoch owner of
        Inl e \<Rightarrow> (Inl e, l)
      | Inr payload \<Rightarrow> js_publish api None payload l)"

section \<open>Reading\<close>

fun of_binary :: "binary_log_record \<Rightarrow> log_record" where
  "of_binary (BinFence epoch owner) = LogFence epoch owner"
| "of_binary (BinOperations epoch ops) = LogOperations epoch ops"

definition parse_record :: "json_api \<Rightarrow> bytes \<Rightarrow> string + log_record" where
  "parse_record json payload =
     map_err (\<lambda>_. ''invalid replicated log record'')
       (or_else (rbind (decode_log payload) (\<lambda>r. Inr (of_binary r)))
          (or_else (json_record json payload)
             (rbind (json_operations json payload) (\<lambda>ops. Inr (LogOperations 0 ops)))))"

definition check_record :: "log_record \<Rightarrow> string + log_record" where
  "check_record rec =
     (case rec of
        LogFence _ _ \<Rightarrow> Inr rec
      | LogOperations _ ops \<Rightarrow> rbind (for_each (\<lambda>op _. validate op) ops ()) (\<lambda>_. Inr rec))"

definition decode_record :: "json_api \<Rightarrow> bytes \<Rightarrow> string + log_record" where
  "decode_record json payload = rbind (parse_record json payload) check_record"

text \<open>The message that moves a record to the dead-letter stream.\<close>

definition dead_letter :: "json_api \<Rightarrow> 'l log_api \<Rightarrow> u64 \<Rightarrow> string \<Rightarrow> bytes \<Rightarrow> 'l \<Rightarrow> unit result \<times> 'l" where
  "dead_letter json api sequence reason payload l =
     (case json_dlq json \<lparr>dlq_source_stream = STREAM, dlq_source_sequence = sequence,
                          dlq_reason = reason, dlq_payload = payload\<rparr> of
        Inl e \<Rightarrow> (Inl e, l)
      | Inr body \<Rightarrow> js_dlq api (STREAM @ ''-'' @ decimal (unat sequence)) body l)"

definition log_read :: "json_api \<Rightarrow> 'l log_api \<Rightarrow> u64 \<Rightarrow> 'l \<Rightarrow> log_record result \<times> 'l" where
  "log_read json api sequence l =
     (case js_get api l sequence of
        Inl e \<Rightarrow> (Inl e, l)
      | Inr payload \<Rightarrow>
          (case decode_record json payload of
             Inr rec \<Rightarrow> (Inr rec, l)
           | Inl reason \<Rightarrow>
               (case dead_letter json api sequence reason payload l of
                  (Inl e, l') \<Rightarrow> (Inl e, l')
                | (Inr _, l') \<Rightarrow> (Inr (LogOperations (- 1) []), l'))))"

definition quarantine_record :: "json_api \<Rightarrow> 'l log_api \<Rightarrow> u64 \<Rightarrow> string \<Rightarrow> 'l \<Rightarrow> unit result \<times> 'l" where
  "quarantine_record json api sequence reason l =
     (case js_get api l sequence of
        Inl e \<Rightarrow> (Inl e, l)
      | Inr payload \<Rightarrow> dead_letter json api sequence reason payload l)"

section \<open>The contract of the service\<close>

text \<open>
  The stream is append-only and numbers its messages from 1.  An acknowledged publication is
  in the stream at the sequence it answers with; one whose message id the server still
  remembers is answered with the sequence of the earlier message and not stored again.  A
  failed publication may or may not have been stored.
\<close>

locale replicated_log =
  fixes api :: "'l log_api" and contents :: "'l \<Rightarrow> (string option \<times> bytes) list"
  assumes last_sequence: "js_last api l = Inr n \<Longrightarrow> unat n = length (contents l)"
    and get_message: "js_get api l q = Inr p \<Longrightarrow>
      1 \<le> unat q \<and> unat q \<le> length (contents l) \<and> p = snd (contents l ! (unat q - 1))"
    and dlq_contents: "contents (snd (js_dlq api j p l)) = contents l"
    and publish_contents: "contents (snd (js_publish api i p l)) \<in> {contents l, contents l @ [(i, p)]}"
    and publish_ack: "js_publish api i p l = (Inr q, l') \<Longrightarrow>
      1 \<le> unat q \<and> unat q \<le> length (contents l') \<and>
      (contents l' ! (unat q - 1) = (i, p) \<or> i \<noteq> None \<and> fst (contents l' ! (unat q - 1)) = i)"

text \<open>What a payload of the stream counts as: an unreadable one is an empty batch.\<close>

definition record_of :: "json_api \<Rightarrow> bytes \<Rightarrow> log_record" where
  "record_of json payload =
     (case decode_record json payload of Inr rec \<Rightarrow> rec | Inl _ \<Rightarrow> LogOperations (- 1) [])"

definition log_records :: "json_api \<Rightarrow> (string option \<times> bytes) list \<Rightarrow> log_record list" where
  "log_records json ms = map (\<lambda>(_, p). record_of json p) ms"

lemma length_log_records [simp]: "length (log_records json ms) = length ms"
  by (simp add: log_records_def)

lemma log_records_append: "log_records json (ms @ ms') = log_records json ms @ log_records json ms'"
  by (simp add: log_records_def)

text \<open>The services answer.\<close>

definition available :: "json_api \<Rightarrow> 'l log_api \<Rightarrow> ('l \<Rightarrow> (string option \<times> bytes) list) \<Rightarrow> bool" where
  "available json api contents \<longleftrightarrow>
     (\<forall>l. length (contents l) < 2 ^ 64 \<longrightarrow> is_ok (js_last api l))
     \<and> (\<forall>l q. 1 \<le> unat q \<and> unat q \<le> length (contents l) \<longrightarrow> is_ok (js_get api l q))
     \<and> (\<forall>l i p. is_ok (fst (js_dlq api i p l))) \<and> (\<forall>r. is_ok (json_dlq json r))"

context replicated_log
begin

lemma dead_letter_contents: "contents (snd (dead_letter json api q reason p l)) = contents l"
  by (simp add: dead_letter_def dlq_contents split: sum.split)

lemma quarantine_contents: "contents (snd (quarantine_record json api q reason l)) = contents l"
  by (simp add: quarantine_record_def dead_letter_contents split: sum.split)

lemma read_contents: "contents (snd (log_read json api q l)) = contents l"
  using dead_letter_contents [of json q _ _ l]
  by (auto simp: log_read_def split: sum.split prod.split) (metis snd_conv)+

lemma read_record:
  assumes "log_read json api q l = (Inr rec, l')"
  shows "1 \<le> unat q \<and> unat q \<le> length (contents l) \<and> rec = log_records json (contents l) ! (unat q - 1)"
proof -
  from assms obtain p where p: "js_get api l q = Inr p" "rec = record_of json p"
    by (auto simp: log_read_def record_of_def split: sum.splits prod.splits)
  with get_message [OF p(1)] show ?thesis
    by (auto simp: log_records_def case_prod_beta)
qed

lemma dead_letter_available: "available json api contents \<Longrightarrow> is_ok (fst (dead_letter json api q reason p l))"
  by (auto simp: available_def dead_letter_def is_ok_iff split: sum.split) (metis Inr_Inl_False)

lemma get_available:
  "available json api contents \<Longrightarrow> 1 \<le> unat q \<Longrightarrow> unat q \<le> length (contents l) \<Longrightarrow> \<exists>p. js_get api l q = Inr p"
  unfolding available_def is_ok_iff by blast

lemma read_available:
  assumes "available json api contents" "1 \<le> unat q" "unat q \<le> length (contents l)"
  shows "\<exists>rec l'. log_read json api q l = (Inr rec, l')"
proof -
  from get_available [OF assms] obtain p where p: "js_get api l q = Inr p" by blast
  show ?thesis
  proof (cases "decode_record json p")
    case (Inl reason)
    from dead_letter_available [OF assms(1), of q reason p l]
    show ?thesis by (cases "dead_letter json api q reason p l") (auto simp: log_read_def p Inl is_ok_iff)
  qed (simp add: log_read_def p)
qed

lemma quarantine_available:
  assumes "available json api contents" "1 \<le> unat q" "unat q \<le> length (contents l)"
  shows "is_ok (fst (quarantine_record json api q reason l))"
proof -
  from get_available [OF assms] obtain p where p: "js_get api l q = Inr p" by blast
  then show ?thesis by (simp add: quarantine_record_def dead_letter_available [OF assms(1)])
qed

end

section \<open>A stream in memory\<close>

text \<open>
  The service on a list of messages: publications with an id that the stream holds are not
  repeated, and the dead letters are kept beside it.
\<close>

type_synonym list_log = "(string option \<times> bytes) list \<times> (string \<times> bytes) list"

fun position_of :: "'a \<Rightarrow> 'a list \<Rightarrow> nat option" where
  "position_of x [] = None"
| "position_of x (y # ys) = (if x = y then Some 0 else map_option Suc (position_of x ys))"

definition list_log_api :: "list_log log_api" where
  "list_log_api = \<lparr>
     js_publish = (\<lambda>i p (ms, ds).
       if length ms + 1 < 2 ^ 64 then
         case (if i = None then None else position_of i (map fst ms)) of
           None \<Rightarrow> (Inr (word_of_nat (length ms + 1)), ms @ [(i, p)], ds)
         | Some k \<Rightarrow> (Inr (word_of_nat (k + 1)), ms, ds)
       else (Inl IoError, ms, ds)),
     js_last = (\<lambda>(ms, ds). if length ms < 2 ^ 64 then Inr (word_of_nat (length ms)) else Inl IoError),
     js_get = (\<lambda>(ms, ds) q. if 1 \<le> unat q \<and> unat q \<le> length ms then Inr (snd (ms ! (unat q - 1))) else Inl IoError),
     js_dlq = (\<lambda>i p (ms, ds). (Inr (), ms, ds @ [(i, p)]))\<rparr>"

lemma position_of_Some: "position_of x ys = Some k \<Longrightarrow> k < length ys \<and> ys ! k = x"
  by (induction ys arbitrary: k) (auto split: if_splits)

interpretation list_log: replicated_log list_log_api fst
proof
  fix l :: list_log and n q p i
  show "js_last list_log_api l = Inr n \<Longrightarrow> unat n = length (fst l)"
    by (auto simp: list_log_api_def unat_of_nat split: if_splits prod.splits)
  show "js_get list_log_api l q = Inr p \<Longrightarrow> 1 \<le> unat q \<and> unat q \<le> length (fst l) \<and> p = snd (fst l ! (unat q - 1))"
    by (auto simp: list_log_api_def split: if_splits prod.splits)
  show "fst (snd (js_dlq list_log_api j p l)) = fst l" for j
    by (simp add: list_log_api_def split: prod.split)
  show "fst (snd (js_publish list_log_api i p l)) \<in> {fst l, fst l @ [(i, p)]}"
    by (auto simp: list_log_api_def split: prod.split option.split)
next
  fix l l' :: list_log and q i p
  assume pub: "js_publish list_log_api i p l = (Inr q, l')"
  obtain ms ds where l: "l = (ms, ds)" by (cases l)
  show "1 \<le> unat q \<and> unat q \<le> length (fst l') \<and>
      (fst l' ! (unat q - 1) = (i, p) \<or> i \<noteq> None \<and> fst (fst l' ! (unat q - 1)) = i)"
  proof (cases "if i = None then None else position_of i (map fst ms)")
    case None
    with pub l have "q = word_of_nat (length ms + 1)" "fst l' = ms @ [(i, p)]" "length ms + 1 < 2 ^ 64"
      by (auto simp: list_log_api_def split: if_splits)
    then show ?thesis by (simp add: unat_of_nat del: of_nat_add of_nat_Suc)
  next
    case (Some k)
    then have i: "i \<noteq> None" "k < length ms" "fst (ms ! k) = i"
      using position_of_Some [of i "map fst ms" k] by (auto split: if_splits)
    from pub l Some have "q = word_of_nat (k + 1)" "fst l' = ms" "length ms + 1 < 2 ^ 64"
      by (auto simp: list_log_api_def split: if_splits)
    with i show ?thesis by (simp add: unat_of_nat del: of_nat_add of_nat_Suc)
  qed
qed

lemma list_log_available: "\<forall>r. is_ok (json_dlq json r) \<Longrightarrow> available json list_log_api fst"
  by (auto simp: available_def list_log_api_def)

section \<open>What is written is read\<close>

lemma length_enc_operations: "\<forall>op \<in> set ops. storable op \<Longrightarrow> length (concat (map enc_operation ops)) \<le> 406 * length ops"
proof (induction ops)
  case (Cons op ops)
  have "length (enc_operation op) \<le> 406"
    using Cons.prems by (simp add: storable_def operation_ok_def identifier_ok_def enc_operation_def enc_string_def)
  with Cons show ?case by simp
qed simp

lemma storable_validate: "storable op \<Longrightarrow> validate op = Inr ()"
  by (simp add: storable_def validate_iff)

lemma validate_all: "\<forall>op \<in> set ops. storable op \<Longrightarrow> for_each (\<lambda>op _. validate op) ops () = Inr ()"
  by (induction ops) (simp_all add: storable_validate)

lemma decode_encoded_operations:
  assumes "encode_log_operations epoch ops = Inr p" "\<forall>op \<in> set ops. storable op" "length ops \<le> 100000"
  shows "decode_record json p = Inr (LogOperations epoch ops)"
proof -
  let ?rec = "BinOperations epoch ops"
  have p: "p = LOG_MAGIC @ enc_log ?rec" using assms(1) by (simp add: encode_log_operations_iff)
  have "log_good ?rec" using assms(2,3) by (simp add: operations_good_def list_all_iff storable_facts)
  moreover have "length p < 2 ^ 63"
    using length_enc_operations [OF assms(2)] assms(3) by (simp add: p enc_operations_def)
  ultimately have "decode_log p = Inr ?rec" using p by (simp add: decode_log_iff)
  then show ?thesis
    using validate_all [OF assms(2)] by (simp add: decode_record_def parse_record_def check_record_def)
qed

text \<open>
  The ids of the messages are the digests of their payloads, and no payload of the stream
  collides with \<open>p\<close>.
\<close>

definition digests_ok :: "(bytes \<Rightarrow> bytes) \<Rightarrow> (string option \<times> bytes) list \<Rightarrow> bytes \<Rightarrow> bool" where
  "digests_ok sha ms p \<longleftrightarrow> (\<forall>(i, q) \<in> set ms. i \<in> {None, Some (message_id sha q)} \<and> (sha q = sha p \<longrightarrow> q = p))"

lemma append_record:
  assumes "replicated_log api contents" "log_append sha api epoch ops l = (Inr q, l')" "ops \<noteq> []"
    and "\<forall>op \<in> set ops. storable op" "length ops \<le> 100000"
    and "\<forall>p. encode_log_operations epoch ops = Inr p \<longrightarrow> digests_ok sha (contents l') p"
  shows "1 \<le> unat q \<and> unat q \<le> length (contents l')
    \<and> log_records json (contents l') ! (unat q - 1) = LogOperations epoch ops
    \<and> fst (contents l' ! (unat q - 1)) \<noteq> None
    \<and> (\<exists>ms. contents l' = contents l @ ms \<and> length ms \<le> 1)"
proof -
  from assms(2,3) obtain p where p: "encode_log_operations epoch ops = Inr p"
    "js_publish api (Some (message_id sha p)) p l = (Inr q, l')"
    by (auto simp: log_append_def split: sum.splits)
  from replicated_log.publish_ack [OF assms(1) p(2)] have q: "1 \<le> unat q" "unat q \<le> length (contents l')"
    "unat q - 1 < length (contents l')"
    and at: "contents l' ! (unat q - 1) = (Some (message_id sha p), p)
      \<or> fst (contents l' ! (unat q - 1)) = Some (message_id sha p)" by auto
  have "snd (contents l' ! (unat q - 1)) = p"
  proof -
    obtain i p' where ip: "contents l' ! (unat q - 1) = (i, p')" by fastforce
    with q(3) have "(i, p') \<in> set (contents l')" by (metis nth_mem)
    with assms(6) p(1) have "i \<in> {None, Some (message_id sha p')}" "sha p' = sha p \<longrightarrow> p' = p"
      unfolding digests_ok_def by blast+
    with at ip show ?thesis by (auto simp: message_id_eq)
  qed
  then have "log_records json (contents l') ! (unat q - 1) = LogOperations epoch ops"
    using q(3) by (simp add: log_records_def case_prod_beta record_of_def decode_encoded_operations [OF p(1) assms(4,5)])
  moreover have "fst (contents l' ! (unat q - 1)) \<noteq> None" using at by auto
  moreover have "contents l' \<in> {contents l, contents l @ [(Some (message_id sha p), p)]}"
    using replicated_log.publish_contents [OF assms(1), of "Some (message_id sha p)" p l] p(2) by simp
  then have "\<exists>ms. contents l' = contents l @ ms \<and> length ms \<le> 1" by (elim insertE) auto
  ultimately show ?thesis using q by blast
qed

text \<open>
  An acknowledged append is in the log.  When \<open>append\<close> returns a sequence for a
  non-empty batch of valid operations, then reading that sequence, with whatever state the
  dead-letter queue has, gives exactly the batch and the epoch, also when the server took the
  publication for a repetition, provided that the messages are named
  after their digests and none of them has the digest of another payload.  The stream has grown by this one message at most.
\<close>
theorem append_readable:
  assumes "replicated_log api contents" "log_append sha api epoch ops l = (Inr q, l')" "ops \<noteq> []"
    and "\<forall>op \<in> set ops. storable op" "length ops \<le> 100000"
    and "\<forall>p. encode_log_operations epoch ops = Inr p \<longrightarrow> digests_ok sha (contents l') p"
    and "log_read json api q l' = (Inr rec, l'')"
  shows "rec = LogOperations epoch ops \<and> (\<exists>ms. contents l' = contents l @ ms \<and> length ms \<le> 1)"
  using append_record [OF assms(1-6), of json] replicated_log.read_record [OF assms(1,7)] by simp

definition sample_json :: json_api where
  "sample_json = \<lparr>json_record = (\<lambda>_. Inl ParseError), json_operations = (\<lambda>_. Inl ParseError),
     json_dlq = (\<lambda>r. Inr (dlq_payload r))\<rparr>"

lemma append_readable_witness:
  "let op = sample_op ''op-1'' ''ann'' ''bolt'' 5; (r, l') = log_append (\<lambda>x. x) list_log_api 3 [op] ([], [])
   in r = Inr 1 \<and> fst (log_read sample_json list_log_api 1 l') = Inr (LogOperations 3 [op])"
proof -
  let ?op = "sample_op ''op-1'' ''ann'' ''bolt'' 5"
  have st: "storable ?op" by (simp add: storable_def sample_simps)
  have "length [?op] < 2 ^ 32 \<and> list_all operation_fits [?op]" using st by (simp add: storable_facts)
  then obtain p where p: "encode_log_operations 3 [?op] = Inr p" by (simp add: encode_log_operations_iff)
  let ?l = "([(Some (message_id (\<lambda>x. x) p), p)], []) :: list_log"
  have app: "log_append (\<lambda>x. x) list_log_api 3 [?op] ([], []) = (Inr 1, ?l)"
    by (simp add: log_append_def p list_log_api_def)
  obtain rec l'' where rd: "log_read sample_json list_log_api 1 ?l = (Inr rec, l'')"
    using list_log.read_available [OF list_log_available [of sample_json], of 1 ?l] by (auto simp: sample_json_def)
  have "rec = LogOperations 3 [?op] \<and> (\<exists>ms. fst ?l = fst ([] :: (string option \<times> bytes) list, [] :: (string \<times> bytes) list) @ ms \<and> length ms \<le> 1)"
    by (rule append_readable [OF list_log.replicated_log_axioms app _ _ _ _ rd]) (simp_all add: st p digests_ok_def)
  with app rd show ?thesis by simp
qed

end
