(* ===== verification/Reservation.thy ===== *)
theory Reservation
  imports DedupDisk
begin

text \<open>
  The in-memory deduplication of \<open>src/state.rs\<close>: 64 maps, each behind its own mutex, from
  the SHA-256 of an operation id to a committed fingerprint or to the reservation of a
  request in progress.  Each critical section is one function here.  \<open>preflight_batch\<close>
  reserves the new ids of a request shard by shard, rolls back on a conflict or when it
  must wait for another request, and \<open>finish_batch\<close> commits or releases them.  This theory
  holds the operations and what they do when they run alone; \<open>ReservationSteps\<close> lets
  requests interleave.  SHA-256 is the parameter \<open>sha\<close>.
\<close>

section \<open>The code\<close>

datatype dedup_entry = Committed bytes | Pending "bytes option" nat

type_synonym memory = "(bytes \<Rightarrow> dedup_entry option) list"

definition STATE_SHARDS :: nat where
  "STATE_SHARDS = 64"

definition dedup_shard :: "bytes \<Rightarrow> nat" where
  "dedup_shard key = unat (u16_from_le [key ! 0, key ! 1]) mod STATE_SHARDS"

definition hash_field :: "bytes \<Rightarrow> bytes" where
  "hash_field v = u64_to_le (word_of_nat (length v)) @ v"

definition fingerprint :: "(bytes \<Rightarrow> bytes) \<Rightarrow> operation \<Rightarrow> bytes" where
  "fingerprint sha op =
     sha (hash_field (owner_id op) @ hash_field (sku op)
          @ hash_field (u64_to_le (delta op)) @ hash_field (u64_to_le (event_version op)))"

definition prepared :: "(bytes \<Rightarrow> bytes) \<Rightarrow> operation list \<Rightarrow> (bytes \<times> bytes) list" where
  "prepared sha ops = map (\<lambda>op. (sha (operation_id op), fingerprint sha op)) ops"

text \<open>The indices of the first occurrence of every id of the request.\<close>

fun preflight_unique ::
  "(bytes \<Rightarrow> bytes) \<Rightarrow> (bytes \<Rightarrow> bytes option) \<Rightarrow> nat \<Rightarrow> operation list \<Rightarrow> nat list \<Rightarrow> nat list result" where
  "preflight_unique sha first index [] unique = Inr unique"
| "preflight_unique sha first index (op # ops) unique =
     (case first (operation_id op) of
        Some f \<Rightarrow>
          if f \<noteq> fingerprint sha op then Inl (ConflictError (operation_id op))
          else preflight_unique sha first (Suc index) ops unique
      | None \<Rightarrow>
          preflight_unique sha (first(operation_id op \<mapsto> fingerprint sha op)) (Suc index) ops (unique @ [index]))"

text \<open>What ends the scan of the shards early.\<close>

datatype stop = Conflict bytes | WaitFor nat

record attempt =
  shard_map :: "bytes \<Rightarrow> dedup_entry option"
  new_operations :: "bool list"
  reserved :: "bytes list"
  stopped :: "stop option"

fun reserve_entries ::
  "nat \<Rightarrow> (bytes \<times> bytes) list \<Rightarrow> operation list \<Rightarrow> (nat \<times> bytes option) list \<Rightarrow> attempt \<Rightarrow> attempt" where
  "reserve_entries rid prep ops [] a = a"
| "reserve_entries rid prep ops ((i, disk_value) # todo) a =
     (let (k, f) = prep ! i; conflict = a\<lparr>stopped := Some (Conflict (operation_id (ops ! i)))\<rparr> in
      case shard_map a k of
        Some (Committed existing) \<Rightarrow>
          if existing \<noteq> f then conflict else reserve_entries rid prep ops todo a
      | Some (Pending existing notify) \<Rightarrow>
          if existing \<noteq> Some f then conflict else a\<lparr>stopped := Some (WaitFor notify)\<rparr>
      | None \<Rightarrow>
          (case disk_value of
             Some existing \<Rightarrow>
               if existing \<noteq> f then conflict else reserve_entries rid prep ops todo a
           | None \<Rightarrow>
               reserve_entries rid prep ops todo
                 (a\<lparr>shard_map := (shard_map a)(k \<mapsto> Pending (Some f) rid),
                    new_operations := (new_operations a)[i := True],
                    reserved := reserved a @ [k]\<rparr>)))"

text \<open>The critical section of one shard; \<open>get_many\<close> is the lookup in the disk index.\<close>

definition shard_indices :: "(bytes \<times> bytes) list \<Rightarrow> nat list \<Rightarrow> nat \<Rightarrow> nat list" where
  "shard_indices prep unique s = filter (\<lambda>i. dedup_shard (fst (prep ! i)) = s) unique"

definition reserve_shard ::
  "(bytes list \<Rightarrow> bytes option list result) \<Rightarrow> nat \<Rightarrow> (bytes \<times> bytes) list \<Rightarrow> operation list \<Rightarrow> nat list \<Rightarrow> nat
     \<Rightarrow> memory \<times> bool list \<times> bytes list \<Rightarrow> ((memory \<times> bool list \<times> bytes list) \<times> stop option) result" where
  "reserve_shard get_many rid prep ops unique s st =
     (let (mem, new, res) = st; indices = shard_indices prep unique s in
      if indices = [] then Inr (st, None)
      else rbind (get_many (map (\<lambda>i. fst (prep ! i)) indices)) (\<lambda>disk_values.
        let a = reserve_entries rid prep ops (zip indices disk_values)
                  \<lparr>shard_map = mem ! s, new_operations = new, reserved = res, stopped = None\<rparr>
        in Inr ((mem[s := shard_map a], new_operations a, reserved a), stopped a)))"

datatype scan_end = Scanned | Stopped stop | DiskError error

fun reserve_shards ::
  "(bytes list \<Rightarrow> bytes option list result) \<Rightarrow> nat \<Rightarrow> (bytes \<times> bytes) list \<Rightarrow> operation list \<Rightarrow> nat list \<Rightarrow> nat list
     \<Rightarrow> memory \<times> bool list \<times> bytes list \<Rightarrow> (memory \<times> bool list \<times> bytes list) \<times> scan_end" where
  "reserve_shards get_many rid prep ops unique [] st = (st, Scanned)"
| "reserve_shards get_many rid prep ops unique (s # ss) st =
     (case reserve_shard get_many rid prep ops unique s st of
        Inl e \<Rightarrow> (st, DiskError e)
      | Inr (st', None) \<Rightarrow> reserve_shards get_many rid prep ops unique ss st'
      | Inr (st', Some x) \<Rightarrow> (st', Stopped x))"

definition rollback_keys :: "nat \<Rightarrow> bytes list \<Rightarrow> (bytes \<Rightarrow> dedup_entry option) \<Rightarrow> (bytes \<Rightarrow> dedup_entry option)" where
  "rollback_keys rid keys m =
     fold (\<lambda>k m. case m k of Some (Pending f n) \<Rightarrow> if n = rid then m(k := None) else m | _ \<Rightarrow> m) keys m"

definition rollback_shard :: "nat \<Rightarrow> bytes list \<Rightarrow> nat \<Rightarrow> memory \<Rightarrow> memory" where
  "rollback_shard rid keys s mem =
     (let shard_keys = filter (\<lambda>k. dedup_shard k = s) keys in
      if shard_keys = [] then mem else mem[s := rollback_keys rid shard_keys (mem ! s)])"

definition rollback_reservation :: "nat \<Rightarrow> bytes list \<Rightarrow> memory \<Rightarrow> memory" where
  "rollback_reservation rid keys mem = fold (rollback_shard rid keys) [0..<STATE_SHARDS] mem"

text \<open>One round of the loop of \<open>preflight_batch\<close>; \<open>Blocked\<close> waits for that notification and retries.\<close>

datatype preflight_outcome = Ready "bool list" | Rejected error | Blocked nat

definition preflight_round ::
  "(bytes \<Rightarrow> bytes) \<Rightarrow> (bytes list \<Rightarrow> bytes option list result) \<Rightarrow> nat \<Rightarrow> operation list \<Rightarrow> nat list
     \<Rightarrow> memory \<Rightarrow> memory \<times> preflight_outcome" where
  "preflight_round sha get_many rid ops unique mem =
     (case reserve_shards get_many rid (prepared sha ops) ops unique [0..<STATE_SHARDS]
             (mem, replicate (length ops) False, []) of
        ((mem', new, res), Scanned) \<Rightarrow> (mem', Ready new)
      | ((mem', new, res), Stopped (WaitFor n)) \<Rightarrow> (rollback_reservation rid res mem', Blocked n)
      | ((mem', new, res), Stopped (Conflict i)) \<Rightarrow>
          (rollback_reservation rid res mem', Rejected (ConflictError i))
      | ((mem', new, res), DiskError e) \<Rightarrow> (mem', Rejected e))"

definition preflight_batch ::
  "(bytes \<Rightarrow> bytes) \<Rightarrow> (bytes list \<Rightarrow> bytes option list result) \<Rightarrow> nat \<Rightarrow> operation list
     \<Rightarrow> memory \<Rightarrow> memory \<times> preflight_outcome" where
  "preflight_batch sha get_many rid ops mem =
     (case preflight_unique sha Map.empty 0 ops [] of
        Inl e \<Rightarrow> (mem, Rejected e)
      | Inr unique \<Rightarrow> preflight_round sha get_many rid ops unique mem)"

text \<open>
  \<open>finish_batch\<close>: the keys of the new operations by shard.  It also collects the
  notifications and the entries for the disk.
\<close>

definition new_keys :: "(bytes \<Rightarrow> bytes) \<Rightarrow> operation list \<Rightarrow> bool list \<Rightarrow> bytes list" where
  "new_keys sha ops new = map (\<lambda>(op, _). sha (operation_id op)) (filter snd (zip ops new))"

fun finish_keys ::
  "bool \<Rightarrow> bytes list \<Rightarrow> (bytes \<Rightarrow> dedup_entry option) \<times> nat list \<times> (bytes \<times> bytes) list
     \<Rightarrow> (bytes \<Rightarrow> dedup_entry option) \<times> nat list \<times> (bytes \<times> bytes) list" where
  "finish_keys committed [] st = st"
| "finish_keys committed (k # ks) (m, notif, entries) =
     finish_keys committed ks
       (if committed
        then (case m k of
            Some (Pending (Some f) n) \<Rightarrow> (m(k \<mapsto> Committed f), notif @ [n], entries @ [(k, f)])
          | _ \<Rightarrow> (m, notif, entries))
        else (case m k of
            Some (Pending f n) \<Rightarrow> (m(k := None), notif @ [n], entries)
          | _ \<Rightarrow> (m(k := None), notif, entries)))"

definition finish_shard ::
  "bool \<Rightarrow> bytes list \<Rightarrow> nat \<Rightarrow> memory \<times> nat list \<times> (bytes \<times> bytes) list \<Rightarrow> memory \<times> nat list \<times> (bytes \<times> bytes) list" where
  "finish_shard committed keys s st =
     (let (mem, notif, entries) = st; shard_keys = filter (\<lambda>k. dedup_shard k = s) keys in
      if shard_keys = [] then st
      else let (m, notif', entries') = finish_keys committed shard_keys (mem ! s, notif, entries)
           in (mem[s := m], notif', entries'))"

definition finish_batch ::
  "(bytes \<Rightarrow> bytes) \<Rightarrow> operation list \<Rightarrow> bool list \<Rightarrow> bool \<Rightarrow> memory \<Rightarrow> memory \<times> nat list \<times> (bytes \<times> bytes) list" where
  "finish_batch sha ops new committed mem =
     fold (finish_shard committed (new_keys sha ops new)) [0..<STATE_SHARDS] (mem, [], [])"

text \<open>
  The background task \<open>run_disk_persist\<close>: the combined entries, sorted by key, go to the
  disk index; on success they leave the memory unless they changed in between.
\<close>

definition persist_sorted :: "(bytes \<times> bytes) list \<Rightarrow> (bytes \<times> bytes) list" where
  "persist_sorted entries = sort_key fst entries"

definition persist_forget :: "bytes \<times> bytes \<Rightarrow> memory \<Rightarrow> memory" where
  "persist_forget e mem =
     (let s = dedup_shard (fst e); m = mem ! s in
      if m (fst e) = Some (Committed (snd e)) then mem[s := m(fst e := None)] else mem)"

definition persist_batch ::
  "((bytes \<times> bytes) list \<Rightarrow> 'd \<Rightarrow> unit result \<times> 'd) \<Rightarrow> (bytes \<times> bytes) list \<Rightarrow> memory \<Rightarrow> 'd \<Rightarrow> memory \<times> 'd" where
  "persist_batch insert_many combined mem d =
     (case insert_many (persist_sorted combined) d of
        (Inr _, d') \<Rightarrow> (fold persist_forget combined mem, d')
      | (Inl _, d') \<Rightarrow> (mem, d'))"

section \<open>The memory as one map\<close>

definition mem_at :: "memory \<Rightarrow> bytes \<Rightarrow> dedup_entry option" where
  "mem_at mem k = (mem ! dedup_shard k) k"

lemma dedup_shard_bound [simp]: "dedup_shard k < STATE_SHARDS"
  by (simp add: dedup_shard_def STATE_SHARDS_def)

lemma mem_at_update:
  "length mem = STATE_SHARDS \<Longrightarrow> s < STATE_SHARDS \<Longrightarrow>
     mem_at (mem[s := m]) k = (if dedup_shard k = s then m k else mem_at mem k)"
  by (simp add: mem_at_def nth_list_update)

text \<open>What a request sees for a key: the memory first, then the disk index.\<close>

definition view :: "(bytes \<Rightarrow> dedup_entry option) \<Rightarrow> (bytes \<Rightarrow> bytes option) \<Rightarrow> bytes \<Rightarrow> dedup_entry option" where
  "view m look k = (case m k of Some e \<Rightarrow> Some e | None \<Rightarrow> map_option Committed (look k))"

definition reservations :: "(bytes \<times> bytes) list \<Rightarrow> nat \<Rightarrow> nat list \<Rightarrow> bytes \<Rightarrow> dedup_entry option" where
  "reservations prep rid js = map_of (map (\<lambda>i. (fst (prep ! i), Pending (Some (snd (prep ! i))) rid)) js)"

definition marked :: "nat list \<Rightarrow> bool list \<Rightarrow> bool list" where
  "marked js new = fold (\<lambda>i new. new[i := True]) js new"

lemma length_marked [simp]: "length (marked js new) = length new"
  by (induction js arbitrary: new) (simp_all add: marked_def)

lemma nth_marked: "i < length new \<Longrightarrow> marked js new ! i \<longleftrightarrow> i \<in> set js \<or> new ! i"
proof (induction js arbitrary: new)
  case (Cons j js)
  then have "marked (j # js) new ! i \<longleftrightarrow> i \<in> set js \<or> new[j := True] ! i"
    using Cons.IH [of "new[j := True]"] by (simp add: marked_def)
  with Cons.prems show ?case by (cases "j = i") auto
qed (simp add: marked_def)

lemma reservations_dom: "dom (reservations prep rid js) = (\<lambda>i. fst (prep ! i)) ` set js"
  by (auto simp: reservations_def dom_map_of_conv_image_fst image_image)

lemma reservations_Some:
  "reservations prep rid js k = Some e \<Longrightarrow> \<exists>i \<in> set js. k = fst (prep ! i) \<and> e = Pending (Some (snd (prep ! i))) rid"
  by (auto simp: reservations_def dest!: map_of_SomeD)

text \<open>
  The effect of a critical section: it reserves some of the indices, all of them free; when
  it does not stop, the others are committed with the right fingerprint; when it stops, the
  index it stopped at shows why.
\<close>

definition stop_reason ::
  "(bytes \<times> bytes) list \<Rightarrow> operation list \<Rightarrow> (bytes \<Rightarrow> dedup_entry option) \<Rightarrow> nat list \<Rightarrow> stop \<Rightarrow> bool" where
  "stop_reason prep ops v is x \<longleftrightarrow>
     (\<exists>i \<in> set is. case x of
        WaitFor n \<Rightarrow> v (fst (prep ! i)) = Some (Pending (Some (snd (prep ! i))) n)
      | Conflict c \<Rightarrow> c = operation_id (ops ! i) \<and> v (fst (prep ! i)) \<noteq> None
          \<and> v (fst (prep ! i)) \<noteq> Some (Committed (snd (prep ! i)))
          \<and> (\<forall>n. v (fst (prep ! i)) \<noteq> Some (Pending (Some (snd (prep ! i))) n)))"

lemma stop_reason_cong:
  assumes "\<And>i. i \<in> set is \<Longrightarrow> v (fst (prep ! i)) = v' (fst (prep ! i))"
  shows "stop_reason prep ops v is x = stop_reason prep ops v' is x"
  unfolding stop_reason_def by (rule bex_cong [OF refl]) (simp only: assms)

lemma reserve_entries_effect:
  assumes "distinct (map (\<lambda>i. fst (prep ! i)) is)" "stopped a = None"
    and "a' = reserve_entries rid prep ops (zip is (map (\<lambda>i. look (fst (prep ! i))) is)) a"
  shows "\<exists>js. set js \<subseteq> set is \<and> distinct js
    \<and> shard_map a' = shard_map a ++ reservations prep rid js
    \<and> new_operations a' = marked js (new_operations a)
    \<and> reserved a' = reserved a @ map (\<lambda>i. fst (prep ! i)) js
    \<and> (\<forall>i \<in> set js. view (shard_map a) look (fst (prep ! i)) = None)
    \<and> (case stopped a' of
         None \<Rightarrow> \<forall>i \<in> set is - set js. view (shard_map a) look (fst (prep ! i)) = Some (Committed (snd (prep ! i)))
       | Some x \<Rightarrow> stop_reason prep ops (view (shard_map a) look) is x)"
  using assms
proof (induction "is" arbitrary: a a')
  case Nil
  then show ?case by (intro exI [of _ "[]"]) (simp add: reservations_def marked_def)
next
  case (Cons i "is")
  obtain k f where kf: "prep ! i = (k, f)" by (cases "prep ! i")
  let ?v = "view (shard_map a) look"
  have cases: "?v k = None \<or> ?v k = Some (Committed f) \<or> (\<exists>n. ?v k = Some (Pending (Some f) n))
      \<or> (?v k \<noteq> None \<and> ?v k \<noteq> Some (Committed f) \<and> (\<forall>n. ?v k \<noteq> Some (Pending (Some f) n)))"
    by blast
  show ?case
  proof (cases "?v k = None")
    case True
    then have free: "shard_map a k = None" "look k = None"
      by (simp_all add: view_def split: option.splits)
    let ?a = "a\<lparr>shard_map := (shard_map a)(k \<mapsto> Pending (Some f) rid),
       new_operations := (new_operations a)[i := True], reserved := reserved a @ [k]\<rparr>"
    have a': "a' = reserve_entries rid prep ops (zip is (map (\<lambda>i. look (fst (prep ! i))) is)) ?a"
      using Cons.prems(3) free by (simp add: kf)
    have same: "view (shard_map ?a) look (fst (prep ! j)) = ?v (fst (prep ! j))" if "j \<in> set is" for j
      using Cons.prems(1) that kf by (auto simp: view_def)
    have "distinct (map (\<lambda>i. fst (prep ! i)) is)" "stopped ?a = None" using Cons.prems by simp_all
    from Cons.IH [OF this a'] obtain js where js: "set js \<subseteq> set is" "distinct js"
      "shard_map a' = shard_map ?a ++ reservations prep rid js"
      "new_operations a' = marked js (new_operations ?a)"
      "reserved a' = reserved ?a @ map (\<lambda>i. fst (prep ! i)) js"
      "\<forall>j \<in> set js. view (shard_map ?a) look (fst (prep ! j)) = None"
      "case stopped a' of
         None \<Rightarrow> \<forall>j \<in> set is - set js. view (shard_map ?a) look (fst (prep ! j)) = Some (Committed (snd (prep ! j)))
       | Some x \<Rightarrow> stop_reason prep ops (view (shard_map ?a) look) is x"
      by blast
    have k: "k \<notin> (\<lambda>i. fst (prep ! i)) ` set js"
      using Cons.prems(1) js(1) kf by auto
    then have i: "i \<notin> set js" "k \<notin> dom (reservations prep rid js)"
      unfolding reservations_dom using kf by force+
    have map: "shard_map a' = shard_map a ++ reservations prep rid (i # js)"
      using js(3) i(2) by (auto simp: fun_eq_iff map_add_def reservations_def kf split: option.splits)
    have stop: "case stopped a' of
         None \<Rightarrow> \<forall>j \<in> set (i # is) - set (i # js). ?v (fst (prep ! j)) = Some (Committed (snd (prep ! j)))
       | Some x \<Rightarrow> stop_reason prep ops ?v (i # is) x"
      using js(7) same by (auto simp: stop_reason_def split: option.splits stop.splits)
    have free_js: "\<forall>j \<in> set (i # js). ?v (fst (prep ! j)) = None"
    proof
      fix j
      assume "j \<in> set (i # js)"
      with js(1,6) same [of j] True kf show "?v (fst (prep ! j)) = None" by (auto simp only: set_simps fst_conv)
    qed
    have new: "new_operations a' = marked (i # js) (new_operations a)"
      "reserved a' = reserved a @ map (\<lambda>i. fst (prep ! i)) (i # js)"
      using js(4,5) kf by (simp_all add: marked_def)
    have sub: "set (i # js) \<subseteq> set (i # is)" "distinct (i # js)" using js(1,2) i(1) by auto
    show ?thesis
      by (rule exI [of _ "i # js"]) (intro conjI sub map new free_js stop)
  next
    case taken: False
    show ?thesis
    proof (cases "?v k = Some (Committed f)")
      case True
      have a': "a' = reserve_entries rid prep ops (zip is (map (\<lambda>i. look (fst (prep ! i))) is)) a"
        using Cons.prems(3) True by (auto simp: kf view_def split: option.splits dedup_entry.splits)
      have "distinct (map (\<lambda>i. fst (prep ! i)) is)" using Cons.prems by simp
      from Cons.IH [OF this Cons.prems(2) a'] obtain js where js: "set js \<subseteq> set is" "distinct js"
        "shard_map a' = shard_map a ++ reservations prep rid js"
        "new_operations a' = marked js (new_operations a)"
        "reserved a' = reserved a @ map (\<lambda>i. fst (prep ! i)) js"
        "\<forall>j \<in> set js. ?v (fst (prep ! j)) = None"
        "case stopped a' of
           None \<Rightarrow> \<forall>j \<in> set is - set js. ?v (fst (prep ! j)) = Some (Committed (snd (prep ! j)))
         | Some x \<Rightarrow> stop_reason prep ops ?v is x"
        by blast
      have stop: "case stopped a' of
           None \<Rightarrow> \<forall>j \<in> set (i # is) - set js. ?v (fst (prep ! j)) = Some (Committed (snd (prep ! j)))
         | Some x \<Rightarrow> stop_reason prep ops ?v (i # is) x"
        using js(7) True kf by (auto simp: stop_reason_def split: option.splits stop.splits)
      show ?thesis by (rule exI [of _ js]) (use js stop in auto)
    next
      case False
      have "\<exists>x. a' = a\<lparr>stopped := Some x\<rparr> \<and> stop_reason prep ops ?v (i # is) x"
      proof (cases "shard_map a k")
        case None
        with taken False obtain g where "look k = Some g" "g \<noteq> f"
          by (auto simp: view_def)
        with None Cons.prems(3) show ?thesis by (auto simp: kf view_def stop_reason_def)
      next
        case (Some e)
        show ?thesis
        proof (cases e)
          case (Committed g)
          with Some False Cons.prems(3) show ?thesis by (auto simp: kf view_def stop_reason_def)
        next
          case (Pending p n)
          with Some Cons.prems(3) show ?thesis
            by (cases "p = Some f") (auto simp: kf view_def stop_reason_def)
        qed
      qed
      then obtain x where "a' = a\<lparr>stopped := Some x\<rparr>" "stop_reason prep ops ?v (i # is) x" by blast
      then show ?thesis
        by (intro exI [of _ "[]"]) (simp add: reservations_def marked_def)
    qed
  qed
qed

section \<open>The indices of a request\<close>

text \<open>One index per id, the first one, and all operations with that id have its fingerprint.\<close>

definition unique_ok :: "(bytes \<Rightarrow> bytes) \<Rightarrow> operation list \<Rightarrow> nat \<Rightarrow> nat list \<Rightarrow> bool" where
  "unique_ok sha ops n u \<longleftrightarrow>
     distinct (map (\<lambda>i. operation_id (ops ! i)) u) \<and> (\<forall>i \<in> set u. i < n)
     \<and> (\<forall>j < n. \<exists>i \<in> set u. i \<le> j \<and> operation_id (ops ! i) = operation_id (ops ! j)
          \<and> fingerprint sha (ops ! i) = fingerprint sha (ops ! j))"

lemma preflight_unique_aux:
  assumes "preflight_unique sha first (length pre) ops u = Inr unique"
    and "unique_ok sha (pre @ ops) (length pre) u"
    and "\<forall>x f. first x = Some f \<longleftrightarrow>
      (\<exists>i \<in> set u. x = operation_id ((pre @ ops) ! i) \<and> f = fingerprint sha ((pre @ ops) ! i))"
  shows "unique_ok sha (pre @ ops) (length (pre @ ops)) unique"
  using assms
proof (induction ops arbitrary: pre first u)
  case (Cons op ops)
  let ?all = "(pre @ [op]) @ ops"
  have all: "pre @ op # ops = ?all" "?all ! length pre = op" by (simp_all add: nth_append)
  show ?case
  proof (cases "first (operation_id op)")
    case None
    have fresh: "operation_id (?all ! i) \<noteq> operation_id op" if "i \<in> set u" for i
      using None Cons.prems(3) that unfolding all(1) by (metis option.distinct(1))
    have notin: "length pre \<notin> set u" using Cons.prems(2) by (auto simp: unique_ok_def)
    have ok: "unique_ok sha ?all (length (pre @ [op])) (u @ [length pre])"
      using Cons.prems(2) fresh notin unfolding all(1)
      by (auto simp: unique_ok_def all(2) less_Suc_eq image_iff)
    have first: "\<forall>x f. (first(operation_id op \<mapsto> fingerprint sha op)) x = Some f \<longleftrightarrow>
      (\<exists>i \<in> set (u @ [length pre]). x = operation_id (?all ! i) \<and> f = fingerprint sha (?all ! i))"
    proof (intro allI)
      fix x f
      show "(first(operation_id op \<mapsto> fingerprint sha op)) x = Some f \<longleftrightarrow>
        (\<exists>i \<in> set (u @ [length pre]). x = operation_id (?all ! i) \<and> f = fingerprint sha (?all ! i))"
      proof (cases "x = operation_id op")
        case True
        then have "\<not> (\<exists>i \<in> set u. x = operation_id (?all ! i) \<and> f = fingerprint sha (?all ! i))"
          using fresh by metis
        with True show ?thesis by (auto simp: all(2) simp del: append_assoc)
      next
        case False
        with Cons.prems(3) show ?thesis unfolding all(1) by (auto simp: all(2) simp del: append_assoc)
      qed
    qed
    show ?thesis
      unfolding all(1) using Cons.IH [of _ "pre @ [op]", OF _ ok first] Cons.prems(1) None
      by (simp del: fun_upd_apply)
  next
    case (Some f)
    with Cons.prems(1) have f: "f = fingerprint sha op" by (simp split: if_splits)
    obtain i where i: "i \<in> set u" "operation_id (?all ! i) = operation_id op" "fingerprint sha (?all ! i) = fingerprint sha op"
      using Cons.prems(3) Some f unfolding all(1) by metis
    have "i \<le> length pre" using i(1) Cons.prems(2) by (auto simp: unique_ok_def)
    then have ok: "unique_ok sha ?all (length (pre @ [op])) u"
      using Cons.prems(2) i unfolding all(1) unique_ok_def
      by (auto simp: all(2) less_Suc_eq intro!: bexI [of _ i])
    show ?thesis
      unfolding all(1)
      using Cons.IH [of _ "pre @ [op]", OF _ ok] Cons.prems(1,3) Some f unfolding all(1) by simp
  qed
qed simp

lemma preflight_unique_ok:
  "preflight_unique sha Map.empty 0 ops [] = Inr unique \<Longrightarrow> unique_ok sha ops (length ops) unique"
  using preflight_unique_aux [of sha Map.empty "[]" ops "[]" unique] by (simp add: unique_ok_def)

lemma prepared_nth:
  "i < length ops \<Longrightarrow> prepared sha ops ! i = (sha (operation_id (ops ! i)), fingerprint sha (ops ! i))"
  by (simp add: prepared_def)

text \<open>SHA-256 does not collide on the ids of the request.\<close>

lemma unique_keys_distinct:
  assumes "unique_ok sha ops (length ops) u" "inj_on sha (operation_id ` set ops)"
  shows "distinct (map (\<lambda>i. fst (prepared sha ops ! i)) u)"
proof -
  have ids: "distinct (map (\<lambda>i. operation_id (ops ! i)) u)" "\<forall>i \<in> set u. i < length ops"
    using assms(1) by (auto simp: unique_ok_def)
  have "map (\<lambda>i. fst (prepared sha ops ! i)) u = map sha (map (\<lambda>i. operation_id (ops ! i)) u)"
    using ids(2) by (simp add: prepared_nth)
  moreover have "inj_on sha (set (map (\<lambda>i. operation_id (ops ! i)) u))"
    by (rule inj_on_subset [OF assms(2)]) (use ids(2) in auto)
  ultimately show ?thesis using ids(1) by (simp only: distinct_map)
qed

section \<open>One shard\<close>

definition mem_ok :: "memory \<Rightarrow> bool" where
  "mem_ok mem \<longleftrightarrow> length mem = STATE_SHARDS"

definition mview :: "memory \<Rightarrow> (bytes \<Rightarrow> bytes option) \<Rightarrow> bytes \<Rightarrow> dedup_entry option" where
  "mview mem look = view (mem_at mem) look"

lemma reserve_shard_effect:
  assumes "mem_ok mem" "s < STATE_SHARDS" "distinct (map (\<lambda>i. fst (prep ! i)) unique)"
    and get: "\<And>keys. get_many keys = Inr (map look keys)"
  shows "\<exists>js mem' x. reserve_shard get_many rid prep ops unique s (mem, new, res)
      = Inr ((mem', marked js new, res @ map (\<lambda>i. fst (prep ! i)) js), x)
    \<and> mem_ok mem' \<and> set js \<subseteq> set (shard_indices prep unique s) \<and> distinct js
    \<and> mem_at mem' = mem_at mem ++ reservations prep rid js
    \<and> (\<forall>i \<in> set js. mview mem look (fst (prep ! i)) = None)
    \<and> (case x of
         None \<Rightarrow> \<forall>i \<in> set (shard_indices prep unique s) - set js.
           mview mem look (fst (prep ! i)) = Some (Committed (snd (prep ! i)))
       | Some x \<Rightarrow> stop_reason prep ops (mview mem look) (shard_indices prep unique s) x)"
proof -
  let ?is = "shard_indices prep unique s"
  have view: "view (mem ! s) look (fst (prep ! i)) = mview mem look (fst (prep ! i))" if "i \<in> set ?is" for i
    using that by (simp add: shard_indices_def mview_def view_def mem_at_def)
  show ?thesis
  proof (cases "?is = []")
    case True
    then show ?thesis
      using assms(1) by (intro exI [of _ "[]"] exI [of _ mem] exI [of _ None])
        (simp add: reserve_shard_def reservations_def marked_def)
  next
    case False
    define a0 where "a0 = \<lparr>shard_map = mem ! s, new_operations = new, reserved = res, stopped = None\<rparr>"
    define a where "a = reserve_entries rid prep ops (zip ?is (map (\<lambda>i. look (fst (prep ! i))) ?is)) a0"
    have run: "reserve_shard get_many rid prep ops unique s (mem, new, res)
        = Inr ((mem[s := shard_map a], new_operations a, reserved a), stopped a)"
      using False by (simp add: reserve_shard_def get a_def a0_def comp_def Let_def)
    have "distinct (map (\<lambda>i. fst (prep ! i)) ?is)"
      using assms(3) by (simp add: shard_indices_def distinct_map_filter)
    note dist = this
    have a0: "shard_map a0 = mem ! s" "new_operations a0 = new" "reserved a0 = res" "stopped a0 = None"
      by (simp_all add: a0_def)
    from reserve_entries_effect [OF dist a0(4) a_def, unfolded a0] obtain js where
      sub: "set js \<subseteq> set ?is" "distinct js" and
      map: "shard_map a = mem ! s ++ reservations prep rid js" and
      new: "new_operations a = marked js new" "reserved a = res @ map (\<lambda>i. fst (prep ! i)) js" and
      free: "\<forall>i \<in> set js. view (mem ! s) look (fst (prep ! i)) = None" and
      stop: "case stopped a of
         None \<Rightarrow> \<forall>i \<in> set ?is - set js. view (mem ! s) look (fst (prep ! i)) = Some (Committed (snd (prep ! i)))
       | Some x \<Rightarrow> stop_reason prep ops (view (mem ! s) look) ?is x"
      by blast
    have at: "mem_at (mem[s := shard_map a]) = mem_at mem ++ reservations prep rid js"
    proof
      fix k
      show "mem_at (mem[s := shard_map a]) k = (mem_at mem ++ reservations prep rid js) k"
      proof (cases "dedup_shard k = s")
        case True
        then have "mem_at mem k = (mem ! s) k" by (simp add: mem_at_def)
        with True assms(1,2) show ?thesis by (simp add: mem_ok_def mem_at_update map map_add_def split: option.split)
      next
        case other: False
        have "reservations prep rid js k = None"
        proof (rule ccontr)
          assume "reservations prep rid js k \<noteq> None"
          then obtain i where "i \<in> set js" "k = fst (prep ! i)"
            using reservations_Some by blast
          with sub(1) other show False by (auto simp: shard_indices_def)
        qed
        with other assms(1,2) show ?thesis by (simp add: mem_ok_def mem_at_update map_add_def)
      qed
    qed
    have stop': "case stopped a of
         None \<Rightarrow> \<forall>i \<in> set ?is - set js. mview mem look (fst (prep ! i)) = Some (Committed (snd (prep ! i)))
       | Some x \<Rightarrow> stop_reason prep ops (mview mem look) ?is x"
      using stop view stop_reason_cong [of ?is _ prep "mview mem look", OF view] by (auto split: option.splits)
    have free': "\<forall>i \<in> set js. mview mem look (fst (prep ! i)) = None"
      using free view sub(1) by (metis subsetD)
    show ?thesis
      by (rule exI [of _ js], rule exI [of _ "mem[s := shard_map a]"], rule exI [of _ "stopped a"])
        (use run sub new at stop' free' assms(1) in \<open>simp add: mem_ok_def\<close>)
  qed
qed

section \<open>Rollback, finish, forget\<close>

definition own_pending :: "nat \<Rightarrow> dedup_entry option \<Rightarrow> bool" where
  "own_pending rid e \<longleftrightarrow> (\<exists>f. e = Some (Pending f rid))"

lemma rollback_keys_at:
  "rollback_keys rid keys m k = (if k \<in> set keys \<and> own_pending rid (m k) then None else m k)"
proof (induction keys arbitrary: m)
  case (Cons x keys)
  show ?case
    using Cons.IH by (auto simp: rollback_keys_def own_pending_def split: option.split dedup_entry.split)
qed (simp add: rollback_keys_def)

lemma rollback_shard_at:
  assumes "mem_ok mem" "s < STATE_SHARDS"
  shows "mem_ok (rollback_shard rid keys s mem)"
    and "mem_at (rollback_shard rid keys s mem) k =
      (if dedup_shard k = s \<and> k \<in> set keys \<and> own_pending rid (mem_at mem k) then None else mem_at mem k)"
  using assms
  by (auto simp: rollback_shard_def Let_def mem_ok_def mem_at_update rollback_keys_at filter_empty_conv)
    (simp_all add: mem_at_def)

lemma finish_keys_at:
  assumes "distinct keys" "\<forall>k \<in> set keys. m k = Some (Pending (Some (fp k)) rid)"
  shows "finish_keys committed keys (m, notif, entries) =
    ((\<lambda>x. if x \<in> set keys then (if committed then Some (Committed (fp x)) else None) else m x),
     notif @ map (\<lambda>_. rid) keys, if committed then entries @ map (\<lambda>k. (k, fp k)) keys else entries)"
  using assms
proof (induction keys arbitrary: m notif entries)
  case (Cons k keys)
  let ?m = "m(k := if committed then Some (Committed (fp k)) else None)"
  have "\<forall>x \<in> set keys. ?m x = Some (Pending (Some (fp x)) rid)"
    using Cons.prems by auto
  with Cons.prems have IH: "finish_keys committed keys (?m, n, e) =
      ((\<lambda>x. if x \<in> set keys then (if committed then Some (Committed (fp x)) else None) else ?m x),
       n @ map (\<lambda>_. rid) keys, if committed then e @ map (\<lambda>k. (k, fp k)) keys else e)" for n e
    by (intro Cons.IH) simp_all
  have "finish_keys committed (k # keys) (m, notif, entries)
      = finish_keys committed keys (?m, notif @ [rid], if committed then entries @ [(k, fp k)] else entries)"
    using Cons.prems(2) by simp
  then show ?case unfolding IH by (auto simp: fun_eq_iff)
qed (simp add: fun_eq_iff)

lemma finish_shard_at:
  assumes "mem_ok mem" "s < STATE_SHARDS" "distinct keys"
    and "\<forall>k \<in> set keys. dedup_shard k = s \<longrightarrow> mem_at mem k = Some (Pending (Some (fp k)) rid)"
  shows "\<exists>mem'. finish_shard committed keys s (mem, notif, entries) = (mem',
      notif @ map (\<lambda>_. rid) (filter (\<lambda>k. dedup_shard k = s) keys),
      if committed then entries @ map (\<lambda>k. (k, fp k)) (filter (\<lambda>k. dedup_shard k = s) keys) else entries)
    \<and> mem_ok mem'
    \<and> (\<forall>x. mem_at mem' x = (if x \<in> set keys \<and> dedup_shard x = s
          then (if committed then Some (Committed (fp x)) else None) else mem_at mem x))"
proof -
  let ?keys = "filter (\<lambda>k. dedup_shard k = s) keys"
  have "\<forall>k \<in> set ?keys. (mem ! s) k = Some (Pending (Some (fp k)) rid)"
    using assms(4) by (auto simp: mem_at_def)
  note f = finish_keys_at [OF distinct_filter [OF assms(3)] this]
  let ?m = "\<lambda>x. if x \<in> set ?keys then (if committed then Some (Committed (fp x)) else None) else (mem ! s) x"
  show ?thesis
  proof (cases "?keys = []")
    case True
    then have "\<forall>x. \<not> (x \<in> set keys \<and> dedup_shard x = s)" by (auto simp: filter_empty_conv)
    with True assms(1) show ?thesis by (auto simp: finish_shard_def)
  next
    case False
    then have "finish_shard committed keys s (mem, notif, entries) = (mem[s := ?m],
      notif @ map (\<lambda>_. rid) ?keys, if committed then entries @ map (\<lambda>k. (k, fp k)) ?keys else entries)"
      by (simp add: finish_shard_def f)
    with assms(1,2) show ?thesis
      by (auto simp: mem_ok_def mem_at_update) (auto simp: mem_at_def)
  qed
qed

lemma persist_forget_at:
  assumes "mem_ok mem"
  shows "mem_ok (persist_forget e mem)"
    and "mem_at (persist_forget e mem) k =
      (if k = fst e \<and> mem_at mem k = Some (Committed (snd e)) then None else mem_at mem k)"
  using assms by (auto simp: persist_forget_def Let_def mem_ok_def mem_at_update) (auto simp: mem_at_def)

text \<open>A digest for the examples.\<close>

definition pad :: "bytes \<Rightarrow> bytes" where
  "pad x = take 32 (x @ replicate 32 0)"

lemma length_pad: "length (pad x) = 32" by (simp add: pad_def)

end
