(* ===== verification/Balances.thy ===== *)
theory Balances
  imports Snapshot Reservation "HOL-Library.Multiset" "HOL-Library.Product_Lexorder"
begin

text \<open>
  The balance state of \<open>src/state.rs\<close>: tasks that own one shard of the balances each
  (\<open>run_shard\<close>), the write path over them (\<open>apply_batched\<close>, \<open>apply_reserved_batch\<close>,
  \<open>apply_preflight_batch\<close>), the publisher behind the read path (\<open>run_balance_publisher\<close>)
  and the queries.  A \<open>HashMap\<close> is a map; its iteration order is the parameter \<open>iter\<close>.
  \<open>DefaultHasher\<close> is the parameter \<open>hash\<close>.  Additions wrap, as they do in the release
  build.
\<close>

section \<open>One shard\<close>

type_synonym key = "bytes \<times> bytes"
type_synonym balances = "key \<Rightarrow> i64 option"

definition key_of :: "operation \<Rightarrow> key" where
  "key_of op = (owner_id op, sku op)"

definition balance_at :: "balances \<Rightarrow> key \<Rightarrow> i64" where
  "balance_at m k = (case m k of Some b \<Rightarrow> b | None \<Rightarrow> 0)"

text \<open>\<open>*balances.entry(key).or_default() += delta\<close>.\<close>

definition add_delta :: "key \<Rightarrow> i64 \<Rightarrow> balances \<Rightarrow> balances" where
  "add_delta k d m = m(k \<mapsto> balance_at m k + d)"

fun apply_entries :: "(nat \<times> operation) list \<Rightarrow> balances \<Rightarrow> balances \<times> (nat \<times> apply_result) list" where
  "apply_entries [] m = (m, [])"
| "apply_entries ((index, op) # todo) m =
     (let m' = add_delta (key_of op) (delta op) m;
          (m'', results) = apply_entries todo m'
      in (m'', (index, \<lparr>res_operation_id = operation_id op, res_status = Applied,
                        res_balance = balance_at m' (key_of op)\<rparr>) # results))"

datatype command = ApplyBatch "(nat \<times> operation) list" | Dump

datatype reply = Results "(nat \<times> apply_result) list" | Rows "balance_snapshot list"

definition dump_rows :: "(balances \<Rightarrow> (key \<times> i64) list) \<Rightarrow> balances \<Rightarrow> balance_snapshot list" where
  "dump_rows iter m = map (\<lambda>((ow, s), b). \<lparr>bs_owner_id = ow, bs_sku = s, bs_balance = b\<rparr>) (iter m)"

fun shard_command :: "(balances \<Rightarrow> (key \<times> i64) list) \<Rightarrow> command \<Rightarrow> balances \<Rightarrow> balances \<times> reply" where
  "shard_command iter Dump m = (m, Rows (dump_rows iter m))"
| "shard_command iter (ApplyBatch entries) m = (let (m', results) = apply_entries entries m in (m', Results results))"

fun run_shard :: "(balances \<Rightarrow> (key \<times> i64) list) \<Rightarrow> command list \<Rightarrow> balances \<Rightarrow> balances \<times> reply list" where
  "run_shard iter [] m = (m, [])"
| "run_shard iter (c # cs) m =
     (let (m', r) = shard_command iter c m; (m'', rs) = run_shard iter cs m' in (m'', r # rs))"

section \<open>The write path\<close>

definition shard_for :: "(bytes \<Rightarrow> bytes \<Rightarrow> u64) \<Rightarrow> bytes \<Rightarrow> bytes \<Rightarrow> nat \<Rightarrow> nat" where
  "shard_for hash ow s cnt = unat (and (hash ow s) (word_of_nat cnt - 1))"

definition op_shard :: "(bytes \<Rightarrow> bytes \<Rightarrow> u64) \<Rightarrow> nat \<Rightarrow> operation \<Rightarrow> nat" where
  "op_shard hash cnt op = shard_for hash (owner_id op) (sku op) cnt"

definition shard_group :: "(bytes \<Rightarrow> bytes \<Rightarrow> u64) \<Rightarrow> nat \<Rightarrow> (nat \<times> operation) list \<Rightarrow> nat \<Rightarrow> (nat \<times> operation) list" where
  "shard_group hash cnt indexed s = filter (\<lambda>(_, op). op_shard hash cnt op = s) indexed"

text \<open>
  The commands of a request reach every shard with work and their replies come back in
  shard order.  \<open>up\<close> says which shard tasks still run; a stopped one gives an error, after
  the others have applied theirs.
\<close>

definition send_group ::
  "(nat \<Rightarrow> bool) \<Rightarrow> nat \<Rightarrow> (nat \<times> operation) list \<Rightarrow> balances \<Rightarrow> balances \<times> (nat \<times> apply_result) list result" where
  "send_group up s operations m =
     (if operations = [] then (m, Inr [])
      else if up s then (let (m', results) = apply_entries operations m in (m', Inr results))
      else (m, Inl (Msg ''state shard stopped'')))"

definition apply_batched ::
  "(bytes \<Rightarrow> bytes \<Rightarrow> u64) \<Rightarrow> (nat \<Rightarrow> bool) \<Rightarrow> unit result \<Rightarrow> (nat \<times> operation) list \<Rightarrow> balances list
     \<Rightarrow> balances list \<times> (nat \<times> apply_result) list result" where
  "apply_batched hash up wal_append indexed shards =
     (case wal_append of
        Inl e \<Rightarrow> (shards, Inl e)
      | Inr _ \<Rightarrow>
          (let cnt = length shards;
               replies = map (\<lambda>s. send_group up s (shard_group hash cnt indexed s) (shards ! s)) [0..<cnt]
           in (map fst replies, rbind (collect_results snd replies) (\<lambda>rs. Inr (concat rs)))))"

definition apply_reserved_batch ::
  "(bytes \<Rightarrow> bytes \<Rightarrow> u64) \<Rightarrow> (nat \<Rightarrow> bool) \<Rightarrow> unit result \<Rightarrow> operation list \<Rightarrow> balances list
     \<Rightarrow> balances list \<times> apply_result list result" where
  "apply_reserved_batch hash up wal_append operations shards =
     (let (shards', r) = apply_batched hash up wal_append (enumerate 0 operations) shards
      in (shards', rbind r (\<lambda>indexed. Inr (map snd (sort_key fst indexed)))))"

definition duplicate_result :: "balances \<Rightarrow> operation \<Rightarrow> apply_result" where
  "duplicate_result published op =
     \<lparr>res_operation_id = operation_id op, res_status = Duplicate, res_balance = balance_at published (key_of op)\<rparr>"

definition place :: "nat \<times> apply_result \<Rightarrow> apply_result option list \<Rightarrow> apply_result option list" where
  "place e results = results[fst e := Some (snd e)]"

definition apply_preflight_batch ::
  "(bytes \<Rightarrow> bytes \<Rightarrow> u64) \<Rightarrow> (nat \<Rightarrow> bool) \<Rightarrow> unit result \<Rightarrow> balances \<Rightarrow> operation list \<Rightarrow> bool list
     \<Rightarrow> balances list \<Rightarrow> balances list \<times> apply_result list result" where
  "apply_preflight_batch hash up wal_append published operations new shards =
     (let entries = enumerate 0 (zip operations new);
          known = map (\<lambda>(i, op, _). (i, duplicate_result published op)) (filter (\<lambda>(_, _, n). \<not> n) entries);
          fresh = map (\<lambda>(i, op, _). (i, op)) (filter (\<lambda>(_, _, n). n) entries);
          results = fold place known (replicate (length operations) None);
          (shards', r) = apply_batched hash up wal_append fresh shards
      in (shards', rbind r (\<lambda>applied.
            collect_results (\<lambda>x. case x of Some y \<Rightarrow> Inr y | None \<Rightarrow> Inl (Msg ''missing state shard result''))
              (fold place applied results))))"

section \<open>The read path\<close>

text \<open>What \<open>finish_batch\<close> hands to the publisher, and the publisher's turn over a batch of commands.\<close>

definition publish_updates :: "operation list \<Rightarrow> bool list \<Rightarrow> (key \<times> i64) list" where
  "publish_updates operations new = map (\<lambda>(op, _). (key_of op, delta op)) (filter snd (zip operations new))"

definition publish :: "(key \<times> i64) list list \<Rightarrow> balances \<Rightarrow> balances" where
  "publish batch m = fold (\<lambda>updates. fold (\<lambda>(k, d). add_delta k d) updates) batch m"

definition balance :: "balances \<Rightarrow> bytes \<Rightarrow> bytes \<Rightarrow> i64" where
  "balance published ow s = balance_at published (ow, s)"

definition balances_of :: "balances \<Rightarrow> key list \<Rightarrow> i64 list" where
  "balances_of published keys = map (balance_at published) keys"

definition balances_by_owner :: "(balances \<Rightarrow> (key \<times> i64) list) \<Rightarrow> balances \<Rightarrow> bytes \<Rightarrow> (bytes \<times> i64) list" where
  "balances_by_owner iter published ow =
     sort_key fst (map (\<lambda>((_, s), b). (s, b)) (filter (\<lambda>((o', _), _). o' = ow) (iter published)))"

definition owner_total :: "(bytes \<times> i64) list \<Rightarrow> i64" where
  "owner_total positions = sum_list (map snd positions)"

definition store_snapshot ::
  "(balances \<Rightarrow> (key \<times> i64) list) \<Rightarrow> u64 \<Rightarrow> u64 \<Rightarrow> balances list \<Rightarrow> snapshot_data" where
  "store_snapshot iter sequence epoch shards =
     \<lparr>sn_version = 3, sn_sequence = sequence, sn_balances = concat (map (dump_rows iter) shards),
      sn_dedup = [], sn_writer_epoch = epoch\<rparr>"

text \<open>How a \<open>HashMap\<close> is iterated: every entry once, in some order.\<close>

definition iterates :: "(balances \<Rightarrow> (key \<times> i64) list) \<Rightarrow> bool" where
  "iterates iter \<longleftrightarrow> (\<forall>m. finite (dom m) \<longrightarrow> distinct (map fst (iter m)) \<and> map_of (iter m) = m)"

section \<open>Sums\<close>

lemma add_delta_at: "balance_at (add_delta k d m) k' = balance_at m k' + (if k' = k then d else 0)"
  by (simp add: add_delta_def balance_at_def)

lemma add_delta_None: "add_delta k d m k' = None \<longleftrightarrow> k' \<noteq> k \<and> m k' = None"
  by (simp add: add_delta_def)

definition total_delta :: "operation list \<Rightarrow> key \<Rightarrow> i64" where
  "total_delta ops k = sum_list (map delta (filter (\<lambda>op. key_of op = k) ops))"

lemma total_delta_simps [simp]:
  "total_delta [] k = 0"
  "total_delta (op # ops) k = (if key_of op = k then delta op else 0) + total_delta ops k"
  "total_delta (xs @ ys) k = total_delta xs k + total_delta ys k"
  by (simp_all add: total_delta_def)

lemma total_delta_mset: "mset xs = mset ys \<Longrightarrow> total_delta xs k = total_delta ys k"
  by (simp add: total_delta_def mset_map mset_filter flip: sum_mset_sum_list)

lemma apply_entries_at: "balance_at (fst (apply_entries es m)) k = balance_at m k + total_delta (map snd es) k"
  by (induction es m rule: apply_entries.induct) (simp_all add: Let_def split_beta add_delta_at)

lemma apply_entries_none: "fst (apply_entries es m) k = None \<longleftrightarrow> m k = None \<and> k \<notin> key_of ` snd ` set es"
  by (induction es m rule: apply_entries.induct) (auto simp: Let_def split_beta add_delta_None)

lemma apply_entries_cong:
  assumes "\<And>k. P k \<Longrightarrow> m k = g k" "\<And>op. Q op = P (key_of op)"
  shows "snd (apply_entries (filter (\<lambda>(_, op). Q op) es) m)
      = map snd (filter (\<lambda>((_, op), _). Q op) (zip es (snd (apply_entries es g))))
    \<and> (\<forall>k. P k \<longrightarrow> fst (apply_entries (filter (\<lambda>(_, op). Q op) es) m) k = fst (apply_entries es g) k)"
  using assms(1)
proof (induction es arbitrary: m g)
  case (Cons e es)
  obtain i op where e: "e = (i, op)" by (cases e)
  have balance: "balance_at m (key_of op) = balance_at g (key_of op)" if "P (key_of op)"
    using Cons.prems [OF that] by (simp add: balance_at_def)
  show ?case
  proof (cases "Q op")
    case True
    let ?m = "add_delta (key_of op) (delta op) m" and ?g = "add_delta (key_of op) (delta op) g"
    have "?m k = ?g k" if "P k" for k
      using that Cons.prems balance True assms(2) by (simp add: add_delta_def)
    from Cons.IH [of ?m ?g, OF this] True balance assms(2) show ?thesis
      by (simp add: e Let_def split_beta add_delta_at)
  next
    case False
    have "m k = add_delta (key_of op) (delta op) g k" if "P k" for k
      using that False assms(2) Cons.prems by (auto simp: add_delta_def)
    from Cons.IH [OF this] False show ?thesis by (simp add: e Let_def split_beta)
  qed
qed simp

section \<open>All shards as one map\<close>

definition key_shard :: "(bytes \<Rightarrow> bytes \<Rightarrow> u64) \<Rightarrow> nat \<Rightarrow> key \<Rightarrow> nat" where
  "key_shard hash cnt k = shard_for hash (fst k) (snd k) cnt"

definition merged :: "(bytes \<Rightarrow> bytes \<Rightarrow> u64) \<Rightarrow> balances list \<Rightarrow> balances" where
  "merged hash shards k = (shards ! key_shard hash (length shards) k) k"

text \<open>Every position lives in the shard of its key.\<close>

definition shards_ok :: "(bytes \<Rightarrow> bytes \<Rightarrow> u64) \<Rightarrow> balances list \<Rightarrow> bool" where
  "shards_ok hash shards \<longleftrightarrow>
     0 < length shards \<and> length shards < 2 ^ 64
     \<and> (\<forall>s < length shards. finite (dom (shards ! s)) \<and> (\<forall>k \<in> dom (shards ! s). key_shard hash (length shards) k = s))"

lemma shard_for_bound:
  assumes "0 < cnt" "cnt < 2 ^ 64"
  shows "shard_for hash ow s cnt < cnt"
proof -
  have "(word_of_nat cnt :: u64) \<noteq> 0" using assms by (simp add: word_of_nat_eq_0_iff dvd_imp_le linorder_not_le nat_dvd_not_less)
  then have "unat (word_of_nat cnt - 1 :: u64) = cnt - 1"
    using assms by (simp add: unat_minus_one unat_of_nat)
  moreover have "unat (and (hash ow s) (word_of_nat cnt - 1)) \<le> unat (word_of_nat cnt - 1 :: u64)"
    by (metis word_and_le1 word_le_nat_alt)
  ultimately show ?thesis using assms(1) by (simp add: shard_for_def)
qed

lemma key_shard_bound: "shards_ok hash shards \<Longrightarrow> key_shard hash (length shards) k < length shards"
  by (simp add: shards_ok_def key_shard_def shard_for_bound)

lemma op_shard_key: "op_shard hash cnt op = key_shard hash cnt (key_of op)"
  by (simp add: op_shard_def key_shard_def key_of_def)

lemma mset_by_shard: "mset (concat (map (\<lambda>s. filter (\<lambda>x. f x = s) xs) [0..<n])) = mset (filter (\<lambda>x. f x < n) xs)"
proof (induction n)
  case (Suc n)
  have "mset (filter (\<lambda>x. f x < Suc n) xs) = mset (filter (\<lambda>x. f x < n) xs) + mset (filter (\<lambda>x. f x = n) xs)"
    by (induction xs) auto
  with Suc show ?case by simp
qed simp

lemma apply_entries_index: "map fst (snd (apply_entries es m)) = map fst es"
  by (induction es m rule: apply_entries.induct) (simp_all add: Let_def split_beta)

lemma finite_apply_entries: "finite (dom m) \<Longrightarrow> finite (dom (fst (apply_entries es m)))"
  by (rule finite_subset [of _ "dom m \<union> key_of ` snd ` set es"])
    (use apply_entries_none [of es m] in \<open>auto simp: dom_def\<close>)

lemma apply_batched_merged:
  assumes ok: "shards_ok hash shards" and up: "\<And>s. s < length shards \<Longrightarrow> up s"
    and run: "apply_batched hash up (Inr ()) es shards = (shards', r)"
  shows "shards_ok hash shards'" and "length shards' = length shards"
    and "merged hash shards' = fst (apply_entries es (merged hash shards))"
    and "\<exists>results. r = Inr results \<and> mset results = mset (snd (apply_entries es (merged hash shards)))"
proof -
  let ?n = "length shards" and ?g = "merged hash shards"
  define group where "group = shard_group hash ?n es"
  define R where "R = snd (apply_entries es ?g)"
  have send: "send_group up s (group s) (shards ! s)
      = (fst (apply_entries (group s) (shards ! s)), Inr (snd (apply_entries (group s) (shards ! s))))" if "s < ?n" for s
    using up [OF that] by (simp add: send_group_def split_beta Let_def)
  have shards': "shards' = map (\<lambda>s. fst (apply_entries (group s) (shards ! s))) [0..<?n]"
    and r: "r = Inr (concat (map (\<lambda>s. snd (apply_entries (group s) (shards ! s))) [0..<?n]))"
  proof -
    have "collect_results snd (map (\<lambda>s. send_group up s (group s) (shards ! s)) [0..<?n])
        = Inr (map (\<lambda>s. snd (apply_entries (group s) (shards ! s))) [0..<?n])"
      by (rule collect_results_Inr_iff [THEN iffD2]) (simp add: list_all2_conv_all_nth send)
    with run show "shards' = map (\<lambda>s. fst (apply_entries (group s) (shards ! s))) [0..<?n]"
      "r = Inr (concat (map (\<lambda>s. snd (apply_entries (group s) (shards ! s))) [0..<?n]))"
      by (auto simp: apply_batched_def Let_def send group_def [symmetric])
  qed
  have local: "snd (apply_entries (group s) (shards ! s)) = map snd (filter (\<lambda>((_, op), _). op_shard hash ?n op = s) (zip es R))"
    "\<And>k. key_shard hash ?n k = s \<Longrightarrow> fst (apply_entries (group s) (shards ! s)) k = fst (apply_entries es ?g) k"
    if "s < ?n" for s
    using apply_entries_cong [of "\<lambda>k. key_shard hash ?n k = s" "shards ! s" ?g "\<lambda>op. op_shard hash ?n op = s" es]
    by (auto simp: group_def shard_group_def R_def merged_def op_shard_key)
  show len: "length shards' = ?n" by (simp add: shards')
  have nth: "shards' ! s = fst (apply_entries (group s) (shards ! s))" if "s < ?n" for s
    using that by (simp add: shards')
  show "merged hash shards' = fst (apply_entries es ?g)"
  proof
    fix k
    show "merged hash shards' k = fst (apply_entries es ?g) k"
      using key_shard_bound [OF ok, of k] by (simp add: merged_def len nth local(2))
  qed
  have "key_shard hash ?n k = s" if "s < ?n" "k \<in> dom (shards' ! s)" for s k
  proof -
    from that have "k \<in> dom (shards ! s) \<or> k \<in> key_of ` snd ` set (group s)"
      using apply_entries_none [of "group s" "shards ! s" k] by (auto simp: nth dom_def)
    with ok that(1) show ?thesis by (auto simp: shards_ok_def group_def shard_group_def op_shard_key)
  qed
  then show "shards_ok hash shards'"
    using ok by (auto simp: shards_ok_def len nth finite_apply_entries)
  have "mset (concat (map (\<lambda>s. snd (apply_entries (group s) (shards ! s))) [0..<?n])) = mset R"
  proof -
    have eq: "map (\<lambda>s. snd (apply_entries (group s) (shards ! s))) [0..<?n]
        = map (map snd) (map (\<lambda>s. filter (\<lambda>x. op_shard hash ?n (snd (fst x)) = s) (zip es R)) [0..<?n])"
      by (simp add: local(1) case_prod_unfold)
    have all: "filter (\<lambda>x. op_shard hash ?n (snd (fst x)) < ?n) (zip es R) = zip es R"
      using key_shard_bound [OF ok] by (simp add: op_shard_key)
    have "length R = length es"
      unfolding R_def using arg_cong [OF apply_entries_index [of es ?g], of length] by simp
    then have snd: "map snd (zip es R) = R" by simp
    show ?thesis
      unfolding eq map_concat [symmetric] mset_map mset_by_shard all
      by (simp flip: mset_map add: snd)
  qed
  with r show "\<exists>results. r = Inr results \<and> mset results = mset (snd (apply_entries es ?g))"
    by (simp add: R_def)
qed

section \<open>The sequential reference\<close>

fun apply_in_order :: "operation list \<Rightarrow> balances \<Rightarrow> balances \<times> apply_result list" where
  "apply_in_order [] m = (m, [])"
| "apply_in_order (op # ops) m =
     (let m' = add_delta (key_of op) (delta op) m; (m'', results) = apply_in_order ops m'
      in (m'', \<lparr>res_operation_id = operation_id op, res_status = Applied,
                res_balance = balance_at m' (key_of op)\<rparr> # results))"

lemma apply_entries_in_order:
  "apply_in_order (map snd es) m = (fst (apply_entries es m), map snd (snd (apply_entries es m)))"
  by (induction es m rule: apply_entries.induct) (simp_all add: Let_def split_beta)

lemma apply_in_order_at: "balance_at (fst (apply_in_order ops m)) k = balance_at m k + total_delta ops k"
  using apply_entries_in_order [of "enumerate 0 ops" m] apply_entries_at [of "enumerate 0 ops" m k] by simp

lemma apply_entries_split:
  assumes "es = es1 @ (i, op) # es2"
  shows "(i, \<lparr>res_operation_id = operation_id op, res_status = Applied,
      res_balance = balance_at m (key_of op) + total_delta (map snd es1 @ [op]) (key_of op)\<rparr>) \<in> set (snd (apply_entries es m))"
  using assms
proof (induction es1 arbitrary: es m)
  case (Cons e es1)
  obtain j op' where "e = (j, op')" by (cases e)
  with Cons.prems Cons.IH [OF refl, of "add_delta (key_of op') (delta op') m"] show ?case
    by (cases "key_of op' = key_of op") (simp_all add: Let_def split_beta add_delta_at add.assoc)
qed (simp add: Let_def split_beta add_delta_at)

lemma length_place [simp]: "length (fold place es rs) = length rs"
  by (induction es arbitrary: rs) (simp_all add: place_def)

lemma place_other: "i \<notin> fst ` set es \<Longrightarrow> fold place es rs ! i = rs ! i"
  by (induction es arbitrary: rs) (auto simp: place_def)

lemma place_at:
  "distinct (map fst es) \<Longrightarrow> (i, x) \<in> set es \<Longrightarrow> i < length rs \<Longrightarrow> fold place es rs ! i = Some x"
proof (induction es arbitrary: rs)
  case (Cons e es)
  show ?case
  proof (cases "e = (i, x)")
    case True
    with Cons.prems(1) have "i \<notin> fst ` set es" by simp
    with True Cons.prems(3) show ?thesis by (simp add: place_other) (simp add: place_def)
  next
    case False
    with Cons.prems have "(i, x) \<in> set es" by simp
    with Cons.IH [of "place e rs"] Cons.prems show ?thesis by (simp add: place_def)
  qed
qed simp

section \<open>Applying a batch\<close>

lemma apply_reserved_merged:
  assumes "shards_ok hash shards" "\<And>s. s < length shards \<Longrightarrow> up s"
  shows "\<exists>shards'. apply_reserved_batch hash up (Inr ()) ops shards
      = (shards', Inr (snd (apply_in_order ops (merged hash shards))))
    \<and> shards_ok hash shards' \<and> length shards' = length shards
    \<and> merged hash shards' = fst (apply_in_order ops (merged hash shards))"
proof -
  let ?es = "enumerate 0 ops" and ?g = "merged hash shards"
  let ?R = "snd (apply_entries ?es ?g)"
  obtain shards' r where run: "apply_batched hash up (Inr ()) ?es shards = (shards', r)" by (metis surj_pair)
  note b = apply_batched_merged [OF assms run]
  from b(4) obtain rs where rs: "r = Inr rs" "mset rs = mset ?R" by blast
  have index: "map fst ?R = [0..<length ops]" by (simp add: apply_entries_index)
  then have "distinct (map fst ?R)" "sorted (map fst ?R)" by simp_all
  then have "sort_key fst rs = ?R"
    using rs(2) by (intro sort_key_inj_key_eq) (simp_all add: distinct_map mset_eq_setD [OF rs(2)])
  with run rs(1) b(1-3) apply_entries_in_order [of ?es ?g] show ?thesis
    by (simp add: apply_reserved_batch_def)
qed

definition fresh_ops :: "operation list \<Rightarrow> bool list \<Rightarrow> operation list" where
  "fresh_ops ops new = map fst (filter snd (zip ops new))"

definition applied_result :: "balances \<Rightarrow> operation list \<Rightarrow> bool list \<Rightarrow> nat \<Rightarrow> apply_result" where
  "applied_result m ops new i =
     \<lparr>res_operation_id = operation_id (ops ! i), res_status = Applied,
      res_balance = balance_at m (key_of (ops ! i))
        + total_delta (fresh_ops (take (Suc i) ops) (take (Suc i) new)) (key_of (ops ! i))\<rparr>"

text \<open>The new operations of a batch with their indices, and the answers to the others.\<close>

abbreviation numbered_fresh :: "(nat \<times> operation \<times> bool) list \<Rightarrow> (nat \<times> operation) list" where
  "numbered_fresh entries \<equiv> map (\<lambda>(i, op, _). (i, op)) (filter (\<lambda>(_, _, n). n) entries)"

abbreviation numbered_known :: "balances \<Rightarrow> (nat \<times> operation \<times> bool) list \<Rightarrow> (nat \<times> apply_result) list" where
  "numbered_known published entries \<equiv>
     map (\<lambda>(i, op, _). (i, duplicate_result published op)) (filter (\<lambda>(_, _, n). \<not> n) entries)"

lemma numbered_fresh_ops: "map snd (numbered_fresh (enumerate k zs)) = map fst (filter snd zs)"
  by (induction zs arbitrary: k) auto

lemma numbered_index_sub:
  "fst ` set (numbered_fresh es) \<subseteq> fst ` set es" "fst ` set (numbered_known p es) \<subseteq> fst ` set es"
  by force+

lemma numbered_distinct:
  "distinct (map fst es) \<Longrightarrow> distinct (map fst (numbered_fresh es)) \<and> distinct (map fst (numbered_known p es))"
  by (induction es) (auto simp: image_iff split: if_splits)

lemma enumerate_nth_mem:
  "i < length zs \<Longrightarrow> (i, op, n) \<in> set (enumerate 0 zs) \<longleftrightarrow> zs ! i = (op, n)"
  by (auto simp: in_set_enumerate_eq)

lemma fresh_split:
  assumes "i < length ops" "length new = length ops" "new ! i"
  shows "\<exists>es1 es2. numbered_fresh (enumerate 0 (zip ops new)) = es1 @ (i, ops ! i) # es2
    \<and> map snd es1 @ [ops ! i] = fresh_ops (take (Suc i) ops) (take (Suc i) new)"
proof -
  let ?zs = "zip ops new"
  have i: "i < length ?zs" using assms by simp
  have zs: "?zs = take (Suc i) ?zs @ drop (Suc i) ?zs" "take (Suc i) ?zs = take i ?zs @ [(ops ! i, new ! i)]"
    using assms by (simp_all only: append_take_drop_id) (simp add: take_Suc_conv_app_nth)
  have 1: "enumerate 0 (take (Suc i) ?zs) = enumerate 0 (take i ?zs) @ [(i, ops ! i, new ! i)]"
    using i by (simp add: zs(2) enumerate_append_eq)
  have "numbered_fresh (enumerate 0 ?zs) = numbered_fresh (enumerate 0 (take (Suc i) ?zs))
      @ numbered_fresh (enumerate (Suc i) (drop (Suc i) ?zs))"
    using i by (subst zs(1), subst enumerate_append_eq) simp
  then have "numbered_fresh (enumerate 0 ?zs) = numbered_fresh (enumerate 0 (take i ?zs)) @ (i, ops ! i)
      # numbered_fresh (enumerate (Suc i) (drop (Suc i) ?zs))"
    using assms(3) by (simp add: 1)
  moreover have "map snd (numbered_fresh (enumerate 0 (take i ?zs))) @ [ops ! i]
      = fresh_ops (take (Suc i) ops) (take (Suc i) new)"
    using assms(3) numbered_fresh_ops [of 0 "take i ?zs"]
    by (simp add: fresh_ops_def take_zip [symmetric] zs(2))
  ultimately show ?thesis by blast
qed

lemma apply_preflight_merged:
  assumes ok: "shards_ok hash shards" "\<And>s. s < length shards \<Longrightarrow> up s" and len: "length new = length ops"
  shows "\<exists>shards'. apply_preflight_batch hash up (Inr ()) published ops new shards
      = (shards', Inr (map (\<lambda>i. if new ! i then applied_result (merged hash shards) ops new i
            else duplicate_result published (ops ! i)) [0..<length ops]))
    \<and> shards_ok hash shards' \<and> length shards' = length shards
    \<and> merged hash shards' = fst (apply_in_order (fresh_ops ops new) (merged hash shards))"
proof -
  let ?g = "merged hash shards" and ?entries = "enumerate 0 (zip ops new)"
  let ?known = "numbered_known published ?entries" and ?fresh = "numbered_fresh ?entries"
  let ?result = "\<lambda>i. if new ! i then applied_result ?g ops new i else duplicate_result published (ops ! i)"
  obtain shards' r where run: "apply_batched hash up (Inr ()) ?fresh shards = (shards', r)" by (metis surj_pair)
  note b = apply_batched_merged [OF ok run]
  from b(4) obtain rs where rs: "r = Inr rs" "mset rs = mset (snd (apply_entries ?fresh ?g))" by blast
  define slots where "slots = fold place rs (fold place ?known (replicate (length ops) None))"
  have set_rs: "set rs = set (snd (apply_entries ?fresh ?g))" by (rule mset_eq_setD [OF rs(2)])
  have dist: "distinct (map fst ?fresh)" "distinct (map fst ?known)"
    using numbered_distinct [of ?entries published] by simp_all
  have "mset (map fst rs) = mset (map fst ?fresh)"
    using arg_cong [OF rs(2), of "image_mset fst"] apply_entries_index [of ?fresh ?g]
    by (simp only: mset_map [symmetric])
  from mset_eq_imp_distinct_iff [OF this] mset_eq_setD [OF this] dist(1)
  have rs_index: "distinct (map fst rs)" "fst ` set rs = fst ` set ?fresh" by (simp_all only: set_map)
  have slot: "slots ! i = Some (?result i)" if i: "i < length ops" for i
  proof (cases "new ! i")
    case True
    from fresh_split [OF i len True] obtain es1 es2 where
      es: "?fresh = es1 @ (i, ops ! i) # es2" "map snd es1 @ [ops ! i] = fresh_ops (take (Suc i) ops) (take (Suc i) new)"
      by blast
    from apply_entries_split [OF es(1), of ?g] have "(i, applied_result ?g ops new i) \<in> set rs"
      by (simp add: set_rs es(2) applied_result_def)
    with True i rs_index(1) show ?thesis by (simp add: slots_def place_at)
  next
    case False
    then have "(i, duplicate_result published (ops ! i)) \<in> set ?known"
      using i len by (force simp: in_set_enumerate_eq)
    moreover have "i \<notin> fst ` set rs"
      unfolding rs_index(2) using False i len by (auto simp: in_set_enumerate_eq)
    ultimately show ?thesis using i False dist(2) by (simp add: slots_def place_other place_at)
  qed
  have "length slots = length ops" by (simp add: slots_def)
  then have "slots = map (\<lambda>i. Some (?result i)) [0..<length ops]"
    by (intro nth_equalityI) (simp_all add: slot)
  then have "collect_results (\<lambda>x. case x of Some y \<Rightarrow> Inr y | None \<Rightarrow> Inl (Msg ''missing state shard result'')) slots
      = Inr (map ?result [0..<length ops])"
    by (simp add: collect_results_Inr_iff list_all2_conv_all_nth)
  with run rs(1) b(1-3) show ?thesis
    using apply_entries_in_order [of ?fresh ?g] numbered_fresh_ops [of 0 "zip ops new"]
    by (simp add: apply_preflight_batch_def Let_def slots_def fresh_ops_def)
qed

section \<open>Publication\<close>

lemma fold_deltas_at:
  "balance_at (fold (\<lambda>(k, d). add_delta k d) us m) k' = balance_at m k' + sum_list (map snd (filter (\<lambda>(k, _). k = k') us))"
  by (induction us arbitrary: m) (auto simp: add_delta_at)

lemma publish_at:
  "balance_at (publish batch m) k' = balance_at m k' + sum_list (map snd (filter (\<lambda>(k, _). k = k') (concat batch)))"
  by (induction batch arbitrary: m) (simp_all add: publish_def fold_deltas_at)

lemma updates_total:
  "sum_list (map snd (filter (\<lambda>(k, _). k = k') (publish_updates ops new))) = total_delta (fresh_ops ops new) k'"
proof (induction ops arbitrary: new)
  case (Cons op ops)
  then show ?case by (cases new) (auto simp: publish_updates_def fresh_ops_def)
qed (simp add: publish_updates_def fresh_ops_def)

text \<open>A sequence of batches going through the write path, each against some published state.\<close>

fun apply_all ::
  "(bytes \<Rightarrow> bytes \<Rightarrow> u64) \<Rightarrow> (nat \<Rightarrow> bool) \<Rightarrow> (balances \<times> operation list \<times> bool list) list \<Rightarrow> balances list \<Rightarrow> balances list" where
  "apply_all hash up [] shards = shards"
| "apply_all hash up ((published, ops, new) # todo) shards =
     apply_all hash up todo (fst (apply_preflight_batch hash up (Inr ()) published ops new shards))"

lemma apply_all_at:
  assumes "shards_ok hash shards" "\<And>s. s < length shards \<Longrightarrow> up s"
    and "\<forall>(_, ops, new) \<in> set batches. length new = length ops"
  shows "balance_at (merged hash (apply_all hash up batches shards)) k
    = balance_at (merged hash shards) k + sum_list (map (\<lambda>(_, ops, new). total_delta (fresh_ops ops new) k) batches)"
  using assms
proof (induction batches arbitrary: shards)
  case (Cons b bs)
  obtain p ops new where b: "b = (p, ops, new)" by (cases b)
  with Cons.prems(3) have len: "length new = length ops" by simp
  from apply_preflight_merged [OF Cons.prems(1,2) len, where published = p] obtain shards' where
    s: "fst (apply_preflight_batch hash up (Inr ()) p ops new shards) = shards'" "shards_ok hash shards'"
      "length shards' = length shards" "merged hash shards' = fst (apply_in_order (fresh_ops ops new) (merged hash shards))"
    by force
  have "balance_at (merged hash (apply_all hash up bs shards')) k
      = balance_at (merged hash shards') k + sum_list (map (\<lambda>(_, ops, new). total_delta (fresh_ops ops new) k) bs)"
    by (rule Cons.IH [OF s(2)]) (use Cons.prems(2,3) s(3) in simp_all)
  then show ?case by (simp add: b s(1) s(4) apply_in_order_at add.assoc)
qed simp

lemma sum_list_mset_eq: "mset xs = mset ys \<Longrightarrow> sum_list xs = sum_list (ys :: i64 list)"
  by (metis sum_mset_sum_list)

section \<open>No wrap-around\<close>

lemma sint_add: "- (2 ^ 63) \<le> sint a + sint b \<Longrightarrow> sint a + sint b < 2 ^ 63 \<Longrightarrow> sint (a + b) = sint a + sint b" for a b :: i64
  by (simp add: sint_word_add signed_take_bit_int_eq_self)

lemma sint_sum_list:
  "\<forall>d \<in> set ds. \<bar>sint d\<bar> \<le> b \<Longrightarrow> int (length ds) * b < 2 ^ 63 \<Longrightarrow>
     sint (sum_list ds) = sum_list (map sint ds) \<and> \<bar>sint (sum_list ds)\<bar> \<le> int (length ds) * b" for ds :: "i64 list"
proof (induction ds)
  case (Cons d ds)
  have "\<bar>sint d\<bar> \<le> b" using Cons.prems(1) by simp
  then have "0 \<le> b" using abs_ge_zero order_trans by blast
  have bound: "int (length ds) * b + b < 2 ^ 63" using Cons.prems(2) by (simp add: algebra_simps)
  with \<open>0 \<le> b\<close> have "int (length ds) * b < 2 ^ 63" by linarith
  moreover have "\<forall>d \<in> set ds. \<bar>sint d\<bar> \<le> b" using Cons.prems(1) by simp
  ultimately have IH: "sint (sum_list ds) = sum_list (map sint ds)" "\<bar>sint (sum_list ds)\<bar> \<le> int (length ds) * b"
    using Cons.IH by blast+
  have range: "\<bar>sint d + sint (sum_list ds)\<bar> \<le> int (length ds) * b + b"
    using IH(2) \<open>\<bar>sint d\<bar> \<le> b\<close> by linarith
  then have "- (2 ^ 63) \<le> sint d + sint (sum_list ds)" "sint d + sint (sum_list ds) < 2 ^ 63"
    using bound by linarith+
  from sint_add [OF this] IH(1) range show ?case by (simp add: algebra_simps)
qed simp

text \<open>The deltas of a position as integers, and a bound on the balances after \<open>n\<close> valid operations.\<close>

definition exact_delta :: "operation list \<Rightarrow> key \<Rightarrow> int" where
  "exact_delta ops k = sum_list (map (\<lambda>op. sint (delta op)) (filter (\<lambda>op. key_of op = k) ops))"

definition balances_within :: "nat \<Rightarrow> balances \<Rightarrow> bool" where
  "balances_within n m \<longleftrightarrow> (\<forall>k. \<bar>sint (balance_at m k)\<bar> \<le> 1000000000 * int n)"

lemma exact_sum:
  assumes "\<bar>sint b\<bar> \<le> 1000000000 * int n" "\<forall>op \<in> set ops. operation_ok op" "n + length ops \<le> 9000000000"
  shows "sint (b + total_delta ops k) = sint b + exact_delta ops k
    \<and> \<bar>sint (b + total_delta ops k)\<bar> \<le> 1000000000 * int (n + length ops)"
proof -
  let ?ds = "map delta (filter (\<lambda>op. key_of op = k) ops)"
  have len: "length ?ds \<le> length ops" unfolding length_map by (rule length_filter_le)
  have "\<forall>d \<in> set ?ds. \<bar>sint d\<bar> \<le> 1000000000" using assms(2) by (auto simp: operation_ok_def)
  moreover have "int (length ?ds) \<le> 9000000000" using len assms(3) by linarith
  then have "int (length ?ds) * 1000000000 \<le> 9000000000 * 1000000000" by (rule mult_right_mono) simp
  then have "int (length ?ds) * 1000000000 < 2 ^ 63" by (rule order_le_less_trans) simp
  ultimately have s: "sint (sum_list ?ds) = sum_list (map sint ?ds)" "\<bar>sint (sum_list ?ds)\<bar> \<le> int (length ?ds) * 1000000000"
    using sint_sum_list by blast+
  have range: "\<bar>sint b + sint (sum_list ?ds)\<bar> \<le> 1000000000 * int (n + length ops)"
  proof -
    have "int (length ?ds) * 1000000000 \<le> int (length ops) * 1000000000" using len by (intro mult_right_mono) simp_all
    moreover have "1000000000 * int (n + length ops) = 1000000000 * int n + int (length ops) * 1000000000" by simp
    ultimately show ?thesis using assms(1) s(2) by linarith
  qed
  also have "\<dots> \<le> 1000000000 * 9000000000" using assms(3) by simp
  finally have "sint (b + sum_list ?ds) = sint b + sint (sum_list ?ds)" by (intro sint_add) simp_all
  with range s(1) show ?thesis by (simp add: total_delta_def exact_delta_def comp_def)
qed

section \<open>Properties\<close>

text \<open>
  C21: \<open>apply_reserved_batch\<close> splits a batch over the shard tasks and puts the replies back
  in order; the caller gets the results, and the shards the balances, of applying the
  operations one after the other to a single map.  When the WAL append fails nothing is
  applied.
\<close>
theorem apply_reserved_sequential:
  assumes "shards_ok hash shards" "\<forall>s < length shards. up s"
  shows "(\<exists>shards'. apply_reserved_batch hash up (Inr ()) ops shards
      = (shards', Inr (snd (apply_in_order ops (merged hash shards))))
    \<and> shards_ok hash shards'
    \<and> merged hash shards' = fst (apply_in_order ops (merged hash shards)))
    \<and> apply_reserved_batch hash up (Inl e) ops shards = (shards, Inl e)"
  using apply_reserved_merged [OF assms(1), of up ops] assms(2)
  by (auto simp: apply_reserved_batch_def apply_batched_def)

definition sample_hash :: "bytes \<Rightarrow> bytes \<Rightarrow> u64" where
  "sample_hash ow s = of_nat (length ow + length s)"

definition sample_batch :: "operation list" where
  "sample_batch = [sample_op ''op-1'' ''ann'' ''bolt'' 5, sample_op ''op-2'' ''bob'' ''bolts'' 7,
     sample_op ''op-3'' ''ann'' ''bolt'' (- 2)]"

definition sample_shards :: "balances list" where
  "sample_shards = replicate 4 Map.empty"

lemma sample_shards_ok: "shards_ok hash sample_shards"
  by (simp add: shards_ok_def sample_shards_def)

lemma sample_merged: "merged hash sample_shards = Map.empty"
proof
  fix k
  have "key_shard hash (length sample_shards) k < length sample_shards"
    by (rule key_shard_bound [OF sample_shards_ok])
  then show "merged hash sample_shards k = None" by (simp add: merged_def sample_shards_def)
qed

lemma sample_in_order:
  "snd (apply_in_order sample_batch Map.empty) = [
     \<lparr>res_operation_id = ascii ''op-1'', res_status = Applied, res_balance = 5\<rparr>,
     \<lparr>res_operation_id = ascii ''op-2'', res_status = Applied, res_balance = 7\<rparr>,
     \<lparr>res_operation_id = ascii ''op-3'', res_status = Applied, res_balance = 3\<rparr>]"
  by (simp add: sample_batch_def sample_op_def ascii_def key_of_def add_delta_def balance_at_def)

lemma apply_reserved_sequential_witness:
  "snd (apply_reserved_batch sample_hash (\<lambda>s. True) (Inr ()) sample_batch sample_shards)
     = Inr [\<lparr>res_operation_id = ascii ''op-1'', res_status = Applied, res_balance = 5\<rparr>,
        \<lparr>res_operation_id = ascii ''op-2'', res_status = Applied, res_balance = 7\<rparr>,
        \<lparr>res_operation_id = ascii ''op-3'', res_status = Applied, res_balance = 3\<rparr>]"
  using apply_reserved_sequential [OF sample_shards_ok, of "\<lambda>s. True" sample_hash sample_batch IoError]
  by (auto simp: sample_merged sample_in_order)

text \<open>
  \<open>apply_preflight_batch\<close> answers in the order of the request: a new operation is
  reported as applied, with the balance after it and the new operations before it; an
  operation that was known is reported as duplicate with the published balance and is not
  applied again.  It never fails with a missing result.
\<close>
theorem apply_preflight_results:
  assumes "shards_ok hash shards" "\<forall>s < length shards. up s" "length new = length ops"
  shows "\<exists>shards'. apply_preflight_batch hash up (Inr ()) published ops new shards
      = (shards', Inr (map (\<lambda>i. if new ! i then applied_result (merged hash shards) ops new i
            else duplicate_result published (ops ! i)) [0..<length ops]))
    \<and> shards_ok hash shards'
    \<and> (\<forall>k. balance_at (merged hash shards') k = balance_at (merged hash shards) k + total_delta (fresh_ops ops new) k)"
  using apply_preflight_merged [OF assms(1) _ assms(3), of up published] assms(2) by (auto simp: apply_in_order_at)

lemma apply_preflight_results_witness:
  "snd (apply_preflight_batch sample_hash (\<lambda>s. True) (Inr ()) [(ascii ''bob'', ascii ''bolts'') \<mapsto> 9]
      sample_batch [True, False, True] sample_shards)
    = Inr [\<lparr>res_operation_id = ascii ''op-1'', res_status = Applied, res_balance = 5\<rparr>,
        \<lparr>res_operation_id = ascii ''op-2'', res_status = Duplicate, res_balance = 9\<rparr>,
        \<lparr>res_operation_id = ascii ''op-3'', res_status = Applied, res_balance = 3\<rparr>]"
proof -
  have "length [True, False, True] = length sample_batch" by (simp add: sample_batch_def)
  from apply_preflight_results [OF sample_shards_ok _ this, of "\<lambda>s. True" sample_hash "[(ascii ''bob'', ascii ''bolts'') \<mapsto> 9]"]
  show ?thesis
    by (auto simp: sample_merged sample_batch_def upt_rec applied_result_def duplicate_result_def fresh_ops_def
        balance_at_def) (simp_all add: sample_op_def ascii_def key_of_def)
qed

text \<open>
  The read path agrees with the write path.  However the publisher groups and orders
  the updates of the committed batches, once all of them are published every balance a
  query can see equals the balance of the owning shard.
\<close>
theorem published_matches_shards:
  assumes "shards_ok hash shards" "\<forall>s < length shards. up s"
    and "\<forall>(_, ops, new) \<in> set batches. length new = length ops"
    and "mset (concat commands) = mset (concat (map (\<lambda>(_, ops, new). publish_updates ops new) batches))"
    and "\<forall>k. balance_at published k = balance_at (merged hash shards) k"
  shows "balance (publish commands published) ow s = balance_at (merged hash (apply_all hash up batches shards)) (ow, s)"
proof -
  let ?k = "(ow, s)" and ?sum = "\<lambda>us. sum_list (map snd (filter (\<lambda>(k, _). k = (ow, s)) us))"
  have "?sum (concat commands) = ?sum (concat (map (\<lambda>(_, ops, new). publish_updates ops new) batches))"
    by (rule sum_list_mset_eq) (simp add: mset_map mset_filter assms(4))
  also have "\<dots> = sum_list (map (\<lambda>(_, ops, new). total_delta (fresh_ops ops new) ?k) batches)"
    by (induction batches) (auto simp: updates_total)
  finally show ?thesis
    using apply_all_at [OF assms(1) _ assms(3), of up ?k] assms(2,5) by (simp add: balance_def publish_at)
qed

lemma published_matches_shards_witness:
  "balance (publish [[((ascii ''ann'', ascii ''bolt''), - 2), ((ascii ''bob'', ascii ''bolts''), 7)],
      [((ascii ''ann'', ascii ''bolt''), 5)]] Map.empty) (ascii ''ann'') (ascii ''bolt'')
    = balance_at (merged sample_hash (apply_all sample_hash (\<lambda>s. True)
        [(Map.empty, sample_batch, [True, True, True])] sample_shards)) (ascii ''ann'', ascii ''bolt'')"
proof (rule published_matches_shards [OF sample_shards_ok])
  show "mset (concat [[((ascii ''ann'', ascii ''bolt''), - 2), ((ascii ''bob'', ascii ''bolts''), 7)],
      [((ascii ''ann'', ascii ''bolt''), 5)]])
    = mset (concat (map (\<lambda>(_, ops, new). publish_updates ops new)
        [(Map.empty :: balances, sample_batch, [True, True, True])]))"
    by (simp add: publish_updates_def sample_batch_def sample_op_def key_of_def)
qed (simp_all add: sample_merged sample_batch_def)

text \<open>
  The owner summary lists exactly the owner's published positions, each once, in
  ascending order of the SKU, whatever the iteration order of the map; its total is their
  sum.
\<close>
theorem owner_positions_exact:
  assumes "iterates iter" "finite (dom published)"
  shows "sorted (map fst (balances_by_owner iter published ow)) \<and> distinct (map fst (balances_by_owner iter published ow))
    \<and> (\<forall>s b. (s, b) \<in> set (balances_by_owner iter published ow) \<longleftrightarrow> published (ow, s) = Some b)
    \<and> owner_total (balances_by_owner iter published ow)
        = (\<Sum>s \<in> {s. (ow, s) \<in> dom published}. balance published ow s)"
proof -
  let ?rows = "map (\<lambda>((_, s), b). (s, b)) (filter (\<lambda>((o', _), _). o' = ow) (iter published))"
  let ?r = "balances_by_owner iter published ow"
  have it: "distinct (map fst (iter published))" "map_of (iter published) = published"
    using assms by (simp_all add: iterates_def)
  have mem: "(s, b) \<in> set ?rows \<longleftrightarrow> published (ow, s) = Some b" for s b
    using map_of_eq_Some_iff [OF it(1), of "(ow, s)" b] unfolding it(2) by (force simp: image_iff)
  have dist: "distinct (map fst ?rows)"
    using it(1) by (fastforce simp: distinct_map inj_on_def)
  have r: "mset ?r = mset ?rows" by (simp add: balances_by_owner_def)
  have "mset (map fst ?r) = mset (map fst ?rows)" by (simp only: mset_map r)
  from mset_eq_imp_distinct_iff [OF this] dist have "distinct (map fst ?r)" by blast
  moreover have "sorted (map fst ?r)" by (simp add: balances_by_owner_def)
  moreover have mem': "(s, b) \<in> set ?r \<longleftrightarrow> published (ow, s) = Some b" for s b
    using mem mset_eq_setD [OF r] by simp
  moreover have "owner_total ?r = (\<Sum>s \<in> {s. (ow, s) \<in> dom published}. balance published ow s)"
  proof -
    have keys: "fst ` set ?r = {s. (ow, s) \<in> dom published}" using mem' by force
    have "map snd ?r = map (\<lambda>s. balance published ow s) (map fst ?r)"
      using mem' by (auto simp: balance_def balance_at_def)
    then have "owner_total ?r = sum_list (map (balance published ow) (map fst ?r))" by (simp only: owner_total_def)
    also have "\<dots> = (\<Sum>s \<in> set (map fst ?r). balance published ow s)"
      by (rule sum_list_distinct_conv_sum_set) fact
    finally show ?thesis by (simp only: set_map keys)
  qed
  ultimately show ?thesis by blast
qed

definition iter_sorted :: "balances \<Rightarrow> (key \<times> i64) list" where
  "iter_sorted m = map (\<lambda>k. (k, balance_at m k)) (sorted_list_of_set (dom m))"

lemma iter_sorted_iterates: "iterates iter_sorted"
  unfolding iterates_def
proof (intro allI impI conjI ext)
  fix m :: balances and k
  assume fin: "finite (dom m)"
  then show "distinct (map fst (iter_sorted m))" by (simp add: iter_sorted_def comp_def)
  from fin show "map_of (iter_sorted m) k = m k"
    by (auto simp: iter_sorted_def map_of_map_restrict restrict_map_def balance_at_def split: option.splits)
qed

lemma owner_positions_exact_witness:
  "(ascii ''bolt'', 5) \<in> set (balances_by_owner iter_sorted [(ascii ''ann'', ascii ''bolt'') \<mapsto> 5] (ascii ''ann''))"
  using owner_positions_exact [OF iter_sorted_iterates, of "[(ascii ''ann'', ascii ''bolt'') \<mapsto> 5]" "ascii ''ann''"]
  by simp

end
