(* ===== verification/ReservationSteps.thy ===== *)
theory ReservationSteps
  imports Reservation
begin

text \<open>
  Concurrent requests over the reservation table.  A request moves through phases, one
  critical section at a time; the persistence task writes committed entries to the disk
  index and then drops them from the memory; a request may be cancelled anywhere (its
  future is dropped) and a disk lookup may fail.  The interface of the disk index is the
  locale \<open>dedup_index\<close>; \<open>DiskDedup\<close> provides it.  Ghost fields record the operations that
  were applied and the fingerprints the service has accepted.
\<close>

section \<open>The interface of the disk index\<close>

record 'd index_api =
  ix_get_many :: "'d \<Rightarrow> bytes list \<Rightarrow> bytes option list result"
  ix_insert_many :: "unit result \<Rightarrow> (bytes \<times> bytes) list \<Rightarrow> 'd \<Rightarrow> unit result \<times> 'd"

locale dedup_index =
  fixes api :: "'d index_api" and lookup :: "'d \<Rightarrow> bytes \<Rightarrow> bytes option" and good :: "'d \<Rightarrow> bool"
  assumes get_many: "good d \<Longrightarrow> ix_get_many api d keys = Inr (map (lookup d) keys)"
    and insert_many: "good d \<Longrightarrow> entries_ok es \<Longrightarrow> ix_insert_many api (Inr ()) es d = (r, d') \<Longrightarrow>
      r = Inr () \<and> good d' \<and> lookup d' = lookup d ++ map_of (rev es)"
    and insert_fails: "ix_insert_many api (Inl e) es d = (r, d') \<Longrightarrow> d' = d \<and> (r = Inr () \<longrightarrow> es = [])"

definition disk_index_api :: "'l kv_api \<Rightarrow> 'r kv_api \<Rightarrow> ('l, 'r) disk index_api" where
  "disk_index_api lsm red = \<lparr>ix_get_many = disk_get_many lsm red, ix_insert_many = disk_insert_many lsm\<rparr>"

sublocale disk_laws \<subseteq> index: dedup_index "disk_index_api lsm red" "disk_index lc rc"
  "\<lambda>d. disk_ok lc rc d \<and> filter_ok lc rc d"
proof
  fix d keys
  assume d: "disk_ok lc rc d \<and> filter_ok lc rc d"
  then have "collect_results (disk_get lsm red d) keys = Inr (map (disk_index lc rc d) keys)"
    by (intro collect_results_map) (simp add: get_filter_ok)
  then show "ix_get_many (disk_index_api lsm red) d keys = Inr (map (disk_index lc rc d) keys)"
    by (simp add: disk_index_api_def get_many_iff [OF red.open_ok])
next
  fix d es r d'
  assume d: "disk_ok lc rc d \<and> filter_ok lc rc d" "entries_ok es"
    and ins: "ix_insert_many (disk_index_api lsm red) (Inr ()) es d = (r, d')"
  then have r: "r = Inr ()" by (auto simp: disk_index_api_def disk_insert_many_def split: if_splits)
  with ins insert_many_Inr [of d es d'] d
  show "r = Inr () \<and> (disk_ok lc rc d' \<and> filter_ok lc rc d') \<and>
      disk_index lc rc d' = disk_index lc rc d ++ map_of (rev es)"
    by (auto simp: disk_index_api_def)
next
  fix e es d r d'
  assume "ix_insert_many (disk_index_api lsm red) (Inl e) es d = (r, d')"
  then show "d' = d \<and> (r = Inr () \<longrightarrow> es = [])"
    by (auto simp: disk_index_api_def disk_insert_many_def split: if_splits)
qed

interpretation alist_index: dedup_index "disk_index_api alist_api alist_api" "disk_index alist_of alist_of"
  "\<lambda>d. disk_ok alist_of alist_of d \<and> filter_ok alist_of alist_of d"
  by (rule alist_disk.index.dedup_index_axioms)

section \<open>Requests and steps\<close>

datatype phase =
    Reserving nat
  | RollingBack nat stop
  | Waiting nat
  | Holding
  | Finishing nat bool "nat list" "(bytes \<times> bytes) list"
  | Answered "error + bool list"
  | Lost "bytes list"

record request =
  r_ops :: "operation list"
  r_unique :: "nat list"
  r_id :: nat
  r_new :: "bool list"
  r_reserved :: "bytes list"
  r_phase :: phase

record 'd system =
  sys_mem :: memory
  sys_disk :: 'd
  sys_requests :: "nat \<Rightarrow> request option"
  sys_next :: nat
  sys_notified :: "nat set"
  sys_queue :: "(bytes \<times> bytes) list list"
  sys_removing :: "(bytes \<times> bytes) list"
  sys_applied :: "(bytes \<times> bytes) list"
  sys_ledger :: "bytes \<Rightarrow> bytes option"

text \<open>The keys a request has reserved and not yet given back.\<close>

fun held_in :: "phase \<Rightarrow> bytes list \<Rightarrow> bytes list" where
  "held_in (Reserving s) ks = ks"
| "held_in (RollingBack s x) ks = filter (\<lambda>k. s \<le> dedup_shard k) ks"
| "held_in (Waiting n) ks = []"
| "held_in Holding ks = ks"
| "held_in (Finishing s c notif es) ks = filter (\<lambda>k. s \<le> dedup_shard k) ks"
| "held_in (Answered a) ks = []"
| "held_in (Lost kept) ks = kept"

abbreviation held :: "request \<Rightarrow> bytes list" where
  "held r \<equiv> held_in (r_phase r) (r_reserved r)"

definition fresh :: "(bytes \<Rightarrow> bytes) \<Rightarrow> request \<Rightarrow> (bytes \<times> bytes) list" where
  "fresh sha r = map (\<lambda>(op, _). (sha (operation_id op), fingerprint sha op)) (filter snd (zip (r_ops r) (r_new r)))"

fun active :: "phase \<Rightarrow> bool" where
  "active (Answered _) = False" | "active (Lost _) = False" | "active _ = True"

definition new_request :: "operation list \<Rightarrow> nat list \<Rightarrow> nat \<Rightarrow> request" where
  "new_request ops unique rid = \<lparr>r_ops = ops, r_unique = unique, r_id = rid,
     r_new = replicate (length ops) False, r_reserved = [], r_phase = Reserving 0\<rparr>"

definition put_request :: "nat \<Rightarrow> request \<Rightarrow> 'd system \<Rightarrow> 'd system" where
  "put_request p r s = s\<lparr>sys_requests := (sys_requests s)(p \<mapsto> r)\<rparr>"

definition disk_lookup :: "'d index_api \<Rightarrow> error option \<Rightarrow> 'd \<Rightarrow> bytes list \<Rightarrow> bytes option list result" where
  "disk_lookup api fault d keys = (case fault of None \<Rightarrow> ix_get_many api d keys | Some e \<Rightarrow> Inl e)"

inductive sys_step :: "(bytes \<Rightarrow> bytes) \<Rightarrow> 'd index_api \<Rightarrow> bytes set \<Rightarrow> 'd system \<Rightarrow> 'd system \<Rightarrow> bool"
  for sha api ids where
  arrive: "sys_requests s p = None \<Longrightarrow> operation_id ` set ops \<subseteq> ids \<Longrightarrow>
     preflight_unique sha Map.empty 0 ops [] = Inr unique \<Longrightarrow>
     sys_step sha api ids s (put_request p (new_request ops unique (sys_next s)) s\<lparr>sys_next := Suc (sys_next s)\<rparr>)"
| reserve: "sys_requests s p = Some r \<Longrightarrow> r_phase r = Reserving i \<Longrightarrow> i < STATE_SHARDS \<Longrightarrow>
     reserve_shard (disk_lookup api fault (sys_disk s)) (r_id r) (prepared sha (r_ops r)) (r_ops r) (r_unique r) i
       (sys_mem s, r_new r, r_reserved r) = Inr ((mem', new', res'), x) \<Longrightarrow>
     sys_step sha api ids s (put_request p (r\<lparr>r_new := new', r_reserved := res',
         r_phase := (case x of None \<Rightarrow> Reserving (Suc i) | Some y \<Rightarrow> RollingBack 0 y)\<rparr>) s\<lparr>sys_mem := mem'\<rparr>)"
| reserve_fails: "sys_requests s p = Some r \<Longrightarrow> r_phase r = Reserving i \<Longrightarrow> i < STATE_SHARDS \<Longrightarrow>
     reserve_shard (disk_lookup api fault (sys_disk s)) (r_id r) (prepared sha (r_ops r)) (r_ops r) (r_unique r) i
       (sys_mem s, r_new r, r_reserved r) = Inl e \<Longrightarrow>
     sys_step sha api ids s (put_request p (r\<lparr>r_phase := Lost (held r)\<rparr>) s)"
| hold: "sys_requests s p = Some r \<Longrightarrow> r_phase r = Reserving STATE_SHARDS \<Longrightarrow>
     sys_step sha api ids s (put_request p (r\<lparr>r_phase := Holding\<rparr>) s)"
| rollback: "sys_requests s p = Some r \<Longrightarrow> r_phase r = RollingBack i x \<Longrightarrow> i < STATE_SHARDS \<Longrightarrow>
     sys_step sha api ids s (put_request p (r\<lparr>r_phase := RollingBack (Suc i) x\<rparr>)
       s\<lparr>sys_mem := rollback_shard (r_id r) (r_reserved r) i (sys_mem s)\<rparr>)"
| rolled_back: "sys_requests s p = Some r \<Longrightarrow> r_phase r = RollingBack STATE_SHARDS x \<Longrightarrow>
     sys_step sha api ids s (put_request p (r\<lparr>r_phase := (case x of
         WaitFor n \<Rightarrow> Waiting n | Conflict c \<Rightarrow> Answered (Inl (ConflictError c)))\<rparr>)
       s\<lparr>sys_notified := insert (r_id r) (sys_notified s)\<rparr>)"
| wake: "sys_requests s p = Some r \<Longrightarrow> r_phase r = Waiting n \<Longrightarrow> n \<in> sys_notified s \<Longrightarrow>
     sys_step sha api ids s (put_request p (new_request (r_ops r) (r_unique r) (sys_next s)) s\<lparr>sys_next := Suc (sys_next s)\<rparr>)"
| apply_ops: "sys_requests s p = Some r \<Longrightarrow> r_phase r = Holding \<Longrightarrow>
     sys_step sha api ids s (put_request p (r\<lparr>r_phase := Finishing 0 True [] []\<rparr>)
       s\<lparr>sys_applied := sys_applied s @ fresh sha r, sys_ledger := sys_ledger s ++ map_of (fresh sha r)\<rparr>)"
| give_up: "sys_requests s p = Some r \<Longrightarrow> r_phase r = Holding \<Longrightarrow>
     sys_step sha api ids s (put_request p (r\<lparr>r_phase := Finishing 0 False [] []\<rparr>) s)"
| finish: "sys_requests s p = Some r \<Longrightarrow> r_phase r = Finishing i c notif es \<Longrightarrow> i < STATE_SHARDS \<Longrightarrow>
     finish_shard c (new_keys sha (r_ops r) (r_new r)) i (sys_mem s, notif, es) = (mem', notif', es') \<Longrightarrow>
     sys_step sha api ids s (put_request p (r\<lparr>r_phase := Finishing (Suc i) c notif' es'\<rparr>) s\<lparr>sys_mem := mem'\<rparr>)"
| finished: "sys_requests s p = Some r \<Longrightarrow> r_phase r = Finishing STATE_SHARDS c notif es \<Longrightarrow>
     sys_step sha api ids s (put_request p (r\<lparr>r_phase := Answered (if c then Inr (r_new r) else Inl IoError)\<rparr>)
       s\<lparr>sys_notified := set notif \<union> sys_notified s,
         sys_queue := sys_queue s @ (if c \<and> es \<noteq> [] then [es] else [])\<rparr>)"
| persist: "sys_removing s = [] \<Longrightarrow> combined = concat (take n (sys_queue s)) \<Longrightarrow> 0 < n \<Longrightarrow> n \<le> length (sys_queue s) \<Longrightarrow>
     ix_insert_many api commit (persist_sorted combined) (sys_disk s) = (outcome, d') \<Longrightarrow>
     sys_step sha api ids s (s\<lparr>sys_disk := d', sys_queue := drop n (sys_queue s),
       sys_removing := (case outcome of Inr _ \<Rightarrow> combined | Inl _ \<Rightarrow> [])\<rparr>)"
| forget: "sys_removing s = e # es \<Longrightarrow>
     sys_step sha api ids s (s\<lparr>sys_mem := persist_forget e (sys_mem s), sys_removing := es\<rparr>)"
| cancel: "sys_requests s p = Some r \<Longrightarrow> active (r_phase r) \<Longrightarrow>
     sys_step sha api ids s (put_request p (r\<lparr>r_phase := Lost (held r)\<rparr>) s)"

definition sys_init :: "(bytes \<Rightarrow> bytes option) \<Rightarrow> 'd \<Rightarrow> 'd system" where
  "sys_init ledger d = \<lparr>sys_mem = replicate STATE_SHARDS Map.empty, sys_disk = d, sys_requests = Map.empty,
     sys_next = 0, sys_notified = {}, sys_queue = [], sys_removing = [], sys_applied = [], sys_ledger = ledger\<rparr>"

section \<open>The invariant\<close>

fun tentative :: "phase \<Rightarrow> bool" where
  "tentative (Reserving _) = True"
| "tentative (RollingBack _ _) = True"
| "tentative Holding = True"
| "tentative (Finishing _ c _ _) = (\<not> c)"
| "tentative _ = False"

text \<open>The indices a request has been through.\<close>

fun scanned :: "phase \<Rightarrow> bytes \<Rightarrow> bool" where
  "scanned (Reserving s) k = (dedup_shard k < s)"
| "scanned Holding k = True"
| "scanned (Finishing _ _ _ _) k = True"
| "scanned (Answered (Inr _)) k = True"
| "scanned _ k = False"

definition key_at :: "(bytes \<Rightarrow> bytes) \<Rightarrow> request \<Rightarrow> nat \<Rightarrow> bytes" where
  "key_at sha r i = fst (prepared sha (r_ops r) ! i)"

definition fp_at :: "(bytes \<Rightarrow> bytes) \<Rightarrow> request \<Rightarrow> nat \<Rightarrow> bytes" where
  "fp_at sha r i = snd (prepared sha (r_ops r) ! i)"

definition shape_ok :: "(bytes \<Rightarrow> bytes) \<Rightarrow> request \<Rightarrow> bool" where
  "shape_ok sha r \<longleftrightarrow>
     unique_ok sha (r_ops r) (length (r_ops r)) (r_unique r)
     \<and> distinct (map (key_at sha r) (r_unique r))
     \<and> length (r_new r) = length (r_ops r)
     \<and> (\<forall>i < length (r_ops r). r_new r ! i \<longrightarrow> i \<in> set (r_unique r))
     \<and> set (r_reserved r) = fst ` set (fresh sha r)
     \<and> set (held r) \<subseteq> set (r_reserved r)"

lemma fresh_conv:
  "length (r_new r) = length (r_ops r) \<Longrightarrow>
     fresh sha r = map (\<lambda>i. (key_at sha r i, fp_at sha r i)) (filter (\<lambda>i. r_new r ! i) [0..<length (r_ops r)])"
proof -
  assume len: "length (r_new r) = length (r_ops r)"
  have zip: "zip (r_ops r) (r_new r) = map (\<lambda>i. (r_ops r ! i, r_new r ! i)) [0..<length (r_ops r)]"
    using len by (intro nth_equalityI) simp_all
  show ?thesis
    unfolding fresh_def zip filter_map
    by (auto simp: comp_def key_at_def fp_at_def prepared_nth)
qed

lemma fresh_mem:
  "shape_ok sha r \<Longrightarrow> (k, f) \<in> set (fresh sha r) \<longleftrightarrow>
     (\<exists>i \<in> set (r_unique r). r_new r ! i \<and> k = key_at sha r i \<and> f = fp_at sha r i)"
  by (auto simp: shape_ok_def fresh_conv unique_ok_def image_iff)

lemma fresh_distinct:
  assumes "shape_ok sha r"
  shows "distinct (map fst (fresh sha r))"
proof -
  have inj: "inj_on (key_at sha r) (set (r_unique r))"
    using assms by (simp add: shape_ok_def distinct_map)
  have sub: "set (filter (\<lambda>i. r_new r ! i) [0..<length (r_ops r)]) \<subseteq> set (r_unique r)"
    using assms by (auto simp: shape_ok_def)
  show ?thesis
    using assms inj_on_subset [OF inj sub]
    by (simp add: shape_ok_def fresh_conv comp_def distinct_map)
qed

lemma new_keys_fresh: "new_keys sha (r_ops r) (r_new r) = map fst (fresh sha r)"
  by (simp add: new_keys_def fresh_def comp_def case_prod_beta)

definition phase_inv :: "(bytes \<Rightarrow> bytes) \<Rightarrow> (bytes \<Rightarrow> bytes option) \<Rightarrow> request \<Rightarrow> phase \<Rightarrow> bool" where
  "phase_inv sha ledger r ph \<longleftrightarrow>
     (case ph of
        Finishing i c notif es \<Rightarrow> (c \<longrightarrow> (\<forall>(k, f) \<in> set (fresh sha r). ledger k = Some f))
            \<and> (\<forall>(k, f) \<in> set es. ledger k = Some f \<and> length k = 32 \<and> length f = 32)
      | Answered (Inr new) \<Rightarrow> new = r_new r \<and> (\<forall>(k, f) \<in> set (fresh sha r). ledger k = Some f)
      | _ \<Rightarrow> True)"

definition request_inv :: "(bytes \<Rightarrow> bytes) \<Rightarrow> memory \<Rightarrow> (bytes \<Rightarrow> bytes option) \<Rightarrow> request \<Rightarrow> bool" where
  "request_inv sha mem ledger r \<longleftrightarrow>
     shape_ok sha r
     \<and> (\<forall>(k, f) \<in> set (fresh sha r). k \<in> set (held r) \<longrightarrow> mem_at mem k = Some (Pending (Some f) (r_id r)))
     \<and> (tentative (r_phase r) \<longrightarrow> (\<forall>k \<in> set (held r). ledger k = None))
     \<and> (\<forall>i \<in> set (r_unique r). scanned (r_phase r) (key_at sha r i) \<longrightarrow>
          r_new r ! i \<or> ledger (key_at sha r i) = Some (fp_at sha r i))
     \<and> phase_inv sha ledger r (r_phase r)"

definition sys_inv ::
  "(bytes \<Rightarrow> bytes) \<Rightarrow> ('d \<Rightarrow> bytes \<Rightarrow> bytes option) \<Rightarrow> ('d \<Rightarrow> bool) \<Rightarrow> 'd system \<Rightarrow> bool" where
  "sys_inv sha lookup good s \<longleftrightarrow>
     mem_ok (sys_mem s) \<and> good (sys_disk s)
     \<and> (\<forall>p r. sys_requests s p = Some r \<longrightarrow> request_inv sha (sys_mem s) (sys_ledger s) r \<and> r_id r < sys_next s)
     \<and> (\<forall>p q a b. sys_requests s p = Some a \<longrightarrow> sys_requests s q = Some b \<longrightarrow> r_id a = r_id b \<longrightarrow> p = q)
     \<and> (\<forall>k f n. mem_at (sys_mem s) k = Some (Pending f n) \<longrightarrow>
          (\<exists>p r. sys_requests s p = Some r \<and> r_id r = n \<and> k \<in> set (held r)))
     \<and> (\<forall>k f. mem_at (sys_mem s) k = Some (Committed f) \<longrightarrow> sys_ledger s k = Some f)
     \<and> (\<forall>k f. lookup (sys_disk s) k = Some f \<longrightarrow> sys_ledger s k = Some f)
     \<and> (\<forall>k. sys_ledger s k \<noteq> None \<longrightarrow> mem_at (sys_mem s) k \<noteq> None \<or> lookup (sys_disk s) k \<noteq> None)
     \<and> (\<forall>(k, f) \<in> set (concat (sys_queue s)). sys_ledger s k = Some f \<and> length k = 32 \<and> length f = 32)
     \<and> (\<forall>(k, f) \<in> set (sys_removing s). lookup (sys_disk s) k \<noteq> None)
     \<and> distinct (map fst (sys_applied s))
     \<and> (\<forall>(k, f) \<in> set (sys_applied s). sys_ledger s k = Some f)"

lemma sys_init_inv:
  "good d \<Longrightarrow> sys_inv sha lookup good (sys_init (lookup d) d)"
  by (auto simp: sys_inv_def sys_init_def mem_ok_def mem_at_def)

section \<open>Frames\<close>

lemma request_inv_shape: "request_inv sha mem L r \<Longrightarrow> shape_ok sha r"
  by (simp add: request_inv_def)

lemma held_pending:
  assumes "request_inv sha mem L r" "k \<in> set (held r)"
  shows "\<exists>f. (k, f) \<in> set (fresh sha r) \<and> mem_at mem k = Some (Pending (Some f) (r_id r))"
proof -
  from assms have "k \<in> fst ` set (fresh sha r)"
    by (auto simp: request_inv_def shape_ok_def)
  then obtain f where "(k, f) \<in> set (fresh sha r)" by auto
  with assms show ?thesis by (auto simp: request_inv_def)
qed

lemma fresh_pending:
  "request_inv sha mem L r \<Longrightarrow> (k, f) \<in> set (fresh sha r) \<Longrightarrow> k \<in> set (held r) \<Longrightarrow>
     mem_at mem k = Some (Pending (Some f) (r_id r))"
  unfolding request_inv_def by blast

lemma fresh_reserved: "shape_ok sha r \<Longrightarrow> (k, f) \<in> set (fresh sha r) \<Longrightarrow> k \<in> set (r_reserved r)"
  unfolding shape_ok_def by (metis fst_conv image_eqI)

lemma held_own_pending:
  "request_inv sha mem L r \<Longrightarrow> k \<in> set (held r) \<Longrightarrow> own_pending (r_id r) (mem_at mem k)"
  using held_pending by (fastforce simp: own_pending_def)

lemma map_le_Some: "L \<subseteq>\<^sub>m L' \<Longrightarrow> L k = Some f \<Longrightarrow> L' k = Some f"
  by (auto simp: map_le_def dom_def)

lemma request_inv_frame:
  assumes "request_inv sha mem L a" "L \<subseteq>\<^sub>m L'"
    and "\<And>k. k \<in> set (held a) \<Longrightarrow> mem_at mem' k = mem_at mem k"
    and "\<And>k. k \<in> set (held a) \<Longrightarrow> L k = None \<Longrightarrow> L' k = None"
  shows "request_inv sha mem' L' a"
proof -
  have "phase_inv sha L a ph \<Longrightarrow> phase_inv sha L' a ph" for ph
    unfolding phase_inv_def
    by (cases ph) (auto split: sum.splits dest: map_le_Some [OF assms(2)])
  with assms show ?thesis unfolding request_inv_def
    by (auto dest: map_le_Some [OF assms(2)])
qed

lemma sys_invD:
  assumes "sys_inv sha lookup good s"
  shows "mem_ok (sys_mem s)" "good (sys_disk s)"
    and "sys_requests s p = Some r \<Longrightarrow> request_inv sha (sys_mem s) (sys_ledger s) r"
    and "sys_requests s p = Some r \<Longrightarrow> r_id r < sys_next s"
    and "sys_requests s p = Some a \<Longrightarrow> sys_requests s q = Some b \<Longrightarrow> r_id a = r_id b \<Longrightarrow> p = q"
    and "mem_at (sys_mem s) k = Some (Pending f' n) \<Longrightarrow>
      \<exists>p r. sys_requests s p = Some r \<and> r_id r = n \<and> k \<in> set (held r)"
    and "mem_at (sys_mem s) k = Some (Committed f) \<Longrightarrow> sys_ledger s k = Some f"
    and "lookup (sys_disk s) k = Some f \<Longrightarrow> sys_ledger s k = Some f"
    and "sys_ledger s k \<noteq> None \<Longrightarrow> mem_at (sys_mem s) k \<noteq> None \<or> lookup (sys_disk s) k \<noteq> None"
    and "\<forall>(k, f) \<in> set (concat (sys_queue s)). sys_ledger s k = Some f \<and> length k = 32 \<and> length f = 32"
    and "\<forall>(k, f) \<in> set (sys_removing s). lookup (sys_disk s) k \<noteq> None"
    and "distinct (map fst (sys_applied s))"
    and "\<forall>(k, f) \<in> set (sys_applied s). sys_ledger s k = Some f"
  using assms unfolding sys_inv_def by blast+

lemma sys_invI:
  assumes "mem_ok (sys_mem s)" "good (sys_disk s)"
    and "\<And>p r. sys_requests s p = Some r \<Longrightarrow> request_inv sha (sys_mem s) (sys_ledger s) r"
    and "\<And>p r. sys_requests s p = Some r \<Longrightarrow> r_id r < sys_next s"
    and "\<And>p q a b. sys_requests s p = Some a \<Longrightarrow> sys_requests s q = Some b \<Longrightarrow> r_id a = r_id b \<Longrightarrow> p = q"
    and "\<And>k f n. mem_at (sys_mem s) k = Some (Pending f n) \<Longrightarrow>
      \<exists>p r. sys_requests s p = Some r \<and> r_id r = n \<and> k \<in> set (held r)"
    and "\<And>k f. mem_at (sys_mem s) k = Some (Committed f) \<Longrightarrow> sys_ledger s k = Some f"
    and "\<And>k f. lookup (sys_disk s) k = Some f \<Longrightarrow> sys_ledger s k = Some f"
    and "\<And>k. sys_ledger s k \<noteq> None \<Longrightarrow> mem_at (sys_mem s) k \<noteq> None \<or> lookup (sys_disk s) k \<noteq> None"
    and "\<forall>(k, f) \<in> set (concat (sys_queue s)). sys_ledger s k = Some f \<and> length k = 32 \<and> length f = 32"
    and "\<forall>(k, f) \<in> set (sys_removing s). lookup (sys_disk s) k \<noteq> None"
    and "distinct (map fst (sys_applied s))"
    and "\<forall>(k, f) \<in> set (sys_applied s). sys_ledger s k = Some f"
  shows "sys_inv sha lookup good s"
  unfolding sys_inv_def
  apply (intro conjI allI impI)
  subgoal by (rule assms(1))
  subgoal by (rule assms(2))
  subgoal by (rule assms(3))
  subgoal by (rule assms(4))
  subgoal by (rule assms(5))
  subgoal by (rule assms(6))
  subgoal by (rule assms(7))
  subgoal by (rule assms(8))
  subgoal by (rule assms(9))
  subgoal by (rule assms(10))
  subgoal by (rule assms(11))
  subgoal by (rule assms(12))
  subgoal by (rule assms(13))
  done

text \<open>A step of one request that touches only free keys and keys it holds itself.\<close>

lemma sys_inv_update:
  assumes inv: "sys_inv sha lookup good s" and r: "sys_requests s p = Some r"
    and fields: "sys_requests s' = (sys_requests s)(p \<mapsto> r')" "sys_disk s' = sys_disk s"
      "sys_removing s' = sys_removing s" "sys_next s' = sys_next s" "r_id r' = r_id r"
    and ok: "mem_ok (sys_mem s')" "request_inv sha (sys_mem s') (sys_ledger s') r'"
    and changed: "\<And>k. mem_at (sys_mem s') k \<noteq> mem_at (sys_mem s) k \<Longrightarrow>
      mem_at (sys_mem s) k = None \<or> own_pending (r_id r) (mem_at (sys_mem s) k)"
    and ledger: "sys_ledger s \<subseteq>\<^sub>m sys_ledger s'"
      "\<And>k. sys_ledger s k = None \<Longrightarrow> sys_ledger s' k \<noteq> None \<Longrightarrow> own_pending (r_id r) (mem_at (sys_mem s) k)"
    and pend: "\<And>k f n. mem_at (sys_mem s') k = Some (Pending f n) \<Longrightarrow>
      (n \<noteq> r_id r \<and> mem_at (sys_mem s) k = Some (Pending f n)) \<or> (n = r_id r \<and> k \<in> set (held r'))"
    and comm: "\<And>k f. mem_at (sys_mem s') k = Some (Committed f) \<Longrightarrow> sys_ledger s' k = Some f"
    and kept: "\<And>k. sys_ledger s' k \<noteq> None \<Longrightarrow> mem_at (sys_mem s') k \<noteq> None \<or> lookup (sys_disk s) k \<noteq> None"
    and queue: "\<forall>(k, f) \<in> set (concat (sys_queue s')). sys_ledger s' k = Some f \<and> length k = 32 \<and> length f = 32"
    and applied: "distinct (map fst (sys_applied s'))" "\<forall>(k, f) \<in> set (sys_applied s'). sys_ledger s' k = Some f"
  shows "sys_inv sha lookup good s'"
proof -
  have other: "request_inv sha (sys_mem s') (sys_ledger s') a"
    if "sys_requests s q = Some a" "q \<noteq> p" for q a
  proof (rule request_inv_frame [OF sys_invD(3) [OF inv that(1)] ledger(1)])
    have id: "r_id a \<noteq> r_id r" using sys_invD(5) [OF inv that(1) r] that(2) by blast
    fix k
    assume "k \<in> set (held a)"
    from held_pending [OF sys_invD(3) [OF inv \<open>sys_requests s q = Some a\<close>] this]
    obtain f where "mem_at (sys_mem s) k = Some (Pending (Some f) (r_id a))" by blast
    with id have not: "mem_at (sys_mem s) k \<noteq> None" "\<not> own_pending (r_id r) (mem_at (sys_mem s) k)"
      by (auto simp: own_pending_def)
    show "mem_at (sys_mem s') k = mem_at (sys_mem s) k" using changed [of k] not by metis
    show "sys_ledger s k = None \<Longrightarrow> sys_ledger s' k = None" using ledger(2) [of k] not by metis
  qed
  have pending: "\<exists>q a. sys_requests s' q = Some a \<and> r_id a = n \<and> k \<in> set (held a)"
    if "mem_at (sys_mem s') k = Some (Pending f n)" for k f n
    using pend [OF that]
  proof
    assume n: "n \<noteq> r_id r \<and> mem_at (sys_mem s) k = Some (Pending f n)"
    then obtain q a where a: "sys_requests s q = Some a" "r_id a = n" "k \<in> set (held a)"
      using sys_invD(6) [OF inv] by blast
    with n r have "q \<noteq> p" by auto
    with a show ?thesis using fields(1) by auto
  qed (use fields in auto)
  have ids: "q = q'" if "sys_requests s' q = Some a" "sys_requests s' q' = Some b" "r_id a = r_id b" for q q' a b
    using that inv r fields(1,5) by (auto simp: sys_inv_def split: if_splits)
  show ?thesis
  proof (rule sys_invI)
    show "request_inv sha (sys_mem s') (sys_ledger s') a" if "sys_requests s' q = Some a" for q a
      using that ok(2) other fields(1) by (auto split: if_splits)
    show "r_id a < sys_next s'" if "sys_requests s' q = Some a" for q a
      using that sys_invD(4) [OF inv] r fields by (auto split: if_splits)
    show "lookup (sys_disk s') k = Some f \<Longrightarrow> sys_ledger s' k = Some f" for k f
      using sys_invD(8) [OF inv] fields(2) map_le_Some [OF ledger(1)] by simp
    show "good (sys_disk s')" "\<forall>(k, f) \<in> set (sys_removing s'). lookup (sys_disk s') k \<noteq> None"
      using sys_invD(2,11) [OF inv] fields by simp_all
    show "sys_ledger s' k \<noteq> None \<Longrightarrow> mem_at (sys_mem s') k \<noteq> None \<or> lookup (sys_disk s') k \<noteq> None" for k
      using kept fields by simp
  qed (fact ok(1) ids pending comm queue applied)+
qed

text \<open>A request that starts (again) with a fresh reservation id.\<close>

lemma new_request_inv:
  assumes "unique_ok sha ops (length ops) unique" "distinct (map (\<lambda>i. fst (prepared sha ops ! i)) unique)"
  shows "request_inv sha mem L (new_request ops unique rid)"
proof -
  have "fresh sha (new_request ops unique rid) = []"
    by (subst fresh_conv) (simp_all add: new_request_def filter_empty_conv)
  with assms show ?thesis
    by (simp add: request_inv_def phase_inv_def shape_ok_def new_request_def key_at_def [abs_def])
qed

lemma sys_inv_arrive:
  assumes inv: "sys_inv sha lookup good s" and free: "\<And>r. sys_requests s p = Some r \<Longrightarrow> held r = []"
    and "unique_ok sha ops (length ops) unique" "distinct (map (\<lambda>i. fst (prepared sha ops ! i)) unique)"
  shows "sys_inv sha lookup good (put_request p (new_request ops unique (sys_next s)) s\<lparr>sys_next := Suc (sys_next s)\<rparr>)"
proof -
  define r where "r = new_request ops unique (sys_next s)"
  have inv_r: "request_inv sha (sys_mem s) (sys_ledger s) r" unfolding r_def by (rule new_request_inv [OF assms(3,4)])
  have id: "r_id r = sys_next s" by (simp add: r_def new_request_def)
  have old: "r_id a < sys_next s" if "sys_requests s q = Some a" for q a
    by (rule sys_invD(4) [OF inv that])
  have pending: "\<exists>q a. ((sys_requests s)(p \<mapsto> r)) q = Some a \<and> r_id a = n \<and> k \<in> set (held a)"
    if "mem_at (sys_mem s) k = Some (Pending f n)" for k f n
  proof -
    from sys_invD(6) [OF inv that] obtain q a where a: "sys_requests s q = Some a" "r_id a = n" "k \<in> set (held a)"
      by blast
    with free have "q \<noteq> p" by auto
    with a show ?thesis by auto
  qed
  have ids: "q = q'" if "((sys_requests s)(p \<mapsto> r)) q = Some a" "((sys_requests s)(p \<mapsto> r)) q' = Some b"
    "r_id a = r_id b" for q q' a b
  proof (cases "q = p \<or> q' = p")
    case True
    show ?thesis
    proof (rule ccontr)
      assume "q \<noteq> q'"
      with True that id have "\<exists>q a. sys_requests s q = Some a \<and> r_id a = sys_next s" by (metis fun_upd_apply option.inject)
      with old show False by (metis less_irrefl)
    qed
  next
    case False
    with that sys_invD(5) [OF inv] show ?thesis by (metis fun_upd_other)
  qed
  show ?thesis
    unfolding put_request_def r_def [symmetric]
  proof (rule sys_invI, goal_cases)
    case (3 q a)
    then show ?case using inv_r sys_invD(3) [OF inv] by (auto split: if_splits)
  next
    case (4 q a)
    then show ?case using id less_SucI [OF old] by (auto split: if_splits)
  next
    case (5 q q' a b)
    then show ?case using ids [of q a q' b] by simp
  next
    case (6 k f n)
    then show ?case using pending [of k f n] by simp
  qed (use sys_invD(1,2,7-13) [OF inv] in simp_all)
qed

section \<open>The steps keep the invariant\<close>

lemma same_request [simp]:
  "fresh sha (r\<lparr>r_phase := ph\<rparr>) = fresh sha r" "key_at sha (r\<lparr>r_phase := ph\<rparr>) i = key_at sha r i"
  "fp_at sha (r\<lparr>r_phase := ph\<rparr>) i = fp_at sha r i"
  "key_at sha (r\<lparr>r_new := new, r_reserved := res\<rparr>) i = key_at sha r i"
  "fp_at sha (r\<lparr>r_new := new, r_reserved := res\<rparr>) i = fp_at sha r i"
  by (simp_all add: fresh_def key_at_def fp_at_def)

lemma key_at_abs: "key_at sha (r\<lparr>r_phase := ph\<rparr>) = key_at sha r"
  "key_at sha (r\<lparr>r_new := new, r_reserved := res\<rparr>) = key_at sha r"
  by (rule ext, rule same_request)+

lemma fresh_iff:
  "length (r_new r) = length (r_ops r) \<Longrightarrow> (k, f) \<in> set (fresh sha r) \<longleftrightarrow>
     (\<exists>i < length (r_ops r). r_new r ! i \<and> k = key_at sha r i \<and> f = fp_at sha r i)"
  by (auto simp: fresh_conv)

lemma pending_held:
  assumes "sys_inv sha lookup good s" "sys_requests s p = Some r"
    and "mem_at (sys_mem s) k = Some (Pending f (r_id r))"
  shows "k \<in> set (held r)"
  using sys_invD(6) [OF assms(1,3)] sys_invD(5) [OF assms(1)] assms(2) by (metis option.inject)

lemma put_request_fields [simp]:
  "sys_requests (put_request p r s) = (sys_requests s)(p \<mapsto> r)"
  "sys_mem (put_request p r s) = sys_mem s" "sys_disk (put_request p r s) = sys_disk s"
  "sys_next (put_request p r s) = sys_next s" "sys_notified (put_request p r s) = sys_notified s"
  "sys_queue (put_request p r s) = sys_queue s" "sys_removing (put_request p r s) = sys_removing s"
  "sys_applied (put_request p r s) = sys_applied s" "sys_ledger (put_request p r s) = sys_ledger s"
  by (simp_all add: put_request_def)

text \<open>A step that changes only the phase and what belongs to no other request.\<close>

lemma sys_inv_phase:
  assumes inv: "sys_inv sha lookup good s" and r: "sys_requests s p = Some r"
    and "set (held_in ph (r_reserved r)) = set (held r)"
    and "request_inv sha (sys_mem s) (sys_ledger s) (r\<lparr>r_phase := ph\<rparr>)"
    and queue: "\<forall>(k, f) \<in> set (concat Q). sys_ledger s k = Some f \<and> length k = 32 \<and> length f = 32"
  shows "sys_inv sha lookup good (put_request p (r\<lparr>r_phase := ph\<rparr>) s\<lparr>sys_notified := N, sys_queue := Q\<rparr>)"
proof (rule sys_inv_update [OF inv r])
  show "request_inv sha (sys_mem (put_request p (r\<lparr>r_phase := ph\<rparr>) s\<lparr>sys_notified := N, sys_queue := Q\<rparr>))
      (sys_ledger (put_request p (r\<lparr>r_phase := ph\<rparr>) s\<lparr>sys_notified := N, sys_queue := Q\<rparr>)) (r\<lparr>r_phase := ph\<rparr>)"
    using assms(4) by simp
  show "\<And>k f n. mem_at (sys_mem (put_request p (r\<lparr>r_phase := ph\<rparr>) s\<lparr>sys_notified := N, sys_queue := Q\<rparr>)) k
      = Some (Pending f n) \<Longrightarrow>
      (n \<noteq> r_id r \<and> mem_at (sys_mem s) k = Some (Pending f n))
      \<or> (n = r_id r \<and> k \<in> set (held (r\<lparr>r_phase := ph\<rparr>)))"
    using pending_held [OF inv r] assms(3) by auto
qed (use sys_invD [OF inv] queue in simp_all)

lemma sys_inv_phase_only:
  assumes "sys_inv sha lookup good s" "sys_requests s p = Some r"
    and "set (held_in ph (r_reserved r)) = set (held r)"
    and "request_inv sha (sys_mem s) (sys_ledger s) (r\<lparr>r_phase := ph\<rparr>)"
  shows "sys_inv sha lookup good (put_request p (r\<lparr>r_phase := ph\<rparr>) s)"
  using sys_inv_phase [OF assms sys_invD(10) [OF assms(1)], of "sys_notified s"]
  by (simp add: put_request_def)

lemma reserve_shard_no_fault:
  "reserve_shard (disk_lookup api fault d) rid prep ops unique i st = Inr res \<Longrightarrow>
     reserve_shard (ix_get_many api d) rid prep ops unique i st = Inr res"
  by (cases fault) (auto simp: reserve_shard_def disk_lookup_def Let_def split: if_splits prod.splits)

lemma reservations_at:
  assumes "distinct (map (\<lambda>i. fst (prep ! i)) js)" "i \<in> set js"
  shows "reservations prep rid js (fst (prep ! i)) = Some (Pending (Some (snd (prep ! i))) rid)"
  unfolding reservations_def using assms
  by (intro map_of_is_SomeI) (auto simp: comp_def)

context dedup_index
begin

lemma reserve_run:
  assumes inv: "sys_inv sha lookup good s" and r: "sys_requests s p = Some r" and i: "i < STATE_SHARDS"
    and run: "reserve_shard (disk_lookup api fault (sys_disk s)) (r_id r) (prepared sha (r_ops r)) (r_ops r) (r_unique r) i
       (sys_mem s, r_new r, r_reserved r) = Inr ((mem', new', res'), x)"
  shows "\<exists>js. new' = marked js (r_new r) \<and> res' = r_reserved r @ map (key_at sha r) js \<and> mem_ok mem'
    \<and> set js \<subseteq> set (shard_indices (prepared sha (r_ops r)) (r_unique r) i) \<and> distinct js
    \<and> mem_at mem' = mem_at (sys_mem s) ++ reservations (prepared sha (r_ops r)) (r_id r) js
    \<and> (\<forall>j \<in> set js. mview (sys_mem s) (lookup (sys_disk s)) (key_at sha r j) = None)
    \<and> (case x of None \<Rightarrow> \<forall>j \<in> set (shard_indices (prepared sha (r_ops r)) (r_unique r) i) - set js.
         mview (sys_mem s) (lookup (sys_disk s)) (key_at sha r j) = Some (Committed (fp_at sha r j))
       | Some z \<Rightarrow> stop_reason (prepared sha (r_ops r)) (r_ops r) (mview (sys_mem s) (lookup (sys_disk s)))
           (shard_indices (prepared sha (r_ops r)) (r_unique r) i) z)"
proof -
  have keys: "distinct (map (\<lambda>i. fst (prepared sha (r_ops r) ! i)) (r_unique r))"
    using request_inv_shape [OF sys_invD(3) [OF inv r]] by (simp add: shape_ok_def key_at_def [abs_def])
  have get: "ix_get_many api (sys_disk s) ks = Inr (map (lookup (sys_disk s)) ks)" for ks
    by (rule get_many [OF sys_invD(2) [OF inv]])
  show ?thesis
    using reserve_shard_effect [OF sys_invD(1) [OF inv] i keys get, of "r_id r" "r_ops r" "r_new r" "r_reserved r"]
      reserve_shard_no_fault [OF run]
    unfolding key_at_def [abs_def] fp_at_def by simp
qed

lemma sys_inv_reserve:
  assumes inv: "sys_inv sha lookup good s" and r: "sys_requests s p = Some r"
    and ph: "r_phase r = Reserving i" "i < STATE_SHARDS"
    and run: "reserve_shard (disk_lookup api fault (sys_disk s)) (r_id r) (prepared sha (r_ops r)) (r_ops r) (r_unique r) i
       (sys_mem s, r_new r, r_reserved r) = Inr ((mem', new', res'), x)"
  shows "sys_inv sha lookup good (put_request p (r\<lparr>r_new := new', r_reserved := res',
         r_phase := (case x of None \<Rightarrow> Reserving (Suc i) | Some y \<Rightarrow> RollingBack 0 y)\<rparr>) s\<lparr>sys_mem := mem'\<rparr>)"
proof -
  let ?prep = "prepared sha (r_ops r)" and ?L = "sys_ledger s"
  let ?look = "lookup (sys_disk s)"
  note req = sys_invD(3) [OF inv r]
  then have shape: "shape_ok sha r" by (rule request_inv_shape)
  have keys: "distinct (map (\<lambda>i. fst (?prep ! i)) (r_unique r))"
    using shape by (simp add: shape_ok_def key_at_def [abs_def])
  from reserve_run [OF inv r ph(2) run] obtain js where
    js: "new' = marked js (r_new r)" "res' = r_reserved r @ map (key_at sha r) js"
      "mem_ok mem'" "set js \<subseteq> set (shard_indices ?prep (r_unique r) i)" "distinct js"
      "mem_at mem' = mem_at (sys_mem s) ++ reservations ?prep (r_id r) js"
      "\<forall>j \<in> set js. mview (sys_mem s) ?look (key_at sha r j) = None"
    and x: "x = None \<longrightarrow> (\<forall>j \<in> set (shard_indices ?prep (r_unique r) i) - set js.
        mview (sys_mem s) ?look (key_at sha r j) = Some (Committed (fp_at sha r j)))"
    by (cases x) auto
  have js_unique: "set js \<subseteq> set (r_unique r)" using js(4) by (auto simp: shard_indices_def)
  have js_keys: "distinct (map (\<lambda>j. fst (?prep ! j)) js)"
    using keys js_unique js(5) by (auto simp: distinct_map intro: inj_on_subset)
  have free: "mem_at (sys_mem s) (key_at sha r j) = None" "?L (key_at sha r j) = None" if "j \<in> set js" for j
  proof -
    from js(7) that have "mview (sys_mem s) ?look (key_at sha r j) = None" by blast
    then show 1: "mem_at (sys_mem s) (key_at sha r j) = None"
      by (simp add: mview_def view_def split: option.splits)
    with \<open>mview (sys_mem s) ?look (key_at sha r j) = None\<close> have "?look (key_at sha r j) = None"
      by (simp add: mview_def view_def)
    with 1 sys_invD(9) [OF inv, of "key_at sha r j"] show "?L (key_at sha r j) = None" by blast
  qed
  have res_at: "reservations ?prep (r_id r) js (key_at sha r j) = Some (Pending (Some (fp_at sha r j)) (r_id r))"
    if "j \<in> set js" for j
    using reservations_at [OF js_keys that] by (simp add: key_at_def fp_at_def)
  have res_key: "\<exists>j \<in> set js. k = key_at sha r j \<and> e = Pending (Some (fp_at sha r j)) (r_id r)"
    if "reservations ?prep (r_id r) js k = Some e" for k e
    using reservations_Some [OF that] by (simp add: key_at_def fp_at_def)
  have committed: "?L k = Some f" if "mview (sys_mem s) ?look k = Some (Committed f)" for k f
    using that sys_invD(7,8) [OF inv] by (auto simp: mview_def view_def split: option.splits)
  let ?ph = "case x of None \<Rightarrow> Reserving (Suc i) | Some y \<Rightarrow> RollingBack 0 y"
  let ?r = "r\<lparr>r_new := new', r_reserved := res', r_phase := ?ph\<rparr>"
  have held: "set (held ?r) = set res'" "tentative ?ph" by (simp_all split: option.split)
  have fresh: "(k, f) \<in> set (fresh sha ?r) \<longleftrightarrow> (k, f) \<in> set (fresh sha r)
      \<or> (\<exists>j \<in> set js. k = key_at sha r j \<and> f = fp_at sha r j)" for k f
  proof -
    have len: "length (r_new r) = length (r_ops r)" "\<forall>j \<in> set js. j < length (r_ops r)"
      using shape js_unique by (auto simp: shape_ok_def unique_ok_def)
    then show ?thesis
      by (subst fresh_iff, simp add: js(1), subst fresh_iff [OF len(1)])
        (auto simp: js(1) nth_marked)
  qed
  have shape': "shape_ok sha ?r"
  proof -
    have "set res' = fst ` set (fresh sha ?r)"
    proof -
      have "set (fresh sha ?r) = set (fresh sha r) \<union> (\<lambda>j. (key_at sha r j, fp_at sha r j)) ` set js"
      proof (rule set_eqI)
        fix e
        show "e \<in> set (fresh sha ?r) \<longleftrightarrow> e \<in> set (fresh sha r) \<union> (\<lambda>j. (key_at sha r j, fp_at sha r j)) ` set js"
          using fresh [of "fst e" "snd e"] by (cases e) (auto simp only: fst_conv snd_conv Un_iff image_iff)
      qed
      then have "fst ` set (fresh sha ?r) = fst ` set (fresh sha r) \<union> key_at sha r ` set js"
        by (simp only: image_Un image_image fst_conv)
      moreover have "set (r_reserved r) = fst ` set (fresh sha r)" using shape by (simp add: shape_ok_def)
      ultimately show ?thesis by (simp add: js(2))
    qed
    with shape js_unique held(1) show ?thesis
      by (auto simp: shape_ok_def js(1) nth_marked key_at_abs)
  qed
  have req': "request_inv sha mem' ?L ?r"
    unfolding request_inv_def
  proof (intro conjI)
    show "\<forall>(k, f) \<in> set (fresh sha ?r). k \<in> set (held ?r) \<longrightarrow> mem_at mem' k = Some (Pending (Some f) (r_id ?r))"
    proof (intro ballI, clarify)
      fix k f
      assume "(k, f) \<in> set (fresh sha ?r)"
      then consider "(k, f) \<in> set (fresh sha r)" | j where "j \<in> set js" "k = key_at sha r j" "f = fp_at sha r j"
        using fresh by blast
      then show "mem_at mem' k = Some (Pending (Some f) (r_id ?r))"
      proof cases
        case 1
        then have "mem_at (sys_mem s) k = Some (Pending (Some f) (r_id r))"
          using fresh_reserved [OF shape 1] by (intro fresh_pending [OF req 1]) (simp add: ph(1))
        moreover from this have "reservations ?prep (r_id r) js k = None"
          using res_key free(1) by (metis option.distinct(1) option.exhaust)
        ultimately show ?thesis by (simp add: js(6) map_add_def)
      next
        case 2
        with res_at show ?thesis by (simp add: js(6))
      qed
    qed
    show "tentative (r_phase ?r) \<longrightarrow> (\<forall>k \<in> set (held ?r). ?L k = None)"
      using req ph(1) free(2) held(1) by (auto simp: request_inv_def js(2))
    show "\<forall>j \<in> set (r_unique ?r). scanned (r_phase ?r) (key_at sha ?r j) \<longrightarrow>
        r_new ?r ! j \<or> ?L (key_at sha ?r j) = Some (fp_at sha ?r j)"
    proof (intro ballI impI)
      fix j
      assume j: "j \<in> set (r_unique ?r)" "scanned (r_phase ?r) (key_at sha ?r j)"
      then have x': "x = None" "dedup_shard (key_at sha r j) < Suc i" by (auto split: option.splits)
      have len: "j < length (r_new r)" using shape j(1) by (auto simp: shape_ok_def unique_ok_def)
      show "r_new ?r ! j \<or> ?L (key_at sha ?r j) = Some (fp_at sha ?r j)"
      proof (cases "dedup_shard (key_at sha r j) < i")
        case True
        with req ph(1) j(1) len show ?thesis by (auto simp: request_inv_def js(1) nth_marked)
      next
        case False
        with x'(2) j(1) have "j \<in> set (shard_indices ?prep (r_unique r) i)"
          by (auto simp: shard_indices_def key_at_def)
        with x x'(1) committed len show ?thesis by (auto simp: js(1) nth_marked)
      qed
    qed
  qed (use shape' in \<open>auto simp: phase_inv_def split: option.splits\<close>)
  show ?thesis
  proof (rule sys_inv_update [OF inv r, where r' = ?r], goal_cases)
    case (8 k)
    then have "reservations ?prep (r_id r) js k \<noteq> None" by (auto simp: js(6) map_add_def split: option.splits)
    then obtain e where "reservations ?prep (r_id r) js k = Some e" by blast
    from res_key [OF this] obtain j where j: "j \<in> set js" "k = key_at sha r j" by blast
    show ?case unfolding j(2) using free(1) [OF j(1)] by simp
  next
    case (11 k f n)
    show ?case
    proof (cases "reservations ?prep (r_id r) js k")
      case None
      with 11 have "mem_at (sys_mem s) k = Some (Pending f n)" by (simp add: js(6) map_add_def)
      with pending_held [OF inv r] ph(1) held(1) show ?thesis by (auto simp: js(2))
    next
      case (Some e)
      with 11 res_key [OF Some] held(1) show ?thesis by (auto simp: js(2,6) map_add_def)
    qed
  next
    case (12 k f)
    then have "mem_at (sys_mem s) k = Some (Committed f)"
      using res_key by (auto simp: js(6) map_add_def split: option.splits)
    then show ?case using sys_invD(7) [OF inv] by simp
  next
    case (13 k)
    then show ?case using sys_invD(9) [OF inv, of k] by (auto simp: js(6) map_add_def split: option.splits)
  qed (use js(3) req' sys_invD(10,12,13) [OF inv] in simp_all)
qed

end

lemma request_inv_phase:
  assumes "request_inv sha mem L r" "set (held_in ph (r_reserved r)) \<subseteq> set (held r)"
    and "tentative ph \<Longrightarrow> tentative (r_phase r)" "\<And>k. scanned ph k \<Longrightarrow> scanned (r_phase r) k"
    and "phase_inv sha L r ph"
  shows "request_inv sha mem L (r\<lparr>r_phase := ph\<rparr>)"
proof -
  have shape: "shape_ok sha (r\<lparr>r_phase := ph\<rparr>)"
    using assms(1,2) by (auto simp: request_inv_def shape_ok_def key_at_abs)
  have hp: "mem_at mem k = Some (Pending (Some f) (r_id r))"
    if "(k, f) \<in> set (fresh sha r)" "k \<in> set (held_in ph (r_reserved r))" for k f
    by (rule fresh_pending [OF assms(1) that(1)]) (use assms(2) that(2) in blast)
  have ten: "L k = None" if "tentative ph" "k \<in> set (held_in ph (r_reserved r))" for k
    using assms(1-3) that unfolding request_inv_def by blast
  have sc: "r_new r ! i \<or> L (key_at sha r i) = Some (fp_at sha r i)"
    if "i \<in> set (r_unique r)" "scanned ph (key_at sha r i)" for i
    using assms(1,4) that unfolding request_inv_def by blast
  have "phase_inv sha L (r\<lparr>r_phase := ph\<rparr>) ph"
    using assms(5) by (simp add: phase_inv_def split: phase.splits sum.splits)
  with shape hp ten sc show ?thesis
    unfolding request_inv_def by auto
qed

lemma request_phase_inv: "request_inv sha mem L r \<Longrightarrow> phase_inv sha L r (r_phase r)"
  by (simp add: request_inv_def)

lemma held_subset_reserved: "request_inv sha mem L r \<Longrightarrow> k \<in> set (held r) \<Longrightarrow> k \<in> set (r_reserved r)"
  by (auto simp: request_inv_def shape_ok_def)

lemma sys_inv_lost:
  assumes "sys_inv sha lookup good s" "sys_requests s p = Some r"
  shows "sys_inv sha lookup good (put_request p (r\<lparr>r_phase := Lost (held r)\<rparr>) s)"
  by (rule sys_inv_phase_only [OF assms], simp, rule request_inv_phase [OF sys_invD(3) [OF assms]])
    (simp_all add: phase_inv_def)

lemma sys_inv_hold:
  assumes "sys_inv sha lookup good s" "sys_requests s p = Some r" "r_phase r = Reserving STATE_SHARDS"
  shows "sys_inv sha lookup good (put_request p (r\<lparr>r_phase := Holding\<rparr>) s)"
  by (rule sys_inv_phase_only [OF assms(1,2)], simp add: assms(3),
      rule request_inv_phase [OF sys_invD(3) [OF assms(1,2)]]) (simp_all add: phase_inv_def assms(3))

lemma sys_inv_give_up:
  assumes "sys_inv sha lookup good s" "sys_requests s p = Some r" "r_phase r = Holding"
  shows "sys_inv sha lookup good (put_request p (r\<lparr>r_phase := Finishing 0 False [] []\<rparr>) s)"
  by (rule sys_inv_phase_only [OF assms(1,2)], simp add: assms(3),
      rule request_inv_phase [OF sys_invD(3) [OF assms(1,2)]]) (simp_all add: phase_inv_def assms(3))

lemma none_left [simp]: "filter (\<lambda>k. STATE_SHARDS \<le> dedup_shard k) ks = []"
  by (simp add: filter_empty_conv not_le)

lemma sys_inv_rolled_back:
  assumes "sys_inv sha lookup good s" "sys_requests s p = Some r" "r_phase r = RollingBack STATE_SHARDS x"
  shows "sys_inv sha lookup good (put_request p (r\<lparr>r_phase := (case x of
         WaitFor n \<Rightarrow> Waiting n | Conflict c \<Rightarrow> Answered (Inl (ConflictError c)))\<rparr>)
       s\<lparr>sys_notified := insert (r_id r) (sys_notified s)\<rparr>)"
proof -
  let ?ph = "case x of WaitFor n \<Rightarrow> Waiting n | Conflict c \<Rightarrow> Answered (Inl (ConflictError c))"
  have "held_in ?ph (r_reserved r) = []" "held r = []" "\<not> tentative ?ph" "\<And>k. \<not> scanned ?ph k"
    "phase_inv sha (sys_ledger s) r ?ph"
    by (simp_all add: assms(3) phase_inv_def split: stop.split)
  then have "sys_inv sha lookup good (put_request p (r\<lparr>r_phase := ?ph\<rparr>)
       s\<lparr>sys_notified := insert (r_id r) (sys_notified s), sys_queue := sys_queue s\<rparr>)"
    by (intro sys_inv_phase [OF assms(1,2)] request_inv_phase [OF sys_invD(3) [OF assms(1,2)]]
        sys_invD(10) [OF assms(1)]) simp_all
  then show ?thesis by (simp add: put_request_def)
qed

lemma sys_inv_finished:
  assumes "sys_inv sha lookup good s" "sys_requests s p = Some r" "r_phase r = Finishing STATE_SHARDS c notif es"
  shows "sys_inv sha lookup good (put_request p (r\<lparr>r_phase := Answered (if c then Inr (r_new r) else Inl IoError)\<rparr>)
       s\<lparr>sys_notified := set notif \<union> sys_notified s,
         sys_queue := sys_queue s @ (if c \<and> es \<noteq> [] then [es] else [])\<rparr>)"
proof (rule sys_inv_phase [OF assms(1,2)])
  note ph = request_phase_inv [OF sys_invD(3) [OF assms(1,2)], unfolded assms(3) phase_inv_def, simplified]
  show "request_inv sha (sys_mem s) (sys_ledger s) (r\<lparr>r_phase := Answered (if c then Inr (r_new r) else Inl IoError)\<rparr>)"
    by (rule request_inv_phase [OF sys_invD(3) [OF assms(1,2)]])
      (use ph in \<open>auto simp: assms(3) phase_inv_def\<close>)
  show "\<forall>(k, f) \<in> set (concat (sys_queue s @ (if c \<and> es \<noteq> [] then [es] else []))).
      sys_ledger s k = Some f \<and> length k = 32 \<and> length f = 32"
    using ph sys_invD(10) [OF assms(1)] by auto
qed (simp_all add: assms(3))

lemma sys_inv_rollback:
  assumes inv: "sys_inv sha lookup good s" and r: "sys_requests s p = Some r"
    and ph: "r_phase r = RollingBack i x" "i < STATE_SHARDS"
  shows "sys_inv sha lookup good (put_request p (r\<lparr>r_phase := RollingBack (Suc i) x\<rparr>)
       s\<lparr>sys_mem := rollback_shard (r_id r) (r_reserved r) i (sys_mem s)\<rparr>)"
proof -
  let ?m = "rollback_shard (r_id r) (r_reserved r) i (sys_mem s)"
  let ?r = "r\<lparr>r_phase := RollingBack (Suc i) x\<rparr>"
  note req = sys_invD(3) [OF inv r]
  note at = rollback_shard_at [OF sys_invD(1) [OF inv] ph(2), of "r_id r" "r_reserved r"]
  have held: "set (held ?r) = {k \<in> set (held r). dedup_shard k \<noteq> i}"
    by (auto simp: ph(1))
  have gone: "mem_at ?m k = None" "dedup_shard k = i" "sys_ledger s k = None"
    if "k \<in> set (held r)" "k \<notin> set (held ?r)" for k
  proof -
    from that show "dedup_shard k = i" by (auto simp: ph(1))
    with that held_own_pending [OF req that(1)] held_subset_reserved [OF req that(1)]
    show "mem_at ?m k = None" by (simp add: at(2))
    show "sys_ledger s k = None" using req that(1) ph(1) by (simp add: request_inv_def)
  qed
  have same: "mem_at ?m k = mem_at (sys_mem s) k" if "k \<notin> set (held r) \<or> k \<in> set (held ?r)" for k
  proof (cases "dedup_shard k = i \<and> k \<in> set (r_reserved r) \<and> own_pending (r_id r) (mem_at (sys_mem s) k)")
    case True
    then have "k \<in> set (held r)" using pending_held [OF inv r] by (auto simp: own_pending_def)
    with that True show ?thesis by (auto simp: ph(1))
  qed (auto simp: at(2))
  have req': "request_inv sha ?m (sys_ledger s) ?r"
  proof -
    have 1: "request_inv sha (sys_mem s) (sys_ledger s) ?r"
      by (rule request_inv_phase [OF req]) (auto simp: ph(1) phase_inv_def)
    show ?thesis by (rule request_inv_frame [OF 1]) (use same in simp_all)
  qed
  show ?thesis
  proof (rule sys_inv_update [OF inv r, where r' = ?r], goal_cases)
    case (8 k)
    then have "mem_at ?m k \<noteq> mem_at (sys_mem s) k" by simp
    then show ?case unfolding at(2) by (auto split: if_splits)
  next
    case (11 k f n)
    then have m: "mem_at ?m k = Some (Pending f n)" by simp
    then have old: "mem_at (sys_mem s) k = Some (Pending f n)" by (simp add: at(2) split: if_splits)
    show ?case
    proof (cases "n = r_id r")
      case True
      with old pending_held [OF inv r] have "k \<in> set (held r)" by blast
      with gone(1) m have "k \<in> set (held ?r)" by fastforce
      with True show ?thesis by blast
    qed (use old in blast)
  next
    case (12 k f)
    then have "mem_at ?m k = Some (Committed f)" by simp
    then have "mem_at (sys_mem s) k = Some (Committed f)" by (simp add: at(2) split: if_splits)
    with sys_invD(7) [OF inv] show ?case by simp
  next
    case (13 k)
    then have L: "sys_ledger s k \<noteq> None" by simp
    have "k \<notin> set (held r) \<or> k \<in> set (held ?r)" using gone(3) [of k] L by metis
    then have "mem_at ?m k = mem_at (sys_mem s) k" by (rule same)
    with L sys_invD(9) [OF inv] show ?case by simp
  qed (use at(1) req' sys_invD(10,12,13) [OF inv] in simp_all)
qed

lemma sys_inv_apply:
  assumes inv: "sys_inv sha lookup good s" and r: "sys_requests s p = Some r" and ph: "r_phase r = Holding"
  shows "sys_inv sha lookup good (put_request p (r\<lparr>r_phase := Finishing 0 True [] []\<rparr>)
       s\<lparr>sys_applied := sys_applied s @ fresh sha r, sys_ledger := sys_ledger s ++ map_of (fresh sha r)\<rparr>)"
proof -
  let ?r = "r\<lparr>r_phase := Finishing 0 True [] []\<rparr>" and ?L = "sys_ledger s ++ map_of (fresh sha r)"
  note req = sys_invD(3) [OF inv r]
  note shape = request_inv_shape [OF req]
  have dist: "distinct (map fst (fresh sha r))" by (rule fresh_distinct [OF shape])
  have held: "k \<in> set (held r)" if "(k, f) \<in> set (fresh sha r)" for k f
    using fresh_reserved [OF shape that] by (simp add: ph)
  have new: "sys_ledger s k = None" if "(k, f) \<in> set (fresh sha r)" for k f
    using req held [OF that] ph by (auto simp: request_inv_def)
  have L: "?L k = Some f" if "(k, f) \<in> set (fresh sha r)" for k f
    using dist that by (simp add: map_add_Some_iff)
  have L_old: "?L k = Some f" if "sys_ledger s k = Some f" for k f
  proof -
    have "k \<notin> fst ` set (fresh sha r)" using new that by fastforce
    then show ?thesis using that by (simp add: map_add_dom_app_simps(3) dom_map_of_conv_image_fst)
  qed
  then have le: "sys_ledger s \<subseteq>\<^sub>m ?L" by (auto simp: map_le_def dom_def)
  have L_new: "k \<in> set (held r)" if "sys_ledger s k = None" "?L k \<noteq> None" for k
    using that held by (auto simp: map_add_def split: option.splits dest: map_of_SomeD)
  have req': "request_inv sha (sys_mem s) ?L ?r"
  proof -
    have sc: "r_new r ! i \<or> ?L (key_at sha r i) = Some (fp_at sha r i)" if "i \<in> set (r_unique r)" for i
      using req that ph L_old by (auto simp: request_inv_def)
    have "shape_ok sha ?r" using shape by (auto simp: shape_ok_def key_at_abs ph)
    moreover have "\<forall>(k, f) \<in> set (fresh sha ?r). k \<in> set (held ?r) \<longrightarrow>
        mem_at (sys_mem s) k = Some (Pending (Some f) (r_id ?r))"
      using fresh_pending [OF req] held by auto
    ultimately show ?thesis using sc L by (auto simp: request_inv_def phase_inv_def)
  qed
  show ?thesis
  proof (rule sys_inv_update [OF inv r, where r' = ?r], goal_cases)
    case (10 k)
    then show ?case using L_new [of k] held_own_pending [OF req] by simp
  next
    case (11 k f n)
    then have m: "mem_at (sys_mem s) k = Some (Pending f n)" by simp
    show ?case
    proof (cases "n = r_id r")
      case True
      with m pending_held [OF inv r] have "k \<in> set (held r)" by blast
      then have "k \<in> set (held ?r)" by (simp add: ph)
      with True show ?thesis by blast
    qed (use m in blast)
  next
    case (12 k f)
    then show ?case using sys_invD(7) [OF inv] L_old by simp
  next
    case (13 k)
    then have "?L k \<noteq> None" by simp
    show ?case
    proof (cases "sys_ledger s k = None")
      case True
      have "k \<in> set (held r)" by (rule L_new [OF True \<open>?L k \<noteq> None\<close>])
      with held_own_pending [OF req this] show ?thesis by (auto simp: own_pending_def)
    next
      case False
      with sys_invD(9) [OF inv] show ?thesis by simp
    qed
  next
    case 14
    have "?L k = Some f \<and> length k = 32 \<and> length f = 32" if "(k, f) \<in> set (concat (sys_queue s))" for k f
    proof -
      from sys_invD(10) [OF inv] that have "sys_ledger s k = Some f \<and> length k = 32 \<and> length f = 32" by blast
      with L_old show ?thesis by blast
    qed
    then show ?case by auto
  next
    case 15
    have "k \<notin> fst ` set (fresh sha r)" if "k \<in> fst ` set (sys_applied s)" for k
      using that sys_invD(13) [OF inv] new by fastforce
    then show ?case using dist sys_invD(12) [OF inv] by auto
  next
    case 16
    have "?L k = Some f" if "(k, f) \<in> set (sys_applied s)" for k f
    proof -
      from sys_invD(13) [OF inv] that have "sys_ledger s k = Some f" by blast
      then show ?thesis by (rule L_old)
    qed
    with L show ?case by auto
  qed (use req' le sys_invD(1) [OF inv] in simp_all)
qed

lemma finish_run:
  assumes inv: "sys_inv sha lookup good s" and r: "sys_requests s p = Some r"
    and ph: "r_phase r = Finishing i c notif es" "i < STATE_SHARDS"
    and fp: "\<And>k f. (k, f) \<in> set (fresh sha r) \<Longrightarrow> fp k = f"
    and run: "finish_shard c (new_keys sha (r_ops r) (r_new r)) i (sys_mem s, notif, es) = (mem', notif', es')"
  shows "notif' = notif @ map (\<lambda>_. r_id r) (filter (\<lambda>k. dedup_shard k = i) (map fst (fresh sha r)))"
    and "es' = (if c then es @ map (\<lambda>k. (k, fp k)) (filter (\<lambda>k. dedup_shard k = i) (map fst (fresh sha r))) else es)"
    and "mem_ok mem'"
    and "mem_at mem' x = (if x \<in> set (map fst (fresh sha r)) \<and> dedup_shard x = i
          then (if c then Some (Committed (fp x)) else None) else mem_at (sys_mem s) x)"
proof -
  note req = sys_invD(3) [OF inv r]
  note shape = request_inv_shape [OF req]
  have pend: "\<forall>k \<in> set (map fst (fresh sha r)). dedup_shard k = i \<longrightarrow>
      mem_at (sys_mem s) k = Some (Pending (Some (fp k)) (r_id r))"
  proof (intro ballI impI)
    fix k
    assume k: "k \<in> set (map fst (fresh sha r))" "dedup_shard k = i"
    from k(1) obtain f where kf: "(k, f) \<in> set (fresh sha r)" by auto
    have "k \<in> set (held r)" using fresh_reserved [OF shape kf] k(2) ph(1) by simp
    then show "mem_at (sys_mem s) k = Some (Pending (Some (fp k)) (r_id r))"
      using fresh_pending [OF req kf] fp [OF kf] by simp
  qed
  show "notif' = notif @ map (\<lambda>_. r_id r) (filter (\<lambda>k. dedup_shard k = i) (map fst (fresh sha r)))"
    and "es' = (if c then es @ map (\<lambda>k. (k, fp k)) (filter (\<lambda>k. dedup_shard k = i) (map fst (fresh sha r))) else es)"
    and "mem_ok mem'"
    and "mem_at mem' x = (if x \<in> set (map fst (fresh sha r)) \<and> dedup_shard x = i
          then (if c then Some (Committed (fp x)) else None) else mem_at (sys_mem s) x)"
    using finish_shard_at [OF sys_invD(1) [OF inv] ph(2) fresh_distinct [OF shape] pend, of c notif es] run
    by (auto simp: new_keys_fresh)
qed

lemma sys_inv_finish:
  assumes inv: "sys_inv sha lookup good s" and r: "sys_requests s p = Some r"
    and ph: "r_phase r = Finishing i c notif es" "i < STATE_SHARDS"
    and lens: "\<And>x. length (sha x) = 32"
    and run: "finish_shard c (new_keys sha (r_ops r) (r_new r)) i (sys_mem s, notif, es) = (mem', notif', es')"
  shows "sys_inv sha lookup good (put_request p (r\<lparr>r_phase := Finishing (Suc i) c notif' es'\<rparr>) s\<lparr>sys_mem := mem'\<rparr>)"
proof -
  let ?r = "r\<lparr>r_phase := Finishing (Suc i) c notif' es'\<rparr>" and ?L = "sys_ledger s"
  note req = sys_invD(3) [OF inv r]
  note shape = request_inv_shape [OF req]
  let ?keys = "map fst (fresh sha r)"
  define fp where "fp = (\<lambda>k. the (map_of (fresh sha r) k))"
  have fp: "fp k = f" if "(k, f) \<in> set (fresh sha r)" for k f
    using that fresh_distinct [OF shape] by (simp add: fp_def)
  have reserved: "set (r_reserved r) = set ?keys" using shape by (simp add: shape_ok_def)
  have heldiff: "k \<in> set (held r) \<longleftrightarrow> k \<in> set ?keys \<and> i \<le> dedup_shard k" for k
    using reserved by (auto simp: ph(1))
  note fin = finish_run [OF inv r ph, of fp, OF fp run]
  note at = fin(4)
  note phinv = request_phase_inv [OF req, unfolded ph(1) phase_inv_def, simplified]
  have committed: "?L k = Some (fp k)" if "c" "k \<in> set ?keys" for k
  proof -
    from that(2) obtain f where kf: "(k, f) \<in> set (fresh sha r)" by auto
    with phinv that(1) fp [OF kf] show ?thesis by auto
  qed
  have released: "?L k = None" if "\<not> c" "k \<in> set ?keys" "dedup_shard k = i" for k
  proof -
    have "k \<in> set (held r)" using heldiff that by simp
    with req ph(1) that(1) show ?thesis by (simp add: request_inv_def)
  qed
  have len: "length k = 32 \<and> length (fp k) = 32" if "k \<in> set ?keys" for k
  proof -
    from that obtain f where kf: "(k, f) \<in> set (fresh sha r)" by auto
    then have "length k = 32" "length f = 32" by (auto simp: fresh_def fingerprint_def lens)
    with fp [OF kf] show ?thesis by simp
  qed
  have held': "set (held ?r) = {k \<in> set (held r). dedup_shard k \<noteq> i}" by (auto simp: ph(1))
  have es': "\<forall>(k, f) \<in> set es'. ?L k = Some f \<and> length k = 32 \<and> length f = 32"
    using phinv committed len by (auto simp: fin(2) split: if_splits)
  have req': "request_inv sha mem' ?L ?r"
  proof -
    have 1: "request_inv sha (sys_mem s) ?L ?r"
      by (rule request_inv_phase [OF req]) (use es' phinv in \<open>auto simp: ph(1) phase_inv_def\<close>)
    have "mem_at mem' k = mem_at (sys_mem s) k" if "k \<in> set (held ?r)" for k
      using that unfolding held' by (simp add: at)
    with 1 show ?thesis by (intro request_inv_frame [OF 1]) simp_all
  qed
  show ?thesis
  proof (rule sys_inv_update [OF inv r, where r' = ?r], goal_cases)
    case (8 k)
    then have "k \<in> set ?keys \<and> dedup_shard k = i" by (simp add: at split: if_splits)
    then have "k \<in> set (held r)" by (simp add: heldiff)
    then show ?case using held_own_pending [OF req] by blast
  next
    case (11 k f n)
    then have m: "mem_at (sys_mem s) k = Some (Pending f n)" "\<not> (k \<in> set ?keys \<and> dedup_shard k = i)"
      by (auto simp: at split: if_splits)
    show ?case
    proof (cases "n = r_id r")
      case True
      with m pending_held [OF inv r] have "k \<in> set (held r)" by blast
      with m(2) heldiff [of k] have "k \<in> set (held ?r)" unfolding held' by simp
      with True show ?thesis by blast
    qed (use m(1) in blast)
  next
    case (12 k f)
    then have "mem_at mem' k = Some (Committed f)" by simp
    then have m: "mem_at mem' k = Some (Committed f)" .
    show ?case
    proof (cases "k \<in> set ?keys \<and> dedup_shard k = i")
      case True
      with m have "c" "f = fp k" by (simp_all add: at split: if_splits)
      with committed [of k] True show ?thesis by simp
    next
      case False
      with m have "mem_at (sys_mem s) k = Some (Committed f)" by (simp only: at if_False)
      then show ?thesis using sys_invD(7) [OF inv] by simp
    qed
  next
    case (13 k)
    then have L: "?L k \<noteq> None" by simp
    show ?case
    proof (cases "k \<in> set ?keys \<and> dedup_shard k = i")
      case True
      with L released [of k] have c by metis
      with True show ?thesis by (simp add: at)
    next
      case False
      then have "mem_at mem' k = mem_at (sys_mem s) k" by (simp only: at if_False)
      with L sys_invD(9) [OF inv] show ?thesis by simp
    qed
  qed (use fin(3) req' sys_invD(10,12,13) [OF inv] in simp_all)
qed

context dedup_index
begin

lemma sys_inv_persist:
  assumes inv: "sys_inv sha lookup good s" and combined: "combined = concat (take n (sys_queue s))"
    and run: "ix_insert_many api commit (persist_sorted combined) (sys_disk s) = (outcome, d')"
    and empty: "sys_removing s = []"
  shows "sys_inv sha lookup good (s\<lparr>sys_disk := d', sys_queue := drop n (sys_queue s),
       sys_removing := (case outcome of Inr _ \<Rightarrow> combined | Inl _ \<Rightarrow> [])\<rparr>)"
proof -
  have sub: "set combined \<subseteq> set (concat (sys_queue s))"
    unfolding combined using set_take_subset by fastforce
  have entry: "sys_ledger s k = Some f \<and> length k = 32 \<and> length f = 32" if "(k, f) \<in> set combined" for k f
    using sys_invD(10) [OF inv] sub that by blast
  have set_sorted: "set (persist_sorted combined) = set combined" by (simp add: persist_sorted_def)
  have ok: "entries_ok (persist_sorted combined)"
    unfolding entries_ok_def set_sorted using entry by blast
  have disk: "good d' \<and> (\<forall>k f. lookup d' k = Some f \<longrightarrow> sys_ledger s k = Some f)
      \<and> (\<forall>k. lookup (sys_disk s) k \<noteq> None \<longrightarrow> lookup d' k \<noteq> None)
      \<and> (outcome = Inr () \<longrightarrow> (\<forall>(k, f) \<in> set combined. lookup d' k \<noteq> None))"
  proof (cases commit)
    case (Inl e)
    with insert_fails run have d': "d' = sys_disk s" "outcome = Inr () \<longrightarrow> persist_sorted combined = []" by blast+
    from d'(2) set_sorted have "outcome = Inr () \<longrightarrow> combined = []" by (metis set_empty)
    with d'(1) sys_invD(2,8) [OF inv] show ?thesis by auto
  next
    case (Inr u)
    then have "commit = Inr ()" by simp
    with run insert_many [OF sys_invD(2) [OF inv] ok] have
      g: "good d'" and l: "lookup d' = lookup (sys_disk s) ++ map_of (rev (persist_sorted combined))"
      by blast+
    have new: "map_of (rev (persist_sorted combined)) k = Some f \<Longrightarrow> (k, f) \<in> set combined" for k f
      using map_of_SomeD [of "rev (persist_sorted combined)" k f] set_sorted by simp
    have "lookup d' k \<noteq> None" if "(k, f) \<in> set combined" for k f
    proof -
      have "k \<in> fst ` set (rev (persist_sorted combined))"
        using that set_sorted by (metis fst_conv image_eqI set_rev)
      then have "k \<in> dom (map_of (rev (persist_sorted combined)))"
        by (simp only: dom_map_of_conv_image_fst)
      then show ?thesis by (auto simp: l)
    qed
    moreover have "sys_ledger s k = Some f" if "lookup d' k = Some f" for k f
      using that new entry sys_invD(8) [OF inv] by (auto simp: l map_add_Some_iff)
    moreover have "lookup d' k \<noteq> None" if "lookup (sys_disk s) k \<noteq> None" for k
      using that by (simp add: l)
    ultimately show ?thesis using g by blast
  qed
  have queue: "set (concat (drop n (sys_queue s))) \<subseteq> set (concat (sys_queue s))"
    using set_drop_subset by fastforce
  show ?thesis
  proof (rule sys_invI, goal_cases)
    case (9 k)
    then show ?case using sys_invD(9) [OF inv] disk by simp blast
  next
    case 10
    have "\<forall>(k, f) \<in> set (concat (drop n (sys_queue s))). sys_ledger s k = Some f \<and> length k = 32 \<and> length f = 32"
      using sys_invD(10) [OF inv] queue by blast
    then show ?case by simp
  next
    case 11
    then show ?case using disk by (cases outcome) auto
  qed (use sys_invD(1,3-7,12,13) [OF inv] disk in simp_all)
qed

lemma sys_inv_forget:
  assumes inv: "sys_inv sha lookup good s" and e: "sys_removing s = e # es"
  shows "sys_inv sha lookup good (s\<lparr>sys_mem := persist_forget e (sys_mem s), sys_removing := es\<rparr>)"
proof -
  let ?m = "persist_forget e (sys_mem s)"
  note at = persist_forget_at [OF sys_invD(1) [OF inv], of e]
  have pend: "mem_at ?m k = Some (Pending f n) \<longleftrightarrow> mem_at (sys_mem s) k = Some (Pending f n)" for k f n
    by (auto simp: at(2))
  have req: "request_inv sha ?m (sys_ledger s) r" if "sys_requests s p = Some r" for p r
  proof (rule request_inv_frame [OF sys_invD(3) [OF inv that]])
    fix k
    assume k: "k \<in> set (held r)"
    from held_pending [OF sys_invD(3) [OF inv that] k]
    show "mem_at ?m k = mem_at (sys_mem s) k" by (auto simp: at(2))
  qed simp_all
  show ?thesis
  proof (rule sys_invI, goal_cases)
    case (6 k f n)
    then show ?case using sys_invD(6) [OF inv] pend by simp
  next
    case (7 k f)
    then have "mem_at (sys_mem s) k = Some (Committed f)" by (simp add: at(2) split: if_splits)
    then show ?case using sys_invD(7) [OF inv] by simp
  next
    case (9 k)
    have "lookup (sys_disk s) (fst e) \<noteq> None" using sys_invD(11) [OF inv] e by (cases e) simp
    with 9 show ?case using sys_invD(9) [OF inv, of k] by (simp add: at(2))
  next
    case 11
    then show ?case using sys_invD(11) [OF inv] e by simp
  qed (use sys_invD(2,4,5,8,10,12,13) [OF inv] at(1) req in simp_all)
qed

lemma sys_inv_step:
  assumes "sys_step sha api ids s s'" "sys_inv sha lookup good s"
    and "inj_on sha ids" "\<And>x. length (sha x) = 32"
  shows "sys_inv sha lookup good s'"
  using assms
proof (induction rule: sys_step.induct)
  case (arrive s p ops unique)
  have "unique_ok sha ops (length ops) unique" by (rule preflight_unique_ok [OF arrive.hyps(3)])
  moreover from this have "distinct (map (\<lambda>i. fst (prepared sha ops ! i)) unique)"
    by (rule unique_keys_distinct) (rule inj_on_subset [OF arrive.prems(2) arrive.hyps(2)])
  ultimately show ?case using arrive by (intro sys_inv_arrive) simp_all
next
  case (wake s p r n)
  have "shape_ok sha r" by (rule request_inv_shape [OF sys_invD(3) [OF wake.prems(1) wake.hyps(1)]])
  with wake show ?case by (intro sys_inv_arrive) (simp_all add: shape_ok_def key_at_def [abs_def])
next
  case (reserve_fails s p r i fault e)
  then show ?case by (intro sys_inv_lost) simp_all
next
  case (finished s p r c notif es)
  show ?case by (rule sys_inv_finished [OF finished.prems(1) finished.hyps])
next
  case (rolled_back s p r x)
  show ?case by (rule sys_inv_rolled_back [OF rolled_back.prems(1) rolled_back.hyps])
next
  case (persist s combined n commit outcome d')
  show ?case by (rule sys_inv_persist [OF persist.prems(1) persist.hyps(2,5,1)])
next
  case (cancel s p r)
  show ?case by (rule sys_inv_lost [OF cancel.prems(1) cancel.hyps(1)])
qed (erule sys_inv_reserve sys_inv_hold sys_inv_rollback
    sys_inv_apply sys_inv_give_up sys_inv_finish sys_inv_forget; assumption)+

end

definition sys_reachable ::
  "(bytes \<Rightarrow> bytes) \<Rightarrow> 'd index_api \<Rightarrow> bytes set \<Rightarrow> (bytes \<Rightarrow> bytes option) \<Rightarrow> 'd \<Rightarrow> 'd system \<Rightarrow> bool" where
  "sys_reachable sha api ids ledger d s \<longleftrightarrow> (sys_step sha api ids)\<^sup>*\<^sup>* (sys_init ledger d) s"

context dedup_index
begin

lemma sys_inv_reachable:
  assumes "sys_reachable sha api ids (lookup d) d s" "good d" "inj_on sha ids" "\<And>x. length (sha x) = 32"
  shows "sys_inv sha lookup good s"
  using assms(1) unfolding sys_reachable_def
proof (induction rule: rtranclp_induct)
  case base
  show ?case by (rule sys_init_inv [where good = good and d = d and lookup = lookup, OF assms(2)])
next
  case (step y z)
  then show ?case using sys_inv_step assms(3,4) by blast
qed

end

end
