(* ===== verification/Restart.thy ===== *)
theory Restart
  imports Balances ReservationSteps
begin

text \<open>
  \<open>Store::start\<close>: the balances and the disk index are rebuilt from the snapshot and the
  records of the write-ahead log.  \<open>ins\<close> is the disk index's \<open>insert_many\<close>; the records
  are inserted in chunks of 100000.
\<close>

section \<open>The code\<close>

definition ENTRY_CHUNK :: nat where
  "ENTRY_CHUNK = 100000"

record 'd store =
  st_shards :: "balances list"
  st_published :: balances
  st_memory :: memory
  st_disk :: 'd

definition insert_chunk ::
  "((bytes \<times> bytes) list \<Rightarrow> 'd \<Rightarrow> unit result \<times> 'd) \<Rightarrow> (bytes \<times> bytes) list \<Rightarrow> 'd \<Rightarrow> 'd result" where
  "insert_chunk ins entries d = (case ins entries d of (Inr _, d') \<Rightarrow> Inr d' | (Inl e, _) \<Rightarrow> Inl e)"

text \<open>Push an entry; a full buffer goes to the disk index.\<close>

definition push_entry ::
  "((bytes \<times> bytes) list \<Rightarrow> 'd \<Rightarrow> unit result \<times> 'd) \<Rightarrow> bytes \<times> bytes \<Rightarrow> (bytes \<times> bytes) list \<times> 'd
     \<Rightarrow> ((bytes \<times> bytes) list \<times> 'd) result" where
  "push_entry ins e bd =
     (let (buffer, d) = bd; buffer' = buffer @ [e] in
      if length buffer' \<ge> ENTRY_CHUNK then rbind (insert_chunk ins buffer' d) (\<lambda>d'. Inr ([], d'))
      else Inr (buffer', d))"

definition set_balance :: "(bytes \<Rightarrow> bytes \<Rightarrow> u64) \<Rightarrow> balance_snapshot \<Rightarrow> balances list \<Rightarrow> balances list" where
  "set_balance hash b shards =
     (let s = shard_for hash (bs_owner_id b) (bs_sku b) (length shards)
      in shards[s := (shards ! s)((bs_owner_id b, bs_sku b) \<mapsto> bs_balance b)])"

definition dedup_entry_of :: "(bytes \<Rightarrow> bytes) \<Rightarrow> dedup_snapshot \<Rightarrow> bytes \<times> bytes" where
  "dedup_entry_of sha e = (sha (ds_operation_id e), ds_fingerprint e)"

definition start_snapshot ::
  "(bytes \<Rightarrow> bytes) \<Rightarrow> (bytes \<Rightarrow> bytes \<Rightarrow> u64) \<Rightarrow> ((bytes \<times> bytes) list \<Rightarrow> 'd \<Rightarrow> unit result \<times> 'd) \<Rightarrow> nat
     \<Rightarrow> snapshot_data option \<Rightarrow> 'd \<Rightarrow> (balances list \<times> (bytes \<times> bytes) list \<times> 'd) result" where
  "start_snapshot sha hash ins shard_count snapshot d =
     (let empty = replicate shard_count Map.empty in
      case snapshot of
        None \<Rightarrow> Inr (empty, [], d)
      | Some s \<Rightarrow>
          rbind (for_each (\<lambda>e. push_entry ins (dedup_entry_of sha e)) (sn_dedup s) ([], d)) (\<lambda>(buffer, d').
          Inr (fold (set_balance hash) (sn_balances s) empty, buffer, d')))"

definition recover_operation ::
  "(bytes \<Rightarrow> bytes) \<Rightarrow> (bytes \<Rightarrow> bytes \<Rightarrow> u64) \<Rightarrow> ((bytes \<times> bytes) list \<Rightarrow> 'd \<Rightarrow> unit result \<times> 'd) \<Rightarrow> operation
     \<Rightarrow> bytes set \<times> balances list \<times> (bytes \<times> bytes) list \<times> 'd
     \<Rightarrow> (bytes set \<times> balances list \<times> (bytes \<times> bytes) list \<times> 'd) result" where
  "recover_operation sha hash ins op st =
     (let (ids, shards, buffer, d) = st; id_hash = sha (operation_id op) in
      if id_hash \<in> ids then Inr st
      else let s = op_shard hash (length shards) op;
               shards' = shards[s := add_delta (key_of op) (delta op) (shards ! s)]
           in rbind (push_entry ins (id_hash, fingerprint sha op) (buffer, d)) (\<lambda>(buffer', d').
              Inr (insert id_hash ids, shards', buffer', d')))"

definition store_start ::
  "(bytes \<Rightarrow> bytes) \<Rightarrow> (bytes \<Rightarrow> bytes \<Rightarrow> u64) \<Rightarrow> ((bytes \<times> bytes) list \<Rightarrow> 'd \<Rightarrow> unit result \<times> 'd) \<Rightarrow> nat
     \<Rightarrow> operation list \<Rightarrow> snapshot_data option \<Rightarrow> 'd \<Rightarrow> 'd store result" where
  "store_start sha hash ins shard_count recovered snapshot d =
     rbind (start_snapshot sha hash ins shard_count snapshot d) (\<lambda>(shards, disk_entries, d).
     rbind (for_each (recover_operation sha hash ins) recovered ({}, shards, [], d)) (\<lambda>(_, shards, buffer, d).
     rbind (insert_chunk ins buffer d) (\<lambda>d.
     rbind (insert_chunk ins disk_entries d) (\<lambda>d.
     Inr \<lparr>st_shards = shards, st_published = fold (\<lambda>m acc. acc ++ m) shards Map.empty,
          st_memory = replicate STATE_SHARDS Map.empty, st_disk = d\<rparr>))))"

section \<open>What is rebuilt\<close>

text \<open>The first record of every id.\<close>

fun firsts :: "(bytes \<Rightarrow> bytes) \<Rightarrow> bytes set \<Rightarrow> operation list \<Rightarrow> operation list" where
  "firsts sha ids [] = []"
| "firsts sha ids (op # ops) =
     (if sha (operation_id op) \<in> ids then firsts sha ids ops
      else op # firsts sha (insert (sha (operation_id op)) ids) ops)"

definition entry_of :: "(bytes \<Rightarrow> bytes) \<Rightarrow> operation \<Rightarrow> bytes \<times> bytes" where
  "entry_of sha op = (sha (operation_id op), fingerprint sha op)"

definition row_map :: "balance_snapshot list \<Rightarrow> balances" where
  "row_map rows = map_of (rev (map (\<lambda>b. ((bs_owner_id b, bs_sku b), bs_balance b)) rows))"

definition snapshot_balances :: "snapshot_data option \<Rightarrow> balances" where
  "snapshot_balances s = (case s of None \<Rightarrow> Map.empty | Some x \<Rightarrow> row_map (sn_balances x))"

definition snapshot_entries :: "(bytes \<Rightarrow> bytes) \<Rightarrow> snapshot_data option \<Rightarrow> (bytes \<times> bytes) list" where
  "snapshot_entries sha s = (case s of None \<Rightarrow> [] | Some x \<Rightarrow> map (dedup_entry_of sha) (sn_dedup x))"

lemma add_rev_Cons: "m ++ map_of (rev (e # es)) = m(fst e \<mapsto> snd e) ++ map_of (rev es)"
  by (cases e) (simp add: map_add_assoc del: fun_upd_apply)

lemma firsts_distinct: "distinct (map (\<lambda>op. sha (operation_id op)) (firsts sha ids ops))
    \<and> (\<lambda>op. sha (operation_id op)) ` set (firsts sha ids ops) = (\<lambda>op. sha (operation_id op)) ` set ops - ids"
  by (induction sha ids ops rule: firsts.induct) auto

lemma merged_update:
  assumes ok: "shards_ok hash shards" and s: "s = key_shard hash (length shards) k"
  shows "merged hash (shards[s := (shards ! s)(k \<mapsto> v)]) = (merged hash shards)(k \<mapsto> v)"
    and "shards_ok hash (shards[s := (shards ! s)(k \<mapsto> v)])"
proof -
  have s': "s < length shards" using key_shard_bound [OF ok] s by simp
  show "merged hash (shards[s := (shards ! s)(k \<mapsto> v)]) = (merged hash shards)(k \<mapsto> v)"
    using s s' by (auto simp: merged_def nth_list_update fun_eq_iff)
  show "shards_ok hash (shards[s := (shards ! s)(k \<mapsto> v)])"
    using ok s s' by (auto simp: shards_ok_def nth_list_update)
qed

lemma merged_add_delta:
  assumes "shards_ok hash shards"
  shows "merged hash (shards[op_shard hash (length shards) op := add_delta (key_of op) d (shards ! op_shard hash (length shards) op)])
      = add_delta (key_of op) d (merged hash shards)"
    and "shards_ok hash (shards[op_shard hash (length shards) op := add_delta (key_of op) d (shards ! op_shard hash (length shards) op)])"
  using merged_update [OF assms op_shard_key]
  by (simp_all add: add_delta_def) (simp add: balance_at_def merged_def op_shard_key)

lemma set_balances_merged:
  "shards_ok hash shards \<Longrightarrow> shards_ok hash (fold (set_balance hash) rows shards)
     \<and> length (fold (set_balance hash) rows shards) = length shards
     \<and> merged hash (fold (set_balance hash) rows shards) = merged hash shards ++ row_map rows"
proof (induction rows arbitrary: shards)
  case (Cons b rows)
  let ?k = "(bs_owner_id b, bs_sku b)"
  have set: "set_balance hash b shards
      = shards[key_shard hash (length shards) ?k := (shards ! key_shard hash (length shards) ?k)(?k \<mapsto> bs_balance b)]"
    by (simp add: set_balance_def key_shard_def Let_def)
  have "shards_ok hash (set_balance hash b shards)" "length (set_balance hash b shards) = length shards"
    "merged hash (set_balance hash b shards) = (merged hash shards)(?k \<mapsto> bs_balance b)"
    unfolding set using merged_update [OF Cons.prems refl] by simp_all
  note step = this
  have "merged hash shards ++ row_map (b # rows) = (merged hash shards)(?k \<mapsto> bs_balance b) ++ row_map rows"
    unfolding row_map_def list.map(2) add_rev_Cons by simp
  with Cons.IH [OF step(1)] step(2,3) show ?case by (simp only: fold.simps comp_apply)
qed (simp add: row_map_def)

lemma fold_union_other: "(\<And>m. m \<in> set xs \<Longrightarrow> m k = None) \<Longrightarrow> fold (\<lambda>m acc. acc ++ m) xs acc k = acc k"
proof (induction xs arbitrary: acc)
  case (Cons m xs)
  have "m k = None" by (rule Cons.prems) simp
  moreover have "fold (\<lambda>m acc. acc ++ m) xs (acc ++ m) k = (acc ++ m) k"
    by (rule Cons.IH) (simp add: Cons.prems)
  ultimately show ?case by (simp add: map_add_None map_add_def [of acc m])
qed simp

lemma union_merged:
  assumes "shards_ok hash shards"
  shows "fold (\<lambda>m acc. acc ++ m) shards Map.empty = merged hash shards"
proof
  fix k
  let ?s = "key_shard hash (length shards) k"
  have s: "?s < length shards" by (rule key_shard_bound [OF assms])
  have other: "(shards ! i) k = None" if "i < length shards" "i \<noteq> ?s" for i
  proof (rule ccontr)
    assume "(shards ! i) k \<noteq> None"
    then have "k \<in> dom (shards ! i)" by (simp add: domIff)
    moreover have "\<forall>k \<in> dom (shards ! i). key_shard hash (length shards) k = i"
      using assms that(1) unfolding shards_ok_def by blast
    ultimately show False using that(2) by simp
  qed
  have split: "shards = take ?s shards @ shards ! ?s # drop (Suc ?s) shards" by (rule id_take_nth_drop [OF s])
  have before: "m k = None" if "m \<in> set (take ?s shards)" for m
    using that other s by (auto simp: in_set_conv_nth)
  have after: "m k = None" if "m \<in> set (drop (Suc ?s) shards)" for m
  proof -
    from that obtain i where i: "i < length shards - Suc ?s" "m = shards ! (Suc ?s + i)"
      by (auto simp: in_set_conv_nth)
    with other [of "Suc ?s + i"] show ?thesis by simp
  qed
  have "fold (\<lambda>m acc. acc ++ m) (take ?s shards @ shards ! ?s # drop (Suc ?s) shards) Map.empty k = (shards ! ?s) k"
  proof -
    have 1: "fold (\<lambda>m acc. acc ++ m) (take ?s shards) acc k = acc k" for acc
      by (rule fold_union_other) (rule before)
    have 2: "fold (\<lambda>m acc. acc ++ m) (drop (Suc ?s) shards) acc k = acc k" for acc
      by (rule fold_union_other) (rule after)
    show ?thesis
      unfolding fold_append fold.simps comp_apply 2 by (simp add: map_add_def [of _ "shards ! ?s"] 1 split: option.split)
  qed
  with split show "fold (\<lambda>m acc. acc ++ m) shards Map.empty k = merged hash shards k"
    by (simp add: merged_def)
qed

lemma empty_shards_ok:
  assumes "0 < n" "n < 2 ^ 64"
  shows "shards_ok hash (replicate n Map.empty)" "merged hash (replicate n Map.empty) = Map.empty"
proof -
  show ok: "shards_ok hash (replicate n Map.empty)" using assms by (simp add: shards_ok_def)
  show "merged hash (replicate n Map.empty) = Map.empty"
    using key_shard_bound [OF ok] by (auto simp: merged_def)
qed

context dedup_index
begin

abbreviation ins :: "(bytes \<times> bytes) list \<Rightarrow> 'd \<Rightarrow> unit result \<times> 'd" where
  "ins \<equiv> ix_insert_many api (Inr ())"

lemma insert_chunk_ok:
  assumes "good d" "entries_ok es"
  shows "\<exists>d'. insert_chunk ins es d = Inr d' \<and> good d' \<and> lookup d' = lookup d ++ map_of (rev es)"
proof -
  obtain r d' where run: "ins es d = (r, d')" by (metis surj_pair)
  with insert_many [OF assms run] show ?thesis by (simp add: insert_chunk_def)
qed

text \<open>What the index will know once the buffer is written.\<close>

definition known_with :: "(bytes \<times> bytes) list \<times> 'd \<Rightarrow> bytes \<Rightarrow> bytes option" where
  "known_with bd = lookup (snd bd) ++ map_of (rev (fst bd))"

lemma push_entry_ok:
  assumes "good d" "entries_ok buffer" "length k = 32" "length f = 32"
  shows "\<exists>buffer' d'. push_entry ins (k, f) (buffer, d) = Inr (buffer', d') \<and> good d' \<and> entries_ok buffer'
    \<and> known_with (buffer', d') = (known_with (buffer, d))(k \<mapsto> f)"
proof -
  have ok: "entries_ok (buffer @ [(k, f)])" using assms(2-4) by (auto simp: entries_ok_def)
  from insert_chunk_ok [OF assms(1) this] obtain d' where
    d': "insert_chunk ins (buffer @ [(k, f)]) d = Inr d'" "good d'"
      "lookup d' = lookup d ++ map_of (rev (buffer @ [(k, f)]))" by blast
  have empty: "entries_ok []" by (simp add: entries_ok_def)
  show ?thesis
  proof (cases "ENTRY_CHUNK \<le> length (buffer @ [(k, f)])")
    case True
    with d' empty show ?thesis by (simp add: push_entry_def known_with_def)
  next
    case False
    with ok assms(1) show ?thesis by (simp add: push_entry_def known_with_def)
  qed
qed

lemma push_entries_ok:
  assumes "good d" "entries_ok buffer" "\<forall>e \<in> set es. length (fst (g e)) = 32 \<and> length (snd (g e)) = 32"
  shows "\<exists>buffer' d'. for_each (\<lambda>e. push_entry ins (g e)) es (buffer, d) = Inr (buffer', d') \<and> good d'
    \<and> entries_ok buffer' \<and> known_with (buffer', d') = known_with (buffer, d) ++ map_of (rev (map g es))"
  using assms
proof (induction es arbitrary: buffer d)
  case (Cons e es)
  then have "length (fst (g e)) = 32" "length (snd (g e)) = 32" by simp_all
  from push_entry_ok [OF Cons.prems(1,2) this] obtain b d' where
    p: "push_entry ins (g e) (buffer, d) = Inr (b, d')" "good d'" "entries_ok b"
      "known_with (b, d') = (known_with (buffer, d))(fst (g e) \<mapsto> snd (g e))" by auto
  from Cons.IH [OF p(2,3)] Cons.prems(3) obtain b2 d2 where
    q: "for_each (\<lambda>e. push_entry ins (g e)) es (b, d') = Inr (b2, d2)" "good d2" "entries_ok b2"
      "known_with (b2, d2) = known_with (b, d') ++ map_of (rev (map g es))" by auto
  show ?case
    unfolding list.map(2) add_rev_Cons
    by (rule exI [of _ b2], rule exI [of _ d2]) (use p q in \<open>simp del: fun_upd_apply\<close>)
qed simp

lemma recover_ok:
  assumes "good d" "entries_ok buffer" "shards_ok hash shards" "\<And>x. length (sha x) = 32"
  shows "\<exists>ids' shards' buffer' d'.
      for_each (recover_operation sha hash ins) ops (ids, shards, buffer, d) = Inr (ids', shards', buffer', d')
    \<and> good d' \<and> entries_ok buffer' \<and> shards_ok hash shards' \<and> length shards' = length shards
    \<and> known_with (buffer', d') = known_with (buffer, d) ++ map_of (rev (map (entry_of sha) (firsts sha ids ops)))
    \<and> merged hash shards' = fst (apply_in_order (firsts sha ids ops) (merged hash shards))"
  using assms(1-3)
proof (induction ops arbitrary: ids shards buffer d)
  case (Cons op ops)
  show ?case
  proof (cases "sha (operation_id op) \<in> ids")
    case True
    with Cons.IH [OF Cons.prems, of ids] show ?thesis by (simp add: recover_operation_def)
  next
    case False
    let ?s = "op_shard hash (length shards) op"
    let ?shards = "shards[?s := add_delta (key_of op) (delta op) (shards ! ?s)]"
    have "length (fingerprint sha op) = 32" by (simp add: fingerprint_def assms(4))
    from push_entry_ok [OF Cons.prems(1,2) assms(4) this] obtain b d' where
      p: "push_entry ins (sha (operation_id op), fingerprint sha op) (buffer, d) = Inr (b, d')" "good d'" "entries_ok b"
        "known_with (b, d') = (known_with (buffer, d))(sha (operation_id op) \<mapsto> fingerprint sha op)" by blast
    have step: "recover_operation sha hash ins op (ids, shards, buffer, d)
        = Inr (insert (sha (operation_id op)) ids, ?shards, b, d')"
      using False p(1) by (simp add: recover_operation_def Let_def)
    note m = merged_add_delta [OF Cons.prems(3), of op "delta op"]
    from Cons.IH [OF p(2,3) m(2), of "insert (sha (operation_id op)) ids"] obtain ids2 shards2 b2 d2 where
      q: "for_each (recover_operation sha hash ins) ops (insert (sha (operation_id op)) ids, ?shards, b, d')
          = Inr (ids2, shards2, b2, d2)" "good d2" "entries_ok b2" "shards_ok hash shards2"
        "length shards2 = length shards"
        "known_with (b2, d2) = known_with (b, d')
           ++ map_of (rev (map (entry_of sha) (firsts sha (insert (sha (operation_id op)) ids) ops)))"
        "merged hash shards2 = fst (apply_in_order (firsts sha (insert (sha (operation_id op)) ids) ops) (merged hash ?shards))"
      by (auto simp only: length_list_update)
    have firsts: "firsts sha ids (op # ops) = op # firsts sha (insert (sha (operation_id op)) ids) ops"
      using False by simp
    have known: "known_with (b2, d2) = known_with (buffer, d) ++ map_of (rev (map (entry_of sha) (firsts sha ids (op # ops))))"
      unfolding q(6) p(4) firsts list.map(2) add_rev_Cons by (simp add: entry_of_def)
    have merged: "merged hash shards2 = fst (apply_in_order (firsts sha ids (op # ops)) (merged hash shards))"
      unfolding q(7) firsts m(1) by (simp add: Let_def split_beta)
    show ?thesis
      by (rule exI [of _ ids2], rule exI [of _ shards2], rule exI [of _ b2], rule exI [of _ d2])
        (use q(1-5) step known merged in simp)
  qed
qed simp

lemma start_snapshot_ok:
  assumes "good d" "0 < n" "n < 2 ^ 64" "\<And>x. length (sha x) = 32"
    and "\<forall>(k, f) \<in> set (snapshot_entries sha snapshot). length f = 32"
  shows "\<exists>shards buffer d'. start_snapshot sha hash ins n snapshot d = Inr (shards, buffer, d')
    \<and> good d' \<and> entries_ok buffer \<and> shards_ok hash shards \<and> length shards = n
    \<and> merged hash shards = snapshot_balances snapshot
    \<and> known_with (buffer, d') = lookup d ++ map_of (rev (snapshot_entries sha snapshot))
    \<and> (snapshot_entries sha snapshot = [] \<longrightarrow> buffer = [])"
proof (cases snapshot)
  case None
  with assms(1) empty_shards_ok [OF assms(2,3)] show ?thesis
    by (simp add: start_snapshot_def snapshot_balances_def snapshot_entries_def known_with_def entries_ok_def)
next
  case (Some s)
  have "\<forall>e \<in> set (sn_dedup s). length (fst (dedup_entry_of sha e)) = 32 \<and> length (snd (dedup_entry_of sha e)) = 32"
    using assms(4,5) Some by (auto simp: snapshot_entries_def dedup_entry_of_def)
  from push_entries_ok [OF assms(1) _ this, of "[]"] obtain b d' where
    p: "for_each (\<lambda>e. push_entry ins (dedup_entry_of sha e)) (sn_dedup s) ([], d) = Inr (b, d')" "good d'" "entries_ok b"
      "known_with (b, d') = known_with ([], d) ++ map_of (rev (map (dedup_entry_of sha) (sn_dedup s)))"
    by (auto simp: entries_ok_def)
  have b: "sn_dedup s = [] \<longrightarrow> b = []" using p(1) by auto
  from set_balances_merged [OF empty_shards_ok(1) [OF assms(2,3)], of hash "sn_balances s"]
    empty_shards_ok(2) [OF assms(2,3), of hash] p b Some
  show ?thesis
    by (simp add: start_snapshot_def snapshot_balances_def snapshot_entries_def known_with_def)
qed

lemma store_start_ok:
  assumes "good d" "0 < n" "n < 2 ^ 64" "\<And>x. length (sha x) = 32"
    and "\<forall>(k, f) \<in> set (snapshot_entries sha snapshot). length f = 32"
  shows "\<exists>st. store_start sha hash ins n recovered snapshot d = Inr st
    \<and> good (st_disk st) \<and> shards_ok hash (st_shards st) \<and> length (st_shards st) = n
    \<and> merged hash (st_shards st) = fst (apply_in_order (firsts sha {} recovered) (snapshot_balances snapshot))
    \<and> st_published st = merged hash (st_shards st)
    \<and> dom (lookup (st_disk st)) = dom (lookup d) \<union> fst ` set (snapshot_entries sha snapshot)
        \<union> (\<lambda>op. sha (operation_id op)) ` set recovered
    \<and> (snapshot_entries sha snapshot = [] \<longrightarrow>
        lookup (st_disk st) = lookup d ++ map_of (rev (map (entry_of sha) (firsts sha {} recovered))))"
proof -
  from start_snapshot_ok [OF assms, of hash] obtain shards a d1 where
    s: "start_snapshot sha hash ins n snapshot d = Inr (shards, a, d1)" "good d1" "entries_ok a"
      "shards_ok hash shards" "length shards = n" "merged hash shards = snapshot_balances snapshot"
      "known_with (a, d1) = lookup d ++ map_of (rev (snapshot_entries sha snapshot))"
      "snapshot_entries sha snapshot = [] \<longrightarrow> a = []" by blast
  have "entries_ok []" by (simp add: entries_ok_def)
  from recover_ok [where sha = sha, OF s(2) this s(4) assms(4), where ids = "{}" and ops = recovered] obtain ids shards2 b d2 where
    r: "for_each (recover_operation sha hash ins) recovered ({}, shards, [], d1) = Inr (ids, shards2, b, d2)"
      "good d2" "entries_ok b" "shards_ok hash shards2" "length shards2 = length shards"
      "known_with (b, d2) = known_with ([], d1) ++ map_of (rev (map (entry_of sha) (firsts sha {} recovered)))"
      "merged hash shards2 = fst (apply_in_order (firsts sha {} recovered) (merged hash shards))" by blast
  from insert_chunk_ok [OF r(2,3)] obtain d3 where
    3: "insert_chunk ins b d2 = Inr d3" "good d3" "lookup d3 = lookup d2 ++ map_of (rev b)" by blast
  from insert_chunk_ok [OF 3(2) s(3)] obtain d4 where
    4: "insert_chunk ins a d3 = Inr d4" "good d4" "lookup d4 = lookup d3 ++ map_of (rev a)" by blast
  let ?W = "map_of (rev (map (entry_of sha) (firsts sha {} recovered)))"
  let ?st = "\<lparr>st_shards = shards2, st_published = fold (\<lambda>m acc. acc ++ m) shards2 Map.empty,
      st_memory = replicate STATE_SHARDS Map.empty, st_disk = d4\<rparr>"
  have run: "store_start sha hash ins n recovered snapshot d = Inr ?st"
    by (simp add: store_start_def s(1) r(1) 3(1) 4(1))
  have look: "lookup d4 = lookup d1 ++ ?W ++ map_of (rev a)"
    using r(6) by (simp add: 3(3) 4(3) known_with_def)
  have "dom (map_of (rev (map (entry_of sha) (firsts sha {} recovered))))
      = (\<lambda>op. sha (operation_id op)) ` set (firsts sha {} recovered)"
    by (simp add: dom_map_of_conv_image_fst image_image entry_of_def)
  also have "\<dots> = (\<lambda>op. sha (operation_id op)) ` set recovered" using firsts_distinct [of sha "{}" recovered] by simp
  finally have W: "dom ?W = (\<lambda>op. sha (operation_id op)) ` set recovered" .
  have "dom (known_with (a, d1)) = dom (lookup d) \<union> fst ` set (snapshot_entries sha snapshot)"
    unfolding s(7) by (simp add: dom_map_of_conv_image_fst Un_commute)
  then have "dom (lookup d1) \<union> dom (map_of (rev a)) = dom (lookup d) \<union> fst ` set (snapshot_entries sha snapshot)"
    by (simp add: known_with_def Un_commute)
  then have dom: "dom (lookup d4) = dom (lookup d) \<union> fst ` set (snapshot_entries sha snapshot)
        \<union> (\<lambda>op. sha (operation_id op)) ` set recovered"
    unfolding look using W by auto
  have exact: "snapshot_entries sha snapshot = [] \<longrightarrow> lookup d4 = lookup d ++ ?W"
    using s(7,8) by (auto simp: look known_with_def)
  show ?thesis
    by (rule exI [of _ ?st]) (use run 4(2) r(4,5,7) s(5,6) union_merged [OF r(4)] dom exact in simp)
qed

end

section \<open>Properties\<close>

text \<open>
  Recovery.  \<open>Store::start\<close> succeeds on a sound disk index and rebuilds exactly the
  balances of the snapshot plus the delta of the first log record of every id; the
  published balances are those of the shards; and the disk index then knows every id of the
  snapshot and of the log besides the ids it knew before, so none of them can be applied
  again.
\<close>
theorem start_rebuilds:
  assumes "dedup_index api lookup good" "good d" "0 < n" "n < 2 ^ 64" "\<forall>x. length (sha x) = 32"
    and "\<forall>(k, f) \<in> set (snapshot_entries sha snapshot). length f = 32"
  shows "\<exists>st. store_start sha hash (ix_insert_many api (Inr ())) n recovered snapshot d = Inr st
    \<and> shards_ok hash (st_shards st) \<and> st_published st = merged hash (st_shards st)
    \<and> (\<forall>k. balance_at (merged hash (st_shards st)) k
         = balance_at (snapshot_balances snapshot) k + total_delta (firsts sha {} recovered) k)
    \<and> good (st_disk st)
    \<and> dom (lookup (st_disk st)) = dom (lookup d) \<union> fst ` set (snapshot_entries sha snapshot)
        \<union> (\<lambda>op. sha (operation_id op)) ` set recovered"
proof -
  have len: "length (sha x) = 32" for x using assms(5) by simp
  from dedup_index.store_start_ok [where sha = sha and hash = hash and recovered = recovered,
      OF assms(1-4) len assms(6)] show ?thesis
    by (elim exE conjE) (rule exI, intro conjI allI, assumption, simp_all add: apply_in_order_at)
qed

lemma start_rebuilds_witness:
  "\<exists>st. store_start pad sample_hash (ix_insert_many (disk_index_api alist_api alist_api) (Inr ())) 4
        (sample_batch @ sample_batch) None sample_disk = Inr st
    \<and> shards_ok sample_hash (st_shards st) \<and> st_published st = merged sample_hash (st_shards st)
    \<and> (\<forall>k. balance_at (merged sample_hash (st_shards st)) k
         = balance_at (snapshot_balances None) k + total_delta (firsts pad {} (sample_batch @ sample_batch)) k)
    \<and> (disk_ok alist_of alist_of (st_disk st) \<and> filter_ok alist_of alist_of (st_disk st))
    \<and> dom (disk_index alist_of alist_of (st_disk st)) = dom (disk_index alist_of alist_of sample_disk)
        \<union> fst ` set (snapshot_entries pad None) \<union> (\<lambda>op. pad (operation_id op)) ` set (sample_batch @ sample_batch)"
  by (rule start_rebuilds [OF alist_disk.index.dedup_index_axioms])
    (simp_all add: sample_disk_ok length_pad snapshot_entries_def)

text \<open>
  The rows of a snapshot, put back into shards.
\<close>

lemma dump_row_map:
  assumes "iterates iter" "finite (dom m)"
  shows "distinct (map (\<lambda>b. (bs_owner_id b, bs_sku b)) (dump_rows iter m))
    \<and> (\<forall>b. b \<in> set (dump_rows iter m) \<longleftrightarrow> m (bs_owner_id b, bs_sku b) = Some (bs_balance b))"
proof
  have it: "distinct (map fst (iter m))" "map_of (iter m) = m" using assms by (simp_all add: iterates_def)
  have "map (\<lambda>b. (bs_owner_id b, bs_sku b)) (dump_rows iter m) = map fst (iter m)"
    by (auto simp: dump_rows_def)
  with it(1) show "distinct (map (\<lambda>b. (bs_owner_id b, bs_sku b)) (dump_rows iter m))" by simp
  show "\<forall>b. b \<in> set (dump_rows iter m) \<longleftrightarrow> m (bs_owner_id b, bs_sku b) = Some (bs_balance b)"
  proof
    fix b
    have "b \<in> set (dump_rows iter m) \<longleftrightarrow> ((bs_owner_id b, bs_sku b), bs_balance b) \<in> set (iter m)"
      by (force simp: dump_rows_def)
    also have "\<dots> \<longleftrightarrow> m (bs_owner_id b, bs_sku b) = Some (bs_balance b)"
      using map_of_eq_Some_iff [OF it(1)] it(2) by metis
    finally show "b \<in> set (dump_rows iter m) \<longleftrightarrow> m (bs_owner_id b, bs_sku b) = Some (bs_balance b)" .
  qed
qed

lemma row_map_graph:
  assumes "\<forall>b \<in> set rows. m (bs_owner_id b, bs_sku b) = Some (bs_balance b)"
  shows "row_map rows k = (if k \<in> (\<lambda>b. (bs_owner_id b, bs_sku b)) ` set rows then m k else None)"
  using assms
proof (induction rows rule: rev_induct)
  case (snoc x rows)
  have "row_map (rows @ [x]) k = (if k = (bs_owner_id x, bs_sku x) then Some (bs_balance x) else row_map rows k)"
    by (simp add: row_map_def)
  with snoc show ?case by simp
qed (simp add: row_map_def)

lemma snapshot_rows:
  assumes it: "iterates iter" and ok: "shards_ok hash shards"
  shows "row_map (sn_balances (store_snapshot iter sequence epoch shards)) = merged hash shards"
proof -
  let ?rows = "concat (map (dump_rows iter) shards)"
  have mem: "b \<in> set ?rows \<longleftrightarrow> merged hash shards (bs_owner_id b, bs_sku b) = Some (bs_balance b)" for b
  proof
    assume "b \<in> set ?rows"
    then obtain m where "m \<in> set shards" "b \<in> set (dump_rows iter m)" by auto
    then obtain i where i: "i < length shards" "b \<in> set (dump_rows iter (shards ! i))"
      by (metis in_set_conv_nth)
    have "finite (dom (shards ! i))" using ok i(1) unfolding shards_ok_def by blast
    with dump_row_map [OF it] i(2) have "(shards ! i) (bs_owner_id b, bs_sku b) = Some (bs_balance b)" by blast
    moreover from this ok i(1) have "key_shard hash (length shards) (bs_owner_id b, bs_sku b) = i"
      unfolding shards_ok_def by blast
    ultimately show "merged hash shards (bs_owner_id b, bs_sku b) = Some (bs_balance b)" by (simp add: merged_def)
  next
    assume m: "merged hash shards (bs_owner_id b, bs_sku b) = Some (bs_balance b)"
    let ?i = "key_shard hash (length shards) (bs_owner_id b, bs_sku b)"
    have i: "?i < length shards" by (rule key_shard_bound [OF ok])
    then have "finite (dom (shards ! ?i))" using ok unfolding shards_ok_def by blast
    with dump_row_map [OF it] m have "b \<in> set (dump_rows iter (shards ! ?i))" by (simp add: merged_def)
    moreover have "shards ! ?i \<in> set shards" by (rule nth_mem [OF i])
    ultimately show "b \<in> set ?rows" by (auto simp only: set_concat set_map UN_iff)
  qed
  have rows: "sn_balances (store_snapshot iter sequence epoch shards) = ?rows" by (simp add: store_snapshot_def)
  show ?thesis
  proof
    fix k
    have "merged hash shards k = None" if "k \<notin> (\<lambda>b. (bs_owner_id b, bs_sku b)) ` set ?rows"
    proof (rule ccontr)
      assume "merged hash shards k \<noteq> None"
      then obtain v where "merged hash shards k = Some v" by blast
      then have "\<lparr>bs_owner_id = fst k, bs_sku = snd k, bs_balance = v\<rparr> \<in> set ?rows" by (subst mem) simp
      then have "k \<in> (\<lambda>b. (bs_owner_id b, bs_sku b)) ` set ?rows" by (rule rev_image_eqI) simp
      with that show False ..
    qed
    moreover have "\<forall>b \<in> set ?rows. merged hash shards (bs_owner_id b, bs_sku b) = Some (bs_balance b)"
      by (intro ballI) (rule mem [THEN iffD1])
    ultimately show "row_map (sn_balances (store_snapshot iter sequence epoch shards)) k = merged hash shards k"
      unfolding rows using row_map_graph [of ?rows "merged hash shards" k] by presburger
  qed
qed

text \<open>
  A snapshot survives a restart.  The snapshot the store takes of its shards, started
  from again with an empty log, gives back the same balances, also when the number of shards
  or the hash function has changed in between, and whatever the iteration order of the maps.
\<close>
theorem snapshot_restores_balances:
  assumes "dedup_index api lookup good" "good d" "0 < n" "n < 2 ^ 64" "\<forall>x. length (sha x) = 32"
    and "iterates iter" "shards_ok hash shards"
  shows "\<exists>st. store_start sha hash' (ix_insert_many api (Inr ())) n []
        (Some (store_snapshot iter sequence epoch shards)) d = Inr st
    \<and> shards_ok hash' (st_shards st) \<and> length (st_shards st) = n
    \<and> merged hash' (st_shards st) = merged hash shards \<and> st_published st = merged hash shards
    \<and> lookup (st_disk st) = lookup d"
proof -
  let ?snap = "Some (store_snapshot iter sequence epoch shards)"
  have none: "snapshot_entries sha ?snap = []" by (simp add: snapshot_entries_def store_snapshot_def)
  have rows: "snapshot_balances ?snap = merged hash shards"
    by (simp add: snapshot_balances_def snapshot_rows [OF assms(6,7)])
  have len: "length (sha x) = 32" for x using assms(5) by simp
  have ok: "\<forall>(k, f) \<in> set (snapshot_entries sha ?snap). length f = 32" by (simp add: none)
  from dedup_index.store_start_ok [where sha = sha and hash = hash' and recovered = "[]", OF assms(1-4) len ok]
  show ?thesis unfolding rows none by auto
qed

lemma snapshot_restores_balances_witness:
  "\<exists>st. store_start pad (\<lambda>ow s. 0) (ix_insert_many (disk_index_api alist_api alist_api) (Inr ())) 16 []
        (Some (store_snapshot iter_sorted 7 1 sample_shards)) sample_disk = Inr st
    \<and> shards_ok (\<lambda>ow s. 0) (st_shards st) \<and> length (st_shards st) = 16
    \<and> merged (\<lambda>ow s. 0) (st_shards st) = merged sample_hash sample_shards
    \<and> st_published st = merged sample_hash sample_shards
    \<and> disk_index alist_of alist_of (st_disk st) = disk_index alist_of alist_of sample_disk"
  by (rule snapshot_restores_balances [OF alist_disk.index.dedup_index_axioms])
    (simp_all add: sample_disk_ok length_pad iter_sorted_iterates sample_shards_ok)

text \<open>
  C37: the compaction at startup is not atomic.  The program saves the snapshot of the
  recovered store and only then resets the log.  A crash in between leaves a snapshot that
  contains the records of the log and the log itself: the next start applies every record a
  second time, on top of the snapshot.
\<close>
theorem compaction_crash_doubles:
  assumes "dedup_index api lookup good" "good d" "0 < n" "n < 2 ^ 64" "\<forall>x. length (sha x) = 32" "iterates iter"
    and "store_start sha hash (ix_insert_many api (Inr ())) n recovered None d = Inr st"
    and "store_start sha hash (ix_insert_many api (Inr ())) n recovered
        (Some (store_snapshot iter sequence epoch (st_shards st))) (st_disk st) = Inr st'"
  shows "balance_at (merged hash (st_shards st')) k = 2 * total_delta (firsts sha {} recovered) k"
proof -
  have len: "length (sha x) = 32" for x using assms(5) by simp
  have "\<forall>(k, f) \<in> set (snapshot_entries sha None). length f = 32" by (simp add: snapshot_entries_def)
  from dedup_index.store_start_ok [where sha = sha and hash = hash and recovered = recovered, OF assms(1-4) len this] assms(7)
  have st: "good (st_disk st)" "shards_ok hash (st_shards st)"
    "merged hash (st_shards st) = fst (apply_in_order (firsts sha {} recovered) (snapshot_balances None))" by auto
  let ?snap = "Some (store_snapshot iter sequence epoch (st_shards st))"
  have "\<forall>(k, f) \<in> set (snapshot_entries sha ?snap). length f = 32"
    by (simp add: snapshot_entries_def store_snapshot_def)
  from dedup_index.store_start_ok [where sha = sha and hash = hash and recovered = recovered,
      OF assms(1) st(1) assms(3,4) len this] assms(8)
  have "merged hash (st_shards st') = fst (apply_in_order (firsts sha {} recovered) (snapshot_balances ?snap))" by auto
  moreover have "snapshot_balances ?snap = merged hash (st_shards st)"
    by (simp add: snapshot_balances_def snapshot_rows [OF assms(6) st(2)])
  ultimately show ?thesis
    by (simp add: apply_in_order_at st(3)) (simp add: snapshot_balances_def balance_at_def)
qed

definition started_store :: "operation list \<Rightarrow> snapshot_data option \<Rightarrow> (sorted_alist, sorted_alist) disk
    \<Rightarrow> (sorted_alist, sorted_alist) disk store" where
  "started_store recovered snapshot d =
     projr (store_start pad sample_hash (ix_insert_many (disk_index_api alist_api alist_api) (Inr ())) 4 recovered snapshot d)"

lemma started_store_ok:
  assumes "disk_ok alist_of alist_of d \<and> filter_ok alist_of alist_of d" "snapshot_entries pad snapshot = []"
  shows "store_start pad sample_hash (ix_insert_many (disk_index_api alist_api alist_api) (Inr ())) 4 recovered snapshot d
      = Inr (started_store recovered snapshot d)
    \<and> disk_ok alist_of alist_of (st_disk (started_store recovered snapshot d))
    \<and> filter_ok alist_of alist_of (st_disk (started_store recovered snapshot d))"
proof -
  have "\<forall>(k, f) \<in> set (snapshot_entries pad snapshot). length f = 32" using assms(2) by simp
  from alist_disk.index.store_start_ok [where sha = pad and hash = sample_hash and recovered = recovered
      and n = 4, OF assms(1) _ _ length_pad this]
  obtain st where st: "store_start pad sample_hash (ix_insert_many (disk_index_api alist_api alist_api) (Inr ())) 4
      recovered snapshot d = Inr st" "disk_ok alist_of alist_of (st_disk st)" "filter_ok alist_of alist_of (st_disk st)"
    by auto
  then have "started_store recovered snapshot d = st" by (simp add: started_store_def)
  with st show ?thesis by simp
qed

lemma compaction_crash_doubles_witness:
  "let st = started_store sample_batch None sample_disk in
   balance_at (merged sample_hash (st_shards (started_store sample_batch
      (Some (store_snapshot iter_sorted 7 1 (st_shards st))) (st_disk st)))) (ascii ''ann'', ascii ''bolt'') = 6"
proof -
  let ?st = "started_store sample_batch None sample_disk"
  let ?snap = "Some (store_snapshot iter_sorted 7 1 (st_shards ?st))"
  have none: "snapshot_entries pad None = []" "snapshot_entries pad ?snap = []"
    by (simp_all add: snapshot_entries_def store_snapshot_def)
  have d: "disk_ok alist_of alist_of sample_disk \<and> filter_ok alist_of alist_of sample_disk"
    by (simp add: sample_disk_ok)
  note s1 = started_store_ok [OF d none(1), of sample_batch]
  note s2 = started_store_ok [OF s1 [THEN conjunct2] none(2), of sample_batch]
  have "balance_at (merged sample_hash (st_shards (started_store sample_batch ?snap (st_disk ?st))))
      (ascii ''ann'', ascii ''bolt'') = 2 * total_delta (firsts pad {} sample_batch) (ascii ''ann'', ascii ''bolt'')"
    by (rule compaction_crash_doubles [where n = 4 and d = sample_disk and st = ?st and iter = iter_sorted
          and sequence = 7 and epoch = 1,
          OF alist_disk.index.dedup_index_axioms d])
      (use s1 s2 in \<open>simp_all add: length_pad iter_sorted_iterates\<close>)
  also have "\<dots> = 6"
    by (simp add: sample_batch_def sample_op_def ascii_def key_of_def pad_def)
  finally show ?thesis by (simp add: Let_def)
qed

end
