(* ===== verification/Preflight.thy ===== *)
theory Preflight
  imports Reservation
begin

text \<open>
  What \<open>preflight_batch\<close> and \<open>finish_batch\<close> do when a request runs alone: the outcome is
  decided by what the memory and the disk index know, a rejected or blocked batch leaves the
  memory as it was, and finishing turns the reservations into committed entries.
\<close>

section \<open>All shards\<close>

definition indices_in :: "(bytes \<times> bytes) list \<Rightarrow> nat set \<Rightarrow> nat list \<Rightarrow> nat list" where
  "indices_in prep S unique = filter (\<lambda>i. dedup_shard (fst (prep ! i)) \<in> S) unique"

lemma reservations_shard:
  "reservations prep rid js k \<noteq> None \<Longrightarrow> \<forall>i \<in> set js. dedup_shard (fst (prep ! i)) = s \<Longrightarrow> dedup_shard k = s"
  using reservations_Some by fastforce

lemma mview_other:
  assumes "mem_at mem' = mem_at mem ++ reservations prep rid js"
    and "\<forall>i \<in> set js. dedup_shard (fst (prep ! i)) = s" "dedup_shard k \<noteq> s"
  shows "mem_at mem' k = mem_at mem k" "mview mem' look k = mview mem look k"
proof -
  have "reservations prep rid js k = None" using reservations_shard [OF _ assms(2)] assms(3) by blast
  then show "mem_at mem' k = mem_at mem k" by (simp add: assms(1) map_add_def)
  then show "mview mem' look k = mview mem look k" by (simp add: mview_def view_def)
qed

lemma stop_reason_mono: "stop_reason prep ops v is x \<Longrightarrow> set is \<subseteq> set is' \<Longrightarrow> stop_reason prep ops v is' x"
  unfolding stop_reason_def by blast

lemma reservations_append:
  assumes "\<forall>i \<in> set js1. \<forall>j \<in> set js2. fst (prep ! i) \<noteq> fst (prep ! j)"
  shows "reservations prep rid js1 ++ reservations prep rid js2 = reservations prep rid (js1 @ js2)"
proof -
  have "dom (reservations prep rid js1) \<inter> dom (reservations prep rid js2) = {}"
    unfolding reservations_dom using assms by blast
  then have "reservations prep rid js1 ++ reservations prep rid js2 = reservations prep rid js2 ++ reservations prep rid js1"
    by (rule map_add_comm)
  then show ?thesis by (simp add: reservations_def)
qed

lemma marked_append: "marked (js1 @ js2) new = marked js2 (marked js1 new)"
  by (simp add: marked_def)

lemma reserve_shards_effect:
  assumes "mem_ok mem" "distinct (map (\<lambda>i. fst (prep ! i)) unique)" "distinct ss" "\<forall>s \<in> set ss. s < STATE_SHARDS"
    and get: "\<And>keys. get_many keys = Inr (map look keys)"
  shows "\<exists>js mem' out. reserve_shards get_many rid prep ops unique ss (mem, new, res)
      = ((mem', marked js new, res @ map (\<lambda>i. fst (prep ! i)) js), out)
    \<and> mem_ok mem' \<and> set js \<subseteq> set (indices_in prep (set ss) unique) \<and> distinct js
    \<and> mem_at mem' = mem_at mem ++ reservations prep rid js
    \<and> (\<forall>i \<in> set js. mview mem look (fst (prep ! i)) = None)
    \<and> (case out of
         Scanned \<Rightarrow> \<forall>i \<in> set (indices_in prep (set ss) unique) - set js.
           mview mem look (fst (prep ! i)) = Some (Committed (snd (prep ! i)))
       | Stopped x \<Rightarrow> stop_reason prep ops (mview mem look) (indices_in prep (set ss) unique) x
       | DiskError e \<Rightarrow> False)"
  using assms(1,3,4)
proof (induction ss arbitrary: mem new res)
  case Nil
  then show ?case
    by (intro exI [of _ "[]"] exI [of _ mem] exI [of _ Scanned])
      (simp add: reservations_def marked_def indices_in_def)
next
  case (Cons s ss)
  have s: "s < STATE_SHARDS" "s \<notin> set ss" using Cons.prems by simp_all
  let ?key = "\<lambda>i. fst (prep ! i)"
  from reserve_shard_effect [OF Cons.prems(1) s(1) assms(2) get, of rid ops new res] obtain js m x where
    e: "reserve_shard get_many rid prep ops unique s (mem, new, res) = Inr ((m, marked js new, res @ map ?key js), x)"
      "mem_ok m" "set js \<subseteq> set (shard_indices prep unique s)" "distinct js"
      "mem_at m = mem_at mem ++ reservations prep rid js" "\<forall>i \<in> set js. mview mem look (?key i) = None"
      "case x of None \<Rightarrow> \<forall>i \<in> set (shard_indices prep unique s) - set js. mview mem look (?key i) = Some (Committed (snd (prep ! i)))
       | Some y \<Rightarrow> stop_reason prep ops (mview mem look) (shard_indices prep unique s) y" by blast
  have js: "set js \<subseteq> set unique" "\<forall>i \<in> set js. dedup_shard (?key i) = s"
    using e(3) by (auto simp: shard_indices_def)
  have sub: "set (shard_indices prep unique s) \<subseteq> set (indices_in prep (set (s # ss)) unique)"
    "set (indices_in prep (set ss) unique) \<subseteq> set (indices_in prep (set (s # ss)) unique)"
    by (auto simp: shard_indices_def indices_in_def)
  show ?case
  proof (cases x)
    case (Some y)
    with e(7) stop_reason_mono [OF _ sub(1)] have
      stop: "stop_reason prep ops (mview mem look) (indices_in prep (set (s # ss)) unique) y" by simp
    have "set js \<subseteq> set (indices_in prep (set (s # ss)) unique)" using e(3) sub(1) by blast
    with e(1,2,4-6) Some stop show ?thesis
      by (intro exI [of _ js] exI [of _ m] exI [of _ "Stopped y"]) simp
  next
    case None
    have todo: "distinct ss" "\<forall>s \<in> set ss. s < STATE_SHARDS" using Cons.prems(2,3) by simp_all
    from Cons.IH [OF e(2) todo, of "marked js new" "res @ map ?key js"] obtain js2 m2 out where
      r: "reserve_shards get_many rid prep ops unique ss (m, marked js new, res @ map ?key js)
          = ((m2, marked js2 (marked js new), (res @ map ?key js) @ map ?key js2), out)"
        "mem_ok m2" "set js2 \<subseteq> set (indices_in prep (set ss) unique)" "distinct js2"
        "mem_at m2 = mem_at m ++ reservations prep rid js2" "\<forall>i \<in> set js2. mview m look (?key i) = None"
        "case out of Scanned \<Rightarrow> \<forall>i \<in> set (indices_in prep (set ss) unique) - set js2. mview m look (?key i) = Some (Committed (snd (prep ! i)))
         | Stopped x \<Rightarrow> stop_reason prep ops (mview m look) (indices_in prep (set ss) unique) x | DiskError e \<Rightarrow> False" by blast
    have other: "mview m look (?key i) = mview mem look (?key i)" if "i \<in> set (indices_in prep (set ss) unique)" for i
      by (rule mview_other(2) [OF e(5) js(2)]) (use that s(2) in \<open>auto simp: indices_in_def\<close>)
    have apart: "\<forall>i \<in> set js. \<forall>j \<in> set js2. ?key i \<noteq> ?key j"
    proof (intro ballI notI)
      fix i j
      assume ij: "i \<in> set js" "j \<in> set js2" "?key i = ?key j"
      have "dedup_shard (?key j) \<in> set ss" using r(3) ij(2) by (auto simp: indices_in_def)
      moreover have "dedup_shard (?key i) = s" using js(2) ij(1) by blast
      ultimately show False using s(2) ij(3) by simp
    qed
    have mem: "mem_at m2 = mem_at mem ++ reservations prep rid (js @ js2)"
      by (simp add: r(5) e(5) reservations_append [OF apart, symmetric] map_add_assoc)
    have free: "\<forall>i \<in> set (js @ js2). mview mem look (?key i) = None"
      using e(6) r(3,6) other by (metis Un_iff set_append subsetD)
    have split: "set (indices_in prep (set (s # ss)) unique) = set (shard_indices prep unique s) \<union> set (indices_in prep (set ss) unique)"
      by (auto simp: indices_in_def shard_indices_def)
    have dist: "distinct (js @ js2)" using e(4) r(4) apart by auto
    have out: "case out of
         Scanned \<Rightarrow> \<forall>i \<in> set (indices_in prep (set (s # ss)) unique) - set (js @ js2). mview mem look (?key i) = Some (Committed (snd (prep ! i)))
       | Stopped x \<Rightarrow> stop_reason prep ops (mview mem look) (indices_in prep (set (s # ss)) unique) x | DiskError e \<Rightarrow> False"
    proof (cases out)
      case Scanned
      have "mview mem look (?key i) = Some (Committed (snd (prep ! i)))"
        if "i \<in> set (indices_in prep (set (s # ss)) unique) - set (js @ js2)" for i
      proof (cases "i \<in> set (indices_in prep (set ss) unique)")
        case True
        with that r(7) Scanned have "mview m look (?key i) = Some (Committed (snd (prep ! i)))" by simp
        with other [OF True] show ?thesis by simp
      next
        case False
        with that e(7) None show ?thesis unfolding split by simp
      qed
      with Scanned show ?thesis by simp
    next
      case (Stopped y)
      with r(7) have "stop_reason prep ops (mview m look) (indices_in prep (set ss) unique) y" by simp
      then have "stop_reason prep ops (mview mem look) (indices_in prep (set ss) unique) y"
        by (subst stop_reason_cong [of _ _ _ "mview m look"]) (simp_all add: other)
      then have "stop_reason prep ops (mview mem look) (indices_in prep (set (s # ss)) unique) y"
        by (rule stop_reason_mono [OF _ sub(2)])
      with Stopped show ?thesis by simp
    qed (use r(7) in simp)
    have incl: "set (js @ js2) \<subseteq> set (indices_in prep (set (s # ss)) unique)"
      using e(3) r(3) sub by auto
    have run: "reserve_shards get_many rid prep ops unique (s # ss) (mem, new, res)
        = ((m2, marked (js @ js2) new, res @ map ?key (js @ js2)), out)"
      using e(1) None r(1) by (simp add: marked_append)
    show ?thesis
      by (rule exI [of _ "js @ js2"], rule exI [of _ m2], rule exI [of _ out], intro conjI)
        (fact run r(2) incl dist mem free out)+
  qed
qed

section \<open>Rollback and finish\<close>

lemma rollback_shards_at:
  assumes "mem_ok mem" "\<forall>s \<in> set ss. s < STATE_SHARDS"
  shows "mem_ok (fold (rollback_shard rid keys) ss mem) \<and> mem_at (fold (rollback_shard rid keys) ss mem) k =
      (if dedup_shard k \<in> set ss \<and> k \<in> set keys \<and> own_pending rid (mem_at mem k) then None else mem_at mem k)"
  using assms
proof (induction ss arbitrary: mem)
  case (Cons s ss)
  then have s: "s < STATE_SHARDS" "\<forall>s \<in> set ss. s < STATE_SHARDS" by simp_all
  note at = rollback_shard_at [OF Cons.prems(1) s(1), of rid keys]
  from Cons.IH [OF at(1) s(2)] show ?case by (auto simp: at(2) own_pending_def)
qed simp

lemma rollback_at:
  assumes "mem_ok mem"
  shows "mem_ok (rollback_reservation rid keys mem)"
    and "mem_at (rollback_reservation rid keys mem) k =
      (if k \<in> set keys \<and> own_pending rid (mem_at mem k) then None else mem_at mem k)"
  using rollback_shards_at [OF assms, of "[0..<STATE_SHARDS]" rid keys k] by (simp_all add: rollback_reservation_def)

lemma finish_shards_at:
  assumes "mem_ok mem" "distinct keys" "distinct ss" "\<forall>s \<in> set ss. s < STATE_SHARDS"
    and "\<forall>k \<in> set keys. dedup_shard k \<in> set ss \<longrightarrow> mem_at mem k = Some (Pending (Some (fp k)) rid)"
  shows "\<exists>mem' notif' entries'. fold (finish_shard committed keys) ss (mem, notif, entries) = (mem', notif', entries')
    \<and> mem_ok mem' \<and> set entries' = set entries \<union> (if committed then (\<lambda>k. (k, fp k)) ` {k \<in> set keys. dedup_shard k \<in> set ss} else {})
    \<and> (\<forall>x. mem_at mem' x = (if x \<in> set keys \<and> dedup_shard x \<in> set ss
          then (if committed then Some (Committed (fp x)) else None) else mem_at mem x))"
  using assms
proof (induction ss arbitrary: mem notif entries)
  case (Cons s ss)
  have s: "s < STATE_SHARDS" "distinct ss" "\<forall>s \<in> set ss. s < STATE_SHARDS" "s \<notin> set ss"
    using Cons.prems(3,4) by simp_all
  have "\<forall>k \<in> set keys. dedup_shard k = s \<longrightarrow> mem_at mem k = Some (Pending (Some (fp k)) rid)"
    using Cons.prems(5) by simp
  from finish_shard_at [OF Cons.prems(1) s(1) Cons.prems(2) this, of committed notif entries]
  obtain m n e where f: "finish_shard committed keys s (mem, notif, entries) = (m, n, e)" "mem_ok m"
    "e = (if committed then entries @ map (\<lambda>k. (k, fp k)) (filter (\<lambda>k. dedup_shard k = s) keys) else entries)"
    "\<forall>x. mem_at m x = (if x \<in> set keys \<and> dedup_shard x = s
          then (if committed then Some (Committed (fp x)) else None) else mem_at mem x)" by blast
  have "\<forall>k \<in> set keys. dedup_shard k \<in> set ss \<longrightarrow> mem_at m k = Some (Pending (Some (fp k)) rid)"
    using Cons.prems(5) f(4) s(4) by auto
  from Cons.IH [OF f(2) Cons.prems(2) s(2,3) this, of n e] obtain m2 n2 e2 where
    g: "fold (finish_shard committed keys) ss (m, n, e) = (m2, n2, e2)" "mem_ok m2"
      "set e2 = set e \<union> (if committed then (\<lambda>k. (k, fp k)) ` {k \<in> set keys. dedup_shard k \<in> set ss} else {})"
      "\<forall>x. mem_at m2 x = (if x \<in> set keys \<and> dedup_shard x \<in> set ss
          then (if committed then Some (Committed (fp x)) else None) else mem_at m x)" by blast
  have "set e2 = set entries \<union> (if committed then (\<lambda>k. (k, fp k)) ` {k \<in> set keys. dedup_shard k \<in> set (s # ss)} else {})"
    unfolding g(3) f(3) by auto
  moreover have "\<forall>x. mem_at m2 x = (if x \<in> set keys \<and> dedup_shard x \<in> set (s # ss)
          then (if committed then Some (Committed (fp x)) else None) else mem_at mem x)"
    using g(4) f(4) by auto
  ultimately show ?case using f(1) g(1,2) by simp
qed simp

section \<open>The outcome of a preflight\<close>

definition no_pending :: "memory \<Rightarrow> bool" where
  "no_pending mem \<longleftrightarrow> (\<forall>k f n. mem_at mem k \<noteq> Some (Pending f n))"

text \<open>What the service has accepted, when no request is in progress.\<close>

definition ledger_of :: "memory \<Rightarrow> (bytes \<Rightarrow> bytes option) \<Rightarrow> bytes \<Rightarrow> bytes option" where
  "ledger_of mem look k = (case mem_at mem k of Some (Committed f) \<Rightarrow> Some f | _ \<Rightarrow> look k)"

text \<open>A batch whose operations agree with each other and with what was accepted.\<close>

definition batch_consistent :: "(bytes \<Rightarrow> bytes) \<Rightarrow> (bytes \<Rightarrow> bytes option) \<Rightarrow> operation list \<Rightarrow> bool" where
  "batch_consistent sha L ops \<longleftrightarrow>
     (\<forall>op \<in> set ops. L (sha (operation_id op)) \<in> {None, Some (fingerprint sha op)})
     \<and> (\<forall>op \<in> set ops. \<forall>op' \<in> set ops. operation_id op = operation_id op' \<longrightarrow> fingerprint sha op = fingerprint sha op')"

text \<open>An operation that makes a batch inconsistent.\<close>

definition contradicts :: "(bytes \<Rightarrow> bytes) \<Rightarrow> (bytes \<Rightarrow> bytes option) \<Rightarrow> operation list \<Rightarrow> operation \<Rightarrow> bool" where
  "contradicts sha L ops op \<longleftrightarrow>
     L (sha (operation_id op)) \<notin> {None, Some (fingerprint sha op)}
     \<or> (\<exists>op' \<in> set ops. operation_id op = operation_id op' \<and> fingerprint sha op \<noteq> fingerprint sha op')"

text \<open>The operation at \<open>i\<close> is new: its id is not known and does not occur before in the batch.\<close>

definition first_use :: "(bytes \<Rightarrow> bytes) \<Rightarrow> (bytes \<Rightarrow> bytes option) \<Rightarrow> operation list \<Rightarrow> nat \<Rightarrow> bool" where
  "first_use sha L ops i \<longleftrightarrow> L (sha (operation_id (ops ! i))) = None
     \<and> operation_id (ops ! i) \<notin> operation_id ` set (take i ops)"

definition fresh_flags :: "(bytes \<Rightarrow> bytes) \<Rightarrow> (bytes \<Rightarrow> bytes option) \<Rightarrow> operation list \<Rightarrow> bool list" where
  "fresh_flags sha L ops = map (first_use sha L ops) [0..<length ops]"

lemma unique_first:
  assumes "unique_ok sha ops (length ops) unique" "i < length ops"
  shows "i \<in> set unique \<longleftrightarrow> operation_id (ops ! i) \<notin> operation_id ` set (take i ops)"
proof -
  have inj: "inj_on (\<lambda>i. operation_id (ops ! i)) (set unique)"
    using assms(1) by (simp add: unique_ok_def distinct_map)
  have rep: "\<exists>k \<in> set unique. k \<le> j \<and> operation_id (ops ! k) = operation_id (ops ! j)" if "j < length ops" for j
    using assms(1) that unfolding unique_ok_def by blast
  show ?thesis
  proof
    assume i: "i \<in> set unique"
    show "operation_id (ops ! i) \<notin> operation_id ` set (take i ops)"
    proof
      assume "operation_id (ops ! i) \<in> operation_id ` set (take i ops)"
      then obtain j where j: "j < i" "operation_id (ops ! j) = operation_id (ops ! i)"
        using assms(2) by (auto simp: in_set_conv_nth)
      from rep [of j] j(1) assms(2) obtain k where k: "k \<in> set unique" "k \<le> j" "operation_id (ops ! k) = operation_id (ops ! j)" by auto
      from inj_onD [OF inj _ k(1) i] k(3) j(2) have "k = i" by simp
      with k(2) j(1) show False by simp
    qed
  next
    assume new: "operation_id (ops ! i) \<notin> operation_id ` set (take i ops)"
    from rep [OF assms(2)] obtain k where k: "k \<in> set unique" "k \<le> i" "operation_id (ops ! k) = operation_id (ops ! i)" by blast
    have "k = i"
    proof (rule ccontr)
      assume "k \<noteq> i"
      with k(2) assms(2) have "k < length (take i ops)" "take i ops ! k = ops ! k" by simp_all
      then have "ops ! k \<in> set (take i ops)" by (metis nth_mem)
      with new k(3) show False by (metis imageI)
    qed
    with k(1) show "i \<in> set unique" by simp
  qed
qed

lemma mview_ledger: "no_pending mem \<Longrightarrow> mview mem look k = map_option Committed (ledger_of mem look k)"
  by (auto simp: no_pending_def mview_def view_def ledger_of_def split: option.splits dedup_entry.splits)

lemma preflight_unique_fails:
  "preflight_unique sha first k ops u = Inl e \<Longrightarrow>
     \<exists>op \<in> set ops. e = ConflictError (operation_id op)
       \<and> ((\<exists>f. first (operation_id op) = Some f \<and> f \<noteq> fingerprint sha op)
          \<or> (\<exists>op' \<in> set ops. operation_id op = operation_id op' \<and> fingerprint sha op \<noteq> fingerprint sha op'))"
proof (induction sha first k ops u rule: preflight_unique.induct)
  case (2 sha first k op ops u)
  show ?case
  proof (cases "first (operation_id op)")
    case None
    with "2.prems" have "preflight_unique sha (first(operation_id op \<mapsto> fingerprint sha op)) (Suc k) ops (u @ [k]) = Inl e"
      by simp
    from "2.IH"(1) [OF None this] obtain x where x: "x \<in> set ops" "e = ConflictError (operation_id x)"
      "(\<exists>f. (first(operation_id op \<mapsto> fingerprint sha op)) (operation_id x) = Some f \<and> f \<noteq> fingerprint sha x)
       \<or> (\<exists>op' \<in> set ops. operation_id x = operation_id op' \<and> fingerprint sha x \<noteq> fingerprint sha op')" by blast
    have "(\<exists>f. first (operation_id x) = Some f \<and> f \<noteq> fingerprint sha x)
       \<or> (\<exists>op' \<in> set (op # ops). operation_id x = operation_id op' \<and> fingerprint sha x \<noteq> fingerprint sha op')"
      using x(3) by (cases "operation_id x = operation_id op") auto
    with x(1,2) show ?thesis by (intro bexI [of _ x]) simp_all
  next
    case (Some f)
    show ?thesis
    proof (cases "f = fingerprint sha op")
      case True
      with Some "2.prems" have "preflight_unique sha first (Suc k) ops u = Inl e" by simp
      with "2.IH"(2) [OF Some] True show ?thesis by auto
    next
      case False
      with Some "2.prems" show ?thesis by auto
    qed
  qed
qed simp

lemma preflight_unique_total:
  assumes "batch_consistent sha L ops"
  shows "\<exists>unique. preflight_unique sha Map.empty 0 ops [] = Inr unique"
proof (cases "preflight_unique sha Map.empty 0 ops []")
  case (Inl e)
  from preflight_unique_fails [OF this] obtain op op' where "op \<in> set ops" "op' \<in> set ops"
    "operation_id op = operation_id op'" "fingerprint sha op \<noteq> fingerprint sha op'" by auto
  with assms show ?thesis unfolding batch_consistent_def by blast
qed simp

text \<open>A preflight that meets no other request: it reserves exactly the unknown ids, or finds a conflict and restores the memory.\<close>

lemma preflight_round_alone:
  assumes mem: "mem_ok mem" "no_pending mem" and u: "unique_ok sha ops (length ops) unique"
    and dist: "distinct (map (\<lambda>i. fst (prepared sha ops ! i)) unique)"
    and get: "\<And>keys. get_many keys = Inr (map look keys)"
  shows "\<exists>mem' out. preflight_round sha get_many rid ops unique mem = (mem', out) \<and> mem_ok mem' \<and>
    (case out of
       Ready new \<Rightarrow> \<exists>js. new = marked js (replicate (length ops) False) \<and> distinct js
          \<and> set js = {i \<in> set unique. ledger_of mem look (fst (prepared sha ops ! i)) = None}
          \<and> mem_at mem' = mem_at mem ++ reservations (prepared sha ops) rid js
          \<and> (\<forall>i \<in> set unique. ledger_of mem look (fst (prepared sha ops ! i)) \<in> {None, Some (snd (prepared sha ops ! i))})
     | Rejected e \<Rightarrow> mem_at mem' = mem_at mem
          \<and> (\<exists>i \<in> set unique. e = ConflictError (operation_id (ops ! i))
              \<and> ledger_of mem look (fst (prepared sha ops ! i)) \<notin> {None, Some (snd (prepared sha ops ! i))})
     | Blocked n \<Rightarrow> False)"
proof -
  let ?prep = "prepared sha ops" and ?L = "ledger_of mem look"
  let ?key = "\<lambda>i. fst (prepared sha ops ! i)" and ?fp = "\<lambda>i. snd (prepared sha ops ! i)"
  note view = mview_ledger [OF mem(2), of look]
  have all: "indices_in ?prep (set [0..<STATE_SHARDS]) unique = unique" by (simp add: indices_in_def)
  from reserve_shards_effect [where prep = ?prep and unique = unique and ss = "[0..<STATE_SHARDS]" and get_many = get_many
      and look = look and rid = rid and ops = ops and new = "replicate (length ops) False" and res = "[]", OF mem(1) dist _ _ get]
  obtain js m out where
    r: "reserve_shards get_many rid ?prep ops unique [0..<STATE_SHARDS] (mem, replicate (length ops) False, [])
        = ((m, marked js (replicate (length ops) False), map ?key js), out)" "mem_ok m" "set js \<subseteq> set unique" "distinct js"
      "mem_at m = mem_at mem ++ reservations ?prep rid js" and
    free: "\<forall>i \<in> set js. mview mem look (?key i) = None" and
    stop: "case out of Scanned \<Rightarrow> \<forall>i \<in> set unique - set js. mview mem look (?key i) = Some (Committed (?fp i))
       | Stopped x \<Rightarrow> stop_reason ?prep ops (mview mem look) unique x | DiskError e \<Rightarrow> False"
    unfolding all by auto
  have known: "\<forall>i \<in> set js. ?L (?key i) = None" using free by (simp add: view)
  have undo: "mem_at (rollback_reservation rid (map ?key js) m) = mem_at mem"
  proof
    fix k
    have "\<not> own_pending rid (mem_at mem k)" using mem(2) by (auto simp: own_pending_def no_pending_def)
    moreover have "reservations ?prep rid js k = None \<longleftrightarrow> k \<notin> ?key ` set js"
      using reservations_dom [of ?prep rid js] by (metis domIff)
    moreover have "own_pending rid (reservations ?prep rid js k)" if "k \<in> ?key ` set js"
    proof -
      from that reservations_dom [of ?prep rid js] obtain e where e: "reservations ?prep rid js k = Some e" by (metis domD)
      from reservations_Some [OF this] e show ?thesis by (auto simp: own_pending_def)
    qed
    moreover have "mem_at mem k = None" if "k \<in> ?key ` set js"
    proof -
      from that known have "?L k = None" by auto
      with mem(2) show ?thesis by (auto simp: ledger_of_def no_pending_def split: option.splits dedup_entry.splits)
    qed
    ultimately show "mem_at (rollback_reservation rid (map ?key js) m) k = mem_at mem k"
      unfolding rollback_at(2) [OF r(2)] r(5) by (auto simp: map_add_def split: option.splits)
  qed
  show ?thesis
  proof (cases out)
    case Scanned
    with stop have rest_known: "\<forall>i \<in> set unique - set js. ?L (?key i) = Some (?fp i)" by (simp add: view)
    have split: "?L (?key i) = None \<longleftrightarrow> i \<in> set js" "?L (?key i) \<in> {None, Some (?fp i)}" if "i \<in> set unique" for i
    proof -
      have 1: "i \<notin> set js \<Longrightarrow> ?L (?key i) = Some (?fp i)" by (rule rest_known [rule_format]) (simp add: that)
      have 2: "i \<in> set js \<Longrightarrow> ?L (?key i) = None" by (rule known [rule_format])
      show "?L (?key i) = None \<longleftrightarrow> i \<in> set js" using 1 2 by (cases "i \<in> set js") simp_all
      show "?L (?key i) \<in> {None, Some (?fp i)}" using 1 2 by (cases "i \<in> set js") simp_all
    qed
    then have js: "set js = {i \<in> set unique. ?L (?key i) = None}" using r(3) by auto
    have "\<forall>i \<in> set unique. ?L (?key i) \<in> {None, Some (?fp i)}" using split(2) by blast
    with js r(1,2,4,5) Scanned show ?thesis by (auto simp: preflight_round_def)
  next
    case (Stopped x)
    with stop obtain i where i: "i \<in> set unique" and why: "case x of
        WaitFor n \<Rightarrow> mview mem look (?key i) = Some (Pending (Some (?fp i)) n)
      | Conflict c \<Rightarrow> c = operation_id (ops ! i) \<and> mview mem look (?key i) \<noteq> None
          \<and> mview mem look (?key i) \<noteq> Some (Committed (?fp i))
          \<and> (\<forall>n. mview mem look (?key i) \<noteq> Some (Pending (Some (?fp i)) n))"
      by (auto simp: stop_reason_def)
    from why obtain c where x: "x = Conflict c" "c = operation_id (ops ! i)" "?L (?key i) \<notin> {None, Some (?fp i)}"
      by (cases x) (auto simp: view)
    with i undo rollback_at(1) [OF r(2)] r(1) Stopped show ?thesis by (auto simp: preflight_round_def)
  qed (use stop in simp)
qed

end
