(* ===== verification/Restore.thy ===== *)
theory Restore
  imports Restart Preflight
begin

text \<open>
  \<open>Store::restore_chunk\<close>: a batch of the replicated log goes through the reservation table,
  the write-ahead log and the shards of a store that serves no other request; and the
  background persistence of \<open>run_disk_persist\<close> on the same store.  Its abstract
  specification \<open>replay_batch\<close> knows only the accepted fingerprints and the balances.
\<close>

section \<open>The code\<close>

record 'd live_store = "'d store" +
  st_queue :: "(bytes \<times> bytes) list list"

text \<open>\<open>finish_batch\<close> with its publication and persistence.\<close>

definition finish_store ::
  "(bytes \<Rightarrow> bytes) \<Rightarrow> operation list \<Rightarrow> bool list \<Rightarrow> bool \<Rightarrow> 'd live_store \<Rightarrow> 'd live_store" where
  "finish_store sha ops new committed s =
     (let (mem, notif, entries) = finish_batch sha ops new committed (st_memory s);
          updates = publish_updates ops new
      in s\<lparr>st_memory := mem,
           st_published := (if committed \<and> updates \<noteq> [] then publish [updates] (st_published s) else st_published s),
           st_queue := (if committed \<and> entries \<noteq> [] then st_queue s @ [entries] else st_queue s)\<rparr>)"

definition restore_chunk ::
  "(bytes \<Rightarrow> bytes) \<Rightarrow> (bytes \<Rightarrow> bytes \<Rightarrow> u64) \<Rightarrow> 'd index_api \<Rightarrow> (nat \<Rightarrow> bool) \<Rightarrow> (operation list \<Rightarrow> unit result) \<Rightarrow> nat
     \<Rightarrow> operation list \<Rightarrow> 'd live_store \<Rightarrow> unit result option \<times> 'd live_store" where
  "restore_chunk sha hash api up wal_append rid ops s =
     (case preflight_batch sha (ix_get_many api (st_disk s)) rid ops (st_memory s) of
        (mem, Blocked n) \<Rightarrow> (None, s\<lparr>st_memory := mem\<rparr>)
      | (mem, Rejected e) \<Rightarrow> (Some (Inl e), s\<lparr>st_memory := mem\<rparr>)
      | (mem, Ready new) \<Rightarrow>
          (let missing = fresh_ops ops new;
               (shards', r) = apply_reserved_batch hash up (wal_append missing) missing (st_shards s);
               s' = s\<lparr>st_memory := mem, st_shards := shards'\<rparr>
           in case r of
                Inr _ \<Rightarrow> (Some (Inr ()), finish_store sha ops new True s')
              | Inl e \<Rightarrow> (Some (Inl e), finish_store sha ops new False s')))"

text \<open>The persistence task takes the first \<open>n\<close> queued batches.\<close>

definition persist_turn :: "'d index_api \<Rightarrow> unit result \<Rightarrow> nat \<Rightarrow> 'd live_store \<Rightarrow> 'd live_store" where
  "persist_turn api commit n s =
     (let (mem, d) = persist_batch (ix_insert_many api commit) (concat (take n (st_queue s))) (st_memory s) (st_disk s)
      in s\<lparr>st_memory := mem, st_disk := d, st_queue := drop n (st_queue s)\<rparr>)"

section \<open>The specification\<close>

type_synonym replay_state = "(bytes \<Rightarrow> bytes option) \<times> balances"

definition fresh_of :: "(bytes \<Rightarrow> bytes) \<Rightarrow> (bytes \<Rightarrow> bytes option) \<Rightarrow> operation list \<Rightarrow> operation list" where
  "fresh_of sha L ops = filter (\<lambda>op. L (sha (operation_id op)) = None) (firsts sha {} ops)"

definition replay_batch :: "(bytes \<Rightarrow> bytes) \<Rightarrow> operation list \<Rightarrow> replay_state \<Rightarrow> replay_state option" where
  "replay_batch sha ops st =
     (let (L, B) = st in
      if batch_consistent sha L ops
      then Some (L ++ map_of (map (entry_of sha) (fresh_of sha L ops)), fst (apply_in_order (fresh_of sha L ops) B))
      else None)"

definition live_abs :: "(bytes \<Rightarrow> bytes \<Rightarrow> u64) \<Rightarrow> ('d \<Rightarrow> bytes \<Rightarrow> bytes option) \<Rightarrow> 'd live_store \<Rightarrow> replay_state" where
  "live_abs hash lookup s = (ledger_of (st_memory s) (lookup (st_disk s)), merged hash (st_shards s))"

definition live_ok ::
  "(bytes \<Rightarrow> bytes \<Rightarrow> u64) \<Rightarrow> ('d \<Rightarrow> bytes \<Rightarrow> bytes option) \<Rightarrow> ('d \<Rightarrow> bool) \<Rightarrow> 'd live_store \<Rightarrow> bool" where
  "live_ok hash lookup good s \<longleftrightarrow>
     mem_ok (st_memory s) \<and> no_pending (st_memory s) \<and> good (st_disk s) \<and> shards_ok hash (st_shards s)
     \<and> (\<forall>k f. mem_at (st_memory s) k = Some (Committed f) \<longrightarrow> lookup (st_disk s) k \<in> {None, Some f})
     \<and> (\<forall>(k, f) \<in> set (concat (st_queue s)). length k = 32 \<and> length f = 32
          \<and> ledger_of (st_memory s) (lookup (st_disk s)) k = Some f)"

section \<open>First occurrences\<close>

lemma preflight_unique_sorted:
  "preflight_unique sha first k ops u = Inr unique \<Longrightarrow>
     \<exists>js. unique = u @ js \<and> sorted_wrt (<) js \<and> (\<forall>j \<in> set js. k \<le> j \<and> j < k + length ops)
       \<and> map (\<lambda>j. ops ! (j - k)) js = firsts (\<lambda>x. x) (dom first) ops"
proof (induction sha first k ops u rule: preflight_unique.induct)
  case (2 sha first k op ops u)
  show ?case
  proof (cases "first (operation_id op)")
    case None
    with "2.prems" have "preflight_unique sha (first(operation_id op \<mapsto> fingerprint sha op)) (Suc k) ops (u @ [k]) = Inr unique"
      by simp
    from "2.IH"(1) [OF None this] obtain js where js: "unique = (u @ [k]) @ js" "sorted_wrt (<) js"
      "\<forall>j \<in> set js. Suc k \<le> j \<and> j < Suc k + length ops"
      "map (\<lambda>j. ops ! (j - Suc k)) js = firsts (\<lambda>x. x) (insert (operation_id op) (dom first)) ops"
      by (auto simp del: fun_upd_apply)
    have "map (\<lambda>j. (op # ops) ! (j - k)) js = map (\<lambda>j. ops ! (j - Suc k)) js"
      using js(3) by (auto simp: nth_Cons')
    with js None show ?thesis
      by (intro exI [of _ "k # js"]) (auto simp: domIff)
  next
    case (Some f)
    with "2.prems" have f: "f = fingerprint sha op" "preflight_unique sha first (Suc k) ops u = Inr unique"
      by (auto split: if_splits)
    then obtain js where js: "unique = u @ js" "sorted_wrt (<) js"
      "\<forall>j \<in> set js. Suc k \<le> j \<and> j < Suc k + length ops" "map (\<lambda>j. ops ! (j - Suc k)) js = firsts (\<lambda>x. x) (dom first) ops"
      using "2.IH"(2) [OF Some] by auto
    have "map (\<lambda>j. (op # ops) ! (j - k)) js = map (\<lambda>j. ops ! (j - Suc k)) js"
      using js(3) by (auto simp: nth_Cons')
    with js Some show ?thesis
      by (intro exI [of _ js]) (auto simp: domI)
  qed
qed simp

lemma firsts_sha:
  "inj_on sha (S \<union> operation_id ` set ops) \<Longrightarrow> firsts sha (sha ` S) ops = firsts (\<lambda>x. x) S ops"
proof (induction ops arbitrary: S)
  case (Cons op ops)
  have mem: "sha (operation_id op) \<in> sha ` S \<longleftrightarrow> operation_id op \<in> S"
    using Cons.prems by (auto simp: inj_on_def)
  have "inj_on sha (insert (operation_id op) S \<union> operation_id ` set ops)" "inj_on sha (S \<union> operation_id ` set ops)"
    using Cons.prems by (auto intro: inj_on_subset)
  with Cons.IH [of "insert (operation_id op) S"] Cons.IH [of S] mem show ?case by simp
qed simp

lemma fresh_marked:
  assumes u: "preflight_unique sha Map.empty 0 ops [] = Inr unique" and inj: "inj_on sha (operation_id ` set ops)"
    and js: "set js = {i \<in> set unique. L (fst (prepared sha ops ! i)) = None}"
  shows "fresh_ops ops (marked js (replicate (length ops) False)) = fresh_of sha L ops"
proof -
  let ?new = "marked js (replicate (length ops) False)"
  let ?P = "\<lambda>i. L (fst (prepared sha ops ! i)) = None"
  from preflight_unique_sorted [OF u] have un: "sorted_wrt (<) unique" "\<forall>i \<in> set unique. i < length ops"
    "map (\<lambda>i. ops ! i) unique = firsts (\<lambda>x. x) {} ops" by auto
  have first: "map (\<lambda>i. ops ! i) unique = firsts sha {} ops"
    using un(3) firsts_sha [of sha "{}" ops] inj by simp
  have zip: "zip ops ?new = map (\<lambda>i. (ops ! i, ?new ! i)) [0..<length ops]"
    by (intro nth_equalityI) simp_all
  have "fresh_ops ops ?new = map (\<lambda>i. ops ! i) (filter (\<lambda>i. ?new ! i) [0..<length ops])"
    unfolding fresh_ops_def zip filter_map by (simp add: comp_def)
  moreover have "filter (\<lambda>i. ?new ! i) [0..<length ops] = filter ?P unique"
  proof (rule sorted_distinct_set_unique)
    show "sorted (filter ?P unique)" "distinct (filter ?P unique)"
      using un(1) by (simp_all add: strict_sorted_iff sorted_wrt_filter)
    show "set (filter (\<lambda>i. ?new ! i) [0..<length ops]) = set (filter ?P unique)"
      using un(2) by (auto simp: nth_marked js)
  qed (simp_all add: sorted_wrt_filter)
  moreover have "map (\<lambda>i. ops ! i) (filter ?P unique) = filter (\<lambda>op. L (sha (operation_id op)) = None) (map (\<lambda>i. ops ! i) unique)"
    unfolding filter_map comp_def using un(2) by (intro arg_cong [where f = "map _"] filter_cong) (simp_all add: prepared_nth)
  ultimately show ?thesis by (simp add: fresh_of_def first)
qed

lemma fresh_of_facts:
  assumes "inj_on sha (operation_id ` set ops)"
  shows "set (fresh_of sha L ops) \<subseteq> set ops" "distinct (map (\<lambda>op. sha (operation_id op)) (fresh_of sha L ops))"
    and "op \<in> set (fresh_of sha L ops) \<Longrightarrow> L (sha (operation_id op)) = None"
proof -
  have "set (firsts sha ids ops) \<subseteq> set ops" for ids by (induction sha ids ops rule: firsts.induct) auto
  then show "set (fresh_of sha L ops) \<subseteq> set ops" by (auto simp: fresh_of_def)
  show "distinct (map (\<lambda>op. sha (operation_id op)) (fresh_of sha L ops))"
    using firsts_distinct [of sha "{}" ops] by (simp add: fresh_of_def distinct_map_filter)
  show "op \<in> set (fresh_of sha L ops) \<Longrightarrow> L (sha (operation_id op)) = None" by (simp add: fresh_of_def)
qed

section \<open>Restoring a chunk\<close>

lemma new_keys_ops: "new_keys sha ops new = map (\<lambda>op. sha (operation_id op)) (fresh_ops ops new)"
  by (simp add: new_keys_def fresh_ops_def comp_def case_prod_beta)

lemma finish_alone:
  assumes "mem_ok mem" "distinct (map (\<lambda>op. sha (operation_id op)) nops)" "nops = fresh_ops ops new"
    and "\<forall>op \<in> set nops. mem_at mem (sha (operation_id op)) = Some (Pending (Some (fingerprint sha op)) rid)"
  shows "\<exists>mem' notif entries. finish_batch sha ops new committed mem = (mem', notif, entries) \<and> mem_ok mem'
    \<and> set entries = (if committed then entry_of sha ` set nops else {})
    \<and> (\<forall>k. mem_at mem' k = (if k \<in> (\<lambda>op. sha (operation_id op)) ` set nops
          then (if committed then map_option Committed (map_of (map (entry_of sha) nops) k) else None) else mem_at mem k))"
proof -
  let ?keys = "map (\<lambda>op. sha (operation_id op)) nops"
  define fp where "fp = (\<lambda>k. the (map_of (map (entry_of sha) nops) k))"
  have dist: "distinct (map fst (map (entry_of sha) nops))" using assms(2) by (simp add: comp_def entry_of_def)
  have at: "map_of (map (entry_of sha) nops) (sha (operation_id op)) = Some (fingerprint sha op)" if "op \<in> set nops" for op
    by (rule map_of_is_SomeI [OF dist]) (use that in \<open>auto simp: entry_of_def\<close>)
  then have fp: "fp (sha (operation_id op)) = fingerprint sha op" if "op \<in> set nops" for op
    using that by (simp add: fp_def)
  have "\<forall>k \<in> set ?keys. dedup_shard k \<in> set [0..<STATE_SHARDS] \<longrightarrow> mem_at mem k = Some (Pending (Some (fp k)) rid)"
    using assms(4) fp by simp
  from finish_shards_at [OF assms(1,2) _ _ this, of committed "[]" "[]"]
  obtain mem' notif entries where f: "fold (finish_shard committed ?keys) [0..<STATE_SHARDS] (mem, [], []) = (mem', notif, entries)"
    "mem_ok mem'" "set entries = (if committed then (\<lambda>k. (k, fp k)) ` set ?keys else {})"
    "\<forall>x. mem_at mem' x = (if x \<in> set ?keys then (if committed then Some (Committed (fp x)) else None) else mem_at mem x)"
    by auto
  have "(\<lambda>k. (k, fp k)) ` set ?keys = entry_of sha ` set nops"
    using fp by (auto simp: entry_of_def image_iff)
  moreover have "Some (Committed (fp k)) = map_option Committed (map_of (map (entry_of sha) nops) k)" if "k \<in> set ?keys" for k
    using that at fp by auto
  ultimately show ?thesis using f assms(3) by (simp add: finish_batch_def new_keys_ops)
qed

lemma live_ok_mem:
  assumes "live_ok hash lookup good s" "mem_ok m" "mem_at m = mem_at (st_memory s)"
  shows "live_ok hash lookup good (s\<lparr>st_memory := m\<rparr>)" "live_abs hash lookup (s\<lparr>st_memory := m\<rparr>) = live_abs hash lookup s"
proof -
  have "ledger_of m = ledger_of (st_memory s)" using assms(3) by (simp add: ledger_of_def fun_eq_iff)
  with assms show "live_ok hash lookup good (s\<lparr>st_memory := m\<rparr>)" "live_abs hash lookup (s\<lparr>st_memory := m\<rparr>) = live_abs hash lookup s"
    by (simp_all add: live_ok_def live_abs_def no_pending_def)
qed

text \<open>The memory of a store between a preflight that reserved \<open>nops\<close> and its finish.\<close>

definition reserved_for ::
  "(bytes \<Rightarrow> bytes) \<Rightarrow> nat \<Rightarrow> operation list \<Rightarrow> memory \<Rightarrow> memory \<Rightarrow> bool" where
  "reserved_for sha rid nops mem m \<longleftrightarrow> mem_ok m
     \<and> (\<forall>op \<in> set nops. mem_at m (sha (operation_id op)) = Some (Pending (Some (fingerprint sha op)) rid))
     \<and> (\<forall>k. k \<notin> (\<lambda>op. sha (operation_id op)) ` set nops \<longrightarrow> mem_at m k = mem_at mem k)"

lemma unique_consistent:
  assumes "unique_ok sha ops (length ops) unique"
    and "\<forall>i \<in> set unique. L (fst (prepared sha ops ! i)) \<in> {None, Some (snd (prepared sha ops ! i))}"
  shows "batch_consistent sha L ops"
proof -
  have rep: "\<exists>i \<in> set unique. i < length ops \<and> operation_id (ops ! i) = operation_id op \<and> fingerprint sha (ops ! i) = fingerprint sha op"
    if op: "op \<in> set ops" for op
  proof -
    from op obtain j where j: "j < length ops" "op = ops ! j" by (auto simp: in_set_conv_nth)
    have "\<forall>i \<in> set unique. i < length ops" using assms(1) by (simp add: unique_ok_def)
    moreover from assms(1) j obtain i where "i \<in> set unique" "operation_id (ops ! i) = operation_id op"
        "fingerprint sha (ops ! i) = fingerprint sha op"
      unfolding unique_ok_def by metis
    ultimately show ?thesis by blast
  qed
  have ids: "distinct (map (\<lambda>i. operation_id (ops ! i)) unique)" using assms(1) by (simp add: unique_ok_def)
  show ?thesis
    unfolding batch_consistent_def
  proof (intro conjI ballI impI)
    fix op
    assume "op \<in> set ops"
    from rep [OF this] obtain i where i: "i \<in> set unique" "i < length ops" "operation_id (ops ! i) = operation_id op"
      "fingerprint sha (ops ! i) = fingerprint sha op" by blast
    with assms(2) show "L (sha (operation_id op)) \<in> {None, Some (fingerprint sha op)}"
      using prepared_nth [OF i(2), of sha] by (metis fst_conv snd_conv)
  next
    fix op op'
    assume "op \<in> set ops" "op' \<in> set ops" and same: "operation_id op = operation_id op'"
    with rep obtain i j where ij: "i \<in> set unique" "j \<in> set unique" "operation_id (ops ! i) = operation_id op"
      "operation_id (ops ! j) = operation_id op'" "fingerprint sha (ops ! i) = fingerprint sha op"
      "fingerprint sha (ops ! j) = fingerprint sha op'" by metis
    have "inj_on (\<lambda>i. operation_id (ops ! i)) (set unique)" using ids by (simp add: distinct_map)
    from inj_onD [OF this _ ij(1,2)] ij(3,4) same have "i = j" by simp
    with ij show "fingerprint sha op = fingerprint sha op'" by simp
  qed
qed

lemma preflight_alone:
  assumes mem: "mem_ok mem" "no_pending mem" and inj: "inj_on sha (operation_id ` set ops)"
    and get: "\<And>keys. get_many keys = Inr (map look keys)"
  shows "(batch_consistent sha (ledger_of mem look) ops \<longrightarrow>
      (\<exists>m new. preflight_batch sha get_many rid ops mem = (m, Ready new)
         \<and> length new = length ops \<and> new = fresh_flags sha (ledger_of mem look) ops
         \<and> fresh_ops ops new = fresh_of sha (ledger_of mem look) ops
         \<and> reserved_for sha rid (fresh_of sha (ledger_of mem look) ops) mem m))
    \<and> (\<not> batch_consistent sha (ledger_of mem look) ops \<longrightarrow>
      (\<exists>m. \<exists>op \<in> set ops. preflight_batch sha get_many rid ops mem = (m, Rejected (ConflictError (operation_id op)))
         \<and> contradicts sha (ledger_of mem look) ops op \<and> mem_ok m \<and> mem_at m = mem_at mem))"
proof (cases "preflight_unique sha Map.empty 0 ops []")
  case (Inl e)
  from preflight_unique_fails [OF Inl] obtain op where "op \<in> set ops" "e = ConflictError (operation_id op)"
    "\<exists>op' \<in> set ops. operation_id op = operation_id op' \<and> fingerprint sha op \<noteq> fingerprint sha op'" by auto
  with Inl preflight_unique_total [of sha "ledger_of mem look" ops] mem(1)
  show ?thesis by (auto simp: preflight_batch_def contradicts_def)
next
  case (Inr unique)
  let ?L = "ledger_of mem look" and ?prep = "prepared sha ops"
  have u: "unique_ok sha ops (length ops) unique" by (rule preflight_unique_ok [OF Inr])
  have lt: "i < length ops" if "i \<in> set unique" for i using u that by (simp add: unique_ok_def)
  have dist: "distinct (map (\<lambda>i. fst (?prep ! i)) unique)" by (rule unique_keys_distinct [OF u inj])
  from preflight_round_alone [OF mem u dist get, of rid] obtain m out where
    r: "preflight_round sha get_many rid ops unique mem = (m, out)" "mem_ok m" "case out of
       Ready new \<Rightarrow> \<exists>js. new = marked js (replicate (length ops) False) \<and> distinct js
          \<and> set js = {i \<in> set unique. ?L (fst (?prep ! i)) = None}
          \<and> mem_at m = mem_at mem ++ reservations ?prep rid js
          \<and> (\<forall>i \<in> set unique. ?L (fst (?prep ! i)) \<in> {None, Some (snd (?prep ! i))})
     | Rejected e \<Rightarrow> mem_at m = mem_at mem
          \<and> (\<exists>i \<in> set unique. e = ConflictError (operation_id (ops ! i))
              \<and> ?L (fst (?prep ! i)) \<notin> {None, Some (snd (?prep ! i))})
     | Blocked n \<Rightarrow> False" by blast
  show ?thesis
  proof (cases out)
    case (Ready new)
    with r(3) obtain js where js: "new = marked js (replicate (length ops) False)" "distinct js"
      "set js = {i \<in> set unique. ?L (fst (?prep ! i)) = None}"
      "mem_at m = mem_at mem ++ reservations ?prep rid js"
      "\<forall>i \<in> set unique. ?L (fst (?prep ! i)) \<in> {None, Some (snd (?prep ! i))}" by auto
    have cons: "batch_consistent sha ?L ops" by (rule unique_consistent [OF u js(5)])
    have fresh: "fresh_ops ops new = fresh_of sha ?L ops"
      unfolding js(1) by (rule fresh_marked [OF Inr inj js(3)])
    let ?nops = "fresh_of sha ?L ops"
    have zip: "zip ops new = map (\<lambda>i. (ops ! i, new ! i)) [0..<length ops]"
      unfolding js(1) by (intro nth_equalityI) simp_all
    have nops: "set ?nops = (\<lambda>i. ops ! i) ` set js"
    proof -
      have "set (fresh_ops ops new) = (\<lambda>i. ops ! i) ` {i. i < length ops \<and> new ! i}"
        unfolding fresh_ops_def zip filter_map by (auto simp: comp_def)
      also have "{i. i < length ops \<and> new ! i} = set js"
        using js(3) lt by (auto simp: js(1) nth_marked)
      finally show ?thesis by (simp add: fresh)
    qed
    have js_lt: "i < length ops" if "i \<in> set js" for i using that js(3) lt by auto
    have keys: "(\<lambda>op. sha (operation_id op)) ` set ?nops = (\<lambda>i. fst (?prep ! i)) ` set js"
      unfolding nops image_image using js_lt by (intro image_cong) (simp_all add: prepared_nth)
    have js_dist: "distinct (map (\<lambda>i. fst (?prep ! i)) js)"
      using dist js(2,3) by (auto simp: distinct_map intro: inj_on_subset)
    have "reserved_for sha rid ?nops mem m"
      unfolding reserved_for_def
    proof (intro conjI ballI allI impI)
      fix op
      assume "op \<in> set ?nops"
      then obtain i where i: "i \<in> set js" "op = ops ! i" using nops by auto
      have "reservations ?prep rid js (fst (?prep ! i)) = Some (Pending (Some (snd (?prep ! i))) rid)"
        unfolding reservations_def using js_dist i(1) by (intro map_of_is_SomeI) (auto simp: comp_def)
      then show "mem_at m (sha (operation_id op)) = Some (Pending (Some (fingerprint sha op)) rid)"
        using js_lt [OF i(1)] i(2) by (simp add: js(4) prepared_nth)
    next
      fix k
      assume "k \<notin> (\<lambda>op. sha (operation_id op)) ` set ?nops"
      then have "k \<notin> dom (reservations ?prep rid js)" by (simp add: keys reservations_dom)
      then show "mem_at m k = mem_at mem k" by (simp add: js(4) map_add_def domIff)
    qed (fact r(2))
    moreover have "length new = length ops" by (simp add: js(1))
    moreover have "new = fresh_flags sha ?L ops"
    proof (rule nth_equalityI)
      show "length new = length (fresh_flags sha ?L ops)" by (simp add: js(1) fresh_flags_def)
      fix i assume "i < length new"
      then have i: "i < length ops" by (simp add: js(1))
      have "new ! i \<longleftrightarrow> i \<in> set js" using i by (simp add: js(1) nth_marked)
      also have "\<dots> \<longleftrightarrow> first_use sha ?L ops i"
        using unique_first [OF u i] i by (auto simp: js(3) first_use_def prepared_nth)
      finally show "new ! i = fresh_flags sha ?L ops ! i" using i by (simp add: fresh_flags_def)
    qed
    ultimately show ?thesis using cons fresh r(1) Ready Inr by (auto simp: preflight_batch_def)
  next
    case (Rejected e)
    with r(3) obtain i where i: "mem_at m = mem_at mem" "i \<in> set unique" "e = ConflictError (operation_id (ops ! i))"
      "?L (fst (?prep ! i)) \<notin> {None, Some (snd (?prep ! i))}" by auto
    have "ops ! i \<in> set ops" using lt [OF i(2)] by simp
    moreover have "?L (sha (operation_id (ops ! i))) \<notin> {None, Some (fingerprint sha (ops ! i))}"
      using i(4) lt [OF i(2)] by (simp add: prepared_nth)
    then have "contradicts sha ?L ops (ops ! i)" unfolding contradicts_def by blast
    moreover from calculation have "\<not> batch_consistent sha ?L ops"
      unfolding batch_consistent_def contradicts_def by blast
    ultimately show ?thesis using i(1,3) r(1,2) Rejected Inr by (auto simp: preflight_batch_def)
  qed (use r(3) in simp)
qed

context dedup_index
begin

text \<open>
  Finishing a batch whose new operations \<open>nops\<close> are reserved in the memory \<open>m\<close> of a store
  that was \<open>s\<close> before: giving up restores the state, committing replays the batch.
\<close>

lemma finish_releases:
  assumes ok: "live_ok hash lookup good s" and new: "fresh_ops ops new = nops"
    and nops: "nops = fresh_of sha (fst (live_abs hash lookup s)) ops"
    and inj: "inj_on sha (operation_id ` set ops)" and res: "reserved_for sha rid nops (st_memory s) m"
  shows "live_ok hash lookup good (finish_store sha ops new False (s\<lparr>st_memory := m\<rparr>))
    \<and> live_abs hash lookup (finish_store sha ops new False (s\<lparr>st_memory := m\<rparr>)) = live_abs hash lookup s
    \<and> st_published (finish_store sha ops new False (s\<lparr>st_memory := m\<rparr>)) = st_published s"
proof -
  let ?keys = "(\<lambda>op. sha (operation_id op)) ` set nops" and ?mem = "st_memory s"
  have m: "mem_ok m" "\<forall>op \<in> set nops. mem_at m (sha (operation_id op)) = Some (Pending (Some (fingerprint sha op)) rid)"
    "\<And>k. k \<notin> ?keys \<Longrightarrow> mem_at m k = mem_at ?mem k" using res by (auto simp: reserved_for_def)
  note facts = fresh_of_facts [OF inj, where L = "fst (live_abs hash lookup s)", folded nops]
  have free: "mem_at ?mem k = None" if "k \<in> ?keys" for k
  proof -
    from that facts(3) have "ledger_of ?mem (lookup (st_disk s)) k = None" by (auto simp: live_abs_def)
    moreover have "no_pending ?mem" using ok by (simp add: live_ok_def)
    ultimately show ?thesis by (auto simp: ledger_of_def no_pending_def split: option.splits dedup_entry.splits)
  qed
  from finish_alone [OF m(1) facts(2) new [symmetric] m(2), of False] obtain m2 notif es where
    f: "finish_batch sha ops new False m = (m2, notif, es)" "mem_ok m2"
      "\<And>k. mem_at m2 k = (if k \<in> ?keys then None else mem_at m k)" by auto
  have same: "mem_at m2 = mem_at ?mem" using m(3) free f(3) by (auto simp: fun_eq_iff)
  have "finish_store sha ops new False (s\<lparr>st_memory := m\<rparr>) = s\<lparr>st_memory := m2\<rparr>"
    using f(1) by (simp add: finish_store_def Let_def)
  with live_ok_mem [OF ok f(2) same] show ?thesis by simp
qed

lemma finish_commits:
  assumes ok: "live_ok hash lookup good s" and new: "fresh_ops ops new = nops"
    and nops: "nops = fresh_of sha (fst (live_abs hash lookup s)) ops"
    and inj: "inj_on sha (operation_id ` set ops)" and res: "reserved_for sha rid nops (st_memory s) m"
    and len: "\<And>x. length (sha x) = 32" and cons: "batch_consistent sha (fst (live_abs hash lookup s)) ops"
    and shards: "shards_ok hash shards'" "merged hash shards' = fst (apply_in_order nops (merged hash (st_shards s)))"
  defines "s' \<equiv> finish_store sha ops new True (s\<lparr>st_memory := m, st_shards := shards'\<rparr>)"
  shows "live_ok hash lookup good s' \<and> st_shards s' = shards'
      \<and> replay_batch sha ops (live_abs hash lookup s) = Some (live_abs hash lookup s')
      \<and> (\<forall>k. balance_at (st_published s') k = balance_at (st_published s) k + total_delta nops k)"
proof -
  let ?mem = "st_memory s" and ?look = "lookup (st_disk s)" and ?L = "ledger_of (st_memory s) (lookup (st_disk s))"
  have abs: "fst (live_abs hash lookup s) = ?L" by (simp add: live_abs_def)
  have facts: "mem_ok ?mem" "no_pending ?mem" "good (st_disk s)" "shards_ok hash (st_shards s)"
    "\<forall>k f. mem_at ?mem k = Some (Committed f) \<longrightarrow> ?look k \<in> {None, Some f}"
    "\<forall>(k, f) \<in> set (concat (st_queue s)). length k = 32 \<and> length f = 32 \<and> ?L k = Some f"
    using ok unfolding live_ok_def by blast+
  note nf = fresh_of_facts [OF inj, where L = "fst (live_abs hash lookup s)", folded nops]
  have m: "mem_ok m" "\<forall>op \<in> set nops. mem_at m (sha (operation_id op)) = Some (Pending (Some (fingerprint sha op)) rid)"
    "\<And>k. k \<notin> (\<lambda>op. sha (operation_id op)) ` set nops \<Longrightarrow> mem_at m k = mem_at ?mem k"
    using res by (auto simp: reserved_for_def)
  have was_free: "mem_at ?mem k = None \<and> ?look k = None" if "k \<in> (\<lambda>op. sha (operation_id op)) ` set nops" for k
  proof -
    from that nf(3) have "?L k = None" by (auto simp: abs)
    with facts(2) show ?thesis by (auto simp: ledger_of_def no_pending_def split: option.splits dedup_entry.splits)
  qed
  note fin = finish_alone [OF m(1) nf(2) new [symmetric] m(2)]
  let ?W = "map_of (map (entry_of sha) nops)"
  from fin [of True] obtain m2 notif es where f: "finish_batch sha ops new True m = (m2, notif, es)" "mem_ok m2"
    "set es = entry_of sha ` set nops"
    "\<And>k. mem_at m2 k = (if k \<in> (\<lambda>op. sha (operation_id op)) ` set nops then map_option Committed (?W k) else mem_at m k)"
    by auto
  have fields: "st_memory s' = m2" "st_disk s' = st_disk s" "st_shards s' = shards'"
    "st_queue s' = (if es \<noteq> [] then st_queue s @ [es] else st_queue s)"
    by (simp_all add: s'_def finish_store_def f(1) Let_def)
  have dom: "dom ?W = (\<lambda>op. sha (operation_id op)) ` set nops"
    by (simp add: dom_map_of_conv_image_fst image_image entry_of_def)
  have mem2: "mem_at m2 k = (case ?W k of Some g \<Rightarrow> Some (Committed g) | None \<Rightarrow> mem_at ?mem k)" for k
  proof (cases "?W k")
    case None
    then have "k \<notin> (\<lambda>op. sha (operation_id op)) ` set nops" by (simp add: dom [symmetric] domIff)
    with None m(3) show ?thesis by (simp add: f(4))
  next
    case (Some g)
    then have "k \<in> (\<lambda>op. sha (operation_id op)) ` set nops" unfolding dom [symmetric] by blast
    with Some show ?thesis by (simp add: f(4))
  qed
  have ledger: "ledger_of m2 ?look = ?L ++ ?W"
    by (auto simp: fun_eq_iff ledger_of_def mem2 map_add_def split: option.splits)
  have nop: "no_pending m2" using facts(2) by (auto simp: no_pending_def mem2 split: option.splits)
  have disk: "\<forall>k f. mem_at m2 k = Some (Committed f) \<longrightarrow> ?look k \<in> {None, Some f}"
  proof (intro allI impI)
    fix k f
    assume c: "mem_at m2 k = Some (Committed f)"
    show "?look k \<in> {None, Some f}"
    proof (cases "?W k")
      case None
      with c facts(5) show ?thesis by (simp add: mem2)
    next
      case (Some g)
      then have "k \<in> (\<lambda>op. sha (operation_id op)) ` set nops" unfolding dom [symmetric] by blast
      with was_free show ?thesis by simp
    qed
  qed
  have dist: "distinct (map fst (map (entry_of sha) nops))" using nf(2) by (simp add: comp_def entry_of_def)
  have queue: "\<forall>(k, g) \<in> set (concat (st_queue s')). length k = 32 \<and> length g = 32 \<and> (?L ++ ?W) k = Some g"
  proof (intro ballI, clarify)
    fix k g
    assume "(k, g) \<in> set (concat (st_queue s'))"
    then consider "(k, g) \<in> set (concat (st_queue s))" | "(k, g) \<in> set es" by (auto simp: fields(4) split: if_splits)
    then show "length k = 32 \<and> length g = 32 \<and> (?L ++ ?W) k = Some g"
    proof cases
      case 1
      with facts(6) have l: "length k = 32 \<and> length g = 32 \<and> ?L k = Some g" by blast
      have "k \<notin> dom ?W" using l nf(3) by (auto simp: dom abs)
      with l show ?thesis by (simp add: map_add_def domIff)
    next
      case 2
      then obtain op where op: "op \<in> set nops" "(k, g) = entry_of sha op" using f(3) by auto
      then have "?W k = Some g" by (intro map_of_is_SomeI [OF dist]) auto
      with op(2) len show ?thesis by (simp add: entry_of_def fingerprint_def)
    qed
  qed
  have "live_ok hash lookup good s'"
    unfolding live_ok_def fields(1-3) ledger using f(2) nop facts(3) shards(1) disk queue by blast
  moreover have "replay_batch sha ops (live_abs hash lookup s) = Some (live_abs hash lookup s')"
    using cons by (simp add: replay_batch_def live_abs_def fields ledger shards(2) nops)
  moreover have "balance_at (st_published s') k = balance_at (st_published s) k + total_delta nops k" for k
  proof -
    have total: "sum_list (map snd (filter (\<lambda>(k', _). k' = k) (publish_updates ops new))) = total_delta nops k"
      by (simp add: updates_total new)
    show ?thesis
    proof (cases "publish_updates ops new = []")
      case True
      with total show ?thesis by (simp add: s'_def finish_store_def f(1) Let_def)
    next
      case False
      with total show ?thesis by (simp add: s'_def finish_store_def f(1) publish_at Let_def)
    qed
  qed
  ultimately show ?thesis using fields(3) by simp
qed

lemma restore_consistent:
  assumes ok: "live_ok hash lookup good s" and up: "\<And>i. i < length (st_shards s) \<Longrightarrow> up i"
    and inj: "inj_on sha (operation_id ` set ops)" and len: "\<And>x. length (sha x) = 32"
    and cons: "batch_consistent sha (fst (live_abs hash lookup s)) ops"
  defines "nops \<equiv> fresh_of sha (fst (live_abs hash lookup s)) ops"
  shows "wal_append nops = Inr () \<Longrightarrow> \<exists>s'. restore_chunk sha hash api up wal_append rid ops s = (Some (Inr ()), s')
      \<and> live_ok hash lookup good s'
      \<and> replay_batch sha ops (live_abs hash lookup s) = Some (live_abs hash lookup s')"
    and "wal_append nops = Inl e \<Longrightarrow> \<exists>s'. restore_chunk sha hash api up wal_append rid ops s = (Some (Inl e), s')
      \<and> live_ok hash lookup good s' \<and> live_abs hash lookup s' = live_abs hash lookup s"
proof -
  have facts: "mem_ok (st_memory s)" "no_pending (st_memory s)" "good (st_disk s)" "shards_ok hash (st_shards s)"
    using ok unfolding live_ok_def by blast+
  from preflight_alone [OF facts(1,2) inj get_many [OF facts(3)], of rid] cons
  obtain m new where p: "preflight_batch sha (ix_get_many api (st_disk s)) rid ops (st_memory s) = (m, Ready new)"
    "fresh_ops ops new = nops" "reserved_for sha rid nops (st_memory s) m" by (auto simp: live_abs_def nops_def)
  show "\<exists>s'. restore_chunk sha hash api up wal_append rid ops s = (Some (Inl e), s')
      \<and> live_ok hash lookup good s' \<and> live_abs hash lookup s' = live_abs hash lookup s" if wal: "wal_append nops = Inl e"
  proof -
    have "restore_chunk sha hash api up wal_append rid ops s
        = (Some (Inl e), finish_store sha ops new False (s\<lparr>st_memory := m\<rparr>))"
      using p(1,2) wal by (simp add: restore_chunk_def apply_reserved_batch_def apply_batched_def Let_def)
    with finish_releases [OF ok p(2) nops_def [THEN meta_eq_to_obj_eq] inj p(3)] show ?thesis by blast
  qed
  show "\<exists>s'. restore_chunk sha hash api up wal_append rid ops s = (Some (Inr ()), s')
      \<and> live_ok hash lookup good s'
      \<and> replay_batch sha ops (live_abs hash lookup s) = Some (live_abs hash lookup s')" if wal: "wal_append nops = Inr ()"
  proof -
    from apply_reserved_merged [OF facts(4), where up = up and ops = nops] up obtain shards' where
      a: "apply_reserved_batch hash up (Inr ()) nops (st_shards s) = (shards', Inr (snd (apply_in_order nops (merged hash (st_shards s)))))"
        "shards_ok hash shards'" "merged hash shards' = fst (apply_in_order nops (merged hash (st_shards s)))" by auto
    have "restore_chunk sha hash api up wal_append rid ops s
        = (Some (Inr ()), finish_store sha ops new True (s\<lparr>st_memory := m, st_shards := shards'\<rparr>))"
      using p(1,2) wal a(1) by (simp add: restore_chunk_def)
    with finish_commits [OF ok p(2) nops_def [THEN meta_eq_to_obj_eq] inj p(3) len cons a(2,3)] show ?thesis by blast
  qed
qed

lemma restore_conflict:
  assumes ok: "live_ok hash lookup good s" and inj: "inj_on sha (operation_id ` set ops)"
    and "\<not> batch_consistent sha (fst (live_abs hash lookup s)) ops"
  shows "\<exists>i s'. restore_chunk sha hash api up wal_append rid ops s = (Some (Inl (ConflictError i)), s')
    \<and> live_ok hash lookup good s' \<and> live_abs hash lookup s' = live_abs hash lookup s \<and> st_shards s' = st_shards s"
proof -
  have facts: "mem_ok (st_memory s)" "no_pending (st_memory s)" "good (st_disk s)"
    using ok unfolding live_ok_def by blast+
  from preflight_alone [OF facts(1,2) inj get_many [OF facts(3)], of rid] assms(3)
  obtain m i where p: "preflight_batch sha (ix_get_many api (st_disk s)) rid ops (st_memory s) = (m, Rejected (ConflictError i))"
    "mem_ok m" "mem_at m = mem_at (st_memory s)" by (auto simp: live_abs_def)
  then have "restore_chunk sha hash api up wal_append rid ops s = (Some (Inl (ConflictError i)), s\<lparr>st_memory := m\<rparr>)"
    by (simp add: restore_chunk_def)
  with live_ok_mem [OF ok p(2,3)] show ?thesis by simp
qed

lemma forget_all_at:
  "mem_ok mem \<Longrightarrow> mem_ok (fold persist_forget es mem)
     \<and> mem_at (fold persist_forget es mem) k =
        (case mem_at mem k of Some (Committed f) \<Rightarrow> if (k, f) \<in> set es then None else Some (Committed f) | x \<Rightarrow> x)"
proof (induction es arbitrary: mem)
  case (Cons e es)
  from Cons.IH [OF persist_forget_at(1) [OF Cons.prems, of e]] persist_forget_at(2) [OF Cons.prems, of e k]
  show ?case by (cases e) (auto split: option.splits dedup_entry.splits)
qed (simp split: option.split dedup_entry.split)

lemma persist_turn_ok:
  assumes ok: "live_ok hash lookup good s"
  shows "live_ok hash lookup good (persist_turn api commit n s)
    \<and> live_abs hash lookup (persist_turn api commit n s) = live_abs hash lookup s
    \<and> st_shards (persist_turn api commit n s) = st_shards s"
proof -
  let ?es = "concat (take n (st_queue s))" and ?mem = "st_memory s" and ?d = "st_disk s"
  let ?L = "ledger_of ?mem (lookup ?d)"
  have facts: "mem_ok ?mem" "no_pending ?mem" "good ?d" "shards_ok hash (st_shards s)"
    "\<forall>k f. mem_at ?mem k = Some (Committed f) \<longrightarrow> lookup ?d k \<in> {None, Some f}"
    "\<forall>(k, f) \<in> set (concat (st_queue s)). length k = 32 \<and> length f = 32 \<and> ?L k = Some f"
    using ok unfolding live_ok_def by blast+
  have queue: "set (concat (drop n (st_queue s))) \<subseteq> set (concat (st_queue s))"
    using set_drop_subset by fastforce
  obtain r d' where run: "ix_insert_many api commit (persist_sorted ?es) ?d = (r, d')" by (metis surj_pair)
  have sorted: "set (persist_sorted ?es) = set ?es" by (simp add: persist_sorted_def)
  have sub: "set ?es \<subseteq> set (concat (st_queue s))" using set_take_subset by fastforce
  have es: "length k = 32 \<and> length f = 32 \<and> ?L k = Some f" if "(k, f) \<in> set ?es" for k f
    using facts(6) sub that by blast
  have disk: "good d' \<and> (\<forall>k. lookup d' k = lookup ?d k \<or> (\<exists>f. (k, f) \<in> set ?es \<and> lookup d' k = Some f))
      \<and> (r = Inr () \<longrightarrow> (\<forall>k f. (k, f) \<in> set ?es \<longrightarrow> lookup d' k = Some f))"
  proof (cases commit)
    case (Inl e)
    with insert_fails run have d': "d' = ?d" "r = Inr () \<longrightarrow> persist_sorted ?es = []" by blast+
    from d'(2) sorted have "r = Inr () \<longrightarrow> set ?es = {}" by (metis set_empty)
    with d'(1) facts(3) show ?thesis by auto
  next
    case (Inr u)
    have "entries_ok (persist_sorted ?es)" unfolding entries_ok_def sorted using es by blast
    with insert_many [OF facts(3) this, of r d'] run Inr have
      g: "good d'" and l: "lookup d' = lookup ?d ++ map_of (rev (persist_sorted ?es))" by simp_all
    let ?W = "map_of (rev (persist_sorted ?es))"
    have W: "(k, f) \<in> set ?es" if "?W k = Some f" for k f
      using map_of_SomeD [OF that] sorted by simp
    have "lookup d' k = lookup ?d k \<or> (\<exists>f. (k, f) \<in> set ?es \<and> lookup d' k = Some f)" for k
      using W by (cases "?W k") (auto simp: l map_add_def)
    moreover have "lookup d' k = Some f" if "(k, f) \<in> set ?es" for k f
    proof -
      have "k \<in> fst ` set (rev (persist_sorted ?es))" using that sorted by (metis fst_conv image_eqI set_rev)
      then obtain g where g: "?W k = Some g" by (metis dom_map_of_conv_image_fst domD)
      from es [OF W [OF g]] es [OF that] have "g = f" by simp
      with g show ?thesis by (simp add: l)
    qed
    ultimately show ?thesis using g by blast
  qed
  define mem' where "mem' = (if r = Inr () then fold persist_forget ?es ?mem else ?mem)"
  have turn: "persist_turn api commit n s = s\<lparr>st_memory := mem', st_disk := d', st_queue := drop n (st_queue s)\<rparr>"
    by (cases r) (simp_all add: persist_turn_def persist_batch_def run mem'_def)
  have mem': "mem_ok mem'" "mem_at mem' k = mem_at ?mem k
      \<or> (\<exists>f. mem_at ?mem k = Some (Committed f) \<and> mem_at mem' k = None \<and> lookup d' k = Some f)" for k
  proof -
    show "mem_ok mem'" using forget_all_at [OF facts(1)] facts(1) by (simp add: mem'_def)
    show "mem_at mem' k = mem_at ?mem k
      \<or> (\<exists>f. mem_at ?mem k = Some (Committed f) \<and> mem_at mem' k = None \<and> lookup d' k = Some f)"
      using forget_all_at [OF facts(1), of ?es k] disk
      by (cases "mem_at ?mem k") (auto simp: mem'_def split: dedup_entry.splits if_splits)
  qed
  have ledger: "ledger_of mem' (lookup d') = ?L"
  proof
    fix k
    have "lookup d' k = lookup ?d k \<or> ?L k = lookup d' k" using disk es by metis
    with mem'(2) [of k] show "ledger_of mem' (lookup d') k = ?L k"
      by (auto simp: ledger_of_def split: option.splits dedup_entry.splits)
  qed
  have nop: "no_pending mem'"
    unfolding no_pending_def
  proof (intro allI notI)
    fix k f m
    assume "mem_at mem' k = Some (Pending f m)"
    with mem'(2) [of k] have "mem_at ?mem k = Some (Pending f m)" by (elim disjE exE conjE) simp_all
    with facts(2) show False unfolding no_pending_def by blast
  qed
  have comm: "\<forall>k f. mem_at mem' k = Some (Committed f) \<longrightarrow> lookup d' k \<in> {None, Some f}"
  proof (intro allI impI)
    fix k f
    assume "mem_at mem' k = Some (Committed f)"
    with mem'(2) [of k] have m: "mem_at ?mem k = Some (Committed f)" by auto
    then have "?L k = Some f" by (simp add: ledger_of_def)
    moreover have "lookup d' k = lookup ?d k \<or> ?L k = lookup d' k" using disk es by metis
    moreover have "lookup ?d k \<in> {None, Some f}" using facts(5) m by blast
    ultimately show "lookup d' k \<in> {None, Some f}" by auto
  qed
  have "\<forall>(k, f) \<in> set (concat (drop n (st_queue s))). length k = 32 \<and> length f = 32 \<and> ?L k = Some f"
    using facts(6) queue by blast
  with mem'(1) nop comm disk facts(4) ledger show ?thesis
    unfolding turn live_ok_def live_abs_def by simp
qed

end

section \<open>A store to run on\<close>

definition sample_live :: "(sorted_alist, sorted_alist) disk live_store" where
  "sample_live = \<lparr>st_shards = sample_shards, st_published = Map.empty,
     st_memory = replicate STATE_SHARDS Map.empty, st_disk = sample_disk, st_queue = []\<rparr>"

lemma mem_at_start: "mem_at (replicate STATE_SHARDS Map.empty) k = None"
  using dedup_shard_bound [of k] by (simp add: mem_at_def del: dedup_shard_bound)

lemma sample_live_ok:
  "live_ok hash (disk_index alist_of alist_of) (\<lambda>d. disk_ok alist_of alist_of d \<and> filter_ok alist_of alist_of d) sample_live"
  by (simp add: live_ok_def sample_live_def mem_at_start no_pending_def sample_disk_ok sample_shards_ok)
    (simp add: mem_ok_def)

section \<open>The properties\<close>

lemma restore_lemma:
  assumes "dedup_index api lookup good" "live_ok hash lookup good s" "\<forall>x. length (sha x) = 32"
    and "inj_on sha (operation_id ` set ops)" "\<forall>i. up i"
  shows "\<exists>r s'. restore_chunk sha hash api up wal_append rid ops s = (Some r, s')
    \<and> live_ok hash lookup good s'
    \<and> (case replay_batch sha ops (live_abs hash lookup s) of
         None \<Rightarrow> (\<exists>i. r = Inl (ConflictError i)) \<and> live_abs hash lookup s' = live_abs hash lookup s
       | Some st \<Rightarrow>
           (case wal_append (fresh_of sha (fst (live_abs hash lookup s)) ops) of
              Inl e \<Rightarrow> r = Inl e \<and> live_abs hash lookup s' = live_abs hash lookup s
            | Inr _ \<Rightarrow> r = Inr () \<and> live_abs hash lookup s' = st))
    \<and> live_abs hash lookup (persist_turn api commit n s') = live_abs hash lookup s'"
proof -
  let ?L = "fst (live_abs hash lookup s)" and ?run = "restore_chunk sha hash api up wal_append rid ops s"
  have len: "\<And>x. length (sha x) = 32" and ups: "\<And>i. up i" using assms(3,5) by simp_all
  note turn = dedup_index.persist_turn_ok [OF assms(1), of hash _ commit n]
  note good = dedup_index.restore_consistent [where up = up and wal_append = wal_append and rid = rid, OF assms(1,2) ups assms(4) len]
  show ?thesis
  proof (cases "batch_consistent sha ?L ops")
    case False
    with dedup_index.restore_conflict [where up = up and wal_append = wal_append and rid = rid, OF assms(1,2,4) False] turn
    show ?thesis by (fastforce simp: replay_batch_def split: prod.split)
  next
    case True
    then obtain st where st: "replay_batch sha ops (live_abs hash lookup s) = Some st"
      by (cases "live_abs hash lookup s") (simp add: replay_batch_def)
    show ?thesis
    proof (cases "wal_append (fresh_of sha ?L ops)")
      case (Inl e)
      from good(2) [OF True Inl] turn st Inl show ?thesis by fastforce
    next
      case (Inr u)
      then have "wal_append (fresh_of sha ?L ops) = Inr ()" by simp
      from good(1) [OF True this] turn st this show ?thesis by fastforce
    qed
  qed
qed

text \<open>
  C16: restoring a chunk implements its specification.  On a store that serves no request,
  \<open>restore_chunk\<close> returns: it answers with a conflict and changes nothing the specification
  sees when the batch contradicts itself or an accepted operation; it answers with the error
  of the write-ahead log, again with no effect, when the append fails; and otherwise it
  accepts exactly the operations that were not known yet and adds their deltas.  Writing any
  queued entries to the disk index afterwards, successfully or not, is invisible.
\<close>
theorem restore_chunk_refines:
  assumes "dedup_index api lookup good" "live_ok hash lookup good s" "\<forall>x. length (sha x) = 32"
    and "inj_on sha (operation_id ` set ops)" "\<forall>i. up i"
  shows "\<exists>r s'. restore_chunk sha hash api up wal_append rid ops s = (Some r, s')
    \<and> live_ok hash lookup good s'
    \<and> (case replay_batch sha ops (live_abs hash lookup s) of
         None \<Rightarrow> (\<exists>i. r = Inl (ConflictError i)) \<and> live_abs hash lookup s' = live_abs hash lookup s
       | Some st \<Rightarrow>
           (case wal_append (fresh_of sha (fst (live_abs hash lookup s)) ops) of
              Inl e \<Rightarrow> r = Inl e \<and> live_abs hash lookup s' = live_abs hash lookup s
            | Inr _ \<Rightarrow> r = Inr () \<and> live_abs hash lookup s' = st))
    \<and> live_abs hash lookup (persist_turn api commit n s') = live_abs hash lookup s'"
  by (rule restore_lemma [OF assms])

lemma restore_chunk_refines_witness:
  "\<exists>r s'. restore_chunk pad sample_hash (disk_index_api alist_api alist_api) (\<lambda>_. True) (\<lambda>_. Inr ()) 0 sample_batch sample_live
      = (Some r, s')
    \<and> live_ok sample_hash (disk_index alist_of alist_of) (\<lambda>d. disk_ok alist_of alist_of d \<and> filter_ok alist_of alist_of d) s'
    \<and> (case replay_batch pad sample_batch (live_abs sample_hash (disk_index alist_of alist_of) sample_live) of
         None \<Rightarrow> (\<exists>i. r = Inl (ConflictError i))
           \<and> live_abs sample_hash (disk_index alist_of alist_of) s' = live_abs sample_hash (disk_index alist_of alist_of) sample_live
       | Some st \<Rightarrow>
           (case Inr () of
              Inl e \<Rightarrow> r = Inl e \<and> live_abs sample_hash (disk_index alist_of alist_of) s'
                = live_abs sample_hash (disk_index alist_of alist_of) sample_live
            | Inr _ \<Rightarrow> r = Inr () \<and> live_abs sample_hash (disk_index alist_of alist_of) s' = st))
    \<and> live_abs sample_hash (disk_index alist_of alist_of) (persist_turn (disk_index_api alist_api alist_api) (Inr ()) 1 s')
        = live_abs sample_hash (disk_index alist_of alist_of) s'"
  by (rule restore_chunk_refines [OF alist_disk.index.dedup_index_axioms sample_live_ok])
    (simp add: length_pad, simp_all add: sample_batch_def sample_op_def ascii_def pad_def inj_on_def)

text \<open>The key of an operation in the entries of a batch.\<close>

lemma entries_at:
  assumes "distinct (map (\<lambda>op. sha (operation_id op)) nops)"
  shows "op \<in> set nops \<Longrightarrow> map_of (map (entry_of sha) nops) (sha (operation_id op)) = Some (fingerprint sha op)"
    and "k \<notin> (\<lambda>op. sha (operation_id op)) ` set nops \<Longrightarrow> map_of (map (entry_of sha) nops) k = None"
proof -
  have dist: "distinct (map fst (map (entry_of sha) nops))" using assms by (simp add: comp_def entry_of_def)
  show "op \<in> set nops \<Longrightarrow> map_of (map (entry_of sha) nops) (sha (operation_id op)) = Some (fingerprint sha op)"
    by (rule map_of_is_SomeI [OF dist]) (auto simp: entry_of_def)
  show "k \<notin> (\<lambda>op. sha (operation_id op)) ` set nops \<Longrightarrow> map_of (map (entry_of sha) nops) k = None"
    by (auto simp: map_of_eq_None_iff entry_of_def)
qed

text \<open>
  C18: the life of a reservation.  On a table where nothing is pending, \<open>preflight_batch\<close> never
  waits.  It refuses a batch exactly when it contradicts itself or an accepted operation, naming
  an operation that does, and every reservation made on the way is rolled back.  Otherwise it
  marks exactly the first uses of unknown ids as new, and the table holds their ids as
  pending, each with its fingerprint and the number of the request, and is unchanged elsewhere.
  From there, \<open>finish_batch\<close> of a batch that failed restores the table and hands nothing to the
  persistence; of a batch that succeeded it makes exactly the new ids committed, with their
  fingerprints, hands exactly them to the persistence, and nothing is pending any more.
\<close>
theorem reservation_exact:
  assumes "mem_ok mem" "no_pending mem" "inj_on sha (operation_id ` set ops)" "\<forall>keys. get_many keys = Inr (map look keys)"
    and "L = ledger_of mem look" "entries = map (entry_of sha) (fresh_of sha L ops)"
    and "preflight_batch sha get_many rid ops mem = (m, out)"
  shows "case out of
      Blocked n \<Rightarrow> False
    | Rejected e \<Rightarrow> \<not> batch_consistent sha L ops \<and> mem_at m = mem_at mem
        \<and> (\<exists>op \<in> set ops. e = ConflictError (operation_id op) \<and> contradicts sha L ops op)
    | Ready new \<Rightarrow> batch_consistent sha L ops \<and> new = fresh_flags sha L ops
        \<and> (\<forall>k. mem_at m k = (case map_of entries k of Some f \<Rightarrow> Some (Pending (Some f) rid) | None \<Rightarrow> mem_at mem k))
        \<and> (\<exists>m' notif. finish_batch sha ops new False m = (m', notif, []) \<and> mem_at m' = mem_at mem)
        \<and> (\<exists>m' notif es. finish_batch sha ops new True m = (m', notif, es) \<and> set es = set entries
              \<and> (\<forall>k. mem_at m' k = (case map_of entries k of Some f \<Rightarrow> Some (Committed f) | None \<Rightarrow> mem_at mem k))
              \<and> ledger_of m' look = L ++ map_of entries \<and> no_pending m')"
proof (cases "batch_consistent sha L ops")
  case False
  have get: "\<And>keys. get_many keys = Inr (map look keys)" using assms(4) by simp
  from preflight_alone [OF assms(1-3) get, of rid] False assms(5,7) show ?thesis by auto
next
  case True
  have get: "\<And>keys. get_many keys = Inr (map look keys)" using assms(4) by simp
  let ?nops = "fresh_of sha L ops"
  let ?keys = "(\<lambda>op. sha (operation_id op)) ` set ?nops"
  from preflight_alone [OF assms(1-3) get, of rid] True assms(5,7) obtain new where
    p: "out = Ready new" "new = fresh_flags sha L ops" "fresh_ops ops new = ?nops" "reserved_for sha rid ?nops mem m" by auto
  have m: "mem_ok m" "\<forall>op \<in> set ?nops. mem_at m (sha (operation_id op)) = Some (Pending (Some (fingerprint sha op)) rid)"
    "\<And>k. k \<notin> ?keys \<Longrightarrow> mem_at m k = mem_at mem k" using p(4) by (auto simp: reserved_for_def)
  note facts = fresh_of_facts [OF assms(3), where L = L]
  note at = entries_at [OF facts(2), folded assms(6)]
  have unknown: "mem_at mem k = None" if "k \<in> ?keys" for k
  proof -
    from that facts(3) have "ledger_of mem look k = None" unfolding assms(5) by auto
    with assms(2) show ?thesis by (auto simp: ledger_of_def no_pending_def split: option.splits dedup_entry.splits)
  qed
  have reserved: "mem_at m k = (case map_of entries k of Some f \<Rightarrow> Some (Pending (Some f) rid) | None \<Rightarrow> mem_at mem k)" for k
    using m(2,3) at by (cases "k \<in> ?keys") auto
  note finish = finish_alone [OF m(1) facts(2) p(3) [symmetric] m(2)]
  from finish [of False] obtain m1 notif where f1: "finish_batch sha ops new False m = (m1, notif, [])"
    "\<And>k. mem_at m1 k = (if k \<in> ?keys then None else mem_at m k)" by auto
  have restored: "mem_at m1 = mem_at mem" using m(3) unknown f1(2) by (auto simp: fun_eq_iff)
  from finish [of True] obtain m2 notif2 es where f2: "finish_batch sha ops new True m = (m2, notif2, es)" "set es = set entries"
    "\<And>k. mem_at m2 k = (if k \<in> ?keys then map_option Committed (map_of entries k) else mem_at m k)"
    by (auto simp: assms(6))
  have committed: "mem_at m2 k = (case map_of entries k of Some f \<Rightarrow> Some (Committed f) | None \<Rightarrow> mem_at mem k)" for k
    using m(3) at unknown by (cases "k \<in> ?keys") (auto simp: f2(3))
  then have "ledger_of m2 look = L ++ map_of entries"
    by (auto simp: fun_eq_iff ledger_of_def assms(5) map_add_def split: option.splits)
  moreover have "no_pending m2" using assms(2) by (auto simp: no_pending_def committed split: option.splits)
  ultimately show ?thesis using True p(1,2) reserved f1(1) restored f2(1,2) committed by simp
qed

lemma reservation_exact_witness:
  "\<exists>m new m'. preflight_batch pad (\<lambda>keys. Inr (map (\<lambda>_. None) keys)) 4 sample_batch (replicate STATE_SHARDS Map.empty) = (m, Ready new)
    \<and> (\<exists>notif. finish_batch pad sample_batch new False m = (m', notif, [])) \<and> mem_at m' = mem_at (replicate STATE_SHARDS Map.empty)"
proof -
  let ?mem = "replicate STATE_SHARDS Map.empty :: memory" and ?get = "\<lambda>keys :: bytes list. Inr (map (\<lambda>_. None) keys) :: bytes option list result"
  obtain m out where pre: "preflight_batch pad ?get 4 sample_batch ?mem = (m, out)" by fastforce
  have ok: "mem_ok ?mem" "no_pending ?mem" by (simp add: mem_ok_def) (simp add: no_pending_def mem_at_start)
  have inj: "inj_on pad (operation_id ` set sample_batch)"
    by (simp add: sample_batch_def sample_op_def ascii_def pad_def inj_on_def)
  have get: "\<forall>keys. ?get keys = Inr (map (\<lambda>_. None) keys)" by simp
  have consistent: "batch_consistent pad (ledger_of ?mem (\<lambda>_. None)) sample_batch"
    unfolding batch_consistent_def
    by (simp add: sample_batch_def sample_op_def ledger_of_def mem_at_start) (simp add: ascii_def)
  note exact = reservation_exact [OF ok inj get refl refl pre]
  show ?thesis
  proof (cases out)
    case (Ready new)
    with exact pre show ?thesis by auto
  qed (use exact consistent in simp_all)
qed

end
