(* ===== verification/CatchUp.thy ===== *)
theory CatchUp
  imports ReplicatedLog Checkpoint Restore
begin

text \<open>
  \<open>catch_up\<close> and \<open>run_live_tail\<close> of \<open>src/main.rs\<close>: a replica reads the replicated log from
  its checkpoint, activates the fences, restores the batches of the active epoch, quarantines
  the others and advances the checkpoint every 64 records.  \<open>buffered(64)\<close> reads ahead but
  yields the records in order; here each record is read when its turn comes.  The store is a
  parameter with the operation \<open>restore\<close>, of which the locale \<open>restorer\<close> states the contract;
  \<open>Store::restore_chunk\<close> provides it.
\<close>

section \<open>The code\<close>

record ('st, 'l) replica =
  rp_store :: 'st
  rp_log :: 'l
  rp_checkpoint :: checkpoint

record ('st, 'l) catch_up_state = "('st, 'l) replica" +
  cu_epoch :: u64
  cu_pending :: "(u64 \<times> u64) option"
  cu_since :: nat

text \<open>The match on one record.\<close>

definition stale_reason :: "u64 \<Rightarrow> u64 \<Rightarrow> string" where
  "stale_reason epoch active_epoch =
     ''writer epoch '' @ decimal (unat epoch) @ '' rejected; active epoch is '' @ decimal (unat active_epoch)"

definition catch_up_record ::
  "(u64 \<Rightarrow> operation list \<Rightarrow> 'st \<Rightarrow> unit result option \<times> 'st) \<Rightarrow> json_api \<Rightarrow> 'l log_api \<Rightarrow> u64 \<Rightarrow> log_record
     \<Rightarrow> ('st, 'l) catch_up_state \<Rightarrow> unit result option \<times> ('st, 'l) catch_up_state" where
  "catch_up_record restore json api sequence rec s =
     (case rec of
        LogFence epoch owner \<Rightarrow> (Some (Inr ()), if epoch > cu_epoch s then s\<lparr>cu_epoch := epoch\<rparr> else s)
      | LogOperations epoch batch \<Rightarrow>
          if epoch = cu_epoch s then
            (if batch \<noteq> [] then
               (let (r, st) = restore sequence batch (rp_store s) in (r, s\<lparr>rp_store := st\<rparr>))
             else (Some (Inr ()), s))
          else if epoch = - 1 then (Some (Inr ()), s)
          else
            (let (r, l) = quarantine_record json api sequence (stale_reason epoch (cu_epoch s)) (rp_log s)
             in (Some r, s\<lparr>rp_log := l\<rparr>)))"

text \<open>The bookkeeping after a record.\<close>

definition catch_up_mark ::
  "(u64 \<Rightarrow> replace_outcome) \<Rightarrow> u64 \<Rightarrow> ('st, 'l) catch_up_state \<Rightarrow> unit result option \<times> ('st, 'l) catch_up_state" where
  "catch_up_mark io sequence s =
     (let s = s\<lparr>cu_pending := Some (sequence, cu_epoch s), cu_since := cu_since s + 1\<rparr> in
      if cu_since s \<ge> 64 then
        (case advance_checkpoint (io sequence) sequence (cu_epoch s) (rp_checkpoint s) of
           (Inl e, c) \<Rightarrow> (Some (Inl e), s\<lparr>rp_checkpoint := c\<rparr>)
         | (Inr _, c) \<Rightarrow> (Some (Inr ()), s\<lparr>rp_checkpoint := c, cu_since := 0, cu_pending := None\<rparr>))
      else (Some (Inr ()), s))"

fun catch_up_loop ::
  "(u64 \<Rightarrow> operation list \<Rightarrow> 'st \<Rightarrow> unit result option \<times> 'st) \<Rightarrow> json_api \<Rightarrow> 'l log_api
     \<Rightarrow> (u64 \<Rightarrow> replace_outcome) \<Rightarrow> u64 list \<Rightarrow> ('st, 'l) catch_up_state
     \<Rightarrow> unit result option \<times> ('st, 'l) catch_up_state" where
  "catch_up_loop restore json api io [] s =
     (case cu_pending s of
        None \<Rightarrow> (Some (Inr ()), s)
      | Some (sequence, epoch) \<Rightarrow>
          (let (r, c) = advance_checkpoint (io sequence) sequence epoch (rp_checkpoint s)
           in (Some r, s\<lparr>rp_checkpoint := c\<rparr>)))"
| "catch_up_loop restore json api io (sequence # more_sequences) s =
     (case log_read json api sequence (rp_log s) of
        (Inl e, l) \<Rightarrow> (Some (Inl e), s\<lparr>rp_log := l\<rparr>)
      | (Inr rec, l) \<Rightarrow>
          (case catch_up_record restore json api sequence rec (s\<lparr>rp_log := l\<rparr>) of
             (Some (Inr _), s1) \<Rightarrow>
               (case catch_up_mark io sequence s1 of
                  (Some (Inr _), s2) \<Rightarrow> catch_up_loop restore json api io more_sequences s2
                | halted \<Rightarrow> halted)
           | halted \<Rightarrow> halted))"

definition catch_up ::
  "(u64 \<Rightarrow> operation list \<Rightarrow> 'st \<Rightarrow> unit result option \<times> 'st) \<Rightarrow> json_api \<Rightarrow> 'l log_api
     \<Rightarrow> (u64 \<Rightarrow> replace_outcome) \<Rightarrow> ('st, 'l) replica \<Rightarrow> unit result option \<times> ('st, 'l) replica" where
  "catch_up restore json api io rp =
     (case js_last api (rp_log rp) of
        Inl e \<Rightarrow> (Some (Inl e), rp)
      | Inr last_sequence \<Rightarrow>
          (let first_sequence = u64_saturating_add (current (rp_checkpoint rp)) 1;
               s = replica.extend rp
                 \<lparr>cu_epoch = writer_epoch (rp_checkpoint rp), cu_pending = None, cu_since = 0\<rparr>;
               (r, s') = catch_up_loop restore json api io
                 (map word_of_nat [unat first_sequence ..< Suc (unat last_sequence)]) s
           in (r, replica.truncate s')))"

text \<open>One turn of the loop of \<open>run_live_tail\<close>, sleeps apart.\<close>

definition live_tail_turn ::
  "(u64 \<Rightarrow> operation list \<Rightarrow> 'st \<Rightarrow> unit result option \<times> 'st) \<Rightarrow> json_api \<Rightarrow> 'l log_api
     \<Rightarrow> (u64 \<Rightarrow> replace_outcome) \<Rightarrow> ('st, 'l) replica \<Rightarrow> ('st, 'l) replica" where
  "live_tail_turn restore json api io rp =
     (case js_last api (rp_log rp) of
        Inl e \<Rightarrow> rp
      | Inr last_sequence \<Rightarrow>
          if last_sequence > current (rp_checkpoint rp) then snd (catch_up restore json api io rp) else rp)"

section \<open>The specification\<close>

text \<open>
  The epoch after a stretch of the log and the batches in it that were written under the
  epoch active at their position.
\<close>

fun epoch_after :: "u64 \<Rightarrow> log_record list \<Rightarrow> u64" where
  "epoch_after e [] = e"
| "epoch_after e (LogFence n _ # rs) = epoch_after (max e n) rs"
| "epoch_after e (LogOperations _ _ # rs) = epoch_after e rs"

fun accepted_batches :: "u64 \<Rightarrow> log_record list \<Rightarrow> operation list list" where
  "accepted_batches e [] = []"
| "accepted_batches e (LogFence n _ # rs) = accepted_batches (max e n) rs"
| "accepted_batches e (LogOperations n ops # rs) =
     (if n = e \<and> ops \<noteq> [] then ops # accepted_batches e rs else accepted_batches e rs)"

fun replay_batches :: "(bytes \<Rightarrow> bytes) \<Rightarrow> operation list list \<Rightarrow> replay_state \<Rightarrow> replay_state option" where
  "replay_batches sha [] st = Some st"
| "replay_batches sha (b # bs) st = Option.bind (replay_batch sha b st) (replay_batches sha bs)"

lemma epoch_after_append: "epoch_after e (rs @ rs') = epoch_after (epoch_after e rs) rs'"
  by (induction e rs rule: epoch_after.induct) simp_all

lemma accepted_batches_append:
  "accepted_batches e (rs @ rs') = accepted_batches e rs @ accepted_batches (epoch_after e rs) rs'"
  by (induction e rs rule: accepted_batches.induct) simp_all

lemma replay_batches_append:
  "replay_batches sha (bs @ bs') st = Option.bind (replay_batches sha bs st) (replay_batches sha bs')"
proof (induction bs arbitrary: st)
  case (Cons b bs)
  then show ?case by (cases "replay_batch sha b st") simp_all
qed simp

section \<open>Replaying is idempotent\<close>

lemma replay_batch_Some:
  "replay_batch sha ops (L, B) = Some (L', B') \<longleftrightarrow> batch_consistent sha L ops
     \<and> L' = L ++ map_of (map (entry_of sha) (fresh_of sha L ops)) \<and> B' = fst (apply_in_order (fresh_of sha L ops) B)"
  by (auto simp: replay_batch_def)

lemma fresh_of_firsts: "fresh_of sha L ops = firsts sha (dom L) ops"
proof -
  have "filter (\<lambda>op. sha (operation_id op) \<notin> D) (firsts sha S ops) = firsts sha (D \<union> S) ops" for D S
    by (induction sha S ops rule: firsts.induct) (auto simp: insert_absorb)
  from this [of "dom L" "{}"] show ?thesis by (simp add: fresh_of_def domIff)
qed

lemma firsts_append:
  "firsts sha S (xs @ ys) = firsts sha S xs @ firsts sha (S \<union> (\<lambda>op. sha (operation_id op)) ` set xs) ys"
proof (induction xs arbitrary: S)
  case (Cons x xs)
  show ?case
    using Cons.IH [of S] Cons.IH [of "insert (sha (operation_id x)) S"] by (simp add: insert_absorb)
qed simp

lemma dom_fresh: "dom (L ++ map_of (map (entry_of sha) (fresh_of sha L ops)))
    = dom L \<union> (\<lambda>op. sha (operation_id op)) ` set ops"
proof -
  have "dom (map_of (map (entry_of sha) xs)) = (\<lambda>op. sha (operation_id op)) ` set xs" for xs
    by (simp add: dom_map_of_conv_image_fst image_image entry_of_def)
  then show ?thesis using firsts_distinct [of sha "dom L" ops] by (auto simp: fresh_of_firsts)
qed

text \<open>The balances after a replay: every operation counts once, the first time its id occurs.\<close>

lemma replay_batches_effect:
  "replay_batches sha bs (L, B) = Some (L', B') \<Longrightarrow>
     dom L' = dom L \<union> (\<lambda>op. sha (operation_id op)) ` set (concat bs)
     \<and> balance_at B' k = balance_at B k + total_delta (firsts sha (dom L) (concat bs)) k"
proof (induction bs arbitrary: L B)
  case (Cons b bs)
  from Cons.prems obtain L1 B1 where st: "replay_batch sha b (L, B) = Some (L1, B1)"
    "replay_batches sha bs (L1, B1) = Some (L', B')" by (auto simp: bind_eq_Some_conv)
  from st(1) have s: "L1 = L ++ map_of (map (entry_of sha) (fresh_of sha L b))" "B1 = fst (apply_in_order (fresh_of sha L b) B)"
    by (simp_all add: replay_batch_Some)
  have L1: "dom L1 = dom L \<union> (\<lambda>op. sha (operation_id op)) ` set b" unfolding s(1) by (rule dom_fresh)
  have B1: "balance_at B1 k = balance_at B k + total_delta (firsts sha (dom L) b) k"
    by (simp add: s(2) apply_in_order_at fresh_of_firsts)
  from L1 B1 Cons.IH [OF st(2)] show ?case by (auto simp: firsts_append add.assoc)
qed simp

text \<open>A batch whose operations are all accepted with their contents.\<close>

definition settled :: "(bytes \<Rightarrow> bytes) \<Rightarrow> (bytes \<Rightarrow> bytes option) \<Rightarrow> operation list \<Rightarrow> bool" where
  "settled sha L ops \<longleftrightarrow> (\<forall>op \<in> set ops. L (sha (operation_id op)) = Some (fingerprint sha op))
     \<and> (\<forall>op \<in> set ops. \<forall>op' \<in> set ops. operation_id op = operation_id op' \<longrightarrow> fingerprint sha op = fingerprint sha op')"

lemma settled_replay: "settled sha L ops \<Longrightarrow> replay_batch sha ops (L, B) = Some (L, B)"
proof -
  assume s: "settled sha L ops"
  have "fresh_of sha L ops = []"
  proof -
    have "set (firsts sha S ops) \<subseteq> set ops" for S by (induction sha S ops rule: firsts.induct) auto
    moreover have "L (sha (operation_id op)) \<noteq> None" if "op \<in> set ops" for op
    proof -
      have "L (sha (operation_id op)) = Some (fingerprint sha op)" using s that unfolding settled_def by blast
      then show ?thesis by simp
    qed
    ultimately show ?thesis unfolding fresh_of_def filter_empty_conv by blast
  qed
  moreover have "batch_consistent sha L ops" using s unfolding settled_def batch_consistent_def by blast
  ultimately show ?thesis by (simp add: replay_batch_def)
qed

lemma settled_mono: "settled sha L ops \<Longrightarrow> L \<subseteq>\<^sub>m L' \<Longrightarrow> settled sha L' ops"
  unfolding settled_def map_le_def by (metis domI)

lemma replay_batch_grows:
  assumes "replay_batch sha ops (L, B) = Some (L', B')"
  shows "L \<subseteq>\<^sub>m L'"
proof -
  let ?W = "map_of (map (entry_of sha) (fresh_of sha L ops))"
  have "L (fst e) = None" if "e \<in> set (map (entry_of sha) (fresh_of sha L ops))" for e
    using that by (auto simp: fresh_of_def entry_of_def)
  then have "dom L \<inter> dom ?W = {}" unfolding dom_map_of_conv_image_fst by fastforce
  then have "L ++ ?W = ?W ++ L" by (rule map_add_comm)
  then have "L \<subseteq>\<^sub>m L ++ ?W" by (metis map_le_map_add)
  then show ?thesis using assms by (simp add: replay_batch_Some)
qed

lemma replay_batch_settles:
  assumes "replay_batch sha ops (L, B) = Some (L', B')" "inj_on sha (operation_id ` set ops)"
  shows "settled sha L' ops"
  unfolding settled_def
proof (intro conjI ballI impI)
  let ?W = "map_of (map (entry_of sha) (fresh_of sha L ops))"
  have c: "batch_consistent sha L ops" "L' = L ++ ?W" using assms(1) by (simp_all add: replay_batch_Some)
  have same: "fingerprint sha op = fingerprint sha op'"
    if "op \<in> set ops" "op' \<in> set ops" "operation_id op = operation_id op'" for op op'
    using c(1) that unfolding batch_consistent_def by blast
  then show "fingerprint sha op = fingerprint sha op'"
    if "op \<in> set ops" "op' \<in> set ops" "operation_id op = operation_id op'" for op op'
    using that by blast
  fix op
  assume op: "op \<in> set ops"
  let ?k = "sha (operation_id op)"
  show "L' ?k = Some (fingerprint sha op)"
  proof (cases "L ?k")
    case (Some f)
    have "L' ?k = Some f" using replay_batch_grows [OF assms(1)] Some by (metis domI map_le_def)
    moreover have "L ?k \<in> {None, Some (fingerprint sha op)}" using c(1) op unfolding batch_consistent_def by blast
    ultimately show ?thesis using Some by simp
  next
    case None
    have "?k \<in> dom L'" using dom_fresh [of L sha ops] c(2) op by auto
    then obtain f where f: "L' ?k = Some f" by blast
    with None c(2) have W: "?W ?k = Some f" by (simp add: map_add_def split: option.splits)
    from map_of_SomeD [OF W] obtain op' where op': "op' \<in> set (fresh_of sha L ops)" "entry_of sha op' = (?k, f)" by auto
    have in_ops: "op' \<in> set ops" using fresh_of_facts(1) [OF assms(2), of L] op'(1) by blast
    moreover have "operation_id op' = operation_id op"
      by (rule inj_onD [OF assms(2)]) (use op'(2) op in_ops in \<open>simp_all add: entry_of_def\<close>)
    ultimately have "fingerprint sha op' = fingerprint sha op" using same op by blast
    with f op'(2) show ?thesis by (simp add: entry_of_def)
  qed
qed

lemma replay_batches_settled:
  "replay_batches sha bs (L, B) = Some (L', B') \<Longrightarrow> \<forall>b \<in> set bs. inj_on sha (operation_id ` set b) \<Longrightarrow>
     L \<subseteq>\<^sub>m L' \<and> (\<forall>b \<in> set bs. settled sha L' b)"
proof (induction bs arbitrary: L B)
  case (Cons b bs)
  from Cons.prems(1) obtain L1 B1 where st: "replay_batch sha b (L, B) = Some (L1, B1)"
    "replay_batches sha bs (L1, B1) = Some (L', B')" by (auto simp: bind_eq_Some_conv)
  have 1: "L \<subseteq>\<^sub>m L1" "settled sha L1 b"
    using replay_batch_grows [OF st(1)] replay_batch_settles [OF st(1)] Cons.prems(2) by simp_all
  from Cons.IH [OF st(2)] Cons.prems(2) have 2: "L1 \<subseteq>\<^sub>m L'" "\<forall>b \<in> set bs. settled sha L' b" by simp_all
  with 1 show ?case by (auto intro: settled_mono map_le_trans)
qed simp

end
