(* ===== verification/Requests.thy ===== *)
theory Requests
  imports ReservationSteps
begin

text \<open>
  What the interleaved requests of \<open>ReservationSteps\<close> guarantee: every operation is applied
  at most once and every answer is honest, whatever the interleaving, the cancellations and
  the failures; a request that waits has somebody to wake it up; a reservation whose request
  is gone stays for ever; and the functions \<open>preflight_round\<close> and \<open>finish_batch\<close> are runs of
  the steps.
\<close>

section \<open>The ledger is what was applied\<close>

context dedup_index
begin

lemma ledger_applied:
  assumes "sys_reachable sha api ids (lookup d) d s" "good d" "inj_on sha ids" "\<And>x. length (sha x) = 32"
  shows "sys_ledger s = lookup d ++ map_of (sys_applied s)
    \<and> (\<forall>(k, f) \<in> set (sys_applied s). lookup d k = None)"
  using assms(1) unfolding sys_reachable_def
proof (induction rule: rtranclp_induct)
  case base
  show ?case by (simp add: sys_init_def)
next
  case (step y z)
  have "sys_reachable sha api ids (lookup d) d y" using step.hyps(1) by (simp add: sys_reachable_def)
  note inv = sys_inv_reachable [OF this assms(2-4)]
  from step.hyps(2) step.IH show ?case
  proof cases
    case (apply_ops p r)
    let ?fresh = "fresh sha r"
    note req = sys_invD(3) [OF inv apply_ops(2)]
    have none: "lookup d k = None \<and> k \<notin> dom (map_of (sys_applied y))" if "(k, f) \<in> set ?fresh" for k f
    proof -
      have "k \<in> set (held r)"
        using fresh_reserved [OF request_inv_shape [OF req] that] apply_ops(3) by simp
      with req apply_ops(3) have "sys_ledger y k = None" by (simp add: request_inv_def)
      with step.IH show ?thesis by (auto simp: map_add_None)
    qed
    have "dom (map_of ?fresh) = fst ` set ?fresh" by (rule dom_map_of_conv_image_fst)
    then have "dom (map_of ?fresh) \<inter> dom (map_of (sys_applied y)) = {}" using none by fastforce
    from map_add_comm [OF this] show ?thesis using step.IH none
      by (auto simp: apply_ops(1) put_request_def map_add_assoc)
  qed (simp_all add: put_request_def)
qed

lemma reservations_exclusive:
  assumes "sys_inv sha lookup good s" "sys_requests s p = Some a" "sys_requests s q = Some b" "p \<noteq> q"
  shows "set (held a) \<inter> set (held b) = {}"
proof (rule ccontr)
  assume "set (held a) \<inter> set (held b) \<noteq> {}"
  then obtain k where k: "k \<in> set (held a)" "k \<in> set (held b)" by blast
  from held_pending [OF sys_invD(3) [OF assms(1,2)] k(1)] held_pending [OF sys_invD(3) [OF assms(1,3)] k(2)]
  have "r_id a = r_id b" by auto
  with sys_invD(5) [OF assms(1-3)] assms(4) show False by blast
qed

lemma answer_ledger:
  assumes inv: "sys_inv sha lookup good s" and r: "sys_requests s p = Some r" "r_phase r = Answered (Inr new)"
    and op: "op \<in> set (r_ops r)"
  shows "sys_ledger s (sha (operation_id op)) = Some (fingerprint sha op)"
proof -
  note req = sys_invD(3) [OF inv r(1)]
  note shape = request_inv_shape [OF req]
  from op obtain j where j: "j < length (r_ops r)" "op = r_ops r ! j" by (auto simp: in_set_conv_nth)
  have "unique_ok sha (r_ops r) (length (r_ops r)) (r_unique r)" using shape by (simp add: shape_ok_def)
  with j obtain i where i: "i \<in> set (r_unique r)" "i < length (r_ops r)"
    "operation_id (r_ops r ! i) = operation_id op" "fingerprint sha (r_ops r ! i) = fingerprint sha op"
    unfolding unique_ok_def by metis
  have eq: "key_at sha r i = sha (operation_id op)" "fp_at sha r i = fingerprint sha op"
    using i by (simp_all add: key_at_def fp_at_def prepared_nth)
  show ?thesis
  proof (cases "r_new r ! i")
    case True
    then have "(key_at sha r i, fp_at sha r i) \<in> set (fresh sha r)"
      using fresh_mem [OF shape] i(1) by blast
    with request_phase_inv [OF req] r(2) eq show ?thesis by (auto simp: phase_inv_def)
  next
    case False
    with req r(2) i(1) eq show ?thesis by (auto simp: request_inv_def)
  qed
qed

end

section \<open>Waiting\<close>

text \<open>A request whose notification is still to come, and the one a request waits for.\<close>

definition notifier :: "request \<Rightarrow> bool" where
  "notifier r \<longleftrightarrow>
     (case r_phase r of
        RollingBack _ _ \<Rightarrow> True
      | Finishing _ _ notif _ \<Rightarrow> r_id r \<in> set notif \<or> held r \<noteq> []
      | Lost _ \<Rightarrow> True
      | Waiting _ \<Rightarrow> False
      | Answered _ \<Rightarrow> False
      | _ \<Rightarrow> held r \<noteq> [])"

fun waits_for :: "phase \<Rightarrow> nat option" where
  "waits_for (Waiting n) = Some n"
| "waits_for (RollingBack _ (WaitFor n)) = Some n"
| "waits_for _ = None"

definition heard :: "'d system \<Rightarrow> nat \<Rightarrow> bool" where
  "heard s n \<longleftrightarrow> n \<in> sys_notified s \<or> (\<exists>q a. sys_requests s q = Some a \<and> r_id a = n \<and> notifier a)"

definition wait_inv :: "'d system \<Rightarrow> bool" where
  "wait_inv s \<longleftrightarrow> (\<forall>p r n. sys_requests s p = Some r \<longrightarrow> waits_for (r_phase r) = Some n \<longrightarrow> heard s n)"

lemma new_request_fields:
  "r_phase (new_request ops u n) = Reserving 0" "\<not> notifier (new_request ops u n)"
  by (simp_all add: new_request_def notifier_def)

lemma held_notifier: "k \<in> set (held r) \<Longrightarrow> notifier r"
  by (cases "r_phase r") (auto simp: notifier_def filter_empty_conv)

lemma wait_inv_update:
  assumes inv: "wait_inv s" and r: "sys_requests s' = (sys_requests s)(p \<mapsto> r')"
    and notified: "sys_notified s \<subseteq> sys_notified s'"
    and keep: "\<And>r. sys_requests s p = Some r \<Longrightarrow> notifier r \<Longrightarrow>
      (r_id r' = r_id r \<and> notifier r') \<or> r_id r \<in> sys_notified s'"
    and new: "\<And>n. waits_for (r_phase r') = Some n \<Longrightarrow> heard s n"
  shows "wait_inv s'"
proof -
  have mono: "heard s n \<Longrightarrow> heard s' n" for n
    unfolding heard_def
  proof (elim disjE exE conjE)
    assume "n \<in> sys_notified s"
    with notified show "n \<in> sys_notified s' \<or> (\<exists>q a. sys_requests s' q = Some a \<and> r_id a = n \<and> notifier a)" by blast
  next
    fix q a
    assume a: "sys_requests s q = Some a" "r_id a = n" "notifier a"
    show "n \<in> sys_notified s' \<or> (\<exists>q a. sys_requests s' q = Some a \<and> r_id a = n \<and> notifier a)"
    proof (cases "q = p")
      case True
      with a keep [of a] r show ?thesis by auto
    next
      case False
      with a r have "sys_requests s' q = Some a" by simp
      with a show ?thesis by blast
    qed
  qed
  show ?thesis
    unfolding wait_inv_def
  proof (intro allI impI)
    fix q a n
    assume a: "sys_requests s' q = Some a" "waits_for (r_phase a) = Some n"
    have "heard s n"
      using a inv new r by (cases "q = p") (auto simp: wait_inv_def)
    then show "heard s' n" by (rule mono)
  qed
qed

lemma wait_inv_same:
  "wait_inv s \<Longrightarrow> sys_requests s' = sys_requests s \<Longrightarrow> sys_notified s' = sys_notified s \<Longrightarrow> wait_inv s'"
  by (simp add: wait_inv_def heard_def)

context dedup_index
begin

lemma reserve_waits:
  assumes inv: "sys_inv sha lookup good s" and r: "sys_requests s p = Some r" and i: "i < STATE_SHARDS"
    and run: "reserve_shard (disk_lookup api fault (sys_disk s)) (r_id r) (prepared sha (r_ops r)) (r_ops r) (r_unique r) i
       (sys_mem s, r_new r, r_reserved r) = Inr ((mem', new', res'), x)"
  shows "(\<exists>ks. res' = r_reserved r @ ks) \<and> (\<forall>n. x = Some (WaitFor n) \<longrightarrow> heard s n)"
proof (intro conjI allI impI)
  from reserve_run [OF inv r i run] show "\<exists>ks. res' = r_reserved r @ ks" by blast
  fix n
  assume "x = Some (WaitFor n)"
  with reserve_run [OF inv r i run] have
    "stop_reason (prepared sha (r_ops r)) (r_ops r) (mview (sys_mem s) (lookup (sys_disk s)))
       (shard_indices (prepared sha (r_ops r)) (r_unique r) i) (WaitFor n)" by simp blast
  then obtain k f where "mview (sys_mem s) (lookup (sys_disk s)) k = Some (Pending (Some f) n)"
    by (auto simp: stop_reason_def)
  then have "mem_at (sys_mem s) k = Some (Pending (Some f) n)"
    by (auto simp: mview_def view_def split: option.splits)
  from sys_invD(6) [OF inv this] held_notifier show "heard s n" unfolding heard_def by blast
qed

lemma finish_notifies:
  assumes inv: "sys_inv sha lookup good s" and r: "sys_requests s p = Some r"
    and ph: "r_phase r = Finishing i c notif es" "i < STATE_SHARDS" and n: "notifier r"
    and run: "finish_shard c (new_keys sha (r_ops r) (r_new r)) i (sys_mem s, notif, es) = (mem', notif', es')"
  shows "notifier (r\<lparr>r_phase := Finishing (Suc i) c notif' es'\<rparr>)"
proof -
  note shape = request_inv_shape [OF sys_invD(3) [OF inv r]]
  have fp: "the (map_of (fresh sha r) k) = f" if "(k, f) \<in> set (fresh sha r)" for k f
    using that fresh_distinct [OF shape] by simp
  have notif: "notif' = notif @ map (\<lambda>_. r_id r) (filter (\<lambda>k. dedup_shard k = i) (map fst (fresh sha r)))"
    by (rule finish_run(1) [OF inv r ph fp run])
  have reserved: "set (r_reserved r) = fst ` set (fresh sha r)" using shape by (simp add: shape_ok_def)
  show ?thesis
  proof (cases "r_id r \<in> set notif")
    case True
    then show ?thesis by (simp add: notifier_def notif)
  next
    case False
    with n ph(1) obtain k where k: "k \<in> set (r_reserved r)" "i \<le> dedup_shard k"
      by (auto simp: notifier_def filter_empty_conv)
    show ?thesis
    proof (cases "dedup_shard k = i")
      case True
      then have "k \<in> set (filter (\<lambda>k. dedup_shard k = i) (map fst (fresh sha r)))"
        using k(1) reserved by auto
      then have "r_id r \<in> set notif'" unfolding notif set_append set_map by blast
      then show ?thesis by (simp add: notifier_def)
    next
      case False
      with k have "k \<in> set (held (r\<lparr>r_phase := Finishing (Suc i) c notif' es'\<rparr>))" by simp
      then show ?thesis by (rule held_notifier)
    qed
  qed
qed

lemma wait_inv_step:
  assumes "sys_step sha api ids s s'" "sys_inv sha lookup good s" "wait_inv s"
  shows "wait_inv s'"
  using assms
proof (induction rule: sys_step.induct)
  case (arrive s p ops unique)
  show ?case
    by (rule wait_inv_update [where p = p, OF arrive.prems(2)])
      (use arrive.hyps(1) in \<open>simp_all add: put_request_def, simp_all add: new_request_fields\<close>)
next
  case (reserve s p r i fault mem' new' res' x)
  note w = reserve_waits [OF reserve.prems(1) reserve.hyps(1,3,4)]
  show ?case
  proof (cases x)
    case None
    show ?thesis
      by (rule wait_inv_update [where p = p, OF reserve.prems(2)])
        (use reserve.hyps(1,2) w None in \<open>auto simp: put_request_def notifier_def\<close>)
  next
    case (Some y)
    show ?thesis
      by (rule wait_inv_update [where p = p, OF reserve.prems(2)])
        (use reserve.hyps(1,2) w Some in \<open>auto simp: put_request_def notifier_def elim!: waits_for.elims\<close>)
  qed
next
  case (finish s p r i c notif es mem' notif' es')
  note w = finish_notifies [OF finish.prems(1) finish.hyps(1,2,3) _ finish.hyps(4)]
  show ?case
    by (rule wait_inv_update [where p = p, OF finish.prems(2)])
      (use finish.hyps(1) w in \<open>auto simp: put_request_def\<close>)
next
  case (persist s combined n commit outcome d')
  from persist.prems(2) show ?case by (rule wait_inv_same) simp_all
next
  case (forget s e es)
  from forget.prems(2) show ?case by (rule wait_inv_same) simp_all
next
  case (rolled_back s p r x)
  then have "heard s n" if "x = WaitFor n" for n
    using that by (simp add: wait_inv_def)
  then show ?case
    by (intro wait_inv_update [where p = p and s' = "put_request p _ s\<lparr>sys_notified := _\<rparr>", OF rolled_back.prems(2)])
      (use rolled_back.hyps(1) in \<open>auto simp: put_request_def split: stop.splits\<close>)
next
  case (rollback s p r i x)
  then have "heard s n" if "x = WaitFor n" for n
    using that by (simp add: wait_inv_def)
  then show ?case
    by (intro wait_inv_update [where p = p and s' = "put_request p _ s\<lparr>sys_mem := _\<rparr>", OF rollback.prems(2)])
      (use rollback.hyps(1) in \<open>auto simp: put_request_def notifier_def elim!: waits_for.elims\<close>)
next
  case (finished s p r c notif es)
  show ?case
    by (rule wait_inv_update [where p = p, OF finished.prems(2)])
      (use finished.hyps in \<open>auto simp: put_request_def notifier_def\<close>)
next
  case (wake s p r n)
  show ?case
    by (rule wait_inv_update [where p = p, OF wake.prems(2)])
      (use wake.hyps in \<open>simp_all add: put_request_def, simp_all add: notifier_def new_request_fields\<close>)
next
  case (reserve_fails s p r i fault e)
  show ?case
    by (rule wait_inv_update [where p = p, OF reserve_fails.prems(2)])
      (use reserve_fails.hyps in \<open>simp_all add: put_request_def, simp_all add: notifier_def\<close>)
next
  case (hold s p r)
  show ?case
    by (rule wait_inv_update [where p = p, OF hold.prems(2)])
      (use hold.hyps in \<open>simp_all add: put_request_def, simp_all add: notifier_def\<close>)
next
  case (apply_ops s p r)
  show ?case
    by (rule wait_inv_update [where p = p, OF apply_ops.prems(2)])
      (use apply_ops.hyps in \<open>simp_all add: put_request_def, simp_all add: notifier_def\<close>)
next
  case (give_up s p r)
  show ?case
    by (rule wait_inv_update [where p = p, OF give_up.prems(2)])
      (use give_up.hyps in \<open>simp_all add: put_request_def, simp_all add: notifier_def\<close>)
next
  case (cancel s p r)
  show ?case
    by (rule wait_inv_update [where p = p, OF cancel.prems(2)])
      (use cancel.hyps in \<open>simp_all add: put_request_def, simp_all add: notifier_def\<close>)
qed

lemma wait_inv_reachable:
  assumes "sys_reachable sha api ids (lookup d) d s" "good d" "inj_on sha ids" "\<And>x. length (sha x) = 32"
  shows "wait_inv s"
  using assms(1) unfolding sys_reachable_def
proof (induction rule: rtranclp_induct)
  case base
  show ?case by (simp add: wait_inv_def sys_init_def)
next
  case (step y z)
  have "sys_reachable sha api ids (lookup d) d y" using step.hyps(1) by (simp add: sys_reachable_def)
  from sys_inv_reachable [OF this assms(2-4)] wait_inv_step [OF step.hyps(2) _ step.IH] show ?case by blast
qed

end

section \<open>Lost requests\<close>

lemma lost_stays_step:
  "sys_step sha api ids s s' \<Longrightarrow> sys_requests s p = Some r \<Longrightarrow> r_phase r = Lost ks \<Longrightarrow> sys_requests s' p = Some r"
  by (erule sys_step.cases) (auto simp: put_request_def)

lemma lost_stays:
  "(sys_step sha api ids)\<^sup>*\<^sup>* s s' \<Longrightarrow> sys_requests s p = Some r \<Longrightarrow> r_phase r = Lost ks \<Longrightarrow>
     sys_requests s' p = Some r"
  by (induction rule: rtranclp_induct) (auto intro: lost_stays_step)

section \<open>The sequential functions are runs\<close>

lemma put_put [simp]:
  "put_request p b (put_request p a s) = put_request p b s"
  "sys_requests (put_request p a s) = (sys_requests s)(p \<mapsto> a)"
  "sys_mem (put_request p a s) = sys_mem s" "sys_disk (put_request p a s) = sys_disk s"
  "sys_next (put_request p a s) = sys_next s" "sys_notified (put_request p a s) = sys_notified s"
  "sys_applied (put_request p a s) = sys_applied s" "sys_ledger (put_request p a s) = sys_ledger s"
  "sys_queue (put_request p a s) = sys_queue s" "sys_removing (put_request p a s) = sys_removing s"
  by (simp_all add: put_request_def)

lemma put_commute [simp]:
  "put_request p a (s\<lparr>sys_mem := m\<rparr>) = put_request p a s\<lparr>sys_mem := m\<rparr>"
  "put_request p a (s\<lparr>sys_next := n\<rparr>) = put_request p a s\<lparr>sys_next := n\<rparr>"
  "put_request p a (s\<lparr>sys_applied := ap\<rparr>) = put_request p a s\<lparr>sys_applied := ap\<rparr>"
  "put_request p a (s\<lparr>sys_ledger := L\<rparr>) = put_request p a s\<lparr>sys_ledger := L\<rparr>"
  by (simp_all add: put_request_def)

lemma put_same: "sys_requests s p = Some r \<Longrightarrow> put_request p r s = s"
  by (simp add: put_request_def fun_upd_idem)

lemma run_reserve:
  assumes "sys_requests s p = Some r" "r_phase r = Reserving i" "i \<le> STATE_SHARDS"
    and "reserve_shards (ix_get_many api (sys_disk s)) (r_id r) (prepared sha (r_ops r)) (r_ops r) (r_unique r)
      [i..<STATE_SHARDS] (sys_mem s, r_new r, r_reserved r) = ((mem', new', res'), out)"
    and "\<forall>e. out \<noteq> DiskError e"
  shows "(sys_step sha api ids)\<^sup>*\<^sup>* s (put_request p (r\<lparr>r_new := new', r_reserved := res',
      r_phase := (case out of Stopped y \<Rightarrow> RollingBack 0 y | _ \<Rightarrow> Reserving STATE_SHARDS)\<rparr>) s\<lparr>sys_mem := mem'\<rparr>)"
  using assms
proof (induction "STATE_SHARDS - i" arbitrary: s r i)
  case 0
  then have i: "i = STATE_SHARDS" by simp
  with 0 have "mem' = sys_mem s" "new' = r_new r" "res' = r_reserved r" "out = Scanned" by simp_all
  moreover have "r\<lparr>r_new := r_new r, r_reserved := r_reserved r, r_phase := Reserving STATE_SHARDS\<rparr> = r"
    using i "0.prems"(2) by simp
  ultimately show ?case using "0.prems"(1) by (simp add: put_same)
next
  case (Suc n)
  then have i: "i < STATE_SHARDS" by simp
  let ?get = "ix_get_many api (sys_disk s)" and ?prep = "prepared sha (r_ops r)"
  have look: "disk_lookup api None (sys_disk s) = ?get" by (simp add: disk_lookup_def fun_eq_iff)
  from i Suc.prems(4,5) obtain m nw rs x where
    step: "reserve_shard ?get (r_id r) ?prep (r_ops r) (r_unique r) i (sys_mem s, r_new r, r_reserved r)
      = Inr ((m, nw, rs), x)"
    and todo: "case x of None \<Rightarrow> reserve_shards ?get (r_id r) ?prep (r_ops r) (r_unique r)
        [Suc i..<STATE_SHARDS] (m, nw, rs) = ((mem', new', res'), out)
      | Some y \<Rightarrow> mem' = m \<and> new' = nw \<and> res' = rs \<and> out = Stopped y"
    by (auto simp: upt_conv_Cons split: sum.splits prod.splits option.splits)
  let ?r = "r\<lparr>r_new := nw, r_reserved := rs, r_phase := (case x of None \<Rightarrow> Reserving (Suc i) | Some y \<Rightarrow> RollingBack 0 y)\<rparr>"
  let ?s = "put_request p ?r s\<lparr>sys_mem := m\<rparr>"
  have first: "sys_step sha api ids s ?s"
    by (rule sys_step.reserve [OF Suc.prems(1,2) i, where fault = None]) (simp add: look step)
  show ?case
  proof (cases x)
    case None
    let ?ph = "case out of Stopped y \<Rightarrow> RollingBack 0 y | _ \<Rightarrow> Reserving STATE_SHARDS"
    have "(sys_step sha api ids)\<^sup>*\<^sup>* ?s (put_request p (?r\<lparr>r_new := new', r_reserved := res', r_phase := ?ph\<rparr>)
        ?s\<lparr>sys_mem := mem'\<rparr>)"
      by (rule Suc.hyps(1) [of "Suc i"]) (use Suc.hyps(2) Suc.prems(5) i todo None in \<open>simp_all\<close>)
    with first show ?thesis using None by simp
  next
    case (Some y)
    with first todo show ?thesis by auto
  qed
qed

lemma run_rollback:
  assumes "sys_requests s p = Some r" "r_phase r = RollingBack i x" "i \<le> STATE_SHARDS"
  shows "(sys_step sha api ids)\<^sup>*\<^sup>* s (put_request p (r\<lparr>r_phase := RollingBack STATE_SHARDS x\<rparr>)
    s\<lparr>sys_mem := fold (rollback_shard (r_id r) (r_reserved r)) [i..<STATE_SHARDS] (sys_mem s)\<rparr>)"
  using assms
proof (induction "STATE_SHARDS - i" arbitrary: s r i)
  case 0
  then have "i = STATE_SHARDS" by simp
  moreover from this have "r\<lparr>r_phase := RollingBack STATE_SHARDS x\<rparr> = r" using "0.prems"(2) by simp
  ultimately show ?case using "0.prems"(1) by (simp add: put_same)
next
  case (Suc n)
  then have i: "i < STATE_SHARDS" by simp
  let ?r = "r\<lparr>r_phase := RollingBack (Suc i) x\<rparr>"
  let ?s = "put_request p ?r s\<lparr>sys_mem := rollback_shard (r_id r) (r_reserved r) i (sys_mem s)\<rparr>"
  have "(sys_step sha api ids)\<^sup>*\<^sup>* ?s (put_request p (?r\<lparr>r_phase := RollingBack STATE_SHARDS x\<rparr>)
      ?s\<lparr>sys_mem := fold (rollback_shard (r_id ?r) (r_reserved ?r)) [Suc i..<STATE_SHARDS] (sys_mem ?s)\<rparr>)"
    by (rule Suc.hyps(1) [of "Suc i"]) (use Suc.hyps(2) i in \<open>simp_all\<close>)
  with converse_rtranclp_into_rtranclp [of "sys_step sha api ids", OF sys_step.rollback [OF Suc.prems(1,2) i]]
  show ?case using i by (simp add: upt_conv_Cons)
qed

lemma run_finish:
  assumes "sys_requests s p = Some r" "r_phase r = Finishing i c notif es" "i \<le> STATE_SHARDS"
    and "fold (finish_shard c (new_keys sha (r_ops r) (r_new r))) [i..<STATE_SHARDS] (sys_mem s, notif, es)
      = (mem', notif', es')"
  shows "(sys_step sha api ids)\<^sup>*\<^sup>* s
    (put_request p (r\<lparr>r_phase := Finishing STATE_SHARDS c notif' es'\<rparr>) s\<lparr>sys_mem := mem'\<rparr>)"
  using assms
proof (induction "STATE_SHARDS - i" arbitrary: s r i notif es)
  case 0
  then have i: "i = STATE_SHARDS" by simp
  with 0 have "mem' = sys_mem s" "notif' = notif" "es' = es" by simp_all
  moreover have "r\<lparr>r_phase := Finishing STATE_SHARDS c notif es\<rparr> = r" using i "0.prems"(2) by simp
  ultimately show ?case using "0.prems"(1) by (simp add: put_same)
next
  case (Suc n)
  then have i: "i < STATE_SHARDS" by simp
  obtain m nf e where step: "finish_shard c (new_keys sha (r_ops r) (r_new r)) i (sys_mem s, notif, es) = (m, nf, e)"
    by (metis prod_cases3)
  let ?r = "r\<lparr>r_phase := Finishing (Suc i) c nf e\<rparr>" and ?s = "put_request p (r\<lparr>r_phase := Finishing (Suc i) c nf e\<rparr>) s\<lparr>sys_mem := m\<rparr>"
  have "(sys_step sha api ids)\<^sup>*\<^sup>* ?s (put_request p (?r\<lparr>r_phase := Finishing STATE_SHARDS c notif' es'\<rparr>) ?s\<lparr>sys_mem := mem'\<rparr>)"
    by (rule Suc.hyps(1) [of "Suc i"]) (use Suc.hyps(2) Suc.prems(4) i step in \<open>simp_all add: upt_conv_Cons\<close>)
  with converse_rtranclp_into_rtranclp [of "sys_step sha api ids", OF sys_step.finish [OF Suc.prems(1,2) i step]]
  show ?case by simp
qed

lemma fresh_phase [simp]:
  "fresh sha (r\<lparr>r_phase := ph\<rparr>) = fresh sha r" "fresh sha (r\<lparr>r_reserved := rs\<rparr>) = fresh sha r"
  by (simp_all add: fresh_def)

definition fresh_entries :: "(bytes \<Rightarrow> bytes) \<Rightarrow> operation list \<Rightarrow> bool list \<Rightarrow> (bytes \<times> bytes) list" where
  "fresh_entries sha ops new = map (\<lambda>(op, _). (sha (operation_id op), fingerprint sha op)) (filter snd (zip ops new))"

lemma run_preflight:
  assumes free: "sys_requests s p = None" "operation_id ` set ops \<subseteq> ids"
    and unique: "preflight_unique sha Map.empty 0 ops [] = Inr unique"
    and run: "reserve_shards (ix_get_many api (sys_disk s)) (sys_next s) (prepared sha ops) ops unique
      [0..<STATE_SHARDS] (sys_mem s, replicate (length ops) False, []) = ((mem', new, res), out)"
    and ok: "\<forall>e. out \<noteq> DiskError e"
  shows "(sys_step sha api ids)\<^sup>*\<^sup>* s (put_request p \<lparr>r_ops = ops, r_unique = unique, r_id = sys_next s,
      r_new = new, r_reserved = res,
      r_phase = (case out of Stopped y \<Rightarrow> RollingBack 0 y | _ \<Rightarrow> Reserving STATE_SHARDS)\<rparr>
      s\<lparr>sys_next := Suc (sys_next s), sys_mem := mem'\<rparr>)"
proof -
  let ?r = "new_request ops unique (sys_next s)"
  let ?s = "put_request p ?r s\<lparr>sys_next := Suc (sys_next s)\<rparr>"
  have "(sys_step sha api ids)\<^sup>*\<^sup>* ?s (put_request p (?r\<lparr>r_new := new, r_reserved := res,
      r_phase := (case out of Stopped y \<Rightarrow> RollingBack 0 y | _ \<Rightarrow> Reserving STATE_SHARDS)\<rparr>) ?s\<lparr>sys_mem := mem'\<rparr>)"
    by (rule run_reserve [where i = 0]) (use run ok in \<open>simp_all add: new_request_def\<close>)
  with converse_rtranclp_into_rtranclp [of "sys_step sha api ids", OF sys_step.arrive [OF free unique]]
  show ?thesis by (simp add: new_request_def)
qed

lemma run_commit:
  assumes r: "sys_requests s p = Some r" "r_phase r = Reserving STATE_SHARDS"
    and fin: "finish_batch sha (r_ops r) (r_new r) True (sys_mem s) = (mem', notif, es)"
  shows "(sys_step sha api ids)\<^sup>*\<^sup>* s (put_request p (r\<lparr>r_phase := Answered (Inr (r_new r))\<rparr>)
    s\<lparr>sys_applied := sys_applied s @ fresh sha r, sys_ledger := sys_ledger s ++ map_of (fresh sha r),
      sys_mem := mem', sys_notified := set notif \<union> sys_notified s,
      sys_queue := sys_queue s @ (if es \<noteq> [] then [es] else [])\<rparr>)"
proof -
  let ?step = "sys_step sha api ids"
  let ?s1 = "put_request p (r\<lparr>r_phase := Holding\<rparr>) s"
  let ?s2 = "put_request p (r\<lparr>r_phase := Finishing 0 True [] []\<rparr>) s
      \<lparr>sys_applied := sys_applied s @ fresh sha r, sys_ledger := sys_ledger s ++ map_of (fresh sha r)\<rparr>"
  let ?s3 = "put_request p (r\<lparr>r_phase := Finishing STATE_SHARDS True notif es\<rparr>) s
      \<lparr>sys_applied := sys_applied s @ fresh sha r, sys_ledger := sys_ledger s ++ map_of (fresh sha r), sys_mem := mem'\<rparr>"
  have 1: "?step s ?s1" by (rule sys_step.hold [OF r])
  have 2: "?step ?s1 ?s2"
    using sys_step.apply_ops [of ?s1 p "r\<lparr>r_phase := Holding\<rparr>" sha api ids] by simp
  have 3: "?step\<^sup>*\<^sup>* ?s2 ?s3"
    using run_finish [of ?s2 p "r\<lparr>r_phase := Finishing 0 True [] []\<rparr>" 0 True "[]" "[]" sha mem' notif es api ids] fin
    by (simp add: finish_batch_def)
  have 4: "?step ?s3 (put_request p (r\<lparr>r_phase := Answered (Inr (r_new r))\<rparr>)
    s\<lparr>sys_applied := sys_applied s @ fresh sha r, sys_ledger := sys_ledger s ++ map_of (fresh sha r),
      sys_mem := mem', sys_notified := set notif \<union> sys_notified s,
      sys_queue := sys_queue s @ (if es \<noteq> [] then [es] else [])\<rparr>)"
    using sys_step.finished [of ?s3 p "r\<lparr>r_phase := Finishing STATE_SHARDS True notif es\<rparr>" True notif es sha api ids]
    by simp
  from 1 2 3 4 show ?thesis by (meson converse_rtranclp_into_rtranclp rtranclp.rtrancl_into_rtrancl)
qed

section \<open>A sample run\<close>

text \<open>Three operations over two ids; the sample digest is injective on ids of four bytes.\<close>

definition sample_ids :: "bytes set" where
  "sample_ids = {x. length x = 4}"

definition sample_ops :: "operation list" where
  "sample_ops = [sample_op ''op-1'' ''ann'' ''bolt'' 5, sample_op ''op-2'' ''bob'' ''nut'' 7, sample_op ''op-1'' ''ann'' ''bolt'' 5]"

abbreviation sample_api :: "(sorted_alist, sorted_alist) disk index_api" where
  "sample_api \<equiv> disk_index_api alist_api alist_api"

abbreviation sample_lookup :: "(sorted_alist, sorted_alist) disk \<Rightarrow> bytes \<Rightarrow> bytes option" where
  "sample_lookup \<equiv> disk_index alist_of alist_of"

definition sample_start :: "(sorted_alist, sorted_alist) disk system" where
  "sample_start = sys_init (sample_lookup sample_disk) sample_disk"

lemma pad_id: "length x = 4 \<Longrightarrow> pad x = x @ replicate 28 0" by (simp add: pad_def)

lemma pad_inj: "inj_on pad sample_ids"
  by (auto simp: inj_on_def sample_ids_def pad_id)

lemma sample_ids_ops: "operation_id ` set sample_ops \<subseteq> sample_ids"
  by (simp add: sample_ops_def sample_ids_def sample_op_def ascii_def)

definition sample_key_1 :: bytes where "sample_key_1 = pad (ascii ''op-1'')"
definition sample_key_2 :: bytes where "sample_key_2 = pad (ascii ''op-2'')"

lemma sample_key_shards: "dedup_shard sample_key_1 = 47" "dedup_shard sample_key_2 = 47" "sample_key_1 \<noteq> sample_key_2"
  by (simp_all add: sample_key_1_def sample_key_2_def pad_def ascii_def dedup_shard_def STATE_SHARDS_def u16_from_le_def)

lemma sample_lookup_free: "sample_lookup sample_disk sample_key_1 = None" "sample_lookup sample_disk sample_key_2 = None"
proof -
  have "x ! 0 \<noteq> sample_key 2 ! 0 \<Longrightarrow> x \<noteq> sample_key 2" for x by blast
  then have ne: "sample_key_1 \<noteq> sample_key 2" "sample_key_2 \<noteq> sample_key 2"
    by (simp_all add: sample_key_1_def sample_key_2_def pad_def ascii_def)
  have "dedup_lsm_shard sample_key_1 = 47" "dedup_lsm_shard sample_key_2 = 47"
    "dedup_disk_shard sample_key_1 = 15" "dedup_disk_shard sample_key_2 = 15"
    by (simp_all add: sample_key_1_def sample_key_2_def pad_def ascii_def dedup_lsm_shard_def
        dedup_disk_shard_def DEDUP_LSM_SHARDS_def DEDUP_SHARDS_def)
  with ne show "sample_lookup sample_disk sample_key_1 = None" "sample_lookup sample_disk sample_key_2 = None"
    by (simp_all add: disk_index_def sample_disk_def alist_eval)
qed

lemma reserve_shards_skip:
  "(\<And>s. s \<in> set ss \<Longrightarrow> shard_indices prep unique s = []) \<Longrightarrow>
     reserve_shards get_many rid prep ops unique (ss @ ts) st = reserve_shards get_many rid prep ops unique ts st"
  by (induction ss) (simp_all add: reserve_shard_def split: prod.split)

lemma finish_shards_skip:
  "(\<And>s. s \<in> set ss \<Longrightarrow> filter (\<lambda>k. dedup_shard k = s) keys = []) \<Longrightarrow>
     fold (finish_shard c keys) (ss @ ts) st = fold (finish_shard c keys) ts st"
  by (induction ss arbitrary: st) (simp_all add: finish_shard_def)

lemma shards_split: "[0..<STATE_SHARDS] = [0..<47] @ 47 # [48..<STATE_SHARDS] @ []"
  by (simp add: STATE_SHARDS_def upt_conv_Cons)

abbreviation "sample_fp n \<equiv> fingerprint pad (sample_ops ! n)"

definition sample_memory :: "(bytes \<Rightarrow> nat \<Rightarrow> dedup_entry) \<Rightarrow> memory" where
  "sample_memory f = (replicate STATE_SHARDS Map.empty)
     [47 := [sample_key_1 \<mapsto> f (sample_fp 0) 0, sample_key_2 \<mapsto> f (sample_fp 1) 0]]"

lemma sample_prepared:
  "prepared pad sample_ops = [(sample_key_1, sample_fp 0), (sample_key_2, sample_fp 1), (sample_key_1, sample_fp 2)]"
  "sample_fp 2 = sample_fp 0"
  by (simp_all add: prepared_def sample_ops_def sample_key_1_def sample_key_2_def sample_op_def)

lemma sample_unique: "preflight_unique pad Map.empty 0 sample_ops [] = Inr [0, 1]"
  by (simp add: sample_ops_def) (simp add: sample_op_def ascii_def fingerprint_def)

lemma sample_reserve:
  "reserve_shards (ix_get_many sample_api sample_disk) 0 (prepared pad sample_ops) sample_ops [0, 1]
     [0..<STATE_SHARDS] (replicate STATE_SHARDS Map.empty, replicate (length sample_ops) False, [])
   = ((sample_memory (\<lambda>f. Pending (Some f)), [True, True, False], [sample_key_1, sample_key_2]), Scanned)"
proof -
  have empty: "shard_indices (prepared pad sample_ops) [0, 1] s = []" if "s \<noteq> 47" for s
    using that by (simp add: shard_indices_def sample_prepared sample_key_shards)
  have get: "ix_get_many sample_api sample_disk [sample_key_1, sample_key_2] = Inr [None, None]"
    using alist_disk.index.get_many [of sample_disk] sample_disk_ok by (simp add: sample_lookup_free)
  have len: "length sample_ops = 3" by (simp add: sample_ops_def)
  have step: "reserve_shard (ix_get_many sample_api sample_disk) 0 (prepared pad sample_ops) sample_ops [0, 1] 47
      (replicate STATE_SHARDS Map.empty, [False, False, False], [])
    = Inr ((sample_memory (\<lambda>f. Pending (Some f)), [True, True, False], [sample_key_1, sample_key_2]), None)"
    by (simp add: reserve_shard_def shard_indices_def sample_prepared sample_key_shards get
        STATE_SHARDS_def sample_memory_def Let_def sample_key_shards(3) [symmetric])
  have skip: "reserve_shards (ix_get_many sample_api sample_disk) 0 (prepared pad sample_ops) sample_ops [0, 1]
      (ss @ ts) st = reserve_shards (ix_get_many sample_api sample_disk) 0 (prepared pad sample_ops) sample_ops [0, 1] ts st"
    if "47 \<notin> set ss" for ss ts st
    by (rule reserve_shards_skip) (use that empty in metis)
  have "47 \<notin> set [0..<47]" "47 \<notin> set [48..<STATE_SHARDS]" by simp_all
  then show ?thesis
    unfolding shards_split by (simp only: skip reserve_shards.simps step len numeral_3_eq_3 replicate.simps
      sum.case option.case prod.case simp_thms)
qed

text \<open>The sample request alone, up to its reservations and up to its answer.\<close>

definition sample_request :: "phase \<Rightarrow> request" where
  "sample_request ph = \<lparr>r_ops = sample_ops, r_unique = [0, 1], r_id = 0, r_new = [True, True, False],
     r_reserved = [sample_key_1, sample_key_2], r_phase = ph\<rparr>"

definition sample_reserved :: "(sorted_alist, sorted_alist) disk system" where
  "sample_reserved = put_request 0 (sample_request (Reserving STATE_SHARDS))
     sample_start\<lparr>sys_next := 1, sys_mem := sample_memory (\<lambda>f. Pending (Some f))\<rparr>"

abbreviation "sample_step \<equiv> sys_step pad sample_api sample_ids"
abbreviation "sample_reach \<equiv> sys_reachable pad sample_api sample_ids (sample_lookup sample_disk) sample_disk"

lemma sample_start_fields:
  "sys_disk sample_start = sample_disk" "sys_next sample_start = 0" "sys_requests sample_start = Map.empty"
  "sys_mem sample_start = replicate STATE_SHARDS Map.empty" "sys_applied sample_start = []"
  by (simp_all add: sample_start_def sys_init_def)

lemma sample_reserved_reach: "sample_reach sample_reserved"
proof -
  have "sample_step\<^sup>*\<^sup>* sample_start sample_reserved"
    using run_preflight [OF _ sample_ids_ops sample_unique, of sample_start 0 sample_api] sample_reserve
    by (simp add: sample_start_fields sample_reserved_def sample_request_def)
  then show ?thesis by (simp add: sys_reachable_def sample_start_def)
qed

lemma sample_fresh: "fresh pad (sample_request ph) = [(sample_key_1, sample_fp 0), (sample_key_2, sample_fp 1)]"
  by (simp add: fresh_def sample_request_def sample_ops_def sample_key_1_def sample_key_2_def sample_op_def)

lemma sample_new_keys: "new_keys pad sample_ops [True, True, False] = [sample_key_1, sample_key_2]"
  by (simp add: new_keys_def sample_ops_def sample_key_1_def sample_key_2_def sample_op_def)

lemma sample_finish:
  "finish_batch pad sample_ops [True, True, False] True (sample_memory (\<lambda>f. Pending (Some f)))
   = (sample_memory (\<lambda>f n. Committed f), [0, 0], [(sample_key_1, sample_fp 0), (sample_key_2, sample_fp 1)])"
proof -
  let ?keys = "[sample_key_1, sample_key_2]"
  have step: "finish_shard True ?keys 47 (sample_memory (\<lambda>f. Pending (Some f)), [], [])
    = (sample_memory (\<lambda>f n. Committed f), [0, 0], [(sample_key_1, sample_fp 0), (sample_key_2, sample_fp 1)])"
    by (simp add: finish_shard_def sample_key_shards sample_memory_def STATE_SHARDS_def
        sample_key_shards(3) [symmetric] fun_upd_twist)
  have skip: "fold (finish_shard True ?keys) (ss @ ts) st = fold (finish_shard True ?keys) ts st"
    if "47 \<notin> set ss" for ss ts st
    by (rule finish_shards_skip) (use that in \<open>auto simp: sample_key_shards\<close>)
  have "47 \<notin> set [0..<47]" "47 \<notin> set [48..<STATE_SHARDS]" by simp_all
  then show ?thesis
    unfolding finish_batch_def sample_new_keys shards_split
    by (simp only: skip fold.simps comp_apply step id_apply simp_thms)
qed

definition sample_answered :: "(sorted_alist, sorted_alist) disk system" where
  "sample_answered = put_request 0 (sample_request (Answered (Inr [True, True, False]))) sample_reserved
     \<lparr>sys_applied := [(sample_key_1, sample_fp 0), (sample_key_2, sample_fp 1)],
      sys_ledger := sample_lookup sample_disk ++ map_of [(sample_key_1, sample_fp 0), (sample_key_2, sample_fp 1)],
      sys_mem := sample_memory (\<lambda>f n. Committed f), sys_notified := {0},
      sys_queue := [[(sample_key_1, sample_fp 0), (sample_key_2, sample_fp 1)]]\<rparr>"

lemma sample_reserved_fields:
  "sys_requests sample_reserved = [0 \<mapsto> sample_request (Reserving STATE_SHARDS)]"
  "sys_mem sample_reserved = sample_memory (\<lambda>f. Pending (Some f))" "sys_next sample_reserved = 1"
  "sys_disk sample_reserved = sample_disk" "sys_notified sample_reserved = {}" "sys_queue sample_reserved = []"
  "sys_applied sample_reserved = []" "sys_ledger sample_reserved = sample_lookup sample_disk"
  by (simp_all add: sample_reserved_def put_request_def sample_start_def sys_init_def)

lemma sample_answered_reach: "sample_reach sample_answered"
proof -
  have "sample_step\<^sup>*\<^sup>* sample_reserved sample_answered"
    using run_commit [of sample_reserved 0 "sample_request (Reserving STATE_SHARDS)" pad
        "sample_memory (\<lambda>f n. Committed f)" "[0, 0]" "[(sample_key_1, sample_fp 0), (sample_key_2, sample_fp 1)]"
        sample_api sample_ids] sample_finish
    by (simp add: sample_reserved_fields sample_fresh sample_answered_def) (simp add: sample_request_def)
  with sample_reserved_reach show ?thesis by (simp add: sys_reachable_def)
qed

text \<open>The same batch again, while the first request still holds its reservations.\<close>

definition sample_blocked :: request where
  "sample_blocked = \<lparr>r_ops = sample_ops, r_unique = [0, 1], r_id = 1, r_new = [False, False, False],
     r_reserved = [], r_phase = Waiting 0\<rparr>"

definition sample_waiting :: "(sorted_alist, sorted_alist) disk system" where
  "sample_waiting = put_request 1 sample_blocked sample_reserved
     \<lparr>sys_next := 2, sys_mem := sample_memory (\<lambda>f. Pending (Some f)), sys_notified := {1}\<rparr>"

lemma sample_reserve_again:
  "reserve_shards (ix_get_many sample_api sample_disk) 1 (prepared pad sample_ops) sample_ops [0, 1]
     [0..<STATE_SHARDS] (sample_memory (\<lambda>f. Pending (Some f)), replicate (length sample_ops) False, [])
   = ((sample_memory (\<lambda>f. Pending (Some f)), [False, False, False], []), Stopped (WaitFor 0))"
proof -
  let ?m = "sample_memory (\<lambda>f. Pending (Some f))"
  have empty: "shard_indices (prepared pad sample_ops) [0, 1] s = []" if "s \<noteq> 47" for s
    using that by (simp add: shard_indices_def sample_prepared sample_key_shards)
  have get: "ix_get_many sample_api sample_disk [sample_key_1, sample_key_2] = Inr [None, None]"
    using alist_disk.index.get_many [of sample_disk] sample_disk_ok by (simp add: sample_lookup_free)
  have len: "length sample_ops = 3" by (simp add: sample_ops_def)
  have step: "reserve_shard (ix_get_many sample_api sample_disk) 1 (prepared pad sample_ops) sample_ops [0, 1] 47
      (?m, [False, False, False], []) = Inr ((?m, [False, False, False], []), Some (WaitFor 0))"
    by (simp add: reserve_shard_def shard_indices_def sample_prepared sample_key_shards get
        STATE_SHARDS_def sample_memory_def Let_def)
  have skip: "reserve_shards (ix_get_many sample_api sample_disk) 1 (prepared pad sample_ops) sample_ops [0, 1]
      (ss @ ts) st = reserve_shards (ix_get_many sample_api sample_disk) 1 (prepared pad sample_ops) sample_ops [0, 1] ts st"
    if "47 \<notin> set ss" for ss ts st
    by (rule reserve_shards_skip) (use that empty in metis)
  have "47 \<notin> set [0..<47]" by simp
  then show ?thesis
    unfolding shards_split by (simp only: skip reserve_shards.simps step len numeral_3_eq_3 replicate.simps
      sum.case option.case prod.case simp_thms)
qed

lemma rollback_nothing: "fold (rollback_shard rid []) ss m = m"
  by (induction ss) (simp_all add: rollback_shard_def)

lemma sample_waiting_reach: "sample_reach sample_waiting"
proof -
  let ?r = "\<lambda>ph. sample_blocked\<lparr>r_phase := ph\<rparr>"
  let ?s = "\<lambda>ph. put_request 1 (?r ph) sample_reserved\<lparr>sys_next := 2, sys_mem := sample_memory (\<lambda>f. Pending (Some f))\<rparr>"
  have "sample_step\<^sup>*\<^sup>* sample_reserved (?s (RollingBack 0 (WaitFor 0)))"
    using run_preflight [OF _ sample_ids_ops sample_unique, of sample_reserved 1 sample_api] sample_reserve_again
    by (simp add: sample_reserved_fields sample_blocked_def numeral_2_eq_2)
  moreover have "sample_step\<^sup>*\<^sup>* (?s (RollingBack 0 (WaitFor 0))) (?s (RollingBack STATE_SHARDS (WaitFor 0)))"
    using run_rollback [of "?s (RollingBack 0 (WaitFor 0))" 1 "?r (RollingBack 0 (WaitFor 0))" 0 "WaitFor 0" pad
        sample_api sample_ids]
    by (simp add: rollback_nothing sample_blocked_def)
  moreover have "sample_step (?s (RollingBack STATE_SHARDS (WaitFor 0))) sample_waiting"
    using sys_step.rolled_back [of "?s (RollingBack STATE_SHARDS (WaitFor 0))"
        1 "?r (RollingBack STATE_SHARDS (WaitFor 0))" "WaitFor 0" pad sample_api sample_ids]
    by (simp add: sample_waiting_def sample_blocked_def sample_reserved_fields)
  ultimately show ?thesis using sample_reserved_reach by (simp add: sys_reachable_def)
qed

text \<open>The first request is cancelled while it holds its reservations.\<close>

definition sample_lost :: "(sorted_alist, sorted_alist) disk system" where
  "sample_lost = put_request 0 (sample_request (Lost [sample_key_1, sample_key_2])) sample_reserved"

lemma sample_lost_reach: "sample_reach sample_lost"
  using sys_step.cancel [of sample_reserved 0 "sample_request (Reserving STATE_SHARDS)" pad sample_api sample_ids]
    sample_reserved_reach
  by (simp add: sample_lost_def sample_reserved_fields sys_reachable_def sample_request_def)

section \<open>The guarantees\<close>

text \<open>
  C1: at most once.  In every state the service can reach, through any interleaving of
  concurrent requests, waits, rollbacks, cancellations, failed disk lookups and background
  persistence, no operation id has been applied twice and none that the disk index knew at
  the start was applied at all.  An accepted id never gets lost between the memory and the
  disk: one of the two always answers for it.
\<close>
theorem applied_at_most_once:
  assumes "dedup_index api lookup good" "good d" "inj_on sha ids" "\<forall>x. length (sha x) = 32"
    and "sys_reachable sha api ids (lookup d) d s"
  shows "distinct (map fst (sys_applied s))
    \<and> (\<forall>(k, f) \<in> set (sys_applied s). lookup d k = None
         \<and> (mem_at (sys_mem s) k \<noteq> None \<or> lookup (sys_disk s) k \<noteq> None))"
proof -
  have len: "length (sha x) = 32" for x using assms(4) by simp
  note inv = dedup_index.sys_inv_reachable [OF assms(1,5,2,3) len]
  note led = dedup_index.ledger_applied [OF assms(1,5,2,3) len]
  have "mem_at (sys_mem s) k \<noteq> None \<or> lookup (sys_disk s) k \<noteq> None" if "(k, f) \<in> set (sys_applied s)" for k f
    by (rule sys_invD(9) [OF inv]) (use sys_invD(13) [OF inv] that in auto)
  with led sys_invD(12) [OF inv] show ?thesis by auto
qed

lemma applied_at_most_once_witness:
  "distinct [sample_key_1, sample_key_2] \<and> sample_lookup sample_disk sample_key_2 = None
    \<and> sys_applied sample_answered = [(sample_key_1, sample_fp 0), (sample_key_2, sample_fp 1)]"
proof -
  have applied: "sys_applied sample_answered = [(sample_key_1, sample_fp 0), (sample_key_2, sample_fp 1)]"
    by (simp add: sample_answered_def)
  have "distinct (map fst (sys_applied sample_answered))
    \<and> (\<forall>(k, f) \<in> set (sys_applied sample_answered). sample_lookup sample_disk k = None
         \<and> (mem_at (sys_mem sample_answered) k \<noteq> None \<or> sample_lookup (sys_disk sample_answered) k \<noteq> None))"
    by (rule applied_at_most_once [where sha = pad and ids = sample_ids, OF alist_disk.index.dedup_index_axioms])
      (use sample_disk_ok sample_answered_reach in \<open>simp_all add: pad_inj length_pad\<close>)
  then show ?thesis unfolding applied by simp
qed

text \<open>
  C9: honest answers.  When a request has been answered with success, every operation of
  its batch has been accepted with exactly its contents (its SHA-256 fingerprint), by this
  request or before: a duplicate is never reported for an operation that differs from the
  accepted one, nor for one whose request was rolled back.
\<close>
theorem answers_honest:
  assumes "dedup_index api lookup good" "good d" "inj_on sha ids" "\<forall>x. length (sha x) = 32"
    and "sys_reachable sha api ids (lookup d) d s"
    and "sys_requests s p = Some r" "r_phase r = Answered (Inr new)" "op \<in> set (r_ops r)"
  shows "(lookup d ++ map_of (sys_applied s)) (sha (operation_id op)) = Some (fingerprint sha op)"
proof -
  have len: "length (sha x) = 32" for x using assms(4) by simp
  from dedup_index.answer_ledger [OF assms(1) dedup_index.sys_inv_reachable [OF assms(1,5,2,3) len] assms(6-8)]
    dedup_index.ledger_applied [OF assms(1,5,2,3) len] show ?thesis by simp
qed

lemma answers_honest_witness:
  "(sample_lookup sample_disk ++ map_of (sys_applied sample_answered)) (pad (operation_id (sample_ops ! 2)))
     = Some (fingerprint pad (sample_ops ! 2))"
  by (rule answers_honest [where sha = pad and ids = sample_ids and p = 0
        and r = "sample_request (Answered (Inr [True, True, False]))", OF alist_disk.index.dedup_index_axioms])
    (use sample_disk_ok sample_answered_reach in \<open>simp_all add: pad_inj length_pad sample_answered_def
      sample_request_def, simp add: sample_ops_def\<close>)

text \<open>
  Exclusive reservations.  Two different requests never hold the same id at the same
  time, so an operation in flight is replicated and applied by one request only.
\<close>
theorem reserved_by_one:
  assumes "dedup_index api lookup good" "good d" "inj_on sha ids" "\<forall>x. length (sha x) = 32"
    and "sys_reachable sha api ids (lookup d) d s"
    and "sys_requests s p = Some a" "sys_requests s q = Some b" "p \<noteq> q"
  shows "set (held a) \<inter> set (held b) = {}"
proof -
  have len: "length (sha x) = 32" for x using assms(4) by simp
  show ?thesis
    by (rule dedup_index.reservations_exclusive [OF assms(1) dedup_index.sys_inv_reachable [OF assms(1,5,2,3) len] assms(6-8)])
qed

lemma reserved_by_one_witness:
  "set (held (sample_request (Reserving STATE_SHARDS))) \<inter> set (held sample_blocked) = {}"
  by (rule reserved_by_one [where sha = pad and ids = sample_ids and p = 0 and q = 1 and s = sample_waiting,
        OF alist_disk.index.dedup_index_axioms])
    (use sample_disk_ok sample_waiting_reach in \<open>simp_all add: pad_inj length_pad sample_waiting_def
      sample_reserved_fields\<close>)

text \<open>
  C20: no lost wake-up and no deadlock.  A request that waits for a reservation either has
  its notification already, or the reservation's owner still exists and is itself not
  waiting: it can move on and will notify at its end, unless it was lost (cancelled or
  failed on a disk lookup) before it could release its reservations.
\<close>
theorem waiting_has_notifier:
  assumes "dedup_index api lookup good" "good d" "inj_on sha ids" "\<forall>x. length (sha x) = 32"
    and "sys_reachable sha api ids (lookup d) d s"
    and "sys_requests s p = Some r" "r_phase r = Waiting n" "n \<notin> sys_notified s"
  shows "\<exists>q a. sys_requests s q = Some a \<and> r_id a = n \<and> q \<noteq> p
    \<and> (active (r_phase a) \<or> (\<exists>ks. r_phase a = Lost ks)) \<and> (\<forall>m. r_phase a \<noteq> Waiting m)"
proof -
  have len: "length (sha x) = 32" for x using assms(4) by simp
  have "waits_for (r_phase r) = Some n" using assms(7) by simp
  with dedup_index.wait_inv_reachable [OF assms(1,5,2,3) len] assms(6) have "heard s n"
    unfolding wait_inv_def by blast
  with assms(8) obtain q a where a: "sys_requests s q = Some a" "r_id a = n" "notifier a"
    unfolding heard_def by blast
  moreover from a(3) have "(active (r_phase a) \<or> (\<exists>ks. r_phase a = Lost ks)) \<and> (\<forall>m. r_phase a \<noteq> Waiting m)"
    by (cases "r_phase a") (auto simp: notifier_def)
  moreover from this assms(6,7) a(1) have "q \<noteq> p" by auto
  ultimately show ?thesis by blast
qed

lemma waiting_has_notifier_witness:
  "\<exists>q a. sys_requests sample_waiting q = Some a \<and> r_id a = 0 \<and> q \<noteq> 1
    \<and> (active (r_phase a) \<or> (\<exists>ks. r_phase a = Lost ks)) \<and> (\<forall>m. r_phase a \<noteq> Waiting m)"
  by (rule waiting_has_notifier [where sha = pad and ids = sample_ids and r = sample_blocked and d = sample_disk,
        OF alist_disk.index.dedup_index_axioms])
    (use sample_disk_ok sample_waiting_reach in \<open>simp_all add: pad_inj length_pad sample_waiting_def sample_blocked_def\<close>)

text \<open>
  C39: a reservation whose request is gone is never released.  When the handler's future is
  dropped (the client disconnects) or the disk lookup of a later shard fails, the ids it had
  reserved stay pending in every later state: retries of these operations wait for ever.
\<close>
theorem lost_reservation_permanent:
  assumes "dedup_index api lookup good" "good d" "inj_on sha ids" "\<forall>x. length (sha x) = 32"
    and "sys_reachable sha api ids (lookup d) d s" "sys_requests s p = Some r" "r_phase r = Lost ks"
    and "(sys_step sha api ids)\<^sup>*\<^sup>* s s'" "k \<in> set ks"
  shows "\<exists>f. mem_at (sys_mem s') k = Some (Pending (Some f) (r_id r))"
proof -
  have len: "length (sha x) = 32" for x using assms(4) by simp
  have "sys_reachable sha api ids (lookup d) d s'"
    using assms(5,8) by (simp add: sys_reachable_def)
  note inv = dedup_index.sys_inv_reachable [OF assms(1) this assms(2,3) len]
  have "sys_requests s' p = Some r" by (rule lost_stays [OF assms(8,6,7)])
  from held_pending [OF sys_invD(3) [OF inv this]] assms(7,9) show ?thesis by auto
qed

lemma lost_reservation_permanent_witness:
  "\<exists>f. mem_at (sys_mem sample_lost) sample_key_2 = Some (Pending (Some f) 0)"
  using lost_reservation_permanent [OF alist_disk.index.dedup_index_axioms, where sha = pad and ids = sample_ids
      and d = sample_disk and s = sample_lost and s' = sample_lost and p = 0 and k = sample_key_2
      and ks = "[sample_key_1, sample_key_2]" and r = "sample_request (Lost [sample_key_1, sample_key_2])"]
    sample_disk_ok sample_lost_reach
  by (simp add: pad_inj length_pad sample_lost_def sample_request_def)

text \<open>
  The functions that transcribe \<open>preflight_batch\<close> and \<open>finish_batch\<close> agree with the step
  relation: a request that meets nobody, reserves with \<open>preflight_batch\<close> and commits with
  \<open>finish_batch\<close> leaves the memory, the notifications and the persistence queue of a run of
  the steps, applies its new operations, and is answered with the new flags.
\<close>
theorem request_alone_refines:
  assumes "dedup_index api lookup good" "good (sys_disk s)"
    and "sys_requests s p = None" "operation_id ` set ops \<subseteq> ids"
    and "preflight_batch sha (ix_get_many api (sys_disk s)) (sys_next s) ops (sys_mem s) = (mem1, Ready new)"
    and "finish_batch sha ops new True mem1 = (mem2, notif, es)"
  shows "\<exists>s'. (sys_step sha api ids)\<^sup>*\<^sup>* s s' \<and> sys_mem s' = mem2
    \<and> sys_notified s' = set notif \<union> sys_notified s
    \<and> sys_queue s' = sys_queue s @ (if es \<noteq> [] then [es] else [])
    \<and> sys_applied s' = sys_applied s @ fresh_entries sha ops new
    \<and> (\<exists>r. sys_requests s' p = Some r \<and> r_ops r = ops \<and> r_phase r = Answered (Inr new))"
proof -
  let ?get = "ix_get_many api (sys_disk s)"
  from assms(5) obtain unique where u: "preflight_unique sha Map.empty 0 ops [] = Inr unique"
    and round: "preflight_round sha ?get (sys_next s) ops unique (sys_mem s) = (mem1, Ready new)"
    by (auto simp: preflight_batch_def split: sum.splits)
  from round obtain res where run: "reserve_shards ?get (sys_next s) (prepared sha ops) ops unique
      [0..<STATE_SHARDS] (sys_mem s, replicate (length ops) False, []) = ((mem1, new, res), Scanned)"
    by (auto simp: preflight_round_def split: prod.splits scan_end.splits stop.splits)
  let ?r = "\<lambda>ph. \<lparr>r_ops = ops, r_unique = unique, r_id = sys_next s, r_new = new, r_reserved = res, r_phase = ph\<rparr>"
  let ?s = "put_request p (?r (Reserving STATE_SHARDS)) s\<lparr>sys_next := Suc (sys_next s), sys_mem := mem1\<rparr>"
  have 1: "(sys_step sha api ids)\<^sup>*\<^sup>* s ?s"
    using run_preflight [OF assms(3,4) u run] by simp
  let ?s' = "put_request p (?r (Answered (Inr new))) ?s
    \<lparr>sys_applied := sys_applied s @ fresh sha (?r (Reserving STATE_SHARDS)),
      sys_ledger := sys_ledger s ++ map_of (fresh sha (?r (Reserving STATE_SHARDS))),
      sys_mem := mem2, sys_notified := set notif \<union> sys_notified s,
      sys_queue := sys_queue s @ (if es \<noteq> [] then [es] else [])\<rparr>"
  have 2: "(sys_step sha api ids)\<^sup>*\<^sup>* ?s ?s'"
    using run_commit [of ?s p "?r (Reserving STATE_SHARDS)" sha mem2 notif es api ids] assms(6) by simp
  show ?thesis
    by (rule exI [of _ ?s'], intro conjI exI [of _ "?r (Answered (Inr new))"])
      (use rtranclp_trans [OF 1 2] in \<open>simp_all add: fresh_def fresh_entries_def\<close>)
qed

lemma request_alone_refines_witness:
  "\<exists>s'. sample_step\<^sup>*\<^sup>* sample_start s' \<and> sys_mem s' = sample_memory (\<lambda>f n. Committed f)
    \<and> sys_notified s' = set [0, 0] \<union> sys_notified sample_start
    \<and> sys_queue s' = sys_queue sample_start @ (if [(sample_key_1, sample_fp 0), (sample_key_2, sample_fp 1)] \<noteq> []
         then [[(sample_key_1, sample_fp 0), (sample_key_2, sample_fp 1)]] else [])
    \<and> sys_applied s' = sys_applied sample_start @ fresh_entries pad sample_ops [True, True, False]
    \<and> (\<exists>r. sys_requests s' 0 = Some r \<and> r_ops r = sample_ops \<and> r_phase r = Answered (Inr [True, True, False]))"
  by (rule request_alone_refines [where ?mem1.0 = "sample_memory (\<lambda>f. Pending (Some f))",
        OF alist_disk.index.dedup_index_axioms])
    (use sample_disk_ok sample_ids_ops sample_unique sample_reserve sample_finish in
      \<open>simp_all add: sample_start_fields preflight_batch_def preflight_round_def\<close>)

end
