(* ===== verification/LiveTail.thy ===== *)
theory LiveTail
  imports CatchUp Requests
begin

text \<open>
  What the live tail of a replica achieves: whatever fails, its checkpoint names a position
  and the epoch active there, and its store has replayed the log at least up to it; a
  \<open>catch_up\<close> that returns has replayed the whole log exactly once, and it returns unless two
  accepted batches contradict each other.
\<close>

section \<open>Positions in the log\<close>

definition caught ::
  "(bytes \<Rightarrow> bytes) \<Rightarrow> u64 \<Rightarrow> replay_state \<Rightarrow> log_record list \<Rightarrow> nat \<Rightarrow> replay_state \<Rightarrow> bool" where
  "caught sha e0 st0 R j st \<longleftrightarrow>
     (\<exists>m. j \<le> m \<and> m \<le> length R \<and> replay_batches sha (accepted_batches e0 (take m R)) st0 = Some st)"

definition injective_batches :: "(bytes \<Rightarrow> bytes) \<Rightarrow> operation list list \<Rightarrow> bool" where
  "injective_batches sha bs \<longleftrightarrow> (\<forall>b \<in> set bs. inj_on sha (operation_id ` set b))"

definition cp_ok :: "u64 \<Rightarrow> log_record list \<Rightarrow> checkpoint \<Rightarrow> bool" where
  "cp_ok e0 R c \<longleftrightarrow> unat (current c) \<le> length R
     \<and> writer_epoch c = epoch_after e0 (take (unat (current c)) R)"

lemma take_Suc_append: "j < length R \<Longrightarrow> take (Suc j) R = take j R @ [R ! j]"
  by (rule take_Suc_conv_app_nth)

lemma accepted_Suc:
  "j < length R \<Longrightarrow> accepted_batches e0 (take (Suc j) R)
     = accepted_batches e0 (take j R) @ accepted_batches (epoch_after e0 (take j R)) [R ! j]"
  by (simp add: take_Suc_append accepted_batches_append)

lemma epoch_Suc: "j < length R \<Longrightarrow> epoch_after e0 (take (Suc j) R) = epoch_after (epoch_after e0 (take j R)) [R ! j]"
  by (simp add: take_Suc_append epoch_after_append)

lemma accepted_take: "\<exists>bs. accepted_batches e0 R = accepted_batches e0 (take m R) @ bs"
  using accepted_batches_append [of e0 "take m R" "drop m R"] by auto

lemma caught_mono: "caught sha e0 st0 R j st \<Longrightarrow> i \<le> j \<Longrightarrow> caught sha e0 st0 R i st"
  unfolding caught_def using le_trans by blast

lemma caught_longer: "caught sha e0 st0 R j st \<Longrightarrow> caught sha e0 st0 (R @ R') j st"
  unfolding caught_def by (metis append_eq_conv_conj length_append take_append trans_le_add1 diff_is_0_eq take0 append_Nil2)

lemma caught_all: "caught sha e0 st0 R (length R) st \<longleftrightarrow> replay_batches sha (accepted_batches e0 R) st0 = Some st"
  unfolding caught_def by (metis le_antisym le_refl take_all_iff)

lemma caught_skip:
  assumes "caught sha e0 st0 R j st" "j < length R" "accepted_batches (epoch_after e0 (take j R)) [R ! j] = []"
  shows "caught sha e0 st0 R (Suc j) st"
proof -
  from assms(1) obtain m where m: "j \<le> m" "m \<le> length R" "replay_batches sha (accepted_batches e0 (take m R)) st0 = Some st"
    unfolding caught_def by blast
  show ?thesis
  proof (cases "m = j")
    case True
    with m(3) assms(2,3) have "replay_batches sha (accepted_batches e0 (take (Suc j) R)) st0 = Some st"
      by (simp add: accepted_Suc)
    with assms(2) show ?thesis unfolding caught_def by (intro exI [of _ "Suc j"]) simp
  next
    case False
    with m show ?thesis unfolding caught_def by (intro exI [of _ m]) simp
  qed
qed

lemma caught_settled:
  assumes "Suc j \<le> m" "j < length R" "accepted_batches (epoch_after e0 (take j R)) [R ! j] = [b]"
    and "injective_batches sha (accepted_batches e0 R)"
    and "replay_batches sha (accepted_batches e0 (take m R)) st0 = Some st"
  shows "replay_batch sha b st = Some st"
proof -
  have "\<exists>bs. accepted_batches e0 (take m R) = accepted_batches e0 (take (Suc j) R) @ bs"
    using accepted_take [of e0 "take m R" "Suc j"] assms(1) by (simp add: min_def)
  then have b: "b \<in> set (accepted_batches e0 (take m R))" using assms(2,3) by (auto simp: accepted_Suc)
  have "\<forall>b \<in> set (accepted_batches e0 (take m R)). inj_on sha (operation_id ` set b)"
    using accepted_take [of e0 R m] assms(4) by (auto simp: injective_batches_def)
  moreover obtain L0 B0 L B where st: "st0 = (L0, B0)" "st = (L, B)" by (metis surj_pair)
  ultimately have "settled sha L b" using replay_batches_settled [of sha _ L0 B0 L B] assms(5) b by blast
  then show ?thesis by (simp add: st(2) settled_replay)
qed

text \<open>The next accepted batch: already in the store, which then keeps its state, or new.\<close>

lemma caught_accept:
  assumes "caught sha e0 st0 R j st" "j < length R" "accepted_batches (epoch_after e0 (take j R)) [R ! j] = [b]"
    and "injective_batches sha (accepted_batches e0 R)" "replay_batch sha b st = Some st'"
  shows "caught sha e0 st0 R (Suc j) st'"
proof -
  from assms(1) obtain m where m: "j \<le> m" "m \<le> length R" "replay_batches sha (accepted_batches e0 (take m R)) st0 = Some st"
    unfolding caught_def by blast
  show ?thesis
  proof (cases "m = j")
    case True
    with m(3) assms(2,3,5) have "replay_batches sha (accepted_batches e0 (take (Suc j) R)) st0 = Some st'"
      by (simp add: accepted_Suc replay_batches_append)
    with assms(2) show ?thesis unfolding caught_def by (intro exI [of _ "Suc j"]) simp
  next
    case False
    with m have le: "Suc j \<le> m" by simp
    from caught_settled [OF this assms(2-4) m(3)] assms(5) have "st' = st" by simp
    with m le show ?thesis unfolding caught_def by blast
  qed
qed

lemma caught_consistent:
  assumes "caught sha e0 st0 R j st" "j < length R" "accepted_batches (epoch_after e0 (take j R)) [R ! j] = [b]"
    and "injective_batches sha (accepted_batches e0 R)" "replay_batches sha (accepted_batches e0 R) st0 \<noteq> None"
  shows "replay_batch sha b st \<noteq> None"
proof -
  from assms(1) obtain m where m: "j \<le> m" "m \<le> length R" "replay_batches sha (accepted_batches e0 (take m R)) st0 = Some st"
    unfolding caught_def by blast
  show ?thesis
  proof (cases "m = j")
    case True
    obtain bs where bs: "accepted_batches e0 R = accepted_batches e0 (take (Suc j) R) @ bs" using accepted_take by blast
    with assms(5) have "replay_batches sha (accepted_batches e0 (take (Suc j) R)) st0 \<noteq> None"
      by (cases "replay_batches sha (accepted_batches e0 (take (Suc j) R)) st0") (simp_all add: replay_batches_append)
    with True m(3) assms(2,3) show ?thesis
      by (cases "replay_batch sha b st") (simp_all add: accepted_Suc replay_batches_append)
  next
    case False
    with m have "Suc j \<le> m" by simp
    from caught_settled [OF this assms(2-4) m(3)] show ?thesis by simp
  qed
qed

section \<open>The store of the replica\<close>

text \<open>
  What \<open>catch_up\<close> relies on: restoring a batch answers, and either replays it or fails
  without an effect; a batch that cannot be replayed is answered with a conflict.
\<close>

locale restorer =
  fixes sha :: "bytes \<Rightarrow> bytes" and restore :: "u64 \<Rightarrow> operation list \<Rightarrow> 'st \<Rightarrow> unit result option \<times> 'st"
    and abs :: "'st \<Rightarrow> replay_state" and ok :: "'st \<Rightarrow> bool"
  assumes restore_batch: "ok st \<Longrightarrow> inj_on sha (operation_id ` set ops) \<Longrightarrow>
      \<exists>r st'. restore q ops st = (Some r, st') \<and> ok st'
        \<and> (case replay_batch sha ops (abs st) of
             None \<Rightarrow> (\<exists>i. r = Inl (ConflictError i)) \<and> abs st' = abs st
           | Some a \<Rightarrow> r = Inr () \<and> abs st' = a \<or> (\<exists>e. r = Inl e) \<and> abs st' = abs st)"

text \<open>
  How far a store is: \<open>caught_up R j st\<close> says that \<open>st\<close> has the batches of the first \<open>j\<close> records
  of the log \<open>R\<close>, and perhaps more; \<open>agree R\<close> that the log does not contradict itself or the store.
\<close>

locale progress =
  fixes sha :: "bytes \<Rightarrow> bytes" and e0 :: u64
    and caught_up :: "log_record list \<Rightarrow> nat \<Rightarrow> replay_state \<Rightarrow> bool" and agree :: "log_record list \<Rightarrow> bool"
  assumes mono: "caught_up R j st \<Longrightarrow> i \<le> j \<Longrightarrow> caught_up R i st"
    and longer: "caught_up R j st \<Longrightarrow> caught_up (R @ R') j st"
    and skip: "caught_up R j st \<Longrightarrow> j < length R \<Longrightarrow> accepted_batches (epoch_after e0 (take j R)) [R ! j] = []
      \<Longrightarrow> caught_up R (Suc j) st"
    and accept: "caught_up R j st \<Longrightarrow> j < length R \<Longrightarrow> accepted_batches (epoch_after e0 (take j R)) [R ! j] = [b]
      \<Longrightarrow> injective_batches sha (accepted_batches e0 R) \<Longrightarrow> replay_batch sha b st = Some st' \<Longrightarrow> caught_up R (Suc j) st'"
    and consistent: "caught_up R j st \<Longrightarrow> j < length R \<Longrightarrow> accepted_batches (epoch_after e0 (take j R)) [R ! j] = [b]
      \<Longrightarrow> injective_batches sha (accepted_batches e0 R) \<Longrightarrow> agree R \<Longrightarrow> replay_batch sha b st \<noteq> None"

lemma replay_progress:
  "progress sha e0 (caught sha e0 st0) (\<lambda>R. replay_batches sha (accepted_batches e0 R) st0 \<noteq> None)"
  by unfold_locales
    (rule caught_mono caught_longer caught_skip caught_accept caught_consistent; assumption)+

interpretation replay: progress sha e0 "caught sha e0 st0" "\<lambda>R. replay_batches sha (accepted_batches e0 R) st0 \<noteq> None"
  by (rule replay_progress)

locale log_tail = restorer + replicated_log + progress +
  fixes json :: json_api
begin

abbreviation "recs l \<equiv> log_records json (contents l)"

text \<open>The invariant between calls, and inside the loop after \<open>j\<close> records.\<close>

definition replica_inv :: "('a, 'b) replica \<Rightarrow> bool" where
  "replica_inv rp \<longleftrightarrow> ok (rp_store rp) \<and> cp_ok e0 (recs (rp_log rp)) (rp_checkpoint rp)
     \<and> caught_up (recs (rp_log rp)) (unat (current (rp_checkpoint rp))) (abs (rp_store rp))"

definition loop_inv :: "log_record list \<Rightarrow> nat \<Rightarrow> ('a, 'b) catch_up_state \<Rightarrow> bool" where
  "loop_inv R j s \<longleftrightarrow> ok (rp_store s) \<and> recs (rp_log s) = R \<and> cp_ok e0 R (rp_checkpoint s)
     \<and> unat (current (rp_checkpoint s)) \<le> j \<and> caught_up R j (abs (rp_store s))
     \<and> cu_epoch s = epoch_after e0 (take j R)
     \<and> (case cu_pending s of
          None \<Rightarrow> unat (current (rp_checkpoint s)) = j
        | Some (q, e) \<Rightarrow> unat q = j \<and> e = epoch_after e0 (take j R))"

lemma loop_inv_replica: "loop_inv R j s \<Longrightarrow> replica_inv (replica.truncate s)"
  unfolding loop_inv_def replica_inv_def replica.defs by (auto intro: mono)

lemma advance_cp:
  assumes "cp_ok e0 R c" "unat (current c) \<le> j" "unat q = j" "j \<le> length R" "advance_checkpoint io q (epoch_after e0 (take j R)) c = (r, c')"
  shows "cp_ok e0 R c' \<and> (r = Inr () \<longrightarrow> unat (current c') = j) \<and> (unat (current c') = unat (current c) \<or> unat (current c') = j)"
proof (cases "q \<le> current c")
  case True
  then have "unat q \<le> unat (current c)" by (simp add: word_le_nat_alt)
  with assms True show ?thesis by (simp add: advance_checkpoint_def current_def)
next
  case False
  then have "advance_checkpoint io q (epoch_after e0 (take j R)) c
      = replace_checkpoint io \<lparr>cp_sequence = q, cp_writer_epoch = epoch_after e0 (take j R)\<rparr> c"
    by (simp add: advance_checkpoint_def current_def)
  with assms show ?thesis
    by (cases io) (auto simp: replace_checkpoint_def cp_ok_def current_def writer_epoch_def)
qed

text \<open>The services answer, and only a contradiction makes a batch fail.\<close>

definition smooth :: bool where
  "smooth \<longleftrightarrow> available json api contents
     \<and> (\<forall>q ops st. ok st \<longrightarrow> inj_on sha (operation_id ` set ops) \<longrightarrow> replay_batch sha ops (abs st) \<noteq> None
           \<longrightarrow> fst (restore q ops st) = Some (Inr ()))"

lemma record_step:
  assumes inv: "loop_inv R j s" and j: "j < length R" and inj: "injective_batches sha (accepted_batches e0 R)"
    and q: "unat q = Suc j"
  shows "\<exists>r s'. catch_up_record restore json api q (R ! j) s = (Some r, s')
    \<and> rp_checkpoint s' = rp_checkpoint s \<and> cu_pending s' = cu_pending s \<and> cu_since s' = cu_since s
    \<and> ok (rp_store s') \<and> recs (rp_log s') = R
    \<and> caught_up R j (abs (rp_store s'))
    \<and> (r = Inr () \<longrightarrow> caught_up R (Suc j) (abs (rp_store s')) \<and> cu_epoch s' = epoch_after e0 (take (Suc j) R))
    \<and> (smooth \<longrightarrow> agree R \<longrightarrow> r = Inr ())"
proof -
  have i: "ok (rp_store s)" "recs (rp_log s) = R" "caught_up R j (abs (rp_store s))"
    "cu_epoch s = epoch_after e0 (take j R)"
    using inv by (simp_all add: loop_inv_def)
  note skipped = skip [OF i(3) j]
  show ?thesis
  proof (cases "R ! j")
    case (LogFence epoch owner)
    with i j skipped show ?thesis by (auto simp: catch_up_record_def epoch_Suc max_def)
  next
    case (LogOperations epoch batch)
    have ep: "epoch_after e0 (take (Suc j) R) = cu_epoch s" by (simp add: epoch_Suc j LogOperations i(4))
    show ?thesis
    proof (cases "epoch = cu_epoch s \<and> batch \<noteq> []")
      case True
      then have acc: "accepted_batches (epoch_after e0 (take j R)) [R ! j] = [batch]" by (simp add: LogOperations i(4))
      have "batch \<in> set (accepted_batches e0 (take (Suc j) R))" by (simp add: accepted_Suc j acc)
      with accepted_take [of e0 R "Suc j"] inj have b: "inj_on sha (operation_id ` set batch)"
        by (auto simp: injective_batches_def)
      from restore_batch [OF i(1) b, of q] obtain r st where r: "restore q batch (rp_store s) = (Some r, st)" "ok st"
        "case replay_batch sha batch (abs (rp_store s)) of
             None \<Rightarrow> (\<exists>i. r = Inl (ConflictError i)) \<and> abs st = abs (rp_store s)
           | Some a \<Rightarrow> r = Inr () \<and> abs st = a \<or> (\<exists>e. r = Inl e) \<and> abs st = abs (rp_store s)" by blast
      have run: "catch_up_record restore json api q (R ! j) s = (Some r, s\<lparr>rp_store := st\<rparr>)"
        using True by (simp add: catch_up_record_def LogOperations r(1))
      have now: "caught_up R (Suc j) (abs st)" if "r = Inr ()"
        using r(3) that accept [OF i(3) j acc inj] by (auto split: option.splits)
      have before: "caught_up R j (abs st)"
        using r(3) i(3) now by (cases r) (auto split: option.splits intro: mono)
      have "r = Inr ()" if smooth "agree R"
      proof -
        have "replay_batch sha batch (abs (rp_store s)) \<noteq> None" by (rule consistent [OF i(3) j acc inj that(2)])
        with that(1) i(1) b have "fst (restore q batch (rp_store s)) = Some (Inr ())" unfolding smooth_def by blast
        with r(1) show ?thesis by simp
      qed
      with run r(2) i(2,4) before now ep show ?thesis by simp
    next
      case False
      then have none: "accepted_batches (epoch_after e0 (take j R)) [R ! j] = []" by (auto simp: LogOperations i(4))
      show ?thesis
      proof (cases "epoch = cu_epoch s \<or> epoch = - 1")
        case True
        with False i skipped [OF none] ep show ?thesis by (auto simp: catch_up_record_def LogOperations)
      next
        case stale: False
        let ?run = "quarantine_record json api q (stale_reason epoch (cu_epoch s)) (rp_log s)"
        obtain r l where run: "?run = (r, l)" by fastforce
        have "contents l = contents (rp_log s)" using quarantine_contents [of json q _ "rp_log s"] run by (metis snd_conv)
        then have "recs l = R" using i(2) by simp
        moreover have "catch_up_record restore json api q (R ! j) s = (Some r, s\<lparr>rp_log := l\<rparr>)"
          using stale run by (simp add: catch_up_record_def LogOperations)
        moreover have "r = Inr ()" if smooth
        proof -
          have "unat q \<le> length (contents (rp_log s))" using i(2) j q by (metis Suc_leI length_log_records)
          then have "is_ok (fst ?run)" using that q unfolding smooth_def by (intro quarantine_available) auto
          then show ?thesis by (simp add: run is_ok_iff)
        qed
        ultimately show ?thesis using i skipped [OF none] ep by simp
      qed
    qed
  qed
qed

lemma mark_step:
  assumes "ok (rp_store s)" "recs (rp_log s) = R" "cp_ok e0 R (rp_checkpoint s)" "unat (current (rp_checkpoint s)) \<le> j"
    and "caught_up R (Suc j) (abs (rp_store s))" "cu_epoch s = epoch_after e0 (take (Suc j) R)"
    and q: "unat q = Suc j" "Suc j \<le> length R" and mark: "catch_up_mark io q s = (r, s')"
  shows "(r = Some (Inr ()) \<and> loop_inv R (Suc j) s'
      \<or> (\<exists>e. r = Some (Inl e)) \<and> replica_inv (replica.truncate s'))
    \<and> ((\<forall>q. io q = ReplaceOk) \<longrightarrow> r = Some (Inr ()))"
proof (cases "cu_since s + 1 \<ge> 64")
  case False
  with mark assms show ?thesis by (auto simp: catch_up_mark_def Let_def loop_inv_def)
next
  case True
  obtain u c where adv: "advance_checkpoint (io q) q (cu_epoch s) (rp_checkpoint s) = (u, c)" by fastforce
  have cp: "cp_ok e0 R c" "u = Inr () \<Longrightarrow> unat (current c) = Suc j" "unat (current c) \<le> Suc j"
    using advance_cp [of R "rp_checkpoint s" "Suc j" q "io q" u c] assms(3,4,6) q adv by auto
  have ok: "u = Inr ()" if "io q = ReplaceOk"
    using adv that by (auto simp: advance_checkpoint_def replace_checkpoint_def split: if_splits)
  from mark True adv have s': "(r, s') = (case u of
      Inl e \<Rightarrow> (Some (Inl e), s\<lparr>cu_pending := Some (q, cu_epoch s), cu_since := cu_since s + 1\<rparr>\<lparr>rp_checkpoint := c\<rparr>)
    | Inr _ \<Rightarrow> (Some (Inr ()), s\<lparr>cu_pending := None, cu_since := 0, rp_checkpoint := c\<rparr>))"
    by (cases s) (auto simp: catch_up_mark_def Let_def split: sum.splits)
  show ?thesis
  proof (cases u)
    case (Inl e)
    have "replica_inv (replica.truncate s')" "\<exists>e. r = Some (Inl e)" "\<forall>q. io q = ReplaceOk \<Longrightarrow> False"
      using s' Inl assms(1,2,5) cp(1,3) ok by (auto simp: replica_inv_def replica.defs intro: mono)
    then show ?thesis by blast
  next
    case (Inr v)
    with s' assms(1,2,5,6) cp show ?thesis by (auto simp: loop_inv_def)
  qed
qed

lemma loop_run:
  assumes "loop_inv R j s" "n \<le> length R" "length R < 2 ^ 64" "j \<le> n"
    and inj: "injective_batches sha (accepted_batches e0 R)"
  shows "\<exists>r s'. catch_up_loop restore json api io (map word_of_nat [Suc j ..< Suc n]) s = (Some r, s')
    \<and> replica_inv (replica.truncate s') \<and> recs (rp_log s') = R
    \<and> (r = Inr () \<longrightarrow> unat (current (rp_checkpoint s')) = n)
    \<and> (smooth \<longrightarrow> (\<forall>q. io q = ReplaceOk) \<longrightarrow> agree R \<longrightarrow> r = Inr ())"
  using assms(1,4)
proof (induction "n - j" arbitrary: j s)
  case 0
  then have [simp]: "n = j" by simp
  show ?case
  proof (cases "cu_pending s")
    case None
    with 0 loop_inv_replica [OF 0(2)] show ?thesis by (simp add: loop_inv_def)
  next
    case (Some qe)
    then obtain q e where qe: "cu_pending s = Some (q, e)" "unat q = j" "e = epoch_after e0 (take j R)"
      using 0(2) by (cases qe) (auto simp: loop_inv_def)
    obtain u c where adv: "advance_checkpoint (io q) q e (rp_checkpoint s) = (u, c)" by fastforce
    have i: "ok (rp_store s)" "recs (rp_log s) = R" "cp_ok e0 R (rp_checkpoint s)" "unat (current (rp_checkpoint s)) \<le> j"
      "caught_up R j (abs (rp_store s))" using 0(2) by (simp_all add: loop_inv_def)
    have cp: "cp_ok e0 R c" "u = Inr () \<Longrightarrow> unat (current c) = j" "unat (current c) \<le> j"
      using advance_cp [OF i(3,4) qe(2) _ adv [unfolded qe(3)]] i(4) assms(2) by auto
    have "replica_inv (replica.truncate (s\<lparr>rp_checkpoint := c\<rparr>))"
      using i(1,2,5) cp(1,3) by (auto simp: replica_inv_def replica.defs intro: mono)
    moreover have "u = Inr ()" if "\<forall>q. io q = ReplaceOk"
      using adv that by (auto simp: advance_checkpoint_def replace_checkpoint_def split: if_splits)
    ultimately show ?thesis using qe(1) adv cp(2) i(2) by simp
  qed
next
  case (Suc d)
  let ?q = "word_of_nat (Suc j) :: u64"
  from Suc.hyps(2) have j: "j < n" "j < length R" using assms(2) by auto
  have q: "unat ?q = Suc j"
    using j assms(2,3) by (simp add: unat_of_nat del: of_nat_Suc)
  have list: "map word_of_nat [Suc j ..< Suc n] = ?q # map word_of_nat [Suc (Suc j) ..< Suc n]"
    using j by (simp add: upt_rec [of "Suc j" "Suc n"] del: upt_Suc of_nat_Suc)
  have i: "ok (rp_store s)" "recs (rp_log s) = R" "cp_ok e0 R (rp_checkpoint s)" "unat (current (rp_checkpoint s)) \<le> j"
    using Suc.prems(1) by (simp_all add: loop_inv_def)
  obtain rd l where read: "log_read json api ?q (rp_log s) = (rd, l)" by fastforce
  have l: "contents l = contents (rp_log s)" using read_contents [of json ?q "rp_log s"] read by simp
  let ?s = "s\<lparr>rp_log := l\<rparr>"
  have inv: "loop_inv R j ?s" using Suc.prems(1) l by (auto simp: loop_inv_def split: option.splits)
  show ?case
  proof (cases rd)
    case (Inl e)
    have "\<not> smooth"
    proof
      assume smooth
      moreover have "unat ?q \<le> length (contents (rp_log s))" using i(2) j(2) q by (metis Suc_leI length_log_records)
      ultimately have "\<exists>rec l'. log_read json api ?q (rp_log s) = (Inr rec, l')"
        using q unfolding smooth_def by (intro read_available) auto
      with read Inl show False by auto
    qed
    with read Inl loop_inv_replica [OF inv] i(2) l show ?thesis by (simp add: list del: upt_Suc of_nat_Suc)
  next
    case (Inr rec)
    have "rec = R ! j" using read_record [OF read [unfolded Inr]] q i(2) by simp
    from record_step [OF inv j(2) inj q] obtain r1 s1 where r1:
      "catch_up_record restore json api ?q (R ! j) ?s = (Some r1, s1)"
      "rp_checkpoint s1 = rp_checkpoint s" "ok (rp_store s1)" "recs (rp_log s1) = R"
      "caught_up R j (abs (rp_store s1))"
      "r1 = Inr () \<Longrightarrow> caught_up R (Suc j) (abs (rp_store s1)) \<and> cu_epoch s1 = epoch_after e0 (take (Suc j) R)"
      "smooth \<Longrightarrow> agree R \<Longrightarrow> r1 = Inr ()" by auto
    have start: "catch_up_loop restore json api io (map word_of_nat [Suc j ..< Suc n]) s =
        (case (Some r1, s1) of
           (Some (Inr _), s1) \<Rightarrow> (case catch_up_mark io ?q s1 of
               (Some (Inr _), s2) \<Rightarrow> catch_up_loop restore json api io (map word_of_nat [Suc (Suc j) ..< Suc n]) s2
             | halted \<Rightarrow> halted)
         | halted \<Rightarrow> halted)"
      using read Inr \<open>rec = R ! j\<close> r1(1) by (simp add: list del: upt_Suc of_nat_Suc)
    show ?thesis
    proof (cases r1)
      case (Inl e)
      have "replica_inv (replica.truncate s1)"
        using r1(2-5) i(3,4) by (auto simp: replica_inv_def replica.defs intro: mono)
      with start Inl r1(4,7) show ?thesis by auto
    next
      case u: (Inr u)
      then have c: "caught_up R (Suc j) (abs (rp_store s1))" "cu_epoch s1 = epoch_after e0 (take (Suc j) R)"
        using r1(6) by simp_all
      obtain m s2 where mark: "catch_up_mark io ?q s1 = (m, s2)" by fastforce
      have log2: "rp_log s2 = rp_log s1"
        using mark by (auto simp: catch_up_mark_def Let_def split: if_splits prod.splits sum.splits)
      from mark_step [OF r1(3,4) _ _ c q _ mark] i(3,4) j(2) r1(2) have
        m: "m = Some (Inr ()) \<and> loop_inv R (Suc j) s2 \<or> (\<exists>e. m = Some (Inl e)) \<and> replica_inv (replica.truncate s2)"
        "(\<forall>q. io q = ReplaceOk) \<longrightarrow> m = Some (Inr ())" by auto
      show ?thesis
      proof (cases "m = Some (Inr ())")
        case True
        with m(1) have inv2: "loop_inv R (Suc j) s2" by simp
        have "d = n - Suc j" "Suc j \<le> n" using Suc.hyps(2) j(1) by simp_all
        note rest_of = Suc.hyps(1) [OF this(1) inv2 this(2)]
        have "catch_up_loop restore json api io (map word_of_nat [Suc j ..< Suc n]) s
            = catch_up_loop restore json api io (map word_of_nat [Suc (Suc j) ..< Suc n]) s2"
          using start mark by (simp add: u True del: upt_Suc of_nat_Suc)
        then show ?thesis by (simp only: rest_of)
      next
        case False
        with m obtain e where "m = Some (Inl e)" "replica_inv (replica.truncate s2)" by blast
        with start u mark m(2) log2 r1(4) show ?thesis by auto
      qed
    qed
  qed
qed

lemma catch_up_run:
  assumes inv: "replica_inv rp" and len: "length (contents (rp_log rp)) < 2 ^ 64 - 1"
    and inj: "injective_batches sha (accepted_batches e0 (recs (rp_log rp)))"
  shows "\<exists>r rp'. catch_up restore json api io rp = (Some r, rp')
    \<and> replica_inv rp' \<and> recs (rp_log rp') = recs (rp_log rp)
    \<and> (r = Inr () \<longrightarrow> unat (current (rp_checkpoint rp')) = length (contents (rp_log rp))
         \<and> caught_up (recs (rp_log rp)) (length (recs (rp_log rp))) (abs (rp_store rp')))
    \<and> (smooth \<longrightarrow> (\<forall>q. io q = ReplaceOk) \<longrightarrow>
         agree (recs (rp_log rp)) \<longrightarrow> r = Inr ())"
proof (cases "js_last api (rp_log rp)")
  case (Inl e)
  have "is_ok (js_last api (rp_log rp))" if smooth using that len unfolding smooth_def available_def by simp
  then have "\<not> smooth" using Inl by auto
  with Inl inv show ?thesis by (simp add: catch_up_def)
next
  case (Inr n)
  let ?R = "recs (rp_log rp)" and ?q = "current (rp_checkpoint rp)"
  let ?s = "replica.extend rp \<lparr>cu_epoch = writer_epoch (rp_checkpoint rp), cu_pending = None, cu_since = 0\<rparr>"
  have n: "unat n = length ?R" using last_sequence [OF Inr] by simp
  have cp: "unat ?q \<le> length ?R" using inv by (simp add: replica_inv_def cp_ok_def)
  with len have small: "unat ?q + 1 < 2 ^ 64" by simp
  then have first: "unat (u64_saturating_add ?q 1) = Suc (unat ?q)"
    by (simp add: u64_saturating_add_def unat_word_ariths)
  have start: "loop_inv ?R (unat ?q) ?s"
    using inv by (simp add: loop_inv_def replica_inv_def replica.defs cp_ok_def)
  from loop_run [OF start, of "length ?R" io] cp len inj obtain r s' where run:
    "catch_up_loop restore json api io (map word_of_nat [Suc (unat ?q) ..< Suc (length ?R)]) ?s = (Some r, s')"
    "replica_inv (replica.truncate s')" "recs (rp_log s') = ?R"
    "r = Inr () \<Longrightarrow> unat (current (rp_checkpoint s')) = length ?R"
    "smooth \<longrightarrow> (\<forall>q. io q = ReplaceOk) \<longrightarrow> agree ?R \<longrightarrow> r = Inr ()"
    by auto
  have fields: "rp_log (replica.truncate s') = rp_log s'" "rp_store (replica.truncate s') = rp_store s'"
    "rp_checkpoint (replica.truncate s') = rp_checkpoint s'" by (simp_all add: replica.defs)
  have "catch_up restore json api io rp = (Some r, replica.truncate s')"
    using Inr run(1) by (simp add: catch_up_def first n Let_def del: upt_Suc)
  moreover have "caught_up ?R (length ?R) (abs (rp_store s'))" if "r = Inr ()"
    using run(2,3) run(4) [OF that] by (simp add: replica_inv_def fields)
  ultimately show ?thesis using run(2-5) by (simp add: fields)
qed

lemma turn_inv:
  assumes "replica_inv rp" "length (contents (rp_log rp)) < 2 ^ 64 - 1"
    and "injective_batches sha (accepted_batches e0 (recs (rp_log rp)))"
  shows "replica_inv (live_tail_turn restore json api io rp)
    \<and> recs (rp_log (live_tail_turn restore json api io rp)) = recs (rp_log rp)"
  using catch_up_run [OF assms, of io] assms(1) by (auto simp: live_tail_turn_def split: sum.split)

lemma grow_inv:
  assumes "replica_inv rp" "contents l = contents (rp_log rp) @ ms"
  shows "replica_inv (rp\<lparr>rp_log := l\<rparr>)"
  using assms longer by (auto simp: replica_inv_def cp_ok_def log_records_append)

end

section \<open>The tail of a store\<close>

text \<open>
  The surroundings of the restoration of one batch: the turns of the persistence task before
  it, the counter of requests, and the outcome of the append to the write-ahead log.
\<close>

record restore_env =
  re_persists :: "(unit result \<times> nat) list"
  re_request :: nat
  re_wal :: "operation list \<Rightarrow> unit result"

definition store_restore ::
  "(bytes \<Rightarrow> bytes) \<Rightarrow> (bytes \<Rightarrow> bytes \<Rightarrow> u64) \<Rightarrow> 'd index_api \<Rightarrow> (nat \<Rightarrow> bool) \<Rightarrow> (u64 \<Rightarrow> restore_env)
     \<Rightarrow> u64 \<Rightarrow> operation list \<Rightarrow> 'd live_store \<Rightarrow> unit result option \<times> 'd live_store" where
  "store_restore sha hash dapi up env q ops s =
     restore_chunk sha hash dapi up (re_wal (env q)) (re_request (env q)) ops
       (fold (\<lambda>(commit, n). persist_turn dapi commit n) (re_persists (env q)) s)"

lemma persists_ok:
  assumes "dedup_index dapi lookup good" "live_ok hash lookup good s"
  shows "live_ok hash lookup good (fold (\<lambda>(commit, n). persist_turn dapi commit n) ps s)
    \<and> live_abs hash lookup (fold (\<lambda>(commit, n). persist_turn dapi commit n) ps s) = live_abs hash lookup s"
  using assms(2)
proof (induction ps arbitrary: s)
  case (Cons p ps)
  obtain commit n where p: "p = (commit, n)" by fastforce
  from dedup_index.persist_turn_ok [OF assms(1) Cons.prems, of commit n]
  have "live_ok hash lookup good (persist_turn dapi commit n s)"
    "live_abs hash lookup (persist_turn dapi commit n s) = live_abs hash lookup s" by simp_all
  with Cons.IH [of "persist_turn dapi commit n s"] p show ?case by simp
qed simp

lemma store_restorer:
  assumes "dedup_index dapi lookup good" "\<forall>x. length (sha x) = 32" "\<forall>i. up i"
  shows "restorer sha (store_restore sha hash dapi up env) (live_abs hash lookup) (live_ok hash lookup good)"
proof
  fix st q and ops :: "operation list"
  assume ok: "live_ok hash lookup good st" and inj: "inj_on sha (operation_id ` set ops)"
  let ?st = "fold (\<lambda>(commit, n). persist_turn dapi commit n) (re_persists (env q)) st"
  have p: "live_ok hash lookup good ?st" "live_abs hash lookup ?st = live_abs hash lookup st"
    using persists_ok [OF assms(1) ok] by blast+
  obtain r st' where r: "restore_chunk sha hash dapi up (re_wal (env q)) (re_request (env q)) ops ?st = (Some r, st')"
    "live_ok hash lookup good st'"
    "case replay_batch sha ops (live_abs hash lookup ?st) of
         None \<Rightarrow> (\<exists>i. r = Inl (ConflictError i)) \<and> live_abs hash lookup st' = live_abs hash lookup ?st
       | Some a \<Rightarrow> (case re_wal (env q) (fresh_of sha (fst (live_abs hash lookup ?st)) ops) of
              Inl e \<Rightarrow> r = Inl e \<and> live_abs hash lookup st' = live_abs hash lookup ?st
            | Inr _ \<Rightarrow> r = Inr () \<and> live_abs hash lookup st' = a)"
    using restore_lemma [OF assms(1) p(1) assms(2) inj assms(3), of "re_wal (env q)" "re_request (env q)" "Inr ()" 0] by blast
  have "store_restore sha hash dapi up env q ops st = (Some r, st')" using r(1) by (simp add: store_restore_def)
  moreover have "case replay_batch sha ops (live_abs hash lookup st) of
         None \<Rightarrow> (\<exists>i. r = Inl (ConflictError i)) \<and> live_abs hash lookup st' = live_abs hash lookup st
       | Some a \<Rightarrow> r = Inr () \<and> live_abs hash lookup st' = a \<or> (\<exists>e. r = Inl e) \<and> live_abs hash lookup st' = live_abs hash lookup st"
    using r(3) unfolding p(2) by (auto split: option.splits sum.splits)
  ultimately show "\<exists>r st'. store_restore sha hash dapi up env q ops st = (Some r, st') \<and> live_ok hash lookup good st'
      \<and> (case replay_batch sha ops (live_abs hash lookup st) of
           None \<Rightarrow> (\<exists>i. r = Inl (ConflictError i)) \<and> live_abs hash lookup st' = live_abs hash lookup st
         | Some a \<Rightarrow> r = Inr () \<and> live_abs hash lookup st' = a \<or> (\<exists>e. r = Inl e) \<and> live_abs hash lookup st' = live_abs hash lookup st)"
    using r(2) by blast
qed

lemma store_restore_smooth:
  assumes "dedup_index dapi lookup good" "\<forall>x. length (sha x) = 32" "\<forall>i. up i" "\<forall>q ops. re_wal (env q) ops = Inr ()"
    and "live_ok hash lookup good st" "inj_on sha (operation_id ` set ops)" "replay_batch sha ops (live_abs hash lookup st) \<noteq> None"
  shows "fst (store_restore sha hash dapi up env q ops st) = Some (Inr ())"
proof -
  let ?st = "fold (\<lambda>(commit, n). persist_turn dapi commit n) (re_persists (env q)) st"
  have p: "live_ok hash lookup good ?st" "live_abs hash lookup ?st = live_abs hash lookup st"
    using persists_ok [OF assms(1,5)] by blast+
  from restore_lemma [OF assms(1) p(1) assms(2,6,3), of "re_wal (env q)" "re_request (env q)" "Inr ()" 0] p(2) assms(4,7)
  show ?thesis by (auto simp: store_restore_def)
qed

text \<open>
  What happens to a replica that serves no writes: turns of the live tail with any failures,
  turns of the persistence task, and growth of the log.
\<close>

inductive tail_step ::
  "(bytes \<Rightarrow> bytes) \<Rightarrow> (bytes \<Rightarrow> bytes \<Rightarrow> u64) \<Rightarrow> 'd index_api \<Rightarrow> (nat \<Rightarrow> bool) \<Rightarrow> json_api \<Rightarrow> 'l log_api
     \<Rightarrow> ('l \<Rightarrow> (string option \<times> bytes) list) \<Rightarrow> ('d live_store, 'l) replica \<Rightarrow> ('d live_store, 'l) replica \<Rightarrow> bool"
  for sha hash dapi up json api contents where
  turn: "tail_step sha hash dapi up json api contents rp
     (live_tail_turn (store_restore sha hash dapi up env) json api io rp)"
| persist: "tail_step sha hash dapi up json api contents rp
     (rp\<lparr>rp_store := persist_turn dapi commit n (rp_store rp)\<rparr>)"
| grow: "contents l = contents (rp_log rp) @ ms \<Longrightarrow>
     tail_step sha hash dapi up json api contents rp (rp\<lparr>rp_log := l\<rparr>)"

lemma injective_prefix:
  "injective_batches sha (accepted_batches e (R @ R')) \<Longrightarrow> injective_batches sha (accepted_batches e R)"
  by (simp add: accepted_batches_append injective_batches_def)

context replicated_log
begin

lemma record_contents: "contents (rp_log (snd (catch_up_record restore json api q rec s))) = contents (rp_log s)"
  using quarantine_contents [of json q _ "rp_log s"]
  by (auto simp: catch_up_record_def split: log_record.split prod.split) (metis snd_conv)+

lemma mark_log: "rp_log (snd (catch_up_mark io q s)) = rp_log s"
  by (simp add: catch_up_mark_def Let_def split: prod.split sum.split)

lemma loop_contents: "contents (rp_log (snd (catch_up_loop restore json api io qs s))) = contents (rp_log s)"
proof (induction qs arbitrary: s)
  case Nil
  show ?case by (simp split: option.split prod.split)
next
  case (Cons q qs)
  obtain rd l where read: "log_read json api q (rp_log s) = (rd, l)" by fastforce
  have l: "contents l = contents (rp_log s)" using read_contents [of json q "rp_log s"] read by simp
  show ?case
  proof (cases rd)
    case (Inr rec)
    obtain r1 s1 where s1: "catch_up_record restore json api q rec (s\<lparr>rp_log := l\<rparr>) = (r1, s1)" by fastforce
    obtain r2 s2 where s2: "catch_up_mark io q s1 = (r2, s2)" by fastforce
    have "contents (rp_log s1) = contents (rp_log s)"
      using record_contents [of restore json q rec "s\<lparr>rp_log := l\<rparr>"] s1 l by simp
    moreover have "rp_log s2 = rp_log s1" using mark_log [of io q s1] s2 by simp
    ultimately show ?thesis using read Inr s1 s2 Cons.IH [of s2] by (simp split: option.split sum.split)
  qed (simp add: read l)
qed

lemma turn_contents: "contents (rp_log (live_tail_turn restore json api io rp)) = contents (rp_log rp)"
proof -
  have "contents (rp_log (snd (catch_up restore json api io rp))) = contents (rp_log rp)"
    using loop_contents [of restore json io _ "replica.extend rp
        \<lparr>cu_epoch = writer_epoch (rp_checkpoint rp), cu_pending = None, cu_since = 0\<rparr>"]
    by (auto simp: catch_up_def Let_def replica.defs split: sum.split prod.split) (metis snd_conv replica.select_convs(2))+
  then show ?thesis by (simp add: live_tail_turn_def split: sum.split)
qed

end

lemma tail_step_grows:
  "tail_step sha hash dapi up json api contents rp rp' \<Longrightarrow> replicated_log api contents \<Longrightarrow>
     \<exists>ms. contents (rp_log rp') = contents (rp_log rp) @ ms"
  by (induction rule: tail_step.induct) (simp_all add: replicated_log.turn_contents)

lemma tail_steps_grow:
  "(tail_step sha hash dapi up json api contents)\<^sup>*\<^sup>* rp rp' \<Longrightarrow> replicated_log api contents \<Longrightarrow>
     \<exists>ms. contents (rp_log rp') = contents (rp_log rp) @ ms"
proof (induction rule: rtranclp_induct)
  case (step y z)
  from step.IH step.prems tail_step_grows [OF step.hyps(2) step.prems] show ?case by auto
qed simp

text \<open>A replica that starts with an empty position.\<close>

definition replica_at_start :: "(bytes \<Rightarrow> bytes \<Rightarrow> u64) \<Rightarrow> ('d \<Rightarrow> bytes \<Rightarrow> bytes option) \<Rightarrow> ('d \<Rightarrow> bool)
    \<Rightarrow> ('d live_store, 'l) replica \<Rightarrow> bool" where
  "replica_at_start hash lookup good rp \<longleftrightarrow>
     live_ok hash lookup good (rp_store rp) \<and> cp_value (rp_checkpoint rp) = checkpoint_default"

text \<open>The services and parameters of the runs below.\<close>

definition tail_setting :: "(bytes \<Rightarrow> bytes) \<Rightarrow> 'd index_api \<Rightarrow> ('d \<Rightarrow> bytes \<Rightarrow> bytes option) \<Rightarrow> ('d \<Rightarrow> bool)
    \<Rightarrow> (nat \<Rightarrow> bool) \<Rightarrow> 'l log_api \<Rightarrow> ('l \<Rightarrow> (string option \<times> bytes) list) \<Rightarrow> bool" where
  "tail_setting sha dapi lookup good up api contents \<longleftrightarrow>
     dedup_index dapi lookup good \<and> (\<forall>x. length (sha x) = 32) \<and> (\<forall>i. up i) \<and> replicated_log api contents"

lemma tail_setting_tail:
  "tail_setting sha dapi lookup good up api contents \<Longrightarrow>
     log_tail sha (store_restore sha hash dapi up env) (live_abs hash lookup) (live_ok hash lookup good) api contents 0
       (caught sha 0 st0) (\<lambda>R. replay_batches sha (accepted_batches 0 R) st0 \<noteq> None)"
  unfolding tail_setting_def log_tail_def using store_restorer replay_progress by blast

text \<open>A step keeps the invariant, whatever the position of the store means.\<close>

lemma tail_step_inv:
  assumes tail: "\<And>env. log_tail sha (store_restore sha hash dapi up env) (live_abs hash lookup) (live_ok hash lookup good)
      api contents 0 caught_up agree"
    and index: "dedup_index dapi lookup good" and step: "tail_step sha hash dapi up json api contents rp rp'"
    and inv: "log_tail.replica_inv (live_abs hash lookup) (live_ok hash lookup good) contents 0 caught_up json rp"
    and len: "length (contents (rp_log rp)) < 2 ^ 64 - 1"
    and inj: "injective_batches sha (accepted_batches 0 (log_records json (contents (rp_log rp))))"
  shows "log_tail.replica_inv (live_abs hash lookup) (live_ok hash lookup good) contents 0 caught_up json rp'"
  using step
proof cases
  case (turn env io)
  from log_tail.turn_inv [OF tail inv len inj, of env io] show ?thesis by (simp add: turn)
next
  case (persist commit n)
  from inv have "live_ok hash lookup good (rp_store rp)"
    by (simp add: log_tail.replica_inv_def [OF tail])
  from dedup_index.persist_turn_ok [OF index this, of commit n] inv show ?thesis
    by (simp add: log_tail.replica_inv_def [OF tail] persist)
next
  case (grow l ms)
  from log_tail.grow_inv [OF tail inv grow(2)] show ?thesis by (simp add: grow)
qed

lemma tail_steps_inv:
  assumes set: "tail_setting sha dapi lookup good up api contents" and start: "replica_at_start hash lookup good rp0"
    and steps: "(tail_step sha hash dapi up json api contents)\<^sup>*\<^sup>* rp0 rp"
    and inj: "injective_batches sha (accepted_batches 0 (log_records json (contents (rp_log rp))))"
    and len: "length (contents (rp_log rp)) < 2 ^ 64 - 1"
  shows "log_tail.replica_inv (live_abs hash lookup) (live_ok hash lookup good) contents 0
    (caught sha 0 (live_abs hash lookup (rp_store rp0))) json rp"
  using steps inj len
proof (induction rule: rtranclp_induct)
  case base
  have "current (rp_checkpoint rp0) = 0" "writer_epoch (rp_checkpoint rp0) = 0"
    using start by (simp_all add: replica_at_start_def current_def writer_epoch_def checkpoint_default_def)
  with start show ?case
    by (subst log_tail.replica_inv_def [OF tail_setting_tail [OF set]])
      (auto simp: replica_at_start_def cp_ok_def caught_def intro!: exI [of _ 0])
next
  case (step rp rp')
  note tail = tail_setting_tail [OF set]
  have log: "replicated_log api contents" using set by (simp add: tail_setting_def)
  from tail_step_grows [OF step.hyps(2) log] obtain ms where ms: "contents (rp_log rp') = contents (rp_log rp) @ ms" by blast
  with step.prems have prev: "injective_batches sha (accepted_batches 0 (log_records json (contents (rp_log rp))))"
    "length (contents (rp_log rp)) < 2 ^ 64 - 1"
    using injective_prefix by (auto simp: log_records_append)
  have index: "dedup_index dapi lookup good" using set by (simp add: tail_setting_def)
  show ?case by (rule tail_step_inv [OF tail index step.hyps(2) step.IH [OF prev] prev(2,1)])
qed

text \<open>What a \<open>catch_up\<close> does in a state that satisfies the invariant.\<close>

lemma catch_up_from:
  assumes set: "tail_setting sha dapi lookup good up api contents"
    and tail: "log_tail sha (store_restore sha hash dapi up env) (live_abs hash lookup) (live_ok hash lookup good)
      api contents 0 caught_up agree"
    and inv: "log_tail.replica_inv (live_abs hash lookup) (live_ok hash lookup good) contents 0 caught_up json rp"
    and R: "R = log_records json (contents (rp_log rp))" and inj: "injective_batches sha (accepted_batches 0 R)"
    and len: "length (contents (rp_log rp)) < 2 ^ 64 - 1"
  shows "\<exists>r rp'. catch_up (store_restore sha hash dapi up env) json api io rp = (Some r, rp')
    \<and> live_ok hash lookup good (rp_store rp')
    \<and> (r = Inr () \<longrightarrow> unat (current (rp_checkpoint rp')) = length (contents (rp_log rp))
         \<and> writer_epoch (rp_checkpoint rp') = epoch_after 0 R \<and> caught_up R (length R) (live_abs hash lookup (rp_store rp')))
    \<and> (available json api contents \<longrightarrow> (\<forall>q ops. re_wal (env q) ops = Inr ()) \<longrightarrow> (\<forall>q. io q = ReplaceOk) \<longrightarrow> agree R \<longrightarrow> r = Inr ())"
proof -
  from log_tail.catch_up_run [OF tail inv len inj [unfolded R], of io] obtain r rp' where run:
    "catch_up (store_restore sha hash dapi up env) json api io rp = (Some r, rp')"
    "log_tail.replica_inv (live_abs hash lookup) (live_ok hash lookup good) contents 0 caught_up json rp'"
    "log_records json (contents (rp_log rp')) = R"
    "r = Inr () \<longrightarrow> unat (current (rp_checkpoint rp')) = length (contents (rp_log rp))
       \<and> caught_up R (length R) (live_abs hash lookup (rp_store rp'))"
    "log_tail.smooth sha (store_restore sha hash dapi up env) (live_abs hash lookup) (live_ok hash lookup good) api contents json
      \<longrightarrow> (\<forall>q. io q = ReplaceOk) \<longrightarrow> agree R \<longrightarrow> r = Inr ()"
    unfolding R [symmetric] by (elim exE conjE)
  have "log_tail.smooth sha (store_restore sha hash dapi up env) (live_abs hash lookup) (live_ok hash lookup good) api contents json"
    if "available json api contents" "\<forall>q ops. re_wal (env q) ops = Inr ()"
    using that store_restore_smooth set unfolding log_tail.smooth_def [OF tail] tail_setting_def by blast
  moreover have "writer_epoch (rp_checkpoint rp') = epoch_after 0 R"
    if "unat (current (rp_checkpoint rp')) = length (contents (rp_log rp))"
    using run(2,3) that R by (simp add: log_tail.replica_inv_def [OF tail] cp_ok_def)
  moreover have "live_ok hash lookup good (rp_store rp')"
    using run(2) by (simp add: log_tail.replica_inv_def [OF tail])
  ultimately show ?thesis using run(1,4,5) by blast
qed

lemma tail_steps_run:
  assumes set: "tail_setting sha dapi lookup good up api contents" and start: "replica_at_start hash lookup good rp0"
    and steps: "(tail_step sha hash dapi up json api contents)\<^sup>*\<^sup>* rp0 rp"
    and inj: "injective_batches sha (accepted_batches 0 (log_records json (contents (rp_log rp))))"
    and len: "length (contents (rp_log rp)) < 2 ^ 64 - 1"
  shows "\<exists>r rp'. catch_up (store_restore sha hash dapi up env) json api io rp = (Some r, rp')
    \<and> live_ok hash lookup good (rp_store rp')
    \<and> (r = Inr () \<longrightarrow> unat (current (rp_checkpoint rp')) = length (contents (rp_log rp))
         \<and> writer_epoch (rp_checkpoint rp') = epoch_after 0 (log_records json (contents (rp_log rp)))
         \<and> replay_batches sha (accepted_batches 0 (log_records json (contents (rp_log rp)))) (live_abs hash lookup (rp_store rp0))
             = Some (live_abs hash lookup (rp_store rp')))
    \<and> (available json api contents \<longrightarrow> (\<forall>q ops. re_wal (env q) ops = Inr ()) \<longrightarrow> (\<forall>q. io q = ReplaceOk) \<longrightarrow>
         replay_batches sha (accepted_batches 0 (log_records json (contents (rp_log rp)))) (live_abs hash lookup (rp_store rp0)) \<noteq> None
         \<longrightarrow> r = Inr ())"
  using catch_up_from [OF set tail_setting_tail [OF set] tail_steps_inv [OF set start steps inj len] refl inj len, of env io]
  unfolding caught_all .

text \<open>What a successful \<open>catch_up\<close> has done.\<close>

lemma catch_up_replayed:
  assumes "tail_setting sha dapi lookup good up api contents" "replica_at_start hash lookup good rp0"
    and "(tail_step sha hash dapi up json api contents)\<^sup>*\<^sup>* rp0 rp"
    and "batches = accepted_batches 0 (log_records json (contents (rp_log rp)))" "injective_batches sha batches"
    and "length (contents (rp_log rp)) < 2 ^ 64 - 1"
    and "catch_up (store_restore sha hash dapi up env) json api io rp = (Some (Inr ()), rp')"
  shows "unat (current (rp_checkpoint rp')) = length (contents (rp_log rp))
    \<and> writer_epoch (rp_checkpoint rp') = epoch_after 0 (log_records json (contents (rp_log rp)))
    \<and> (\<forall>k. balance_at (merged hash (st_shards (rp_store rp'))) k
         = balance_at (merged hash (st_shards (rp_store rp0))) k
           + total_delta (firsts sha (dom (fst (live_abs hash lookup (rp_store rp0)))) (concat batches)) k)"
proof -
  from tail_steps_run [OF assms(1-3) assms(5) [unfolded assms(4)] assms(6), of env io] obtain r rp2 where r:
    "catch_up (store_restore sha hash dapi up env) json api io rp = (Some r, rp2)"
    "r = Inr () \<longrightarrow> unat (current (rp_checkpoint rp2)) = length (contents (rp_log rp))
       \<and> writer_epoch (rp_checkpoint rp2) = epoch_after 0 (log_records json (contents (rp_log rp)))
       \<and> replay_batches sha batches (live_abs hash lookup (rp_store rp0)) = Some (live_abs hash lookup (rp_store rp2))"
    unfolding assms(4) by blast
  from r(1) assms(7) have "r = Inr ()" "rp2 = rp'" by simp_all
  with r(2) have run: "unat (current (rp_checkpoint rp')) = length (contents (rp_log rp))"
    "writer_epoch (rp_checkpoint rp') = epoch_after 0 (log_records json (contents (rp_log rp)))"
    "replay_batches sha batches (live_abs hash lookup (rp_store rp0)) = Some (live_abs hash lookup (rp_store rp'))"
    by simp_all
  from run(1,2) replay_batches_effect [OF run(3) [unfolded live_abs_def]] show ?thesis by (simp add: live_abs_def)
qed

section \<open>The properties\<close>

text \<open>
  C5: the replicated log is replayed exactly once.  Take a replica that starts with an empty
  checkpoint and then goes through any number of turns of the live tail, with any failures of
  reads, appends, checkpoint writes and dead-letter publications in them, while the log grows
  and the persistence task writes to the disk index.  When a \<open>catch_up\<close> then returns, the
  checkpoint names the end of the log and the epoch active there, and every balance is the
  one the replica started with plus the delta of each operation that is in a batch of the
  epoch active at its position, counted once, at the first occurrence of its id, and not at
  all if the replica knew the id from the start.
\<close>
theorem catch_up_exactly_once:
  assumes "tail_setting sha dapi lookup good up api contents" "replica_at_start hash lookup good rp0"
    and "(tail_step sha hash dapi up json api contents)\<^sup>*\<^sup>* rp0 rp"
    and "batches = accepted_batches 0 (log_records json (contents (rp_log rp)))" "injective_batches sha batches"
    and "length (contents (rp_log rp)) < 2 ^ 64 - 1"
    and "catch_up (store_restore sha hash dapi up env) json api io rp = (Some (Inr ()), rp')"
  shows "unat (current (rp_checkpoint rp')) = length (contents (rp_log rp))
    \<and> writer_epoch (rp_checkpoint rp') = epoch_after 0 (log_records json (contents (rp_log rp)))
    \<and> (\<forall>k. balance_at (merged hash (st_shards (rp_store rp'))) k
         = balance_at (merged hash (st_shards (rp_store rp0))) k
           + total_delta (firsts sha (dom (fst (live_abs hash lookup (rp_store rp0)))) (concat batches)) k)"
  by (rule catch_up_replayed [OF assms])

text \<open>
  C22: catching up terminates with success unless the log contradicts itself.  In any state
  such a replica reaches, if the services answer and the writes succeed, then \<open>catch_up\<close>
  returns, and it returns success exactly when the batches of the active epochs can be
  replayed one after the other, that is, when no operation id comes with two contents.
\<close>
theorem catch_up_completes:
  assumes "tail_setting sha dapi lookup good up api contents" "replica_at_start hash lookup good rp0"
    and "(tail_step sha hash dapi up json api contents)\<^sup>*\<^sup>* rp0 rp"
    and "batches = accepted_batches 0 (log_records json (contents (rp_log rp)))" "injective_batches sha batches"
    and "length (contents (rp_log rp)) < 2 ^ 64 - 1"
    and "available json api contents" "\<forall>q ops. re_wal (env q) ops = Inr ()" "\<forall>q. io q = ReplaceOk"
  shows "\<exists>r rp'. catch_up (store_restore sha hash dapi up env) json api io rp = (Some r, rp')
    \<and> (r = Inr () \<longleftrightarrow> replay_batches sha batches (live_abs hash lookup (rp_store rp0)) \<noteq> None)"
proof -
  from tail_steps_run [OF assms(1-3) assms(5) [unfolded assms(4)] assms(6), of env io] obtain r rp' where r:
    "catch_up (store_restore sha hash dapi up env) json api io rp = (Some r, rp')"
    "r = Inr () \<longrightarrow> replay_batches sha batches (live_abs hash lookup (rp_store rp0)) = Some (live_abs hash lookup (rp_store rp'))"
    "available json api contents \<longrightarrow> (\<forall>q ops. re_wal (env q) ops = Inr ()) \<longrightarrow> (\<forall>q. io q = ReplaceOk) \<longrightarrow>
       replay_batches sha batches (live_abs hash lookup (rp_store rp0)) \<noteq> None \<longrightarrow> r = Inr ()"
    unfolding assms(4) by blast
  have "r = Inr () \<longleftrightarrow> replay_batches sha batches (live_abs hash lookup (rp_store rp0)) \<noteq> None"
  proof
    assume "r = Inr ()"
    with r(2) show "replay_batches sha batches (live_abs hash lookup (rp_store rp0)) \<noteq> None" by simp
  next
    assume "replay_batches sha batches (live_abs hash lookup (rp_store rp0)) \<noteq> None"
    with r(3) assms(7-9) show "r = Inr ()" by blast
  qed
  with r(1) show ?thesis by blast
qed

text \<open>
  C36: a contradiction in the log blocks the replica for good.  If the log holds two accepted
  batches that give one id different contents, the checkpoint of a replica never gets past
  them: in every state it reaches, however often the live tail retries, its position is below
  the end of that stretch of the log.
\<close>
theorem contradiction_blocks_replica:
  assumes "tail_setting sha dapi lookup good up api contents" "replica_at_start hash lookup good rp0"
    and "(tail_step sha hash dapi up json api contents)\<^sup>*\<^sup>* rp0 rp"
    and "records = log_records json (contents (rp_log rp))" "injective_batches sha (accepted_batches 0 records)"
    and "length (contents (rp_log rp)) < 2 ^ 64 - 1"
    and "replay_batches sha (accepted_batches 0 (take n records)) (live_abs hash lookup (rp_store rp0)) = None"
  shows "unat (current (rp_checkpoint rp)) < n"
proof (rule ccontr)
  assume "\<not> unat (current (rp_checkpoint rp)) < n"
  then have n: "n \<le> unat (current (rp_checkpoint rp))" by simp
  have "caught sha 0 (live_abs hash lookup (rp_store rp0)) records (unat (current (rp_checkpoint rp)))
      (live_abs hash lookup (rp_store rp))"
    using tail_steps_inv [OF assms(1-3) assms(5) [unfolded assms(4)] assms(6)]
    unfolding log_tail.replica_inv_def [OF tail_setting_tail [OF assms(1)]] assms(4) by blast
  from caught_mono [OF this n] obtain m st where m: "n \<le> m"
    "replay_batches sha (accepted_batches 0 (take m records)) (live_abs hash lookup (rp_store rp0)) = Some st"
    unfolding caught_def by blast
  have "take m records = take n records @ drop n (take m records)"
    using m(1) by (metis append_take_drop_id min.absorb1 take_take)
  then have "accepted_batches 0 (take m records) = accepted_batches 0 (take n records)
      @ accepted_batches (epoch_after 0 (take n records)) (drop n (take m records))"
    by (metis accepted_batches_append)
  with m(2) assms(7) show False by (simp add: replay_batches_append)
qed

section \<open>A run\<close>

definition sample_fence :: bytes where
  "sample_fence = LOG_MAGIC @ enc_log (BinFence 1 (ascii ''node-1''))"

definition sample_record :: "operation list \<Rightarrow> bytes" where
  "sample_record ops = LOG_MAGIC @ enc_log (BinOperations 1 ops)"

definition sample_stream :: "bytes list \<Rightarrow> list_log" where
  "sample_stream ps = (map (\<lambda>p. (None, p)) ps, [])"

definition sample_replica :: "bytes list \<Rightarrow> ((sorted_alist, sorted_alist) disk live_store, list_log) replica" where
  "sample_replica ps = \<lparr>rp_store = sample_live, rp_log = sample_stream ps,
     rp_checkpoint = \<lparr>cp_file = None, cp_tmp = None, cp_value = checkpoint_default\<rparr>\<rparr>"

lemma sample_setting:
  "tail_setting pad sample_api sample_lookup (\<lambda>d. disk_ok alist_of alist_of d \<and> filter_ok alist_of alist_of d)
     (\<lambda>_. True) list_log_api fst"
  using alist_disk.index.dedup_index_axioms list_log.replicated_log_axioms by (simp add: tail_setting_def length_pad)

interpretation sample_restorer: restorer pad "store_restore pad sample_hash sample_api (\<lambda>_. True) env"
  "live_abs sample_hash sample_lookup"
  "live_ok sample_hash sample_lookup (\<lambda>d. disk_ok alist_of alist_of d \<and> filter_ok alist_of alist_of d)"
  by (rule store_restorer [OF alist_disk.index.dedup_index_axioms]) (simp_all add: length_pad)

interpretation sample_tail: log_tail pad "store_restore pad sample_hash sample_api (\<lambda>_. True) env"
  "live_abs sample_hash sample_lookup"
  "live_ok sample_hash sample_lookup (\<lambda>d. disk_ok alist_of alist_of d \<and> filter_ok alist_of alist_of d)"
  list_log_api fst 0 "caught pad 0 (live_abs sample_hash sample_lookup sample_live)"
  "\<lambda>R. replay_batches pad (accepted_batches 0 R) (live_abs sample_hash sample_lookup sample_live) \<noteq> None" sample_json
  by (rule tail_setting_tail [OF sample_setting])

lemma sample_replica_start: "replica_at_start sample_hash sample_lookup
    (\<lambda>d. disk_ok alist_of alist_of d \<and> filter_ok alist_of alist_of d) (sample_replica ps)"
  by (simp add: replica_at_start_def sample_replica_def sample_live_ok)

lemma sample_fence_record: "record_of sample_json sample_fence = LogFence 1 (ascii ''node-1'')"
proof -
  let ?rec = "BinFence 1 (ascii ''node-1'')"
  have "log_good ?rec" by (simp add: string_good_def string_fits_def ascii_str_facts ascii_only_def)
  moreover have "length sample_fence < 2 ^ 63" by (simp add: sample_fence_def enc_string_def ascii_def)
  ultimately have "decode_log sample_fence = Inr ?rec" by (simp add: decode_log_iff sample_fence_def)
  then show ?thesis by (simp add: record_of_def decode_record_def parse_record_def check_record_def)
qed

lemma sample_record_record:
  "\<forall>op \<in> set ops. storable op \<Longrightarrow> length ops \<le> 100000 \<Longrightarrow> record_of sample_json (sample_record ops) = LogOperations 1 ops"
  using decode_encoded_operations [of 1 ops "sample_record ops" sample_json]
  by (simp add: record_of_def encode_log_operations_iff sample_record_def list_all_iff storable_facts)

lemma sample_ops_storable: "\<forall>op \<in> set sample_ops. storable op"
  by (simp add: sample_ops_def storable_def sample_simps)

lemma sample_records:
  "log_records sample_json (fst (sample_stream [sample_fence, sample_record sample_ops]))
     = [LogFence 1 (ascii ''node-1''), LogOperations 1 sample_ops]"
  using sample_record_record [OF sample_ops_storable]
  by (simp add: log_records_def sample_stream_def sample_fence_record) (simp add: sample_ops_def)

lemma sample_accepted: "accepted_batches 0 [LogFence 1 (ascii ''node-1''), LogOperations 1 sample_ops] = [sample_ops]"
  by (simp add: sample_ops_def max_def)

lemma sample_injective: "injective_batches pad [sample_ops]"
  using pad_inj inj_on_subset [OF _ sample_ids_ops] by (simp add: injective_batches_def)

lemma sample_ledger:
  "fst (live_abs sample_hash sample_lookup sample_live) (pad (ascii ''op-1'')) = None"
  "fst (live_abs sample_hash sample_lookup sample_live) (pad (ascii ''op-2'')) = None"
  using sample_lookup_free
  by (simp_all add: live_abs_def sample_live_def ledger_of_def mem_at_start sample_key_1_def sample_key_2_def)

lemma sample_replays: "replay_batches pad [sample_ops] (live_abs sample_hash sample_lookup sample_live) \<noteq> None"
proof -
  have "batch_consistent pad (fst (live_abs sample_hash sample_lookup sample_live)) sample_ops"
    unfolding batch_consistent_def sample_ops_def using sample_ledger by (simp add: sample_op_def ascii_def)
  then show ?thesis
    by (cases "live_abs sample_hash sample_lookup sample_live") (simp add: replay_batch_def)
qed

definition sample_env :: "u64 \<Rightarrow> restore_env" where
  "sample_env q = \<lparr>re_persists = [(Inr (), 1)], re_request = unat q, re_wal = (\<lambda>_. Inr ())\<rparr>"

lemma sample_length: "length (fst (rp_log (sample_replica ps))) = length ps"
  by (simp add: sample_replica_def sample_stream_def)

abbreviation "sample_pair \<equiv> sample_replica [sample_fence, sample_record sample_ops]"

lemma sample_batches: "accepted_batches 0 (log_records sample_json (fst (rp_log sample_pair))) = [sample_ops]"
  using sample_records sample_accepted by (simp add: sample_replica_def)

lemma sample_available: "available sample_json list_log_api fst"
  by (rule list_log_available) (simp add: sample_json_def)

lemma sample_completes:
  "\<exists>rp'. catch_up (store_restore pad sample_hash sample_api (\<lambda>_. True) sample_env) sample_json list_log_api (\<lambda>_. ReplaceOk)
     sample_pair = (Some (Inr ()), rp')"
proof -
  have inj: "injective_batches pad (accepted_batches 0 (log_records sample_json (fst (rp_log sample_pair))))"
    unfolding sample_batches by (rule sample_injective)
  have len: "length (fst (rp_log sample_pair)) < 2 ^ 64 - 1" by (simp add: sample_length)
  have wal: "\<forall>q ops. re_wal (sample_env q) ops = Inr ()" by (simp add: sample_env_def)
  have store: "rp_store sample_pair = sample_live" by (simp add: sample_replica_def)
  from tail_steps_run [OF sample_setting sample_replica_start rtranclp.rtrancl_refl inj len, of sample_env "\<lambda>_. ReplaceOk"]
    sample_replays sample_available wal
  show ?thesis unfolding sample_batches store by blast
qed

lemma sample_total:
  "total_delta (firsts pad (dom (fst (live_abs sample_hash sample_lookup sample_live))) (concat [sample_ops]))
     (ascii ''ann'', ascii ''bolt'') = 5"
proof -
  have "pad (ascii ''op-1'') \<noteq> pad (ascii ''op-2'')" by (simp add: pad_def ascii_def)
  then show ?thesis
    using sample_ledger by (simp add: sample_ops_def sample_op_def domIff key_of_def total_delta_def) (simp add: ascii_def)
qed

lemma catch_up_exactly_once_witness:
  "\<exists>rp'. catch_up (store_restore pad sample_hash sample_api (\<lambda>_. True) sample_env) sample_json list_log_api (\<lambda>_. ReplaceOk)
     sample_pair = (Some (Inr ()), rp')
   \<and> unat (current (rp_checkpoint rp')) = 2
   \<and> balance_at (merged sample_hash (st_shards (rp_store rp'))) (ascii ''ann'', ascii ''bolt'') = 5"
proof -
  from sample_completes obtain rp' where run:
    "catch_up (store_restore pad sample_hash sample_api (\<lambda>_. True) sample_env) sample_json list_log_api (\<lambda>_. ReplaceOk)
      sample_pair = (Some (Inr ()), rp')" by blast
  have len: "length (fst (rp_log sample_pair)) < 2 ^ 64 - 1" by (simp add: sample_length)
  have start: "balance_at (merged sample_hash (st_shards (rp_store sample_pair))) k = 0" for k
    by (simp add: sample_replica_def sample_live_def sample_merged balance_at_def)
  have store: "rp_store sample_pair = sample_live" by (simp add: sample_replica_def)
  from catch_up_exactly_once [OF sample_setting sample_replica_start rtranclp.rtrancl_refl sample_batches [symmetric]
      sample_injective len run] sample_total
  have "unat (current (rp_checkpoint rp')) = 2
    \<and> balance_at (merged sample_hash (st_shards (rp_store rp'))) (ascii ''ann'', ascii ''bolt'') = 5"
    unfolding start unfolding store by (simp add: sample_length)
  with run show ?thesis by blast
qed

lemma catch_up_completes_witness:
  "\<exists>r rp'. catch_up (store_restore pad sample_hash sample_api (\<lambda>_. True) sample_env) sample_json list_log_api (\<lambda>_. ReplaceOk)
     sample_pair = (Some r, rp')
   \<and> (r = Inr () \<longleftrightarrow> replay_batches pad [sample_ops] (live_abs sample_hash sample_lookup (rp_store sample_pair)) \<noteq> None)"
  by (rule catch_up_completes [OF sample_setting sample_replica_start rtranclp.rtrancl_refl sample_batches [symmetric]
        sample_injective _ sample_available]) (simp_all add: sample_length sample_env_def)

text \<open>A second batch that reuses an id of the first one for another owner.\<close>

definition sample_clash :: "operation list" where
  "sample_clash = [sample_op ''op-1'' ''bob'' ''bolt'' 5]"

abbreviation "sample_contradiction \<equiv> sample_replica [sample_fence, sample_record sample_ops, sample_record sample_clash]"

lemma sample_clash_records:
  "log_records sample_json (fst (rp_log sample_contradiction))
     = [LogFence 1 (ascii ''node-1''), LogOperations 1 sample_ops, LogOperations 1 sample_clash]"
proof -
  have "\<forall>op \<in> set sample_clash. storable op" by (simp add: sample_clash_def storable_def sample_simps)
  from sample_record_record [OF this] sample_record_record [OF sample_ops_storable] show ?thesis
    by (simp add: sample_replica_def log_records_def sample_stream_def sample_fence_record)
      (simp add: sample_ops_def sample_clash_def)
qed

lemma sample_clash_fails:
  "replay_batches pad [sample_ops, sample_clash] (live_abs sample_hash sample_lookup sample_live) = None"
proof -
  obtain L B where st: "live_abs sample_hash sample_lookup sample_live = (L, B)" by fastforce
  let ?op = "sample_op ''op-1'' ''ann'' ''bolt'' 5" and ?clash = "sample_op ''op-1'' ''bob'' ''bolt'' 5"
  have differ: "fingerprint pad ?op \<noteq> fingerprint pad ?clash"
    by (simp add: fingerprint_def hash_field_def sample_op_def pad_def ascii_def)
  have "replay_batch pad sample_clash (L', B') = None" if "replay_batch pad sample_ops (L, B) = Some (L', B')" for L' B'
  proof -
    have "inj_on pad (operation_id ` set sample_ops)" using sample_injective by (simp add: injective_batches_def)
    from replay_batch_settles [OF that this] have "L' (pad (operation_id ?op)) = Some (fingerprint pad ?op)"
      by (simp add: settled_def sample_ops_def)
    moreover have "operation_id ?clash = operation_id ?op" by (simp add: sample_op_def)
    ultimately have "\<not> batch_consistent pad L' sample_clash" using differ by (simp add: batch_consistent_def sample_clash_def)
    then show ?thesis by (simp add: replay_batch_def)
  qed
  then show ?thesis unfolding st by (cases "replay_batch pad sample_ops (L, B)") auto
qed

abbreviation "sample_stuck \<equiv> live_tail_turn (store_restore pad sample_hash sample_api (\<lambda>_. True) sample_env)
  sample_json list_log_api (\<lambda>_. ReplaceOk) sample_contradiction"

lemma contradiction_blocks_replica_witness: "unat (current (rp_checkpoint sample_stuck)) < 3"
proof -
  let ?records = "[LogFence 1 (ascii ''node-1''), LogOperations 1 sample_ops, LogOperations 1 sample_clash]"
  have log: "fst (rp_log sample_stuck) = fst (rp_log sample_contradiction)" by (rule list_log.turn_contents)
  have acc: "accepted_batches 0 ?records = [sample_ops, sample_clash]" by (simp add: sample_ops_def sample_clash_def max_def)
  have step: "(tail_step pad sample_hash sample_api (\<lambda>_. True) sample_json list_log_api fst)\<^sup>*\<^sup>* sample_contradiction sample_stuck"
    by (rule r_into_rtranclp, rule tail_step.turn)
  show ?thesis
  proof (rule contradiction_blocks_replica [OF sample_setting sample_replica_start step])
    show "?records = log_records sample_json (fst (rp_log sample_stuck))" by (simp add: log sample_clash_records)
    show "injective_batches pad (accepted_batches 0 ?records)"
      unfolding acc using sample_injective by (simp add: injective_batches_def sample_clash_def)
    show "length (fst (rp_log sample_stuck)) < 2 ^ 64 - 1" by (simp add: log sample_length)
    have "rp_store sample_contradiction = sample_live" by (simp add: sample_replica_def)
    then show "replay_batches pad (accepted_batches 0 (take 3 ?records))
        (live_abs sample_hash sample_lookup (rp_store sample_contradiction)) = None"
      using acc sample_clash_fails by simp
  qed
qed

end
