(* ===== verification/History.thy ===== *)
theory History
  imports DedupDisk
begin

text \<open>
  The materialized history of \<open>src/dedup_disk.rs\<close>: the operations by id and two secondary
  indices (\<open>owner 0 id\<close> and \<open>sku 0 id\<close>), written by the history tail with its progress in
  one atomic batch, read in pages by the query handlers.  \<open>history_inv\<close> ties the three
  keyspaces to the abstract history, a map from ids to operations; pages are proved to be
  the slices of it in the order of the ids.
\<close>

section \<open>The code\<close>

definition index_prefix :: "bytes \<Rightarrow> bytes" where
  "index_prefix v = v @ [0]"

definition index_key :: "bytes \<Rightarrow> bytes \<Rightarrow> bytes" where
  "index_key v i = index_prefix v @ i"

definition HISTORY_SEQUENCE :: byte where "HISTORY_SEQUENCE = 1"

definition HISTORY_EPOCH :: byte where "HISTORY_EPOCH = 2"

definition HISTORY_BINARY_MIGRATION :: byte where "HISTORY_BINARY_MIGRATION = 3"

definition HISTORY_LSM_ID_FORMAT :: byte where "HISTORY_LSM_ID_FORMAT = 4"

definition lsm_u64 :: "'l kv_api \<Rightarrow> 'l \<Rightarrow> byte \<Rightarrow> u64 result" where
  "lsm_u64 lsm ks key =
     rbind (kv_get lsm ks [key]) (\<lambda>found. case found of None \<Rightarrow> Inr 0
       | Some v \<Rightarrow> rbind (ensure (length v = 8) (Msg ''invalid LSM metadata value''))
           (\<lambda>_. Inr (u64_from_le v)))"

text \<open>A write batch over the history keyspaces.\<close>

datatype history_put = PutHistory bytes bytes | PutOwner bytes bytes | PutSku bytes bytes | PutMeta byte u64

fun apply_put :: "'l kv_api \<Rightarrow> history_put \<Rightarrow> ('l, 'r) disk \<Rightarrow> ('l, 'r) disk" where
  "apply_put lsm (PutHistory k v) d = d\<lparr>lsm_history := kv_put lsm k v (lsm_history d)\<rparr>"
| "apply_put lsm (PutOwner k v) d = d\<lparr>lsm_by_owner := kv_put lsm k v (lsm_by_owner d)\<rparr>"
| "apply_put lsm (PutSku k v) d = d\<lparr>lsm_by_sku := kv_put lsm k v (lsm_by_sku d)\<rparr>"
| "apply_put lsm (PutMeta k v) d = d\<lparr>lsm_history_meta := kv_put lsm [k] (u64_to_le v) (lsm_history_meta d)\<rparr>"

definition apply_puts :: "'l kv_api \<Rightarrow> history_put list \<Rightarrow> ('l, 'r) disk \<Rightarrow> ('l, 'r) disk" where
  "apply_puts lsm batch = fold (apply_put lsm) batch"

definition operation_puts :: "operation \<Rightarrow> history_put list result" where
  "operation_puts op =
     rbind (encode_operation op) (\<lambda>payload. Inr
       [PutHistory (operation_id op) payload,
        PutOwner (index_key (owner_id op) (operation_id op)) (operation_id op),
        PutSku (index_key (sku op) (operation_id op)) (operation_id op)])"

definition materialize_history_batch ::
  "'l kv_api \<Rightarrow> unit result \<Rightarrow> (u64 \<times> u64 \<times> operation list) list \<Rightarrow> ('l, 'r) disk \<Rightarrow> unit result \<times> ('l, 'r) disk" where
  "materialize_history_batch lsm commit records d =
     (if records = [] then (Inr (), d)
      else case collect_results operation_puts (concat (map (\<lambda>(_, _, ops). ops) records)) of
          Inl e \<Rightarrow> (Inl e, d)
        | Inr puts \<Rightarrow>
            let (sequence, epoch, _) = last records;
                batch = concat puts @ [PutMeta HISTORY_SEQUENCE sequence, PutMeta HISTORY_EPOCH epoch]
            in case commit of Inl e \<Rightarrow> (Inl e, d) | Inr _ \<Rightarrow> (Inr (), apply_puts lsm batch d))"

definition history_progress :: "'l kv_api \<Rightarrow> ('l, 'r) disk \<Rightarrow> (u64 \<times> u64) result" where
  "history_progress lsm d =
     rbind (lsm_u64 lsm (lsm_history_meta d) HISTORY_SEQUENCE) (\<lambda>sequence.
     rbind (lsm_u64 lsm (lsm_history_meta d) HISTORY_EPOCH) (\<lambda>epoch. Inr (sequence, epoch)))"

definition prepare_binary_history_migration ::
  "'l kv_api \<Rightarrow> unit result \<Rightarrow> ('l, 'r) disk \<Rightarrow> (u64 \<times> u64) result \<times> ('l, 'r) disk" where
  "prepare_binary_history_migration lsm commit d =
     (case lsm_u64 lsm (lsm_history_meta d) HISTORY_LSM_ID_FORMAT of
        Inl e \<Rightarrow> (Inl e, d)
      | Inr state \<Rightarrow>
          if state = 0
          then case commit of Inl e \<Rightarrow> (Inl e, d)
             | Inr _ \<Rightarrow> (Inr (0, 0), apply_puts lsm
                 [PutMeta HISTORY_SEQUENCE 0, PutMeta HISTORY_EPOCH 0,
                  PutMeta HISTORY_BINARY_MIGRATION 1, PutMeta HISTORY_LSM_ID_FORMAT 1] d)
          else (history_progress lsm d, d))"

definition complete_binary_history_migration :: "'l kv_api \<Rightarrow> ('l, 'r) disk \<Rightarrow> ('l, 'r) disk" where
  "complete_binary_history_migration lsm d =
     apply_puts lsm [PutMeta HISTORY_BINARY_MIGRATION 2, PutMeta HISTORY_LSM_ID_FORMAT 2] d"

definition decode_legacy :: "(bytes \<Rightarrow> operation result) \<Rightarrow> bytes \<Rightarrow> operation result" where
  "decode_legacy from_json payload = or_else (decode_operation payload) (from_json payload)"

definition at_or_before :: "bytes option \<Rightarrow> bytes \<Rightarrow> bool" where
  "at_or_before cursor i = (case cursor of None \<Rightarrow> False | Some c \<Rightarrow> i \<le> c)"

fun index_scan ::
  "(bytes \<Rightarrow> bytes option result) \<Rightarrow> (bytes \<Rightarrow> operation result) \<Rightarrow> nat \<Rightarrow> bytes option \<Rightarrow> nat
     \<Rightarrow> (bytes \<times> bytes) list \<Rightarrow> operation list \<Rightarrow> (operation list \<times> bool) result" where
  "index_scan history decode prefix_len cursor limit [] acc = Inr (acc, False)"
| "index_scan history decode prefix_len cursor limit ((k, operation_key) # es) acc =
     rbind (from_utf8 (drop prefix_len k)) (\<lambda>i.
       if at_or_before cursor i then index_scan history decode prefix_len cursor limit es acc
       else rbind (history operation_key) (\<lambda>found. case found of
           None \<Rightarrow> index_scan history decode prefix_len cursor limit es acc
         | Some payload \<Rightarrow> rbind (decode payload) (\<lambda>op.
             let acc = acc @ [op] in
             if length acc = limit then Inr (acc, True)
             else index_scan history decode prefix_len cursor limit es acc)))"

definition by_index ::
  "'l kv_api \<Rightarrow> 'r kv_api \<Rightarrow> (bytes \<Rightarrow> operation result) \<Rightarrow> ('l, 'r) disk
     \<Rightarrow> 'l \<Rightarrow> 'r \<Rightarrow> bytes \<Rightarrow> bytes option \<Rightarrow> nat \<Rightarrow> operation list result" where
  "by_index lsm red from_json d lsm_index table v cursor limit =
     (let prefix = index_prefix v; end_key = prefix @ [0xff] in
      rbind (kv_range lsm lsm_index prefix (Some end_key)) (\<lambda>es.
      rbind (index_scan (kv_get lsm (lsm_history d)) decode_operation (length prefix) cursor limit es [])
        (\<lambda>(found, full).
      if full then Inr found
      else rbind (if found \<noteq> [] then Inr True
                  else rbind (kv_len lsm (lsm_history d)) (\<lambda>n. Inr (0 < n))) (\<lambda>migrated.
      if migrated then Inr found
      else rbind (kv_open red (redb_history d)) (\<lambda>_.
           rbind (kv_range red table prefix (Some end_key)) (\<lambda>es.
           rbind (index_scan (kv_get red (redb_history d)) (decode_legacy from_json) (length prefix)
                    cursor limit es found) (\<lambda>(found, _). Inr found)))))))"

definition by_owner ::
  "'l kv_api \<Rightarrow> 'r kv_api \<Rightarrow> (bytes \<Rightarrow> operation result) \<Rightarrow> ('l, 'r) disk
     \<Rightarrow> bytes \<Rightarrow> bytes option \<Rightarrow> nat \<Rightarrow> operation list result" where
  "by_owner lsm red from_json d = by_index lsm red from_json d (lsm_by_owner d) (redb_by_owner d)"

definition by_sku ::
  "'l kv_api \<Rightarrow> 'r kv_api \<Rightarrow> (bytes \<Rightarrow> operation result) \<Rightarrow> ('l, 'r) disk
     \<Rightarrow> bytes \<Rightarrow> bytes option \<Rightarrow> nat \<Rightarrow> operation list result" where
  "by_sku lsm red from_json d = by_index lsm red from_json d (lsm_by_sku d) (redb_by_sku d)"

definition redb_operation ::
  "'r kv_api \<Rightarrow> (bytes \<Rightarrow> bytes) \<Rightarrow> (bytes \<Rightarrow> operation result) \<Rightarrow> ('l, 'r) disk \<Rightarrow> bytes \<Rightarrow> operation option result" where
  "redb_operation red sha256 from_json d i =
     rbind (kv_get red (redb_history d) (sha256 i)) (\<lambda>found. case found of None \<Rightarrow> Inr None
       | Some payload \<Rightarrow> rbind (decode_legacy from_json payload) (\<lambda>op. Inr (Some op)))"

definition get_operation ::
  "'l kv_api \<Rightarrow> 'r kv_api \<Rightarrow> (bytes \<Rightarrow> bytes) \<Rightarrow> (bytes \<Rightarrow> operation result) \<Rightarrow> ('l, 'r) disk
     \<Rightarrow> bytes \<Rightarrow> operation option result" where
  "get_operation lsm red sha256 from_json d i =
     rbind (kv_get lsm (lsm_history d) i) (\<lambda>found. case found of
         Some payload \<Rightarrow> rbind (decode_operation payload) (\<lambda>op. Inr (Some op))
       | None \<Rightarrow> rbind (kv_open red (redb_history d)) (\<lambda>_. redb_operation red sha256 from_json d i))"

definition get_operations ::
  "'l kv_api \<Rightarrow> 'r kv_api \<Rightarrow> (bytes \<Rightarrow> bytes) \<Rightarrow> (bytes \<Rightarrow> operation result) \<Rightarrow> ('l, 'r) disk
     \<Rightarrow> bytes list \<Rightarrow> operation list result" where
  "get_operations lsm red sha256 from_json d ids =
     rbind (kv_open red (redb_history d)) (\<lambda>_.
       for_each (\<lambda>i acc. rbind (kv_get lsm (lsm_history d) i) (\<lambda>found. case found of
           Some payload \<Rightarrow> rbind (decode_operation payload) (\<lambda>op. Inr (acc @ [op]))
         | None \<Rightarrow> rbind (redb_operation red sha256 from_json d i) (\<lambda>v. case v of
             Some op \<Rightarrow> Inr (acc @ [op]) | None \<Rightarrow> Inr acc))) ids [])"

fun history_scan :: "bytes option \<Rightarrow> nat \<Rightarrow> (bytes \<times> bytes) list \<Rightarrow> operation list \<Rightarrow> operation list result" where
  "history_scan cursor limit [] acc = Inr acc"
| "history_scan cursor limit ((k, v) # es) acc =
     (if cursor = Some k then history_scan cursor limit es acc
      else rbind (decode_operation v) (\<lambda>op.
        let acc = acc @ [op] in
        if length acc = limit then Inr acc else history_scan cursor limit es acc))"

definition scan_operations :: "'l kv_api \<Rightarrow> ('l, 'r) disk \<Rightarrow> bytes option \<Rightarrow> nat \<Rightarrow> operation list result" where
  "scan_operations lsm d cursor limit =
     (let start = (case cursor of None \<Rightarrow> [] | Some c \<Rightarrow> c) in
      rbind (kv_range lsm (lsm_history d) start None) (\<lambda>es. history_scan cursor limit es []))"

definition history_len :: "'l kv_api \<Rightarrow> 'r kv_api \<Rightarrow> ('l, 'r) disk \<Rightarrow> nat result" where
  "history_len lsm red d =
     rbind (kv_len lsm (lsm_history d)) (\<lambda>n.
       if 0 < n then Inr n
       else rbind (kv_open red (redb_history d)) (\<lambda>_. kv_len red (redb_history d)))"


section \<open>Keys and prefixes\<close>

lemma prefix_range: "in_range p (Some (p @ [0xff])) k \<longleftrightarrow> (\<exists>s. k = p @ s \<and> (s = [] \<or> hd s < 0xff))"
  for p k :: bytes
proof (induction p arbitrary: k)
  case Nil
  show ?case by (cases k) (auto simp: in_range_def)
next
  case (Cons a p)
  show ?case
  proof (cases k)
    case (Cons b k')
    with Cons.IH [of k'] show ?thesis by (auto simp: in_range_def)
  qed (simp add: in_range_def)
qed

lemma append_less_append [simp]: "p @ x < p @ y \<longleftrightarrow> x < y" for p x y :: bytes
  by (induction p) auto

lemma index_key_in_range:
  assumes "str_ok i" "0 \<notin> set i" "0 \<notin> set ow"
  shows "in_range (index_prefix v) (Some (index_prefix v @ [0xff])) (index_key ow i) \<longleftrightarrow> ow = v"
proof -
  have hd: "i = [] \<or> hd i < 0xff"
    using str_ok_byte_bound [OF assms(1), of "hd i"] by (cases i) (auto simp: word_less_nat_alt)
  have "ow @ 0 # i = v @ 0 # s \<longleftrightarrow> ow = v \<and> i = s" for s
    using append_Cons_eq_iff [OF assms(3,2), of v s] by blast
  moreover have "in_range (index_prefix v) (Some (index_prefix v @ [0xff])) (index_key ow i) \<longleftrightarrow>
      (\<exists>s. ow @ 0 # i = v @ 0 # s \<and> (s = [] \<or> hd s < 0xff))"
    unfolding index_key_def index_prefix_def prefix_range by simp
  ultimately show ?thesis using hd by blast
qed

section \<open>The abstract history\<close>

text \<open>
  \<open>H\<close> is the history as a map from ids to operations.  The index keyspaces hold one entry
  per operation and nothing else.
\<close>

definition index_inv :: "(operation \<Rightarrow> bytes) \<Rightarrow> (bytes \<times> bytes) list \<Rightarrow> (bytes \<rightharpoonup> operation) \<Rightarrow> bool" where
  "index_inv field entries H \<longleftrightarrow>
     (\<forall>k i. map_of entries k = Some i \<longleftrightarrow> (\<exists>op. H i = Some op \<and> k = index_key (field op) i))"

definition history_inv :: "('l \<Rightarrow> (bytes \<times> bytes) list) \<Rightarrow> ('l, 'r) disk \<Rightarrow> (bytes \<rightharpoonup> operation) \<Rightarrow> bool" where
  "history_inv lc d H \<longleftrightarrow>
     (\<forall>i op. H i = Some op \<longrightarrow> operation_id op = i \<and> storable op)
     \<and> (\<forall>i. map_of (lc (lsm_history d)) i = map_option (\<lambda>op. OP_MAGIC @ enc_operation op) (H i))
     \<and> index_inv owner_id (lc (lsm_by_owner d)) H \<and> index_inv sku (lc (lsm_by_sku d)) H"

text \<open>A page: the first \<open>limit\<close> operations after the cursor, in the order of the ids.\<close>

definition selected_ids :: "(bytes \<rightharpoonup> operation) \<Rightarrow> (operation \<Rightarrow> bool) \<Rightarrow> bytes list" where
  "selected_ids H P = sorted_list_of_set {i. \<exists>op. H i = Some op \<and> P op}"

definition page :: "(bytes \<rightharpoonup> operation) \<Rightarrow> (operation \<Rightarrow> bool) \<Rightarrow> bytes option \<Rightarrow> nat \<Rightarrow> operation list" where
  "page H P cursor limit =
     map (\<lambda>i. the (H i)) (take limit (filter (\<lambda>i. \<not> at_or_before cursor i) (selected_ids H P)))"

lemma index_scan_page:
  assumes "\<And>i. i \<in> set ids \<Longrightarrow> str_ok i \<and> (\<exists>payload. history i = Inr (Some payload) \<and> decode payload = Inr (f i))"
    and "length acc < limit"
  shows "\<exists>full. index_scan history decode (length p) cursor limit (map (\<lambda>i. (p @ i, i)) ids) acc
      = Inr (acc @ map f (take (limit - length acc) (filter (\<lambda>i. \<not> at_or_before cursor i) ids)), full)"
  using assms
proof (induction ids arbitrary: acc)
  case (Cons i ids)
  from Cons.prems(1) obtain payload where i: "str_ok i" "history i = Inr (Some payload)" "decode payload = Inr (f i)"
    by auto
  have u: "from_utf8 i = Inr i" using i(1) by (simp add: from_utf8_Inr_iff)
  show ?case
  proof (cases "at_or_before cursor i")
    case True
    with Cons u show ?thesis by auto
  next
    case False
    show ?thesis
    proof (cases "Suc (length acc) = limit")
      case True
      with False u i show ?thesis by auto
    next
      case not_full: False
      with Cons.prems(2) have less: "length (acc @ [f i]) < limit" by simp
      have suc: "limit - length acc = Suc (limit - length (acc @ [f i]))" using less by simp
      from Cons.IH [OF _ less] Cons.prems(1) False not_full u i show ?thesis
        by (auto simp: suc simp del: diff_Suc_Suc)
    qed
  qed
qed (auto intro!: exI [of _ False])

lemma sorted_sets_eq:
  "sorted_wrt (<) xs \<Longrightarrow> sorted_wrt (<) ys \<Longrightarrow> set xs = set ys \<Longrightarrow> xs = ys" for xs ys :: "'a :: linorder list"
  by (simp add: strict_sorted_iff sorted_distinct_set_unique)

context kv_store
begin

lemma finite_dom: "finite (dom (map_of (content ks)))"
  by (rule finite_dom_map_of)

lemma history_finite:
  assumes "history_inv content d H"
  shows "finite {i. \<exists>op. H i = Some op \<and> P op}"
proof (rule finite_subset)
  show "{i. \<exists>op. H i = Some op \<and> P op} \<subseteq> dom (map_of (content (lsm_history d)))"
    using assms by (auto simp: history_inv_def)
qed (rule finite_dom)

lemma index_range:
  assumes H: "history_inv content d H" and index: "index_inv field (content ks) H"
    and field: "\<And>op. storable op \<Longrightarrow> 0 \<notin> set (field op)"
  shows "kv_range api ks (index_prefix v) (Some (index_prefix v @ [0xff]))
    = Inr (map (\<lambda>i. (index_prefix v @ i, i)) (selected_ids H (\<lambda>op. field op = v)))"
proof -
  let ?ids = "selected_ids H (\<lambda>op. field op = v)"
  obtain es where es: "kv_range api ks (index_prefix v) (Some (index_prefix v @ [0xff])) = Inr es"
    by (simp add: range)
  have ids: "sorted_wrt (<) ?ids" "set ?ids = {i. \<exists>op. H i = Some op \<and> field op = v}"
    using history_finite [OF H] by (simp_all add: selected_ids_def)
  let ?es = "map (\<lambda>i. (index_prefix v @ i, i)) ?ids"
  have mem: "(k, i) \<in> set es \<longleftrightarrow> (k, i) \<in> set ?es" for k i
  proof -
    have "(k, i) \<in> set es \<longleftrightarrow> (\<exists>op. H i = Some op \<and> k = index_key (field op) i \<and>
        in_range (index_prefix v) (Some (index_prefix v @ [0xff])) k)"
      using range_entries(2) [OF es] index by (auto simp: index_inv_def)
    also have "\<dots> \<longleftrightarrow> (\<exists>op. H i = Some op \<and> k = index_key (field op) i \<and> field op = v)"
    proof -
      have "in_range (index_prefix v) (Some (index_prefix v @ [0xff])) (index_key (field op) i) \<longleftrightarrow> field op = v"
        if "H i = Some op" for op
        using that H field [of op] storable_facts [of op]
        by (intro index_key_in_range) (auto simp: history_inv_def)
      then show ?thesis by blast
    qed
    also have "\<dots> \<longleftrightarrow> (k, i) \<in> set ?es" by (auto simp: ids(2) index_key_def)
    finally show ?thesis .
  qed
  have sets: "set es = set ?es"
  proof (rule set_eqI)
    fix x show "x \<in> set es \<longleftrightarrow> x \<in> set ?es" using mem [of "fst x" "snd x"] by (simp only: prod.collapse)
  qed
  have sorted: "sorted_wrt (<) (map fst es)" "sorted_wrt (<) (map fst ?es)"
    by (rule range_entries(1) [OF es]) (use ids(1) in \<open>simp add: sorted_wrt_map\<close>)
  have "es = ?es"
  proof (rule map_sorted_distinct_set_unique [where f = fst])
    show "inj_on fst (set es \<union> set ?es)"
      using sorted(2) unfolding sets Un_absorb strict_sorted_iff distinct_map by blast
  qed (use sorted sets in \<open>simp_all only: strict_sorted_iff\<close>)
  with es show ?thesis by simp
qed

lemma content_history:
  assumes "history_inv content d H"
  shows "content (lsm_history d) =
    map (\<lambda>i. (i, OP_MAGIC @ enc_operation (the (H i)))) (selected_ids H (\<lambda>_. True))"
    (is "?es = ?es'")
proof -
  have ids: "sorted_wrt (<) (selected_ids H (\<lambda>_. True))"
    "set (selected_ids H (\<lambda>_. True)) = {i. \<exists>op. H i = Some op}"
    using history_finite [OF assms, of "\<lambda>_. True"] by (simp_all add: selected_ids_def)
  have mem: "(k, v) \<in> set ?es \<longleftrightarrow> (k, v) \<in> set ?es'" for k v
    using assms by (auto simp: content_mem ids(2) history_inv_def)
  have sets: "set ?es = set ?es'"
  proof (rule set_eqI)
    fix x show "x \<in> set ?es \<longleftrightarrow> x \<in> set ?es'" using mem [of "fst x" "snd x"] by (simp only: prod.collapse)
  qed
  have sorted: "sorted_wrt (<) (map fst ?es)" "sorted_wrt (<) (map fst ?es')"
    by (rule content_sorted) (use ids(1) in \<open>simp add: comp_def\<close>)
  show ?thesis
  proof (rule map_sorted_distinct_set_unique [where f = fst])
    show "inj_on fst (set ?es \<union> set ?es')"
      using sorted(2) unfolding sets Un_absorb strict_sorted_iff distinct_map by blast
  qed (use sorted sets in \<open>simp_all only: strict_sorted_iff\<close>)
qed

lemma history_payload:
  "history_inv content d H \<Longrightarrow> H i = Some op \<Longrightarrow>
     str_ok i \<and> kv_get api (lsm_history d) i = Inr (Some (OP_MAGIC @ enc_operation op))
     \<and> decode_operation (OP_MAGIC @ enc_operation op) = Inr op"
  using storable_facts(4) storable_decode by (auto simp: history_inv_def get)

lemma index_scan_selected:
  assumes H: "history_inv content d H" and "0 < limit"
  shows "\<exists>full. index_scan (kv_get api (lsm_history d)) decode_operation (length p) cursor limit
      (map (\<lambda>i. (p @ i, i)) (selected_ids H P)) [] = Inr (page H P cursor limit, full)"
proof -
  have "\<exists>full. index_scan (kv_get api (lsm_history d)) decode_operation (length p) cursor limit
      (map (\<lambda>i. (p @ i, i)) (selected_ids H P)) []
    = Inr ([] @ map (\<lambda>i. the (H i)) (take (limit - length ([] :: operation list))
        (filter (\<lambda>i. \<not> at_or_before cursor i) (selected_ids H P))), full)"
  proof (rule index_scan_page)
    fix i
    assume "i \<in> set (selected_ids H P)"
    then obtain op where "H i = Some op"
      using history_finite [OF H, of P] by (auto simp: selected_ids_def)
    with history_payload [OF H] show "str_ok i \<and> (\<exists>payload. kv_get api (lsm_history d) i = Inr (Some payload)
        \<and> decode_operation payload = Inr (the (H i)))"
      by auto
  qed (use assms(2) in simp)
  then show ?thesis by (simp add: page_def)
qed

lemma by_index_page:
  assumes "history_inv content d H" "index_inv field (content ks) H"
    and "\<And>op. storable op \<Longrightarrow> 0 \<notin> set (field op)" "H \<noteq> Map.empty" "0 < limit"
  shows "by_index api red from_json d ks table v cursor limit = Inr (page H (\<lambda>op. field op = v) cursor limit)"
proof -
  have "content (lsm_history d) \<noteq> []"
  proof
    assume "content (lsm_history d) = []"
    then have "H i = None" for i
      using assms(1) by (auto simp: history_inv_def)
    with assms(4) show False by auto
  qed
  then have len: "kv_len api (lsm_history d) = Inr (length (content (lsm_history d)))"
    "0 < length (content (lsm_history d))"
    by (simp_all add: len)
  obtain full where "index_scan (kv_get api (lsm_history d)) decode_operation (length (index_prefix v)) cursor limit
      (map (\<lambda>i. (index_prefix v @ i, i)) (selected_ids H (\<lambda>op. field op = v))) []
    = Inr (page H (\<lambda>op. field op = v) cursor limit, full)"
    using index_scan_selected [OF assms(1,5)] by blast
  then show ?thesis
    using index_range [OF assms(1-3), of v] len by (simp add: by_index_def Let_def)
qed

lemma history_scan_page:
  assumes "\<And>i. i \<in> set ids \<Longrightarrow> decode_operation (payload i) = Inr (f i)" "length acc < limit"
  shows "history_scan cursor limit (map (\<lambda>i. (i, payload i)) ids) acc
    = Inr (acc @ map f (take (limit - length acc) (filter (\<lambda>i. cursor \<noteq> Some i) ids)))"
  using assms
proof (induction ids arbitrary: acc)
  case (Cons i ids)
  show ?case
  proof (cases "cursor = Some i \<or> Suc (length acc) = limit")
    case True
    with Cons show ?thesis by auto
  next
    case False
    with Cons.prems(2) have less: "length (acc @ [f i]) < limit" by simp
    have suc: "limit - length acc = Suc (limit - length (acc @ [f i]))" using less by simp
    from Cons.IH [OF _ less] Cons.prems(1) False show ?thesis
      by (auto simp: suc simp del: diff_Suc_Suc)
  qed
qed simp

lemma scan_page:
  assumes "history_inv content d H" "0 < limit"
  shows "scan_operations api d cursor limit = Inr (page H (\<lambda>_. True) cursor limit)"
proof -
  let ?ids = "selected_ids H (\<lambda>_. True)"
  let ?start = "case cursor of None \<Rightarrow> [] | Some c \<Rightarrow> c"
  have range: "kv_range api (lsm_history d) ?start None
      = Inr (map (\<lambda>i. (i, OP_MAGIC @ enc_operation (the (H i)))) (filter (\<lambda>i. ?start \<le> i) ?ids))"
    by (simp add: range content_history [OF assms(1)] filter_map comp_def in_range_def)
  have filter: "filter (\<lambda>i. cursor \<noteq> Some i) (filter (\<lambda>i. ?start \<le> i) ?ids)
      = filter (\<lambda>i. \<not> at_or_before cursor i) ?ids"
    by (auto simp: at_or_before_def intro!: filter_cong split: option.split)
  have "history_scan cursor limit
      (map (\<lambda>i. (i, OP_MAGIC @ enc_operation (the (H i)))) (filter (\<lambda>i. ?start \<le> i) ?ids)) []
    = Inr ([] @ map (\<lambda>i. the (H i)) (take (limit - length ([] :: operation list))
        (filter (\<lambda>i. cursor \<noteq> Some i) (filter (\<lambda>i. ?start \<le> i) ?ids))))"
  proof (rule history_scan_page)
    fix i
    assume "i \<in> set (filter (\<lambda>i. ?start \<le> i) ?ids)"
    then obtain op where "H i = Some op"
      using history_finite [OF assms(1), of "\<lambda>_. True"] by (auto simp: selected_ids_def)
    with history_payload [OF assms(1)]
    show "decode_operation (OP_MAGIC @ enc_operation (the (H i))) = Inr (the (H i))" by simp
  qed (use assms(2) in simp)
  then show ?thesis
    using filter by (simp add: scan_operations_def Let_def range page_def)
qed

end

section \<open>Materialization\<close>

definition history_add :: "(bytes \<rightharpoonup> operation) \<Rightarrow> operation list \<Rightarrow> (bytes \<rightharpoonup> operation)" where
  "history_add H ops = fold (\<lambda>op H. H(operation_id op \<mapsto> op)) ops H"

text \<open>Operations with the same id agree on the indexed fields.\<close>

definition same_keys :: "operation \<Rightarrow> operation \<Rightarrow> bool" where
  "same_keys a b \<longleftrightarrow> (operation_id a = operation_id b \<longrightarrow> owner_id a = owner_id b \<and> sku a = sku b)"

definition compatible :: "(bytes \<rightharpoonup> operation) \<Rightarrow> operation list \<Rightarrow> bool" where
  "compatible H ops \<longleftrightarrow> (\<forall>a \<in> set ops. (\<forall>b \<in> set ops \<union> ran H. same_keys b a))"

definition record_operations :: "(u64 \<times> u64 \<times> operation list) list \<Rightarrow> operation list" where
  "record_operations records = concat (map (\<lambda>(_, _, ops). ops) records)"

lemma index_inv_add:
  assumes "index_inv field entries H" "map_of entries' = (map_of entries)(index_key (field op) i \<mapsto> i)"
    and "\<And>old. H i = Some old \<Longrightarrow> field old = field op"
    and "0 \<notin> set (field op)" "0 \<notin> set i" "\<And>j x. H j = Some x \<Longrightarrow> 0 \<notin> set (field x) \<and> 0 \<notin> set j"
  shows "index_inv field entries' (H(i \<mapsto> op))"
  unfolding index_inv_def
proof (intro allI)
  fix k j
  have keys: "index_key (field op) i = index_key (field x) j \<Longrightarrow> i = j" if "H j = Some x" for x
    using assms(4-6) that append_Cons_eq_iff [of 0 "field op" i "field x" j]
    by (auto simp: index_key_def index_prefix_def)
  have old: "map_of entries k = Some j \<longleftrightarrow> (\<exists>x. H j = Some x \<and> k = index_key (field x) j)"
    using assms(1) unfolding index_inv_def by blast
  show "map_of entries' k = Some j \<longleftrightarrow> (\<exists>x. (H(i \<mapsto> op)) j = Some x \<and> k = index_key (field x) j)"
  proof (cases "j = i")
    case True
    with old assms(2,3) show ?thesis by auto
  next
    case False
    with old assms(2) keys show ?thesis by auto
  qed
qed

context kv_store
begin

lemma operation_puts_inv:
  assumes "history_inv content d H" "storable op" "\<And>old. H (operation_id op) = Some old \<Longrightarrow> same_keys old op"
    and "operation_puts op = Inr puts"
  shows "history_inv content (apply_puts api puts d) (H(operation_id op \<mapsto> op))"
proof -
  let ?i = "operation_id op"
  from assms(4) have puts: "puts = [PutHistory ?i (OP_MAGIC @ enc_operation op),
      PutOwner (index_key (owner_id op) ?i) ?i, PutSku (index_key (sku op) ?i) ?i]"
    by (simp add: operation_puts_def storable_encode [OF assms(2)])
  let ?d = "apply_puts api puts d"
  have stores: "lsm_history ?d = kv_put api ?i (OP_MAGIC @ enc_operation op) (lsm_history d)"
    "lsm_by_owner ?d = kv_put api (index_key (owner_id op) ?i) ?i (lsm_by_owner d)"
    "lsm_by_sku ?d = kv_put api (index_key (sku op) ?i) ?i (lsm_by_sku d)"
    by (simp_all add: apply_puts_def puts)
  have H: "H j = Some x \<Longrightarrow> operation_id x = j \<and> storable x" for j x
    using assms(1) by (simp add: history_inv_def)
  have zero: "H j = Some x \<Longrightarrow> 0 \<notin> set (owner_id x) \<and> 0 \<notin> set (sku x) \<and> 0 \<notin> set j" for j x
    using H [of j x] storable_facts(5-7) [of x] by auto
  have same: "H ?i = Some x \<Longrightarrow> owner_id x = owner_id op \<and> sku x = sku op" for x
    using assms(3) [of x] H [of ?i x] by (simp add: same_keys_def)
  have "index_inv owner_id (content (lsm_by_owner ?d)) (H(?i \<mapsto> op))"
    by (rule index_inv_add [where entries = "content (lsm_by_owner d)"])
      (use assms(1,2) same zero storable_facts(5-7) [OF assms(2)] in \<open>auto simp: history_inv_def stores put\<close>)
  moreover have "index_inv sku (content (lsm_by_sku ?d)) (H(?i \<mapsto> op))"
    by (rule index_inv_add [where entries = "content (lsm_by_sku d)"])
      (use assms(1,2) same zero storable_facts(5-7) [OF assms(2)] in \<open>auto simp: history_inv_def stores put\<close>)
  ultimately show ?thesis
    using assms(1,2) by (auto simp: history_inv_def stores put)
qed

lemma batch_puts_inv:
  assumes "history_inv content d H" "\<forall>op \<in> set ops. storable op" "compatible H ops"
    and "collect_results operation_puts ops = Inr puts"
  shows "history_inv content (apply_puts api (concat puts) d) (history_add H ops)"
  using assms
proof (induction ops arbitrary: d H puts)
  case (Cons op ops)
  from Cons.prems(4) obtain p ps where p: "operation_puts op = Inr p" "collect_results operation_puts ops = Inr ps"
    "puts = p # ps" by (auto simp: rbind_Inr_iff)
  have ran: "ran (H(operation_id op \<mapsto> op)) \<subseteq> insert op (ran H)"
    by (auto simp: ran_def)
  have "history_inv content (apply_puts api p d) (H(operation_id op \<mapsto> op))"
    by (rule operation_puts_inv) (use Cons.prems p in \<open>auto simp: compatible_def ran_def\<close>)
  then have "history_inv content (apply_puts api (concat ps) (apply_puts api p d))
      (history_add (H(operation_id op \<mapsto> op)) ops)"
    by (rule Cons.IH) (use Cons.prems p ran in \<open>auto simp: compatible_def simp del: fun_upd_apply\<close>)
  then show ?case by (simp add: p apply_puts_def history_add_def)
qed (simp add: apply_puts_def history_add_def)

lemma meta_puts:
  "history_inv content (apply_puts api [PutMeta a x, PutMeta b y] d) H = history_inv content d H"
  by (simp add: apply_puts_def history_inv_def)

lemma meta_progress:
  "history_progress api (apply_puts api [PutMeta HISTORY_SEQUENCE x, PutMeta HISTORY_EPOCH y] d) = Inr (x, y)"
  by (simp add: apply_puts_def history_progress_def lsm_u64_def get put HISTORY_SEQUENCE_def HISTORY_EPOCH_def
      ensure_def)

end

lemma apply_puts_append: "apply_puts lsm (a @ b) d = apply_puts lsm b (apply_puts lsm a d)"
  by (simp add: apply_puts_def)

lemma storable_puts:
  "\<forall>op \<in> set ops. storable op \<Longrightarrow> \<exists>puts. collect_results operation_puts ops = Inr puts"
  by (induction ops) (auto simp: operation_puts_def storable_encode)

lemma materialize_eq:
  assumes "\<forall>op \<in> set (record_operations records). storable op" "records \<noteq> []"
    and "last records = (sequence, epoch, last_ops)"
  shows "\<exists>puts. collect_results operation_puts (record_operations records) = Inr puts
    \<and> materialize_history_batch lsm (Inr ()) records d = (Inr (),
        apply_puts lsm [PutMeta HISTORY_SEQUENCE sequence, PutMeta HISTORY_EPOCH epoch] (apply_puts lsm (concat puts) d))"
proof -
  obtain puts where "collect_results operation_puts (record_operations records) = Inr puts"
    using storable_puts [OF assms(1)] ..
  with assms(2,3) show ?thesis
    by (simp add: materialize_history_batch_def record_operations_def apply_puts_append [symmetric])
qed

context kv_store
begin

lemma materialize_inv:
  assumes "history_inv content d H" "\<forall>op \<in> set (record_operations records). storable op"
    and "compatible H (record_operations records)" "records \<noteq> []" "last records = (sequence, epoch, last_ops)"
    and "materialize_history_batch api (Inr ()) records d = (Inr (), d')"
  shows "history_inv content d' (history_add H (record_operations records))
    \<and> history_progress api d' = Inr (sequence, epoch)"
  using materialize_eq [OF assms(2,4,5), of api d] assms(6) batch_puts_inv [OF assms(1-3)]
  by (auto simp: meta_puts meta_progress)

end

section \<open>Pages\<close>

text \<open>
  The cursor of \<open>history_page\<close> in \<open>src/main.rs\<close> and the client that follows it until a page
  comes without one.
\<close>

definition next_cursor :: "nat \<Rightarrow> operation list \<Rightarrow> bytes option" where
  "next_cursor limit ops = (if length ops = limit then Some (operation_id (last ops)) else None)"

fun walk_pages :: "(bytes option \<Rightarrow> operation list result) \<Rightarrow> nat \<Rightarrow> nat \<Rightarrow> bytes option \<Rightarrow> operation list result" where
  "walk_pages get_page limit 0 cursor = Inr []"
| "walk_pages get_page limit (Suc n) cursor =
     rbind (get_page cursor) (\<lambda>ops. case next_cursor limit ops of
         None \<Rightarrow> Inr ops
       | Some c \<Rightarrow> rbind (walk_pages get_page limit n (Some c)) (\<lambda>more. Inr (ops @ more)))"

lemma filter_after_take:
  fixes xs :: "'a :: linorder list"
  assumes "sorted_wrt (<) xs" "0 < n" "n \<le> length xs"
  shows "filter (\<lambda>x. last (take n xs) < x) xs = drop n xs"
proof -
  let ?l = "last (take n xs)"
  have "take n xs \<noteq> []" using assms(2,3) by auto
  then have l: "?l = xs ! (n - 1)" using assms(2,3) by (simp add: last_conv_nth)
  have "\<not> ?l < x" if "x \<in> set (take n xs)" for x
  proof -
    from that obtain i where "i < n" "x = xs ! i" using assms(3) by (auto simp: in_set_conv_nth)
    moreover have "xs ! i \<le> xs ! (n - 1)" if "i < n - 1"
      using sorted_wrt_nth_less [OF assms(1), of i "n - 1"] assms(3) that by (intro less_imp_le) simp
    moreover have "i = n - 1 \<or> i < n - 1" using \<open>i < n\<close> by arith
    ultimately show ?thesis unfolding l not_less by blast
  qed
  then have "filter (\<lambda>x. ?l < x) (take n xs) = []" by simp
  moreover have "?l < x" if "x \<in> set (drop n xs)" for x
  proof -
    from that obtain i where "i < length xs - n" "x = xs ! (n + i)" by (auto simp: in_set_conv_nth)
    then show ?thesis
      using sorted_wrt_nth_less [OF assms(1), of "n - 1" "n + i"] assms(2,3) unfolding l by simp
  qed
  then have "filter (\<lambda>x. ?l < x) (drop n xs) = drop n xs" by simp
  ultimately show ?thesis using filter_append [of _ "take n xs" "drop n xs"] by simp
qed

lemma walk_pages_all:
  assumes "sorted_wrt (<) ids" "0 < limit" "\<And>i. i \<in> set ids \<Longrightarrow> operation_id (f i) = i"
    and "\<And>cursor. get_page cursor = Inr (map f (take limit (filter (\<lambda>i. \<not> at_or_before cursor i) ids)))"
  shows "length (filter (\<lambda>i. \<not> at_or_before cursor i) ids) < n \<Longrightarrow>
      walk_pages get_page limit n cursor = Inr (map f (filter (\<lambda>i. \<not> at_or_before cursor i) ids))"
proof (induction n arbitrary: cursor)
  case (Suc n)
  let ?rest = "filter (\<lambda>i. \<not> at_or_before cursor i) ids"
  have sorted: "sorted_wrt (<) ?rest" using assms(1) by (rule sorted_wrt_filter)
  show ?case
  proof (cases "limit \<le> length ?rest")
    case True
    let ?l = "last (take limit ?rest)"
    have ne: "take limit ?rest \<noteq> []" using True assms(2) by auto
    then have l: "?l \<in> set (take limit ?rest)" by (rule last_in_set)
    then have l': "?l \<in> set ?rest" by (rule in_set_takeD)
    have after: "filter (\<lambda>i. \<not> at_or_before (Some ?l) i) ids = drop limit ?rest"
    proof -
      have "filter (\<lambda>i. \<not> at_or_before (Some ?l) i) ids = filter (\<lambda>i. ?l < i) ?rest"
        using l' by (auto simp: at_or_before_def not_le intro!: filter_cong split: option.splits)
      also have "\<dots> = drop limit ?rest" by (rule filter_after_take [OF sorted assms(2) True])
      finally show ?thesis .
    qed
    have c: "next_cursor limit (map f (take limit ?rest)) = Some ?l"
      using True ne assms(3) [of ?l] l' by (simp add: next_cursor_def last_map)
    have "walk_pages get_page limit n (Some ?l) = Inr (map f (drop limit ?rest))"
      using Suc.IH [of "Some ?l"] Suc.prems assms(2) True unfolding after by simp
    moreover have "walk_pages get_page limit (Suc n) cursor
        = rbind (walk_pages get_page limit n (Some ?l)) (\<lambda>more. Inr (map f (take limit ?rest) @ more))"
      by (simp only: walk_pages.simps assms(4) rbind_simps c option.case)
    ultimately show ?thesis by (simp only: rbind_simps map_append [symmetric] append_take_drop_id)
  next
    case False
    then have "next_cursor limit (map f (take limit ?rest)) = None" by (simp add: next_cursor_def)
    with False show ?thesis by (simp add: assms(4))
  qed
qed simp

context kv_store
begin

lemma walk_selected:
  assumes "history_inv content d H" "0 < limit" "length (selected_ids H P) < n"
    and "\<And>cursor. get_page cursor = Inr (page H P cursor limit)"
  shows "walk_pages get_page limit n None = Inr (map (\<lambda>i. the (H i)) (selected_ids H P))"
proof -
  have all: "filter (\<lambda>i. \<not> at_or_before None i) ids = ids" for ids by (simp add: at_or_before_def)
  have "walk_pages get_page limit n None =
      Inr (map (\<lambda>i. the (H i)) (filter (\<lambda>i. \<not> at_or_before None i) (selected_ids H P)))"
  proof (rule walk_pages_all)
    show "sorted_wrt (<) (selected_ids H P)" by (simp add: selected_ids_def)
    fix i
    assume "i \<in> set (selected_ids H P)"
    then show "operation_id (the (H i)) = i"
      using history_finite [OF assms(1), of P] assms(1) by (auto simp: selected_ids_def history_inv_def)
  qed (use assms(2-4) in \<open>simp_all add: all page_def\<close>)
  then show ?thesis by (simp only: all)
qed

end

section \<open>Properties\<close>

text \<open>
  \<open>materialize_history_batch\<close> extends the materialized history by exactly the operations
  of its log records, keeps both secondary indices complete and free of stale entries, and
  moves the stored progress to the sequence and epoch of the last record in the same commit;
  when the commit fails nothing changes.  The operations must be valid, and operations with
  one id must agree on owner and SKU (the deduplication guarantees more).
\<close>

theorem materialize_extends_history:
  assumes "kv_store lsm lc" "history_inv lc d H" "records \<noteq> []"
    and "\<forall>op \<in> set (record_operations records). storable op" "compatible H (record_operations records)"
  shows "(\<exists>d'. materialize_history_batch lsm (Inr ()) records d = (Inr (), d')
      \<and> history_inv lc d' (history_add H (record_operations records))
      \<and> history_progress lsm d' = Inr (fst (last records), fst (snd (last records))))
    \<and> materialize_history_batch lsm (Inl e) records d = (Inl e, d)"
proof -
  obtain sequence epoch last_ops where l: "last records = (sequence, epoch, last_ops)"
    by (cases "last records")
  from materialize_eq [OF assms(4,3) l] obtain puts where
    puts: "collect_results operation_puts (record_operations records) = Inr puts" by blast
  with assms(3) l have "materialize_history_batch lsm (Inl e) records d = (Inl e, d)"
    by (simp add: materialize_history_batch_def record_operations_def)
  with materialize_eq [OF assms(4,3) l] l
    kv_store.materialize_inv [OF assms(1,2,4,5,3) l] show ?thesis by fastforce
qed

definition sample_records :: "(u64 \<times> u64 \<times> operation list) list" where
  "sample_records =
     [(4, 1, [sample_op ''op-1'' ''ann'' ''nut'' 5, sample_op ''op-2'' ''bob'' ''nut'' 7]),
      (6, 2, [sample_op ''op-3'' ''ann'' ''bolt'' 9])]"

definition sample_history :: "bytes \<rightharpoonup> operation" where
  "sample_history = history_add Map.empty (record_operations sample_records)"

lemma sample_records_ok:
  "\<forall>op \<in> set (record_operations sample_records). storable op"
  "compatible Map.empty (record_operations sample_records)"
proof -
  show "\<forall>op \<in> set (record_operations sample_records). storable op"
    by (simp add: record_operations_def sample_records_def storable_def sample_simps)
  show "compatible Map.empty (record_operations sample_records)"
    by (simp add: compatible_def record_operations_def sample_records_def same_keys_def sample_op_def ascii_def)
qed

lemma sample_disk_history: "history_inv alist_of sample_disk Map.empty"
  by (simp add: history_inv_def index_inv_def sample_disk_def alist_eval)

lemma materialize_extends_history_witness:
  "\<exists>d'. materialize_history_batch alist_api (Inr ()) sample_records sample_disk = (Inr (), d')
     \<and> history_inv alist_of d' (history_add Map.empty (record_operations sample_records))
     \<and> history_progress alist_api d' = Inr (6, 2)"
  using materialize_extends_history [OF alist.kv_store_axioms sample_disk_history _ sample_records_ok]
  by (simp add: sample_records_def)

text \<open>
  \<open>operations_by_owner\<close> and \<open>operations_by_sku\<close> return the first \<open>limit\<close> operations of
  exactly that owner (SKU) whose id lies after the cursor, in the order of the ids, and
  \<open>scan_operations\<close> does so for all operations: another owner's operations never show up,
  whatever bytes the requested value has.
\<close>

theorem history_pages_exact:
  assumes "kv_store lsm lc" "history_inv lc d H" "H \<noteq> Map.empty" "0 < limit"
  shows "by_owner lsm red from_json d v cursor limit = Inr (page H (\<lambda>op. owner_id op = v) cursor limit)
    \<and> by_sku lsm red from_json d v cursor limit = Inr (page H (\<lambda>op. sku op = v) cursor limit)
    \<and> scan_operations lsm d cursor limit = Inr (page H (\<lambda>_. True) cursor limit)"
proof -
  have "index_inv owner_id (lc (lsm_by_owner d)) H" "index_inv sku (lc (lsm_by_sku d)) H"
    using assms(2) by (simp_all add: history_inv_def)
  with assms show ?thesis
    using kv_store.by_index_page [OF assms(1,2)] kv_store.scan_page [OF assms(1,2,4)] storable_facts(6,7)
    by (simp add: by_owner_def by_sku_def)
qed

lemma sample_history_state:
  "\<exists>d :: (sorted_alist, sorted_alist) disk. history_inv alist_of d sample_history"
proof -
  have l: "last sample_records = (6, 2, [sample_op ''op-3'' ''ann'' ''bolt'' 9])" "sample_records \<noteq> []"
    by (simp_all add: sample_records_def)
  from materialize_eq [OF sample_records_ok(1) l(2,1), of alist_api sample_disk]
    alist.materialize_inv [OF sample_disk_history sample_records_ok l(2,1)]
  show ?thesis unfolding sample_history_def by metis
qed

lemma sample_history_op: "sample_history (ascii ''op-3'') = Some (sample_op ''op-3'' ''ann'' ''bolt'' 9)"
  by (simp add: sample_history_def history_add_def record_operations_def sample_records_def sample_op_def)

lemma history_pages_exact_witness:
  "\<exists>d. by_owner alist_api alist_api (\<lambda>_. Inl ParseError) d (ascii ''ann'') None 10
      = Inr (page sample_history (\<lambda>op. owner_id op = ascii ''ann'') None 10)
    \<and> by_sku alist_api alist_api (\<lambda>_. Inl ParseError) d (ascii ''ann'') None 10
      = Inr (page sample_history (\<lambda>op. sku op = ascii ''ann'') None 10)
    \<and> scan_operations alist_api d None 10 = Inr (page sample_history (\<lambda>_. True) None 10)"
proof -
  obtain d :: "(sorted_alist, sorted_alist) disk" where d: "history_inv alist_of d sample_history" using sample_history_state ..
  have "sample_history \<noteq> Map.empty" using sample_history_op by (metis option.distinct(1))
  from history_pages_exact [OF alist.kv_store_axioms d this, of 10] show ?thesis by (intro exI [of _ d]) simp
qed

text \<open>
  A client that follows \<open>next_cursor\<close> from page to page sees every operation of the
  owner exactly once, in the order of the ids, and the walk ends, for every page size.
\<close>

theorem owner_pages_complete:
  assumes "kv_store lsm lc" "history_inv lc d H" "H \<noteq> Map.empty" "0 < limit"
    and "length (selected_ids H (\<lambda>op. owner_id op = v)) < fuel"
  shows "walk_pages (\<lambda>cursor. by_owner lsm red from_json d v cursor limit) limit fuel None
    = Inr (map (\<lambda>i. the (H i)) (selected_ids H (\<lambda>op. owner_id op = v)))"
proof (rule kv_store.walk_selected [OF assms(1,2,4,5)])
  have "index_inv owner_id (lc (lsm_by_owner d)) H" using assms(2) by (simp add: history_inv_def)
  then show "by_owner lsm red from_json d v cursor limit = Inr (page H (\<lambda>op. owner_id op = v) cursor limit)"
    for cursor
    using kv_store.by_index_page [OF assms(1,2)] storable_facts(6) assms(3,4) by (simp add: by_owner_def)
qed

lemma owner_pages_complete_witness:
  "\<exists>d fuel. walk_pages (\<lambda>cursor. by_owner alist_api alist_api (\<lambda>_. Inl ParseError) d (ascii ''ann'') cursor 1) 1 fuel None
    = Inr (map (\<lambda>i. the (sample_history i)) (selected_ids sample_history (\<lambda>op. owner_id op = ascii ''ann'')))"
proof -
  obtain d :: "(sorted_alist, sorted_alist) disk" where d: "history_inv alist_of d sample_history" using sample_history_state ..
  have "sample_history \<noteq> Map.empty" using sample_history_op by (metis option.distinct(1))
  from owner_pages_complete [OF alist.kv_store_axioms d this zero_less_one lessI] show ?thesis by blast
qed

end
