(* ===== verification/HistoryTail.thy ===== *)
theory HistoryTail
  imports LiveTail History
begin

text \<open>
  \<open>run_history_tail\<close> of \<open>src/main.rs\<close>: the task that follows the replicated log and
  materializes the accepted operations, sixteen records to a commit.  \<open>published\<close> is the atomic
  that the read handlers compare with the checkpoint.  The history is proved to be that of the
  batches \<open>catch_up\<close> accepts, in every state between two turns, however they end.
\<close>

section \<open>The code\<close>

definition HISTORY_BATCH_RECORDS :: nat where
  "HISTORY_BATCH_RECORDS = 16"

record ('d, 'g) history_tail =
  ht_disk :: 'd
  ht_log :: 'g
  ht_published :: u64

text \<open>
  How the writes of a turn end: the commit of the batch that ends with a sequence (or the task
  that makes it), and the completion of the migration.
\<close>

record tail_io =
  ti_commit :: "u64 \<Rightarrow> unit result"
  ti_migrated :: "unit result"

text \<open>The epoch after a record, and its operations when they belong to that epoch.\<close>

definition history_accept :: "u64 \<Rightarrow> log_record \<Rightarrow> u64 \<times> operation list" where
  "history_accept epoch rec =
     (case rec of
        LogFence nxt owner \<Rightarrow> (if nxt > epoch then nxt else epoch, [])
      | LogOperations record_epoch operations \<Rightarrow> (epoch, if record_epoch = epoch then operations else []))"

fun history_loop ::
  "json_api \<Rightarrow> 'g log_api \<Rightarrow> 'l kv_api \<Rightarrow> (u64 \<Rightarrow> unit result) \<Rightarrow> u64 \<Rightarrow> u64 list \<Rightarrow> u64 \<Rightarrow> (u64 \<times> u64 \<times> operation list) list
     \<Rightarrow> (('l, 'r) disk, 'g) history_tail \<Rightarrow> (('l, 'r) disk, 'g) history_tail" where
  "history_loop json api lsm commit last_sequence [] epoch batch s = s"
| "history_loop json api lsm commit last_sequence (sequence # more_sequences) epoch batch s =
     (case log_read json api sequence (ht_log s) of
        (Inl _, l) \<Rightarrow> s\<lparr>ht_log := l\<rparr>
      | (Inr rec, l) \<Rightarrow>
          (let (epoch, operations) = history_accept epoch rec; batch = batch @ [(sequence, epoch, operations)] in
           if length batch = HISTORY_BATCH_RECORDS \<or> sequence = last_sequence then
             (case materialize_history_batch lsm (commit sequence) batch (ht_disk s) of
                (Inl _, d) \<Rightarrow> s\<lparr>ht_disk := d, ht_log := l\<rparr>
              | (Inr _, d) \<Rightarrow>
                  history_loop json api lsm commit last_sequence more_sequences epoch []
                    (s\<lparr>ht_disk := d, ht_log := l, ht_published := sequence\<rparr>))
           else history_loop json api lsm commit last_sequence more_sequences epoch batch (s\<lparr>ht_log := l\<rparr>)))"

text \<open>One turn of the loop, sleeps apart.\<close>

definition history_turn ::
  "json_api \<Rightarrow> 'g log_api \<Rightarrow> 'l kv_api \<Rightarrow> tail_io \<Rightarrow> (('l, 'r) disk, 'g) history_tail \<Rightarrow> (('l, 'r) disk, 'g) history_tail" where
  "history_turn json api lsm io s =
     (case history_progress lsm (ht_disk s) of
        Inl _ \<Rightarrow> s
      | Inr (position, epoch) \<Rightarrow>
          (case js_last api (ht_log s) of
             Inl _ \<Rightarrow> s
           | Inr last_sequence \<Rightarrow>
               if last_sequence > position then
                 (let s = history_loop json api lsm (ti_commit io) last_sequence
                    (map word_of_nat [unat (u64_saturating_add position 1) ..< Suc (unat last_sequence)]) epoch [] s in
                  if ht_published s = last_sequence
                  then (case ti_migrated io of
                      Inl _ \<Rightarrow> s
                    | Inr _ \<Rightarrow> s\<lparr>ht_disk := complete_binary_history_migration lsm (ht_disk s)\<rparr>)
                  else s)
               else s))"

text \<open>The start of the task in \<open>main\<close>: the migration marker, then the position found.\<close>

definition history_start ::
  "'l kv_api \<Rightarrow> unit result \<Rightarrow> ('l, 'r) disk \<Rightarrow> 'g \<Rightarrow> (('l, 'r) disk, 'g) history_tail result" where
  "history_start lsm commit d l =
     (case prepare_binary_history_migration lsm commit d of
        (Inl e, _) \<Rightarrow> Inl e
      | (Inr (history_sequence, _), d') \<Rightarrow> Inr \<lparr>ht_disk = d', ht_log = l, ht_published = history_sequence\<rparr>)"

section \<open>The states of the task\<close>

text \<open>The history of the first \<open>n\<close> records of a log.\<close>

definition history_of :: "log_record list \<Rightarrow> nat \<Rightarrow> (bytes \<rightharpoonup> operation)" where
  "history_of records n = history_add Map.empty (concat (accepted_batches 0 (take n records)))"

text \<open>No operation id comes with two owners or two SKUs.\<close>

definition ids_agree :: "log_record list \<Rightarrow> bool" where
  "ids_agree records \<longleftrightarrow> (\<forall>a \<in> set (concat (accepted_batches 0 records)). \<forall>b \<in> set (concat (accepted_batches 0 records)). same_keys a b)"

text \<open>
  What happens to the task and its data: a turn; the log grows; the other tasks write to the
  deduplication index; and the process restarts.
\<close>

definition same_history :: "('l, 'r) disk \<Rightarrow> ('l, 'r) disk \<Rightarrow> bool" where
  "same_history d d' \<longleftrightarrow> lsm_history d' = lsm_history d \<and> lsm_by_owner d' = lsm_by_owner d
     \<and> lsm_by_sku d' = lsm_by_sku d \<and> lsm_history_meta d' = lsm_history_meta d"

inductive history_step ::
  "json_api \<Rightarrow> 'g log_api \<Rightarrow> ('g \<Rightarrow> (string option \<times> bytes) list) \<Rightarrow> 'l kv_api
     \<Rightarrow> (('l, 'r) disk, 'g) history_tail \<Rightarrow> (('l, 'r) disk, 'g) history_tail \<Rightarrow> bool"
  for json :: json_api and api :: "'g log_api" and contents and lsm :: "'l kv_api" where
  turn: "history_step json api contents lsm s (history_turn json api lsm io s)"
| grow: "contents l = contents (ht_log s) @ ms \<Longrightarrow> history_step json api contents lsm s (s\<lparr>ht_log := l\<rparr>)"
| index: "same_history (ht_disk s) d \<Longrightarrow> history_step json api contents lsm s (s\<lparr>ht_disk := d\<rparr>)"
| restart: "history_start lsm commit (ht_disk s) (ht_log s) = Inr s' \<Longrightarrow> history_step json api contents lsm s s'"

text \<open>The task started on an empty history.\<close>

definition history_at_start :: "('l \<Rightarrow> (bytes \<times> bytes) list) \<Rightarrow> 'l kv_api \<Rightarrow> (('l, 'r) disk, 'g) history_tail \<Rightarrow> bool" where
  "history_at_start lc lsm s \<longleftrightarrow>
     (\<exists>d commit. history_inv lc d Map.empty \<and> history_progress lsm d = Inr (0, 0)
        \<and> history_start lsm commit d (ht_log s) = Inr s)"

section \<open>What the records give\<close>

lemma history_accept_spec: "history_accept e rec = (epoch_after e [rec], concat (accepted_batches e [rec]))"
  by (cases rec) (auto simp: history_accept_def max_def)

lemma history_add_append: "history_add H (xs @ ys) = history_add (history_add H xs) ys"
  by (simp add: history_add_def)

lemma history_add_cases: "history_add H ops i = Some op \<Longrightarrow> op \<in> set ops \<and> operation_id op = i \<or> H i = Some op"
  by (induction ops arbitrary: H) (fastforce simp: history_add_def fun_upd_def split: if_splits)+

lemma accepted_take_subset: "set (concat (accepted_batches e (take n rs))) \<subseteq> set (concat (accepted_batches e rs))"
proof -
  have "accepted_batches e rs = accepted_batches e (take n rs) @ accepted_batches (epoch_after e (take n rs)) (drop n rs)"
    by (metis append_take_drop_id accepted_batches_append)
  then show ?thesis by simp
qed

lemma take_split: "q \<le> j \<Longrightarrow> take j rs = take q rs @ take (j - q) (drop q rs)"
  by (metis le_add_diff_inverse take_add)

lemma history_of_extend:
  assumes "q \<le> j"
  shows "history_of rs j = history_add (history_of rs q) (concat (accepted_batches (epoch_after 0 (take q rs)) (take (j - q) (drop q rs))))"
  unfolding history_of_def take_split [OF assms] by (simp add: accepted_batches_append history_add_append)

lemma history_of_range: "history_of rs n i = Some op \<Longrightarrow> op \<in> set (concat (accepted_batches 0 rs)) \<and> operation_id op = i"
  using history_add_cases [of Map.empty "concat (accepted_batches 0 (take n rs))" i op] accepted_take_subset [of 0 n rs]
  unfolding history_of_def by auto

lemma ids_agree_compatible:
  assumes "ids_agree rs" "set ops \<subseteq> set (concat (accepted_batches 0 rs))"
  shows "compatible (history_of rs q) ops"
proof -
  have "ran (history_of rs q) \<subseteq> set (concat (accepted_batches 0 rs))"
    using history_of_range [of rs q] by (auto simp: ran_def simp del: set_concat)
  then have "set ops \<union> ran (history_of rs q) \<subseteq> set (concat (accepted_batches 0 rs))" using assms(2) by blast
  then show ?thesis using assms unfolding compatible_def ids_agree_def by blast
qed

lemma ids_agree_prefix: "ids_agree (rs @ rs') \<Longrightarrow> ids_agree rs"
  unfolding ids_agree_def by (simp add: accepted_batches_append)

text \<open>
  The texts of operations are UTF-8: what the decoder accepts, and what \<open>serde_json\<close> gives as
  a \<open>String\<close>.
\<close>

definition json_texts :: "json_api \<Rightarrow> bool" where
  "json_texts json \<longleftrightarrow>
     (\<forall>p e ops. json_record json p = Inr (LogOperations e ops) \<longrightarrow> (\<forall>op \<in> set ops. op_strings_ok op))
     \<and> (\<forall>p ops. json_operations json p = Inr ops \<longrightarrow> (\<forall>op \<in> set ops. op_strings_ok op))"

lemma validated: "for_each (\<lambda>op _. validate op) ops () = Inr () \<Longrightarrow> op \<in> set ops \<Longrightarrow> validate op = Inr ()"
  by (induction ops) (auto simp: rbind_Inr_iff)

lemma record_of_storable:
  assumes "json_texts json" "length p < 2 ^ 63" "record_of json p = LogOperations e ops" "op \<in> set ops"
  shows "storable op"
proof -
  from assms(3,4) have "decode_record json p = Inr (LogOperations e ops)"
    by (auto simp: record_of_def split: sum.splits)
  then obtain rec where rec: "parse_record json p = Inr rec" "check_record rec = Inr (LogOperations e ops)"
    by (auto simp: decode_record_def rbind_Inr_iff)
  from rec(2) have parsed: "rec = LogOperations e ops" "for_each (\<lambda>op _. validate op) ops () = Inr ()"
    by (cases rec; auto simp: check_record_def rbind_Inr_iff)+
  have parse: "parse_record json p = Inr (LogOperations e ops)" "validate op = Inr ()"
    using rec(1) parsed validated [OF parsed(2) assms(4)] by simp_all
  have "op_strings_ok op"
  proof (cases "decode_log p")
    case (Inr rec)
    with parse(1) have "rec = BinOperations e ops" by (cases rec) (auto simp: parse_record_def)
    with Inr have "operations_good ops" using decode_log_iff [OF assms(2), of rec] by simp
    with assms(4) show ?thesis
      by (auto simp: operations_good_def list_all_iff operation_good_def op_strings_ok_def string_good_def)
  next
    case (Inl err)
    with parse(1) have "json_record json p = Inr (LogOperations e ops) \<or> json_operations json p = Inr ops"
      by (cases "json_record json p"; cases "json_operations json p") (auto simp: parse_record_def)
    with assms(1,4) show ?thesis unfolding json_texts_def by blast
  qed
  with parse(2) show ?thesis by (simp add: storable_def validate_iff)
qed

lemma accepted_in_records:
  "op \<in> set (concat (accepted_batches e rs)) \<Longrightarrow> \<exists>n ops. LogOperations n ops \<in> set rs \<and> op \<in> set ops"
proof (induction e rs rule: accepted_batches.induct)
  case (3 e n ops rs)
  then show ?case by (cases "n = e \<and> ops \<noteq> []") (simp_all, blast+)
qed (simp, fastforce)

lemma log_storable:
  assumes "json_texts json" "\<forall>(i, p) \<in> set ms. length p < 2 ^ 63"
    and "op \<in> set (concat (accepted_batches 0 (log_records json ms)))"
  shows "storable op"
proof -
  from accepted_in_records [OF assms(3)] obtain n ops where ops: "LogOperations n ops \<in> set (log_records json ms)" "op \<in> set ops"
    by blast
  then obtain i p where "(i, p) \<in> set ms" "LogOperations n ops = record_of json p" by (auto simp: log_records_def)
  with assms(2) record_of_storable [OF assms(1) _ _ ops(2), of p n] show ?thesis by auto
qed

section \<open>The invariant\<close>

locale history_log = kv_store lsm lc + replicated_log lapi contents
  for lsm :: "'l kv_api" and lc :: "'l \<Rightarrow> (bytes \<times> bytes) list"
    and lapi :: "'g log_api" and contents :: "'g \<Rightarrow> (string option \<times> bytes) list" +
  fixes json :: json_api
  assumes texts: "json_texts json"
begin

abbreviation "recs l \<equiv> log_records json (contents l)"

text \<open>The log as the task needs it.\<close>

definition log_ok :: "'g \<Rightarrow> bool" where
  "log_ok l \<longleftrightarrow> ids_agree (recs l) \<and> (\<forall>(i, p) \<in> set (contents l). length p < 2 ^ 63) \<and> length (contents l) < 2 ^ 64 - 1"

text \<open>The history of the first \<open>q\<close> records, and its position.\<close>

definition disk_at :: "log_record list \<Rightarrow> u64 \<Rightarrow> ('l, 'r) disk \<Rightarrow> bool" where
  "disk_at R q d \<longleftrightarrow> unat q \<le> length R \<and> history_inv lc d (history_of R (unat q))
     \<and> history_progress lsm d = Inr (q, epoch_after 0 (take (unat q) R))
     \<and> (\<exists>n. n \<noteq> 0 \<and> lsm_u64 lsm (lsm_history_meta d) HISTORY_LSM_ID_FORMAT = Inr n)"

definition tail_inv :: "(('l, 'r) disk, 'g) history_tail \<Rightarrow> bool" where
  "tail_inv s \<longleftrightarrow> disk_at (recs (ht_log s)) (ht_published s) (ht_disk s)"

text \<open>Inside the loop after \<open>j\<close> records: what the open batch holds.\<close>

definition batch_at :: "log_record list \<Rightarrow> u64 \<Rightarrow> nat \<Rightarrow> u64 \<Rightarrow> (u64 \<times> u64 \<times> operation list) list \<Rightarrow> bool" where
  "batch_at R q j epoch batch \<longleftrightarrow> unat q \<le> j \<and> j \<le> length R \<and> epoch = epoch_after 0 (take j R)
     \<and> record_operations batch = concat (accepted_batches (epoch_after 0 (take (unat q) R)) (take (j - unat q) (drop (unat q) R)))"

lemma meta_format:
  "lsm_u64 lsm (lsm_history_meta (apply_puts lsm [PutMeta HISTORY_SEQUENCE x, PutMeta HISTORY_EPOCH y] d)) HISTORY_LSM_ID_FORMAT
     = lsm_u64 lsm (lsm_history_meta d) HISTORY_LSM_ID_FORMAT"
  by (simp add: apply_puts_def lsm_u64_def get put HISTORY_SEQUENCE_def HISTORY_EPOCH_def HISTORY_LSM_ID_FORMAT_def)

lemma batch_next:
  assumes "batch_at R q j epoch batch" "j < length R" "history_accept epoch (R ! j) = (epoch', ops)"
  shows "batch_at R q (Suc j) epoch' (batch @ [(w, epoch', ops)])"
proof -
  from assms(1) have j: "unat q \<le> j" "epoch = epoch_after 0 (take j R)" by (simp_all add: batch_at_def)
  have R: "take (Suc j) R = take j R @ [R ! j]" using assms(2) by (rule take_Suc_conv_app_nth)
  have "take (Suc j - unat q) (drop (unat q) R) = take (j - unat q) (drop (unat q) R) @ [R ! j]"
    using assms(2) j(1) by (simp add: Suc_diff_le take_Suc_conv_app_nth)
  moreover have "epoch_after (epoch_after 0 (take (unat q) R)) (take (j - unat q) (drop (unat q) R)) = epoch"
    unfolding j(2) take_split [OF j(1)] by (simp add: epoch_after_append)
  moreover have "epoch' = epoch_after epoch [R ! j]" "ops = concat (accepted_batches epoch [R ! j])"
    using assms(3) by (simp_all add: history_accept_spec)
  ultimately show ?thesis
    using assms(1,2) j(2) by (simp add: batch_at_def R record_operations_def accepted_batches_append epoch_after_append)
qed

lemma puts_keep_meta:
  "collect_results operation_puts ops = Inr puts \<Longrightarrow> lsm_history_meta (apply_puts lsm (concat puts) d) = lsm_history_meta d"
proof (induction ops arbitrary: puts d)
  case (Cons op ops)
  then obtain p ps where p: "operation_puts op = Inr p" "collect_results operation_puts ops = Inr ps" "puts = p # ps"
    by (auto simp: rbind_Inr_iff)
  then have "lsm_history_meta (apply_puts lsm p d) = lsm_history_meta d"
    by (auto simp: operation_puts_def rbind_Inr_iff apply_puts_def)
  with Cons.IH [OF p(2), of "apply_puts lsm p d"] show ?case by (simp add: p(3) apply_puts_append)
qed (simp add: apply_puts_def)

lemma commit_at:
  assumes "disk_at R q d" "batch_at R q j epoch batch" "batch \<noteq> []" "last batch = (w, epoch, ops)" "unat w = j"
    and "ids_agree R" "\<forall>op \<in> set (concat (accepted_batches 0 R)). storable op"
    and "materialize_history_batch lsm c batch d = (r, d')"
  shows "(c = Inr () \<longleftrightarrow> r = Inr ()) \<and> (r = Inr () \<longrightarrow> disk_at R w d' \<and> batch_at R w j epoch [])
    \<and> (r \<noteq> Inr () \<longrightarrow> d' = d)"
proof -
  let ?ops = "record_operations batch"
  have j: "unat q \<le> j" "j \<le> length R" "epoch = epoch_after 0 (take j R)"
    "?ops = concat (accepted_batches (epoch_after 0 (take (unat q) R)) (take (j - unat q) (drop (unat q) R)))"
    using assms(2) by (simp_all add: batch_at_def)
  have "accepted_batches 0 (take j R) = accepted_batches 0 (take (unat q) R)
      @ accepted_batches (epoch_after 0 (take (unat q) R)) (take (j - unat q) (drop (unat q) R))"
    unfolding take_split [OF j(1)] by (simp add: accepted_batches_append)
  then have "set ?ops \<subseteq> set (concat (accepted_batches 0 (take j R)))" using j(4) by simp
  with accepted_take_subset [of 0 j R] have sub: "set ?ops \<subseteq> set (concat (accepted_batches 0 R))" by blast
  have st: "\<forall>op \<in> set ?ops. storable op" using sub assms(7) by blast
  have H: "history_inv lc d (history_of R (unat q))" using assms(1) by (simp add: disk_at_def)
  note compat = ids_agree_compatible [OF assms(6) sub, of "unat q"]
  from materialize_extends_history [OF kv_store_axioms H assms(3) st compat]
  have fail: "materialize_history_batch lsm (Inl e) batch d = (Inl e, d)" for e by blast
  obtain puts where puts: "collect_results operation_puts ?ops = Inr puts"
    "materialize_history_batch lsm (Inr ()) batch d = (Inr (),
       apply_puts lsm [PutMeta HISTORY_SEQUENCE w, PutMeta HISTORY_EPOCH epoch] (apply_puts lsm (concat puts) d))"
    using materialize_eq [OF st assms(3,4)] by blast
  show ?thesis
  proof (cases c)
    case (Inl e)
    with fail assms(8) show ?thesis by auto
  next
    case (Inr u)
    with puts(2) assms(8) have r: "r = Inr ()" "materialize_history_batch lsm (Inr ()) batch d = (Inr (), d')"
      "d' = apply_puts lsm [PutMeta HISTORY_SEQUENCE w, PutMeta HISTORY_EPOCH epoch] (apply_puts lsm (concat puts) d)" by simp_all
    have "history_inv lc d' (history_of R j) \<and> history_progress lsm d' = Inr (w, epoch)"
      using materialize_inv [OF H st compat assms(3,4) r(2)] j(4) history_of_extend [OF j(1), of R] by simp
    moreover have "lsm_u64 lsm (lsm_history_meta d') HISTORY_LSM_ID_FORMAT = lsm_u64 lsm (lsm_history_meta d) HISTORY_LSM_ID_FORMAT"
      unfolding r(3) meta_format using puts_keep_meta [OF puts(1), of d] by simp
    ultimately have "disk_at R w d'" using assms(1,5) j(2,3) by (simp add: disk_at_def)
    moreover have "batch_at R w j epoch []" using j(2,3) assms(5) by (simp add: batch_at_def record_operations_def)
    ultimately show ?thesis using r Inr by simp
  qed
qed

text \<open>The loop from record \<open>j\<close> on.\<close>

lemma loop_inv:
  assumes "disk_at R q (ht_disk s)" "ht_published s = q" "recs (ht_log s) = R" "batch_at R q j epoch batch"
    and "ids_agree R" "\<forall>op \<in> set (concat (accepted_batches 0 R)). storable op" "unat final = length R"
    and "n = length R - j"
  shows "\<exists>s'. history_loop json lapi lsm commit final (map word_of_nat [Suc j ..< Suc (length R)]) epoch batch s = s'
    \<and> contents (ht_log s') = contents (ht_log s) \<and> disk_at R (ht_published s') (ht_disk s')
    \<and> (available json lapi contents \<longrightarrow> (\<forall>w. commit w = Inr ()) \<longrightarrow> j < length R \<or> q = final \<longrightarrow> ht_published s' = final)"
  using assms
proof (induction n arbitrary: j s epoch batch q)
  case 0
  then show ?case by simp
next
  case (Suc n)
  define w ws where "w = (word_of_nat (Suc j) :: u64)" and "ws = map (word_of_nat :: nat \<Rightarrow> u64) [Suc (Suc j) ..< Suc (length R)]"
  from Suc.prems have j: "j < length R" "n = length R - Suc j" by simp_all
  then have w: "unat w = Suc j" using unat_lt [of final] Suc.prems(7) by (simp add: w_def unat_of_nat del: of_nat_Suc)
  have seqs: "map word_of_nat [Suc j ..< Suc (length R)] = w # ws"
    using j(1) by (simp add: w_def ws_def upt_conv_Cons del: upt_Suc)
  obtain r l where read: "log_read json lapi w (ht_log s) = (r, l)" by fastforce
  have l: "contents l = contents (ht_log s)" using read_contents [of json w "ht_log s"] read by simp
  show ?case
  proof (cases r)
    case (Inl e)
    have "\<not> available json lapi contents"
      using read_available [of json w "ht_log s"] read Inl w j(1) Suc.prems(3) length_log_records [of json "contents (ht_log s)"]
      by auto
    with Inl Suc.prems(1,2) l show ?thesis unfolding seqs by (simp add: read)
  next
    case (Inr rec)
    have rec: "rec = R ! j" using read_record [of json w "ht_log s" rec l] read Inr w Suc.prems(3) by simp
    obtain epoch' ops where acc: "history_accept epoch rec = (epoch', ops)" by fastforce
    let ?batch = "batch @ [(w, epoch', ops)]"
    have next_batch: "batch_at R q (Suc j) epoch' ?batch"
      using batch_next [OF Suc.prems(4) j(1)] acc rec by simp
    show ?thesis
    proof (cases "length ?batch = HISTORY_BATCH_RECORDS \<or> w = final")
      case False
      let ?s = "s\<lparr>ht_log := l\<rparr>"
      have "Suc j < length R"
      proof (rule ccontr)
        assume "\<not> Suc j < length R"
        with j(1) w Suc.prems(7) have "unat w = unat final" by simp
        with False show False by (simp add: word_unat_eq_iff)
      qed
      with Suc.IH [of q ?s "Suc j" epoch' ?batch] Suc.prems(1-3,5-7) next_batch l j(2) False
      show ?thesis unfolding seqs ws_def by (simp add: read Inr acc del: upt_Suc)
    next
      case True
      obtain r' d' where mat: "materialize_history_batch lsm (commit w) ?batch (ht_disk s) = (r', d')" by fastforce
      note commit = commit_at [OF Suc.prems(1) next_batch _ _ w Suc.prems(5,6) mat]
      show ?thesis
      proof (cases r')
        case (Inl e)
        with commit Suc.prems(1,2) l True show ?thesis unfolding seqs by (auto simp: read Inr acc mat)
      next
        case (Inr u)
        let ?s = "s\<lparr>ht_disk := d', ht_log := l, ht_published := w\<rparr>"
        have final: "Suc j < length R \<or> w = final"
          using j(1) w Suc.prems(7) by (metis Suc_lessI word_unat_eq_iff)
        have "commit w = Inr ()" using commit Inr by simp
        note mat' = mat [unfolded this]
        from Suc.IH [of w ?s "Suc j" epoch' "[]"] commit Inr Suc.prems(3,5-7) l j(2)
        show ?thesis unfolding seqs ws_def using final True by (simp add: read \<open>r = Inr rec\<close> acc mat' del: upt_Suc)
      qed
    qed
  qed
qed

lemma complete_at: "disk_at R q (complete_binary_history_migration lsm d) \<longleftrightarrow> disk_at R q d
    \<or> unat q \<le> length R \<and> history_inv lc d (history_of R (unat q))
      \<and> history_progress lsm d = Inr (q, epoch_after 0 (take (unat q) R))"
proof -
  let ?d = "complete_binary_history_migration lsm d"
  have "history_progress lsm ?d = history_progress lsm d" "\<exists>n. n \<noteq> 0 \<and> lsm_u64 lsm (lsm_history_meta ?d) HISTORY_LSM_ID_FORMAT = Inr n"
    by (simp_all add: complete_binary_history_migration_def apply_puts_def history_progress_def lsm_u64_def get put
        HISTORY_SEQUENCE_def HISTORY_EPOCH_def HISTORY_LSM_ID_FORMAT_def HISTORY_BINARY_MIGRATION_def ensure_def)
  moreover have "history_inv lc ?d H = history_inv lc d H" for H
    by (simp add: complete_binary_history_migration_def apply_puts_def history_inv_def)
  ultimately show ?thesis by (auto simp: disk_at_def)
qed

lemma log_ok_records:
  "log_ok l \<Longrightarrow> ids_agree (recs l) \<and> (\<forall>op \<in> set (concat (accepted_batches 0 (recs l))). storable op)"
  using log_storable [OF texts] unfolding log_ok_def by blast

lemma turn_inv:
  assumes "tail_inv s" "log_ok (ht_log s)"
  shows "contents (ht_log (history_turn json lapi lsm io s)) = contents (ht_log s) \<and> tail_inv (history_turn json lapi lsm io s)
    \<and> (available json lapi contents \<longrightarrow> (\<forall>w. ti_commit io w = Inr ())
       \<longrightarrow> unat (ht_published (history_turn json lapi lsm io s)) = length (contents (ht_log s)))"
proof -
  let ?R = "recs (ht_log s)" and ?q = "ht_published s"
  have at: "disk_at ?R ?q (ht_disk s)" using assms(1) by (simp add: tail_inv_def)
  then have q: "history_progress lsm (ht_disk s) = Inr (?q, epoch_after 0 (take (unat ?q) ?R))" "unat ?q \<le> length ?R"
    by (simp_all add: disk_at_def)
  show ?thesis
  proof (cases "js_last lapi (ht_log s)")
    case (Inl e)
    have "\<not> available json lapi contents"
    proof
      assume "available json lapi contents"
      then have "is_ok (js_last lapi (ht_log s))" using assms(2) by (simp add: available_def log_ok_def)
      with Inl show False by simp
    qed
    with Inl assms(1) q(1) show ?thesis by (simp add: history_turn_def)
  next
    case (Inr final)
    have final: "unat final = length ?R" using last_sequence [OF Inr] by simp
    show ?thesis
    proof (cases "final > ?q")
      case False
      then have "unat ?q = length ?R" using final q(2) by (simp add: word_less_nat_alt)
      with False Inr assms(1) q(1) show ?thesis by (simp add: history_turn_def)
    next
      case True
      have first: "unat (u64_saturating_add ?q 1) = Suc (unat ?q)"
        using unat_lt [of final] True by (simp add: u64_saturating_add_def unat_word_ariths word_less_nat_alt)
      have batch: "batch_at ?R ?q (unat ?q) (epoch_after 0 (take (unat ?q) ?R)) []"
        using q(2) by (simp add: batch_at_def record_operations_def)
      from loop_inv [OF at refl refl batch _ _ final refl, of "ti_commit io"] log_ok_records [OF assms(2)]
      obtain s' where s': "history_loop json lapi lsm (ti_commit io) final (map word_of_nat [Suc (unat ?q) ..< Suc (length ?R)])
          (epoch_after 0 (take (unat ?q) ?R)) [] s = s'" "contents (ht_log s') = contents (ht_log s)"
        "disk_at ?R (ht_published s') (ht_disk s')"
        "available json lapi contents \<longrightarrow> (\<forall>w. ti_commit io w = Inr ()) \<longrightarrow> unat ?q < length ?R \<or> ?q = final \<longrightarrow> ht_published s' = final"
        by blast
      have eval: "history_turn json lapi lsm io s = (if ht_published s' = final
          then (case ti_migrated io of Inl _ \<Rightarrow> s' | Inr _ \<Rightarrow> s'\<lparr>ht_disk := complete_binary_history_migration lsm (ht_disk s')\<rparr>) else s')"
        unfolding history_turn_def q(1) Inr sum.case prod.case first final s'(1) using True by (simp add: Let_def)
      have less: "unat ?q < length ?R" using True final by (simp add: word_less_nat_alt)
      show ?thesis
        unfolding eval using s'(2-4) less final
        by (auto simp: tail_inv_def complete_at split: sum.split)
    qed
  qed
qed

lemma loop_contents: "contents (ht_log (history_loop json lapi lsm commit final ws epoch batch s)) = contents (ht_log s)"
proof (induction ws arbitrary: epoch batch s)
  case (Cons w ws)
  obtain r l where read: "log_read json lapi w (ht_log s) = (r, l)" by fastforce
  then have l: "contents l = contents (ht_log s)" using read_contents [of json w "ht_log s"] by simp
  show ?case
  proof (cases r)
    case (Inr rec)
    obtain epoch' ops where acc: "history_accept epoch rec = (epoch', ops)" by fastforce
    obtain r' d' where mat: "materialize_history_batch lsm (commit w) (batch @ [(w, epoch', ops)]) (ht_disk s) = (r', d')" by fastforce
    show ?thesis using Cons.IH l by (cases r') (simp_all add: read Inr acc mat Let_def)
  qed (simp add: read l)
qed simp

lemma turn_contents: "contents (ht_log (history_turn json lapi lsm io s)) = contents (ht_log s)"
  using loop_contents by (auto simp: history_turn_def Let_def simp del: upt_Suc split: sum.split prod.split)

lemma log_ok_prefix:
  assumes "log_ok l" "contents l = contents l0 @ ms"
  shows "log_ok l0"
  using assms ids_agree_prefix [of "recs l0" "log_records json ms"] by (auto simp: log_ok_def log_records_append)

lemma start_inv:
  assumes "history_at_start lc lsm s"
  shows "tail_inv s"
proof -
  from assms obtain d commit where d: "history_inv lc d Map.empty" "history_progress lsm d = Inr (0, 0)"
    "history_start lsm commit d (ht_log s) = Inr s" unfolding history_at_start_def by blast
  have empty: "history_of R 0 = Map.empty" for R by (simp add: history_of_def history_add_def)
  obtain r d' where r: "prepare_binary_history_migration lsm commit d = (r, d')" by fastforce
  with d(3) obtain h e where prep: "prepare_binary_history_migration lsm commit d = (Inr (h, e), d')"
    and s: "\<lparr>ht_disk = d', ht_log = ht_log s, ht_published = h\<rparr> = s"
    by (cases r) (auto simp: history_start_def)
  from arg_cong [OF s, of ht_disk] arg_cong [OF s, of ht_published] have parts: "ht_disk s = d'" "ht_published s = h" by simp_all
  have "h = 0 \<and> history_inv lc d' Map.empty \<and> history_progress lsm d' = Inr (0, 0)
      \<and> (\<exists>n. n \<noteq> 0 \<and> lsm_u64 lsm (lsm_history_meta d') HISTORY_LSM_ID_FORMAT = Inr n)"
  proof (cases "lsm_u64 lsm (lsm_history_meta d) HISTORY_LSM_ID_FORMAT = Inr 0")
    case True
    with prep have "h = 0" "d' = apply_puts lsm [PutMeta HISTORY_SEQUENCE 0, PutMeta HISTORY_EPOCH 0,
        PutMeta HISTORY_BINARY_MIGRATION 1, PutMeta HISTORY_LSM_ID_FORMAT 1] d"
      by (auto simp: prepare_binary_history_migration_def split: sum.splits)
    with d(1) show ?thesis
      by (simp add: apply_puts_def history_inv_def history_progress_def lsm_u64_def get put
          HISTORY_SEQUENCE_def HISTORY_EPOCH_def HISTORY_LSM_ID_FORMAT_def HISTORY_BINARY_MIGRATION_def ensure_def)
  next
    case False
    with prep d(1,2) show ?thesis by (auto simp: prepare_binary_history_migration_def split: sum.splits if_splits)
  qed
  with parts show ?thesis by (simp add: tail_inv_def disk_at_def empty)
qed

lemma restart_inv:
  assumes "tail_inv s" "history_start lsm commit (ht_disk s) (ht_log s) = Inr s'"
  shows "tail_inv s' \<and> ht_log s' = ht_log s"
proof -
  from assms(1) obtain n where s: "disk_at (recs (ht_log s)) (ht_published s) (ht_disk s)" "n \<noteq> 0"
    "lsm_u64 lsm (lsm_history_meta (ht_disk s)) HISTORY_LSM_ID_FORMAT = Inr n"
    "history_progress lsm (ht_disk s) = Inr (ht_published s, epoch_after 0 (take (unat (ht_published s)) (recs (ht_log s))))"
    by (auto simp: tail_inv_def disk_at_def)
  then have "s' = \<lparr>ht_disk = ht_disk s, ht_log = ht_log s, ht_published = ht_published s\<rparr>"
    using assms(2) by (simp add: history_start_def prepare_binary_history_migration_def)
  with s(1) show ?thesis by (simp add: tail_inv_def)
qed

lemma grow_inv:
  assumes "tail_inv s" "contents l = contents (ht_log s) @ ms"
  shows "tail_inv (s\<lparr>ht_log := l\<rparr>)"
  using assms by (auto simp: tail_inv_def disk_at_def history_of_def log_records_append)

lemma index_inv_disk:
  "same_history d d' \<Longrightarrow> disk_at R q d \<Longrightarrow> disk_at R q d'"
  by (simp add: same_history_def disk_at_def history_inv_def history_progress_def)

lemma steps_inv:
  assumes "(history_step json lapi contents lsm)\<^sup>*\<^sup>* s0 s" "history_at_start lc lsm s0"
  shows "log_ok (ht_log s) \<Longrightarrow> tail_inv s"
  using assms(1)
proof (induction rule: rtranclp_induct)
  case base
  show ?case by (rule start_inv [OF assms(2)])
next
  case (step s s')
  from step.hyps(2) step.IH step.prems show ?case
  proof (cases rule: history_step.cases)
    case (turn io)
    with step.prems have "log_ok (ht_log s)" using turn_contents [of io s] log_ok_prefix [of "ht_log s'" "ht_log s" "[]"] by simp
    with step.IH turn turn_inv show ?thesis by blast
  next
    case (grow l ms)
    with step.prems have "log_ok (ht_log s)" using log_ok_prefix [of l "ht_log s" ms] by simp
    with step.IH grow grow_inv show ?thesis by blast
  next
    case (index d)
    with step.IH step.prems index_inv_disk show ?thesis by (simp add: tail_inv_def)
  next
    case (restart commit)
    then have "ht_log s' = ht_log s" by (auto simp: history_start_def split: sum.splits prod.splits)
    with step.prems step.IH have "tail_inv s" by simp
    from restart_inv [OF this restart] show ?thesis by blast
  qed
qed

end

lemma history_tail_steps:
  assumes "history_log lsm lc api contents json" "history_at_start lc lsm s0"
    and "(history_step json api contents lsm)\<^sup>*\<^sup>* s0 s" "ids_agree (log_records json (contents (ht_log s)))"
    and "\<forall>(i, p) \<in> set (contents (ht_log s)). length p < 2 ^ 63" "length (contents (ht_log s)) < 2 ^ 64 - 1"
  shows "history_inv lc (ht_disk s) (history_of (log_records json (contents (ht_log s))) (unat (ht_published s)))
    \<and> unat (ht_published s) \<le> length (contents (ht_log s))
    \<and> (available json api contents \<and> (\<forall>w. ti_commit io w = Inr ())
       \<longrightarrow> unat (ht_published (history_turn json api lsm io s)) = length (contents (ht_log s)))"
proof -
  have ok: "history_log.log_ok contents json (ht_log s)"
    unfolding history_log.log_ok_def [OF assms(1)] using assms(4-6) by blast
  from history_log.steps_inv [OF assms(1,3,2) ok] have inv: "history_log.tail_inv lsm lc contents json s" .
  with history_log.turn_inv [OF assms(1) inv ok, of io] show ?thesis
    by (simp add: history_log.tail_inv_def [OF assms(1)] history_log.disk_at_def [OF assms(1)])
qed

text \<open>The history that older releases left in redb is only read.\<close>

lemma puts_redb: "redb_history (apply_puts lsm ps d) = redb_history d"
proof (induction ps arbitrary: d)
  case (Cons p ps)
  have "redb_history (apply_put lsm p d) = redb_history d" by (cases p) simp_all
  with Cons.IH [of "apply_put lsm p d"] show ?case by (simp add: apply_puts_def)
qed (simp add: apply_puts_def)

lemma materialize_redb:
  "materialize_history_batch lsm commit records d = (r, d') \<Longrightarrow> redb_history d' = redb_history d"
  by (auto simp: materialize_history_batch_def Let_def puts_redb split: if_splits sum.splits prod.splits)

lemma loop_redb: "redb_history (ht_disk (history_loop json api lsm commit final ws epoch batch s)) = redb_history (ht_disk s)"
proof (induction ws arbitrary: epoch batch s)
  case (Cons w ws)
  obtain r l where read: "log_read json api w (ht_log s) = (r, l)" by fastforce
  show ?case
  proof (cases r)
    case (Inr rec)
    obtain epoch' ops where acc: "history_accept epoch rec = (epoch', ops)" by fastforce
    obtain r' d' where mat: "materialize_history_batch lsm (commit w) (batch @ [(w, epoch', ops)]) (ht_disk s) = (r', d')" by fastforce
    show ?thesis using Cons.IH materialize_redb [OF mat] by (cases r') (simp_all add: read Inr acc mat Let_def)
  qed (simp add: read)
qed simp

lemma turn_redb: "redb_history (ht_disk (history_turn json api lsm io s)) = redb_history (ht_disk s)"
  using loop_redb by (auto simp: history_turn_def Let_def complete_binary_history_migration_def puts_redb simp del: upt_Suc
      split: sum.split prod.split)

section \<open>The property\<close>

text \<open>
  C15: the history is that of the log.  Whatever reads and commits fail, however often the
  process restarts and however the log grows meanwhile, between two turns of the history
  task the stored history (with both indices) is exactly that of the batches that
  \<open>catch_up\<close> accepts from the records up to \<open>history_checkpoint\<close>.  A turn in which the services
  answer and the commits succeed reaches the end of the log.  No id of the log may come with two
  owners or two SKUs, and a restart finds what was committed.
\<close>
theorem history_follows_log:
  assumes "history_log lsm lc api contents json" "history_at_start lc lsm s0"
    and "(history_step json api contents lsm)\<^sup>*\<^sup>* s0 s" "ids_agree (log_records json (contents (ht_log s)))"
    and "\<forall>(i, p) \<in> set (contents (ht_log s)). length p < 2 ^ 63" "length (contents (ht_log s)) < 2 ^ 64 - 1"
  shows "history_inv lc (ht_disk s) (history_of (log_records json (contents (ht_log s))) (unat (ht_published s)))
    \<and> unat (ht_published s) \<le> length (contents (ht_log s))
    \<and> (available json api contents \<and> (\<forall>w. ti_commit io w = Inr ())
       \<longrightarrow> unat (ht_published (history_turn json api lsm io s)) = length (contents (ht_log s)))"
  by (rule history_tail_steps [OF assms])

section \<open>A run\<close>

interpretation sample_history_log: history_log alist_api alist_of list_log_api fst sample_json
  by unfold_locales (simp add: json_texts_def sample_json_def)

definition sample_tail_start :: "((sorted_alist, sorted_alist) disk, list_log) history_tail" where
  "sample_tail_start = \<lparr>ht_disk = apply_puts alist_api [PutMeta HISTORY_SEQUENCE 0, PutMeta HISTORY_EPOCH 0,
       PutMeta HISTORY_BINARY_MIGRATION 1, PutMeta HISTORY_LSM_ID_FORMAT 1] sample_disk,
     ht_log = sample_stream [sample_fence, sample_record sample_ops], ht_published = 0\<rparr>"

definition sample_tail_io :: tail_io where
  "sample_tail_io = \<lparr>ti_commit = (\<lambda>_. Inr ()), ti_migrated = Inr ()\<rparr>"

definition sample_tailed :: "((sorted_alist, sorted_alist) disk, list_log) history_tail" where
  "sample_tailed = history_turn sample_json list_log_api alist_api sample_tail_io sample_tail_start"

lemma sample_tail_at_start: "history_at_start alist_of alist_api sample_tail_start"
proof -
  have "history_start alist_api (Inr ()) sample_disk (ht_log sample_tail_start) = Inr sample_tail_start"
    by (simp add: history_start_def prepare_binary_history_migration_def lsm_u64_def sample_disk_def alist_eval sample_tail_start_def)
  moreover have "history_progress alist_api sample_disk = Inr (0, 0)"
    by (simp add: history_progress_def lsm_u64_def sample_disk_def alist_eval)
  ultimately show ?thesis using sample_disk_history unfolding history_at_start_def by blast
qed

lemma sample_tail_log:
  assumes "fst (ht_log s) = fst (ht_log sample_tail_start)"
  shows "log_records sample_json (fst (ht_log s)) = [LogFence 1 (ascii ''node-1''), LogOperations 1 sample_ops]"
    and "ids_agree (log_records sample_json (fst (ht_log s)))" "length (fst (ht_log s)) = 2"
    and "\<forall>(i, p) \<in> set (fst (ht_log s)). length p < 2 ^ 63"
proof -
  have log: "fst (ht_log s) = fst (sample_stream [sample_fence, sample_record sample_ops])"
    using assms by (simp add: sample_tail_start_def)
  show R: "log_records sample_json (fst (ht_log s)) = [LogFence 1 (ascii ''node-1''), LogOperations 1 sample_ops]"
    unfolding log by (rule sample_records)
  show "ids_agree (log_records sample_json (fst (ht_log s)))"
    unfolding ids_agree_def R sample_accepted by (simp add: sample_ops_def same_keys_def) (simp add: sample_op_def ascii_def)
  show "length (fst (ht_log s)) = 2" unfolding log by (simp add: sample_stream_def)
  have "length sample_fence < 2 ^ 63" by (simp add: sample_fence_def enc_string_def ascii_def)
  moreover have "length (sample_record sample_ops) < 2 ^ 63"
    using length_enc_operations [OF sample_ops_storable] by (simp add: sample_record_def enc_operations_def) (simp add: sample_ops_def)
  ultimately show "\<forall>(i, p) \<in> set (fst (ht_log s)). length p < 2 ^ 63" unfolding log by (simp add: sample_stream_def)
qed

lemma history_follows_log_witness:
  "unat (ht_published sample_tailed) = 2
   \<and> history_inv alist_of (ht_disk sample_tailed) (history_of [LogFence 1 (ascii ''node-1''), LogOperations 1 sample_ops] 2)"
proof -
  have "unat (ht_published sample_tailed) = 2"
    using history_follows_log [OF sample_history_log.history_log_axioms sample_tail_at_start rtranclp.rtrancl_refl
        sample_tail_log(2) sample_tail_log(4), of sample_tail_io] sample_tail_log(3) [of sample_tail_start]
      list_log_available [of sample_json] by (simp add: sample_tailed_def sample_tail_io_def sample_json_def)
  moreover have log: "fst (ht_log sample_tailed) = fst (ht_log sample_tail_start)"
    unfolding sample_tailed_def by (rule sample_history_log.turn_contents)
  have "(history_step sample_json list_log_api fst alist_api)\<^sup>*\<^sup>* sample_tail_start sample_tailed"
    unfolding sample_tailed_def by (rule r_into_rtranclp, rule history_step.turn)
  from history_follows_log [OF sample_history_log.history_log_axioms sample_tail_at_start this sample_tail_log(2) [OF log]
      sample_tail_log(4) [OF log]] sample_tail_log(1,3) [OF log]
  have "history_inv alist_of (ht_disk sample_tailed)
      (history_of [LogFence 1 (ascii ''node-1''), LogOperations 1 sample_ops] (unat (ht_published sample_tailed)))" by simp
  ultimately show ?thesis by simp
qed

end
