(* ===== verification/WriteHandlers.thy ===== *)
theory WriteHandlers
  imports LiveTail
begin

text \<open>
  The write path of \<open>src/main.rs\<close>: \<open>apply_one\<close> and \<open>apply_batch\<close> with the lease check before
  and after the replication, the publication to the replicated log, the reservation and the
  counters.  Each handler is a function of one request on a node that serves no other
  request at the time; \<open>serde_json\<close> is a parameter (the parsed body or its error text), and
  so are the answers of the writer lease, of the log and of the write-ahead log.
\<close>

section \<open>Answers\<close>

datatype status_code = BAD_REQUEST | NOT_FOUND | CONFLICT | SERVICE_UNAVAILABLE

type_synonym http_error = "status_code \<times> bytes"

text \<open>The handler answers, waits for a notification that is not sent, or the process aborts.\<close>

datatype 'a outcome = Answer "http_error + 'a" | Waiting | Aborted

definition bad_request :: "bytes \<Rightarrow> http_error" where
  "bad_request message = (BAD_REQUEST, message)"

definition conflict_message :: "bytes \<Rightarrow> bytes" where
  "conflict_message i = ascii ''conflicting operation_id: '' @ i"

definition internal :: "error \<Rightarrow> http_error" where
  "internal e =
     (case e of
        ConflictError i \<Rightarrow> (CONFLICT, conflict_message i)
      | _ \<Rightarrow> (SERVICE_UNAVAILABLE, ascii ''durable storage unavailable''))"

definition validate_request :: "operation \<Rightarrow> http_error + unit" where
  "validate_request op = map_err (\<lambda>reason. bad_request (ascii reason)) (validate op)"

section \<open>Counters\<close>

record metrics =
  m_applied :: u64
  m_duplicates :: u64
  m_conflicts :: u64
  m_unavailable :: u64
  m_batch_requests :: u64
  m_pipeline_operations :: u64

definition metrics_default :: metrics where
  "metrics_default = \<lparr>m_applied = 0, m_duplicates = 0, m_conflicts = 0, m_unavailable = 0,
     m_batch_requests = 0, m_pipeline_operations = 0\<rparr>"

definition record_results :: "apply_result list \<Rightarrow> metrics \<Rightarrow> metrics" where
  "record_results results m = fold (\<lambda>r m.
     case res_status r of
       Applied \<Rightarrow> m\<lparr>m_applied := m_applied m + 1\<rparr>
     | Duplicate \<Rightarrow> m\<lparr>m_duplicates := m_duplicates m + 1\<rparr>) results m"

definition record_error :: "http_error \<Rightarrow> metrics \<Rightarrow> metrics" where
  "record_error e m =
     (let m = (if fst e = CONFLICT then m\<lparr>m_conflicts := m_conflicts m + 1\<rparr> else m)
      in if fst e = SERVICE_UNAVAILABLE then m\<lparr>m_unavailable := m_unavailable m + 1\<rparr> else m)"

section \<open>The node and the surroundings of a request\<close>

record ('d, 'l) node =
  nd_store :: "'d live_store"
  nd_log :: "'l option"
  nd_metrics :: metrics

text \<open>
  \<open>rq_before\<close> and \<open>rq_after\<close>: the answer of \<open>valid_epoch_for\<close> at the two checks, or \<open>None\<close>
  on a node without lease; \<open>rq_late\<close>: the acknowledgement took longer than two seconds;
  \<open>rq_fail_id\<close>: the configured failpoint.
\<close>

record request_env =
  rq_before :: "u64 option option"
  rq_after :: "u64 option option"
  rq_late :: bool
  rq_wal :: "operation list \<Rightarrow> unit result"
  rq_up :: "nat \<Rightarrow> bool"
  rq_request :: nat
  rq_fail_id :: "bytes option"

definition ensure_writer :: "u64 option option \<Rightarrow> http_error + u64" where
  "ensure_writer lease =
     (case lease of
        Some (Some epoch) \<Rightarrow> Inr epoch
      | Some None \<Rightarrow> Inl (SERVICE_UNAVAILABLE, ascii ''node does not own the writer lease'')
      | None \<Rightarrow> Inr 0)"

definition replicate_ops ::
  "(bytes \<Rightarrow> bytes) \<Rightarrow> 'l log_api \<Rightarrow> bool \<Rightarrow> u64 \<Rightarrow> operation list \<Rightarrow> 'l option
     \<Rightarrow> (http_error + u64 option) \<times> 'l option" where
  "replicate_ops sha api late epoch ops log =
     (case log of
        None \<Rightarrow> (Inr None, None)
      | Some l \<Rightarrow>
          (let (r, l') = log_append sha api epoch ops l in
           if late then (Inl (internal (Msg ''replicated quorum acknowledgement timed out'')), Some l')
           else (map_err internal (rbind r (\<lambda>q. Inr (Some q))), Some l')))"

text \<open>The replication of new operations and the second look at the lease.\<close>

definition replicate_checked ::
  "(bytes \<Rightarrow> bytes) \<Rightarrow> 'l log_api \<Rightarrow> request_env \<Rightarrow> u64 \<Rightarrow> operation list \<Rightarrow> 'l option
     \<Rightarrow> (http_error + unit) \<times> 'l option" where
  "replicate_checked sha api env epoch durable log =
     (let (r, log') = replicate_ops sha api (rq_late env) epoch durable log in
      (rbind r (\<lambda>_.
         if ensure_writer (rq_after env) \<noteq> Inr epoch
         then Inl (internal (Msg ''writer epoch changed during commit'')) else Inr ()), log'))"

text \<open>The application of a preflighted batch and the release of its reservations.\<close>

definition apply_and_finish ::
  "(bytes \<Rightarrow> bytes) \<Rightarrow> (bytes \<Rightarrow> bytes \<Rightarrow> u64) \<Rightarrow> request_env \<Rightarrow> operation list \<Rightarrow> bool list
     \<Rightarrow> ('d, 'l) node \<Rightarrow> apply_result list outcome \<times> ('d, 'l) node" where
  "apply_and_finish sha hash env ops new nd =
     (let s = nd_store nd;
          (shards', r) = apply_preflight_batch hash (rq_up env) (rq_wal env (fresh_ops ops new))
             (st_published s) ops new (st_shards s);
          s' = s\<lparr>st_shards := shards'\<rparr>
      in case r of
           Inr results \<Rightarrow> (Answer (Inr results),
             nd\<lparr>nd_store := finish_store sha ops new True s', nd_metrics := record_results results (nd_metrics nd)\<rparr>)
         | Inl e \<Rightarrow> (Answer (Inl (internal e)),
             nd\<lparr>nd_store := finish_store sha ops new False s', nd_metrics := record_error (internal e) (nd_metrics nd)\<rparr>))"

definition refuse :: "http_error \<Rightarrow> ('d, 'l) node \<Rightarrow> 'a outcome \<times> ('d, 'l) node" where
  "refuse e nd = (Answer (Inl e), nd\<lparr>nd_metrics := record_error e (nd_metrics nd)\<rparr>)"

section \<open>POST /v1/operations/batch\<close>

definition commit_batch ::
  "(bytes \<Rightarrow> bytes) \<Rightarrow> (bytes \<Rightarrow> bytes \<Rightarrow> u64) \<Rightarrow> 'l log_api \<Rightarrow> request_env \<Rightarrow> u64 \<Rightarrow> operation list \<Rightarrow> bool list
     \<Rightarrow> ('d, 'l) node \<Rightarrow> apply_result list outcome \<times> ('d, 'l) node" where
  "commit_batch sha hash api env epoch ops new nd =
     (let durable = fresh_ops ops new in
      if durable \<noteq> [] then
        (let (r, log') = replicate_checked sha api env epoch durable (nd_log nd);
             nd = nd\<lparr>nd_log := log'\<rparr>
         in case r of
              Inl e \<Rightarrow> refuse e (nd\<lparr>nd_store := finish_store sha ops new False (nd_store nd)\<rparr>)
            | Inr _ \<Rightarrow> apply_and_finish sha hash env ops new nd)
      else apply_and_finish sha hash env ops new nd)"

definition apply_batch ::
  "(bytes \<Rightarrow> bytes) \<Rightarrow> (bytes \<Rightarrow> bytes \<Rightarrow> u64) \<Rightarrow> 'd index_api \<Rightarrow> 'l log_api \<Rightarrow> request_env
     \<Rightarrow> bytes + operation list \<Rightarrow> ('d, 'l) node \<Rightarrow> apply_result list outcome \<times> ('d, 'l) node" where
  "apply_batch sha hash dapi api env body nd =
     (case body of
        Inl error \<Rightarrow> (Answer (Inl (bad_request (ascii ''invalid JSON batch: '' @ error))), nd)
      | Inr ops \<Rightarrow>
          (let m = nd_metrics nd;
               nd = nd\<lparr>nd_metrics := m\<lparr>m_batch_requests := m_batch_requests m + 1,
                 m_pipeline_operations := m_pipeline_operations m + word_of_nat (length ops)\<rparr>\<rparr>
           in case ensure_writer (rq_before env) of
                Inl e \<Rightarrow> refuse e nd
              | Inr epoch \<Rightarrow>
                  if ops = [] \<or> length ops > 10000
                  then (Answer (Inl (bad_request (ascii ''batch must contain 1..=10000 operations''))), nd)
                  else (case for_each (\<lambda>op _. validate_request op) ops () of
                    Inl e \<Rightarrow> (Answer (Inl e), nd)
                  | Inr _ \<Rightarrow>
                      (let s = nd_store nd in
                       case preflight_batch sha (ix_get_many dapi (st_disk s)) (rq_request env) ops (st_memory s) of
                         (mem, Blocked n) \<Rightarrow> (Waiting, nd\<lparr>nd_store := s\<lparr>st_memory := mem\<rparr>\<rparr>)
                       | (mem, Rejected e) \<Rightarrow> refuse (internal e) (nd\<lparr>nd_store := s\<lparr>st_memory := mem\<rparr>\<rparr>)
                       | (mem, Ready new) \<Rightarrow>
                           commit_batch sha hash api env epoch ops new (nd\<lparr>nd_store := s\<lparr>st_memory := mem\<rparr>\<rparr>)))))"

section \<open>POST /v1/operations\<close>

definition failpoint :: "request_env \<Rightarrow> bytes \<Rightarrow> bool" where
  "failpoint env i \<longleftrightarrow> rq_fail_id env = Some i"

definition commit_one ::
  "(bytes \<Rightarrow> bytes) \<Rightarrow> (bytes \<Rightarrow> bytes \<Rightarrow> u64) \<Rightarrow> 'l log_api \<Rightarrow> request_env \<Rightarrow> u64 \<Rightarrow> operation \<Rightarrow> bool list
     \<Rightarrow> ('d, 'l) node \<Rightarrow> apply_result list outcome \<times> ('d, 'l) node" where
  "commit_one sha hash api env epoch op new nd =
     (if new ! 0 then
        (let (r, log') = replicate_checked sha api env epoch [op] (nd_log nd);
             nd = nd\<lparr>nd_log := log'\<rparr>
         in case r of
              Inl e \<Rightarrow> refuse e (nd\<lparr>nd_store := finish_store sha [op] new False (nd_store nd)\<rparr>)
            | Inr _ \<Rightarrow>
                if failpoint env (operation_id op) then (Aborted, nd)
                else apply_and_finish sha hash env [op] new nd)
      else apply_and_finish sha hash env [op] new nd)"

definition first_result :: "apply_result list outcome \<Rightarrow> apply_result outcome" where
  "first_result out =
     (case out of
        Answer (Inr results) \<Rightarrow> Answer (Inr (results ! 0))
      | Answer (Inl e) \<Rightarrow> Answer (Inl e)
      | Waiting \<Rightarrow> Waiting
      | Aborted \<Rightarrow> Aborted)"

definition apply_one ::
  "(bytes \<Rightarrow> bytes) \<Rightarrow> (bytes \<Rightarrow> bytes \<Rightarrow> u64) \<Rightarrow> 'd index_api \<Rightarrow> 'l log_api \<Rightarrow> request_env
     \<Rightarrow> operation \<Rightarrow> ('d, 'l) node \<Rightarrow> apply_result outcome \<times> ('d, 'l) node" where
  "apply_one sha hash dapi api env op nd =
     (case ensure_writer (rq_before env) of
        Inl e \<Rightarrow> refuse e nd
      | Inr epoch \<Rightarrow>
          (case validate_request op of
             Inl e \<Rightarrow> (Answer (Inl e), nd)
           | Inr _ \<Rightarrow>
               (let s = nd_store nd in
                case preflight_batch sha (ix_get_many dapi (st_disk s)) (rq_request env) [op] (st_memory s) of
                  (mem, Blocked n) \<Rightarrow> (Waiting, nd\<lparr>nd_store := s\<lparr>st_memory := mem\<rparr>\<rparr>)
                | (mem, Rejected e) \<Rightarrow> refuse (internal e) (nd\<lparr>nd_store := s\<lparr>st_memory := mem\<rparr>\<rparr>)
                | (mem, Ready new) \<Rightarrow>
                    (let (out, nd') = commit_one sha hash api env epoch op new (nd\<lparr>nd_store := s\<lparr>st_memory := mem\<rparr>\<rparr>)
                     in (first_result out, nd')))))"

section \<open>The specification\<close>

text \<open>The checks before a batch touches the store.\<close>

definition admitted :: "request_env \<Rightarrow> u64 \<Rightarrow> operation list \<Rightarrow> bool" where
  "admitted env epoch ops \<longleftrightarrow> ensure_writer (rq_before env) = Inr epoch
     \<and> 1 \<le> length ops \<and> length ops \<le> 10000 \<and> list_all (\<lambda>op. validate op = Inr ()) ops"

lemma validate_requests: "list_all (\<lambda>op. validate op = Inr ()) ops \<Longrightarrow> for_each (\<lambda>op _. validate_request op) ops () = Inr ()"
  by (induction ops) (simp_all add: validate_request_def)

text \<open>
  The answers to the operations of an accepted batch, in the order of the request: an operation
  that is new is applied, with the balance after it and the new operations before it; any other
  is a duplicate, with the published balance before the batch.
\<close>

definition batch_results ::
  "(bytes \<Rightarrow> bytes) \<Rightarrow> replay_state \<Rightarrow> balances \<Rightarrow> operation list \<Rightarrow> apply_result list" where
  "batch_results sha st published ops =
     map (\<lambda>i. if first_use sha (fst st) ops i
          then \<lparr>res_operation_id = operation_id (ops ! i), res_status = Applied,
             res_balance = balance_at (snd st) (key_of (ops ! i))
               + sum_list (map (\<lambda>j. delta (ops ! j))
                   (filter (\<lambda>j. first_use sha (fst st) ops j \<and> key_of (ops ! j) = key_of (ops ! i)) [0..<Suc i]))\<rparr>
          else \<lparr>res_operation_id = operation_id (ops ! i), res_status = Duplicate,
             res_balance = balance_at published (key_of (ops ! i))\<rparr>) [0..<length ops]"

text \<open>
  What must happen to an admitted batch: \<open>replication\<close> is the outcome of the replication of
  its new operations and the log after it.  The state is what is accepted, the balances of the
  shards and the published balances.
\<close>

type_synonym served_state = "replay_state \<times> balances"

definition served_abs :: "(bytes \<Rightarrow> bytes \<Rightarrow> u64) \<Rightarrow> ('d \<Rightarrow> bytes \<Rightarrow> bytes option) \<Rightarrow> 'd live_store \<Rightarrow> served_state" where
  "served_abs hash lookup s = (live_abs hash lookup s, st_published s)"

definition write_spec ::
  "(bytes \<Rightarrow> bytes) \<Rightarrow> request_env \<Rightarrow> operation list \<Rightarrow> (http_error + unit) \<times> 'l option \<Rightarrow> 'l option
     \<Rightarrow> served_state \<Rightarrow> http_error + apply_result list \<Rightarrow> 'l option \<Rightarrow> served_state \<Rightarrow> bool" where
  "write_spec sha env ops replication log before out log' after \<longleftrightarrow>
     (let (st, published) = before; (st', published') = after in
      case replay_batch sha ops st of
        None \<Rightarrow> (\<exists>op \<in> set ops. contradicts sha (fst st) ops op
              \<and> out = Inl (CONFLICT, conflict_message (operation_id op))) \<and> log' = log \<and> after = before
      | Some replayed \<Rightarrow>
          log' = snd replication
          \<and> (case fst replication of
               Inl e \<Rightarrow> out = Inl e \<and> after = before
             | Inr _ \<Rightarrow>
                 (case rq_wal env (fresh_of sha (fst st) ops) of
                    Inl e \<Rightarrow> out = Inl (internal e) \<and> after = before
                  | Inr _ \<Rightarrow> out = Inr (batch_results sha st published ops) \<and> st' = replayed
                      \<and> (\<forall>k. balance_at published' k
                           = balance_at published k + total_delta (fresh_of sha (fst st) ops) k))))"

lemma write_spec_None:
  "replay_batch sha ops (fst before) = None \<Longrightarrow> write_spec sha env ops replication log before out log' after \<longleftrightarrow>
     (\<exists>op \<in> set ops. contradicts sha (fst (fst before)) ops op
        \<and> out = Inl (CONFLICT, conflict_message (operation_id op))) \<and> log' = log \<and> after = before"
  by (simp add: write_spec_def case_prod_beta)

lemma write_spec_Some:
  "replay_batch sha ops (fst before) = Some replayed \<Longrightarrow> write_spec sha env ops replication log before out log' after \<longleftrightarrow>
     log' = snd replication
     \<and> (case fst replication of
          Inl e \<Rightarrow> out = Inl e \<and> after = before
        | Inr _ \<Rightarrow>
            (case rq_wal env (fresh_of sha (fst (fst before)) ops) of
               Inl e \<Rightarrow> out = Inl (internal e) \<and> after = before
             | Inr _ \<Rightarrow> out = Inr (batch_results sha (fst before) (snd before) ops) \<and> fst after = replayed
                 \<and> (\<forall>k. balance_at (snd after) k
                      = balance_at (snd before) k + total_delta (fresh_of sha (fst (fst before)) ops) k)))"
  by (simp add: write_spec_def case_prod_beta)

lemma write_spec_Inr:
  assumes "write_spec sha env ops replication log before (Inr results) log' after"
  shows "fst replication = Inr ()" "log' = snd replication" "results = batch_results sha (fst before) (snd before) ops"
    "replay_batch sha ops (fst before) = Some (fst after)"
proof -
  obtain replayed where r: "replay_batch sha ops (fst before) = Some replayed"
    using assms by (cases "replay_batch sha ops (fst before)") (auto simp: write_spec_None)
  from assms [unfolded write_spec_Some [OF r]] r
  show "fst replication = Inr ()" "log' = snd replication" "results = batch_results sha (fst before) (snd before) ops"
    "replay_batch sha ops (fst before) = Some (fst after)"
    by (auto split: sum.splits)
qed

lemma write_spec_Inl:
  assumes "write_spec sha env ops replication log before (Inl e) log' after"
  shows "after = before"
proof (cases "replay_batch sha ops (fst before)")
  case None
  from assms [unfolded write_spec_None [OF None]] show ?thesis by simp
next
  case (Some replayed)
  from assms [unfolded write_spec_Some [OF Some]] show ?thesis by (auto split: sum.splits)
qed

definition replication_of ::
  "(bytes \<Rightarrow> bytes) \<Rightarrow> 'l log_api \<Rightarrow> request_env \<Rightarrow> u64 \<Rightarrow> operation list \<Rightarrow> 'l option \<Rightarrow> (http_error + unit) \<times> 'l option" where
  "replication_of sha api env epoch fresh_operations log =
     (if fresh_operations = [] then (Inr (), log) else replicate_checked sha api env epoch fresh_operations log)"

section \<open>What a request may change\<close>

lemma fresh_ops_nth:
  assumes "length new = length ops" "n \<le> length ops"
  shows "fresh_ops (take n ops) (take n new) = map (\<lambda>j. ops ! j) (filter (\<lambda>j. new ! j) [0..<n])"
proof -
  have "zip (take n ops) (take n new) = map (\<lambda>j. (ops ! j, new ! j)) [0..<n]"
    using assms by (intro nth_equalityI) simp_all
  then show ?thesis by (simp add: fresh_ops_def filter_map comp_def)
qed

lemma total_delta_nth:
  "total_delta (map (\<lambda>j. ops ! j) (filter P js)) k
     = sum_list (map (\<lambda>j. delta (ops ! j)) (filter (\<lambda>j. P j \<and> key_of (ops ! j) = k) js))"
  by (induction js) simp_all

text \<open>The answers of the code are those of the specification.\<close>

lemma results_specified:
  assumes "new = fresh_flags sha (fst st) ops"
  shows "map (\<lambda>i. if new ! i then applied_result (snd st) ops new i else duplicate_result published (ops ! i)) [0..<length ops]
     = batch_results sha st published ops"
proof -
  have len: "length new = length ops" and nth: "\<And>j. j < length ops \<Longrightarrow> new ! j = first_use sha (fst st) ops j"
    by (simp_all add: assms fresh_flags_def)
  have "applied_result (snd st) ops new i = \<lparr>res_operation_id = operation_id (ops ! i), res_status = Applied,
             res_balance = balance_at (snd st) (key_of (ops ! i))
               + sum_list (map (\<lambda>j. delta (ops ! j))
                   (filter (\<lambda>j. first_use sha (fst st) ops j \<and> key_of (ops ! j) = key_of (ops ! i)) [0..<Suc i]))\<rparr>"
    if i: "i < length ops" for i
  proof -
    have "filter (\<lambda>j. new ! j \<and> key_of (ops ! j) = k) [0..<Suc i]
        = filter (\<lambda>j. first_use sha (fst st) ops j \<and> key_of (ops ! j) = k) [0..<Suc i]" for k
      using i nth by (intro filter_cong) auto
    then show ?thesis
      using fresh_ops_nth [OF len, of "Suc i"] i by (simp only: applied_result_def total_delta_nth Suc_leI)
  qed
  then show ?thesis
    unfolding batch_results_def using nth by (intro map_cong) (simp_all add: duplicate_result_def)
qed

context dedup_index
begin

lemma apply_and_finish_ok:
  assumes ok: "live_ok hash lookup good s" and new: "fresh_ops ops new = nops" "length new = length ops"
    and flags: "new = fresh_flags sha (fst (live_abs hash lookup s)) ops"
    and nops: "nops = fresh_of sha (fst (live_abs hash lookup s)) ops"
    and inj: "inj_on sha (operation_id ` set ops)" and res: "reserved_for sha rid nops (st_memory s) m"
    and len: "\<And>x. length (sha x) = 32" and cons: "batch_consistent sha (fst (live_abs hash lookup s)) ops"
    and up: "\<And>i. rq_up env i" and nd: "nd_store nd = s\<lparr>st_memory := m\<rparr>"
  shows "\<exists>out nd'. apply_and_finish sha hash env ops new nd = (Answer out, nd') \<and> nd_log nd' = nd_log nd
    \<and> live_ok hash lookup good (nd_store nd')
    \<and> (case rq_wal env nops of
         Inl e \<Rightarrow> out = Inl (internal e) \<and> served_abs hash lookup (nd_store nd') = served_abs hash lookup s
       | Inr _ \<Rightarrow> out = Inr (batch_results sha (live_abs hash lookup s) (st_published s) ops)
           \<and> (\<forall>k. balance_at (st_published (nd_store nd')) k = balance_at (st_published s) k + total_delta nops k)
           \<and> replay_batch sha ops (live_abs hash lookup s) = Some (live_abs hash lookup (nd_store nd')))"
proof (cases "rq_wal env nops")
  case (Inl e)
  have "apply_preflight_batch hash (rq_up env) (Inl e) p ops new shards = (shards, Inl e)" for p shards
    by (simp add: apply_preflight_batch_def apply_batched_def Let_def)
  with Inl new(1) nd finish_releases [OF ok new(1) nops inj res] show ?thesis
    by (simp add: apply_and_finish_def served_abs_def Let_def)
next
  case (Inr u)
  have shards: "shards_ok hash (st_shards s)" using ok by (simp add: live_ok_def)
  from apply_preflight_merged [OF shards _ new(2), where up = "rq_up env" and published = "st_published s"] up
  obtain shards' where a: "apply_preflight_batch hash (rq_up env) (Inr ()) (st_published s) ops new (st_shards s)
      = (shards', Inr (map (\<lambda>i. if new ! i then applied_result (merged hash (st_shards s)) ops new i
            else duplicate_result (st_published s) (ops ! i)) [0..<length ops]))"
    "shards_ok hash shards'" "merged hash shards' = fst (apply_in_order (fresh_ops ops new) (merged hash (st_shards s)))"
    by auto
  from finish_commits [OF ok new(1) nops inj res len cons a(2) a(3) [unfolded new(1)]]
  have "live_ok hash lookup good (finish_store sha ops new True (s\<lparr>st_memory := m, st_shards := shards'\<rparr>))"
    "replay_batch sha ops (live_abs hash lookup s)
      = Some (live_abs hash lookup (finish_store sha ops new True (s\<lparr>st_memory := m, st_shards := shards'\<rparr>)))"
    "\<forall>k. balance_at (st_published (finish_store sha ops new True (s\<lparr>st_memory := m, st_shards := shards'\<rparr>))) k
       = balance_at (st_published s) k + total_delta nops k" by simp_all
  moreover have "snd (live_abs hash lookup s) = merged hash (st_shards s)" by (simp add: live_abs_def)
  note results = results_specified [OF flags, of "st_published s", unfolded this]
  ultimately show ?thesis
    using Inr new(1) nd a(1) [unfolded results] by (simp add: apply_and_finish_def Let_def)
qed

lemma commit_batch_ok:
  assumes ok: "live_ok hash lookup good s" and new: "fresh_ops ops new = nops" "length new = length ops"
    and flags: "new = fresh_flags sha (fst (live_abs hash lookup s)) ops"
    and nops: "nops = fresh_of sha (fst (live_abs hash lookup s)) ops"
    and inj: "inj_on sha (operation_id ` set ops)" and res: "reserved_for sha rid nops (st_memory s) m"
    and len: "\<And>x. length (sha x) = 32" and cons: "batch_consistent sha (fst (live_abs hash lookup s)) ops"
    and up: "\<And>i. rq_up env i" and nd: "nd_store nd = s\<lparr>st_memory := m\<rparr>"
  shows "\<exists>out nd'. commit_batch sha hash lapi env epoch ops new nd = (Answer out, nd')
    \<and> live_ok hash lookup good (nd_store nd')
    \<and> write_spec sha env ops (replication_of sha lapi env epoch nops (nd_log nd)) (nd_log nd)
        (served_abs hash lookup s) out (nd_log nd') (served_abs hash lookup (nd_store nd'))"
proof -
  obtain L B where st: "live_abs hash lookup s = (L, B)" by fastforce
  obtain replayed where replayed: "replay_batch sha ops (live_abs hash lookup s) = Some replayed"
    using cons by (simp add: st replay_batch_def)
  then have spec: "replay_batch sha ops (fst (served_abs hash lookup s)) = Some replayed" by (simp add: served_abs_def)
  note finish = apply_and_finish_ok [OF ok new flags nops inj res len cons up]
  have done_case: ?thesis
    if start: "commit_batch sha hash lapi env epoch ops new nd = apply_and_finish sha hash env ops new nd1"
      "nd_store nd1 = nd_store nd" "replication_of sha lapi env epoch nops (nd_log nd) = (Inr (), nd_log nd1)" for nd1
  proof -
    have "nd_store nd1 = s\<lparr>st_memory := m\<rparr>" using start(2) nd by simp
    from finish [OF this] obtain out nd' where f: "apply_and_finish sha hash env ops new nd1 = (Answer out, nd')"
      "nd_log nd' = nd_log nd1" "live_ok hash lookup good (nd_store nd')" "case rq_wal env nops of
         Inl e \<Rightarrow> out = Inl (internal e) \<and> served_abs hash lookup (nd_store nd') = served_abs hash lookup s
       | Inr _ \<Rightarrow> out = Inr (batch_results sha (live_abs hash lookup s) (st_published s) ops)
           \<and> (\<forall>k. balance_at (st_published (nd_store nd')) k = balance_at (st_published s) k + total_delta nops k)
           \<and> replay_batch sha ops (live_abs hash lookup s) = Some (live_abs hash lookup (nd_store nd'))" by blast
    have "write_spec sha env ops (replication_of sha lapi env epoch nops (nd_log nd)) (nd_log nd)
        (served_abs hash lookup s) out (nd_log nd') (served_abs hash lookup (nd_store nd'))"
      unfolding write_spec_Some [OF spec] start(3) using f(2,4)
      by (cases "rq_wal env nops") (simp_all add: served_abs_def nops [symmetric] replayed)
    with start(1) f(1,3) show ?thesis by auto
  qed
  show ?thesis
  proof (cases "nops = []")
    case True
    show ?thesis by (rule done_case [of nd]) (simp_all add: commit_batch_def new True replication_of_def)
  next
    case False
    obtain r log' where rep: "replicate_checked sha lapi env epoch nops (nd_log nd) = (r, log')" by fastforce
    show ?thesis
    proof (cases r)
      case (Inr u)
      show ?thesis
        by (rule done_case [of "nd\<lparr>nd_log := log'\<rparr>"])
          (simp_all add: commit_batch_def new False rep Inr replication_of_def Let_def)
    next
      case (Inl e)
      let ?s = "finish_store sha ops new False (s\<lparr>st_memory := m\<rparr>)"
      have "commit_batch sha hash lapi env epoch ops new nd = refuse e (nd\<lparr>nd_log := log', nd_store := ?s\<rparr>)"
        using False by (simp add: commit_batch_def new rep Inl nd Let_def)
      moreover from finish_releases [OF ok new(1) nops inj res]
      have "live_ok hash lookup good ?s" "served_abs hash lookup ?s = served_abs hash lookup s" by (simp_all add: served_abs_def)
      ultimately show ?thesis
        using False unfolding write_spec_Some [OF spec] by (simp add: refuse_def replication_of_def rep Inl)
    qed
  qed
qed

lemma apply_batch_ok:
  assumes ok: "live_ok hash lookup good (nd_store nd)" and adm: "admitted env epoch ops"
    and inj: "inj_on sha (operation_id ` set ops)" and len: "\<And>x. length (sha x) = 32" and up: "\<And>i. rq_up env i"
  defines "st \<equiv> live_abs hash lookup (nd_store nd)"
  shows "\<exists>out nd'. apply_batch sha hash api lapi env (Inr ops) nd = (Answer out, nd')
    \<and> live_ok hash lookup good (nd_store nd')
    \<and> write_spec sha env ops (replication_of sha lapi env epoch (fresh_of sha (fst st) ops) (nd_log nd)) (nd_log nd)
        (served_abs hash lookup (nd_store nd)) out (nd_log nd') (served_abs hash lookup (nd_store nd'))"
proof -
  let ?s = "nd_store nd" and ?m = "nd_metrics nd"
  let ?nd = "nd\<lparr>nd_metrics := ?m\<lparr>m_batch_requests := m_batch_requests ?m + 1,
    m_pipeline_operations := m_pipeline_operations ?m + word_of_nat (length ops)\<rparr>\<rparr>"
  have facts: "mem_ok (st_memory ?s)" "no_pending (st_memory ?s)" "good (st_disk ?s)"
    using ok unfolding live_ok_def by blast+
  have start: "apply_batch sha hash api lapi env (Inr ops) nd =
      (case preflight_batch sha (ix_get_many api (st_disk ?s)) (rq_request env) ops (st_memory ?s) of
         (mem, Blocked n) \<Rightarrow> (Waiting, ?nd\<lparr>nd_store := ?s\<lparr>st_memory := mem\<rparr>\<rparr>)
       | (mem, Rejected e) \<Rightarrow> refuse (internal e) (?nd\<lparr>nd_store := ?s\<lparr>st_memory := mem\<rparr>\<rparr>)
       | (mem, Ready new) \<Rightarrow> commit_batch sha hash lapi env epoch ops new (?nd\<lparr>nd_store := ?s\<lparr>st_memory := mem\<rparr>\<rparr>))"
    using adm validate_requests [of ops] by (auto simp: admitted_def apply_batch_def Let_def)
  show ?thesis
  proof (cases "batch_consistent sha (fst st) ops")
    case False
    with preflight_alone [OF facts(1,2) inj get_many [OF facts(3)], of "rq_request env"] obtain m op where p:
      "preflight_batch sha (ix_get_many api (st_disk ?s)) (rq_request env) ops (st_memory ?s)
        = (m, Rejected (ConflictError (operation_id op)))"
      "mem_ok m" "mem_at m = mem_at (st_memory ?s)" "op \<in> set ops" "contradicts sha (fst st) ops op"
      by (auto simp: st_def live_abs_def)
    have none: "replay_batch sha ops (fst (served_abs hash lookup ?s)) = None"
      using False by (simp add: replay_batch_def served_abs_def st_def case_prod_beta)
    show ?thesis
      using live_ok_mem [OF ok p(2,3)] p(4,5) unfolding write_spec_None [OF none]
      by (auto simp: start p(1) refuse_def internal_def served_abs_def st_def)
  next
    case True
    with preflight_alone [OF facts(1,2) inj get_many [OF facts(3)], of "rq_request env"] obtain m new where p:
      "preflight_batch sha (ix_get_many api (st_disk ?s)) (rq_request env) ops (st_memory ?s) = (m, Ready new)"
      "length new = length ops" "new = fresh_flags sha (fst st) ops" "fresh_ops ops new = fresh_of sha (fst st) ops"
      "reserved_for sha (rq_request env) (fresh_of sha (fst st) ops) (st_memory ?s) m" by (auto simp: st_def live_abs_def)
    from commit_batch_ok [OF ok p(4,2) p(3) [unfolded st_def] _ inj p(5) len, of env "?nd\<lparr>nd_store := ?s\<lparr>st_memory := m\<rparr>\<rparr>" lapi epoch] True up
    show ?thesis by (simp add: start p(1) st_def)
  qed
qed

end

section \<open>The single write\<close>

lemma commit_one_batch:
  assumes "length new = 1" "\<not> failpoint env (operation_id op)"
  shows "commit_one sha hash api env epoch op new nd = commit_batch sha hash api env epoch [op] new nd"
proof -
  from assms(1) obtain b where b: "new = [b]" by (auto simp: length_Suc_conv)
  then have "fresh_ops [op] new = (if b then [op] else [])" by (simp add: fresh_ops_def)
  with b assms(2) show ?thesis by (simp add: commit_one_def commit_batch_def Let_def split: prod.split sum.split)
qed

lemma commit_batch_metrics:
  assumes "commit_batch sha hash api env epoch ops new nd = (out, nd1)"
  shows "\<exists>nd2. commit_batch sha hash api env epoch ops new (nd\<lparr>nd_metrics := m\<rparr>) = (out, nd2)
    \<and> nd_store nd2 = nd_store nd1 \<and> nd_log nd2 = nd_log nd1"
  using assms
  by (auto simp: commit_batch_def apply_and_finish_def refuse_def Let_def split: prod.splits sum.splits if_splits)

lemma commit_one_effect:
  assumes "length new = 1" "\<not> failpoint env (operation_id op)"
    and "commit_one sha hash api env epoch op new (nd\<lparr>nd_store := s\<rparr>) = (out, nd1)"
    and "commit_batch sha hash api env epoch [op] new (nd\<lparr>nd_metrics := m, nd_store := s\<rparr>) = (out', nd2)"
  shows "out = out' \<and> nd_store nd1 = nd_store nd2 \<and> nd_log nd1 = nd_log nd2"
proof -
  have swap: "nd\<lparr>nd_metrics := m, nd_store := s\<rparr> = (nd\<lparr>nd_store := s\<rparr>)\<lparr>nd_metrics := m\<rparr>" by (cases nd) simp
  from assms(3) have "commit_batch sha hash api env epoch [op] new (nd\<lparr>nd_store := s\<rparr>) = (out, nd1)"
    by (simp only: commit_one_batch [OF assms(1,2)])
  from commit_batch_metrics [OF this, of m] assms(4) [unfolded swap] show ?thesis by auto
qed

text \<open>A request that fails a check leaves the store and the log alone.\<close>

lemma validate_requests_iff: "for_each (\<lambda>op _. validate_request op) ops () = Inr u \<longleftrightarrow> list_all (\<lambda>op. validate op = Inr ()) ops"
  by (induction ops) (auto simp: rbind_Inr_iff validate_request_def map_err_Inr_iff)

lemma refused_batch:
  assumes "\<nexists>epoch. admitted env epoch ops"
  shows "\<exists>e nd'. apply_batch sha hash dapi api env (Inr ops) nd = (Answer (Inl e), nd')
    \<and> nd_store nd' = nd_store nd \<and> nd_log nd' = nd_log nd"
proof (cases "ensure_writer (rq_before env)")
  case (Inl e)
  then show ?thesis by (simp add: apply_batch_def refuse_def Let_def)
next
  case (Inr epoch)
  show ?thesis
  proof (cases "ops = [] \<or> length ops > 10000")
    case True
    with Inr show ?thesis by (simp add: apply_batch_def Let_def)
  next
    case False
    then have "1 \<le> length ops" "length ops \<le> 10000" by (simp_all add: Suc_le_eq)
    with assms Inr have "\<not> list_all (\<lambda>op. validate op = Inr ()) ops" unfolding admitted_def by blast
    then obtain e where "for_each (\<lambda>op _. validate_request op) ops () = Inl e"
      by (cases "for_each (\<lambda>op _. validate_request op) ops ()") (simp_all add: validate_requests_iff)
    with Inr False show ?thesis by (simp add: apply_batch_def Let_def)
  qed
qed

lemma replicate_checked_Inr:
  assumes "replicate_checked sha api env epoch ops (Some l) = (Inr u, log')"
  shows "\<exists>q l'. log_append sha api epoch ops l = (Inr q, l') \<and> log' = Some l' \<and> ensure_writer (rq_after env) = Inr epoch"
  using assms
  by (auto simp: replicate_checked_def replicate_ops_def Let_def rbind_Inr_iff map_err_Inr_iff split: prod.splits if_splits)

text \<open>The record of a batch that is answered successfully.\<close>

lemma acked_record:
  assumes "dedup_index dapi lookup good" "live_ok hash lookup good (nd_store nd)"
    and "inj_on sha (operation_id ` set ops)" "\<forall>x. length (sha x) = 32" "\<forall>i. rq_up env i"
    and "replicated_log api contents" "nd_log nd = Some l" "\<forall>op \<in> set ops. op_strings_ok op"
    and "apply_batch sha hash dapi api env (Inr ops) nd = (Answer (Inr results), nd')" "nd_log nd' = Some l'"
    and "new_ops = fresh_of sha (fst (live_abs hash lookup (nd_store nd))) ops" "new_ops \<noteq> []"
    and "ensure_writer (rq_before env) = Inr epoch"
    and "\<forall>p. encode_log_operations epoch new_ops = Inr p \<longrightarrow> digests_ok sha (contents l') p"
  shows "\<exists>q. ensure_writer (rq_after env) = Inr epoch
    \<and> 1 \<le> unat q \<and> unat (q :: u64) \<le> length (contents l') \<and> fst (contents l' ! (unat q - 1)) \<noteq> None
    \<and> log_records json (contents l') ! (unat q - 1) = LogOperations epoch new_ops"
proof -
  from assms(9) refused_batch [of env ops sha hash dapi api nd] assms(13) have adm: "admitted env epoch ops"
    by (auto simp: admitted_def)
  let ?st = "live_abs hash lookup (nd_store nd)"
  have len: "\<And>x. length (sha x) = 32" and up: "\<And>i. rq_up env i" using assms(4,5) by simp_all
  from dedup_index.apply_batch_ok [OF assms(1,2) adm assms(3) len up, of api] assms(9)
  have spec: "write_spec sha env ops (replication_of sha api env epoch new_ops (nd_log nd)) (nd_log nd)
      (served_abs hash lookup (nd_store nd)) (Inr results) (nd_log nd') (served_abs hash lookup (nd_store nd'))"
    by (simp add: assms(11))
  obtain r log' where rep: "replicate_checked sha api env epoch new_ops (Some l) = (r, log')" by fastforce
  with write_spec_Inr(1,2) [OF spec] assms(7,12) have "r = Inr ()" "nd_log nd' = log'"
    by (simp_all add: replication_of_def)
  with replicate_checked_Inr [of sha api env epoch new_ops l "()" log'] rep assms(10)
  obtain q where q: "log_append sha api epoch new_ops l = (Inr q, l')" "ensure_writer (rq_after env) = Inr epoch" by auto
  have sub: "set new_ops \<subseteq> set ops" unfolding assms(11) by (rule fresh_of_facts(1) [OF assms(3)])
  have ops: "\<forall>op \<in> set ops. storable op" "length ops \<le> 10000"
    using adm assms(8) by (auto simp: admitted_def list_all_iff storable_def validate_iff)
  have "distinct (map (\<lambda>op. sha (operation_id op)) new_ops)" unfolding assms(11) by (rule fresh_of_facts(2) [OF assms(3)])
  then have "length new_ops = card (set new_ops)" by (simp add: distinct_map distinct_card)
  also have "\<dots> \<le> length ops" using sub by (metis List.finite_set card_length card_mono le_trans)
  finally have "length new_ops \<le> 100000" using ops(2) by simp
  from append_record [OF assms(6) q(1) assms(12) _ this assms(14), of json] sub ops(1)
  show ?thesis using q(2) by auto
qed

section \<open>The properties\<close>

text \<open>
  C8: a batch write is atomic and its answer is exact.  On a node that serves no other
  request, an admitted batch is always answered: with a conflict naming an operation of the
  batch that contradicts another one or an accepted one, and no effect; with the error of the
  replication, of the second lease check or of the write-ahead log, and again no effect on
  the accepted operations, the balances and the published balances; and otherwise with one
  result per operation in the order of the request.  An operation is answered as applied
  exactly if its id was not accepted before and does not occur earlier in the batch, with the
  balance after it and the new operations before it; every other one as a duplicate with the
  published balance before the batch.  The new operations are accepted and counted once, in
  the shards and in the published balances.  On every error path the reservations are
  released: the store satisfies its invariant again, in which nothing is pending.
\<close>
theorem apply_batch_exact:
  assumes "dedup_index dapi lookup good" "live_ok hash lookup good (nd_store nd)" "admitted env epoch ops"
    and "inj_on sha (operation_id ` set ops)" "\<forall>x. length (sha x) = 32" "\<forall>i. rq_up env i"
  shows "\<exists>out nd'. apply_batch sha hash dapi api env (Inr ops) nd = (Answer out, nd')
    \<and> live_ok hash lookup good (nd_store nd')
    \<and> write_spec sha env ops
        (replication_of sha api env epoch (fresh_of sha (fst (live_abs hash lookup (nd_store nd))) ops) (nd_log nd)) (nd_log nd)
        (served_abs hash lookup (nd_store nd)) out (nd_log nd') (served_abs hash lookup (nd_store nd'))"
  using dedup_index.apply_batch_ok [OF assms(1,2,3,4)] assms(5,6) by simp

text \<open>
  An acknowledged batch is in the replicated log.  When a node with a log answers a
  batch successfully and some of its operations were new, then the log holds one record with
  exactly these operations under the writer epoch that the lease reported both before and
  after the publication.
\<close>
theorem acked_batch_replicated:
  assumes "dedup_index dapi lookup good" "live_ok hash lookup good (nd_store nd)"
    and "inj_on sha (operation_id ` set ops)" "\<forall>x. length (sha x) = 32" "\<forall>i. rq_up env i"
    and "replicated_log api contents" "nd_log nd = Some l" "\<forall>op \<in> set ops. op_strings_ok op"
    and "apply_batch sha hash dapi api env (Inr ops) nd = (Answer (Inr results), nd')" "nd_log nd' = Some l'"
    and "new_ops = fresh_of sha (fst (live_abs hash lookup (nd_store nd))) ops" "new_ops \<noteq> []"
    and "ensure_writer (rq_before env) = Inr epoch"
    and "\<forall>p. encode_log_operations epoch new_ops = Inr p \<longrightarrow> digests_ok sha (contents l') p"
  shows "\<exists>q. ensure_writer (rq_after env) = Inr epoch
    \<and> 1 \<le> unat q \<and> unat (q :: u64) \<le> length (contents l')
    \<and> log_records json (contents l') ! (unat q - 1) = LogOperations epoch new_ops"
  using acked_record [OF assms] by blast

text \<open>
  C30: the single write is the batch write of one operation.  On a node that serves no other
  request, \<open>apply_one\<close> gives the first result of \<open>apply_batch\<close> on the one-element batch, with the
  same store and the same log afterwards, unless the configured failpoint names the operation.
\<close>
theorem apply_one_is_batch:
  assumes "dedup_index dapi lookup good" "live_ok hash lookup good (nd_store nd)" "\<not> failpoint env (operation_id op)"
    and "apply_one sha hash dapi api env op nd = (out, nd1)"
    and "apply_batch sha hash dapi api env (Inr [op]) nd = (out', nd2)"
  shows "out = first_result out' \<and> nd_store nd1 = nd_store nd2 \<and> nd_log nd1 = nd_log nd2"
proof -
  let ?s = "nd_store nd" and ?m = "nd_metrics nd"
  let ?metrics = "?m\<lparr>m_batch_requests := m_batch_requests ?m + 1, m_pipeline_operations := m_pipeline_operations ?m + 1\<rparr>"
  let ?pre = "preflight_batch sha (ix_get_many dapi (st_disk ?s)) (rq_request env) [op] (st_memory ?s)"
  have facts: "mem_ok (st_memory ?s)" "no_pending (st_memory ?s)" "good (st_disk ?s)"
    using assms(2) unfolding live_ok_def by blast+
  have inj: "inj_on sha (operation_id ` set [op])" by simp
  note alone = preflight_alone [OF facts(1,2) inj dedup_index.get_many [OF assms(1) facts(3)], of "rq_request env"]
  have one: "length new = 1" if "?pre = (mem, Ready new)" for mem new
    using alone that by (cases "batch_consistent sha (ledger_of (st_memory ?s) (lookup (st_disk ?s))) [op]") auto
  show ?thesis
  proof (cases "ensure_writer (rq_before env)")
    case (Inl e)
    with assms(4,5) show ?thesis by (auto simp: apply_one_def apply_batch_def refuse_def first_result_def Let_def)
  next
    case (Inr epoch)
    show ?thesis
    proof (cases "validate_request op")
      case Inl': (Inl e)
      with Inr assms(4,5) show ?thesis by (auto simp: apply_one_def apply_batch_def first_result_def Let_def)
    next
      case Inr': (Inr u)
      obtain mem r where pre: "?pre = (mem, r)" by fastforce
      show ?thesis
      proof (cases r)
        case (Ready new)
        let ?s' = "?s\<lparr>st_memory := mem\<rparr>"
        have "length new = 1" by (rule one) (simp add: pre Ready)
        moreover from assms(4) Inr Inr' pre Ready obtain o1 where
          "commit_one sha hash api env epoch op new (nd\<lparr>nd_store := ?s'\<rparr>) = (o1, nd1)" "out = first_result o1"
          by (auto simp: apply_one_def Let_def split: prod.splits)
        moreover from assms(5) Inr Inr' pre Ready have
          "commit_batch sha hash api env epoch [op] new (nd\<lparr>nd_metrics := ?metrics, nd_store := ?s'\<rparr>) = (out', nd2)"
          by (simp add: apply_batch_def Let_def)
        ultimately show ?thesis using commit_one_effect [OF _ assms(3)] by blast
      qed (use assms(4,5) Inr Inr' pre in \<open>auto simp: apply_one_def apply_batch_def refuse_def first_result_def Let_def\<close>)
    qed
  qed
qed

section \<open>A request\<close>

definition sample_request_env :: request_env where
  "sample_request_env = \<lparr>rq_before = Some (Some 3), rq_after = Some (Some 3), rq_late = False,
     rq_wal = (\<lambda>_. Inr ()), rq_up = (\<lambda>_. True), rq_request = 0, rq_fail_id = None\<rparr>"

definition sample_node :: "((sorted_alist, sorted_alist) disk, list_log) node" where
  "sample_node = \<lparr>nd_store = sample_live, nd_log = Some ([], []), nd_metrics = metrics_default\<rparr>"

abbreviation "sample_good \<equiv> (\<lambda>d. disk_ok alist_of alist_of d \<and> filter_ok alist_of alist_of d)"

abbreviation "sample_abs \<equiv> live_abs sample_hash sample_lookup"

abbreviation "sample_served \<equiv> served_abs sample_hash sample_lookup"

lemma sample_node_ok: "live_ok sample_hash sample_lookup sample_good (nd_store sample_node)"
  by (simp add: sample_node_def sample_live_ok)

lemma sample_admitted: "admitted sample_request_env 3 sample_ops"
  using sample_ops_storable storable_validate
  by (simp add: admitted_def sample_request_env_def ensure_writer_def list_all_iff) (simp add: sample_ops_def)

lemma sample_ops_inj: "inj_on pad (operation_id ` set sample_ops)"
  using sample_injective by (simp add: injective_batches_def)

lemma apply_batch_exact_witness:
  "\<exists>out nd'. apply_batch pad sample_hash sample_api list_log_api sample_request_env (Inr sample_ops) sample_node = (Answer out, nd')
    \<and> live_ok sample_hash sample_lookup sample_good (nd_store nd')
    \<and> write_spec pad sample_request_env sample_ops
        (replication_of pad list_log_api sample_request_env 3 (fresh_of pad (fst (sample_abs sample_live)) sample_ops) (Some ([], [])))
        (Some ([], [])) (sample_served sample_live) out (nd_log nd') (sample_served (nd_store nd'))"
  using apply_batch_exact [OF alist_disk.index.dedup_index_axioms sample_node_ok sample_admitted sample_ops_inj,
      of list_log_api]
  by (simp add: length_pad sample_request_env_def) (simp add: sample_node_def)

lemma sample_batch_fresh: "fresh_of pad (fst (sample_abs sample_live)) sample_ops
    = [sample_op ''op-1'' ''ann'' ''bolt'' 5, sample_op ''op-2'' ''bob'' ''nut'' 7]"
proof -
  have "pad (ascii ''op-1'') \<noteq> pad (ascii ''op-2'')" by (simp add: pad_def ascii_def)
  then show ?thesis
    using sample_ledger by (simp add: fresh_of_def sample_ops_def sample_op_def)
qed

definition sample_env_at :: "u64 \<Rightarrow> request_env" where
  "sample_env_at e = sample_request_env\<lparr>rq_before := Some (Some e), rq_after := Some (Some e)\<rparr>"

definition sample_node_at :: "list_log \<Rightarrow> ((sorted_alist, sorted_alist) disk, list_log) node" where
  "sample_node_at l = sample_node\<lparr>nd_log := Some l\<rparr>"

lemma sample_at: "sample_env_at 3 = sample_request_env" "sample_node_at ([], []) = sample_node"
  by (simp_all add: sample_env_at_def sample_request_env_def sample_node_at_def sample_node_def)

lemma sample_at_ok:
  "live_ok sample_hash sample_lookup sample_good (nd_store (sample_node_at l))" "admitted (sample_env_at e) e sample_ops"
  "ensure_writer (rq_before (sample_env_at e)) = Inr e" "\<forall>i. rq_up (sample_env_at e) i"
  using sample_node_ok sample_admitted
  by (simp_all add: sample_node_at_def sample_env_at_def admitted_def sample_request_env_def ensure_writer_def)

abbreviation "sample_fresh_ops \<equiv> [sample_op ''op-1'' ''ann'' ''bolt'' 5, sample_op ''op-2'' ''bob'' ''nut'' 7]"

lemma position_of_None: "x \<notin> set ys \<Longrightarrow> position_of x ys = None"
  by (induction ys) auto

lemma sample_batch_run:
  assumes "\<forall>m \<in> set ms. fst m = None" "length ms + 1 < 2 ^ 64"
  shows "\<exists>results nd' p. apply_batch pad sample_hash sample_api list_log_api (sample_env_at e) (Inr sample_ops) (sample_node_at (ms, ds))
      = (Answer (Inr results), nd')
    \<and> nd_log nd' = Some (ms @ [(Some (message_id pad p), p)], ds) \<and> encode_log_operations e sample_fresh_ops = Inr p"
proof -
  let ?nd = "sample_node_at (ms, ds)" and ?env = "sample_env_at e"
  have "list_all operation_fits sample_fresh_ops" using sample_ops_storable by (simp add: sample_ops_def storable_facts)
  then obtain p where p: "encode_log_operations e sample_fresh_ops = Inr p" by (simp add: encode_log_operations_iff)
  let ?l = "(ms @ [(Some (message_id pad p), p)], ds) :: list_log"
  have "position_of (Some (message_id pad p)) (map fst ms) = None" by (rule position_of_None) (use assms(1) in auto)
  then have "log_append pad list_log_api e sample_fresh_ops (ms, ds) = (Inr (word_of_nat (length ms + 1)), ?l)"
    using assms(2) by (simp add: log_append_def p list_log_api_def)
  then have rep: "replication_of pad list_log_api ?env e sample_fresh_ops (Some (ms, ds)) = (Inr (), Some ?l)"
    by (simp add: replication_of_def replicate_checked_def replicate_ops_def sample_env_at_def sample_request_env_def ensure_writer_def)
  have log: "nd_log ?nd = Some (ms, ds)" "nd_store ?nd = sample_live" by (simp_all add: sample_node_at_def sample_node_def)
  have up: "\<And>i. rq_up ?env i" by (simp add: sample_env_at_def sample_request_env_def)
  from alist_disk.index.apply_batch_ok [OF sample_at_ok(1) [of "(ms, ds)"] sample_at_ok(2) sample_ops_inj length_pad up, of list_log_api]
  obtain out nd' where run: "apply_batch pad sample_hash sample_api list_log_api ?env (Inr sample_ops) ?nd = (Answer out, nd')"
    "write_spec pad ?env sample_ops (Inr (), Some ?l) (Some (ms, ds)) (sample_served sample_live) out (nd_log nd') (sample_served (nd_store nd'))"
    unfolding log sample_batch_fresh rep by blast
  obtain st where "replay_batch pad sample_ops (fst (sample_served sample_live)) = Some st"
    using sample_replays by (cases "replay_batch pad sample_ops (sample_abs sample_live)") (simp_all add: served_abs_def)
  from run(2) [unfolded write_spec_Some [OF this]] have "\<exists>results. out = Inr results" "nd_log nd' = Some ?l"
    by (simp_all add: sample_env_at_def sample_request_env_def)
  with run(1) p show ?thesis by blast
qed

lemma acked_batch_replicated_witness:
  "\<exists>nd' l'. snd (apply_batch pad sample_hash sample_api list_log_api sample_request_env (Inr sample_ops) sample_node) = nd'
    \<and> nd_log nd' = Some l' \<and> log_records sample_json (fst l')
        = [LogOperations 3 [sample_op ''op-1'' ''ann'' ''bolt'' 5, sample_op ''op-2'' ''bob'' ''nut'' 7]]"
proof -
  let ?fresh = "[sample_op ''op-1'' ''ann'' ''bolt'' 5, sample_op ''op-2'' ''bob'' ''nut'' 7]"
  from sample_batch_run [of "[]" 3 "[]"] obtain results nd' p where run:
    "apply_batch pad sample_hash sample_api list_log_api sample_request_env (Inr sample_ops) sample_node = (Answer (Inr results), nd')"
    "nd_log nd' = Some ([(Some (message_id pad p), p)], [])" "encode_log_operations 3 ?fresh = Inr p" by (auto simp: sample_at)
  let ?l = "([(Some (message_id pad p), p)], []) :: list_log"
  have log: "nd_log sample_node = Some ([], [])" "nd_store sample_node = sample_live" by (simp_all add: sample_node_def)
  have "\<forall>i. rq_up sample_request_env i" by (simp add: sample_request_env_def)
  moreover have "\<forall>op \<in> set sample_ops. op_strings_ok op" using sample_ops_storable by (simp add: storable_def)
  moreover have "?fresh = fresh_of pad (fst (sample_abs (nd_store sample_node))) sample_ops" by (simp only: log sample_batch_fresh)
  moreover have "ensure_writer (rq_before sample_request_env) = Inr 3" by (simp add: sample_request_env_def ensure_writer_def)
  moreover have "\<forall>q. encode_log_operations 3 ?fresh = Inr q \<longrightarrow> digests_ok pad (fst ?l) q" using run(3) by (simp add: digests_ok_def)
  moreover have "\<forall>x. length (pad x) = 32" by (simp add: length_pad)
  moreover have "?fresh \<noteq> []" by simp
  ultimately have "\<exists>q. ensure_writer (rq_after sample_request_env) = Inr 3
    \<and> 1 \<le> unat q \<and> unat (q :: u64) \<le> length (fst ?l)
    \<and> log_records sample_json (fst ?l) ! (unat q - 1) = LogOperations 3 ?fresh"
    by (intro acked_batch_replicated [OF alist_disk.index.dedup_index_axioms sample_node_ok sample_ops_inj _ _
        list_log.replicated_log_axioms log(1) _ run(1,2)])
  then obtain q :: u64 where "1 \<le> unat q" "unat q \<le> length (fst ?l)"
    "log_records sample_json (fst ?l) ! (unat q - 1) = LogOperations 3 ?fresh" by blast
  then have "log_records sample_json (fst ?l) = [LogOperations 3 ?fresh]" by (simp add: log_records_def)
  with run(1,2) show ?thesis by simp
qed

lemma apply_one_is_batch_witness:
  "fst (apply_one pad sample_hash sample_api list_log_api sample_request_env (sample_op ''op-1'' ''ann'' ''bolt'' 5) sample_node)
   = first_result (fst (apply_batch pad sample_hash sample_api list_log_api sample_request_env
       (Inr [sample_op ''op-1'' ''ann'' ''bolt'' 5]) sample_node))"
proof -
  let ?op = "sample_op ''op-1'' ''ann'' ''bolt'' 5"
  have "\<not> failpoint sample_request_env (operation_id ?op)" by (simp add: failpoint_def sample_request_env_def)
  from apply_one_is_batch [OF alist_disk.index.dedup_index_axioms sample_node_ok this surjective_pairing surjective_pairing]
  show ?thesis by (rule conjunct1)
qed

end
