(* ===== verification/ReadHandlers.thy ===== *)
theory ReadHandlers
  imports HistoryTail WriteHandlers
begin

text \<open>
  The read handlers of \<open>src/main.rs\<close>: balances, operations by id, by owner, by SKU and in
  order, and the two health endpoints.  A handler is a function of the node and the request;
  the limiting semaphore is never closed and the reader tasks do not panic.  \<open>serde_json\<close> is a
  parameter: the parsed request or its error text.
\<close>

section \<open>The code\<close>

text \<open>\<open>rn_history\<close> is \<open>history_checkpoint\<close>, \<open>rn_published\<close> the balances the queries see.\<close>

record 'd read_node =
  rn_disk :: 'd
  rn_history :: u64
  rn_checkpoint :: checkpoint
  rn_published :: balances

definition ensure_history_complete :: "'d read_node \<Rightarrow> http_error + unit" where
  "ensure_history_complete nd =
     (let required = current (rn_checkpoint nd); present = rn_history nd in
      if present < required
      then Inl (SERVICE_UNAVAILABLE, ascii (''history index rebuilding: checkpoint '' @ decimal (unat present)
        @ '', required '' @ decimal (unat required)))
      else Inr ())"

record history_page =
  hp_operations :: "operation list"
  hp_next_cursor :: "bytes option"

definition history_page_of :: "operation list \<Rightarrow> nat \<Rightarrow> history_page" where
  "history_page_of operations limit = \<lparr>hp_operations = operations, hp_next_cursor = next_cursor limit operations\<rparr>"

text \<open>GET \<open>/v1/operations/scan\<close>, \<open>by-owner\<close> and \<open>by-sku\<close>.\<close>

definition scan_request ::
  "'l kv_api \<Rightarrow> ('l, 'r) disk read_node \<Rightarrow> bytes option \<Rightarrow> nat option \<Rightarrow> http_error + history_page" where
  "scan_request lsm nd cursor query_limit =
     rbind (ensure_history_complete nd) (\<lambda>_.
       let limit = (case query_limit of Some n \<Rightarrow> n | None \<Rightarrow> 10000) in
       if \<not> (1 \<le> limit \<and> limit \<le> 10000) then Inl (bad_request (ascii ''limit must be 1..=10000''))
       else rbind (map_err internal (scan_operations lsm (rn_disk nd) cursor limit)) (\<lambda>operations.
         Inr (history_page_of operations limit)))"

definition get_operations_by_owner ::
  "'l kv_api \<Rightarrow> 'r kv_api \<Rightarrow> (bytes \<Rightarrow> operation result) \<Rightarrow> ('l, 'r) disk read_node \<Rightarrow> bytes \<Rightarrow> bytes option \<Rightarrow> nat option
     \<Rightarrow> http_error + history_page" where
  "get_operations_by_owner lsm red from_json nd owner cursor query_limit =
     rbind (ensure_history_complete nd) (\<lambda>_.
       let limit = (case query_limit of Some n \<Rightarrow> n | None \<Rightarrow> 100) in
       if \<not> (1 \<le> limit \<and> limit \<le> 1000) then Inl (bad_request (ascii ''limit must be 1..=1000''))
       else rbind (map_err internal (by_owner lsm red from_json (rn_disk nd) owner cursor limit)) (\<lambda>operations.
         Inr (history_page_of operations limit)))"

definition get_operations_by_sku ::
  "'l kv_api \<Rightarrow> 'r kv_api \<Rightarrow> (bytes \<Rightarrow> operation result) \<Rightarrow> ('l, 'r) disk read_node \<Rightarrow> bytes \<Rightarrow> bytes option \<Rightarrow> nat option
     \<Rightarrow> http_error + history_page" where
  "get_operations_by_sku lsm red from_json nd sku_value cursor query_limit =
     rbind (ensure_history_complete nd) (\<lambda>_.
       let limit = (case query_limit of Some n \<Rightarrow> n | None \<Rightarrow> 100) in
       if \<not> (1 \<le> limit \<and> limit \<le> 1000) then Inl (bad_request (ascii ''limit must be 1..=1000''))
       else rbind (map_err internal (by_sku lsm red from_json (rn_disk nd) sku_value cursor limit)) (\<lambda>operations.
         Inr (history_page_of operations limit)))"

text \<open>GET \<open>/v1/operations/:operation_id\<close>; an unknown id is answered without a body.\<close>

definition get_operation_request ::
  "'l kv_api \<Rightarrow> 'r kv_api \<Rightarrow> (bytes \<Rightarrow> bytes) \<Rightarrow> (bytes \<Rightarrow> operation result) \<Rightarrow> ('l, 'r) disk read_node \<Rightarrow> bytes
     \<Rightarrow> http_error + operation" where
  "get_operation_request lsm red sha256 from_json nd i =
     rbind (ensure_history_complete nd) (\<lambda>_.
       case get_operation lsm red sha256 from_json (rn_disk nd) i of
         Inr (Some operation) \<Rightarrow> Inr operation
       | Inr None \<Rightarrow> Inl (NOT_FOUND, [])
       | Inl e \<Rightarrow> Inl (internal e))"

text \<open>POST \<open>/v1/operations/read-batch\<close>.\<close>

definition get_operations_batch ::
  "'l kv_api \<Rightarrow> 'r kv_api \<Rightarrow> (bytes \<Rightarrow> bytes) \<Rightarrow> (bytes \<Rightarrow> operation result) \<Rightarrow> ('l, 'r) disk read_node
     \<Rightarrow> bytes + bytes list \<Rightarrow> http_error + operation list" where
  "get_operations_batch lsm red sha256 from_json nd body =
     (case body of
        Inl error \<Rightarrow> Inl (bad_request (ascii ''invalid JSON ID batch: '' @ error))
      | Inr ids \<Rightarrow>
          if ids = [] \<or> length ids > 10000 then Inl (bad_request (ascii ''read batch must contain 1..=10000 IDs''))
          else rbind (map_err internal (get_operations lsm red sha256 from_json (rn_disk nd) ids)) (\<lambda>operations.
            if length operations \<noteq> length ids
            then rbind (ensure_history_complete nd) (\<lambda>_. Inl (NOT_FOUND, ascii ''one or more operations were not found''))
            else Inr operations))"

text \<open>The balances: one position, all positions of an owner, a batch of positions.\<close>

record balance_body =
  bb_owner_id :: bytes
  bb_sku :: bytes
  bb_balance :: i64
  bb_generation :: u64

definition get_balance :: "'d read_node \<Rightarrow> bytes \<Rightarrow> bytes \<Rightarrow> balance_body" where
  "get_balance nd owner s =
     \<lparr>bb_owner_id = owner, bb_sku = s, bb_balance = balance (rn_published nd) owner s,
      bb_generation = current (rn_checkpoint nd)\<rparr>"

record owner_summary =
  os_owner_id :: bytes
  os_generation :: u64
  os_total_balance :: i64
  os_positions :: "(bytes \<times> i64) list"

definition get_owner_balances :: "(balances \<Rightarrow> (key \<times> i64) list) \<Rightarrow> 'd read_node \<Rightarrow> bytes \<Rightarrow> owner_summary" where
  "get_owner_balances iter nd owner =
     (let positions = balances_by_owner iter (rn_published nd) owner in
      \<lparr>os_owner_id = owner, os_generation = current (rn_checkpoint nd), os_total_balance = owner_total positions,
       os_positions = positions\<rparr>)"

definition get_balances_batch :: "'d read_node \<Rightarrow> key list \<Rightarrow> http_error + i64 list" where
  "get_balances_batch nd keys =
     (if keys = [] \<or> length keys > 10000 then Inl (bad_request (ascii ''balance batch must contain 1..=10000 keys''))
      else Inr (balances_of (rn_published nd) keys))"

text \<open>
  GET \<open>/ready\<close>.  The first argument is the position of the log as far as it is known after
  750 ms, or \<open>None\<close> on a node without log; the second the answer of the lease, or \<open>None\<close>
  on a node without lease.
\<close>

definition ready :: "u64 result option option \<Rightarrow> bool option \<Rightarrow> nat \<Rightarrow> http_error + (string \<times> nat)" where
  "ready last_sequence owns_lease uptime_seconds =
     rbind (case last_sequence of
        Some answer \<Rightarrow>
          (case answer of
             Some (Inr _) \<Rightarrow> Inr ()
           | _ \<Rightarrow> Inl (SERVICE_UNAVAILABLE, ascii ''replicated quorum unavailable''))
      | None \<Rightarrow> Inr ())
     (\<lambda>_. if owns_lease = Some False
             then Inl (SERVICE_UNAVAILABLE, ascii ''node does not own the writer lease'')
             else Inr (''ready'', uptime_seconds))"

section \<open>Lookups\<close>

text \<open>A node without a history in redb: what the lookups by id give.\<close>

lemma get_operations_found:
  assumes "kv_store lsm lc" "kv_store red rc" "history_inv lc d H" "rc (redb_history d) = []"
  shows "get_operations lsm red sha from_json d ids = Inr (map (\<lambda>i. the (H i)) (filter (\<lambda>i. H i \<noteq> None) ids))"
proof -
  let ?step = "\<lambda>i acc. rbind (kv_get lsm (lsm_history d) i) (\<lambda>found. case found of
      Some payload \<Rightarrow> rbind (decode_operation payload) (\<lambda>op. Inr (acc @ [op]))
    | None \<Rightarrow> rbind (redb_operation red sha from_json d i) (\<lambda>v. case v of
        Some op \<Rightarrow> Inr (acc @ [op]) | None \<Rightarrow> Inr acc))"
  have step: "?step i acc = Inr (case H i of None \<Rightarrow> acc | Some op \<Rightarrow> acc @ [op])" for i acc
  proof (cases "H i")
    case None
    with assms(3) have "map_of (lc (lsm_history d)) i = None" by (simp add: history_inv_def)
    then show ?thesis
      using None assms(4) by (simp add: kv_store.get [OF assms(1)] kv_store.get [OF assms(2)] redb_operation_def)
  next
    case (Some op)
    with kv_store.history_payload [OF assms(1,3)] show ?thesis by simp
  qed
  have "for_each ?step ids acc = Inr (acc @ map (\<lambda>i. the (H i)) (filter (\<lambda>i. H i \<noteq> None) ids))" for acc
    unfolding step by (induction ids arbitrary: acc) auto
  from this [of "[]"] show ?thesis by (simp add: get_operations_def kv_store.open_ok [OF assms(2)])
qed

lemma get_operation_found:
  assumes "kv_store lsm lc" "kv_store red rc" "history_inv lc d H" "rc (redb_history d) = []"
  shows "get_operation lsm red sha from_json d i = Inr (H i)"
proof (cases "H i")
  case None
  with assms(3) have "map_of (lc (lsm_history d)) i = None" by (simp add: history_inv_def)
  then show ?thesis
    using None assms(4) by (simp add: get_operation_def kv_store.get [OF assms(1)] kv_store.get [OF assms(2)]
        kv_store.open_ok [OF assms(2)] redb_operation_def)
next
  case (Some op)
  with kv_store.history_payload [OF assms(1,3)] show ?thesis by (simp add: get_operation_def)
qed

lemma some_missing: "length (filter P xs) = length xs \<longleftrightarrow> (\<forall>x \<in> set xs. P x)"
proof
  assume "length (filter P xs) = length xs"
  then have "filter P xs = xs" using length_filter_less [of _ xs P] by (metis filter_True nat_neq_iff)
  then show "\<forall>x \<in> set xs. P x" by (metis filter_eq_ConsD filter_id_conv)
qed simp

section \<open>A client of the pages\<close>

fun follow_pages :: "(bytes option \<Rightarrow> http_error + history_page) \<Rightarrow> nat \<Rightarrow> bytes option \<Rightarrow> http_error + operation list" where
  "follow_pages get_page 0 cursor = Inr []"
| "follow_pages get_page (Suc n) cursor =
     rbind (get_page cursor) (\<lambda>p. case hp_next_cursor p of
         None \<Rightarrow> Inr (hp_operations p)
       | Some c \<Rightarrow> rbind (follow_pages get_page n (Some c)) (\<lambda>more_operations. Inr (hp_operations p @ more_operations)))"

lemma follow_walk:
  assumes "\<And>cursor. get_page cursor = map_err f (rbind (get_ops cursor) (\<lambda>ops. Inr (history_page_of ops limit)))"
  shows "follow_pages get_page n cursor = map_err f (walk_pages get_ops limit n cursor)"
proof (induction n arbitrary: cursor)
  case (Suc n)
  show ?case
  proof (cases "get_ops cursor")
    case (Inr ops)
    show ?thesis
    proof (cases "next_cursor limit ops")
      case (Some c)
      with Suc.IH [of "Some c"] Inr show ?thesis
        by (cases "walk_pages get_ops limit n (Some c)") (simp_all add: assms history_page_of_def)
    qed (simp add: assms Inr history_page_of_def)
  qed (simp add: assms)
qed simp

text \<open>A record that was accepted is in the history of every longer prefix of the log.\<close>

lemma accepted_in_history:
  assumes "op \<in> set (concat (accepted_batches 0 (take m R)))" "m \<le> n" "ids_agree R"
  shows "\<exists>op'. history_of R n (operation_id op) = Some op' \<and> owner_id op' = owner_id op \<and> sku op' = sku op"
proof -
  have "op \<in> set (concat (accepted_batches 0 (take n R)))"
    using assms(1) accepted_take_subset [of 0 m "take n R"] assms(2) by (auto simp: min_def)
  then have "\<exists>op'. history_of R n (operation_id op) = Some op'"
  proof -
    have "op \<in> set ops \<Longrightarrow> \<exists>op'. history_add H ops (operation_id op) = Some op'" for H ops
    proof (induction ops rule: rev_induct)
      case (snoc x ops)
      then show ?case by (auto simp: history_add_append) (auto simp: history_add_def)
    qed simp
    with \<open>op \<in> set (concat (accepted_batches 0 (take n R)))\<close> show ?thesis unfolding history_of_def by blast
  qed
  then obtain op' where op': "history_of R n (operation_id op) = Some op'" by blast
  from history_of_range [OF this] have "op' \<in> set (concat (accepted_batches 0 R))" "operation_id op' = operation_id op" by simp_all
  moreover have "op \<in> set (concat (accepted_batches 0 R))" using assms(1) accepted_take_subset [of 0 m R] by blast
  ultimately have "same_keys op' op" using assms(3) unfolding ids_agree_def by blast
  with op' \<open>operation_id op' = operation_id op\<close> show ?thesis by (simp add: same_keys_def)
qed

section \<open>The properties\<close>

lemma node_incomplete:
  assumes "rn_history nd < current (rn_checkpoint nd)"
  shows "\<exists>m. ensure_history_complete nd = Inl (SERVICE_UNAVAILABLE, m)"
  using assms by (simp add: ensure_history_complete_def Let_def)

lemma node_complete:
  assumes "current (rn_checkpoint nd) \<le> rn_history nd"
  shows "ensure_history_complete nd = Inr ()"
  using assms by (simp add: ensure_history_complete_def Let_def)

lemma owner_request:
  assumes "1 \<le> limit" "limit \<le> 1000" "current (rn_checkpoint nd) \<le> rn_history nd"
  shows "get_operations_by_owner lsm red from_json nd v cursor (Some limit)
    = map_err internal (rbind (by_owner lsm red from_json (rn_disk nd) v cursor limit) (\<lambda>ops. Inr (history_page_of ops limit)))"
  using assms(1,2) node_complete [OF assms(3)]
  by (cases "by_owner lsm red from_json (rn_disk nd) v cursor limit") (simp_all add: get_operations_by_owner_def)

lemma selected_operations:
  assumes "kv_store lsm lc" "history_inv lc d H" "ops = map (\<lambda>i. the (H i)) (selected_ids H (\<lambda>op. owner_id op = v))"
  shows "sorted_wrt (<) (map operation_id ops) \<and> set ops = {op. H (operation_id op) = Some op \<and> owner_id op = v}"
proof -
  let ?ids = "selected_ids H (\<lambda>op. owner_id op = v)"
  have ids: "set ?ids = {i. \<exists>op. H i = Some op \<and> owner_id op = v}" "sorted_wrt (<) ?ids"
    using kv_store.history_finite [OF assms(1,2), of "\<lambda>op. owner_id op = v"] by (simp_all add: selected_ids_def)
  have key: "operation_id op = i" if "H i = Some op" for i op using assms(2) that by (simp add: history_inv_def)
  have "operation_id (the (H i)) = i" if "i \<in> set ?ids" for i using that ids(1) key by auto
  then have "map operation_id ops = ?ids" by (simp add: assms(3) map_idI)
  moreover have "set ops = {op. H (operation_id op) = Some op \<and> owner_id op = v}"
  proof
    show "set ops \<subseteq> {op. H (operation_id op) = Some op \<and> owner_id op = v}"
      unfolding assms(3) set_map ids(1) using key by auto
    show "{op. H (operation_id op) = Some op \<and> owner_id op = v} \<subseteq> set ops"
    proof
      fix op assume "op \<in> {op. H (operation_id op) = Some op \<and> owner_id op = v}"
      then have "op = the (H (operation_id op))" "operation_id op \<in> set ?ids" unfolding ids(1) by auto
      then show "op \<in> set ops" unfolding assms(3) set_map by (rule image_eqI)
    qed
  qed
  ultimately show ?thesis using ids(2) by simp
qed

text \<open>
  C13: the pages of an owner are complete.  Take a node whose history task is in any state it
  can reach.  A client that follows the cursors of \<open>by-owner\<close> either is told that the history
  is being rebuilt, exactly when the checkpoint is ahead of it, or it ends and has received,
  in the order of the ids and each once, the operations of this owner in the history, among
  them every operation that the log had accepted up to the checkpoint.  No id of the log may
  come with two owners or two SKUs.
\<close>
theorem owner_history_complete:
  assumes "history_log lsm lc api contents json" "history_at_start lc lsm s0"
    and "(history_step json api contents lsm)\<^sup>*\<^sup>* s0 s" "records = log_records json (contents (ht_log s))" "ids_agree records"
    and "\<forall>(i, p) \<in> set (contents (ht_log s)). length p < 2 ^ 63" "length (contents (ht_log s)) < 2 ^ 64 - 1"
    and "rn_disk nd = ht_disk s" "rn_history nd = ht_published s"
    and "H = history_of records (unat (ht_published s))" "H \<noteq> Map.empty" "1 \<le> limit" "limit \<le> 1000"
    and "length (selected_ids H (\<lambda>op. owner_id op = v)) < fuel"
    and "r = follow_pages (\<lambda>cursor. get_operations_by_owner lsm red from_json nd v cursor (Some limit)) fuel None"
  shows "if current (rn_checkpoint nd) \<le> ht_published s
    then \<exists>ops. r = Inr ops \<and> sorted_wrt (<) (map operation_id ops)
      \<and> set ops = {op. H (operation_id op) = Some op \<and> owner_id op = v}
      \<and> operation_id ` {op \<in> set (concat (accepted_batches 0 (take (unat (current (rn_checkpoint nd))) records))). owner_id op = v}
          \<subseteq> operation_id ` set ops
    else \<exists>m. r = Inl (SERVICE_UNAVAILABLE, m)"
proof (cases "current (rn_checkpoint nd) \<le> ht_published s")
  case True
  have kv: "kv_store lsm lc" using assms(1) by (simp add: history_log_def)
  have H: "history_inv lc (ht_disk s) H"
    using history_tail_steps [OF assms(1-3) _ assms(6,7)] assms(4,5,10) by simp
  let ?ops = "map (\<lambda>i. the (H i)) (selected_ids H (\<lambda>op. owner_id op = v))"
  have "walk_pages (\<lambda>cursor. by_owner lsm red from_json (ht_disk s) v cursor limit) limit fuel None = Inr ?ops"
    using owner_pages_complete [OF kv H assms(11) _ assms(14)] assms(12) by simp
  then have r: "r = Inr ?ops"
    using follow_walk [OF owner_request [OF assms(12,13), of nd lsm red from_json v]] True assms(8,9,15) by simp
  note sel = selected_operations [OF kv H refl, of v]
  have "operation_id op \<in> operation_id ` set ?ops"
    if op: "op \<in> set (concat (accepted_batches 0 (take (unat (current (rn_checkpoint nd))) records)))" "owner_id op = v" for op
  proof -
    from accepted_in_history [OF op(1) _ assms(5), of "unat (ht_published s)"] True obtain op' where
      op': "H (operation_id op) = Some op'" "owner_id op' = v" using op(2) assms(10) by (auto simp: word_le_nat_alt)
    then have "operation_id op' = operation_id op" using H by (simp add: history_inv_def)
    with op' sel show ?thesis by (metis (mono_tags, lifting) image_eqI mem_Collect_eq)
  qed
  with True r sel show ?thesis by (simp only: if_True) blast
next
  case False
  then obtain m where "ensure_history_complete nd = Inl (SERVICE_UNAVAILABLE, m)"
    using node_incomplete [of nd] assms(9) by (auto simp: not_le)
  moreover obtain n where "fuel = Suc n" using assms(14) by (cases fuel) auto
  ultimately show ?thesis using False assms(15) by (simp add: get_operations_by_owner_def)
qed

text \<open>
  C29: lookups by id are exact.  On such a node, without a history from older releases, a
  batch of ids is answered with their operations in the order of the request, also while the
  history is behind the checkpoint, if all of them are in it; if one is missing, the answer is
  that it was not found only when the history has reached the checkpoint.
\<close>
theorem operations_batch_exact:
  assumes "history_log lsm lc api contents json" "kv_store red rc" "history_at_start lc lsm s0"
    and "(history_step json api contents lsm)\<^sup>*\<^sup>* s0 s" "records = log_records json (contents (ht_log s))" "ids_agree records"
    and "\<forall>(i, p) \<in> set (contents (ht_log s)). length p < 2 ^ 63" "length (contents (ht_log s)) < 2 ^ 64 - 1"
    and "rn_disk nd = ht_disk s" "rn_history nd = ht_published s" "rc (redb_history (ht_disk s)) = []"
    and "H = history_of records (unat (ht_published s))" "ids \<noteq> []" "length ids \<le> 10000"
  shows "get_operations_batch lsm red sha from_json nd (Inr ids)
    = (if set ids \<subseteq> dom H then Inr (map (\<lambda>i. the (H i)) ids)
       else if current (rn_checkpoint nd) \<le> ht_published s then Inl (NOT_FOUND, ascii ''one or more operations were not found'')
       else Inl (projl (ensure_history_complete nd)))"
proof -
  have kv: "kv_store lsm lc" using assms(1) by (simp add: history_log_def)
  have H: "history_inv lc (ht_disk s) H"
    using history_tail_steps [OF assms(1,3,4) _ assms(7,8)] assms(5,6,12) by simp
  have all: "length (filter (\<lambda>i. H i \<noteq> None) ids) = length ids \<longleftrightarrow> set ids \<subseteq> dom H"
    unfolding some_missing by (auto simp: domIff)
  have found: "filter (\<lambda>i. H i \<noteq> None) ids = ids" if "set ids \<subseteq> dom H" using that by (auto simp: filter_id_conv)
  have eval: "get_operations_batch lsm red sha from_json nd (Inr ids)
      = (if set ids \<subseteq> dom H then Inr (map (\<lambda>i. the (H i)) ids)
         else rbind (ensure_history_complete nd) (\<lambda>_. Inl (NOT_FOUND, ascii ''one or more operations were not found'')))"
    using get_operations_found [OF kv assms(2) H assms(11)] assms(9,13,14) all found
    by (simp add: get_operations_batch_def del: not_None_eq)
  show ?thesis
  proof (cases "current (rn_checkpoint nd) \<le> ht_published s")
    case False
    with node_incomplete [of nd] assms(10) obtain m where "ensure_history_complete nd = Inl (SERVICE_UNAVAILABLE, m)"
      by (auto simp: not_le)
    with False eval show ?thesis by simp
  qed (use eval node_complete [of nd] assms(10) in simp)
qed

section \<open>A node\<close>

definition sample_reader :: "u64 \<Rightarrow> (sorted_alist, sorted_alist) disk read_node" where
  "sample_reader position = \<lparr>rn_disk = ht_disk sample_tailed, rn_history = ht_published sample_tailed,
     rn_checkpoint = \<lparr>cp_file = None, cp_tmp = None, cp_value = \<lparr>cp_sequence = position, cp_writer_epoch = 1\<rparr>\<rparr>,
     rn_published = Map.empty\<rparr>"

definition sample_log_records :: "log_record list" where
  "sample_log_records = [LogFence 1 (ascii ''node-1''), LogOperations 1 sample_ops]"

abbreviation "sample_op_1 \<equiv> sample_op ''op-1'' ''ann'' ''bolt'' 5"

lemma sample_tailed_facts:
  "(history_step sample_json list_log_api fst alist_api)\<^sup>*\<^sup>* sample_tail_start sample_tailed"
  "sample_log_records = log_records sample_json (fst (ht_log sample_tailed))" "ids_agree sample_log_records"
  "\<forall>(i, p) \<in> set (fst (ht_log sample_tailed)). length p < 2 ^ 63" "length (fst (ht_log sample_tailed)) = 2"
  "unat (ht_published sample_tailed) = 2"
proof -
  have log: "fst (ht_log sample_tailed) = fst (ht_log sample_tail_start)"
    unfolding sample_tailed_def by (rule sample_history_log.turn_contents)
  show step: "(history_step sample_json list_log_api fst alist_api)\<^sup>*\<^sup>* sample_tail_start sample_tailed"
    unfolding sample_tailed_def by (rule r_into_rtranclp, rule history_step.turn)
  show R: "sample_log_records = log_records sample_json (fst (ht_log sample_tailed))"
    using sample_tail_log(1) [OF log] by (simp add: sample_log_records_def)
  show "ids_agree sample_log_records" unfolding R by (rule sample_tail_log(2) [OF log])
  show "\<forall>(i, p) \<in> set (fst (ht_log sample_tailed)). length p < 2 ^ 63" "length (fst (ht_log sample_tailed)) = 2"
    using sample_tail_log(3,4) [OF log] by simp_all
  show "unat (ht_published sample_tailed) = 2"
    using history_tail_steps [OF sample_history_log.history_log_axioms sample_tail_at_start rtranclp.rtrancl_refl
        sample_tail_log(2) sample_tail_log(4), of sample_tail_io] sample_tail_log(3) [of sample_tail_start]
      list_log_available [of sample_json] by (simp add: sample_tailed_def sample_tail_io_def sample_json_def)
qed

lemma sample_history_of: "history_of sample_log_records (unat (ht_published sample_tailed)) (ascii ''op-1'') = Some sample_op_1"
  unfolding sample_tailed_facts(6)
  by (simp add: history_of_def sample_log_records_def numeral_2_eq_2 history_add_def sample_ops_def max_def)
    (simp add: sample_op_def ascii_def)

lemma owner_history_complete_witness:
  "\<exists>n ops. follow_pages (\<lambda>cursor. get_operations_by_owner alist_api alist_api (\<lambda>_. Inl ParseError) (sample_reader 2)
        (ascii ''ann'') cursor (Some 1)) n None = Inr ops
    \<and> sorted_wrt (<) (map operation_id ops) \<and> sample_op_1 \<in> set ops"
proof -
  let ?H = "history_of sample_log_records (unat (ht_published sample_tailed))"
  let ?n = "Suc (length (selected_ids ?H (\<lambda>op. owner_id op = ascii ''ann'')))"
  have nd: "rn_disk (sample_reader 2) = ht_disk sample_tailed" "rn_history (sample_reader 2) = ht_published sample_tailed"
    "current (rn_checkpoint (sample_reader 2)) = 2"
    by (simp_all add: sample_reader_def current_def)
  have small: "length (fst (ht_log sample_tailed)) < 2 ^ 64 - 1" by (simp add: sample_tailed_facts(5))
  have ne: "?H \<noteq> Map.empty" using sample_history_of by (metis option.distinct(1))
  have "current (rn_checkpoint (sample_reader 2)) \<le> ht_published sample_tailed"
    using sample_tailed_facts(6) by (simp add: nd(3) word_le_nat_alt)
  with owner_history_complete [OF sample_history_log.history_log_axioms sample_tail_at_start sample_tailed_facts(1-4) small
      nd(1,2) refl ne order_refl _ lessI refl, of alist_api "\<lambda>_. Inl ParseError" "ascii ''ann''"]
  obtain ops where "follow_pages (\<lambda>cursor. get_operations_by_owner alist_api alist_api (\<lambda>_. Inl ParseError) (sample_reader 2)
        (ascii ''ann'') cursor (Some 1)) ?n None = Inr ops" "sorted_wrt (<) (map operation_id ops)"
    "set ops = {op. ?H (operation_id op) = Some op \<and> owner_id op = ascii ''ann''}" by auto
  moreover have "sample_op_1 \<in> {op. ?H (operation_id op) = Some op \<and> owner_id op = ascii ''ann''}"
    using sample_history_of by (simp add: sample_op_def)
  ultimately show ?thesis by blast
qed

lemma operations_batch_exact_witness:
  "get_operations_batch alist_api alist_api pad (\<lambda>_. Inl ParseError) (sample_reader 2) (Inr [ascii ''op-1''])
    = Inr [sample_op_1]"
proof -
  have nd: "rn_disk (sample_reader 2) = ht_disk sample_tailed" "rn_history (sample_reader 2) = ht_published sample_tailed"
    by (simp_all add: sample_reader_def)
  have small: "length (fst (ht_log sample_tailed)) < 2 ^ 64 - 1" by (simp add: sample_tailed_facts(5))
  have "alist_of (redb_history (ht_disk sample_tailed)) = []"
    unfolding sample_tailed_def turn_redb by (simp add: sample_tail_start_def puts_redb sample_disk_def alist_eval)
  from operations_batch_exact [OF sample_history_log.history_log_axioms alist.kv_store_axioms sample_tail_at_start
      sample_tailed_facts(1-4) small nd this refl, of "[ascii ''op-1'']" pad "\<lambda>_. Inl ParseError"] sample_history_of
  show ?thesis by auto
qed

end
