(* ===== verification/Lease.thy ===== *)
theory Lease
  imports CatchUp
begin

text \<open>
  The writer lease of \<open>src/cluster.rs\<close>: the loop of \<open>start_writer_lease\<close>, cut at its calls of
  the services, and \<open>WriterLease\<close>.  The key-value bucket is a service outside the repository:
  \<open>bucket_api\<close> holds the calls the code makes of it, and the locale \<open>lease_bucket\<close> what it relies
  on.  Times are milliseconds of one clock; \<open>serde_json\<close> is the parameter \<open>lease_json\<close>.
\<close>

section \<open>Values and services\<close>

record lease_value =
  lv_instance_id :: bytes
  lv_epoch :: u64

record lease_json =
  lease_from_slice :: "bytes \<Rightarrow> lease_value result"
  lease_to_vec :: "lease_value \<Rightarrow> bytes"

text \<open>
  The calls on the one key of the bucket, at the time the service serves them: read, create,
  and replace at a revision.  \<open>kv_expire\<close> is the service removing an aged entry.
\<close>

record 'b bucket_api =
  kv_entry :: "nat \<Rightarrow> 'b \<Rightarrow> (bytes \<times> u64) option result"
  kv_create :: "nat \<Rightarrow> bytes \<Rightarrow> 'b \<Rightarrow> u64 result \<times> 'b"
  kv_update :: "nat \<Rightarrow> bytes \<Rightarrow> u64 \<Rightarrow> 'b \<Rightarrow> u64 result \<times> 'b"
  kv_expire :: "nat \<Rightarrow> 'b \<Rightarrow> 'b"

section \<open>Connecting\<close>

text \<open>
  The retry loops: \<open>start_writer_lease\<close> makes 20 attempts to create the bucket or to get an
  existing one, \<open>connect\<close> 120 attempts to reach the log.
\<close>

fun open_bucket :: "(nat \<Rightarrow> 's result) \<Rightarrow> (nat \<Rightarrow> 's result) \<Rightarrow> nat list \<Rightarrow> 's result" where
  "open_bucket create_or_update get_existing [] = Inl (Msg ''cannot initialize writer fencing bucket'')"
| "open_bucket create_or_update get_existing (attempt # attempts) =
     (case create_or_update attempt of
        Inr created \<Rightarrow> Inr created
      | Inl _ \<Rightarrow>
          (case get_existing attempt of
             Inr existing \<Rightarrow> Inr existing
           | Inl _ \<Rightarrow> open_bucket create_or_update get_existing attempts))"

definition lease_bucket_of :: "(nat \<Rightarrow> 's result) \<Rightarrow> (nat \<Rightarrow> 's result) \<Rightarrow> 's result" where
  "lease_bucket_of create_or_update get_existing = open_bucket create_or_update get_existing [0..<20]"

fun connect_loop :: "(nat \<Rightarrow> 'l result) \<Rightarrow> error option \<Rightarrow> nat list \<Rightarrow> 'l result" where
  "connect_loop try_connect last_error [] =
     Inl (case last_error of Some e \<Rightarrow> e | None \<Rightarrow> Msg ''replicated log unavailable'')"
| "connect_loop try_connect last_error (attempt # attempts) =
     (case try_connect attempt of
        Inr log \<Rightarrow> Inr log
      | Inl e \<Rightarrow> connect_loop try_connect (Some e) attempts)"

definition connect :: "(nat \<Rightarrow> 'l result) \<Rightarrow> 'l result" where
  "connect try_connect = connect_loop try_connect None [1..<121]"

section \<open>WriterLease\<close>

record lease_state =
  ls_owned :: bool
  ls_valid_until :: nat
  ls_epoch :: u64

definition owns_valid_lease_for :: "nat \<Rightarrow> nat \<Rightarrow> lease_state \<Rightarrow> bool" where
  "owns_valid_lease_for required now s \<longleftrightarrow> ls_owned s \<and> now + required < ls_valid_until s"

definition valid_epoch_for :: "nat \<Rightarrow> nat \<Rightarrow> lease_state \<Rightarrow> u64 option" where
  "valid_epoch_for required now s = (if ls_owned s \<and> now + required < ls_valid_until s then Some (ls_epoch s) else None)"

section \<open>The loop of the lease\<close>

text \<open>
  The points at which the loop waits: asleep; for the renewal of a value at a revision; for
  the creation; for the second write that names the new epoch; for the fence; and for the
  lock of the state, with the outcome of the round (\<open>renewed\<close> and \<open>definitely_lost\<close>).
\<close>

datatype lease_phase =
    Asleep
  | Renewing lease_value u64
  | Creating
  | Confirming u64
  | Fencing u64
  | Deciding "u64 option" bool

text \<open>\<open>ln_written\<close> is ghost: when the service took the last acknowledged write of this node.\<close>

record lease_node =
  ln_id :: bytes
  ln_phase :: lease_phase
  ln_lease :: lease_state
  ln_written :: nat

definition lease_start :: "bytes \<Rightarrow> nat \<Rightarrow> lease_node" where
  "lease_start instance_id now =
     \<lparr>ln_id = instance_id, ln_phase = Asleep,
      ln_lease = \<lparr>ls_owned = False, ls_valid_until = now, ls_epoch = 0\<rparr>, ln_written = 0\<rparr>"

definition look :: "lease_json \<Rightarrow> bytes \<Rightarrow> (bytes \<times> u64) option result \<Rightarrow> lease_phase" where
  "look json instance_id entry =
     (case entry of
        Inr (Some (v, revision)) \<Rightarrow>
          (case lease_from_slice json v of
             Inr value \<Rightarrow>
               if lv_instance_id value = instance_id \<and> lv_epoch value > 0
               then Renewing value revision else Deciding None True
           | Inl _ \<Rightarrow> Deciding None True)
      | Inr None \<Rightarrow> Creating
      | Inl _ \<Rightarrow> Deciding None False)"

definition renew :: "lease_json \<Rightarrow> 'b bucket_api \<Rightarrow> nat \<Rightarrow> lease_value \<Rightarrow> u64 \<Rightarrow> lease_node \<Rightarrow> 'b \<Rightarrow> lease_node \<times> 'b" where
  "renew json kv now value revision n b =
     (case kv_update kv now (lease_to_vec json value) revision b of
        (Inr _, b') \<Rightarrow> (n\<lparr>ln_phase := Deciding (Some (lv_epoch value)) False, ln_written := now\<rparr>, b')
      | (Inl _, b') \<Rightarrow> (n\<lparr>ln_phase := Deciding None False\<rparr>, b'))"

definition create_lease :: "lease_json \<Rightarrow> 'b bucket_api \<Rightarrow> nat \<Rightarrow> lease_node \<Rightarrow> 'b \<Rightarrow> lease_node \<times> 'b" where
  "create_lease json kv now n b =
     (case kv_create kv now (lease_to_vec json \<lparr>lv_instance_id = ln_id n, lv_epoch = 0\<rparr>) b of
        (Inr revision, b') \<Rightarrow> (n\<lparr>ln_phase := Confirming revision\<rparr>, b')
      | (Inl _, b') \<Rightarrow> (n\<lparr>ln_phase := Deciding None True\<rparr>, b'))"

definition confirm :: "lease_json \<Rightarrow> 'b bucket_api \<Rightarrow> nat \<Rightarrow> u64 \<Rightarrow> lease_node \<Rightarrow> 'b \<Rightarrow> lease_node \<times> 'b" where
  "confirm json kv now revision n b =
     (case kv_update kv now (lease_to_vec json \<lparr>lv_instance_id = ln_id n, lv_epoch = revision\<rparr>) revision b of
        (Inr _, b') \<Rightarrow> (n\<lparr>ln_phase := Fencing revision, ln_written := now\<rparr>, b')
      | (Inl _, b') \<Rightarrow> (n\<lparr>ln_phase := Deciding None True\<rparr>, b'))"

definition fence :: "'l log_api \<Rightarrow> u64 \<Rightarrow> lease_node \<Rightarrow> 'l \<Rightarrow> lease_node \<times> 'l" where
  "fence lapi revision n l =
     (case append_fence lapi revision (ln_id n) l of
        (Inr _, l') \<Rightarrow> (n\<lparr>ln_phase := Deciding (Some revision) False\<rparr>, l')
      | (Inl _, l') \<Rightarrow> (n\<lparr>ln_phase := Deciding None True\<rparr>, l'))"

definition decide :: "nat \<Rightarrow> u64 option \<Rightarrow> bool \<Rightarrow> lease_state \<Rightarrow> lease_state" where
  "decide now renewed definitely_lost s =
     (case renewed of
        Some e \<Rightarrow> \<lparr>ls_owned = True, ls_valid_until = now + 4000, ls_epoch = e\<rparr>
      | None \<Rightarrow> if definitely_lost \<or> now \<ge> ls_valid_until s then s\<lparr>ls_owned := False\<rparr> else s)"

text \<open>What a node does when it is its turn.\<close>

definition lease_turn ::
  "lease_json \<Rightarrow> 'b bucket_api \<Rightarrow> 'l log_api \<Rightarrow> nat \<Rightarrow> lease_node \<Rightarrow> 'b \<Rightarrow> 'l \<Rightarrow> lease_node \<times> 'b \<times> 'l" where
  "lease_turn json kv lapi now n b l =
     (case ln_phase n of
        Asleep \<Rightarrow> (n\<lparr>ln_phase := look json (ln_id n) (kv_entry kv now b)\<rparr>, b, l)
      | Renewing value revision \<Rightarrow> (let (n', b') = renew json kv now value revision n b in (n', b', l))
      | Creating \<Rightarrow> (let (n', b') = create_lease json kv now n b in (n', b', l))
      | Confirming revision \<Rightarrow> (let (n', b') = confirm json kv now revision n b in (n', b', l))
      | Fencing revision \<Rightarrow> (let (n', l') = fence lapi revision n l in (n', b, l'))
      | Deciding renewed definitely_lost \<Rightarrow>
          (n\<lparr>ln_phase := Asleep, ln_lease := decide now renewed definitely_lost (ln_lease n)\<rparr>, b, l))"

section \<open>The contract of the bucket\<close>

text \<open>
  \<open>cell\<close> is the entry of the key with its revision and the time of its write, \<open>newest\<close> the last
  revision given out and \<open>born\<close> the revision of the last creation.  Revisions only grow; an
  entry lives at least five seconds (\<open>max_age\<close>); a write is conditional on the key being
  absent or at the given revision; a failed write may or may not have happened; and a read may
  be stale, but never gives a revision a value it did not have.
\<close>

definition created :: "('b \<Rightarrow> (bytes \<times> u64 \<times> nat) option) \<Rightarrow> ('b \<Rightarrow> u64) \<Rightarrow> ('b \<Rightarrow> u64) \<Rightarrow> nat \<Rightarrow> bytes \<Rightarrow> u64 \<Rightarrow> 'b \<Rightarrow> 'b \<Rightarrow> bool" where
  "created cell newest born t v q b b' \<longleftrightarrow> cell b = None \<and> cell b' = Some (v, q, t) \<and> newest b < q \<and> newest b' = q \<and> born b' = q"

definition replaced :: "('b \<Rightarrow> (bytes \<times> u64 \<times> nat) option) \<Rightarrow> ('b \<Rightarrow> u64) \<Rightarrow> ('b \<Rightarrow> u64) \<Rightarrow> nat \<Rightarrow> bytes \<Rightarrow> u64 \<Rightarrow> u64 \<Rightarrow> 'b \<Rightarrow> 'b \<Rightarrow> bool" where
  "replaced cell newest born t v r q b b' \<longleftrightarrow> (\<exists>v0 w0. cell b = Some (v0, r, w0)) \<and> cell b' = Some (v, q, t)
     \<and> newest b < q \<and> newest b' = q \<and> born b' = born b"

definition untouched :: "('b \<Rightarrow> (bytes \<times> u64 \<times> nat) option) \<Rightarrow> ('b \<Rightarrow> u64) \<Rightarrow> ('b \<Rightarrow> u64) \<Rightarrow> 'b \<Rightarrow> 'b \<Rightarrow> bool" where
  "untouched cell newest born b b' \<longleftrightarrow> cell b' = cell b \<and> newest b' = newest b \<and> born b' = born b"

locale lease_bucket =
  fixes kv :: "'b bucket_api" and cell :: "'b \<Rightarrow> (bytes \<times> u64 \<times> nat) option" and newest born :: "'b \<Rightarrow> u64"
  assumes entry_known: "kv_entry kv t b = Inr (Some (v, q)) \<Longrightarrow> q \<le> newest b \<and> (\<forall>v' w. cell b = Some (v', q, w) \<longrightarrow> v' = v)"
    and create_done: "kv_create kv t v b = (Inr q, b') \<Longrightarrow> created cell newest born t v q b b'"
    and create_failed: "kv_create kv t v b = (Inl e, b') \<Longrightarrow>
      untouched cell newest born b b' \<or> (\<exists>q. created cell newest born t v q b b')"
    and update_done: "kv_update kv t v r b = (Inr q, b') \<Longrightarrow> replaced cell newest born t v r q b b'"
    and update_failed: "kv_update kv t v r b = (Inl e, b') \<Longrightarrow>
      untouched cell newest born b b' \<or> (\<exists>q. replaced cell newest born t v r q b b')"
    and expire: "untouched cell newest born b (kv_expire kv t b)
      \<or> (\<exists>v q w. cell b = Some (v, q, w) \<and> w + 5000 \<le> t) \<and> cell (kv_expire kv t b) = None
         \<and> newest (kv_expire kv t b) = newest b \<and> born (kv_expire kv t b) = born b"

section \<open>A bucket in memory\<close>

record mem_bucket =
  mb_slot :: "(bytes \<times> u64 \<times> nat) option"
  mb_top :: u64
  mb_born :: u64

definition mem_bucket_api :: "mem_bucket bucket_api" where
  "mem_bucket_api = \<lparr>
     kv_entry = (\<lambda>t b.
       case mb_slot b of
         Some (v, q, w) \<Rightarrow> if q \<le> mb_top b then Inr (Some (v, q)) else Inl IoError
       | None \<Rightarrow> Inr None),
     kv_create = (\<lambda>t v b.
       if mb_slot b = None \<and> mb_top b < mb_top b + 1
       then (Inr (mb_top b + 1), \<lparr>mb_slot = Some (v, mb_top b + 1, t), mb_top = mb_top b + 1, mb_born = mb_top b + 1\<rparr>)
       else (Inl IoError, b)),
     kv_update = (\<lambda>t v r b.
       case mb_slot b of
         Some (v0, r0, w0) \<Rightarrow>
           if r0 = r \<and> mb_top b < mb_top b + 1
           then (Inr (mb_top b + 1), b\<lparr>mb_slot := Some (v, mb_top b + 1, t), mb_top := mb_top b + 1\<rparr>)
           else (Inl IoError, b)
       | None \<Rightarrow> (Inl IoError, b)),
     kv_expire = (\<lambda>t b.
       case mb_slot b of
         Some (v, q, w) \<Rightarrow> if w + 5000 \<le> t then b\<lparr>mb_slot := None\<rparr> else b
       | None \<Rightarrow> b)\<rparr>"

interpretation mem_bucket: lease_bucket mem_bucket_api mb_slot mb_top mb_born
proof
  fix t v v' r q e and b b' :: mem_bucket
  show "kv_entry mem_bucket_api t b = Inr (Some (v, q)) \<Longrightarrow>
      q \<le> mb_top b \<and> (\<forall>v' w. mb_slot b = Some (v', q, w) \<longrightarrow> v' = v)"
    by (auto simp: mem_bucket_api_def split: option.splits if_splits)
  show "kv_create mem_bucket_api t v b = (Inr q, b') \<Longrightarrow> created mb_slot mb_top mb_born t v q b b'"
    by (auto simp: mem_bucket_api_def created_def split: if_splits)
  show "kv_create mem_bucket_api t v b = (Inl e, b') \<Longrightarrow>
      untouched mb_slot mb_top mb_born b b' \<or> (\<exists>q. created mb_slot mb_top mb_born t v q b b')"
    by (auto simp: mem_bucket_api_def untouched_def split: if_splits)
  show "kv_update mem_bucket_api t v r b = (Inr q, b') \<Longrightarrow> replaced mb_slot mb_top mb_born t v r q b b'"
    by (auto simp: mem_bucket_api_def replaced_def split: if_splits option.splits)
  show "kv_update mem_bucket_api t v r b = (Inl e, b') \<Longrightarrow>
      untouched mb_slot mb_top mb_born b b' \<or> (\<exists>q. replaced mb_slot mb_top mb_born t v r q b b')"
    by (auto simp: mem_bucket_api_def untouched_def split: if_splits option.splits)
  show "untouched mb_slot mb_top mb_born b (kv_expire mem_bucket_api t b)
      \<or> (\<exists>v q w. mb_slot b = Some (v, q, w) \<and> w + 5000 \<le> t) \<and> mb_slot (kv_expire mem_bucket_api t b) = None
         \<and> mb_top (kv_expire mem_bucket_api t b) = mb_top b \<and> mb_born (kv_expire mem_bucket_api t b) = mb_born b"
    by (auto simp: mem_bucket_api_def untouched_def split: option.splits)
qed

end
