(* ===== verification/LeaseSteps.thy ===== *)
theory LeaseSteps
  imports Lease
begin

text \<open>
  The writer lease as a system: several nodes run the loop of \<open>start_writer_lease\<close> against one
  bucket and one log.  A step is a turn of a node, the passing of time, the expiry of the
  entry, the admission of a request by a node whose lease is valid, a publication, or a crash
  of a node, which starts again with its identity.
\<close>

record ('b, 'l) cluster =
  cl_now :: nat
  cl_bucket :: 'b
  cl_log :: 'l
  cl_nodes :: "lease_node list"
  cl_admitted :: "u64 list"

text \<open>A round is decided at most \<open>latency\<close> milliseconds after the write that it rests on.\<close>

definition timely :: "nat \<Rightarrow> nat \<Rightarrow> lease_node \<Rightarrow> bool" where
  "timely latency now n =
     (case ln_phase n of Deciding (Some e) lost \<Rightarrow> now \<le> ln_written n + latency | _ \<Rightarrow> True)"

text \<open>
  Between the claim of an epoch and its fence, a call of the node fails: the fence itself, or
  the write of the epoch although it has happened.
\<close>

definition unlucky :: "('b \<Rightarrow> (bytes \<times> u64 \<times> nat) option) \<Rightarrow> lease_node \<Rightarrow> 'b \<Rightarrow> lease_node \<Rightarrow> 'b \<Rightarrow> bool" where
  "unlucky cell n b n' b' \<longleftrightarrow> ln_phase n' = Deciding None True
     \<and> (\<exists>r. ln_phase n = Fencing r \<or> ln_phase n = Confirming r \<and> cell b' \<noteq> cell b)"

text \<open>
  A write is admitted with the epoch of a lease that is valid at this moment
  (\<open>ensure_writer\<close>), and the handler publishes its batch under this epoch and with a message id
  (\<open>replicate_ops\<close>), at any later time, whatever has become of the lease and of the node.
  Messages without id are not written by the handlers: any program may publish them.
\<close>

inductive lease_step ::
  "lease_json \<Rightarrow> 'b bucket_api \<Rightarrow> 'l log_api \<Rightarrow> ('b \<Rightarrow> (bytes \<times> u64 \<times> nat) option)
     \<Rightarrow> ('l \<Rightarrow> (string option \<times> bytes) list) \<Rightarrow> json_api \<Rightarrow> bool \<Rightarrow> nat
     \<Rightarrow> ('b, 'l) cluster \<Rightarrow> ('b, 'l) cluster \<Rightarrow> bool"
  for ljson kv lapi cell contents json reliable latency where
  pass: "lease_step ljson kv lapi cell contents json reliable latency s (s\<lparr>cl_now := cl_now s + d\<rparr>)"
| expiry: "lease_step ljson kv lapi cell contents json reliable latency s
    (s\<lparr>cl_bucket := kv_expire kv (cl_now s) (cl_bucket s)\<rparr>)"
| publication: "lease_step ljson kv lapi cell contents json reliable latency s (s\<lparr>cl_log := l\<rparr>)"
  if "contents l = contents (cl_log s) @ [(i, p)]" "record_of json p = LogOperations e ops"
    "i \<noteq> None \<longrightarrow> e \<in> set (cl_admitted s)"
| admission: "lease_step ljson kv lapi cell contents json reliable latency s (s\<lparr>cl_admitted := e # cl_admitted s\<rparr>)"
  if "i < length (cl_nodes s)" "valid_epoch_for 2500 (cl_now s) (ln_lease (cl_nodes s ! i)) = Some e"
| turn: "lease_step ljson kv lapi cell contents json reliable latency s
    (s\<lparr>cl_bucket := b, cl_log := l, cl_nodes := (cl_nodes s)[i := n]\<rparr>)"
  if "i < length (cl_nodes s)" "timely latency (cl_now s) (cl_nodes s ! i)"
    "lease_turn ljson kv lapi (cl_now s) (cl_nodes s ! i) (cl_bucket s) (cl_log s) = (n, b, l)"
    "reliable \<longrightarrow> \<not> unlucky cell (cl_nodes s ! i) (cl_bucket s) n b"
| crash: "lease_step ljson kv lapi cell contents json reliable latency s
    (s\<lparr>cl_nodes := (cl_nodes s)[i := lease_start (ln_id (cl_nodes s ! i)) (cl_now s)]\<rparr>)"
  if "i < length (cl_nodes s)" "reliable \<longrightarrow> (\<nexists>r. ln_phase (cl_nodes s ! i) = Fencing r)"

text \<open>
  Where a cluster starts: the nodes have different identities and no lease, the bucket is
  empty, the log has no epoch that the bucket has not given out yet, nothing is admitted, and
  the batches of the log that were published by handlers have their fences before them.
\<close>

definition ops_fenced :: "json_api \<Rightarrow> (string option \<times> bytes) list \<Rightarrow> bool" where
  "ops_fenced json ms \<longleftrightarrow> (\<forall>k e ops. k < length ms \<and> fst (ms ! k) \<noteq> None
     \<and> record_of json (snd (ms ! k)) = LogOperations e ops \<longrightarrow> e \<le> epoch_after 0 (log_records json (take k ms)))"

definition fences_below :: "u64 \<Rightarrow> log_record list \<Rightarrow> bool" where
  "fences_below b rs \<longleftrightarrow> (\<forall>e own. LogFence e own \<in> set rs \<longrightarrow> e \<le> b)"

definition cluster_start ::
  "('b \<Rightarrow> (bytes \<times> u64 \<times> nat) option) \<Rightarrow> ('b \<Rightarrow> u64) \<Rightarrow> ('b \<Rightarrow> u64)
     \<Rightarrow> ('l \<Rightarrow> (string option \<times> bytes) list) \<Rightarrow> json_api \<Rightarrow> ('b, 'l) cluster \<Rightarrow> bool" where
  "cluster_start cell newest born contents json s \<longleftrightarrow>
     distinct (map ln_id (cl_nodes s)) \<and> cell (cl_bucket s) = None \<and> born (cl_bucket s) \<le> newest (cl_bucket s)
     \<and> fences_below (born (cl_bucket s)) (log_records json (contents (cl_log s)))
     \<and> ops_fenced json (contents (cl_log s)) \<and> cl_admitted s = []
     \<and> (\<forall>n \<in> set (cl_nodes s). n = lease_start (ln_id n) (cl_now s) \<and> str_ok (ln_id n))"

section \<open>Epochs of a log\<close>

lemma epoch_after_ge: "e \<le> epoch_after e rs"
  by (induction e rs rule: epoch_after.induct) (auto intro: order_trans)

lemma epoch_after_fence: "LogFence m own \<in> set rs \<Longrightarrow> m \<le> epoch_after e rs"
proof (induction e rs rule: epoch_after.induct)
  case (2 e n own' rs)
  then show ?case using epoch_after_ge [of "max e n" rs] by auto
qed auto

lemma epoch_after_below: "fences_below m rs \<Longrightarrow> e \<le> m \<Longrightarrow> epoch_after e rs \<le> m"
  by (induction e rs rule: epoch_after.induct) (auto simp: fences_below_def)

lemma epoch_after_prefix: "epoch_after e (take k rs) \<le> epoch_after e rs"
  using epoch_after_ge [of "epoch_after e (take k rs)" "drop k rs"]
  by (simp flip: epoch_after_append)

lemma fences_below_append: "fences_below m (rs @ rs') \<longleftrightarrow> fences_below m rs \<and> fences_below m rs'"
  unfolding fences_below_def by auto

lemma fences_below_mono: "fences_below m rs \<Longrightarrow> m \<le> m' \<Longrightarrow> fences_below m' rs"
  unfolding fences_below_def by (meson order_trans)

lemma ops_fenced_append:
  assumes "ops_fenced json ms"
    and "fst m = None \<or> (\<forall>e ops. record_of json (snd m) = LogOperations e ops \<longrightarrow> e \<le> epoch_after 0 (log_records json ms))"
  shows "ops_fenced json (ms @ [m])"
  unfolding ops_fenced_def
proof (intro allI impI)
  fix k e ops
  assume k: "k < length (ms @ [m]) \<and> fst ((ms @ [m]) ! k) \<noteq> None \<and> record_of json (snd ((ms @ [m]) ! k)) = LogOperations e ops"
  show "e \<le> epoch_after 0 (log_records json (take k (ms @ [m])))"
  proof (cases "k < length ms")
    case True
    with k have "fst (ms ! k) \<noteq> None" "record_of json (snd (ms ! k)) = LogOperations e ops" by (simp_all add: nth_append)
    with True assms(1) show ?thesis unfolding ops_fenced_def by simp
  next
    case False
    with k have "k = length ms" by simp
    with k assms(2) show ?thesis by (cases "fst m") auto
  qed
qed

lemma fence_record:
  assumes "encode_log_fence e own = Inr p" "str_ok own"
  shows "record_of json p = LogFence e own"
proof -
  have p: "string_fits own" "p = LOG_MAGIC @ enc_log (BinFence e own)"
    using assms(1) by (simp_all only: encode_log_fence_iff)
  moreover have "log_good (BinFence e own)" using p(1) assms(2) by (simp add: string_good_def)
  moreover have "length p < 2 ^ 63" using p by (simp add: string_fits_def enc_string_def)
  ultimately have "decode_log p = Inr (BinFence e own)" by (simp only: decode_log_iff)
  then show ?thesis by (simp add: record_of_def decode_record_def parse_record_def check_record_def)
qed

section \<open>The invariant\<close>

locale lease_cluster = lease_bucket kv cell newest born + replicated_log lapi contents
  for kv :: "'b bucket_api" and cell newest born and lapi :: "'l log_api" and contents +
  fixes ljson :: lease_json and json :: json_api
  assumes json_roundtrip: "lease_from_slice ljson (lease_to_vec ljson v) = Inr v"
begin

abbreviation "entry i e \<equiv> lease_to_vec ljson \<lparr>lv_instance_id = i, lv_epoch = e\<rparr>"

lemma entry_eq_iff: "lease_to_vec ljson v = lease_to_vec ljson v' \<longleftrightarrow> v = v'"
  by (metis json_roundtrip sum.inject(2))

lemma entry_value: "lease_to_vec ljson v = entry (lv_instance_id v) (lv_epoch v)"
  by (cases v) simp

text \<open>Until five seconds after the time \<open>g\<close> the bucket holds the entry of node \<open>i\<close> and epoch \<open>e\<close>.\<close>

definition backed :: "'b \<Rightarrow> nat \<Rightarrow> bytes \<Rightarrow> u64 \<Rightarrow> nat \<Rightarrow> bool" where
  "backed b now i e g \<longleftrightarrow> 0 < e \<and> g \<le> now
     \<and> (now < g + 5000 \<longrightarrow> (\<exists>q w. cell b = Some (entry i e, q, w) \<and> g \<le> w))"

definition bucket_inv :: "'b \<Rightarrow> bool" where
  "bucket_inv b \<longleftrightarrow> born b \<le> newest b
     \<and> (\<forall>v q w. cell b = Some (v, q, w) \<longrightarrow> born b \<le> q \<and> q \<le> newest b \<and> 0 < born b
          \<and> (\<exists>i e. v = entry i e \<and> (e = born b \<or> e = 0 \<and> q = born b)))"

text \<open>What a node, the service or another node can do to the bucket.\<close>

definition bucket_step :: "nat \<Rightarrow> 'b \<Rightarrow> 'b \<Rightarrow> bool" where
  "bucket_step now b b' \<longleftrightarrow> untouched cell newest born b b'
     \<or> (\<exists>v q w. cell b = Some (v, q, w) \<and> w + 5000 \<le> now) \<and> cell b' = None \<and> newest b' = newest b \<and> born b' = born b
     \<or> (\<exists>i q. created cell newest born now (entry i 0) q b b')
     \<or> (\<exists>i e e0 r q w. cell b = Some (entry i e0, r, w) \<and> (e0 = e \<and> 0 < e \<or> e0 = 0 \<and> e = r)
          \<and> replaced cell newest born now (entry i e) r q b b')"

lemma bucket_step_cases [consumes 1, case_names same expired new again]:
  assumes "bucket_step now b b'"
  obtains "cell b' = cell b" "newest b' = newest b" "born b' = born b"
  | v q w where "cell b = Some (v, q, w)" "w + 5000 \<le> now" "cell b' = None" "newest b' = newest b" "born b' = born b"
  | i q where "cell b = None" "cell b' = Some (entry i 0, q, now)" "newest b < q" "newest b' = q" "born b' = q"
  | i e e0 r q w where "cell b = Some (entry i e0, r, w)" "e0 = e \<and> 0 < e \<or> e0 = 0 \<and> e = r"
      "cell b' = Some (entry i e, q, now)" "newest b < q" "newest b' = q" "born b' = born b"
  using assms unfolding bucket_step_def untouched_def created_def replaced_def by blast

lemma bucket_step_inv: "bucket_step now b b' \<Longrightarrow> bucket_inv b \<Longrightarrow> bucket_inv b'"
proof (induction rule: bucket_step_cases)
  case same
  then show ?case by (simp add: bucket_inv_def)
next
  case expired
  then show ?case by (simp add: bucket_inv_def)
next
  case (new i q)
  then show ?case unfolding bucket_inv_def by (auto intro: le_less_trans)
next
  case (again i e e0 r q w)
  then have inv: "born b \<le> r" "r \<le> newest b" "0 < born b" "e0 = born b \<or> e0 = 0 \<and> r = born b"
    unfolding bucket_inv_def by (auto simp: entry_eq_iff)
  have "born b \<le> q" using inv(1,2) again(4) by (metis order_le_less_trans order_less_imp_le)
  moreover have "e = born b" using again(2) inv(3,4) by auto
  ultimately show ?case using again inv(3) unfolding bucket_inv_def by auto
qed

lemma bucket_step_grows: "bucket_step now b b' \<Longrightarrow> bucket_inv b \<Longrightarrow> newest b \<le> newest b' \<and> born b \<le> born b'"
  by (induction rule: bucket_step_cases) (auto simp: bucket_inv_def)

lemma backed_step:
  assumes "bucket_step now b b'" "backed b now i e g"
  shows "backed b' now i e g"
  using assms(1)
proof (cases rule: bucket_step_cases)
  case same
  with assms(2) show ?thesis by (simp add: backed_def)
next
  case expired
  with assms(2) show ?thesis unfolding backed_def by auto
next
  case new
  with assms(2) show ?thesis unfolding backed_def by auto
next
  case (again i' e' e0 r q w)
  with assms(2) show ?thesis unfolding backed_def by (auto simp: entry_eq_iff)
qed

lemma backed_later: "backed b now i e g \<Longrightarrow> now \<le> now' \<Longrightarrow> backed b now' i e g"
  unfolding backed_def by auto

text \<open>The newest entry has the epoch of the last creation.\<close>

lemma backed_born: "backed b now i e g \<Longrightarrow> now < g + 5000 \<Longrightarrow> bucket_inv b \<Longrightarrow> e = born b"
  unfolding backed_def bucket_inv_def by (auto simp: entry_eq_iff)

definition phase_inv :: "'b \<Rightarrow> nat \<Rightarrow> lease_node \<Rightarrow> bool" where
  "phase_inv b now n \<longleftrightarrow>
     (case ln_phase n of
        Renewing value r \<Rightarrow> lv_instance_id value = ln_id n \<and> 0 < lv_epoch value \<and> r \<le> newest b
          \<and> (\<forall>v w. cell b = Some (v, r, w) \<longrightarrow> v = lease_to_vec ljson value)
      | Confirming r \<Rightarrow> 0 < r \<and> r \<le> born b \<and> (\<forall>v w. cell b = Some (v, r, w) \<longrightarrow> v = entry (ln_id n) 0)
      | Fencing r \<Rightarrow> r \<le> born b \<and> backed b now (ln_id n) r (ln_written n)
      | Deciding (Some e) _ \<Rightarrow> backed b now (ln_id n) e (ln_written n)
      | _ \<Rightarrow> True)"

definition lease_inv :: "nat \<Rightarrow> 'b \<Rightarrow> nat \<Rightarrow> lease_node \<Rightarrow> bool" where
  "lease_inv latency b now n \<longleftrightarrow> (ls_owned (ln_lease n) \<longrightarrow>
     (\<exists>g. ls_valid_until (ln_lease n) \<le> g + latency + 4000 \<and> backed b now (ln_id n) (ls_epoch (ln_lease n)) g))"

text \<open>An entry at a revision given out before was there before.\<close>

lemma kept:
  assumes "bucket_step now b b'" "cell b' = Some (v, r, w)" "r \<le> newest b"
  shows "cell b = Some (v, r, w)"
  using assms(1)
proof (cases rule: bucket_step_cases)
  case same
  with assms show ?thesis by simp
next
  case expired
  with assms show ?thesis by simp
next
  case new
  with assms show ?thesis by simp
next
  case again
  with assms show ?thesis by simp
qed

lemma phase_inv_step:
  assumes "bucket_step now b b'" "bucket_inv b" "phase_inv b now n"
  shows "phase_inv b' now n"
proof -
  have keep: "P v" if "\<forall>v w. cell b = Some (v, r, w) \<longrightarrow> P v" "r \<le> newest b" "cell b' = Some (v, r, w)" for P r v w
    using kept [OF assms(1) that(3,2)] that(1) by blast
  have le: "born b \<le> newest b" "newest b \<le> newest b'" "born b \<le> born b'"
    using assms(2) bucket_step_grows [OF assms(1,2)] by (simp_all add: bucket_inv_def)
  note backed = backed_step [OF assms(1)]
  show ?thesis
  proof (cases "ln_phase n")
    case (Renewing x r)
    with assms(3) have "\<forall>v w. cell b = Some (v, r, w) \<longrightarrow> v = lease_to_vec ljson x" "r \<le> newest b"
      "lv_instance_id x = ln_id n" "0 < lv_epoch x" by (simp_all add: phase_inv_def)
    with keep [of r "\<lambda>v. v = lease_to_vec ljson x"] le(2) Renewing show ?thesis
      unfolding phase_inv_def by (auto intro: order_trans)
  next
    case (Confirming r)
    with assms(3) have c: "\<forall>v w. cell b = Some (v, r, w) \<longrightarrow> v = entry (ln_id n) 0" "r \<le> born b" "0 < r"
      by (simp_all add: phase_inv_def)
    then have "r \<le> newest b" "r \<le> born b'" using le(1,3) by (auto intro: order_trans)
    with keep [of r "\<lambda>v. v = entry (ln_id n) 0"] c Confirming show ?thesis unfolding phase_inv_def by auto
  next
    case (Fencing r)
    with assms(3) le(3) backed show ?thesis by (auto simp: phase_inv_def intro: order_trans)
  next
    case (Deciding renewed lost)
    with assms(3) backed show ?thesis by (auto simp: phase_inv_def split: option.splits)
  qed (simp_all add: phase_inv_def)
qed

lemma phase_inv_later: "phase_inv b now n \<Longrightarrow> now \<le> now' \<Longrightarrow> phase_inv b now' n"
  unfolding phase_inv_def by (auto split: lease_phase.splits option.splits intro: backed_later)

lemma lease_inv_step: "bucket_step now b b' \<Longrightarrow> lease_inv latency b now n \<Longrightarrow> lease_inv latency b' now n"
  unfolding lease_inv_def using backed_step by blast

lemma lease_inv_later: "lease_inv latency b now n \<Longrightarrow> now \<le> now' \<Longrightarrow> lease_inv latency b now' n"
  unfolding lease_inv_def using backed_later by blast

section \<open>A turn keeps the invariant\<close>

lemma look_safe:
  assumes "bucket_inv b"
  shows "phase_inv b now (n\<lparr>ln_phase := look ljson (ln_id n) (kv_entry kv now b)\<rparr>)"
proof (cases "\<exists>v r. kv_entry kv now b = Inr (Some (v, r))")
  case True
  then obtain v r where e: "kv_entry kv now b = Inr (Some (v, r))" by blast
  from entry_known [OF e] have known: "r \<le> newest b" "\<forall>v' w. cell b = Some (v', r, w) \<longrightarrow> v' = v" by simp_all
  show ?thesis
  proof (cases "lease_from_slice ljson v")
    case (Inr x)
    have vec: "v = lease_to_vec ljson x" if c: "cell b = Some (v, r, w)" for w
    proof -
      from c assms obtain i e where "v = entry i e" unfolding bucket_inv_def by blast
      with Inr show ?thesis by (simp add: json_roundtrip)
    qed
    have "\<forall>v' w. cell b = Some (v', r, w) \<longrightarrow> v' = lease_to_vec ljson x" using known(2) vec by blast
    with known(1) show ?thesis by (simp add: e Inr phase_inv_def look_def)
  qed (simp add: e look_def phase_inv_def)
next
  case False
  then show ?thesis by (auto simp: look_def phase_inv_def split: sum.split option.split)
qed

lemma update_step:
  assumes "kv_update kv now (entry i e) r b = (res, b')"
    and "\<And>v w. cell b = Some (v, r, w) \<Longrightarrow> v = entry i e0" "e0 = e \<and> 0 < e \<or> e0 = 0 \<and> e = r"
  shows "bucket_step now b b' \<and> (is_ok res \<longrightarrow> (\<exists>q. cell b' = Some (entry i e, q, now)))"
proof -
  have "bucket_step now b b'" if "replaced cell newest born now (entry i e) r q b b'" for q
  proof -
    from that obtain w where "cell b = Some (entry i e0, r, w)" using assms(2) unfolding replaced_def by blast
    with that assms(3) show ?thesis unfolding bucket_step_def by blast
  qed
  moreover have "bucket_step now b b'" if "untouched cell newest born b b'" using that by (simp add: bucket_step_def)
  ultimately show ?thesis
    using assms(1) update_done [of now "entry i e" r b] update_failed [of now "entry i e" r b]
    by (cases res) (auto simp: replaced_def is_ok_iff)
qed

lemma create_step:
  assumes "kv_create kv now (entry i 0) b = (res, b')"
  shows "bucket_step now b b' \<and> (\<forall>q. res = Inr q \<longrightarrow> 0 < q \<and> born b' = q \<and> (\<exists>w. cell b' = Some (entry i 0, q, w)))"
proof -
  have "bucket_step now b b' \<and> 0 < q" if "created cell newest born now (entry i 0) q b b'" for q
    using that word_gt_0 [of q] unfolding bucket_step_def created_def by auto
  moreover have "bucket_step now b b'" if "untouched cell newest born b b'" using that by (simp add: bucket_step_def)
  ultimately show ?thesis
    using assms create_done [of now "entry i 0" b] create_failed [of now "entry i 0" b]
    by (cases res) (auto simp: created_def)
qed

lemma fence_step:
  assumes "append_fence lapi e own l = (res, l')" "str_ok own"
  shows "(contents l' = contents l \<or> (\<exists>p. contents l' = contents l @ [(None, p)] \<and> record_of json p = LogFence e own))
    \<and> (is_ok res \<longrightarrow> LogFence e own \<in> set (log_records json (contents l')))"
proof (cases "encode_log_fence e own")
  case (Inr p)
  from assms(1) Inr have pub: "js_publish lapi None p l = (res, l')" by (simp add: append_fence_def)
  note rec = fence_record [OF Inr assms(2), of json]
  have "LogFence e own \<in> set (log_records json (contents l'))" if "res = Inr q" for q
  proof -
    from publish_ack [of None p l q l'] pub that have "1 \<le> unat q" "unat q \<le> length (contents l')"
      "contents l' ! (unat q - 1) = (None, p)" by auto
    then have "unat q - 1 < length (contents l')" "contents l' ! (unat q - 1) = (None, p)" by simp_all
    then have "(None, p) \<in> set (contents l')" by (metis nth_mem)
    with rec show ?thesis unfolding log_records_def by force
  qed
  moreover have "contents l' \<in> {contents l, contents l @ [(None, p)]}" using publish_contents [of None p l] pub by simp
  ultimately show ?thesis using rec by (auto simp: is_ok_iff)
qed (use assms(1) in \<open>auto simp: append_fence_def\<close>)

text \<open>The log after a turn: the fence of the epoch that the node has claimed may have been added.\<close>

definition log_step :: "'b \<Rightarrow> bytes \<Rightarrow> 'l \<Rightarrow> 'l \<Rightarrow> bool" where
  "log_step b own l l' \<longleftrightarrow> contents l' = contents l
     \<or> (\<exists>e p. contents l' = contents l @ [(None, p)] \<and> record_of json p = LogFence e own \<and> e \<le> born b)"

lemma backed_fresh: "cell b = Some (entry i e, q, now) \<Longrightarrow> 0 < e \<Longrightarrow> backed b now i e now"
  unfolding backed_def by auto

lemma lease_inv_same: "ln_lease n' = ln_lease n \<Longrightarrow> ln_id n' = ln_id n \<Longrightarrow> lease_inv latency b now n' = lease_inv latency b now n"
  by (simp add: lease_inv_def)

lemma turn_safe:
  assumes inv: "bucket_inv b" "phase_inv b now n" "lease_inv latency b now n" "timely latency now n" "str_ok (ln_id n)"
    and t: "lease_turn ljson kv lapi now n b l = (n', b', l')"
  shows "bucket_step now b b' \<and> phase_inv b' now n' \<and> lease_inv latency b' now n' \<and> ln_id n' = ln_id n \<and> log_step b' (ln_id n) l l'"
proof -
  have stay: "bucket_step now b b" by (simp add: bucket_step_def untouched_def)
  have lstay: "log_step b' (ln_id n) l l" by (simp add: log_step_def)
  have lease: "lease_inv latency b' now n'" if "bucket_step now b b'" "ln_lease n' = ln_lease n" "ln_id n' = ln_id n"
    using lease_inv_step [OF that(1) inv(3)] lease_inv_same [OF that(2,3)] by simp
  show ?thesis
  proof (cases "ln_phase n")
    case Asleep
    with t have "n' = n\<lparr>ln_phase := look ljson (ln_id n) (kv_entry kv now b)\<rparr>" "b' = b" "l' = l" by (auto simp: lease_turn_def)
    with stay lease lstay look_safe [OF inv(1)] show ?thesis by simp
  next
    case (Renewing x r)
    obtain res b1 where u: "kv_update kv now (lease_to_vec ljson x) r b = (res, b1)" by fastforce
    from inv(2) Renewing have x: "lv_instance_id x = ln_id n" "0 < lv_epoch x"
      "\<And>v w. cell b = Some (v, r, w) \<Longrightarrow> v = lease_to_vec ljson x" by (simp_all add: phase_inv_def)
    from update_step [OF u [unfolded entry_value [of x]], of "lv_epoch x"] x(2,3)
    have step: "bucket_step now b b1" "is_ok res \<longrightarrow> (\<exists>q. cell b1 = Some (entry (ln_id n) (lv_epoch x), q, now))"
      unfolding x(1) [symmetric] entry_value [symmetric] by auto
    from t Renewing u have n': "b' = b1" "l' = l" "n' = (if is_ok res then n\<lparr>ln_phase := Deciding (Some (lv_epoch x)) False, ln_written := now\<rparr>
        else n\<lparr>ln_phase := Deciding None False\<rparr>)"
      by (auto simp: lease_turn_def renew_def split: sum.splits)
    with step x(2) lease lstay backed_fresh show ?thesis by (auto simp: phase_inv_def)
  next
    case Creating
    obtain res b1 where u: "kv_create kv now (entry (ln_id n) 0) b = (res, b1)" by fastforce
    from create_step [OF u] have step: "bucket_step now b b1"
      "\<And>q. res = Inr q \<Longrightarrow> 0 < q \<and> born b1 = q \<and> (\<exists>w. cell b1 = Some (entry (ln_id n) 0, q, w))" by auto
    from t Creating u have n': "b' = b1" "l' = l"
      "n' = (case res of Inr q \<Rightarrow> n\<lparr>ln_phase := Confirming q\<rparr> | Inl _ \<Rightarrow> n\<lparr>ln_phase := Deciding None True\<rparr>)"
      by (auto simp: lease_turn_def create_lease_def split: sum.splits)
    with step lease lstay show ?thesis by (cases res) (auto simp: phase_inv_def)
  next
    case (Confirming r)
    obtain res b1 where u: "kv_update kv now (entry (ln_id n) r) r b = (res, b1)" by fastforce
    from inv(2) Confirming have r: "0 < r" "r \<le> born b" "\<And>v w. cell b = Some (v, r, w) \<Longrightarrow> v = entry (ln_id n) 0"
      by (simp_all add: phase_inv_def)
    from update_step [OF u r(3)] have step: "bucket_step now b b1"
      "is_ok res \<longrightarrow> (\<exists>q. cell b1 = Some (entry (ln_id n) r, q, now))" by simp_all
    from bucket_step_grows [OF step(1) inv(1)] r(2) have "r \<le> born b1" by (auto intro: order_trans)
    moreover from t Confirming u have "b' = b1" "l' = l" "n' = (if is_ok res then n\<lparr>ln_phase := Fencing r, ln_written := now\<rparr>
        else n\<lparr>ln_phase := Deciding None True\<rparr>)"
      by (auto simp: lease_turn_def confirm_def split: sum.splits)
    ultimately show ?thesis using step r(1) lease lstay backed_fresh by (auto simp: phase_inv_def)
  next
    case (Fencing r)
    obtain res l1 where f: "append_fence lapi r (ln_id n) l = (res, l1)" by fastforce
    from inv(2) Fencing have r: "r \<le> born b" "backed b now (ln_id n) r (ln_written n)" by (simp_all add: phase_inv_def)
    from t Fencing f have n': "b' = b" "l' = l1" "n' = (if is_ok res then n\<lparr>ln_phase := Deciding (Some r) False\<rparr>
        else n\<lparr>ln_phase := Deciding None True\<rparr>)"
      by (auto simp: lease_turn_def fence_def split: sum.splits)
    have "log_step b' (ln_id n) l l'" using fence_step [OF f inv(5)] r(1) n' unfolding log_step_def by blast
    with n' r(2) stay lease show ?thesis by (auto simp: phase_inv_def)
  next
    case (Deciding renewed lost)
    from t Deciding have n': "n' = n\<lparr>ln_phase := Asleep, ln_lease := decide now renewed lost (ln_lease n)\<rparr>" "b' = b" "l' = l"
      by (auto simp: lease_turn_def)
    have "lease_inv latency b now n'"
    proof (cases renewed)
      case None
      with inv(3) n'(1) show ?thesis by (auto simp: lease_inv_def decide_def)
    next
      case (Some e)
      with inv(2) Deciding have "backed b now (ln_id n) e (ln_written n)" by (simp add: phase_inv_def)
      moreover have "now \<le> ln_written n + latency" using inv(4) Deciding Some by (simp add: timely_def)
      ultimately show ?thesis using Some n'(1) by (auto simp: lease_inv_def decide_def)
    qed
    with n' stay lstay show ?thesis by (simp add: phase_inv_def)
  qed
qed

section \<open>Reachable states\<close>

abbreviation "recs l \<equiv> log_records json (contents l)"

definition cluster_inv :: "nat \<Rightarrow> ('b, 'l) cluster \<Rightarrow> bool" where
  "cluster_inv latency s \<longleftrightarrow> bucket_inv (cl_bucket s) \<and> fences_below (born (cl_bucket s)) (recs (cl_log s))
     \<and> (\<forall>n \<in> set (cl_nodes s). phase_inv (cl_bucket s) (cl_now s) n \<and> lease_inv latency (cl_bucket s) (cl_now s) n \<and> str_ok (ln_id n))"

lemma cluster_inv_bucket:
  assumes "cluster_inv latency s" "bucket_step (cl_now s) (cl_bucket s) b"
  shows "cluster_inv latency (s\<lparr>cl_bucket := b\<rparr>)"
  using assms bucket_step_inv [OF assms(2)] bucket_step_grows [OF assms(2)] phase_inv_step [OF assms(2)] lease_inv_step [OF assms(2)]
  by (auto simp: cluster_inv_def intro: fences_below_mono)

lemma cluster_inv_node:
  assumes "cluster_inv latency s" "phase_inv (cl_bucket s) (cl_now s) n" "lease_inv latency (cl_bucket s) (cl_now s) n" "str_ok (ln_id n)"
  shows "cluster_inv latency (s\<lparr>cl_nodes := (cl_nodes s)[i := n]\<rparr>)"
  using assms set_update_subset_insert [of "cl_nodes s" i n] by (auto simp: cluster_inv_def)

lemma cluster_inv_log:
  assumes "cluster_inv latency s" "recs l = recs (cl_log s) @ rs" "fences_below (born (cl_bucket s)) rs"
  shows "cluster_inv latency (s\<lparr>cl_log := l\<rparr>)"
  using assms by (simp add: cluster_inv_def fences_below_append)

lemma expire_step: "bucket_step t b (kv_expire kv t b)"
  using expire [of b t] unfolding bucket_step_def by blast

lemma start_node: "phase_inv b now (lease_start i t) \<and> lease_inv latency b now (lease_start i t)"
  by (simp add: phase_inv_def lease_inv_def lease_start_def)

lemma log_step_records:
  assumes "log_step b own l l'"
  shows "\<exists>rs. recs l' = recs l @ rs \<and> fences_below (born b) rs \<and> (rs = [] \<or> (\<exists>e. rs = [LogFence e own]))"
  using assms unfolding log_step_def
proof (elim disjE exE conjE)
  assume "contents l' = contents l"
  then show ?thesis by (simp add: fences_below_def)
next
  fix e p
  assume "contents l' = contents l @ [(None, p)]" "record_of json p = LogFence e own" "e \<le> born b"
  then show ?thesis by (simp add: log_records_append) (simp add: log_records_def fences_below_def)
qed

lemma step_ids: "lease_step ljson kv lapi cell contents json reliable latency s s' \<Longrightarrow> map ln_id (cl_nodes s') = map ln_id (cl_nodes s)"
proof (induction rule: lease_step.induct)
  case (turn i s n b l)
  from turn(3) have "ln_id n = ln_id (cl_nodes s ! i)"
    by (auto simp: lease_turn_def renew_def create_lease_def confirm_def fence_def split: lease_phase.splits prod.splits sum.splits)
  with turn(1) show ?case by (simp add: map_update list_update_same_conv)
next
  case (crash i s)
  then show ?case by (simp add: map_update list_update_same_conv lease_start_def)
qed simp_all

lemma step_inv:
  "lease_step ljson kv lapi cell contents json reliable latency s s' \<Longrightarrow> cluster_inv latency s \<Longrightarrow> cluster_inv latency s'"
proof (induction rule: lease_step.induct)
  case (pass s d)
  then show ?case using phase_inv_later lease_inv_later by (auto simp: cluster_inv_def)
next
  case (expiry s)
  then show ?case by (intro cluster_inv_bucket expire_step)
next
  case (publication l s i p e ops)
  from publication(1) have "recs l = recs (cl_log s) @ [LogOperations e ops]"
    using publication(2) by (simp add: log_records_append) (simp add: log_records_def)
  with publication(4) show ?case by (rule cluster_inv_log) (simp add: fences_below_def)
next
  case (admission i s e)
  then show ?case by (simp add: cluster_inv_def)
next
  case (turn i s n b l)
  let ?n = "cl_nodes s ! i"
  from turn(1) have mem: "?n \<in> set (cl_nodes s)" by simp
  with turn(5) have n: "bucket_inv (cl_bucket s)" "phase_inv (cl_bucket s) (cl_now s) ?n" "lease_inv latency (cl_bucket s) (cl_now s) ?n"
    "str_ok (ln_id ?n)" by (simp_all add: cluster_inv_def)
  from turn_safe [OF n(1-3) turn(2) n(4) turn(3)] have safe: "bucket_step (cl_now s) (cl_bucket s) b"
    "phase_inv b (cl_now s) n" "lease_inv latency b (cl_now s) n" "ln_id n = ln_id ?n" "log_step b (ln_id ?n) (cl_log s) l" by simp_all
  from log_step_records [OF safe(5)] obtain rs where rs: "recs l = recs (cl_log s) @ rs" "fences_below (born b) rs" by blast
  have "cluster_inv latency (s\<lparr>cl_bucket := b\<rparr>)" by (rule cluster_inv_bucket [OF turn(5) safe(1)])
  then have "cluster_inv latency (s\<lparr>cl_bucket := b, cl_log := l\<rparr>)"
    using rs by (intro cluster_inv_log [of latency "s\<lparr>cl_bucket := b\<rparr>", simplified]) simp_all
  from cluster_inv_node [OF this, of n i] safe(2,3,4) n(4) show ?case by simp
next
  case (crash i s)
  then have "str_ok (ln_id (cl_nodes s ! i))" by (simp add: cluster_inv_def)
  with crash(3) start_node show ?case by (intro cluster_inv_node) (simp_all add: lease_start_def)
qed

lemma start_inv:
  assumes "cluster_start cell newest born contents json s"
  shows "cluster_inv latency s"
proof -
  have "phase_inv (cl_bucket s) (cl_now s) n \<and> lease_inv latency (cl_bucket s) (cl_now s) n" if "n \<in> set (cl_nodes s)" for n
    using assms that start_node [of "cl_bucket s" "cl_now s" "ln_id n" "cl_now s" latency] unfolding cluster_start_def by metis
  with assms show ?thesis by (auto simp: cluster_start_def cluster_inv_def bucket_inv_def)
qed

lemma reach_inv:
  assumes "(lease_step ljson kv lapi cell contents json reliable latency)\<^sup>*\<^sup>* s0 s" "cluster_start cell newest born contents json s0"
  shows "cluster_inv latency s \<and> map ln_id (cl_nodes s) = map ln_id (cl_nodes s0)"
  using assms
proof (induction rule: rtranclp_induct)
  case base
  then show ?case using start_inv by blast
next
  case (step s s')
  then show ?case using step_inv step_ids by metis
qed

text \<open>A lease that is valid with a sufficient margin is the entry of the bucket.\<close>

lemma valid_backed:
  assumes "cluster_inv latency s" "n \<in> set (cl_nodes s)" "valid_epoch_for margin (cl_now s) (ln_lease n) = Some e"
    and "latency + 4000 \<le> 5000 + margin"
  shows "e = born (cl_bucket s) \<and> 0 < e \<and> (\<exists>q w. cell (cl_bucket s) = Some (entry (ln_id n) e, q, w))"
proof -
  from assms(3) have own: "ls_owned (ln_lease n)" "cl_now s + margin < ls_valid_until (ln_lease n)" "e = ls_epoch (ln_lease n)"
    by (simp_all add: valid_epoch_for_def split: if_splits)
  with assms(1,2) obtain g where g: "ls_valid_until (ln_lease n) \<le> g + latency + 4000"
    "backed (cl_bucket s) (cl_now s) (ln_id n) e g" unfolding cluster_inv_def lease_inv_def by blast
  have now: "cl_now s < g + 5000" using own(2) g(1) assms(4) by simp
  have "bucket_inv (cl_bucket s)" using assms(1) by (simp add: cluster_inv_def)
  with backed_born [OF g(2) now] g(2) now show ?thesis unfolding backed_def by blast
qed

end

end
