(* ===== verification/LeaseFence.thy ===== *)
theory LeaseFence
  imports LeaseSteps WriteHandlers
begin

text \<open>
  What the writer lease promises to the write path: one writer at a time, whose epoch is the
  active epoch of the log, so that the batches it acknowledges are accepted by every replica;
  and the two ways in which the code breaks this promise.
\<close>

section \<open>Epochs that have their fence\<close>

definition fences :: "log_record list \<Rightarrow> u64 set" where
  "fences rs = {e. \<exists>own. LogFence e own \<in> set rs}"

lemma fences_append: "fences (rs @ rs') = fences rs \<union> fences rs'"
  by (auto simp: fences_def)

context lease_cluster
begin

definition bucket_fenced :: "u64 set \<Rightarrow> 'b \<Rightarrow> lease_node list \<Rightarrow> bool" where
  "bucket_fenced F b ns \<longleftrightarrow> (\<forall>i e q w. cell b = Some (entry i e, q, w) \<and> e \<noteq> 0 \<longrightarrow>
     e \<in> F \<or> (\<exists>n \<in> set ns. ln_id n = i \<and> ln_phase n = Fencing e))"

definition node_fenced :: "u64 set \<Rightarrow> 'b \<Rightarrow> lease_node \<Rightarrow> bool" where
  "node_fenced F b n \<longleftrightarrow> (ls_owned (ln_lease n) \<longrightarrow> ls_epoch (ln_lease n) \<in> F)
     \<and> (case ln_phase n of
          Renewing x r \<Rightarrow> (\<forall>v w. cell b = Some (v, r, w) \<longrightarrow> lv_epoch x \<in> F)
        | Deciding (Some e) _ \<Rightarrow> e \<in> F
        | _ \<Rightarrow> True)"

lemma node_fenced_step:
  assumes "node_fenced F b n" "bucket_step now b b'" "phase_inv b now n" "F \<subseteq> F'"
  shows "node_fenced F' b' n"
proof (cases "ln_phase n")
  case (Renewing x r)
  then have "r \<le> newest b" using assms(3) by (simp add: phase_inv_def)
  with kept [OF assms(2)] assms(1,4) Renewing show ?thesis unfolding node_fenced_def by fastforce
next
  case (Deciding renewed lost)
  with assms(1,4) show ?thesis unfolding node_fenced_def by (cases renewed) auto
qed (use assms(1,4) in \<open>auto simp: node_fenced_def\<close>)

text \<open>
  The witnesses of the bucket other than the node at \<open>i\<close> stay when that node is replaced.
\<close>

lemma bucket_fenced_replace:
  assumes "bucket_fenced F b ns" "i < length ns" "F \<subseteq> F'" "cell b' = cell b"
    and "\<And>e. ln_phase (ns ! i) = Fencing e \<Longrightarrow> e \<in> F'"
  shows "bucket_fenced F' b' (ns[i := n'])"
  unfolding bucket_fenced_def
proof (intro allI impI)
  fix j e q w
  assume c: "cell b' = Some (entry j e, q, w) \<and> e \<noteq> 0"
  then have "e \<in> F \<or> (\<exists>n \<in> set ns. ln_id n = j \<and> ln_phase n = Fencing e)"
    using assms(1,4) unfolding bucket_fenced_def by metis
  then show "e \<in> F' \<or> (\<exists>n \<in> set (ns[i := n']). ln_id n = j \<and> ln_phase n = Fencing e)"
  proof
    assume "\<exists>n \<in> set ns. ln_id n = j \<and> ln_phase n = Fencing e"
    then obtain k where k: "k < length ns" "ln_id (ns ! k) = j" "ln_phase (ns ! k) = Fencing e" by (metis in_set_conv_nth)
    show ?thesis
    proof (cases "k = i")
      case True
      with assms(5) k(3) show ?thesis by simp
    next
      case False
      then have "ns[i := n'] ! k = ns ! k" by simp
      moreover have "ns[i := n'] ! k \<in> set (ns[i := n'])" using k(1) by (intro nth_mem) simp
      ultimately show ?thesis using k(2,3) by auto
    qed
  qed (use assms(3) in auto)
qed

text \<open>The entry of a node that is not about to write its fence has a fence.\<close>

lemma own_entry_fenced:
  assumes "bucket_fenced F b ns" "distinct (map ln_id ns)" "i < length ns" "\<nexists>e. ln_phase (ns ! i) = Fencing e"
    and "cell b = Some (entry (ln_id (ns ! i)) e, q, w)" "e \<noteq> 0"
  shows "e \<in> F"
proof (rule ccontr)
  assume "e \<notin> F"
  with assms(1,5,6) obtain n where n: "n \<in> set ns" "ln_id n = ln_id (ns ! i)" "ln_phase n = Fencing e"
    unfolding bucket_fenced_def by blast
  then obtain k where "k < length ns" "ns ! k = n" by (metis in_set_conv_nth)
  with n(2) assms(2,3) have "k = i" by (metis distinct_map distinct_conv_nth length_map nth_map)
  with n(3) \<open>ns ! k = n\<close> assms(4) show False by auto
qed

lemma bucket_fenced_new:
  assumes "cell b' = Some (entry i e, q, w)" "e = 0 \<or> e \<in> F \<or> (\<exists>n \<in> set ns. ln_id n = i \<and> ln_phase n = Fencing e)"
  shows "bucket_fenced F b' ns"
  using assms unfolding bucket_fenced_def by (auto simp: entry_eq_iff)

lemma update_fenced:
  assumes "kv_update kv now (entry i e) r b = (res, b')" "bucket_fenced F b ns" "j < length ns"
    and "\<And>v w. cell b = Some (v, r, w) \<Longrightarrow> e \<in> F" "\<nexists>e. ln_phase (ns ! j) = Fencing e"
  shows "bucket_fenced F b' (ns[j := n'])"
proof -
  have new: "bucket_fenced F b' (ns[j := n'])" if "replaced cell newest born now (entry i e) r q b b'" for q
  proof (rule bucket_fenced_new)
    from that show "cell b' = Some (entry i e, q, now)" by (simp add: replaced_def)
    from that assms(4) show "e = 0 \<or> e \<in> F \<or> (\<exists>n \<in> set (ns[j := n']). ln_id n = i \<and> ln_phase n = Fencing e)"
      unfolding replaced_def by blast
  qed
  moreover have "bucket_fenced F b' (ns[j := n'])" if "untouched cell newest born b b'"
    using that assms(5) by (intro bucket_fenced_replace [OF assms(2,3)]) (auto simp: untouched_def)
  ultimately show ?thesis
    using assms(1) update_done [of now "entry i e" r b] update_failed [of now "entry i e" r b] by (cases res) blast+
qed

lemma create_fenced:
  assumes "kv_create kv now (entry i 0) b = (res, b')" "bucket_fenced F b ns" "j < length ns" "\<nexists>e. ln_phase (ns ! j) = Fencing e"
  shows "bucket_fenced F b' (ns[j := n'])"
proof -
  have "bucket_fenced F b' (ns[j := n'])" if "created cell newest born now (entry i 0) q b b'" for q
    using that by (intro bucket_fenced_new [of b' i 0 q now]) (auto simp: created_def)
  moreover have "bucket_fenced F b' (ns[j := n'])" if "untouched cell newest born b b'"
    using that assms(4) by (intro bucket_fenced_replace [OF assms(2,3)]) (auto simp: untouched_def)
  ultimately show ?thesis
    using assms(1) create_done [of now "entry i 0" b] create_failed [of now "entry i 0" b] by (cases res) blast+
qed

lemma turn_fenced:
  assumes inv: "bucket_inv b" "phase_inv b now (ns ! i)" "str_ok (ln_id (ns ! i))"
    and fenced: "bucket_fenced (fences (recs l)) b ns" "node_fenced (fences (recs l)) b (ns ! i)"
    and ns: "i < length ns" "distinct (map ln_id ns)"
    and t: "lease_turn ljson kv lapi now (ns ! i) b l = (n', b', l')" "\<not> unlucky cell (ns ! i) b n' b'"
  shows "bucket_fenced (fences (recs l')) b' (ns[i := n']) \<and> node_fenced (fences (recs l')) b' n'"
proof -
  let ?n = "ns ! i" and ?F = "fences (recs l)"
  have owned: "ls_owned (ln_lease ?n) \<longrightarrow> ls_epoch (ln_lease ?n) \<in> ?F" using fenced(2) by (simp add: node_fenced_def)
  show ?thesis
  proof (cases "ln_phase ?n")
    case Asleep
    with t have n': "n' = ?n\<lparr>ln_phase := look ljson (ln_id ?n) (kv_entry kv now b)\<rparr>" "b' = b" "l' = l"
      by (auto simp: lease_turn_def)
    have "bucket_fenced ?F b (ns[i := n'])" by (rule bucket_fenced_replace [OF fenced(1) ns(1)]) (simp_all add: Asleep)
    moreover have "node_fenced ?F b n'"
    proof (cases "ln_phase n'")
      case (Renewing x r)
      have "phase_inv b now n'" unfolding n'(1) by (rule look_safe [OF inv(1)])
      with Renewing n'(1) have x: "lv_instance_id x = ln_id ?n" "lv_epoch x \<noteq> 0" "\<forall>v w. cell b = Some (v, r, w) \<longrightarrow> v = lease_to_vec ljson x"
        by (simp_all add: phase_inv_def word_gt_0)
      have "lv_epoch x \<in> ?F" if "cell b = Some (v, r, w)" for v w
      proof -
        from x that have "cell b = Some (entry (ln_id ?n) (lv_epoch x), r, w)" using entry_value [of x] by auto
        from own_entry_fenced [OF fenced(1) ns(2,1) _ this x(2)] Asleep show ?thesis by simp
      qed
      with Renewing owned n'(1) show ?thesis by (auto simp: node_fenced_def)
    next
      case (Deciding renewed lost)
      with n'(1) have "renewed = None" by (auto simp: look_def split: sum.splits option.splits if_splits)
      with Deciding owned n'(1) show ?thesis by (simp add: node_fenced_def)
    qed (use owned n'(1) in \<open>simp_all add: node_fenced_def\<close>)
    ultimately show ?thesis by (simp add: n'(2,3))
  next
    case (Renewing x r)
    obtain res b1 where u: "kv_update kv now (lease_to_vec ljson x) r b = (res, b1)" by fastforce
    from fenced(2) Renewing have x: "\<And>v w. cell b = Some (v, r, w) \<Longrightarrow> lv_epoch x \<in> ?F" by (auto simp: node_fenced_def)
    from t(1) Renewing u have n': "b' = b1" "l' = l" "n' = (if is_ok res then ?n\<lparr>ln_phase := Deciding (Some (lv_epoch x)) False, ln_written := now\<rparr>
        else ?n\<lparr>ln_phase := Deciding None False\<rparr>)"
      by (auto simp: lease_turn_def renew_def split: sum.splits)
    have "bucket_fenced ?F b1 (ns[i := n'])"
      by (rule update_fenced [OF u [unfolded entry_value [of x]] fenced(1) ns(1) x]) (simp_all add: Renewing)
    moreover have "lv_epoch x \<in> ?F" if "res = Inr q" for q
      using update_done [of now "lease_to_vec ljson x" r b q b1] u that x unfolding replaced_def by auto
    ultimately show ?thesis using n' owned by (auto simp: node_fenced_def is_ok_iff)
  next
    case Creating
    obtain res b1 where u: "kv_create kv now (entry (ln_id ?n) 0) b = (res, b1)" by fastforce
    from t(1) Creating u have n': "b' = b1" "l' = l"
      "n' = (case res of Inr q \<Rightarrow> ?n\<lparr>ln_phase := Confirming q\<rparr> | Inl _ \<Rightarrow> ?n\<lparr>ln_phase := Deciding None True\<rparr>)"
      by (auto simp: lease_turn_def create_lease_def split: sum.splits)
    have "bucket_fenced ?F b1 (ns[i := n'])" by (rule create_fenced [OF u fenced(1) ns(1)]) (simp add: Creating)
    with n' owned show ?thesis by (cases res) (auto simp: node_fenced_def)
  next
    case (Confirming r)
    obtain res b1 where u: "kv_update kv now (entry (ln_id ?n) r) r b = (res, b1)" by fastforce
    from t(1) Confirming u have n': "b' = b1" "l' = l" "n' = (if is_ok res then ?n\<lparr>ln_phase := Fencing r, ln_written := now\<rparr>
        else ?n\<lparr>ln_phase := Deciding None True\<rparr>)"
      by (auto simp: lease_turn_def confirm_def split: sum.splits)
    have node: "node_fenced ?F b' n'" using n' owned by (auto simp: node_fenced_def)
    have "bucket_fenced ?F b' (ns[i := n'])"
    proof (cases res)
      case (Inl e)
      with n' t(2) Confirming have "cell b' = cell b" by (auto simp: unlucky_def)
      then show ?thesis by (intro bucket_fenced_replace [OF fenced(1) ns(1)]) (simp_all add: Confirming)
    next
      case (Inr q)
      with update_done [of now "entry (ln_id ?n) r" r b q b1] u n'(1) have "cell b' = Some (entry (ln_id ?n) r, q, now)"
        by (simp add: replaced_def)
      moreover have "n' \<in> set (ns[i := n'])" using ns(1) by (simp add: set_update_memI)
      moreover have "ln_id n' = ln_id ?n" "ln_phase n' = Fencing r" using n'(3) Inr by simp_all
      ultimately show ?thesis by (intro bucket_fenced_new) blast+
    qed
    with node n'(2) show ?thesis by simp
  next
    case (Fencing r)
    obtain res l1 where f: "append_fence lapi r (ln_id ?n) l = (res, l1)" by fastforce
    from t(1) Fencing f have n': "b' = b" "l' = l1" "n' = (if is_ok res then ?n\<lparr>ln_phase := Deciding (Some r) False\<rparr>
        else ?n\<lparr>ln_phase := Deciding None True\<rparr>)"
      by (auto simp: lease_turn_def fence_def split: sum.splits)
    with t(2) Fencing have ok: "is_ok res" by (cases "is_ok res") (auto simp: unlucky_def)
    from fence_step [OF f inv(3)] ok have "r \<in> fences (recs l1)" "?F \<subseteq> fences (recs l1)"
      by (auto simp: fences_def log_records_append)
    with n' ok owned bucket_fenced_replace [OF fenced(1) ns(1), of "fences (recs l1)" b n'] Fencing
    show ?thesis by (auto simp: node_fenced_def)
  next
    case (Deciding renewed lost)
    from t Deciding have n': "n' = ?n\<lparr>ln_phase := Asleep, ln_lease := decide now renewed lost (ln_lease ?n)\<rparr>" "b' = b" "l' = l"
      by (auto simp: lease_turn_def)
    have "renewed = Some e \<Longrightarrow> e \<in> ?F" for e using fenced(2) Deciding by (simp add: node_fenced_def)
    then have "node_fenced ?F b n'" using owned n'(1) by (auto simp: node_fenced_def decide_def split: option.splits)
    moreover have "bucket_fenced ?F b (ns[i := n'])" by (rule bucket_fenced_replace [OF fenced(1) ns(1)]) (simp_all add: Deciding)
    ultimately show ?thesis by (simp add: n'(2,3))
  qed
qed

definition fenced_inv :: "('b, 'l) cluster \<Rightarrow> bool" where
  "fenced_inv s \<longleftrightarrow> bucket_fenced (fences (recs (cl_log s))) (cl_bucket s) (cl_nodes s)
     \<and> (\<forall>n \<in> set (cl_nodes s). node_fenced (fences (recs (cl_log s))) (cl_bucket s) n)
     \<and> distinct (map ln_id (cl_nodes s)) \<and> ops_fenced json (contents (cl_log s))
     \<and> set (cl_admitted s) \<subseteq> fences (recs (cl_log s))"

lemma bucket_fenced_mono: "bucket_fenced F b ns \<Longrightarrow> F \<subseteq> F' \<Longrightarrow> bucket_fenced F' b ns"
  unfolding bucket_fenced_def by blast

lemma update_nodes: "\<forall>n \<in> set ns. P n \<Longrightarrow> P m \<Longrightarrow> \<forall>n \<in> set (ns[i := m]). P n"
  using set_update_subset_insert by fastforce

lemma step_fenced:
  "lease_step ljson kv lapi cell contents json True latency s s' \<Longrightarrow> cluster_inv latency s \<Longrightarrow> fenced_inv s \<Longrightarrow> fenced_inv s'"
proof (induction rule: lease_step.induct)
  case (pass s d)
  then show ?case by (simp add: fenced_inv_def)
next
  case (expiry s)
  let ?b = "kv_expire kv (cl_now s) (cl_bucket s)"
  have "cell ?b = cell (cl_bucket s) \<or> cell ?b = None" using expire [of "cl_bucket s" "cl_now s"] by (auto simp: untouched_def)
  then have "bucket_fenced F ?b ns" if "bucket_fenced F (cl_bucket s) ns" for F ns
    using that unfolding bucket_fenced_def by (metis option.distinct(1))
  with expiry node_fenced_step [OF _ expire_step _ subset_refl] show ?case by (auto simp: fenced_inv_def cluster_inv_def)
next
  case (publication l s i p e ops)
  have r: "recs l = recs (cl_log s) @ [LogOperations e ops]"
    using publication(1,2) by (simp add: log_records_append) (simp add: log_records_def)
  then have same: "fences (recs l) = fences (recs (cl_log s))" by (simp add: fences_append) (simp add: fences_def)
  from publication(5) have inv: "set (cl_admitted s) \<subseteq> fences (recs (cl_log s))" "ops_fenced json (contents (cl_log s))"
    by (simp_all add: fenced_inv_def)
  have "e \<le> epoch_after 0 (recs (cl_log s))" if "i \<noteq> None"
  proof -
    from that publication(3) inv(1) have "e \<in> fences (recs (cl_log s))" by blast
    then show ?thesis unfolding fences_def by (auto intro: epoch_after_fence)
  qed
  then have "ops_fenced json (contents l)"
    unfolding publication(1) using publication(2) by (cases i) (auto intro: ops_fenced_append [OF inv(2)])
  with publication(5) same show ?case by (simp add: fenced_inv_def)
next
  case (admission i s e)
  from admission(1) have mem: "cl_nodes s ! i \<in> set (cl_nodes s)" by simp
  from admission(2) have "ls_owned (ln_lease (cl_nodes s ! i))" "e = ls_epoch (ln_lease (cl_nodes s ! i))"
    by (simp_all add: valid_epoch_for_def split: if_splits)
  with admission(4) mem have "e \<in> fences (recs (cl_log s))" by (auto simp: fenced_inv_def node_fenced_def)
  with admission(4) show ?case by (simp add: fenced_inv_def)
next
  case (turn i s n b l)
  let ?n = "cl_nodes s ! i"
  from turn(1) have mem: "?n \<in> set (cl_nodes s)" by simp
  with turn(5) have n: "bucket_inv (cl_bucket s)" "phase_inv (cl_bucket s) (cl_now s) ?n" "lease_inv latency (cl_bucket s) (cl_now s) ?n"
    "str_ok (ln_id ?n)" by (simp_all add: cluster_inv_def)
  from turn_safe [OF n(1-3) turn(2) n(4) turn(3)] have safe: "bucket_step (cl_now s) (cl_bucket s) b"
    "ln_id n = ln_id ?n" "log_step b (ln_id ?n) (cl_log s) l" by simp_all
  from log_step_records [OF safe(3)] obtain rs where rs: "recs l = recs (cl_log s) @ rs" "rs = [] \<or> (\<exists>e. rs = [LogFence e (ln_id ?n)])" by blast
  have mono: "fences (recs (cl_log s)) \<subseteq> fences (recs l)" by (simp add: rs(1) fences_append)
  have inv: "bucket_fenced (fences (recs (cl_log s))) (cl_bucket s) (cl_nodes s)"
    "\<forall>n \<in> set (cl_nodes s). node_fenced (fences (recs (cl_log s))) (cl_bucket s) n"
    "distinct (map ln_id (cl_nodes s))" "ops_fenced json (contents (cl_log s))"
    "set (cl_admitted s) \<subseteq> fences (recs (cl_log s))" using turn(6) by (simp_all add: fenced_inv_def)
  have "\<not> unlucky cell ?n (cl_bucket s) n b" using turn(4) by simp
  from turn_fenced [OF n(1,2,4) inv(1) _ turn(1) inv(3) turn(3) this] inv(2) mem
  have t: "bucket_fenced (fences (recs l)) b ((cl_nodes s)[i := n])" "node_fenced (fences (recs l)) b n" by simp_all
  have "\<forall>m \<in> set (cl_nodes s). node_fenced (fences (recs l)) b m"
    using inv(2) turn(5) node_fenced_step [OF _ safe(1) _ mono] by (auto simp: cluster_inv_def)
  from update_nodes [OF this t(2)] have nodes: "\<forall>m \<in> set ((cl_nodes s)[i := n]). node_fenced (fences (recs l)) b m" .
  have "ops_fenced json (contents l)"
    using safe(3) inv(4) unfolding log_step_def by (elim disjE exE conjE) (simp_all add: ops_fenced_append)
  moreover have "map ln_id ((cl_nodes s)[i := n]) = map ln_id (cl_nodes s)"
    using safe(2) turn(1) by (simp add: map_update list_update_same_conv)
  moreover have "set (cl_admitted s) \<subseteq> fences (recs l)" using inv(5) mono by blast
  ultimately show ?case using t(1) nodes inv(3) by (simp add: fenced_inv_def)
next
  case (crash i s)
  let ?m = "lease_start (ln_id (cl_nodes s ! i)) (cl_now s)"
  have inv: "bucket_fenced (fences (recs (cl_log s))) (cl_bucket s) (cl_nodes s)"
    "\<forall>n \<in> set (cl_nodes s). node_fenced (fences (recs (cl_log s))) (cl_bucket s) n"
    "distinct (map ln_id (cl_nodes s))" "ops_fenced json (contents (cl_log s))"
    "set (cl_admitted s) \<subseteq> fences (recs (cl_log s))" using crash(4) by (simp_all add: fenced_inv_def)
  have m: "node_fenced (fences (recs (cl_log s))) (cl_bucket s) ?m" by (simp add: node_fenced_def lease_start_def)
  have "map ln_id ((cl_nodes s)[i := ?m]) = map ln_id (cl_nodes s)"
    using crash(1) by (simp add: map_update list_update_same_conv lease_start_def)
  moreover have "bucket_fenced (fences (recs (cl_log s))) (cl_bucket s) ((cl_nodes s)[i := ?m])"
    using crash(2) by (intro bucket_fenced_replace [OF inv(1) crash(1)]) auto
  ultimately show ?case using update_nodes [OF inv(2) m, of i] inv(3,4,5) by (simp add: fenced_inv_def)
qed

lemma reach_fenced:
  assumes "(lease_step ljson kv lapi cell contents json True latency)\<^sup>*\<^sup>* s0 s" "cluster_start cell newest born contents json s0"
  shows "fenced_inv s"
  using assms
proof (induction rule: rtranclp_induct)
  case base
  have "node_fenced F b n" if "n \<in> set (cl_nodes s0)" for F b n
  proof -
    have "n = lease_start (ln_id n) (cl_now s0)" using base that by (simp add: cluster_start_def)
    then have "ln_phase n = Asleep" "\<not> ls_owned (ln_lease n)" by (metis lease_node.select_convs(2,3) lease_start_def lease_state.select_convs(1))+
    then show ?thesis by (simp add: node_fenced_def)
  qed
  with base show ?case by (simp add: cluster_start_def fenced_inv_def bucket_fenced_def)
next
  case (step s s')
  then show ?case using step_fenced reach_inv by blast
qed

text \<open>The epoch of a valid lease is the active epoch of the log.\<close>

lemma valid_active:
  assumes "(lease_step ljson kv lapi cell contents json True latency)\<^sup>*\<^sup>* s0 s" "cluster_start cell newest born contents json s0"
    and "n \<in> set (cl_nodes s)" "valid_epoch_for margin (cl_now s) (ln_lease n) = Some e" "latency + 4000 \<le> 5000 + margin"
  shows "epoch_after 0 (recs (cl_log s)) = e"
proof -
  from reach_inv [OF assms(1,2)] have inv: "cluster_inv latency s" by simp
  from valid_backed [OF inv assms(3-5)] have "e = born (cl_bucket s)" by simp
  then have "epoch_after 0 (recs (cl_log s)) \<le> e"
    using inv by (intro epoch_after_below) (simp_all add: cluster_inv_def)
  moreover have "e \<in> fences (recs (cl_log s))"
    using reach_fenced [OF assms(1,2)] assms(3,4) by (auto simp: fenced_inv_def node_fenced_def valid_epoch_for_def split: if_splits)
  then have "e \<le> epoch_after 0 (recs (cl_log s))" unfolding fences_def by (auto intro: epoch_after_fence)
  ultimately show ?thesis by simp
qed

end

end
