(* ===== verification/WriterLease.thy ===== *)
theory WriterLease
  imports LeaseFence
begin

text \<open>
  The properties of the writer lease: one writer at a time, its batches accepted by every
  replica, and the runs in which the code fails to give this.
\<close>

section \<open>Runs\<close>

text \<open>A run of the cluster as a list of actions; a turn must be timely and lucky.\<close>

datatype action = Pass nat | Expire | Turn nat

definition lucky :: "lease_node \<Rightarrow> lease_node \<Rightarrow> bool" where
  "lucky n n' \<longleftrightarrow>
     (case ln_phase n of
        Confirming _ \<Rightarrow> ln_phase n' \<noteq> Deciding None True
      | Fencing _ \<Rightarrow> ln_phase n' \<noteq> Deciding None True
      | _ \<Rightarrow> True)"

fun run_actions ::
  "lease_json \<Rightarrow> 'b bucket_api \<Rightarrow> 'l log_api \<Rightarrow> nat \<Rightarrow> action list \<Rightarrow> ('b, 'l) cluster \<Rightarrow> ('b, 'l) cluster option" where
  "run_actions ljson kv lapi latency [] s = Some s"
| "run_actions ljson kv lapi latency (Pass d # acts) s = run_actions ljson kv lapi latency acts (s\<lparr>cl_now := cl_now s + d\<rparr>)"
| "run_actions ljson kv lapi latency (Expire # acts) s =
     run_actions ljson kv lapi latency acts (s\<lparr>cl_bucket := kv_expire kv (cl_now s) (cl_bucket s)\<rparr>)"
| "run_actions ljson kv lapi latency (Turn i # acts) s =
     (let (n, b, l) = lease_turn ljson kv lapi (cl_now s) (cl_nodes s ! i) (cl_bucket s) (cl_log s) in
      if i < length (cl_nodes s) \<and> timely latency (cl_now s) (cl_nodes s ! i) \<and> lucky (cl_nodes s ! i) n
      then run_actions ljson kv lapi latency acts (s\<lparr>cl_bucket := b, cl_log := l, cl_nodes := (cl_nodes s)[i := n]\<rparr>)
      else None)"

lemma run_reaches:
  "run_actions ljson kv lapi latency acts s = Some s' \<Longrightarrow>
     (lease_step ljson kv lapi cell contents json reliable latency)\<^sup>*\<^sup>* s s'"
proof (induction ljson kv lapi latency acts s rule: run_actions.induct)
  case (2 ljson kv lapi latency d acts s)
  with lease_step.pass [of ljson kv lapi cell contents json reliable latency s d] show ?case
    by (auto intro: converse_rtranclp_into_rtranclp)
next
  case (3 ljson kv lapi latency acts s)
  with lease_step.expiry [of ljson kv lapi cell contents json reliable latency s] show ?case
    by (auto intro: converse_rtranclp_into_rtranclp)
next
  case (4 ljson kv lapi latency i acts s)
  obtain n b l where t: "lease_turn ljson kv lapi (cl_now s) (cl_nodes s ! i) (cl_bucket s) (cl_log s) = (n, b, l)"
    by (metis surj_pair)
  let ?s = "s\<lparr>cl_bucket := b, cl_log := l, cl_nodes := (cl_nodes s)[i := n]\<rparr>"
  from 4(2) t have c: "i < length (cl_nodes s)" "timely latency (cl_now s) (cl_nodes s ! i)" "lucky (cl_nodes s ! i) n"
    "run_actions ljson kv lapi latency acts ?s = Some s'" by (simp_all split: if_splits)
  have "\<not> unlucky cell (cl_nodes s ! i) (cl_bucket s) n b" using c(3) by (auto simp: lucky_def unlucky_def)
  then have "lease_step ljson kv lapi cell contents json reliable latency s ?s" using c(1,2) t by (intro lease_step.turn) simp_all
  with 4(1) [OF t [symmetric]] c show ?case by (auto intro: converse_rtranclp_into_rtranclp)
qed simp

section \<open>A cluster in memory\<close>

definition sample_lease_json :: lease_json where
  "sample_lease_json = \<lparr>
     lease_from_slice = (\<lambda>bs. if length bs < 8 then Inl ParseError
       else Inr \<lparr>lv_instance_id = drop 8 bs, lv_epoch = u64_from_le (take 8 bs)\<rparr>),
     lease_to_vec = (\<lambda>v. u64_to_le (lv_epoch v) @ lv_instance_id v)\<rparr>"

lemma sample_roundtrip: "lease_from_slice sample_lease_json (lease_to_vec sample_lease_json v) = Inr v"
  by (simp add: sample_lease_json_def)

interpretation mem_cluster: lease_cluster mem_bucket_api mb_slot mb_top mb_born list_log_api fst sample_lease_json sample_json
  by unfold_locales (rule sample_roundtrip)

definition fence_message :: "u64 \<Rightarrow> bytes \<Rightarrow> string option \<times> bytes" where
  "fence_message e own = (None, LOG_MAGIC @ enc_log (BinFence e own))"

lemma sample_append_fence:
  assumes "string_fits own" "length ms + 1 < 2 ^ 64"
  shows "append_fence list_log_api e own (ms, ds) = (Inr (word_of_nat (length ms + 1)), ms @ [fence_message e own], ds)"
proof -
  have "encode_log_fence e own = Inr (snd (fence_message e own))"
    using assms(1) by (simp only: encode_log_fence_iff fence_message_def snd_conv simp_thms)
  with assms(2) show ?thesis by (simp add: append_fence_def list_log_api_def fence_message_def)
qed

lemma fence_message_record:
  assumes "string_fits own" "str_ok own"
  shows "record_of json (snd (fence_message e own)) = LogFence e own"
  by (rule fence_record) (use assms in \<open>simp_all only: encode_log_fence_iff fence_message_def snd_conv simp_thms\<close>)

definition name_a :: bytes where "name_a = ascii ''wh-a''"
definition name_b :: bytes where "name_b = ascii ''wh-b''"

lemma sample_names: "name_a \<noteq> name_b" "name_b \<noteq> name_a" "string_fits name_a" "string_fits name_b" "str_ok name_a" "str_ok name_b"
proof -
  have "ascii_only ''wh-a''" "ascii_only ''wh-b''" by (simp_all add: ascii_only_def)
  from this [THEN ascii_str_facts(1)] show "str_ok name_a" "str_ok name_b" by (simp_all only: name_a_def name_b_def)
qed (simp_all add: name_a_def name_b_def ascii_def string_fits_def)

definition sample_cluster :: "(mem_bucket, list_log) cluster" where
  "sample_cluster = \<lparr>cl_now = 0, cl_bucket = \<lparr>mb_slot = None, mb_top = 0, mb_born = 0\<rparr>, cl_log = ([], []),
     cl_nodes = [lease_start name_a 0, lease_start name_b 0], cl_admitted = []\<rparr>"

lemma sample_cluster_start: "cluster_start mb_slot mb_top mb_born fst sample_json sample_cluster"
  using sample_names by (simp add: cluster_start_def sample_cluster_def lease_start_def log_records_def fences_below_def ops_fenced_def)

lemmas lease_turn_simps = lease_turn_def look_def renew_def create_lease_def confirm_def fence_def decide_def
  mem_bucket_api_def lease_start_def timely_def lucky_def

text \<open>One node takes the lease.\<close>

definition sample_entry :: "bytes \<Rightarrow> u64 \<Rightarrow> bytes" where
  "sample_entry i e = lease_to_vec sample_lease_json \<lparr>lv_instance_id = i, lv_epoch = e\<rparr>"

definition sample_leased :: "(mem_bucket, list_log) cluster" where
  "sample_leased = \<lparr>cl_now = 0, cl_bucket = \<lparr>mb_slot = Some (sample_entry name_a 1, 2, 0), mb_top = 2, mb_born = 1\<rparr>,
     cl_log = ([fence_message 1 name_a], []),
     cl_nodes = [\<lparr>ln_id = name_a, ln_phase = Asleep, ln_lease = \<lparr>ls_owned = True, ls_valid_until = 4000, ls_epoch = 1\<rparr>, ln_written = 0\<rparr>,
       lease_start name_b 0], cl_admitted = []\<rparr>"

lemma sample_leased_run: "run_actions sample_lease_json mem_bucket_api list_log_api 3500 [Turn 0, Turn 0, Turn 0, Turn 0, Turn 0] sample_cluster = Some sample_leased"
  by (simp add: sample_cluster_def sample_leased_def lease_turn_simps sample_append_fence sample_names sample_entry_def)

section \<open>The properties\<close>

text \<open>
  C7: one writer at a time.  Whatever calls fail, whichever nodes crash and however long the
  service keeps a read or an acknowledgement, two nodes never hold a valid lease with the
  margin that the handlers ask for, provided that a round is decided soon enough after its
  write: the margin of 2500 ms allows 3500 ms.  No epoch above that of the holder is fenced.
\<close>
theorem single_writer:
  assumes "lease_cluster kv cell newest born lapi contents ljson" "cluster_start cell newest born contents json s0"
    and "(lease_step ljson kv lapi cell contents json reliable latency)\<^sup>*\<^sup>* s0 s" "latency + 4000 \<le> 5000 + margin"
    and "n \<in> set (cl_nodes s)" "m \<in> set (cl_nodes s)" "m \<noteq> n"
    and "valid_epoch_for margin (cl_now s) (ln_lease n) = Some e"
  shows "valid_epoch_for margin (cl_now s) (ln_lease m) = None \<and> fences_below e (log_records json (contents (cl_log s)))"
proof -
  let ?b = "cl_bucket s"
  from lease_cluster.reach_inv [OF assms(1,3,2)] have inv: "lease_cluster.cluster_inv cell newest born contents ljson json latency s"
    and ids: "map ln_id (cl_nodes s) = map ln_id (cl_nodes s0)" by simp_all
  note backed = lease_cluster.valid_backed [OF assms(1) inv _ _ assms(4)]
  from backed [OF assms(5,8)] obtain q w where n: "e = born ?b"
    "cell ?b = Some (lease_to_vec ljson \<lparr>lv_instance_id = ln_id n, lv_epoch = e\<rparr>, q, w)" by blast
  have "valid_epoch_for margin (cl_now s) (ln_lease m) \<noteq> Some e'" for e'
  proof
    assume "valid_epoch_for margin (cl_now s) (ln_lease m) = Some e'"
    from backed [OF assms(6) this] n(2) have "ln_id m = ln_id n" by (auto simp: lease_cluster.entry_eq_iff [OF assms(1)])
    moreover have "inj_on ln_id (set (cl_nodes s))"
      using assms(2) ids by (metis cluster_start_def distinct_map)
    ultimately show False using assms(5,6,7) by (auto dest: inj_onD)
  qed
  moreover have "fences_below e (log_records json (contents (cl_log s)))"
    using inv n(1) by (simp add: lease_cluster.cluster_inv_def [OF assms(1)])
  ultimately show ?thesis by blast
qed

text \<open>The batch is accepted in the log the node has written to.\<close>

lemma acked_accepted:
  assumes "lease_cluster kv cell newest born lapi contents ljson" "cluster_start cell newest born contents json s0"
    and "(lease_step ljson kv lapi cell contents json True 3500)\<^sup>*\<^sup>* s0 s" "n \<in> set (cl_nodes s)"
    and "rq_after env = Some (valid_epoch_for 2500 (cl_now s) (ln_lease n))" "ensure_writer (rq_before env) = Inr epoch"
    and "dedup_index dapi lookup good" "live_ok hash lookup good (nd_store nd)"
    and "inj_on sha (operation_id ` set ops)" "\<forall>x. length (sha x) = 32" "\<forall>i. rq_up env i"
    and "nd_log nd = Some l" "\<forall>op \<in> set ops. op_strings_ok op"
    and "apply_batch sha hash dapi lapi env (Inr ops) nd = (Answer (Inr results), nd')" "nd_log nd' = Some l'"
    and "new_ops = fresh_of sha (fst (live_abs hash lookup (nd_store nd))) ops" "new_ops \<noteq> []"
    and "\<forall>p. encode_log_operations epoch new_ops = Inr p \<longrightarrow> digests_ok sha (contents l') p"
    and "contents (cl_log s) = contents l' @ later"
  shows "new_ops \<in> set (accepted_batches 0 (log_records json (contents l')))"
proof -
  let ?R = "log_records json (contents (cl_log s))"
  have log: "replicated_log lapi contents" using assms(1) by (simp add: lease_cluster_def)
  from acked_record [OF assms(7-11) log assms(12-17,6,18), of json] obtain q :: u64 where q:
    "ensure_writer (rq_after env) = Inr epoch" "1 \<le> unat q" "unat q \<le> length (contents l')"
    "fst (contents l' ! (unat q - 1)) \<noteq> None" "log_records json (contents l') ! (unat q - 1) = LogOperations epoch new_ops" by blast
  let ?k = "unat q - 1"
  have len: "?k < length (contents l')" using q(2,3) by simp
  have k: "?k < length (contents (cl_log s))" "fst (contents (cl_log s) ! ?k) \<noteq> None"
    "record_of json (snd (contents (cl_log s) ! ?k)) = LogOperations epoch new_ops"
    using q(4,5) assms(19) len by (simp_all add: nth_append log_records_def case_prod_beta)
  have "valid_epoch_for 2500 (cl_now s) (ln_lease n) = Some epoch"
    using q(1) assms(5) by (auto simp: ensure_writer_def split: option.splits)
  from lease_cluster.valid_active [OF assms(1,3,2,4) this] have active: "epoch_after 0 ?R = epoch" by simp
  have take: "log_records json (take ?k (contents (cl_log s))) = take ?k ?R" by (simp add: log_records_def take_map)
  have "ops_fenced json (contents (cl_log s))"
    using lease_cluster.reach_fenced [OF assms(1,3,2)] by (simp add: lease_cluster.fenced_inv_def [OF assms(1)])
  with k have "epoch \<le> epoch_after 0 (take ?k ?R)" unfolding ops_fenced_def take [symmetric] by blast
  with active epoch_after_prefix [of 0 ?k ?R] have at: "epoch_after 0 (take ?k ?R) = epoch" by simp
  let ?L = "log_records json (contents l')"
  have "take ?k ?R = take ?k ?L" using assms(19) len by (simp add: log_records_append)
  with at have "epoch_after 0 (take ?k ?L) = epoch" by simp
  moreover have "?L = take ?k ?L @ LogOperations epoch new_ops # drop (Suc ?k) ?L"
    using q(5) len by (metis id_take_nth_drop length_log_records)
  ultimately have "accepted_batches 0 ?L = accepted_batches 0 (take ?k ?L) @ accepted_batches epoch (LogOperations epoch new_ops # drop (Suc ?k) ?L)"
    by (metis accepted_batches_append)
  then show ?thesis using assms(17) by simp
qed

text \<open>
  C3: an acknowledged batch is accepted by every replica.  Provided that no call fails between
  the claim of an epoch and its fence, and that every round is decided within 3500 ms of its
  write (\<open>unfenced_epoch_served\<close> and \<open>late_round_two_writers\<close> are the runs without these
  conditions), a batch that \<open>apply_batch\<close> answers successfully, with a lease valid at the
  second check, is among the batches that \<open>catch_up\<close> replays from this log, and from every
  longer log.  The reason is the fence: every epoch under which a write is admitted is in the
  log before it, and none above it while the lease is valid, so this epoch is the active one
  where the batch stands and no replica quarantines it.
\<close>
theorem acked_batch_accepted:
  assumes "lease_cluster kv cell newest born lapi contents ljson" "cluster_start cell newest born contents json s0"
    and "(lease_step ljson kv lapi cell contents json True 3500)\<^sup>*\<^sup>* s0 s" "n \<in> set (cl_nodes s)"
    and "rq_after env = Some (valid_epoch_for 2500 (cl_now s) (ln_lease n))" "ensure_writer (rq_before env) = Inr epoch"
    and "dedup_index dapi lookup good" "live_ok hash lookup good (nd_store nd)"
    and "inj_on sha (operation_id ` set ops)" "\<forall>x. length (sha x) = 32" "\<forall>i. rq_up env i"
    and "nd_log nd = Some l" "\<forall>op \<in> set ops. op_strings_ok op"
    and "apply_batch sha hash dapi lapi env (Inr ops) nd = (Answer (Inr results), nd')" "nd_log nd' = Some l'"
    and "new_ops = fresh_of sha (fst (live_abs hash lookup (nd_store nd))) ops" "new_ops \<noteq> []"
    and "\<forall>p. encode_log_operations epoch new_ops = Inr p \<longrightarrow> digests_ok sha (contents l') p"
    and "contents (cl_log s) = contents l' @ later"
  shows "new_ops \<in> set (accepted_batches 0 (log_records json (contents (cl_log s) @ latest)))"
  using acked_accepted [OF assms] assms(19) by (simp add: log_records_append accepted_batches_append)

abbreviation "lease_entry ljson i e \<equiv> lease_to_vec ljson \<lparr>lv_instance_id = i, lv_epoch = e\<rparr>"

fun lease_turns ::
  "lease_json \<Rightarrow> 'b bucket_api \<Rightarrow> 'l log_api \<Rightarrow> nat list \<Rightarrow> lease_node \<times> 'b \<times> 'l \<Rightarrow> lease_node \<times> 'b \<times> 'l" where
  "lease_turns ljson kv lapi [] x = x"
| "lease_turns ljson kv lapi (t # ts) (n, b, l) = lease_turns ljson kv lapi ts (lease_turn ljson kv lapi t n b l)"

text \<open>
  C33: an epoch can be served without its fence.  When the fence of a new epoch fails after
  the epoch has been written to the bucket, the node gives the lease up, but its next round
  finds its own entry and renews it: it then serves an epoch that the log does not know, and
  \<open>catch_up\<close> rejects every batch that is written and acknowledged under it.
\<close>
theorem unfenced_epoch_served:
  assumes "lease_from_slice ljson (lease_entry ljson (ln_id n) r) = Inr \<lparr>lv_instance_id = ln_id n, lv_epoch = r\<rparr>" "ln_phase n = Asleep"
    and "kv_entry kv t0 b0 = Inr None" "kv_create kv t1 (lease_entry ljson (ln_id n) 0) b0 = (Inr r, b1)" "0 < r"
    and "kv_update kv t2 (lease_entry ljson (ln_id n) r) r b1 = (Inr q, b2)" "append_fence lapi r (ln_id n) l = (Inl err, l')"
    and "kv_entry kv t5 b2 = Inr (Some (lease_entry ljson (ln_id n) r, q))" "kv_update kv t6 (lease_entry ljson (ln_id n) r) q b2 = (Inr q', b3)"
    and "t8 + 2500 < t7 + 4000" "epoch_after 0 (log_records json (contents l')) \<noteq> r" "record_of json p = LogOperations r ops"
  shows "\<exists>n'. lease_turns ljson kv lapi [t0, t1, t2, t3, t4, t5, t6, t7] (n, b0, l) = (n', b3, l')
    \<and> valid_epoch_for 2500 t8 (ln_lease n') = Some r
    \<and> accepted_batches 0 (log_records json (contents l' @ [(i, p)])) = accepted_batches 0 (log_records json (contents l'))"
proof -
  have "accepted_batches 0 (log_records json (contents l' @ [(i, p)])) = accepted_batches 0 (log_records json (contents l'))"
    using assms(11,12) by (simp add: log_records_append accepted_batches_append) (auto simp: log_records_def)
  with assms(1-10) show ?thesis
    by (simp add: lease_turn_def look_def create_lease_def confirm_def fence_def renew_def decide_def valid_epoch_for_def)
qed

text \<open>The node whose round is decided late, and the node that took the lease over.\<close>

definition sample_late :: "(mem_bucket, list_log) cluster" where
  "sample_late = \<lparr>cl_now = 5100, cl_bucket = \<lparr>mb_slot = Some (sample_entry name_b 3, 4, 5000), mb_top = 4, mb_born = 3\<rparr>,
     cl_log = ([fence_message 1 name_a, fence_message 3 name_b], []),
     cl_nodes = [\<lparr>ln_id = name_a, ln_phase = Asleep, ln_lease = \<lparr>ls_owned = True, ls_valid_until = 9100, ls_epoch = 1\<rparr>, ln_written = 0\<rparr>,
       \<lparr>ln_id = name_b, ln_phase = Asleep, ln_lease = \<lparr>ls_owned = True, ls_valid_until = 9000, ls_epoch = 3\<rparr>, ln_written = 5000\<rparr>], cl_admitted = []\<rparr>"

lemma sample_late_run: "run_actions sample_lease_json mem_bucket_api list_log_api 6000
    [Turn 0, Turn 0, Turn 0, Turn 0, Pass 5000, Expire, Turn 1, Turn 1, Turn 1, Turn 1, Turn 1, Pass 100, Turn 0] sample_cluster = Some sample_late"
  by (simp add: sample_cluster_def sample_late_def lease_turn_simps sample_append_fence sample_names sample_entry_def)

text \<open>
  C34: a slow round gives two writers.  \<open>valid_until\<close> is counted from the end of the round and
  not from the write it rests on, so when the answer to the fence takes longer than the margin
  covers, here 5.1 seconds, two nodes hold valid leases at the same time, although no call has
  failed; and what the first one acknowledges is rejected by every replica.
\<close>
theorem late_round_two_writers:
  "\<exists>s a b. (lease_step sample_lease_json mem_bucket_api list_log_api mb_slot fst sample_json True 6000)\<^sup>*\<^sup>* sample_cluster s
    \<and> cl_nodes s = [a, b] \<and> valid_epoch_for 2500 (cl_now s) (ln_lease a) = Some 1
    \<and> valid_epoch_for 2500 (cl_now s) (ln_lease b) = Some 3
    \<and> accepted_batches 0 (log_records sample_json (fst (cl_log s)) @ [LogOperations 1 ops])
        = accepted_batches 0 (log_records sample_json (fst (cl_log s)))"
proof -
  from run_reaches [OF sample_late_run]
  have "(lease_step sample_lease_json mem_bucket_api list_log_api mb_slot fst sample_json True 6000)\<^sup>*\<^sup>* sample_cluster sample_late" .
  moreover have "log_records sample_json (fst (cl_log sample_late)) = [LogFence 1 name_a, LogFence 3 name_b]"
    using sample_names by (simp add: sample_late_def log_records_def case_prod_beta fence_message_record)
  ultimately show ?thesis by (intro exI [of _ sample_late]) (simp add: sample_late_def valid_epoch_for_def)
qed

section \<open>Witnesses\<close>

lemma sample_leased_reach: "(lease_step sample_lease_json mem_bucket_api list_log_api mb_slot fst sample_json True 3500)\<^sup>*\<^sup>* sample_cluster sample_leased"
  by (rule run_reaches [OF sample_leased_run])

lemma sample_leased_records: "log_records sample_json (fst (cl_log sample_leased)) = [LogFence 1 name_a]"
  using sample_names by (simp add: sample_leased_def log_records_def case_prod_beta fence_message_record)

lemma single_writer_witness:
  "valid_epoch_for 2500 0 (ln_lease (lease_start name_b 0)) = None \<and> fences_below 1 [LogFence 1 name_a]"
proof -
  have "lease_start name_b 0 \<noteq> cl_nodes sample_leased ! 0"
    by (simp add: sample_leased_def lease_start_def)
  then show ?thesis
    using single_writer [OF mem_cluster.lease_cluster_axioms sample_cluster_start sample_leased_reach,
        of 2500 "cl_nodes sample_leased ! 0" "lease_start name_b 0" 1]
    by (simp add: sample_leased_records) (simp add: sample_leased_def valid_epoch_for_def)
qed

text \<open>The node has admitted a write, and its batch is in the log.\<close>

definition sample_acked_log :: "bytes \<Rightarrow> list_log" where
  "sample_acked_log p = ([fence_message 1 name_a, (Some (message_id pad p), p)], [])"

definition sample_acked :: "bytes \<Rightarrow> (mem_bucket, list_log) cluster" where
  "sample_acked p = sample_leased\<lparr>cl_log := sample_acked_log p, cl_admitted := [1]\<rparr>"

lemma sample_acked_run:
  "\<exists>results nd' p. apply_batch pad sample_hash sample_api list_log_api (sample_env_at 1) (Inr sample_ops)
      (sample_node_at ([fence_message 1 name_a], [])) = (Answer (Inr results), nd')
    \<and> nd_log nd' = Some (sample_acked_log p) \<and> encode_log_operations 1 sample_fresh_ops = Inr p"
  using sample_batch_run [of "[fence_message 1 name_a]" 1 "[]"] by (auto simp: fence_message_def sample_acked_log_def)

lemma sample_acked_facts:
  assumes "encode_log_operations 1 sample_fresh_ops = Inr p"
  shows "(lease_step sample_lease_json mem_bucket_api list_log_api mb_slot fst sample_json True 3500)\<^sup>*\<^sup>* sample_cluster
      (sample_acked p)"
    and "\<forall>q. encode_log_operations 1 sample_fresh_ops = Inr q \<longrightarrow> digests_ok pad (fst (sample_acked_log p)) q"
    and "log_records sample_json (fst (sample_acked_log p)) = [LogFence 1 name_a, LogOperations 1 sample_fresh_ops]"
proof -
  have st: "\<forall>op \<in> set sample_fresh_ops. storable op" using sample_ops_storable by (simp add: sample_ops_def)
  have rec: "record_of sample_json p = LogOperations 1 sample_fresh_ops"
    by (simp add: record_of_def decode_encoded_operations [OF assms st])
  let ?step = "lease_step sample_lease_json mem_bucket_api list_log_api mb_slot fst sample_json True 3500"
  have "?step sample_leased (sample_leased\<lparr>cl_admitted := 1 # cl_admitted sample_leased\<rparr>)"
    by (rule lease_step.admission [of 0]) (simp_all add: sample_leased_def valid_epoch_for_def)
  moreover have "?step (sample_leased\<lparr>cl_admitted := 1 # cl_admitted sample_leased\<rparr>)
      ((sample_leased\<lparr>cl_admitted := 1 # cl_admitted sample_leased\<rparr>)\<lparr>cl_log := sample_acked_log p\<rparr>)"
    by (rule lease_step.publication [OF _ rec]) (simp_all add: sample_leased_def sample_acked_log_def)
  moreover have "(sample_leased\<lparr>cl_admitted := 1 # cl_admitted sample_leased\<rparr>)\<lparr>cl_log := sample_acked_log p\<rparr> = sample_acked p"
    by (simp add: sample_acked_def sample_leased_def)
  ultimately show "?step\<^sup>*\<^sup>* sample_cluster (sample_acked p)" using sample_leased_reach by auto
  have "pad (snd (fence_message 1 name_a)) \<noteq> pad p"
    using assms by (simp add: encode_log_operations_iff fence_message_def LOG_MAGIC_def pad_def)
  then show "\<forall>q. encode_log_operations 1 sample_fresh_ops = Inr q \<longrightarrow> digests_ok pad (fst (sample_acked_log p)) q"
    using assms by (simp add: digests_ok_def fence_message_def sample_acked_log_def)
  show "log_records sample_json (fst (sample_acked_log p)) = [LogFence 1 name_a, LogOperations 1 sample_fresh_ops]"
    using rec fence_message_record [OF sample_names(3,5)]
    by (simp add: log_records_def sample_acked_log_def fence_message_def)
qed

lemma sample_acked_node:
  "nd_log (sample_node_at ([fence_message 1 name_a], [])) = Some ([fence_message 1 name_a], [])"
  "rq_after (sample_env_at 1) = Some (valid_epoch_for 2500 (cl_now sample_leased) (ln_lease (cl_nodes sample_leased ! 0)))"
  "cl_nodes sample_leased ! 0 \<in> set (cl_nodes sample_leased)" "\<forall>op \<in> set sample_ops. op_strings_ok op"
  "sample_fresh_ops = fresh_of pad (fst (sample_abs (nd_store (sample_node_at ([fence_message 1 name_a], []))))) sample_ops"
proof -
  have node: "nd_store (sample_node_at ([fence_message 1 name_a], [])) = sample_live"
    by (simp add: sample_node_at_def sample_node_def)
  show "sample_fresh_ops = fresh_of pad (fst (sample_abs (nd_store (sample_node_at ([fence_message 1 name_a], []))))) sample_ops"
    by (simp only: node sample_batch_fresh)
qed (use sample_ops_storable in \<open>simp_all add: sample_node_at_def sample_node_def sample_env_at_def sample_leased_def
    valid_epoch_for_def storable_def\<close>)

lemma acked_batch_accepted_witness:
  "\<exists>p. encode_log_operations 1 sample_fresh_ops = Inr p
    \<and> sample_fresh_ops \<in> set (accepted_batches 0 (log_records sample_json (fst (sample_acked_log p) @ [(None, [])])))"
proof -
  obtain results nd' p where run:
    "apply_batch pad sample_hash sample_api list_log_api (sample_env_at 1) (Inr sample_ops)
       (sample_node_at ([fence_message 1 name_a], [])) = (Answer (Inr results), nd')"
    "nd_log nd' = Some (sample_acked_log p)" "encode_log_operations 1 sample_fresh_ops = Inr p"
    using sample_acked_run by blast
  let ?s = "sample_acked p"
  note facts = sample_acked_facts [OF run(3)]
  have env: "rq_after (sample_env_at 1) = Some (valid_epoch_for 2500 (cl_now ?s) (ln_lease (cl_nodes sample_leased ! 0)))"
    "cl_nodes sample_leased ! 0 \<in> set (cl_nodes ?s)" using sample_acked_node(2,3) by (simp_all add: sample_acked_def)
  have len: "\<forall>x. length (pad x) = 32" by (simp add: length_pad)
  have all: "fst (cl_log ?s) = fst (sample_acked_log p) @ []" by (simp add: sample_acked_def)
  from acked_batch_accepted [OF mem_cluster.lease_cluster_axioms sample_cluster_start facts(1) env(2,1) sample_at_ok(3)
      alist_disk.index.dedup_index_axioms sample_at_ok(1) sample_ops_inj len sample_at_ok(4) sample_acked_node(1,4) run(1,2)
      sample_acked_node(5) _ facts(2) all, of "[(None, [])]"] run(3)
  show ?thesis by (auto simp: sample_acked_def)
qed

text \<open>The log while it cannot be reached.\<close>

definition down_log_api :: "list_log log_api" where
  "down_log_api = list_log_api\<lparr>js_publish := (\<lambda>i p l. (Inl IoError, l))\<rparr>"

definition sample_takeover :: "lease_node \<times> mem_bucket \<times> list_log" where
  "sample_takeover = lease_turns sample_lease_json mem_bucket_api down_log_api [0, 1, 2, 3, 4, 800, 801, 802]
     (lease_start name_a 0, \<lparr>mb_slot = None, mb_top = 0, mb_born = 0\<rparr>, [], [])"

lemma unfenced_epoch_served_witness:
  "\<exists>p. encode_log_operations 1 sample_fresh_ops = Inr p
    \<and> valid_epoch_for 2500 900 (ln_lease (fst sample_takeover)) = Some 1
    \<and> accepted_batches 0 (log_records sample_json (fst (snd (snd sample_takeover)) @ [(None, p)])) = []"
proof -
  let ?b0 = "\<lparr>mb_slot = None, mb_top = 0, mb_born = 0\<rparr>" and ?n = "lease_start name_a 0"
  let ?e = "lease_entry sample_lease_json (ln_id ?n)"
  have st: "\<forall>op \<in> set sample_fresh_ops. storable op" using sample_ops_storable by (simp add: sample_ops_def)
  then have "list_all operation_fits sample_fresh_ops" by (simp add: storable_facts)
  then obtain p where p: "encode_log_operations 1 sample_fresh_ops = Inr p" by (simp add: encode_log_operations_iff)
  have rec: "record_of sample_json p = LogOperations 1 sample_fresh_ops"
    by (simp add: record_of_def decode_encoded_operations [OF p st])
  have calls: "kv_entry mem_bucket_api 0 ?b0 = Inr None"
    "kv_create mem_bucket_api 1 (?e 0) ?b0 = (Inr 1, \<lparr>mb_slot = Some (?e 0, 1, 1), mb_top = 1, mb_born = 1\<rparr>)"
    "kv_update mem_bucket_api 2 (?e 1) 1 \<lparr>mb_slot = Some (?e 0, 1, 1), mb_top = 1, mb_born = 1\<rparr>
      = (Inr 2, \<lparr>mb_slot = Some (?e 1, 2, 2), mb_top = 2, mb_born = 1\<rparr>)"
    "kv_entry mem_bucket_api 800 \<lparr>mb_slot = Some (?e 1, 2, 2), mb_top = 2, mb_born = 1\<rparr> = Inr (Some (?e 1, 2))"
    "kv_update mem_bucket_api 801 (?e 1) 2 \<lparr>mb_slot = Some (?e 1, 2, 2), mb_top = 2, mb_born = 1\<rparr>
      = (Inr 3, \<lparr>mb_slot = Some (?e 1, 3, 801), mb_top = 3, mb_born = 1\<rparr>)"
    by (simp_all add: mem_bucket_api_def)
  have "encode_log_fence 1 (ln_id ?n) = Inr (snd (fence_message 1 name_a))"
    using sample_names by (simp only: encode_log_fence_iff fence_message_def snd_conv simp_thms lease_start_def lease_node.simps)
  then have down: "append_fence down_log_api 1 (ln_id ?n) ([], []) = (Inl IoError, ([], []))"
    by (simp add: append_fence_def down_log_api_def)
  have none: "epoch_after 0 (log_records sample_json (fst (([], []) :: list_log))) \<noteq> 1" by (simp add: log_records_def)
  have "ln_phase ?n = Asleep" by (simp add: lease_start_def)
  from unfenced_epoch_served [where contents = fst and i = None, OF sample_roundtrip this calls(1,2) _ calls(3) down calls(4,5) _ none rec, of 900 802 3 4]
  obtain n' where t: "sample_takeover = (n', \<lparr>mb_slot = Some (?e 1, 3, 801), mb_top = 3, mb_born = 1\<rparr>, [], [])"
    "valid_epoch_for 2500 900 (ln_lease n') = Some 1"
    "accepted_batches 0 (log_records sample_json ([] @ [(None, p)])) = accepted_batches 0 (log_records sample_json [])"
    by (auto simp: sample_takeover_def)
  show ?thesis unfolding t(1) using t(2,3) p by (auto simp: log_records_def)
qed

end
