(* ===== verification/WriterTail.thy ===== *)
theory WriterTail
  imports WriterLease
begin

text \<open>
  The nodes of a deployment, which serve writes and follow the log at the same time
  (\<open>src/main.rs\<close>: the handlers and \<open>run_live_tail\<close> share the store and the log) while they compete
  for the writer lease.  The store of a node has batches that its live tail has not
  read yet, and the log may hold batches of its own that it refused to its client.  Whatever the
  order, every accepted operation counts once, so that nodes with the same log converge.
\<close>

section \<open>How far the store of a writer is\<close>

















section \<open>What a request does to the store and the log\<close>





section \<open>The steps of a deployment\<close>

text \<open>
  The replica at \<open>k\<close> is the store and the live tail of the lease node at \<open>k\<close>.  Its log is the part
  of the common log that the node has seen.  The steps: everything of \<open>lease_step\<close>, among it the
  publications of the handlers; whatever a replica does to follow the log; and requests to write
  a batch, with any body, any lease at the first check and any failure of the log or of the
  write-ahead log.  A request is placed at its second look at the lease: what it has published
  is in the common log by then, and what it sees is the lease of its own node.
\<close>

record ('b, 'l, 'd) fleet =
  fl_cluster :: "('b, 'l) cluster"
  fl_replicas :: "('d live_store, 'l) replica list"

text \<open>
  The strings of a request are UTF-8, and SHA-256 does not collide on its ids and on the payload
  of its new operations with those of the log.
\<close>

definition request_digests ::
  "(bytes \<Rightarrow> bytes) \<Rightarrow> (bytes \<Rightarrow> bytes option) \<Rightarrow> (string option \<times> bytes) list \<Rightarrow> request_env \<Rightarrow> bytes + operation list \<Rightarrow> bool" where
  "request_digests sha L ms env body \<longleftrightarrow> (\<forall>ops. body = Inr ops \<longrightarrow>
     inj_on sha (operation_id ` set ops) \<and> (\<forall>op \<in> set ops. op_strings_ok op)
     \<and> (\<forall>epoch p. ensure_writer (rq_before env) = Inr epoch \<longrightarrow> encode_log_operations epoch (fresh_of sha L ops) = Inr p
          \<longrightarrow> digests_ok sha ms p))"

inductive fleet_step ::
  "lease_json \<Rightarrow> 'b bucket_api \<Rightarrow> 'l log_api \<Rightarrow> ('b \<Rightarrow> (bytes \<times> u64 \<times> nat) option)
     \<Rightarrow> ('l \<Rightarrow> (string option \<times> bytes) list) \<Rightarrow> json_api \<Rightarrow> (bytes \<Rightarrow> bytes) \<Rightarrow> (bytes \<Rightarrow> bytes \<Rightarrow> u64)
     \<Rightarrow> 'd index_api \<Rightarrow> ('d \<Rightarrow> bytes \<Rightarrow> bytes option) \<Rightarrow> (nat \<Rightarrow> bool) \<Rightarrow> ('b, 'l, 'd) fleet \<Rightarrow> ('b, 'l, 'd) fleet \<Rightarrow> bool"
  for ljson kv lapi cell contents json sha hash dapi lookup up where
  lease: "fleet_step ljson kv lapi cell contents json sha hash dapi lookup up s (s\<lparr>fl_cluster := c\<rparr>)"
  if "lease_step ljson kv lapi cell contents json True 3500 (fl_cluster s) c"
| follow: "fleet_step ljson kv lapi cell contents json sha hash dapi lookup up s (s\<lparr>fl_replicas := (fl_replicas s)[k := rp]\<rparr>)"
  if "k < length (fl_replicas s)" "tail_step sha hash dapi up json lapi contents (fl_replicas s ! k) rp"
    "contents (cl_log (fl_cluster s)) = contents (rp_log rp) @ later"
| serve: "fleet_step ljson kv lapi cell contents json sha hash dapi lookup up s
    (s\<lparr>fl_replicas := (fl_replicas s)[k := (fl_replicas s ! k)\<lparr>rp_store := nd_store nd', rp_log := l'\<rparr>]\<rparr>)"
  if "k < length (fl_replicas s)"
    "apply_batch sha hash dapi lapi env body
       \<lparr>nd_store = rp_store (fl_replicas s ! k), nd_log = Some (rp_log (fl_replicas s ! k)), nd_metrics = m\<rparr> = (out, nd')"
    "nd_log nd' = Some l'" "contents (cl_log (fl_cluster s)) = contents l' @ later"
    "rq_after env = Some (valid_epoch_for 2500 (cl_now (fl_cluster s)) (ln_lease (cl_nodes (fl_cluster s) ! k)))"
    "\<forall>i. rq_up env i" "request_digests sha (fst (live_abs hash lookup (rp_store (fl_replicas s ! k)))) (contents l') env body"

section \<open>What one node sees of it\<close>







section \<open>What a node that has caught up has\<close>






section \<open>From the deployment to its nodes\<close>






section \<open>The property\<close>


section \<open>A writer and a follower\<close>


abbreviation "sample_fleet_step \<equiv> fleet_step sample_lease_json mem_bucket_api list_log_api mb_slot fst sample_json
  pad sample_hash sample_api sample_lookup (\<lambda>_. True)"

abbreviation "sample_catch_up \<equiv> catch_up (store_restore pad sample_hash sample_api (\<lambda>_. True) sample_env) sample_json list_log_api (\<lambda>_. ReplaceOk)"

abbreviation "sample_common \<equiv> [LogFence 1 name_a, LogOperations 1 sample_fresh_ops]"

abbreviation "sample_balance rp \<equiv> balance_at (merged sample_hash (st_shards (rp_store rp))) (ascii ''ann'', ascii ''bolt'')"













end
