(* ===== verification/Startup.thy ===== *)
theory Startup
  imports LiveTail Wal Snapshot BloomWarmup
begin

text \<open>
  The startup sequence of \<open>main\<close> in \<open>src/main.rs\<close>, up to the compaction: load the snapshot,
  open the disk index, open the write-ahead log, start the store, connect to the replicated
  log, place the checkpoint, catch up, save a new snapshot and reset the log; with the
  quarantine of damaged files at each step.
\<close>

section \<open>The files\<close>

text \<open>
  The files of \<open>DiskDedup\<close>: whether \<open>dedup.redb\<close>, \<open>history.redb\<close> and the directory
  \<open>dedup-lsm\<close> exist, and the stores in them; a missing file is an empty store.
\<close>

record ('l, 'r) index_files =
  fx_dedup :: bool
  fx_history :: bool
  fx_lsm :: bool
  fx_stores :: "('l, 'r) disk_stores"

text \<open>\<open>quarantine\<close>, and the renaming of a monolithic index: only \<open>dedup.redb\<close> goes away.\<close>

definition discard_redb :: "'r \<Rightarrow> ('l, 'r) index_files \<Rightarrow> ('l, 'r) index_files" where
  "discard_redb blank f = f\<lparr>fx_dedup := False, fx_stores := (fx_stores f)\<lparr>redb_dedup := blank\<rparr>\<rparr>"

text \<open>
  How the calls of the file system end: the renames of a damaged snapshot, of a monolithic
  index, of an index without snapshot, of a damaged index and of a damaged log; the two
  attempts to open the index; the content of the log; the writes of the checkpoint; the sync of
  the index, the write of the snapshot and the reset of the log.  The index takes the recovered
  ids: a write error there ends the process like the others.
\<close>

record startup_io =
  si_snapshot :: read_outcome
  si_move_snapshot :: "unit result"
  si_archive :: "unit result"
  si_discard :: "unit result"
  si_open :: "error option"
  si_discard_again :: "unit result"
  si_open_again :: "error option"
  si_wal :: read_outcome
  si_move_wal :: "unit result"
  si_position :: replace_outcome
  si_advance :: "u64 \<Rightarrow> replace_outcome"
  si_sync :: "unit result"
  si_save :: replace_outcome
  si_reset :: "unit result"

record startup_json =
  sj_snapshot :: "bytes \<Rightarrow> snapshot_data result"
  sj_wal :: "bytes \<Rightarrow> operation result"
  sj_checkpoint :: "bytes \<Rightarrow> checkpoint_value result"

section \<open>Snapshot and index\<close>

definition load_snapshot ::
  "(bytes \<Rightarrow> bytes) \<Rightarrow> startup_json \<Rightarrow> startup_io \<Rightarrow> bool \<Rightarrow> (bool \<times> snapshot_data option) result" where
  "load_snapshot sha sj io nats =
     (case snap_load sha (sj_snapshot sj) (si_snapshot io) of
        Inr snapshot \<Rightarrow> Inr (False, snapshot)
      | Inl _ \<Rightarrow> rbind (si_move_snapshot io) (\<lambda>_. Inr (nats, None)))"

definition archive_monolithic ::
  "'r \<Rightarrow> startup_io \<Rightarrow> bool \<Rightarrow> bool \<times> snapshot_data option \<Rightarrow> ('l, 'r) index_files
     \<Rightarrow> (bool \<times> snapshot_data option \<times> ('l, 'r) index_files) result" where
  "archive_monolithic blank io nats rs f =
     (if fx_dedup f \<and> \<not> fx_history f \<and> nats
      then rbind (si_archive io) (\<lambda>_. Inr (True, None, discard_redb blank f))
      else Inr (fst rs, snd rs, f))"

definition discard_unsnapshotted ::
  "'r \<Rightarrow> startup_io \<Rightarrow> bool \<Rightarrow> snapshot_data option \<Rightarrow> ('l, 'r) index_files \<Rightarrow> ('l, 'r) index_files result" where
  "discard_unsnapshotted blank io rebuild snapshot f =
     (if rebuild \<and> snapshot = None \<and> fx_dedup f
      then rbind (si_discard io) (\<lambda>_. Inr (discard_redb blank f)) else Inr f)"

definition open_files :: "'r kv_api \<Rightarrow> error option \<Rightarrow> ('l, 'r) index_files \<Rightarrow> ('l, 'r) disk result" where
  "open_files red fault f =
     (case fault of Some e \<Rightarrow> Inl e | None \<Rightarrow> disk_open red (fx_dedup f) (fx_lsm f) (fx_stores f))"

definition open_index ::
  "'r kv_api \<Rightarrow> 'r \<Rightarrow> startup_io \<Rightarrow> bool \<Rightarrow> bool \<Rightarrow> snapshot_data option \<Rightarrow> ('l, 'r) index_files
     \<Rightarrow> (bool \<times> snapshot_data option \<times> ('l, 'r) disk) result" where
  "open_index red blank io nats rebuild snapshot f =
     (case open_files red (si_open io) f of
        Inr d \<Rightarrow> Inr (rebuild, snapshot, d)
      | Inl e \<Rightarrow>
          if nats then rbind (si_discard_again io) (\<lambda>_.
            rbind (open_files red (si_open_again io) (discard_redb blank f)) (\<lambda>d. Inr (True, None, d)))
          else Inl e)"

definition check_missing ::
  "bool \<Rightarrow> bool \<Rightarrow> bool \<times> snapshot_data option \<times> 'd \<Rightarrow> bool \<times> snapshot_data option \<times> 'd" where
  "check_missing nats dedup_existed rsd =
     (let (rebuild, snapshot, d) = rsd in
      if \<not> dedup_existed \<and> (case snapshot of Some s \<Rightarrow> sn_version s \<ge> 2 | None \<Rightarrow> False)
      then (nats, None, d) else rsd)"

text \<open>
  The outcome of these steps: whether the state must be rebuilt from the log, the snapshot to
  start from, and the index.
\<close>

definition prepare_index ::
  "(bytes \<Rightarrow> bytes) \<Rightarrow> startup_json \<Rightarrow> 'r kv_api \<Rightarrow> 'r \<Rightarrow> startup_io \<Rightarrow> bool \<Rightarrow> ('l, 'r) index_files
     \<Rightarrow> (bool \<times> snapshot_data option \<times> ('l, 'r) disk) result" where
  "prepare_index sha sj red blank io nats f =
     rbind (load_snapshot sha sj io nats) (\<lambda>rs.
     rbind (archive_monolithic blank io nats rs f) (\<lambda>(rebuild, snapshot, f).
     rbind (discard_unsnapshotted blank io rebuild snapshot f) (\<lambda>f.
     rbind (open_index red blank io nats rebuild snapshot f) (\<lambda>rsd.
     Inr (check_missing nats (fx_dedup f) rsd)))))"

section \<open>Log, store and checkpoint\<close>

definition open_wal ::
  "(bytes \<Rightarrow> u32) \<Rightarrow> startup_json \<Rightarrow> startup_io \<Rightarrow> bool \<Rightarrow> bool \<Rightarrow> (bool \<times> bytes \<times> operation list) result" where
  "open_wal crc sj io nats rebuild =
     (case wal_open crc (sj_wal sj) (si_wal io) of
        Inr (file, recovered) \<Rightarrow> Inr (rebuild, file, recovered)
      | Inl e \<Rightarrow>
          if nats then rbind (si_move_wal io) (\<lambda>_.
            rbind (wal_open crc (sj_wal sj) FileNotFound) (\<lambda>(file, recovered). Inr (True, file, recovered)))
          else Inl e)"

definition place_checkpoint ::
  "startup_io \<Rightarrow> bool \<Rightarrow> snapshot_data option \<Rightarrow> checkpoint \<Rightarrow> unit result \<times> checkpoint" where
  "place_checkpoint io rebuild snapshot c =
     (let snapshot_sequence = (case snapshot of None \<Rightarrow> 0 | Some s \<Rightarrow> sn_sequence s);
          snapshot_epoch = (case snapshot of None \<Rightarrow> 0 | Some s \<Rightarrow> sn_writer_epoch s)
      in if rebuild then reset_checkpoint (si_position io) c
         else if snapshot_sequence > current c then advance_checkpoint (si_position io) snapshot_sequence snapshot_epoch c
         else (Inr (), c))"

record ('d, 'g) started =
  sd_store :: "'d live_store"
  sd_log :: "'g option"
  sd_checkpoint :: checkpoint
  sd_snapshot :: snap_files
  sd_wal :: bytes

text \<open>The node after \<open>Store::start\<close>, with its position: what \<open>catch_up\<close> starts from.\<close>

definition boot ::
  "(bytes \<Rightarrow> bytes) \<Rightarrow> (bytes \<Rightarrow> bytes \<Rightarrow> u64) \<Rightarrow> (bytes \<Rightarrow> u32) \<Rightarrow> startup_json \<Rightarrow> 'l kv_api \<Rightarrow> 'r kv_api \<Rightarrow> 'r
     \<Rightarrow> startup_io \<Rightarrow> nat \<Rightarrow> 'g result option \<Rightarrow> ('l, 'r) index_files \<Rightarrow> bytes option \<times> bytes option
     \<Rightarrow> (('l, 'r) disk live_store \<times> 'g option \<times> checkpoint) result" where
  "boot sha hash crc sj lsm red blank io shard_count nats f cp =
     rbind (prepare_index sha sj red blank io (nats \<noteq> None) f) (\<lambda>(rebuild, snapshot, d).
     rbind (open_wal crc sj io (nats \<noteq> None) rebuild) (\<lambda>(rebuild, file, recovered).
     rbind (store_start sha hash (disk_insert_many lsm (Inr ())) shard_count recovered snapshot d) (\<lambda>st.
     rbind (case nats of None \<Rightarrow> Inr None | Some connected \<Rightarrow> rbind connected (\<lambda>l. Inr (Some l))) (\<lambda>l.
     rbind (checkpoint_open (sj_checkpoint sj) (fst cp) (snd cp)) (\<lambda>c.
     case place_checkpoint io rebuild snapshot c of
       (Inl e, _) \<Rightarrow> Inl e
     | (Inr _, c) \<Rightarrow> Inr (store.extend (store.truncate st) \<lparr>st_queue = []\<rparr>, l, c))))))"

text \<open>The compaction: the new snapshot replaces the old one, then the log is emptied.\<close>

definition compact ::
  "(bytes \<Rightarrow> bytes) \<Rightarrow> (balances \<Rightarrow> (key \<times> i64) list) \<Rightarrow> startup_io \<Rightarrow> 'd live_store \<Rightarrow> checkpoint \<Rightarrow> snap_files
     \<Rightarrow> (snap_files \<times> bytes) result" where
  "compact sha iter io st c files =
     rbind (si_sync io) (\<lambda>_.
     case snap_save sha (si_save io) (store_snapshot iter (current c) (writer_epoch c) (st_shards st)) files of
       (Inl e, _) \<Rightarrow> Inl e
     | (Inr _, files') \<Rightarrow> rbind (si_reset io) (\<lambda>_. Inr (files', [])))"

definition follow_log ::
  "(u64 \<Rightarrow> operation list \<Rightarrow> 'st \<Rightarrow> unit result option \<times> 'st) \<Rightarrow> json_api \<Rightarrow> 'g log_api \<Rightarrow> startup_io
     \<Rightarrow> 'st \<Rightarrow> 'g option \<Rightarrow> checkpoint \<Rightarrow> unit result option \<times> 'st \<times> 'g option \<times> checkpoint" where
  "follow_log restore json api io st l c =
     (case l of
        None \<Rightarrow> (Some (Inr ()), st, None, c)
      | Some g \<Rightarrow>
          (let (r, rp) = catch_up restore json api (si_advance io) \<lparr>rp_store = st, rp_log = g, rp_checkpoint = c\<rparr>
           in (r, rp_store rp, Some (rp_log rp), rp_checkpoint rp)))"

definition startup ::
  "(bytes \<Rightarrow> bytes) \<Rightarrow> (bytes \<Rightarrow> bytes \<Rightarrow> u64) \<Rightarrow> (bytes \<Rightarrow> u32) \<Rightarrow> startup_json \<Rightarrow> 'l kv_api \<Rightarrow> 'r kv_api \<Rightarrow> 'r
     \<Rightarrow> (balances \<Rightarrow> (key \<times> i64) list) \<Rightarrow> startup_io \<Rightarrow> nat \<Rightarrow> ('l, 'r) index_files \<Rightarrow> bytes option \<times> bytes option \<Rightarrow> snap_files
     \<Rightarrow> (nat \<Rightarrow> bool) \<Rightarrow> (u64 \<Rightarrow> restore_env) \<Rightarrow> json_api \<Rightarrow> 'g log_api \<Rightarrow> 'g result option
     \<Rightarrow> (('l, 'r) disk, 'g) started result option" where
  "startup sha hash crc sj lsm red blank iter io shard_count f cp files up env json api nats =
     (case boot sha hash crc sj lsm red blank io shard_count nats f cp of
        Inl e \<Rightarrow> Some (Inl e)
      | Inr (st, l, c) \<Rightarrow>
          (case follow_log (store_restore sha hash (disk_index_api lsm red) up env) json api io st l c of
             (None, _) \<Rightarrow> None
           | (Some (Inl e), _) \<Rightarrow> Some (Inl e)
           | (Some (Inr _), st, l, c) \<Rightarrow>
               Some (rbind (compact sha iter io st c files) (\<lambda>(files', wal').
                 Inr \<lparr>sd_store = st, sd_log = l, sd_checkpoint = c, sd_snapshot = files', sd_wal = wal'\<rparr>))))"

section \<open>What the steps give\<close>

text \<open>Files as this release leaves them: the LSM directory exists, or nothing does.\<close>

definition files_ok ::
  "('l \<Rightarrow> (bytes \<times> bytes) list) \<Rightarrow> ('r \<Rightarrow> (bytes \<times> bytes) list) \<Rightarrow> ('l, 'r) index_files \<Rightarrow> bool" where
  "files_ok lc rc f \<longleftrightarrow> stores_ok lc rc (fx_stores f) \<and> (fx_lsm f \<or> stores_empty lc rc (fx_stores f))"

lemma discard_files:
  assumes "files_ok lc rc f" "rc blank = []"
  shows "files_ok lc rc (discard_redb blank f) \<and> lsm_dedup_shards (fx_stores (discard_redb blank f)) = lsm_dedup_shards (fx_stores f)"
  using assms by (auto simp: files_ok_def discard_redb_def stores_ok_def stores_empty_def entries_ok_def)

lemma open_files_ok:
  assumes "files_ok lc rc f" "open_files red fault f = Inr d"
  shows "(disk_ok lc rc d \<and> filter_ok lc rc d) \<and> lsm_dedup_shards d = lsm_dedup_shards (fx_stores f)"
proof -
  let ?s = "fx_stores f"
  from assms(2) have "disk_open red (fx_dedup f) (fx_lsm f) ?s = Inr d" by (simp add: open_files_def split: option.splits)
  then obtain legacy where d: "d = disk_stores.extend ?s \<lparr>legacy_fallback = legacy, bloom = replicate BLOOM_BYTES 0,
      bloom_ready = (\<not> fx_dedup f \<and> \<not> fx_lsm f)\<rparr>" by (auto simp: disk_open_def rbind_Inr_iff)
  have ok: "stores_ok lc rc ?s" using assms(1) by (simp add: files_ok_def)
  then have "disk_ok lc rc d" by (simp add: d disk_ok_def stores_ok_def disk_stores.defs)
  moreover have "filter_ok lc rc d"
  proof (cases "fx_lsm f")
    case False
    then have "stores_empty lc rc ?s" using assms(1) by (simp add: files_ok_def)
    moreover have "redb_dedup_shards ?s ! dedup_disk_shard key \<in> set (redb_dedup_shards ?s)"
      "lsm_dedup_shards ?s ! dedup_lsm_shard key \<in> set (lsm_dedup_shards ?s)" for key
      using ok by (simp_all add: stores_ok_def)
    ultimately have "disk_index lc rc d key = None" for key
      by (simp add: disk_index_def d disk_stores.defs stores_empty_def list_all_iff)
    then show ?thesis by (simp add: filter_ok_def)
  qed (simp add: filter_ok_def d disk_stores.defs)
  ultimately show ?thesis by (simp add: d disk_stores.defs)
qed

lemma prepare_index_ok:
  assumes "files_ok lc rc f" "rc blank = []" "prepare_index sha sj red blank io nats f = Inr (rebuild, snapshot, d)"
  shows "(disk_ok lc rc d \<and> filter_ok lc rc d) \<and> lsm_dedup_shards d = lsm_dedup_shards (fx_stores f)"
proof -
  let ?good = "\<lambda>f'. files_ok lc rc f' \<and> lsm_dedup_shards (fx_stores f') = lsm_dedup_shards (fx_stores f)"
  let ?opened = "\<lambda>d. (disk_ok lc rc d \<and> filter_ok lc rc d) \<and> lsm_dedup_shards d = lsm_dedup_shards (fx_stores f)"
  have discard: "?good (discard_redb blank f')" if "?good f'" for f' using discard_files [of lc rc f' blank] that assms(2) by simp
  have opened: "?opened d'" if "?good f'" "open_files red fault f' = Inr d'" for f' fault d'
    using open_files_ok [of lc rc f' red fault d'] that by simp
  from assms(3) obtain rs rb sn f1 f2 rsd where steps:
    "archive_monolithic blank io nats rs f = Inr (rb, sn, f1)" "discard_unsnapshotted blank io rb sn f1 = Inr f2"
    "open_index red blank io nats rb sn f2 = Inr rsd" "check_missing nats (fx_dedup f2) rsd = (rebuild, snapshot, d)"
    by (auto simp: prepare_index_def rbind_Inr_iff)
  have "?good f1" using steps(1) assms(1) discard by (auto simp: archive_monolithic_def rbind_Inr_iff split: if_splits)
  then have f2: "?good f2" using steps(2) discard by (auto simp: discard_unsnapshotted_def rbind_Inr_iff split: if_splits)
  have d: "snd (snd rsd) = d" using steps(4) by (auto simp: check_missing_def Let_def split: prod.splits if_splits)
  show ?thesis
  proof (cases "open_files red (si_open io) f2")
    case (Inr d')
    with steps(3) d have "d' = d" by (auto simp: open_index_def)
    with opened [OF f2 Inr] show ?thesis by simp
  next
    case (Inl e)
    with steps(3) d have "open_files red (si_open_again io) (discard_redb blank f2) = Inr d"
      by (auto simp: open_index_def rbind_Inr_iff split: if_splits)
    from opened [OF discard [OF f2] this] show ?thesis .
  qed
qed

lemma open_wal_recovered:
  assumes "open_wal crc sj io nats rebuild = Inr (rebuild', file, recovered)"
  shows "(rebuild \<longrightarrow> rebuild')
    \<and> (wal_open crc (sj_wal sj) (si_wal io) = Inr (file, recovered) \<and> rebuild' = rebuild
       \<or> (\<exists>e. wal_open crc (sj_wal sj) (si_wal io) = Inl e) \<and> nats \<and> rebuild' \<and> recovered = [])"
  using assms by (auto simp: open_wal_def wal_open_def recover_def rbind_Inr_iff split: sum.splits if_splits)

lemma place_rebuild: "place_checkpoint io True snapshot c = (Inr (), c') \<Longrightarrow> cp_value c' = checkpoint_default"
  by (auto simp: place_checkpoint_def reset_checkpoint_def replace_checkpoint_def Let_def split: replace_outcome.splits)

lemma fresh_store_ok:
  fixes st :: "'d store"
  assumes "good (st_disk st)" "shards_ok hash (st_shards st)" "st_memory st = replicate STATE_SHARDS Map.empty"
  defines "s \<equiv> store.extend (store.truncate st) \<lparr>st_queue = []\<rparr>"
  shows "live_ok hash lookup good s \<and> live_abs hash lookup s = (lookup (st_disk st), merged hash (st_shards st))"
  using assms(1-3)
  by (simp add: s_def live_ok_def live_abs_def ledger_of_def store.defs mem_at_start no_pending_def fun_eq_iff)
    (simp add: mem_ok_def)

lemma store_start_memory:
  "store_start sha hash ins n recovered snapshot d = Inr st \<Longrightarrow> st_memory st = replicate STATE_SHARDS Map.empty"
  by (auto simp: store_start_def rbind_Inr_iff split: prod.splits)

context disk_laws
begin

lemma disk_is_index: "dedup_index (disk_index_api lsm red) (disk_index lc rc) (\<lambda>d. disk_ok lc rc d \<and> filter_ok lc rc d)"
  by (rule index.dedup_index_axioms)

end

lemma boot_ok:
  assumes "kv_store lsm lc" "kv_store red rc" "\<forall>x. length (sha x) = 32" "0 < n" "n < 2 ^ 64" "files_ok lc rc f" "rc blank = []"
    and "prepare_index sha sj red blank io (nats \<noteq> None) f = Inr (rebuild, snapshot, d)"
    and "\<forall>(k, x) \<in> set (snapshot_entries sha snapshot). length x = 32"
    and "boot sha hash crc sj lsm red blank io n nats f cp = Inr (st, l, c)"
  defines "good \<equiv> \<lambda>d. disk_ok lc rc d \<and> filter_ok lc rc d" and "lookup \<equiv> disk_index lc rc"
  shows "\<exists>rebuild' bs recovered. open_wal crc sj io (nats \<noteq> None) rebuild = Inr (rebuild', bs, recovered)
    \<and> live_ok hash lookup good st \<and> (rebuild' \<longrightarrow> cp_value c = checkpoint_default)
    \<and> l = (case nats of None \<Rightarrow> None | Some (Inr g) \<Rightarrow> Some g | _ \<Rightarrow> None) \<and> (nats \<noteq> None \<longrightarrow> l \<noteq> None)
    \<and> (\<forall>k. balance_at (merged hash (st_shards st)) k
         = balance_at (snapshot_balances snapshot) k + total_delta (firsts sha {} recovered) k)
    \<and> dom (lookup d) \<subseteq> dom (fst (live_abs hash lookup st))"
proof -
  note laws = disk_laws.intro [OF assms(1,2)]
  have d: "good d" using prepare_index_ok [OF assms(6,7,8)] by (simp add: good_def)
  from assms(8,10) obtain rebuild' bs recovered st0 l0 c0 where run:
    "open_wal crc sj io (nats \<noteq> None) rebuild = Inr (rebuild', bs, recovered)"
    "store_start sha hash (disk_insert_many lsm (Inr ())) n recovered snapshot d = Inr st0"
    "(case nats of None \<Rightarrow> Inr None | Some connected \<Rightarrow> rbind connected (\<lambda>l. Inr (Some l))) = Inr l0"
    "(case place_checkpoint io rebuild' snapshot c0 of
       (Inl e, _) \<Rightarrow> Inl e
     | (Inr _, c) \<Rightarrow> Inr (store.extend (store.truncate st0) \<lparr>st_queue = []\<rparr>, l0, c)) = Inr (st, l, c)"
    unfolding boot_def by (auto simp only: rbind_Inr_iff prod.case)
  obtain r c1 where place: "place_checkpoint io rebuild' snapshot c0 = (r, c1)" by fastforce
  with run(4) have end_state: "place_checkpoint io rebuild' snapshot c0 = (Inr (), c)" "l0 = l"
    "st = store.extend (store.truncate st0) \<lparr>st_queue = []\<rparr>"
    by (cases r, simp, simp)+
  have len: "length (sha x) = 32" for x using assms(3) by simp
  from dedup_index.store_start_ok [where sha = sha and hash = hash and recovered = recovered,
      OF disk_laws.disk_is_index [OF laws] d [unfolded good_def] assms(4,5) len assms(9)] run(2)
  have st0: "good (st_disk st0)" "shards_ok hash (st_shards st0)"
    "merged hash (st_shards st0) = fst (apply_in_order (firsts sha {} recovered) (snapshot_balances snapshot))"
    "dom (lookup d) \<subseteq> dom (lookup (st_disk st0))"
    by (auto simp: good_def lookup_def disk_index_api_def)
  from fresh_store_ok [of good st0 hash lookup, OF st0(1,2) store_start_memory [OF run(2)]] end_state(3)
  have st: "live_ok hash lookup good st" "live_abs hash lookup st = (lookup (st_disk st0), merged hash (st_shards st0))" by simp_all
  have "cp_value c = checkpoint_default" if rebuild' using end_state(1) that place_rebuild by simp
  moreover have "l = (case nats of None \<Rightarrow> None | Some (Inr g) \<Rightarrow> Some g | _ \<Rightarrow> None)" "nats \<noteq> None \<longrightarrow> l \<noteq> None"
    using run(3) end_state(2) by (auto simp: rbind_Inr_iff split: option.splits)
  moreover have "merged hash (st_shards st) = merged hash (st_shards st0)" using st(2) by (simp add: live_abs_def)
  ultimately show ?thesis using run(1) st st0(3,4) by (simp add: apply_in_order_at)
qed

lemma damaged_prepare:
  assumes "snap_load sha (sj_snapshot sj) (si_snapshot io) = Inl e"
    and "prepare_index sha sj red blank io True f = Inr (rebuild, snapshot, d)"
  shows "rebuild \<and> snapshot = None"
proof -
  from assms obtain f1 f2 rsd where "archive_monolithic blank io True (True, None) f = Inr (True, None, f1)"
    "open_index red blank io True True None f2 = Inr rsd" "check_missing True (fx_dedup f2) rsd = (rebuild, snapshot, d)"
    by (auto simp: prepare_index_def load_snapshot_def rbind_Inr_iff archive_monolithic_def split: if_splits)
  then show ?thesis
    by (auto simp: open_index_def check_missing_def rbind_Inr_iff split: sum.splits if_splits)
qed

lemma missing_prepare:
  assumes "snap_load sha (sj_snapshot sj) (si_snapshot io) = Inr (Some s)" "sn_version s \<ge> 2" "\<not> fx_dedup f"
    and "prepare_index sha sj red blank io False f = Inr (rebuild, snapshot, d)"
  shows "\<not> rebuild \<and> snapshot = None"
  using assms
  by (auto simp: prepare_index_def load_snapshot_def rbind_Inr_iff archive_monolithic_def discard_unsnapshotted_def
      open_index_def check_missing_def split: sum.splits)

lemma firsts_known: "\<forall>op \<in> set ops. sha (operation_id op) \<in> S \<Longrightarrow> firsts sha S ops = []"
  by (induction ops) auto

lemma disk_index_knows: "key \<in> dom (map_of (lc (lsm_dedup_shards d ! dedup_lsm_shard key))) \<Longrightarrow> key \<in> dom (disk_index lc rc d)"
  by (auto simp: disk_index_def map_add_find_right)

lemma startup_steps:
  assumes "startup sha hash crc sj lsm red blank iter io n f cp files up env json api nats = Some (Inr r)"
  shows "\<exists>d rebuild snapshot st l c. prepare_index sha sj red blank io (nats \<noteq> None) f = Inr (rebuild, snapshot, d)
    \<and> boot sha hash crc sj lsm red blank io n nats f cp = Inr (st, l, c)
    \<and> follow_log (store_restore sha hash (disk_index_api lsm red) up env) json api io st l c
        = (Some (Inr ()), sd_store r, sd_log r, sd_checkpoint r)
    \<and> compact sha iter io (sd_store r) (sd_checkpoint r) files = Inr (sd_snapshot r, sd_wal r)"
proof -
  from assms obtain st l c where boot: "boot sha hash crc sj lsm red blank io n nats f cp = Inr (st, l, c)"
    by (auto simp: startup_def split: sum.splits)
  then obtain rebuild snapshot d where "prepare_index sha sj red blank io (nats \<noteq> None) f = Inr (rebuild, snapshot, d)"
    unfolding boot_def by (auto simp only: rbind_Inr_iff)
  moreover obtain o1 st1 l1 c1 where follow: "follow_log (store_restore sha hash (disk_index_api lsm red) up env) json api io st l c
      = (o1, st1, l1, c1)" by (metis surj_pair)
  with assms boot have o1: "o1 = Some (Inr ())"
    by (auto simp: startup_def split: option.splits sum.splits)
  with assms boot follow obtain files' wal' where "compact sha iter io st1 c1 files = Inr (files', wal')"
    "r = \<lparr>sd_store = st1, sd_log = l1, sd_checkpoint = c1, sd_snapshot = files', sd_wal = wal'\<rparr>"
    by (auto simp: startup_def rbind_Inr_iff)
  ultimately show ?thesis using boot follow o1 by auto
qed

lemma compact_saves:
  assumes "compact sha iter io st c files = Inr (files', wal')" "\<forall>x. length (sha x) = 32"
    and "snapshot_loadable (store_snapshot iter (current c) (writer_epoch c) (st_shards st))"
  shows "wal' = [] \<and> snap_load sha json (file_read (sf_file files'))
    = Inr (Some (store_snapshot iter (current c) (writer_epoch c) (st_shards st)))"
proof -
  let ?s = "store_snapshot iter (current c) (writer_epoch c) (st_shards st)"
  from assms(1) have "snap_save sha (si_save io) ?s files = (Inr (), files')" "wal' = []"
    by (auto simp: compact_def rbind_Inr_iff split: prod.splits sum.splits)
  with saved_snapshot_loads [OF _ assms(3)] assms(2) show ?thesis by blast
qed

section \<open>The properties\<close>


text \<open>
  C40: without a replicated log, a missing index file costs the whole state.  When
  \<open>dedup.redb\<close> is absent, the snapshot is set aside to be rebuilt from a quorum that this node
  does not have: it starts with the log alone, here empty, and the compaction then replaces
  the good snapshot by an empty one.
\<close>
theorem missing_index_drops_snapshot:
  assumes "kv_store lsm lc" "kv_store red rc" "\<forall>x. length (sha x) = 32" "0 < n" "n < 2 ^ 64"
    and "files_ok lc rc f" "rc blank = []" "iterates iter"
    and "snap_load sha (sj_snapshot sj) (si_snapshot io) = Inr (Some s)" "sn_version s \<ge> 2" "\<not> fx_dedup f"
    and "wal_open crc (sj_wal sj) (si_wal io) = Inr (bs, [])"
    and "startup sha hash crc sj lsm red blank iter io n f cp files up env json api None = Some (Inr r)"
    and "snapshot_loadable (store_snapshot iter (current (sd_checkpoint r)) (writer_epoch (sd_checkpoint r)) (st_shards (sd_store r)))"
  shows "\<exists>s'. snap_load sha json' (file_read (sf_file (sd_snapshot r))) = Inr (Some s')
    \<and> balance_at (snapshot_balances (Some s')) k = 0"
proof -
  from startup_steps [OF assms(13)] obtain d rebuild snapshot st l c where run:
    "prepare_index sha sj red blank io False f = Inr (rebuild, snapshot, d)"
    "boot sha hash crc sj lsm red blank io n None f cp = Inr (st, l, c)"
    "follow_log (store_restore sha hash (disk_index_api lsm red) up env) json api io st l c = (Some (Inr ()), sd_store r, sd_log r, sd_checkpoint r)"
    "compact sha iter io (sd_store r) (sd_checkpoint r) files = Inr (sd_snapshot r, sd_wal r)" by auto
  have none: "snapshot = None" using missing_prepare [OF assms(9-11) run(1)] by simp
  then have "\<forall>(k, x) \<in> set (snapshot_entries sha snapshot). length x = 32" by (simp add: snapshot_entries_def)
  from boot_ok [OF assms(1-7) _ this run(2)] run(1) obtain rebuild' bs' recovered where boot:
    "open_wal crc sj io False rebuild = Inr (rebuild', bs', recovered)" "l = None"
    "live_ok hash (disk_index lc rc) (\<lambda>d. disk_ok lc rc d \<and> filter_ok lc rc d) st"
    "\<forall>k. balance_at (merged hash (st_shards st)) k
       = balance_at (snapshot_balances snapshot) k + total_delta (firsts sha {} recovered) k" by auto
  from run(3) boot(2) have same: "sd_store r = st" by (simp add: follow_log_def)
  have "recovered = []" using open_wal_recovered [OF boot(1)] assms(12) by auto
  with boot(4) none have "balance_at (merged hash (st_shards st)) k = 0"
    by (cases k) (simp add: snapshot_balances_def balance_at_def total_delta_def)
  moreover have "shards_ok hash (st_shards st)" using boot(3) by (simp add: live_ok_def)
  ultimately show ?thesis
    using compact_saves [OF run(4) assms(3,14), of json'] snapshot_rows [OF assms(8), of hash "st_shards st"]
    unfolding same by (auto simp: snapshot_balances_def)
qed

text \<open>
  C35: a damaged snapshot costs the whole state of a replica.  The start sets the snapshot
  aside, discards \<open>dedup.redb\<close>, resets the checkpoint and replays the log from its beginning;
  but the ids live in the directory \<open>dedup-lsm\<close>, which it keeps: every operation is a
  duplicate, and the node goes into service with all balances zero.
\<close>
theorem damaged_snapshot_loses_balances:
  assumes "kv_store lsm lc" "kv_store red rc" "\<forall>x. length (sha x) = 32" "0 < n" "n < 2 ^ 64"
    and "files_ok lc rc f" "rc blank = []" "replicated_log api contents" "\<forall>i. up i"
    and "snap_load sha (sj_snapshot sj) (si_snapshot io) = Inl e" "wal_open crc (sj_wal sj) (si_wal io) = Inr (bs, [])"
    and "batches = accepted_batches 0 (log_records json (contents g))" "injective_batches sha batches" "length (contents g) < 2 ^ 64 - 1"
    and "\<forall>op \<in> set (concat batches).
      sha (operation_id op) \<in> dom (map_of (lc (lsm_dedup_shards (fx_stores f) ! dedup_lsm_shard (sha (operation_id op)))))"
    and "startup sha hash crc sj lsm red blank iter io n f cp files up env json api (Some (Inr g)) = Some (Inr r)"
  shows "balance_at (merged hash (st_shards (sd_store r))) k = 0 \<and> unat (current (sd_checkpoint r)) = length (contents g)"
proof -
  let ?good = "\<lambda>d. disk_ok lc rc d \<and> filter_ok lc rc d" and ?lookup = "disk_index lc rc"
  from startup_steps [OF assms(16)] obtain d rebuild snapshot st l c where run:
    "prepare_index sha sj red blank io True f = Inr (rebuild, snapshot, d)"
    "boot sha hash crc sj lsm red blank io n (Some (Inr g)) f cp = Inr (st, l, c)"
    "follow_log (store_restore sha hash (disk_index_api lsm red) up env) json api io st l c = (Some (Inr ()), sd_store r, sd_log r, sd_checkpoint r)"
    by auto
  have none: "rebuild" "snapshot = None" using damaged_prepare [OF assms(10) run(1)] by simp_all
  have "\<forall>(k, x) \<in> set (snapshot_entries sha snapshot). length x = 32" using none(2) by (simp add: snapshot_entries_def)
  from boot_ok [OF assms(1-7) _ this run(2)] run(1) obtain rebuild' bs' recovered where boot:
    "open_wal crc sj io True rebuild = Inr (rebuild', bs', recovered)" "l = Some g" "live_ok hash ?lookup ?good st"
    "rebuild' \<longrightarrow> cp_value c = checkpoint_default" "\<forall>k. balance_at (merged hash (st_shards st)) k
       = balance_at (snapshot_balances snapshot) k + total_delta (firsts sha {} recovered) k"
    "dom (?lookup d) \<subseteq> dom (fst (live_abs hash ?lookup st))" by auto
  from open_wal_recovered [OF boot(1)] none(1) assms(11) have wal: "rebuild'" "recovered = []" by auto
  let ?rp = "\<lparr>rp_store = st, rp_log = g, rp_checkpoint = c\<rparr>"
  obtain rp where catch: "catch_up (store_restore sha hash (disk_index_api lsm red) up env) json api (si_advance io) ?rp
      = (Some (Inr ()), rp)" "rp_store rp = sd_store r" "rp_checkpoint rp = sd_checkpoint r"
    using run(3) boot(2) by (auto simp: follow_log_def Let_def split: prod.splits)
  have setting: "tail_setting sha (disk_index_api lsm red) ?lookup ?good up api contents"
    using disk_laws.disk_is_index [OF disk_laws.intro [OF assms(1,2)]] assms(3,8,9) by (simp add: tail_setting_def)
  have start: "replica_at_start hash ?lookup ?good ?rp" using boot(3,4) wal(1) by (simp add: replica_at_start_def)
  have log: "batches = accepted_batches 0 (log_records json (contents (rp_log ?rp)))" "length (contents (rp_log ?rp)) < 2 ^ 64 - 1"
    using assms(12,14) by simp_all
  from catch_up_replayed [OF setting start rtranclp.rtrancl_refl log(1) assms(13) log(2) catch(1)]
  have final: "unat (current (rp_checkpoint rp)) = length (contents g)"
    "balance_at (merged hash (st_shards (rp_store rp))) k = balance_at (merged hash (st_shards st)) k
       + total_delta (firsts sha (dom (fst (live_abs hash ?lookup st))) (concat batches)) k" by (cases k, simp)+
  have "lsm_dedup_shards d = lsm_dedup_shards (fx_stores f)" using prepare_index_ok [OF assms(6,7) run(1)] by simp
  then have "\<forall>op \<in> set (concat batches). sha (operation_id op) \<in> dom (?lookup d)"
    using disk_index_knows [of _ lc d rc] assms(15) by metis
  with boot(6) have "firsts sha (dom (fst (live_abs hash ?lookup st))) (concat batches) = []" by (intro firsts_known) blast
  moreover have "balance_at (merged hash (st_shards st)) k = 0"
    using boot(5) none(2) wal(2) by (cases k) (simp add: snapshot_balances_def balance_at_def total_delta_def)
  ultimately show ?thesis using final catch(2,3) by (simp add: total_delta_def)
qed

section \<open>Starts\<close>

definition sample_io :: "read_outcome \<Rightarrow> startup_io" where
  "sample_io snapshot = \<lparr>si_snapshot = snapshot, si_move_snapshot = Inr (), si_archive = Inr (), si_discard = Inr (),
     si_open = None, si_discard_again = Inr (), si_open_again = None, si_wal = FileNotFound, si_move_wal = Inr (),
     si_position = ReplaceOk, si_advance = (\<lambda>_. ReplaceOk), si_sync = Inr (), si_save = ReplaceOk, si_reset = Inr ()\<rparr>"

definition sample_sj :: startup_json where
  "sample_sj = \<lparr>sj_snapshot = (\<lambda>_. Inl ParseError), sj_wal = (\<lambda>_. Inl ParseError), sj_checkpoint = (\<lambda>_. Inl ParseError)\<rparr>"

text \<open>The LSM directory of a node that has applied the two sample operations.\<close>

definition sample_kept :: "(sorted_alist, sorted_alist) disk_stores" where
  "sample_kept = \<lparr>lsm_dedup = alist_empty,
     lsm_dedup_shards = (replicate 64 alist_empty)[47 :=
       fold (\<lambda>op. alist_insert (pad (operation_id op)) (fingerprint pad op)) sample_ops alist_empty],
     lsm_history = alist_empty, lsm_by_owner = alist_empty, lsm_by_sku = alist_empty,
     lsm_history_meta = alist_empty, redb_dedup = alist_empty, redb_dedup_shards = replicate 16 alist_empty,
     redb_history = alist_empty, redb_by_owner = alist_empty, redb_by_sku = alist_empty\<rparr>"

definition sample_index :: "bool \<Rightarrow> (sorted_alist, sorted_alist) index_files" where
  "sample_index present = \<lparr>fx_dedup = present, fx_history = True, fx_lsm = True, fx_stores = sample_kept\<rparr>"

definition sample_opened :: "(sorted_alist, sorted_alist) disk" where
  "sample_opened = disk_stores.extend sample_kept
     \<lparr>legacy_fallback = False, bloom = replicate BLOOM_BYTES 0, bloom_ready = False\<rparr>"

lemma sample_index_dedup: "fx_dedup (sample_index p) = p" by (simp add: sample_index_def)

lemma sample_index_ok: "files_ok alist_of alist_of (sample_index present)"
proof -
  have put: "alist_of (fold (\<lambda>op. alist_insert (pad (operation_id op)) (fingerprint pad op)) ops ks)
      = fold (\<lambda>op. alist_put (pad (operation_id op)) (fingerprint pad op)) ops (alist_of ks)" for ops ks
    by (induction ops arbitrary: ks) (simp_all add: alist_insert.rep_eq)
  have "entries_ok (alist_put k v es)" if "entries_ok es" "length k = 32" "length v = 32" for k v es
    using that by (induction k v es rule: alist_put.induct) (auto simp: entries_ok_def)
  then have keep: "entries_ok (fold (\<lambda>op. alist_put (pad (operation_id op)) (fingerprint pad op)) ops es)" if "entries_ok es" for ops es
    using that by (induction ops arbitrary: es) (simp_all add: length_pad fingerprint_def)
  have kept: "entries_ok (alist_of (fold (\<lambda>op. alist_insert (pad (operation_id op)) (fingerprint pad op)) sample_ops alist_empty))"
    unfolding put alist_empty.rep_eq by (rule keep) (simp add: entries_ok_def)
  have "entries_ok (alist_of ks)" if "ks \<in> set (lsm_dedup_shards sample_kept)" for ks
  proof -
    from that have "ks = alist_empty \<or> ks = fold (\<lambda>op. alist_insert (pad (operation_id op)) (fingerprint pad op)) sample_ops alist_empty"
      by (auto simp: sample_kept_def dest!: subsetD [OF set_update_subset_insert])
    with kept show ?thesis by (auto simp: entries_ok_def alist_empty.rep_eq)
  qed
  then show ?thesis
    by (simp add: files_ok_def sample_index_def stores_ok_def list_all_iff)
      (simp add: sample_kept_def DEDUP_LSM_SHARDS_def DEDUP_SHARDS_def entries_ok_def alist_empty.rep_eq)
qed

lemma for_each_replicate: "f x a = Inr a \<Longrightarrow> for_each f (replicate n x) a = Inr a"
  by (induction n) simp_all

lemma sample_open: "disk_open alist_api ed True sample_kept = Inr sample_opened"
proof -
  have "for_each (\<lambda>db found. if found then Inr True else rbind (dedup_table_len alist_api db) (\<lambda>m. Inr (0 < m)))
      (replicate 16 alist_empty) False = Inr False"
    by (rule for_each_replicate) (simp add: dedup_table_len_def alist.len alist_eval)
  then show ?thesis
    by (simp add: disk_open_def dedup_table_len_def alist.len alist_eval sample_kept_def sample_opened_def)
qed

lemma sample_prepare:
  "prepare_index sha sample_sj alist_api alist_empty (sample_io rd) nats (sample_index present)
    = rbind (load_snapshot sha sample_sj (sample_io rd) nats)
        (\<lambda>(rebuild, snapshot). Inr (check_missing nats (present \<and> \<not> (rebuild \<and> snapshot = None)) (rebuild, snapshot, sample_opened)))"
proof -
  have discard: "discard_redb alist_empty (sample_index present) = sample_index False"
    by (simp add: discard_redb_def sample_index_def sample_kept_def)
  have opened: "open_index alist_api alist_empty (sample_io rd) nats rebuild snapshot (sample_index p) = Inr (rebuild, snapshot, sample_opened)"
    for rebuild snapshot p
    by (simp add: open_index_def open_files_def sample_io_def sample_index_def sample_open)
  have "archive_monolithic alist_empty (sample_io rd) nats rs (sample_index present) = Inr (fst rs, snd rs, sample_index present)" for rs
    by (simp add: archive_monolithic_def sample_index_def)
  moreover have "discard_unsnapshotted alist_empty (sample_io rd) rebuild snapshot (sample_index present)
      = Inr (sample_index (present \<and> \<not> (rebuild \<and> snapshot = None)))" for rebuild snapshot
    using discard by (cases present) (auto simp: discard_unsnapshotted_def sample_io_def sample_index_def)
  ultimately show ?thesis
    by (cases "load_snapshot sha sample_sj (sample_io rd) nats") (simp_all add: prepare_index_def opened sample_index_dedup case_prod_beta)
qed

lemma startup_single_eval:
  assumes "prepare_index sha sj red blank io False f = Inr (rebuild, snapshot, d)" "si_wal io = FileNotFound"
    and "store_start sha hash (disk_insert_many lsm (Inr ())) n [] snapshot d = Inr st"
    and "checkpoint_open (sj_checkpoint sj) (fst cp) (snd cp) = Inr c0" "place_checkpoint io rebuild snapshot c0 = (Inr (), c)"
    and "snap_save sha (si_save io) (store_snapshot iter (current c) (writer_epoch c) (st_shards st)) files = (Inr (), files')" "si_sync io = Inr ()" "si_reset io = Inr ()"
  shows "startup sha hash crc sj lsm red blank iter io n f cp files up env json api None
    = Some (Inr \<lparr>sd_store = store.extend (store.truncate st) \<lparr>st_queue = []\<rparr>, sd_log = None, sd_checkpoint = c,
        sd_snapshot = files', sd_wal = []\<rparr>)"
  using assms by (simp add: startup_def boot_def open_wal_def wal_open_def recover_def follow_log_def compact_def store.defs)

definition sample_saved :: snapshot_data where
  "sample_saved = \<lparr>sn_version = 3, sn_sequence = 42,
     sn_balances = [\<lparr>bs_owner_id = ascii ''owner'', bs_sku = ascii ''sku'', bs_balance = 77\<rparr>],
     sn_dedup = [], sn_writer_epoch = 8\<rparr>"

definition sample_file :: read_outcome where
  "sample_file = FileData (snap_bytes pad (enc_snapshot sample_saved))"

lemma sample_saved_loads: "snap_load pad (sj_snapshot sample_sj) sample_file = Inr (Some sample_saved)"
proof -
  have ok: "snapshot_loadable sample_saved"
    by (simp add: snapshot_loadable_def snapshot_good_def sample_saved_def balance_good_def
        string_good_def string_fits_def ascii_str_facts ascii_only_def
        enc_snapshot_def enc_balance_def enc_string_def)
  then have "snap_encode sample_saved = Inr (enc_snapshot sample_saved)"
    by (simp add: snap_encode_iff snapshot_loadable_def snapshot_good_fits)
  then have "snap_save pad ReplaceOk sample_saved \<lparr>sf_file = None, sf_tmp = None\<rparr>
      = (Inr (), \<lparr>sf_file = Some (snap_bytes pad (enc_snapshot sample_saved)), sf_tmp = None\<rparr>)" by (simp add: snap_save_outcome)
  from saved_snapshot_loads [OF length_pad ok this] show ?thesis by (simp add: sample_file_def file_read_def)
qed

text \<open>A node alone, without log records, that saves what it loaded.\<close>

definition sample_checkpoint :: checkpoint where
  "sample_checkpoint = \<lparr>cp_file = None, cp_tmp = None, cp_value = checkpoint_default\<rparr>"

lemma sample_start_steps:
  assumes "prepare_index pad sample_sj alist_api alist_empty (sample_io rd) False (sample_index present) = Inr (False, snapshot, d)"
    and "store_start pad sample_hash (disk_insert_many alist_api (Inr ())) 4 [] snapshot d = Inr st"
    and "place_checkpoint (sample_io rd) False snapshot sample_checkpoint = (Inr (), c)"
    and "snapshot_loadable (store_snapshot iter_sorted (current c) (writer_epoch c) (st_shards st))"
  shows "\<exists>r. startup pad sample_hash crc sample_sj alist_api alist_api alist_empty iter_sorted (sample_io rd) 4 (sample_index present)
      (None, None) \<lparr>sf_file = None, sf_tmp = None\<rparr> up env json api None = Some (Inr r)
    \<and> sd_checkpoint r = c \<and> st_shards (sd_store r) = st_shards st"
proof -
  have cp: "checkpoint_open (sj_checkpoint sample_sj) None None = Inr sample_checkpoint"
    by (simp add: checkpoint_open_def checkpoint_load_def file_read_def sample_checkpoint_def)
  let ?s = "store_snapshot iter_sorted (current c) (writer_epoch c) (st_shards st)"
  from assms(4) have "snap_encode ?s = Inr (enc_snapshot ?s)"
    by (simp add: snap_encode_iff snapshot_loadable_def snapshot_good_fits)
  then obtain files' where save: "snap_save pad (si_save (sample_io rd)) ?s \<lparr>sf_file = None, sf_tmp = None\<rparr> = (Inr (), files')"
    by (simp add: snap_save_outcome sample_io_def)
  have io: "si_wal (sample_io rd) = FileNotFound" "si_sync (sample_io rd) = Inr ()" "si_reset (sample_io rd) = Inr ()"
    by (simp_all add: sample_io_def)
  show ?thesis
    using startup_single_eval [OF assms(1) io(1) assms(2) _ assms(3) save io(2,3), where cp = "(None, None)" and crc = crc and up = up and env = env
      and json = json and api = api] cp
    by (simp add: store.defs)
qed



lemma sample_empty_start:
  "store_start pad sample_hash (disk_insert_many lsm (Inr ())) 4 [] None d
    = Inr \<lparr>st_shards = sample_shards, st_published = fold (\<lambda>m acc. acc ++ m) sample_shards Map.empty,
        st_memory = replicate STATE_SHARDS Map.empty, st_disk = d\<rparr>"
  by (simp add: store_start_def start_snapshot_def insert_chunk_def disk_insert_many_def sample_shards_def)


lemma sample_empty_loadable: "snapshot_loadable (store_snapshot iter_sorted 0 0 sample_shards)"
  by (simp add: snapshot_loadable_def snapshot_good_def store_snapshot_def sample_shards_def dump_rows_def
      iter_sorted_def enc_snapshot_def string_fits_def)

lemma sample_load: "load_snapshot pad sample_sj (sample_io sample_file) nats = Inr (False, Some sample_saved)"
  using sample_saved_loads by (simp add: load_snapshot_def sample_io_def)

lemma sample_index_prepared:
  "prepare_index pad sample_sj alist_api alist_empty (sample_io sample_file) False (sample_index True)
    = Inr (False, Some sample_saved, sample_opened)"
  "prepare_index pad sample_sj alist_api alist_empty (sample_io sample_file) False (sample_index False)
    = Inr (False, None, sample_opened)"
  unfolding sample_prepare sample_load by (simp_all add: check_missing_def sample_saved_def)


lemma sample_empty_single_start:
  "\<exists>r. startup pad sample_hash crc sample_sj alist_api alist_api alist_empty iter_sorted (sample_io sample_file) 4 (sample_index False)
      (None, None) \<lparr>sf_file = None, sf_tmp = None\<rparr> up env json api None = Some (Inr r)
    \<and> current (sd_checkpoint r) = 0 \<and> writer_epoch (sd_checkpoint r) = 0 \<and> st_shards (sd_store r) = sample_shards"
proof -
  have c: "place_checkpoint (sample_io sample_file) False None sample_checkpoint = (Inr (), sample_checkpoint)"
    "current sample_checkpoint = 0" "writer_epoch sample_checkpoint = 0"
    by (simp_all add: place_checkpoint_def sample_checkpoint_def checkpoint_default_def current_def writer_epoch_def)
  from sample_start_steps [OF sample_index_prepared(2) sample_empty_start c(1)] c(2,3) sample_empty_loadable
  show ?thesis by (metis store.select_convs(1))
qed

text \<open>A node with a damaged snapshot, whose index knows the operations of the log.\<close>

lemma sample_kept_known:
  "\<forall>op \<in> set sample_ops. map_of (alist_of (lsm_dedup_shards sample_kept ! dedup_lsm_shard (pad (operation_id op)))) (pad (operation_id op))
     = Some (fingerprint pad op)"
proof -
  have keys: "pad (operation_id (sample_op ''op-1'' ''ann'' ''bolt'' 5)) \<noteq> pad (operation_id (sample_op ''op-2'' ''bob'' ''nut'' 7))"
    by (simp add: sample_op_def pad_def ascii_def)
  have shard: "dedup_lsm_shard (pad (operation_id op)) = 47" if "op \<in> set sample_ops" for op
    using that by (auto simp: sample_ops_def sample_op_def pad_def ascii_def dedup_lsm_shard_def DEDUP_LSM_SHARDS_def)
  have "map_of (alist_of (lsm_dedup_shards sample_kept ! 47)) (pad (operation_id op)) = Some (fingerprint pad op)"
    if "op \<in> set sample_ops" for op
    using that keys by (auto simp: sample_kept_def sample_ops_def alist_eval)
  with shard show ?thesis by simp
qed

definition sample_damaged :: startup_io where
  "sample_damaged = sample_io (FileData [])"

lemma sample_damaged_load: "snap_load pad (sj_snapshot sample_sj) (si_snapshot sample_damaged) = Inl (Msg ''snapshot header is truncated'')"
  by (simp add: snap_load_def sample_damaged_def sample_io_def starts_with_def SNAP_HEADER_SIZE_def SNAP_LEGACY_MAGIC_def)

lemma sample_damaged_prepare:
  "prepare_index pad sample_sj alist_api alist_empty sample_damaged True (sample_index True) = Inr (True, None, sample_opened)"
  using sample_damaged_load
  by (simp add: sample_damaged_def sample_prepare load_snapshot_def check_missing_def) (simp add: sample_io_def)

definition sample_booted :: "(sorted_alist, sorted_alist) disk live_store" where
  "sample_booted = \<lparr>st_shards = sample_shards, st_published = fold (\<lambda>m acc. acc ++ m) sample_shards Map.empty,
     st_memory = replicate STATE_SHARDS Map.empty, st_disk = sample_opened, st_queue = []\<rparr>"

lemma sample_boot:
  "\<exists>c. boot pad sample_hash crc sample_sj alist_api alist_api alist_empty sample_damaged 4 (Some (Inr g)) (sample_index True) (None, None)
     = Inr (sample_booted, Some g, c) \<and> cp_value c = checkpoint_default"
proof -
  have "checkpoint_open (sj_checkpoint sample_sj) None None = Inr sample_checkpoint"
    by (simp add: checkpoint_open_def checkpoint_load_def file_read_def sample_checkpoint_def)
  moreover have "place_checkpoint sample_damaged True None sample_checkpoint
      = (Inr (), \<lparr>cp_file = Some (checkpoint_bytes checkpoint_default), cp_tmp = None, cp_value = checkpoint_default\<rparr>)"
    by (simp add: place_checkpoint_def reset_checkpoint_def replace_checkpoint_def sample_damaged_def sample_io_def Let_def)
  moreover have "open_wal crc sample_sj sample_damaged True True = Inr (True, fst (projr (wal_open crc (sj_wal sample_sj) FileNotFound)), [])"
    by (simp add: open_wal_def wal_open_def recover_def sample_damaged_def sample_io_def)
  ultimately show ?thesis
    by (simp add: boot_def sample_damaged_prepare sample_empty_start sample_booted_def store.defs)
qed

lemma sample_booted_ok:
  "live_ok sample_hash sample_lookup (\<lambda>d. disk_ok alist_of alist_of d \<and> filter_ok alist_of alist_of d) sample_booted"
  "live_abs sample_hash sample_lookup sample_booted = (sample_lookup sample_opened, Map.empty)"
proof -
  define st where "st = store.truncate sample_booted"
  have st: "sample_booted = store.extend (store.truncate st) \<lparr>st_queue = []\<rparr>" "st_disk st = sample_opened"
    "st_shards st = sample_shards" "st_memory st = replicate STATE_SHARDS Map.empty"
    by (simp_all add: st_def sample_booted_def store.defs)
  have "disk_ok alist_of alist_of sample_opened \<and> filter_ok alist_of alist_of sample_opened"
    using prepare_index_ok [OF sample_index_ok _ sample_damaged_prepare] by (simp add: alist_empty.rep_eq)
  from fresh_store_ok [of "\<lambda>d. disk_ok alist_of alist_of d \<and> filter_ok alist_of alist_of d" st sample_hash sample_lookup]
    this sample_shards_ok st
  show "live_ok sample_hash sample_lookup (\<lambda>d. disk_ok alist_of alist_of d \<and> filter_ok alist_of alist_of d) sample_booted"
    "live_abs sample_hash sample_lookup sample_booted = (sample_lookup sample_opened, Map.empty)"
    by (simp_all add: sample_merged)
qed

lemma sample_booted_replay:
  "replay_batches pad [sample_ops] (live_abs sample_hash sample_lookup sample_booted) = Some (sample_lookup sample_opened, Map.empty)"
proof -
  have "sample_lookup sample_opened (pad (operation_id op)) = Some (fingerprint pad op)" if "op \<in> set sample_ops" for op
    using sample_kept_known that by (simp add: disk_index_def sample_opened_def disk_stores.defs map_add_find_right)
  moreover have "\<forall>op \<in> set sample_ops. \<forall>op' \<in> set sample_ops. operation_id op = operation_id op' \<longrightarrow> fingerprint pad op = fingerprint pad op'"
    by (simp add: sample_ops_def) (simp add: sample_op_def ascii_def)
  ultimately have "settled pad (sample_lookup sample_opened) sample_ops" unfolding settled_def by blast
  from settled_replay [OF this] show ?thesis by (simp add: sample_booted_ok)
qed

lemma sample_booted_follow:
  assumes "cp_value c = checkpoint_default"
  shows "\<exists>st g c'. follow_log (store_restore pad sample_hash sample_api (\<lambda>_. True) sample_env) sample_json list_log_api sample_damaged
      sample_booted (Some (sample_stream [sample_fence, sample_record sample_ops])) c = (Some (Inr ()), st, Some g, c')
    \<and> merged sample_hash (st_shards st) = Map.empty \<and> shards_ok sample_hash (st_shards st)"
proof -
  let ?log = "sample_stream [sample_fence, sample_record sample_ops]"
  let ?rp = "\<lparr>rp_store = sample_booted, rp_log = ?log, rp_checkpoint = c\<rparr>"
  have batches: "accepted_batches 0 (log_records sample_json (fst (rp_log ?rp))) = [sample_ops]"
    using sample_records sample_accepted by simp
  have start: "replica_at_start sample_hash sample_lookup (\<lambda>d. disk_ok alist_of alist_of d \<and> filter_ok alist_of alist_of d) ?rp"
    using sample_booted_ok(1) assms by (simp add: replica_at_start_def)
  have io: "\<forall>q. si_advance sample_damaged q = ReplaceOk" by (simp add: sample_damaged_def sample_io_def)
  have wal: "\<forall>q ops. re_wal (sample_env q) ops = Inr ()" by (simp add: sample_env_def)
  have inj: "injective_batches pad (accepted_batches 0 (log_records sample_json (fst (rp_log ?rp))))"
    unfolding batches by (rule sample_injective)
  have len: "length (fst (rp_log ?rp)) < 2 ^ 64 - 1" by (simp add: sample_stream_def)
  from tail_steps_run [OF sample_setting start rtranclp.rtrancl_refl inj len, of sample_env "si_advance sample_damaged"]
  obtain rp' where rp': "catch_up (store_restore pad sample_hash sample_api (\<lambda>_. True) sample_env) sample_json list_log_api
      (si_advance sample_damaged) ?rp = (Some (Inr ()), rp')"
    "replay_batches pad [sample_ops] (live_abs sample_hash sample_lookup sample_booted) = Some (live_abs sample_hash sample_lookup (rp_store rp'))"
    "live_ok sample_hash sample_lookup (\<lambda>d. disk_ok alist_of alist_of d \<and> filter_ok alist_of alist_of d) (rp_store rp')"
    unfolding batches using io wal sample_available sample_booted_replay by auto
  have "merged sample_hash (st_shards (rp_store rp')) = Map.empty"
    using rp'(2) unfolding sample_booted_replay by (simp add: live_abs_def)
  moreover have "shards_ok sample_hash (st_shards (rp_store rp'))"
    using rp'(3) by (simp add: live_ok_def)
  ultimately show ?thesis using rp'(1) by (simp add: follow_log_def)
qed

lemma no_rows:
  assumes "iterates iter" "shards_ok hash shards" "merged hash shards = Map.empty"
  shows "sn_balances (store_snapshot iter q e shards) = []"
proof -
  let ?rows = "sn_balances (store_snapshot iter q e shards)"
  have "row_map ?rows = Map.empty" unfolding snapshot_rows [OF assms(1,2)] by (rule assms(3))
  then have "map_of (rev (map (\<lambda>b. ((bs_owner_id b, bs_sku b), bs_balance b)) ?rows)) = Map.empty" by (simp only: row_map_def)
  then show ?thesis by (simp only: map_of_eq_empty_iff rev_is_Nil_conv map_is_Nil_conv)
qed

lemma empty_snapshot_loadable:
  assumes "iterates iter" "shards_ok hash shards" "merged hash shards = Map.empty"
  shows "snapshot_loadable (store_snapshot iter q e shards)"
  using no_rows [OF assms, of q e]
  by (simp add: snapshot_loadable_def snapshot_good_def enc_snapshot_def) (simp add: store_snapshot_def)

lemma sample_damaged_start:
  "\<exists>r. startup pad sample_hash (\<lambda>_. 0) sample_sj alist_api alist_api alist_empty iter_sorted sample_damaged 4 (sample_index True)
     (None, None) \<lparr>sf_file = None, sf_tmp = None\<rparr> (\<lambda>_. True) sample_env sample_json list_log_api
     (Some (Inr (sample_stream [sample_fence, sample_record sample_ops]))) = Some (Inr r)"
proof -
  obtain c where boot: "boot pad sample_hash (\<lambda>_. 0) sample_sj alist_api alist_api alist_empty sample_damaged 4
      (Some (Inr (sample_stream [sample_fence, sample_record sample_ops]))) (sample_index True) (None, None)
      = Inr (sample_booted, Some (sample_stream [sample_fence, sample_record sample_ops]), c)" "cp_value c = checkpoint_default"
    using sample_boot [of "\<lambda>_. 0" "sample_stream [sample_fence, sample_record sample_ops]"] by (elim exE conjE)
  obtain st g c' where follow: "follow_log (store_restore pad sample_hash sample_api (\<lambda>_. True) sample_env) sample_json list_log_api
      sample_damaged sample_booted (Some (sample_stream [sample_fence, sample_record sample_ops])) c = (Some (Inr ()), st, Some g, c')"
    "merged sample_hash (st_shards st) = Map.empty" "shards_ok sample_hash (st_shards st)"
    using sample_booted_follow [OF boot(2)] by (elim exE conjE)
  let ?s = "store_snapshot iter_sorted (current c') (writer_epoch c') (st_shards st)"
  have "snap_encode ?s = Inr (enc_snapshot ?s)"
    using empty_snapshot_loadable [OF iter_sorted_iterates follow(3,2)]
    by (simp add: snap_encode_iff snapshot_loadable_def snapshot_good_fits)
  then show ?thesis using boot(1) follow(1)
    by (simp add: startup_def compact_def snap_save_outcome) (simp add: sample_damaged_def sample_io_def)
qed


lemma missing_index_drops_snapshot_witness:
  "\<exists>r s'. startup pad sample_hash (\<lambda>_. 0) sample_sj alist_api alist_api alist_empty iter_sorted (sample_io sample_file) 4
      (sample_index False) (None, None) \<lparr>sf_file = None, sf_tmp = None\<rparr> (\<lambda>_. True) sample_env sample_json list_log_api None
      = Some (Inr r)
    \<and> snap_load pad (\<lambda>_. Inl ParseError) (file_read (sf_file (sd_snapshot r))) = Inr (Some s')
    \<and> balance_at (snapshot_balances (Some s')) (ascii ''owner'', ascii ''sku'') = 0"
proof -
  obtain r where r: "startup pad sample_hash (\<lambda>_. 0) sample_sj alist_api alist_api alist_empty iter_sorted (sample_io sample_file) 4
      (sample_index False) (None, None) \<lparr>sf_file = None, sf_tmp = None\<rparr> (\<lambda>_. True) sample_env sample_json list_log_api None
      = Some (Inr r)"
    "current (sd_checkpoint r) = 0" "writer_epoch (sd_checkpoint r) = 0" "st_shards (sd_store r) = sample_shards"
    using sample_empty_single_start by blast
  have load: "snap_load pad (sj_snapshot sample_sj) (si_snapshot (sample_io sample_file)) = Inr (Some sample_saved)"
    using sample_saved_loads by (simp add: sample_io_def)
  have "wal_open (\<lambda>_. 0) (sj_wal sample_sj) (si_wal (sample_io sample_file))
      = Inr (fst (projr (wal_open (\<lambda>_. 0) (sj_wal sample_sj) FileNotFound)), [])"
    by (simp add: wal_open_def recover_def sample_io_def)
  from missing_index_drops_snapshot [OF alist.kv_store_axioms alist.kv_store_axioms _ _ _ sample_index_ok _ iter_sorted_iterates
      load _ _ this r(1), of "\<lambda>_. Inl ParseError"] sample_empty_loadable r(2-4)
  have "\<exists>s'. snap_load pad (\<lambda>_. Inl ParseError) (file_read (sf_file (sd_snapshot r))) = Inr (Some s')
      \<and> balance_at (snapshot_balances (Some s')) (ascii ''owner'', ascii ''sku'') = 0"
    by (simp add: length_pad alist_empty.rep_eq sample_saved_def sample_index_dedup)
  with r(1) show ?thesis by blast
qed

lemma damaged_snapshot_loses_balances_witness:
  "\<exists>r. startup pad sample_hash (\<lambda>_. 0) sample_sj alist_api alist_api alist_empty iter_sorted sample_damaged 4 (sample_index True)
     (None, None) \<lparr>sf_file = None, sf_tmp = None\<rparr> (\<lambda>_. True) sample_env sample_json list_log_api
     (Some (Inr (sample_stream [sample_fence, sample_record sample_ops]))) = Some (Inr r)
   \<and> balance_at (merged sample_hash (st_shards (sd_store r))) (ascii ''ann'', ascii ''bolt'') = 0
   \<and> unat (current (sd_checkpoint r)) = 2"
proof -
  let ?log = "sample_stream [sample_fence, sample_record sample_ops]"
  obtain r where r: "startup pad sample_hash (\<lambda>_. 0) sample_sj alist_api alist_api alist_empty iter_sorted sample_damaged 4
      (sample_index True) (None, None) \<lparr>sf_file = None, sf_tmp = None\<rparr> (\<lambda>_. True) sample_env sample_json list_log_api
      (Some (Inr ?log)) = Some (Inr r)"
    using sample_damaged_start by blast
  have batches: "[sample_ops] = accepted_batches 0 (log_records sample_json (fst ?log))"
    using sample_records sample_accepted by simp
  have "wal_open (\<lambda>_. 0) (sj_wal sample_sj) (si_wal sample_damaged)
      = Inr (fst (projr (wal_open (\<lambda>_. 0) (sj_wal sample_sj) FileNotFound)), [])"
    by (simp add: wal_open_def recover_def sample_damaged_def sample_io_def)
  from damaged_snapshot_loses_balances [OF alist.kv_store_axioms alist.kv_store_axioms _ _ _ sample_index_ok _ list_log.replicated_log_axioms _
      sample_damaged_load this batches sample_injective _ _ r, of "(ascii ''ann'', ascii ''bolt'')"]
  have "balance_at (merged sample_hash (st_shards (sd_store r))) (ascii ''ann'', ascii ''bolt'') = 0
      \<and> unat (current (sd_checkpoint r)) = 2"
    using sample_kept_known by (simp add: length_pad alist_empty.rep_eq sample_index_def sample_stream_def domIff)
  with r show ?thesis by blast
qed

end
