(* ===== verification/IndexFiles.thy ===== *)
theory IndexFiles
  imports Startup
begin

text \<open>
  The files of the index (\<open>DiskDedup::open\<close> and \<open>sync\<close> of \<open>src/dedup_disk.rs\<close>) one by one: the
  directory \<open>dedup-lsm\<close> with its keyspaces, and the redb files with their tables.  Opening is a
  sequence of calls, each of which creates what is absent and may fail, with or without having
  created it.  The theorem shows that this is the opening on which the model of the start rests.
\<close>

section \<open>The code\<close>

datatype open_step =
    OpenLsm | OpenKeyspace string | CreateFile string | OpenTables string "string list"

text \<open>\<open>format!("{:02}")\<close>\<close>

definition two_digits :: "nat \<Rightarrow> string" where
  "two_digits n = [digit (n div 10), digit (n mod 10)]"

definition keyspace_shard :: "nat \<Rightarrow> string" where
  "keyspace_shard shard = ''dedup_v2_'' @ two_digits shard"

definition dedup_shard_path :: "nat \<Rightarrow> string" where
  "dedup_shard_path shard = ''dedup.shard-'' @ two_digits shard @ ''.redb''"

definition open_steps :: "open_step list" where
  "open_steps =
     [OpenLsm, OpenKeyspace ''dedup''] @ map (\<lambda>shard. OpenKeyspace (keyspace_shard shard)) [0..<DEDUP_LSM_SHARDS]
     @ map OpenKeyspace [''history'', ''history_by_owner'', ''history_by_sku'', ''history_meta'']
     @ [CreateFile ''dedup.redb'']
     @ concat (map (\<lambda>shard. [CreateFile (dedup_shard_path shard),
         OpenTables (dedup_shard_path shard) [''dedup_v1'', ''dedup_meta_v1'']]) [0..<DEDUP_SHARDS])
     @ [CreateFile ''history.redb'', OpenTables ''dedup.redb'' [''dedup_v1'', ''dedup_meta_v1''],
        OpenTables ''history.redb'' [''dedup_meta_v1'', ''operation_history_v1'', ''operation_by_owner_v1'', ''operation_by_sku_v1'']]"

text \<open>What exists: the directory, the keyspaces by name, the files, and the tables by file and name.\<close>

record ('l, 'r) index_dir =
  dr_lsm :: bool
  dr_keyspaces :: "string \<Rightarrow> 'l option"
  dr_files :: "string set"
  dr_tables :: "string \<times> string \<Rightarrow> 'r option"

definition create_absent :: "'v \<Rightarrow> 'k \<Rightarrow> ('k \<Rightarrow> 'v option) \<Rightarrow> 'k \<Rightarrow> 'v option" where
  "create_absent blank k m = (case m k of Some _ \<Rightarrow> m | None \<Rightarrow> m(k \<mapsto> blank))"

fun do_step :: "'l \<Rightarrow> 'r \<Rightarrow> open_step \<Rightarrow> ('l, 'r) index_dir \<Rightarrow> ('l, 'r) index_dir" where
  "do_step bl br OpenLsm dir = dir\<lparr>dr_lsm := True\<rparr>"
| "do_step bl br (OpenKeyspace n) dir = dir\<lparr>dr_keyspaces := create_absent bl n (dr_keyspaces dir)\<rparr>"
| "do_step bl br (CreateFile n) dir = dir\<lparr>dr_files := insert n (dr_files dir)\<rparr>"
| "do_step bl br (OpenTables n ts) dir = dir\<lparr>dr_tables := fold (\<lambda>t. create_absent br (n, t)) ts (dr_tables dir)\<rparr>"

text \<open>A fault gives the error of a call, and whether it has had its effect all the same.\<close>

fun run_open ::
  "'l \<Rightarrow> 'r \<Rightarrow> (open_step \<Rightarrow> (error \<times> bool) option) \<Rightarrow> open_step list \<Rightarrow> ('l, 'r) index_dir
     \<Rightarrow> unit result \<times> ('l, 'r) index_dir" where
  "run_open bl br fault [] dir = (Inr (), dir)"
| "run_open bl br fault (st # sts) dir =
     (case fault st of
        Some (e, effective) \<Rightarrow> (Inl e, if effective then do_step bl br st dir else dir)
      | None \<Rightarrow> run_open bl br fault sts (do_step bl br st dir))"

definition or_blank :: "'v \<Rightarrow> 'v option \<Rightarrow> 'v" where
  "or_blank blank x = (case x of Some v \<Rightarrow> v | None \<Rightarrow> blank)"

definition stores_of :: "'l \<Rightarrow> 'r \<Rightarrow> ('l, 'r) index_dir \<Rightarrow> ('l, 'r) disk_stores" where
  "stores_of bl br dir =
     (let keyspace = (\<lambda>n. or_blank bl (dr_keyspaces dir n)); table = (\<lambda>n t. or_blank br (dr_tables dir (n, t))) in
      \<lparr>lsm_dedup = keyspace ''dedup'',
       lsm_dedup_shards = map (\<lambda>shard. keyspace (keyspace_shard shard)) [0..<DEDUP_LSM_SHARDS],
       lsm_history = keyspace ''history'', lsm_by_owner = keyspace ''history_by_owner'',
       lsm_by_sku = keyspace ''history_by_sku'', lsm_history_meta = keyspace ''history_meta'',
       redb_dedup = table ''dedup.redb'' ''dedup_v1'',
       redb_dedup_shards = map (\<lambda>shard. table (dedup_shard_path shard) ''dedup_v1'') [0..<DEDUP_SHARDS],
       redb_history = table ''history.redb'' ''operation_history_v1'',
       redb_by_owner = table ''history.redb'' ''operation_by_owner_v1'',
       redb_by_sku = table ''history.redb'' ''operation_by_sku_v1''\<rparr>)"

definition index_open ::
  "'r kv_api \<Rightarrow> 'l \<Rightarrow> 'r \<Rightarrow> (open_step \<Rightarrow> (error \<times> bool) option) \<Rightarrow> ('l, 'r) index_dir
     \<Rightarrow> ('l, 'r) disk result \<times> ('l, 'r) index_dir" where
  "index_open red bl br fault dir =
     (let existing_dedup = ''dedup.redb'' \<in> dr_files dir; existing_lsm = dr_lsm dir;
          (r, dir') = run_open bl br fault open_steps dir
      in (rbind r (\<lambda>_. disk_open red existing_dedup existing_lsm (stores_of bl br dir')), dir'))"

text \<open>
  \<open>sync\<close>: the LSM journal, and a commit with a time stamp in the META table of every shard and
  of the history.
\<close>

definition sync_files :: "string list" where
  "sync_files = map dedup_shard_path [0..<DEDUP_SHARDS] @ [''history.redb'']"

definition sync_step ::
  "'r kv_api \<Rightarrow> 'r \<Rightarrow> (string \<Rightarrow> unit result) \<Rightarrow> (string \<Rightarrow> u64) \<Rightarrow> string \<Rightarrow> unit result \<times> ('l, 'r) index_dir
     \<Rightarrow> unit result \<times> ('l, 'r) index_dir" where
  "sync_step red br commit barrier n rd =
     (let (r, dir) = rd in
      case rbind r (\<lambda>_. commit n) of
        Inl e \<Rightarrow> (Inl e, dir)
      | Inr _ \<Rightarrow> (Inr (), dir\<lparr>dr_tables := (dr_tables dir)((n, ''dedup_meta_v1'') \<mapsto>
          kv_put red [0] (u64_to_le (barrier n)) (or_blank br (dr_tables dir (n, ''dedup_meta_v1''))))\<rparr>))"

definition index_sync ::
  "'r kv_api \<Rightarrow> 'r \<Rightarrow> unit result \<Rightarrow> (string \<Rightarrow> unit result) \<Rightarrow> (string \<Rightarrow> u64) \<Rightarrow> ('l, 'r) index_dir
     \<Rightarrow> unit result \<times> ('l, 'r) index_dir" where
  "index_sync red br persist commit barrier dir =
     (case persist of
        Inl e \<Rightarrow> (Inl e, dir)
      | Inr _ \<Rightarrow> fold (sync_step red br commit barrier) sync_files (Inr (), dir))"

section \<open>The names\<close>

lemma two_digits_inj: "m < 100 \<Longrightarrow> n < 100 \<Longrightarrow> two_digits m = two_digits n \<longleftrightarrow> m = n"
proof -
  have inj: "digit a = digit b \<Longrightarrow> a = b" if "a < 10" "b < 10" for a b
  proof -
    have "(48 + a) mod 256 = 48 + a" "(48 + b) mod 256 = 48 + b" using that by simp_all
    moreover assume "digit a = digit b"
    then have "of_char (digit a) = (of_char (digit b) :: nat)" by simp
    ultimately show ?thesis using that by (simp add: digit_def)
  qed
  assume "m < 100" "n < 100"
  then have "m div 10 < 10" "n div 10 < 10" "m mod 10 < 10" "n mod 10 < 10" by simp_all
  then have "two_digits m = two_digits n \<longleftrightarrow> m div 10 = n div 10 \<and> m mod 10 = n mod 10"
    unfolding two_digits_def using inj by auto
  also have "\<dots> \<longleftrightarrow> m = n" by (metis div_mult_mod_eq)
  finally show ?thesis .
qed

text \<open>No two shards share a file or a keyspace.\<close>

lemma shard_names_distinct:
  "distinct (map keyspace_shard [0..<DEDUP_LSM_SHARDS])" "distinct (map dedup_shard_path [0..<DEDUP_SHARDS])"
  by (auto simp: distinct_map inj_on_def keyspace_shard_def dedup_shard_path_def two_digits_inj DEDUP_LSM_SHARDS_def DEDUP_SHARDS_def)

section \<open>Opening changes no content\<close>

lemma create_absent_or_blank: "or_blank blank (create_absent blank k m k') = or_blank blank (m k')"
  by (auto simp: create_absent_def or_blank_def split: option.split)

lemma fold_create_or_blank: "or_blank blank (fold (\<lambda>t. create_absent blank (n, t)) ts m k) = or_blank blank (m k)"
  by (induction ts arbitrary: m) (simp_all add: create_absent_or_blank)

lemma do_step_stores: "stores_of bl br (do_step bl br st dir) = stores_of bl br dir"
  by (cases st) (simp_all add: stores_of_def create_absent_or_blank fold_create_or_blank)

lemma run_open_stores: "stores_of bl br (snd (run_open bl br fault sts dir)) = stores_of bl br dir"
  by (induction sts arbitrary: dir) (auto simp: do_step_stores split: option.split)

lemma run_open_result:
  "fst (run_open bl br fault sts dir)
     = (case find (\<lambda>st. fault st \<noteq> None) sts of None \<Rightarrow> Inr () | Some st \<Rightarrow> Inl (fst (the (fault st))))"
  by (induction sts arbitrary: dir) (auto split: option.split)

lemma run_open_done:
  "\<forall>st \<in> set sts. fault st = None \<Longrightarrow> snd (run_open bl br fault sts dir) = fold (do_step bl br) sts dir"
  by (induction sts arbitrary: dir) auto

lemma run_open_files: "dr_files dir \<subseteq> dr_files (snd (run_open bl br fault sts dir))"
proof (induction sts arbitrary: dir)
  case (Cons st sts)
  have "dr_files dir \<subseteq> dr_files (do_step bl br st dir)" by (cases st) auto
  with Cons show ?case by (auto split: option.split)
qed simp

text \<open>After a success everything is there.\<close>

definition step_done :: "open_step \<Rightarrow> ('l, 'r) index_dir \<Rightarrow> bool" where
  "step_done st dir =
     (case st of
        OpenLsm \<Rightarrow> dr_lsm dir
      | OpenKeyspace n \<Rightarrow> dr_keyspaces dir n \<noteq> None
      | CreateFile n \<Rightarrow> n \<in> dr_files dir
      | OpenTables n ts \<Rightarrow> \<forall>t \<in> set ts. dr_tables dir (n, t) \<noteq> None)"

lemma create_absent_keeps: "m k' \<noteq> None \<Longrightarrow> create_absent blank k m k' \<noteq> None"
  by (auto simp: create_absent_def split: option.split)

lemma fold_create_keeps: "m k \<noteq> None \<Longrightarrow> fold (\<lambda>t. create_absent blank (n, t)) ts m k \<noteq> None"
  by (induction ts arbitrary: m) (simp_all del: not_None_eq add: create_absent_keeps)

lemma fold_create_done: "t \<in> set ts \<Longrightarrow> fold (\<lambda>t. create_absent blank (n, t)) ts m (n, t) \<noteq> None"
proof (induction ts arbitrary: m)
  case (Cons u ts)
  then show ?case
  proof (cases "t = u")
    case True
    have "create_absent blank (n, t) m (n, t) \<noteq> None" by (auto simp: create_absent_def split: option.split)
    from fold_create_keeps [where m = "create_absent blank (n, t) m" and k = "(n, t)", OF this] True show ?thesis by simp
  qed simp
qed simp

lemma do_step_done: "step_done st (do_step bl br st dir)"
  by (cases st) (auto simp: step_done_def create_absent_def fold_create_done simp del: not_None_eq split: option.split)

lemma do_step_keeps: "step_done st dir \<Longrightarrow> step_done st (do_step bl br st' dir)"
  by (cases st; cases st') (auto simp: step_done_def create_absent_keeps fold_create_keeps simp del: not_None_eq)

lemma run_open_keeps: "step_done st dir \<Longrightarrow> step_done st (snd (run_open bl br fault sts dir))"
  by (induction sts arbitrary: dir) (auto simp: do_step_keeps split: option.split)

lemma run_open_complete:
  "fst (run_open bl br fault sts dir) = Inr () \<Longrightarrow> st \<in> set sts \<Longrightarrow> step_done st (snd (run_open bl br fault sts dir))"
  by (induction sts arbitrary: dir) (auto simp: run_open_keeps do_step_done split: option.splits)

section \<open>The opening of the start\<close>

definition files_of :: "'l \<Rightarrow> 'r \<Rightarrow> ('l, 'r) index_dir \<Rightarrow> ('l, 'r) index_files" where
  "files_of bl br dir =
     \<lparr>fx_dedup = (''dedup.redb'' \<in> dr_files dir), fx_history = (''history.redb'' \<in> dr_files dir), fx_lsm = dr_lsm dir,
      fx_stores = stores_of bl br dir\<rparr>"

text \<open>
  C19: opening the index is what the model of the start takes it for.  Whatever calls fail, with
  or without effect, no store changes its content.  The result is that of \<open>open_files\<close> with the
  first failure, and after a success every keyspace, file and table exists; so a start that
  failed half-way can be repeated, and finds the same contents.
\<close>
theorem index_open_refines:
  assumes "index_open red bl br fault dir = (r, dir')"
  shows "stores_of bl br dir' = stores_of bl br dir
    \<and> r = open_files red (map_option (\<lambda>st. fst (the (fault st))) (find (\<lambda>st. fault st \<noteq> None) open_steps)) (files_of bl br dir)
    \<and> (is_ok r \<longrightarrow> (\<forall>st \<in> set open_steps. step_done st dir'))
    \<and> fst (index_open red bl br (\<lambda>_. None) dir')
        = open_files red None \<lparr>fx_dedup = (''dedup.redb'' \<in> dr_files dir'), fx_history = (''history.redb'' \<in> dr_files dir'),
            fx_lsm = dr_lsm dir', fx_stores = stores_of bl br dir\<rparr>"
proof -
  have stores: "stores_of bl br (snd (run_open bl br f open_steps d)) = stores_of bl br d" for f and d :: "('a, 'b) index_dir"
    by (rule run_open_stores)
  have dir': "dir' = snd (run_open bl br fault open_steps dir)" using assms by (auto simp: index_open_def Let_def split: prod.splits)
  have r: "fst (index_open red bl br f d) = open_files red
      (map_option (\<lambda>st. fst (the (f st))) (find (\<lambda>st. f st \<noteq> None) open_steps)) (files_of bl br d)" for f and d :: "('a, 'b) index_dir"
    using run_open_result [of bl br f open_steps d] stores [of f d]
    by (auto simp: index_open_def open_files_def files_of_def Let_def split: prod.splits option.splits)
  have "fst (run_open bl br fault open_steps dir) = Inr ()" if "is_ok r"
    using that assms by (auto simp: index_open_def Let_def is_ok_iff rbind_Inr_iff split: prod.splits)
  then have "\<forall>st \<in> set open_steps. step_done st dir'" if "is_ok r"
    unfolding dir' by (intro ballI run_open_complete) (use that in blast)+
  moreover have "find (\<lambda>st. False) open_steps = None" by (simp add: find_None_iff)
  ultimately show ?thesis
    using assms r [of fault dir] r [of "\<lambda>_. None" dir'] stores unfolding dir' by (simp add: files_of_def)
qed

text \<open>
  A first start that is cut off between the two files leaves what the next one takes for a
  monolithic index of an older release: with a replicated log the snapshot is set aside.
\<close>

lemma interrupted_open_looks_monolithic:
  assumes "fault = (\<lambda>st. if st = CreateFile ''history.redb'' then Some (e, False) else None)" "si_archive io = Inr ()"
    and "''history.redb'' \<notin> dr_files dir" "index_open red bl br fault dir = (r, dir')"
  shows "archive_monolithic br io True (rebuild, snapshot) (files_of bl br dir')
    = Inr (True, None, discard_redb br (files_of bl br dir'))"
proof -
  have dir': "dir' = snd (run_open bl br fault open_steps dir)" using assms(4) by (auto simp: index_open_def Let_def split: prod.splits)
  let ?before = "takeWhile (\<lambda>st. st \<noteq> CreateFile ''history.redb'') open_steps"
  have cut: "snd (run_open bl br fault sts d) = fold (do_step bl br) (takeWhile (\<lambda>st. st \<noteq> CreateFile ''history.redb'') sts) d"
    for sts and d :: "('a, 'b) index_dir"
    by (induction sts arbitrary: d) (auto simp: assms(1))
  have files: "dr_files (fold (do_step bl br) sts d) = dr_files d \<union> {n. CreateFile n \<in> set sts}" for sts and d :: "('a, 'b) index_dir"
  proof (induction sts arbitrary: d)
    case (Cons st sts)
    then show ?case by (cases st) auto
  qed simp
  have "CreateFile ''dedup.redb'' \<in> set ?before"
    by (simp add: open_steps_def takeWhile_append)
  moreover have "CreateFile ''history.redb'' \<notin> set ?before" by (auto dest: set_takeWhileD)
  ultimately have "''dedup.redb'' \<in> dr_files dir'" "''history.redb'' \<notin> dr_files dir'"
    using assms(3) unfolding dir' cut files by blast+
  then show ?thesis by (simp add: archive_monolithic_def files_of_def assms(2))
qed

text \<open>\<open>sync\<close> touches the META tables only.\<close>

lemma index_sync_stores:
  assumes "index_sync red br persist commit barrier dir = (r, dir')"
  shows "stores_of bl br dir' = stores_of bl br dir"
proof -
  have step: "stores_of bl br (snd (sync_step red br commit barrier n rd)) = stores_of bl br (snd rd)" for n rd
    by (auto simp: sync_step_def stores_of_def split: prod.splits sum.split)
  have "stores_of bl br (snd (fold (sync_step red br commit barrier) ns rd)) = stores_of bl br (snd rd)" for ns rd
    by (induction ns arbitrary: rd) (simp_all add: step)
  from this [of sync_files "(Inr (), dir)"] show ?thesis using assms by (auto simp: index_sync_def split: sum.splits)
qed

definition sample_dir :: "(sorted_alist, sorted_alist) index_dir" where
  "sample_dir = \<lparr>dr_lsm = False, dr_keyspaces = Map.empty, dr_files = {}, dr_tables = Map.empty\<rparr>"

lemma index_open_refines_witness:
  "\<exists>r dir'. index_open alist_api alist_empty alist_empty (\<lambda>st. if st = OpenLsm then Some (IoError, True) else None) sample_dir = (r, dir')
    \<and> r = Inl IoError \<and> stores_of alist_empty alist_empty dir' = stores_of alist_empty alist_empty sample_dir"
proof -
  let ?fault = "\<lambda>st. if st = OpenLsm then Some (IoError, True) else None"
  obtain r dir' where run: "index_open alist_api alist_empty alist_empty ?fault sample_dir = (r, dir')" by fastforce
  have "?fault st \<noteq> None \<longleftrightarrow> st = OpenLsm" for st by (simp del: not_None_eq)
  then have "find (\<lambda>st. ?fault st \<noteq> None) open_steps = Some OpenLsm" by (simp only:) (simp add: open_steps_def)
  with index_open_refines [OF run] run show ?thesis by (simp add: open_files_def)
qed

end
