(* ===== verification/Turns.thy ===== *)
theory Turns
  imports Balances
begin

text \<open>
  The two loops of \<open>src/state.rs\<close> that take commands from a channel in turns, the shard task and
  the publisher: a turn takes the first command and those that have arrived meanwhile, up to a
  limit.  However the commands are cut into turns, the balances and the answers are those of the
  commands one after the other.
\<close>

section \<open>The code\<close>

text \<open>
  \<open>arrived k\<close> is how many more commands \<open>try_recv\<close> finds in turn \<open>k\<close>; the loop ends when the
  channel is closed and empty.
\<close>

function turns :: "nat \<Rightarrow> (nat \<Rightarrow> nat) \<Rightarrow> nat \<Rightarrow> 'c list \<Rightarrow> 'c list list" where
  "turns limit arrived k [] = []"
| "turns limit arrived k (first # commands) =
     (let n = min (limit - 1) (arrived k)
      in (first # take n commands) # turns limit arrived (Suc k) (drop n commands))"
  by pat_completeness auto
termination by (relation "measure (\<lambda>(limit, arrived, k, commands). length commands)") auto

record publish_command =
  pc_updates :: "(key \<times> i64) list"
  pc_completed :: nat

text \<open>A turn of the publisher holds the lock for all its commands and then answers them.\<close>

definition publish_turn :: "publish_command list \<Rightarrow> balances \<times> nat list \<Rightarrow> balances \<times> nat list" where
  "publish_turn batch = (\<lambda>(published, completed).
     (publish (map pc_updates batch) published, completed @ map pc_completed batch))"

definition run_balance_publisher :: "(nat \<Rightarrow> nat) \<Rightarrow> publish_command list \<Rightarrow> balances \<Rightarrow> balances \<times> nat list" where
  "run_balance_publisher arrived commands published =
     fold publish_turn (turns 256 arrived 0 commands) (published, [])"

definition run_shard_loop ::
  "(balances \<Rightarrow> (key \<times> i64) list) \<Rightarrow> (nat \<Rightarrow> nat) \<Rightarrow> command list \<Rightarrow> balances \<Rightarrow> balances \<times> reply list" where
  "run_shard_loop iter arrived received m =
     fold (\<lambda>commands (m, replies). let (m', rs) = run_shard iter commands m in (m', replies @ rs))
       (turns 1024 arrived 0 received) (m, [])"

section \<open>Turns are invisible\<close>

lemma concat_turns: "concat (turns limit arrived k cs) = cs"
  by (induction limit arrived k cs rule: turns.induct) (simp_all add: Let_def)

lemma turns_sizes: "t \<in> set (turns limit arrived k cs) \<Longrightarrow> 1 \<le> length t \<and> length t \<le> max 1 limit"
  by (induction limit arrived k cs rule: turns.induct) (auto simp: Let_def)

lemma publish_append: "publish (xs @ ys) m = publish ys (publish xs m)"
  by (simp add: publish_def)

lemma publish_turns:
  "fold publish_turn ts (m, done_ids)
     = (publish (map pc_updates (concat ts)) m, done_ids @ map pc_completed (concat ts))"
  by (induction ts arbitrary: m done_ids) (simp_all add: publish_turn_def publish_append, simp add: publish_def)

lemma run_shard_append:
  "run_shard iter (xs @ ys) m
     = (let (m', rs) = run_shard iter xs m; (m'', rs') = run_shard iter ys m' in (m'', rs @ rs'))"
  by (induction xs arbitrary: m) (simp_all add: Let_def split_beta)

text \<open>Every command is published and answered, in order, in whatever turns.\<close>

theorem publisher_turns_invisible:
  "run_balance_publisher arrived commands m = (publish (map pc_updates commands) m, map pc_completed commands)"
  by (simp add: run_balance_publisher_def publish_turns concat_turns)

lemma shard_turns:
  "fold (\<lambda>commands (m, replies). let (m', rs) = run_shard iter commands m in (m', replies @ rs)) ts (m, replies)
     = (let (m', rs) = run_shard iter (concat ts) m in (m', replies @ rs))"
  by (induction ts arbitrary: m replies) (simp_all add: run_shard_append Let_def split_beta)

theorem shard_turns_invisible: "run_shard_loop iter arrived received m = run_shard iter received m"
  unfolding run_shard_loop_def shard_turns concat_turns by (simp add: Let_def split_beta)

section \<open>Concurrent batches\<close>

text \<open>
  Batches that run at once send their groups to the shards in any order: \<open>orders s\<close> is the order
  in which they reach shard \<open>s\<close>, which may differ from shard to shard.  Empty groups are not sent.
\<close>

definition channel ::
  "(bytes \<Rightarrow> bytes \<Rightarrow> u64) \<Rightarrow> nat \<Rightarrow> (nat \<times> operation) list list \<Rightarrow> nat list \<Rightarrow> nat \<Rightarrow> (nat \<times> operation) list list" where
  "channel hash cnt batches order s = filter (\<lambda>g. g \<noteq> []) (map (\<lambda>b. shard_group hash cnt (batches ! b) s) order)"

definition concurrent_shards ::
  "(balances \<Rightarrow> (key \<times> i64) list) \<Rightarrow> (bytes \<Rightarrow> bytes \<Rightarrow> u64) \<Rightarrow> (nat \<Rightarrow> nat \<Rightarrow> nat) \<Rightarrow> (nat \<times> operation) list list
     \<Rightarrow> (nat \<Rightarrow> nat list) \<Rightarrow> balances list \<Rightarrow> (balances \<times> reply list) list" where
  "concurrent_shards iter hash arrived batches orders shards =
     map (\<lambda>s. run_shard_loop iter (arrived s) (map ApplyBatch (channel hash (length shards) batches (orders s) s)) (shards ! s))
       [0..<length shards]"

definition replied :: "reply list \<Rightarrow> (nat \<times> apply_result) list" where
  "replied rs = concat (map (\<lambda>r. case r of Results xs \<Rightarrow> xs | Rows _ \<Rightarrow> []) rs)"

lemma apply_entries_append:
  "apply_entries (xs @ ys) m
     = (let (m', rs) = apply_entries xs m; (m'', rs') = apply_entries ys m' in (m'', rs @ rs'))"
  by (induction xs m rule: apply_entries.induct) (simp_all add: Let_def split_beta)

lemma run_shard_groups:
  "fst (run_shard iter (map ApplyBatch gs) m) = fst (apply_entries (concat gs) m)
   \<and> replied (snd (run_shard iter (map ApplyBatch gs) m)) = snd (apply_entries (concat gs) m)"
  by (induction gs arbitrary: m) (simp_all add: Let_def split_beta apply_entries_append replied_def)

lemma concat_channel: "concat (channel hash cnt batches order s) = shard_group hash cnt (concat (map ((!) batches) order)) s"
proof -
  have "concat (filter (\<lambda>g. g \<noteq> []) gs) = concat gs" for gs :: "(nat \<times> operation) list list" by (induction gs) auto
  moreover have "concat (map (\<lambda>b. shard_group hash cnt (batches ! b) s) order)
      = shard_group hash cnt (concat (map ((!) batches) order)) s"
    by (induction order) (simp_all add: shard_group_def)
  ultimately show ?thesis unfolding channel_def by (simp only:)
qed

text \<open>Every reported balance is the running sum of the deltas of its position.\<close>

lemma apply_entries_running:
  "j < length es \<Longrightarrow> res_balance (snd (snd (apply_entries es m) ! j))
     = balance_at m (key_of (snd (es ! j))) + total_delta (map snd (take (Suc j) es)) (key_of (snd (es ! j)))"
proof (induction es arbitrary: m j)
  case (Cons e es)
  obtain i op where e: "e = (i, op)" by fastforce
  show ?case
  proof (cases j)
    case 0
    then show ?thesis by (simp add: e Let_def split_beta add_delta_at)
  next
    case (Suc j')
    with Cons.prems Cons.IH [of j' "add_delta (key_of op) (delta op) m"] show ?thesis
      by (simp add: e Let_def split_beta add_delta_at)
  qed
qed simp

lemma mset_concat_cong: "mset xss = mset yss \<Longrightarrow> mset (concat xss) = mset (concat yss)"
proof -
  assume "mset xss = mset yss"
  then have "sum_mset (mset (map mset xss)) = sum_mset (mset (map mset yss))" by (simp only: mset_map)
  then show ?thesis by (simp only: mset_concat sum_mset_sum_list)
qed

lemma reordered_batches:
  assumes "mset order = mset [0..<length batches]"
  shows "mset (concat (map ((!) batches) order)) = mset (concat batches)"
proof (rule mset_concat_cong)
  have "mset (map ((!) batches) order) = mset (map ((!) batches) [0..<length batches])" by (simp only: mset_map assms)
  then show "mset (map ((!) batches) order) = mset batches" by (simp only: map_nth)
qed

lemma shard_group_total:
  "total_delta (map snd (shard_group hash cnt es s)) k = (if key_shard hash cnt k = s then total_delta (map snd es) k else 0)"
  by (induction es) (auto simp: shard_group_def op_shard_key)


lemma concurrent_shard:
  assumes "s < length shards" "es = shard_group hash (length shards) (concat (map ((!) batches) (orders s))) s"
  shows "fst (concurrent_shards iter hash arrived batches orders shards ! s) = fst (apply_entries es (shards ! s))"
    and "replied (snd (concurrent_shards iter hash arrived batches orders shards ! s)) = snd (apply_entries es (shards ! s))"
  using assms run_shard_groups [of iter "channel hash (length shards) batches (orders s) s" "shards ! s"]
  by (simp_all add: concurrent_shards_def shard_turns_invisible concat_channel)

lemma shard_group_key: "(i, op) \<in> set (shard_group hash cnt es s) \<Longrightarrow> key_shard hash cnt (key_of op) = s"
  by (simp add: shard_group_def op_shard_key)

lemma concurrent_shards_ok:
  assumes "shards_ok hash shards"
  shows "shards_ok hash (map fst (concurrent_shards iter hash arrived batches orders shards))"
proof -
  let ?n = "length shards" and ?run = "concurrent_shards iter hash arrived batches orders shards"
  have len: "length ?run = ?n" by (simp add: concurrent_shards_def)
  have "finite (dom (fst (?run ! s))) \<and> (\<forall>k \<in> dom (fst (?run ! s)). key_shard hash ?n k = s)" if s: "s < ?n" for s
  proof -
    let ?es = "shard_group hash ?n (concat (map ((!) batches) (orders s))) s"
    have run: "fst (?run ! s) = fst (apply_entries ?es (shards ! s))" by (rule concurrent_shard(1) [OF s refl])
    have old: "finite (dom (shards ! s))" "\<forall>k \<in> dom (shards ! s). key_shard hash ?n k = s"
      using assms s by (simp_all add: shards_ok_def)
    have "key_shard hash ?n k = s" if "fst (apply_entries ?es (shards ! s)) k \<noteq> None" for k
      using that old(2) shard_group_key unfolding apply_entries_none by (fastforce simp: domIff)
    with finite_apply_entries [OF old(1), of ?es] show ?thesis unfolding run by (auto simp: domIff)
  qed
  with assms len show ?thesis by (simp add: shards_ok_def)
qed

lemma publish_updates_sum:
  assumes "mset (concat us) = mset (map (\<lambda>(_, op). (key_of op, delta op)) es)"
  shows "balance_at (publish us m) k = balance_at m k + total_delta (map snd es) k"
proof -
  have "sum_list (map snd (filter (\<lambda>(k', _). k' = k) (concat us)))
      = sum_list (map snd (filter (\<lambda>(k', _). k' = k) (map (\<lambda>(_, op). (key_of op, delta op)) es)))"
    by (rule sum_list_mset_eq) (simp add: mset_map mset_filter assms)
  also have "\<dots> = total_delta (map snd es) k"
    by (induction es) (auto simp: total_delta_def)
  finally show ?thesis by (simp add: publish_at)
qed

lemma concurrent_totals:
  assumes "shards_ok hash shards" "\<forall>s < length shards. mset (orders s) = mset [0..<length batches]"
    and "run = concurrent_shards iter hash arrived batches orders shards"
    and "mset (concat (map pc_updates commands)) = mset (map (\<lambda>(_, op). (key_of op, delta op)) (concat batches))"
    and "\<forall>k. balance_at published k = balance_at (merged hash shards) k"
  shows "balance_at (merged hash (map fst run)) k = balance_at (merged hash shards) k + total_delta (map snd (concat batches)) k"
    and "balance_at (fst (run_balance_publisher joined commands published)) k = balance_at (merged hash (map fst run)) k"
proof -
  let ?n = "length shards"
  have len: "length run = ?n" by (simp add: assms(3) concurrent_shards_def)
  let ?s = "key_shard hash ?n k"
  have s: "?s < ?n" by (rule key_shard_bound [OF assms(1)])
  have "total_delta (map snd (concat (map ((!) batches) (orders ?s)))) k = total_delta (map snd (concat batches)) k"
    by (rule total_delta_mset) (simp only: mset_map reordered_batches [OF assms(2) [rule_format, OF s]])
  then show total: "balance_at (merged hash (map fst run)) k = balance_at (merged hash shards) k + total_delta (map snd (concat batches)) k"
    using s len concurrent_shard(1) [OF s refl, of iter hash arrived batches orders]
    by (simp add: merged_def balance_at_def [of "merged _ _"] apply_entries_at shard_group_total assms(3)
        flip: balance_at_def)
  show "balance_at (fst (run_balance_publisher joined commands published)) k = balance_at (merged hash (map fst run)) k"
    using publish_updates_sum [OF assms(4), of published k] assms(5) [rule_format, of k]
    by (simp add: publisher_turns_invisible total)
qed

lemma concurrent_reported:
  assumes "s < length shards" "run = concurrent_shards iter hash arrived batches orders shards"
    and "es = shard_group hash (length shards) (concat (map ((!) batches) (orders s))) s"
  shows "map fst (replied (snd (run ! s))) = map fst es"
    and "j < length es \<Longrightarrow> res_balance (snd (replied (snd (run ! s)) ! j))
      = balance_at (merged hash shards) (key_of (snd (es ! j))) + total_delta (map snd (take (Suc j) es)) (key_of (snd (es ! j)))"
proof -
  have rs: "replied (snd (run ! s)) = snd (apply_entries es (shards ! s))"
    unfolding assms(2,3) by (rule concurrent_shard(2) [OF assms(1) refl])
  show "map fst (replied (snd (run ! s))) = map fst es" unfolding rs by (rule apply_entries_index)
  assume j: "j < length es"
  have "balance_at (merged hash shards) (key_of (snd (es ! j))) = balance_at (shards ! s) (key_of (snd (es ! j)))"
    using shard_group_key [of "fst (es ! j)" "snd (es ! j)"] nth_mem [OF j] unfolding assms(3)
    by (simp add: balance_at_def merged_def)
  with apply_entries_running [OF j] show "res_balance (snd (replied (snd (run ! s)) ! j))
      = balance_at (merged hash shards) (key_of (snd (es ! j))) + total_delta (map snd (take (Suc j) es)) (key_of (snd (es ! j)))"
    unfolding rs by simp
qed

lemma grouped_operations:
  assumes "mset order = mset [0..<length batches]" and "es = shard_group hash cnt (concat (map ((!) batches) order)) s"
  shows "set es \<subseteq> set (concat batches)" "length es \<le> length (concat batches)"
proof -
  have "mset es \<subseteq># mset (concat batches)"
    unfolding assms(2) reordered_batches [OF assms(1), symmetric] by (simp add: shard_group_def multiset_filter_subset)
  then show "set es \<subseteq> set (concat batches)" "length es \<le> length (concat batches)"
    using set_mset_mono size_mset_mono by fastforce+
qed

text \<open>
  C25: batches that run at once.  In whatever order the groups of the batches reach the shards,
  each shard having an order of its own, and in whatever turns the shard tasks and the publisher
  take their commands: afterwards every balance has grown by exactly the deltas of all batches, in
  the shards and, once everything is published, in the answers of the queries; and every balance
  that a result reports is the running sum in the order in which the operations reached their shard.
\<close>
theorem concurrent_batches_exact:
  assumes "shards_ok hash shards" "\<forall>s < length shards. mset (orders s) = mset [0..<length batches]"
    and "run = concurrent_shards iter hash arrived batches orders shards"
    and "mset (concat (map pc_updates commands)) = mset (map (\<lambda>(_, op). (key_of op, delta op)) (concat batches))"
    and "\<forall>k. balance_at published k = balance_at (merged hash shards) k"
  shows "shards_ok hash (map fst run)
    \<and> (\<forall>k. balance_at (merged hash (map fst run)) k = balance_at (merged hash shards) k + total_delta (map snd (concat batches)) k
         \<and> balance_at (fst (run_balance_publisher joined commands published)) k = balance_at (merged hash (map fst run)) k)
    \<and> (\<forall>s < length shards. \<exists>es rs.
         es = shard_group hash (length shards) (concat (map ((!) batches) (orders s))) s \<and> rs = replied (snd (run ! s))
         \<and> map fst rs = map fst es
         \<and> (\<forall>j < length es. res_balance (snd (rs ! j)) = balance_at (merged hash shards) (key_of (snd (es ! j)))
              + total_delta (map snd (take (Suc j) es)) (key_of (snd (es ! j)))))"
proof (intro conjI allI impI)
  show "shards_ok hash (map fst run)" unfolding assms(3) by (rule concurrent_shards_ok [OF assms(1)])
  show "balance_at (merged hash (map fst run)) k = balance_at (merged hash shards) k + total_delta (map snd (concat batches)) k"
    "balance_at (fst (run_balance_publisher joined commands published)) k = balance_at (merged hash (map fst run)) k" for k
    by (rule concurrent_totals [OF assms])+
next
  fix s
  assume s: "s < length shards"
  let ?es = "shard_group hash (length shards) (concat (map ((!) batches) (orders s))) s"
  note reported = concurrent_reported [OF s assms(3) refl]
  show "\<exists>es rs. es = ?es \<and> rs = replied (snd (run ! s)) \<and> map fst rs = map fst es
      \<and> (\<forall>j < length es. res_balance (snd (rs ! j)) = balance_at (merged hash shards) (key_of (snd (es ! j)))
           + total_delta (map snd (take (Suc j) es)) (key_of (snd (es ! j))))"
    using reported by blast
qed

text \<open>
  C28: no wrap-around.  Validation bounds a delta by a billion in absolute value.  Take a store
  whose balances, loaded from a snapshot or earned, are within what \<open>n\<close> valid operations can
  give (\<open>n = 0\<close> for an empty store), and let any number of batches of valid operations run at
  once, in any orders and turns.  As long as all of them are at most nine billion operations, the
  64-bit balances of the shards, the published balances and every balance that a result reports
  are the exact integer sums; and the balances are within the bound for all these operations, so
  that the same holds for the batches that come after them.
\<close>
theorem balance_never_wraps:
  assumes "shards_ok hash shards" "\<forall>s < length shards. mset (orders s) = mset [0..<length batches]"
    and "run = concurrent_shards iter hash arrived batches orders shards"
    and "mset (concat (map pc_updates commands)) = mset (map (\<lambda>(_, op). (key_of op, delta op)) (concat batches))"
    and "\<forall>k. balance_at published k = balance_at (merged hash shards) k"
    and "balances_within n (merged hash shards)" "\<forall>(_, op) \<in> set (concat batches). operation_ok op"
    and "n + length (concat batches) \<le> 9000000000"
  shows "balances_within (n + length (concat batches)) (merged hash (map fst run))
    \<and> (\<forall>k. sint (balance_at (merged hash (map fst run)) k)
            = sint (balance_at (merged hash shards) k) + exact_delta (map snd (concat batches)) k
         \<and> sint (balance_at (fst (run_balance_publisher joined commands published)) k)
            = sint (balance_at (merged hash shards) k) + exact_delta (map snd (concat batches)) k)
    \<and> (\<forall>s < length shards. \<exists>es rs.
         es = shard_group hash (length shards) (concat (map ((!) batches) (orders s))) s \<and> rs = replied (snd (run ! s))
         \<and> map fst rs = map fst es
         \<and> (\<forall>j < length es. sint (res_balance (snd (rs ! j)))
              = sint (balance_at (merged hash shards) (key_of (snd (es ! j))))
                + exact_delta (map snd (take (Suc j) es)) (key_of (snd (es ! j)))))"
proof (intro conjI allI impI)
  let ?all = "map snd (concat batches)"
  note totals = concurrent_totals [OF assms(1-5)]
  note bound = assms(6) [unfolded balances_within_def, rule_format]
  have ok: "\<forall>op \<in> set ?all. operation_ok op" using assms(7) by fastforce
  have len: "n + length ?all \<le> 9000000000" using assms(8) by (simp only: length_map)
  note exact = exact_sum [OF bound ok len]
  show "balances_within (n + length (concat batches)) (merged hash (map fst run))"
    unfolding balances_within_def totals(1) using exact [unfolded length_map] by blast
  show "sint (balance_at (merged hash (map fst run)) k) = sint (balance_at (merged hash shards) k) + exact_delta ?all k"
    "sint (balance_at (fst (run_balance_publisher joined commands published)) k)
       = sint (balance_at (merged hash shards) k) + exact_delta ?all k" for k
    unfolding totals(2) totals(1) using exact by blast+
next
  fix s
  assume s: "s < length shards"
  let ?es = "shard_group hash (length shards) (concat (map ((!) batches) (orders s))) s"
  note bound = assms(6) [unfolded balances_within_def, rule_format]
  note group = grouped_operations [OF assms(2) [rule_format, OF s] refl, of hash "length shards" s]
  have "sint (res_balance (snd (replied (snd (run ! s)) ! j)))
      = sint (balance_at (merged hash shards) (key_of (snd (?es ! j))))
        + exact_delta (map snd (take (Suc j) ?es)) (key_of (snd (?es ! j)))" if j: "j < length ?es" for j
  proof -
    have ok: "\<forall>op \<in> set (map snd (take (Suc j) ?es)). operation_ok op"
      using set_take_subset [of "Suc j" ?es] group(1) assms(7) by fastforce
    have len: "n + length (map snd (take (Suc j) ?es)) \<le> 9000000000" using group(2) assms(8) by simp
    show ?thesis
      unfolding concurrent_reported(2) [OF s assms(3) refl j] using exact_sum [OF bound ok len] by blast
  qed
  with concurrent_reported(1) [OF s assms(3) refl]
  show "\<exists>es rs. es = ?es \<and> rs = replied (snd (run ! s)) \<and> map fst rs = map fst es
      \<and> (\<forall>j < length es. sint (res_balance (snd (rs ! j)))
           = sint (balance_at (merged hash shards) (key_of (snd (es ! j))))
             + exact_delta (map snd (take (Suc j) es)) (key_of (snd (es ! j))))"
    by blast
qed

definition sample_pair :: "(nat \<times> operation) list list" where
  "sample_pair = [enumerate 0 sample_batch, enumerate 0 sample_batch]"

lemma concurrent_batches_exact_witness:
  "balance_at (merged sample_hash (map fst (concurrent_shards iter_sorted sample_hash (\<lambda>_ _. 7) sample_pair
      (\<lambda>s. if s = 0 then [0, 1] else [1, 0]) sample_shards))) (ascii ''ann'', ascii ''bolt'')
    = total_delta (map snd (concat sample_pair)) (ascii ''ann'', ascii ''bolt'')"
proof -
  let ?commands = "[\<lparr>pc_updates = map (\<lambda>(_, op). (key_of op, delta op)) (concat sample_pair), pc_completed = 0\<rparr>]"
  have orders: "\<forall>s < length sample_shards. mset (if s = 0 then [0, 1] else [1, 0]) = mset [0..<length sample_pair]"
    by (simp add: sample_pair_def upt_rec)
  have updates: "mset (concat (map pc_updates ?commands)) = mset (map (\<lambda>(_, op). (key_of op, delta op)) (concat sample_pair))"
    by simp
  have start: "\<forall>k. balance_at Map.empty k = balance_at (merged sample_hash sample_shards) k" by (simp add: sample_merged)
  show ?thesis
    using concurrent_batches_exact [OF sample_shards_ok orders refl updates start, of iter_sorted "\<lambda>_ _. 7" "\<lambda>_. 0"]
    by (simp add: sample_merged) (simp add: balance_at_def)
qed

lemma balance_never_wraps_witness:
  "sint (balance_at (merged sample_hash (map fst (concurrent_shards iter_sorted sample_hash (\<lambda>_ _. 7) sample_pair
      (\<lambda>s. if s = 0 then [0, 1] else [1, 0]) sample_shards))) (ascii ''ann'', ascii ''bolt'')) = 6"
proof -
  let ?commands = "[\<lparr>pc_updates = map (\<lambda>(_, op). (key_of op, delta op)) (concat sample_pair), pc_completed = 0\<rparr>]"
  have orders: "\<forall>s < length sample_shards. mset (if s = 0 then [0, 1] else [1, 0]) = mset [0..<length sample_pair]"
    by (simp add: sample_pair_def upt_rec)
  have updates: "mset (concat (map pc_updates ?commands)) = mset (map (\<lambda>(_, op). (key_of op, delta op)) (concat sample_pair))"
    by simp
  have start: "\<forall>k. balance_at Map.empty k = balance_at (merged sample_hash sample_shards) k" by (simp add: sample_merged)
  have within: "balances_within 0 (merged sample_hash sample_shards)" by (simp add: balances_within_def sample_merged balance_at_def)
  have valid: "\<forall>(_, op) \<in> set (concat sample_pair). operation_ok op"
    by (simp add: sample_pair_def sample_batch_def sample_simps)
  have few: "0 + length (concat sample_pair) \<le> 9000000000" by (simp add: sample_pair_def sample_batch_def)
  have zero: "sint (balance_at (merged sample_hash sample_shards) k) = 0" for k by (simp add: sample_merged balance_at_def)
  have "exact_delta (map snd (concat sample_pair)) (ascii ''ann'', ascii ''bolt'') = 6"
    by (simp add: exact_delta_def sample_pair_def sample_batch_def sample_simps key_of_def) (simp add: ascii_def)
  with balance_never_wraps [OF sample_shards_ok orders refl updates start within valid few, of iter_sorted "\<lambda>_ _. 7" "\<lambda>_. 0"] zero
  show ?thesis by auto
qed

end
