(* ===== verification/ConcurrentNode.thy ===== *)
theory ConcurrentNode
  imports Requests Turns Restart
begin

text \<open>
  The concurrent write path of a node as a whole (\<open>src/state.rs\<close>): the reservations of all
  requests in any interleaving, and the batches they apply, which reach the shard tasks in any
  order and the publisher in any turns.  Every accepted operation counts exactly once.
\<close>

section \<open>Steps that apply batches\<close>

text \<open>
  A step of the reservations, with the batches applied so far: a request that holds its
  reservations applies its new operations, numbered as they stand in the request.
\<close>

definition batch_of :: "request \<Rightarrow> (nat \<times> operation) list" where
  "batch_of r = numbered_fresh (enumerate 0 (zip (r_ops r) (r_new r)))"

inductive node_step ::
  "(bytes \<Rightarrow> bytes) \<Rightarrow> 'd index_api \<Rightarrow> bytes set \<Rightarrow> 'd system \<times> (nat \<times> operation) list list
     \<Rightarrow> 'd system \<times> (nat \<times> operation) list list \<Rightarrow> bool"
  for sha api ids where
  quiet: "sys_step sha api ids s s' \<Longrightarrow> sys_applied s' = sys_applied s \<Longrightarrow> node_step sha api ids (s, batches) (s', batches)"
| applied: "sys_requests s p = Some r \<Longrightarrow> r_phase r = Holding \<Longrightarrow>
     node_step sha api ids (s, batches)
       (put_request p (r\<lparr>r_phase := Finishing 0 True [] []\<rparr>)
          s\<lparr>sys_applied := sys_applied s @ fresh sha r, sys_ledger := sys_ledger s ++ map_of (fresh sha r)\<rparr>,
        batches @ [batch_of r])"

inductive_cases node_stepE: "node_step sha api ids st (s', batches')"

text \<open>No step of the reservations is left out.\<close>

lemma node_step_covers:
  assumes "sys_step sha api ids s s'"
  shows "\<exists>batches'. node_step sha api ids (s, batches) (s', batches')"
proof (cases "sys_applied s' = sys_applied s")
  case True
  with assms show ?thesis by (blast intro: node_step.quiet)
next
  case False
  with assms show ?thesis
    by (cases rule: sys_step.cases) (auto simp: put_request_def intro: node_step.applied [unfolded put_request_def])
qed

lemma node_step_sys: "node_step sha api ids (s, batches) (s', batches') \<Longrightarrow> sys_step sha api ids s s'"
  by (auto elim!: node_stepE intro: sys_step.apply_ops)

lemma entries_map: "map (\<lambda>(_, op). f op) es = map f (map snd es)"
  by (simp add: case_prod_unfold)

lemma batch_entries: "map (\<lambda>(_, op). entry_of sha op) (batch_of r) = fresh sha r"
  unfolding batch_of_def entries_map numbered_fresh_ops by (simp add: fresh_def entry_of_def case_prod_unfold)

lemma node_steps:
  "(node_step sha api ids)\<^sup>*\<^sup>* (sys_init ledger d, []) (s, batches) \<Longrightarrow>
     sys_reachable sha api ids ledger d s \<and> map (\<lambda>(_, op). entry_of sha op) (concat batches) = sys_applied s"
proof (induction "(s, batches)" arbitrary: s batches rule: rtranclp_induct)
  case base
  then show ?case by (simp add: sys_reachable_def sys_init_def)
next
  case (step st)
  obtain s0 bs0 where st: "st = (s0, bs0)" by fastforce
  from step.hyps(3) [OF st] have ih: "sys_reachable sha api ids ledger d s0"
    "map (\<lambda>(_, op). entry_of sha op) (concat bs0) = sys_applied s0" by simp_all
  from step.hyps(2) st have one: "node_step sha api ids (s0, bs0) (s, batches)" by simp
  have "sys_reachable sha api ids ledger d s"
    using ih(1) node_step_sys [OF one] unfolding sys_reachable_def by (rule rtranclp.rtrancl_into_rtrancl)
  moreover from one ih(2) have "map (\<lambda>(_, op). entry_of sha op) (concat batches) = sys_applied s"
    by (auto elim!: node_stepE simp: batch_entries put_request_def)
  ultimately show ?case by simp
qed

lemma total_delta_set:
  "distinct (map operation_id ops) \<Longrightarrow> total_delta ops k = (\<Sum>op \<in> set ops. if key_of op = k then delta op else 0)"
proof (induction ops)
  case (Cons op ops)
  then have "op \<notin> set ops" by auto
  with Cons show ?case by simp
qed simp

section \<open>Every accepted operation counts once\<close>

context dedup_index
begin

lemma applied_ids:
  assumes "(node_step sha api ids)\<^sup>*\<^sup>* (sys_init (lookup d) d, []) (s, batches)" "good d" "inj_on sha ids" "\<And>x. length (sha x) = 32"
  shows "distinct (map operation_id (map snd (concat batches)))"
    and "\<forall>op \<in> set (map snd (concat batches)). lookup d (sha (operation_id op)) = None"
proof -
  from node_steps [OF assms(1)] have reach: "sys_reachable sha api ids (lookup d) d s"
    and applied: "map (\<lambda>(_, op). entry_of sha op) (concat batches) = sys_applied s" by simp_all
  note inv = sys_inv_reachable [OF reach assms(2-4)] and ledger = ledger_applied [OF reach assms(2-4)]
  have "map fst (sys_applied s) = map sha (map operation_id (map snd (concat batches)))"
    unfolding applied [symmetric] by (simp add: entry_of_def case_prod_unfold comp_def)
  with sys_invD(12) [OF inv] have "distinct (map sha (map operation_id (map snd (concat batches))))" by simp
  then show "distinct (map operation_id (map snd (concat batches)))" unfolding distinct_map [of sha] by simp
  show "\<forall>op \<in> set (map snd (concat batches)). lookup d (sha (operation_id op)) = None"
    using ledger unfolding applied [symmetric] by (auto simp: entry_of_def case_prod_unfold)
qed

end

text \<open>
  C2: concurrent writes count exactly once.  Take any interleaving of concurrent requests with
  waits, rollbacks, cancellations and background persistence, let the batches they apply reach
  every shard in any order and be published in any turns: no id is applied twice, none that was
  known is applied at all, and every balance, in the shards and in the answers of the queries, has
  grown by exactly the deltas of the distinct accepted operations.
\<close>
theorem concurrent_writes_count_once:
  assumes "dedup_index api lookup good" "good d" "inj_on sha ids" "\<forall>x. length (sha x) = 32"
    and "(node_step sha api ids)\<^sup>*\<^sup>* (sys_init (lookup d) d, []) (s, batches)"
    and "shards_ok hash shards" "\<forall>s < length shards. mset (orders s) = mset [0..<length batches]"
    and "run = concurrent_shards iter hash arrived batches orders shards"
    and "mset (concat (map pc_updates commands)) = mset (map (\<lambda>(_, op). (key_of op, delta op)) (concat batches))"
    and "\<forall>k. balance_at published k = balance_at (merged hash shards) k" "accepted = map snd (concat batches)"
  shows "distinct (map operation_id accepted) \<and> (\<forall>op \<in> set accepted. lookup d (sha (operation_id op)) = None)
    \<and> balance_at (merged hash (map fst run)) k
        = balance_at (merged hash shards) k + (\<Sum>op \<in> set accepted. if key_of op = k then delta op else 0)
    \<and> balance_at (fst (run_balance_publisher joined commands published)) k = balance_at (merged hash (map fst run)) k"
proof -
  have len: "\<And>x. length (sha x) = 32" using assms(4) by simp
  note ids = dedup_index.applied_ids [OF assms(1,5,2,3) len, folded assms(11)]
  from concurrent_totals [where k = k, OF assms(6-10)] total_delta_set [where k = k, OF ids(1)] ids show ?thesis
    by (simp add: assms(11))
qed

text \<open>Every reachable state of the reservations is reached with some batches.\<close>

lemma node_steps_exist:
  "sys_reachable sha api ids ledger d s \<Longrightarrow> \<exists>batches. (node_step sha api ids)\<^sup>*\<^sup>* (sys_init ledger d, []) (s, batches)"
  unfolding sys_reachable_def
proof (induction rule: rtranclp_induct)
  case (step s s')
  then obtain batches where "(node_step sha api ids)\<^sup>*\<^sup>* (sys_init ledger d, []) (s, batches)" by blast
  moreover obtain batches' where "node_step sha api ids (s, batches) (s', batches')" using node_step_covers [OF step.hyps(2)] by blast
  ultimately show ?case by (blast intro: rtranclp.rtrancl_into_rtrancl)
qed blast

lemma concurrent_writes_count_once_witness:
  "\<exists>batches. (node_step pad sample_api sample_ids)\<^sup>*\<^sup>* (sys_init (sample_lookup sample_disk) sample_disk, []) (sample_answered, batches)
    \<and> length (concat batches) = 2 \<and> distinct (map operation_id (map snd (concat batches)))"
proof -
  have reach: "sys_reachable pad sample_api sample_ids (sample_lookup sample_disk) sample_disk sample_answered"
    by (rule sample_answered_reach)
  from node_steps_exist [OF reach] obtain batches where
    steps: "(node_step pad sample_api sample_ids)\<^sup>*\<^sup>* (sys_init (sample_lookup sample_disk) sample_disk, []) (sample_answered, batches)" by blast
  have "length (map (\<lambda>(_, op). entry_of pad op) (concat batches)) = length (sys_applied sample_answered)"
    using node_steps [OF steps] by simp
  then have two: "length (concat batches) = 2" by (simp add: sample_answered_def)
  let ?commands = "[\<lparr>pc_updates = map (\<lambda>(_, op). (key_of op, delta op)) (concat batches), pc_completed = 0\<rparr>]"
  have inj: "inj_on pad sample_ids" "\<forall>x. length (pad x) = 32" by (simp_all add: pad_inj length_pad)
  have updates: "mset (concat (map pc_updates ?commands)) = mset (map (\<lambda>(_, op). (key_of op, delta op)) (concat batches))" by simp
  have start: "\<forall>k. balance_at Map.empty k = balance_at (merged sample_hash sample_shards) k" by (simp add: sample_merged)
  have orders: "\<forall>s < length sample_shards. mset [0..<length batches] = mset [0..<length batches]" by simp
  have good: "disk_ok alist_of alist_of sample_disk \<and> filter_ok alist_of alist_of sample_disk" using sample_disk_ok by simp
  from concurrent_writes_count_once [where orders = "\<lambda>_. [0..<length batches]" and iter = iter_sorted and hash = sample_hash
      and commands = ?commands and arrived = "\<lambda>_ _. 0" and joined = "\<lambda>_. 0" and k = "(ascii ''ann'', ascii ''bolt'')",
      OF alist_disk.index.dedup_index_axioms good inj steps sample_shards_ok orders refl updates start refl]
  have "distinct (map operation_id (map snd (concat batches)))" by blast
  with steps two show ?thesis by blast
qed

end
