(* ===== verification/Config.thy ===== *)
theory Config
  imports Balances Checkpoint ReplicatedLog
begin

text \<open>
  The configuration of \<open>src/config.rs\<close>.  The environment is a map from names to values that
  are Unicode strings; the parser of socket addresses is a parameter.  A \<open>usize\<close> has 64 bits,
  durations are milliseconds.
\<close>

section \<open>The code\<close>

type_synonym environment = "string \<Rightarrow> bytes option"

record 'a config =
  cf_bind :: 'a
  cf_data_dir :: bytes
  cf_shards :: nat
  cf_wal_batch :: nat
  cf_wal_flush_interval :: nat
  cf_nats_url :: "bytes option"
  cf_live_tail :: bool
  cf_fail_after_replicate_id :: "bytes option"
  cf_instance_id :: bytes
  cf_writer_priority_delay :: nat

definition env_value :: "environment \<Rightarrow> string \<Rightarrow> string \<Rightarrow> bytes" where
  "env_value env name fallback = (case env name of Some v \<Rightarrow> v | None \<Rightarrow> ascii fallback)"

definition parse_usize :: "environment \<Rightarrow> string \<Rightarrow> nat \<Rightarrow> nat result" where
  "parse_usize env name fallback =
     (case parse_u64 (chars (env_value env name (decimal fallback))) of
        Inr n \<Rightarrow> Inr (unat n)
      | Inl _ \<Rightarrow> Inl (Msg (''invalid '' @ name)))"

definition is_power_of_two :: "nat \<Rightarrow> bool" where
  "is_power_of_two n \<longleftrightarrow> list_ex (\<lambda>k. n = 2 ^ k) [0..<64]"

text \<open>A variable that is set to something else than white space.\<close>

definition non_blank :: "environment \<Rightarrow> string \<Rightarrow> bytes option" where
  "non_blank env name =
     (case env name of Some v \<Rightarrow> if trim_chars (chars v) \<noteq> [] then Some v else None | None \<Rightarrow> None)"

definition from_env :: "(bytes \<Rightarrow> 'a option) \<Rightarrow> environment \<Rightarrow> 'a config result" where
  "from_env parse_addr env =
     rbind (case parse_addr (env_value env ''WAREHOUSE_BIND'' ''127.0.0.1:8080'') of
              Some a \<Rightarrow> Inr a | None \<Rightarrow> Inl (Msg ''invalid WAREHOUSE_BIND'')) (\<lambda>bind_addr.
     rbind (parse_usize env ''WAREHOUSE_SHARDS'' 16) (\<lambda>shards.
     rbind (parse_usize env ''WAREHOUSE_WAL_BATCH'' 1024) (\<lambda>wal_batch.
     rbind (parse_usize env ''WAREHOUSE_WAL_FLUSH_MS'' 2) (\<lambda>flush_ms.
     rbind (ensure (is_power_of_two shards) (Msg ''WAREHOUSE_SHARDS must be a power of two'')) (\<lambda>_.
     rbind (ensure (wal_batch > 0) (Msg ''WAREHOUSE_WAL_BATCH must be positive'')) (\<lambda>_.
     rbind (parse_usize env ''WAREHOUSE_WRITER_PRIORITY_DELAY_MS'' 0) (\<lambda>priority_delay.
     Inr \<lparr>cf_bind = bind_addr, cf_data_dir = env_value env ''WAREHOUSE_DATA_DIR'' ''data'', cf_shards = shards,
          cf_wal_batch = wal_batch, cf_wal_flush_interval = flush_ms,
          cf_nats_url = non_blank env ''WAREHOUSE_NATS_URL'',
          cf_live_tail = (env_value env ''WAREHOUSE_LIVE_TAIL'' ''false'' = ascii ''true''),
          cf_fail_after_replicate_id = non_blank env ''WAREHOUSE_FAIL_AFTER_REPLICATE_ID'',
          cf_instance_id = env_value env ''WAREHOUSE_INSTANCE_ID'' ''warehouse-local'',
          cf_writer_priority_delay = priority_delay\<rparr>)))))))"

section \<open>What it accepts\<close>

text \<open>A number that was printed is read back: the defaults are always accepted.\<close>

lemma of_char_digit: "d < 10 \<Longrightarrow> (of_char (digit d) :: nat) = 48 + d"
  by (simp add: digit_def)

lemma decimal_codes:
  "decimal n \<noteq> [] \<and> ascii_only (decimal n) \<and> list_all is_digit (map of_char (decimal n))
   \<and> digits_value (map of_char (decimal n)) = n"
proof (induction n rule: decimal.induct)
  case (1 n)
  show ?case
  proof (cases "n < 10")
    case True
    then show ?thesis
      by (simp add: decimal.simps of_char_digit digits_value_def is_digit_def ascii_only_def)
  next
    case False
    have "n mod 10 < 10" by simp
    then have "is_digit (48 + n mod 10)" "48 + n mod 10 < 128" unfolding is_digit_def by arith+
    moreover have "decimal n = decimal (n div 10) @ [digit (n mod 10)]" using False by (subst decimal.simps) simp
    ultimately show ?thesis
      using 1 [OF False] by (simp add: of_char_digit digits_value_def ascii_only_def)
  qed
qed

lemma parse_decimal: "n < 2 ^ 64 \<Longrightarrow> parse_u64 (chars (ascii (decimal n))) = Inr (word_of_nat n)"
proof -
  assume n: "n < 2 ^ 64"
  note codes = decimal_codes [of n]
  obtain c cs where cs: "map of_char (decimal n) = (c :: nat) # cs" using codes by (cases "map of_char (decimal n) :: nat list") auto
  with codes have "c \<noteq> 43" by (auto simp: is_digit_def)
  with codes cs n show ?thesis by (simp add: ascii_str_facts parse_u64_def)
qed

lemma parse_usize_default: "env name = None \<Longrightarrow> n < 2 ^ 64 \<Longrightarrow> parse_usize env name n = Inr n"
  by (simp add: parse_usize_def env_value_def parse_decimal unat_of_nat)

lemma is_power_of_two_iff: "is_power_of_two n \<longleftrightarrow> (\<exists>k < 64. n = 2 ^ k)"
  by (auto simp: is_power_of_two_def list_ex_iff simp del: upt_rec_numeral)

lemma parse_usize_bound: "parse_usize env name fallback = Inr n \<Longrightarrow> n < 2 ^ 64"
  using unat_lt [where 'a = 64] by (auto simp: parse_usize_def split: sum.splits)

lemma non_blank_Some:
  "non_blank env name = Some v \<longleftrightarrow> env name = Some v \<and> (\<exists>c \<in> set (chars v). \<not> is_whitespace c)"
proof -
  have "trim_chars cs = [] \<longleftrightarrow> (\<forall>c \<in> set cs. is_whitespace c)" for cs
  proof
    assume "trim_chars cs = []"
    then have "\<forall>c \<in> set (dropWhile is_whitespace cs). is_whitespace c" by (simp add: trim_chars_def)
    then have "dropWhile is_whitespace cs = []" by (metis dropWhile_eq_Nil_conv hd_dropWhile list.set_sel(1))
    then show "\<forall>c \<in> set cs. is_whitespace c" by simp
  qed (auto simp: trim_chars_def dest: set_dropWhileD)
  then show ?thesis by (auto simp: non_blank_def split: option.splits)
qed

lemma shard_for_power:
  assumes "k < 64"
  shows "shard_for hash ow s (2 ^ k) = unat (hash ow s) mod 2 ^ k"
proof -
  have "(word_of_nat (2 ^ k) :: u64) - 1 = mask k" by (simp add: mask_eq_exp_minus_1)
  then have "shard_for hash ow s (2 ^ k) = unat (take_bit k (hash ow s))"
    by (simp add: shard_for_def take_bit_eq_mask)
  then show ?thesis unfolding unsigned_take_bit_eq by (simp only: take_bit_eq_mod)
qed

text \<open>
  C31: a configuration that is accepted is one the service can run with.  The number of shards
  is a power of two that fits a \<open>usize\<close>, and with it the mask of \<open>shard_for\<close> is the remainder of
  the hash, so that every shard index is in range and every shard is the target of some hash
  value; commits of the log hold at least one record; a URL that is set is not blank.
\<close>
theorem config_sound:
  assumes "from_env parse_addr env = Inr c"
  shows "(\<exists>k < 64. cf_shards c = 2 ^ k)
    \<and> (\<forall>hash ow s. shard_for hash ow s (cf_shards c) = unat (hash ow s) mod cf_shards c)
    \<and> (\<forall>i < cf_shards c. \<exists>h. shard_for (\<lambda>_ _. h) ow s (cf_shards c) = i)
    \<and> 0 < cf_wal_batch c \<and> cf_wal_batch c < 2 ^ 64
    \<and> (\<forall>url. cf_nats_url c = Some url \<longrightarrow> (\<exists>x \<in> set (chars url). \<not> is_whitespace x))"
proof -
  from assms have c: "is_power_of_two (cf_shards c)" "0 < cf_wal_batch c" "cf_wal_batch c < 2 ^ 64"
    "cf_nats_url c = non_blank env ''WAREHOUSE_NATS_URL''"
    using parse_usize_bound by (auto simp: from_env_def rbind_Inr_iff ensure_Inr_iff split: option.splits)
  then obtain k where k: "k < 64" "cf_shards c = 2 ^ k" by (auto simp: is_power_of_two_iff)
  have "\<exists>h. shard_for (\<lambda>_ _. h) ow s (cf_shards c) = i" if "i < cf_shards c" for i
  proof
    have "i < 2 ^ 64" using that k by (metis less_imp_le order.strict_trans2 power_increasing_iff one_less_numeral_iff semiring_norm(76))
    then show "shard_for (\<lambda>_ _. word_of_nat i) ow s (cf_shards c) = i"
      using that unfolding k(2) shard_for_power [OF k(1)] by (simp add: unat_of_nat)
  qed
  with c k shard_for_power [OF k(1)] show ?thesis by (simp add: non_blank_Some)
qed

lemma config_sound_witness:
  "\<exists>c. from_env (\<lambda>a. if a = ascii ''127.0.0.1:8080'' then Some (0 :: nat) else None) (\<lambda>_. None) = Inr c
    \<and> cf_shards c = 16 \<and> (\<forall>hash. shard_for hash (ascii ''ann'') (ascii ''bolt'') 16 = unat (hash (ascii ''ann'') (ascii ''bolt'')) mod 16)"
proof -
  let ?parse = "\<lambda>a. if a = ascii ''127.0.0.1:8080'' then Some (0 :: nat) else None"
  have "is_power_of_two 16" unfolding is_power_of_two_iff by (rule exI [of _ 4]) simp
  then have "\<exists>c. from_env ?parse (\<lambda>_. None) = Inr c \<and> cf_shards c = 16"
    by (simp add: from_env_def parse_usize_default ensure_def) (simp add: env_value_def)
  then obtain c where c: "from_env ?parse (\<lambda>_. None) = Inr c" "cf_shards c = 16" by blast
  from config_sound [OF c(1)] c(2) have "\<forall>hash ow s. shard_for hash ow s 16 = unat (hash ow s) mod 16" by simp
  with c show ?thesis by blast
qed

end
