(* ===== verification/StreamSetup.thy ===== *)
theory StreamSetup
  imports Config Lease
begin

text \<open>
  \<open>ReplicatedLog::try_connect\<close> of \<open>src/cluster.rs\<close>: the checks made of the operations stream
  before it is used.  The contract \<open>replicated_log\<close> assumes a stream that never drops a
  message; this is what the code does to get one.
\<close>

section \<open>The code\<close>

text \<open>\<open>sm_discard_new\<close> is \<open>DiscardPolicy::New\<close>: a full stream refuses messages instead of dropping old ones.\<close>

record stream_config =
  sm_replicas :: nat
  sm_max_bytes :: int
  sm_discard_new :: bool

text \<open>The calls of the NATS client, as they end: the connection and those on the streams.\<close>

record stream_calls =
  sc_connect :: "bytes \<Rightarrow> bytes \<Rightarrow> bytes \<Rightarrow> unit result"
  sc_get_or_create :: "stream_config \<Rightarrow> unit result"
  sc_info :: "stream_config result"
  sc_update :: "stream_config \<Rightarrow> unit result"
  sc_get :: "unit result"
  sc_info_again :: "stream_config result"
  sc_create_dlq :: "unit result"

definition required_var :: "environment \<Rightarrow> string \<Rightarrow> bytes result" where
  "required_var env name = (case env name of Some v \<Rightarrow> Inr v | None \<Rightarrow> Inl (Msg (name @ '' is required'')))"

text \<open>\<open>str::parse::<i64>\<close>.\<close>

definition parse_i64 :: "nat list \<Rightarrow> int option" where
  "parse_i64 cs =
     (let negative = (case cs of c # _ \<Rightarrow> c = 45 | [] \<Rightarrow> False);
          ds = (case cs of c # r \<Rightarrow> if c = 43 \<or> c = 45 then r else cs | [] \<Rightarrow> []);
          v = (if negative then - int (digits_value ds) else int (digits_value ds))
      in if ds \<noteq> [] \<and> list_all is_digit ds \<and> - (2 ^ 63) \<le> v \<and> v < 2 ^ 63 then Some v else None)"

definition stream_max_bytes :: "environment \<Rightarrow> int result" where
  "stream_max_bytes env =
     rbind (case env ''WAREHOUSE_STREAM_MAX_BYTES'' of
              None \<Rightarrow> Inr (16 * 1024 * 1024 * 1024)
            | Some v \<Rightarrow> (case parse_i64 (chars v) of
                Some n \<Rightarrow> Inr n | None \<Rightarrow> Inl (Msg ''invalid WAREHOUSE_STREAM_MAX_BYTES''))) (\<lambda>max_bytes.
     rbind (ensure (max_bytes \<ge> 1024 * 1024) (Msg ''WAREHOUSE_STREAM_MAX_BYTES must be at least 1 MiB'')) (\<lambda>_.
     Inr max_bytes))"

definition try_connect :: "environment \<Rightarrow> stream_calls \<Rightarrow> stream_config result" where
  "try_connect env calls =
     rbind (required_var env ''WAREHOUSE_NATS_USER'') (\<lambda>user.
     rbind (required_var env ''WAREHOUSE_NATS_PASSWORD'') (\<lambda>password.
     rbind (required_var env ''WAREHOUSE_NATS_CA'') (\<lambda>ca.
     rbind (sc_connect calls user password ca) (\<lambda>_.
     rbind (stream_max_bytes env) (\<lambda>max_bytes.
     let wanted = \<lparr>sm_replicas = 3, sm_max_bytes = max_bytes, sm_discard_new = True\<rparr> in
     rbind (sc_get_or_create calls wanted) (\<lambda>_.
     rbind (sc_info calls) (\<lambda>info.
     rbind (if sm_max_bytes info \<noteq> max_bytes \<or> \<not> sm_discard_new info
            then rbind (sc_update calls wanted) (\<lambda>_. rbind (sc_get calls) (\<lambda>_. sc_info_again calls))
            else Inr info) (\<lambda>info.
     rbind (ensure (sm_replicas info = 3)
              (Msg (''stream has '' @ decimal (sm_replicas info) @ '' replicas instead of 3''))) (\<lambda>_.
     rbind (ensure (sm_max_bytes info = max_bytes \<and> sm_discard_new info)
              (Msg ''operations stream retention policy was not applied'')) (\<lambda>_.
     rbind (sc_create_dlq calls) (\<lambda>_. Inr info)))))))))))"

section \<open>What a connection guarantees\<close>

lemma try_connect_stream:
  assumes "try_connect env calls = Inr info"
  shows "sm_replicas info = 3 \<and> sm_discard_new info \<and> 1024 * 1024 \<le> sm_max_bytes info
    \<and> stream_max_bytes env = Inr (sm_max_bytes info)"
  using assms
  by (auto simp: try_connect_def rbind_Inr_iff ensure_Inr_iff Let_def)
    (auto simp: stream_max_bytes_def rbind_Inr_iff ensure_Inr_iff)

lemma connect_loop_tried:
  "connect_loop try_once e attempts = Inr l \<Longrightarrow> \<exists>attempt \<in> set attempts. try_once attempt = Inr l"
  by (induction attempts arbitrary: e) (auto split: sum.splits)

text \<open>
  However many of the 120 attempts fail: a stream the node works with has three replicas, keeps
  every message, and has the configured size.
\<close>

lemma connected_stream:
  assumes "connect (\<lambda>attempt. try_connect env (calls attempt)) = Inr info"
  shows "sm_replicas info = 3 \<and> sm_discard_new info \<and> stream_max_bytes env = Inr (sm_max_bytes info)"
  using connect_loop_tried [OF assms [unfolded connect_def]] try_connect_stream by blast

end
