(* ===== verification/LoadData.thy ===== *)
theory LoadData
  imports StreamSetup
begin

text \<open>
  The data of the load generators \<open>src/bin/loadgen.rs\<close> and \<open>src/bin/prepared_loadgen.rs\<close>: the
  operations of a run, the dataset file of prepared batches, the selection and the schedule of
  the mixed load, and the percentiles of the reports.  Both binaries declare an \<open>Operation\<close> with
  the fields of \<open>src/model.rs\<close>, which is reused.  \<open>serde_json\<close> is a parameter; a panic is an
  error value, since both end the run.
\<close>

section \<open>The code\<close>

subsection \<open>Variables\<close>

definition load_number :: "environment \<Rightarrow> string \<Rightarrow> nat \<Rightarrow> nat result" where
  "load_number env name fallback =
     (case parse_u64 (chars (env_value env name (decimal fallback))) of
        Inr n \<Rightarrow> Inr (unat n)
      | Inl _ \<Rightarrow> Inl (Msg (''invalid '' @ name)))"

definition prep_number :: "environment \<Rightarrow> string \<Rightarrow> nat \<Rightarrow> nat result" where
  "prep_number env name fallback =
     (case parse_u64 (chars (env_value env name (decimal fallback))) of
        Inr n \<Rightarrow> Inr (unat n)
      | Inl _ \<Rightarrow> Inl (Msg (''invalid '' @ name)))"

definition prep_required :: "environment \<Rightarrow> string \<Rightarrow> bytes result" where
  "prep_required env name =
     (case env name of Some v \<Rightarrow> Inr v | None \<Rightarrow> Inl (Msg (name @ '' is required'')))"

subsection \<open>The operations of a run\<close>

text \<open>\<open>index % owners\<close> and \<open>index % skus\<close> panic on zero.\<close>

definition rem_zero :: error where
  "rem_zero = Msg ''attempt to calculate the remainder with a divisor of zero''"

definition dataset_operation :: "bytes \<Rightarrow> nat \<Rightarrow> nat \<Rightarrow> nat \<Rightarrow> operation result" where
  "dataset_operation run owners skus index =
     rbind (ensure (owners \<noteq> 0) rem_zero) (\<lambda>_.
     rbind (ensure (skus \<noteq> 0) rem_zero) (\<lambda>_.
     Inr \<lparr>operation_id = run @ ascii (''-'' @ decimal index),
          owner_id = ascii (''owner-'' @ decimal (index mod owners)),
          sku = ascii (''sku-'' @ decimal (index mod skus)), delta = 1, event_version = 1\<rparr>))"

text \<open>\<open>(0..amount).step_by(n)\<close>; the sum \<open>start + batch\<close> wraps in the release profile.\<close>

function step_by :: "nat \<Rightarrow> nat \<Rightarrow> nat \<Rightarrow> nat list" where
  "step_by start amount n = (if start < amount \<and> 0 < n then start # step_by (start + n) amount n else [])"
  by pat_completeness auto
termination by (relation "measure (\<lambda>(start, amount, n). amount - start)") auto

declare step_by.simps [simp del]

definition batch_indices :: "nat \<Rightarrow> nat \<Rightarrow> nat \<Rightarrow> nat list" where
  "batch_indices amount batch start = [start ..< min ((start + batch) mod 2 ^ 64) amount]"

definition load_batch :: "bytes \<Rightarrow> nat \<Rightarrow> nat \<Rightarrow> nat list \<Rightarrow> operation list result" where
  "load_batch run owners skus indices = collect_results (dataset_operation run owners skus) indices"

subsection \<open>The dataset file\<close>

text \<open>
  The JSON conversions of the dataset and of the requests.  \<open>File::create\<close> and \<open>File::open\<close> are
  the arguments of \<open>prepare\<close> and of the readers; a created file is written to the end.
\<close>

record load_json =
  lj_operations :: "operation list \<Rightarrow> bytes result"
  lj_parse_operations :: "bytes \<Rightarrow> operation list result"
  lj_keys :: "key list \<Rightarrow> bytes result"
  lj_parse_keys :: "bytes \<Rightarrow> key list result"
  lj_ids :: "bytes list \<Rightarrow> bytes result"

definition prepare :: "load_json \<Rightarrow> environment \<Rightarrow> (bytes \<Rightarrow> unit result) \<Rightarrow> (bytes \<times> bytes) result" where
  "prepare json env create =
     rbind (prep_required env ''PREPARED_DATASET'') (\<lambda>path.
     rbind (prep_number env ''LOAD_OPERATIONS'' 1000000) (\<lambda>amount.
     rbind (prep_number env ''LOAD_BATCH_SIZE'' 1000) (\<lambda>batch.
     rbind (prep_number env ''LOAD_OWNERS'' 10000) (\<lambda>owners.
     rbind (prep_number env ''LOAD_SKUS'' 1000) (\<lambda>skus.
     let run = env_value env ''LOAD_RUN_ID'' ''prepared-1'' in
     rbind (create path) (\<lambda>_.
     rbind (ensure (batch \<noteq> 0) (Msg ''assertion failed: step != 0'')) (\<lambda>_.
     rbind (for_each (\<lambda>start output.
              rbind (collect_results (dataset_operation run owners skus) (batch_indices amount batch start)) (\<lambda>operations.
              rbind (lj_operations json operations) (\<lambda>text. Inr (output @ text @ [10]))))
            (step_by 0 amount batch) []) (\<lambda>output.
     Inr (path, output)))))))))"

text \<open>\<open>BufRead::lines\<close>: a line ends with LF or CR LF, and the last one may end with the file.\<close>

fun read_lines :: "bytes \<Rightarrow> bytes list" where
  "read_lines [] = []"
| "read_lines (b # bs) =
     (if b = 10 then [] # read_lines bs
      else if b = 13 \<and> bs \<noteq> [] \<and> hd bs = 10 then read_lines bs
      else case read_lines bs of [] \<Rightarrow> [[b]] | l # ls \<Rightarrow> (b # l) # ls)"

text \<open>
  The loop of the three readers: \<open>payload_of\<close> is what each keeps of a line and its
  operations.  A line that is not UTF-8 is an error of the reader.
\<close>

definition read_dataset ::
  "load_json \<Rightarrow> environment \<Rightarrow> (bytes \<Rightarrow> bytes result) \<Rightarrow> (bytes \<Rightarrow> operation list \<Rightarrow> 'p result) \<Rightarrow> ('p list \<times> nat) result" where
  "read_dataset json env open_file payload_of =
     rbind (prep_required env ''PREPARED_DATASET'') (\<lambda>path.
     rbind (open_file path) (\<lambda>content.
     rbind (for_each (\<lambda>line (payloads, amount).
              rbind (ensure (str_ok line) Utf8Error) (\<lambda>_.
              if line = [] then Inr (payloads, amount)
              else rbind (lj_parse_operations json line) (\<lambda>operations.
                   rbind (payload_of line operations) (\<lambda>payload.
                   Inr (payloads @ [payload], amount + length operations)))))
            (read_lines content) ([], 0)) (\<lambda>(payloads, amount).
     rbind (ensure (amount > 0) (Msg ''dataset is empty'')) (\<lambda>_. Inr (payloads, amount)))))"

definition load_write_dataset :: "load_json \<Rightarrow> environment \<Rightarrow> (bytes \<Rightarrow> bytes result) \<Rightarrow> (bytes list \<times> nat) result" where
  "load_write_dataset json env open_file = read_dataset json env open_file (\<lambda>line operations. Inr line)"

definition load_read_dataset :: "load_json \<Rightarrow> environment \<Rightarrow> (bytes \<Rightarrow> bytes result) \<Rightarrow> (bytes list \<times> nat) result" where
  "load_read_dataset json env open_file =
     read_dataset json env open_file (\<lambda>line operations. lj_ids json (map operation_id operations))"

definition load_dataset :: "load_json \<Rightarrow> environment \<Rightarrow> (bytes \<Rightarrow> bytes result) \<Rightarrow> (bytes list \<times> bytes list \<times> nat) result" where
  "load_dataset json env open_file =
     rbind (read_dataset json env open_file (\<lambda>line operations.
       rbind (lj_keys json (map key_of operations)) (\<lambda>keys. Inr (line, keys)))) (\<lambda>(payloads, amount).
     Inr (map fst payloads, map snd payloads, amount))"

subsection \<open>The mixed load\<close>

fun mixed_writes :: "load_json \<Rightarrow> bytes \<Rightarrow> nat \<Rightarrow> bytes list \<Rightarrow> nat \<Rightarrow> bytes list result" where
  "mixed_writes json run target [] written = Inr []"
| "mixed_writes json run target (payload # source) written =
     (if written \<ge> target then Inr []
      else rbind (lj_parse_operations json payload) (\<lambda>operations.
        let operations = (if written + length operations > target then take (target - written) operations else operations);
            renamed = map (\<lambda>op. op\<lparr>operation_id := run @ ascii ''-'' @ operation_id op\<rparr>) operations
        in rbind (lj_operations json renamed) (\<lambda>text.
           rbind (mixed_writes json run target source (written + length renamed)) (\<lambda>texts. Inr (text # texts)))))"

fun mixed_reads :: "load_json \<Rightarrow> nat \<Rightarrow> bytes list \<Rightarrow> nat \<Rightarrow> bytes list result" where
  "mixed_reads json target [] read = Inr []"
| "mixed_reads json target (payload # source) read =
     (if read \<ge> target then Inr []
      else rbind (lj_parse_keys json payload) (\<lambda>keys.
        let keys = (if read + length keys > target then take (target - read) keys else keys)
        in rbind (lj_keys json keys) (\<lambda>text.
           rbind (mixed_reads json target source (read + length keys)) (\<lambda>texts. Inr (text # texts)))))"

text \<open>Turns of four reads and one write until both lists are used up; \<open>True\<close> marks a write.\<close>

function schedule :: "'a list \<Rightarrow> 'a list \<Rightarrow> (bool \<times> 'a) list" where
  "schedule reads writes =
     (if reads = [] \<and> writes = [] then []
      else map (Pair False) (take 4 reads) @ map (Pair True) (take 1 writes)
        @ schedule (drop 4 reads) (drop 1 writes))"
  by pat_completeness auto
termination
  by (relation "measure (\<lambda>(reads, writes). length reads + length writes)")
    (auto simp: neq_Nil_conv length_drop simp del: drop_Suc)

declare schedule.simps [simp del]

definition mixed_plan :: "load_json \<Rightarrow> environment \<Rightarrow> (bytes \<Rightarrow> bytes result) \<Rightarrow> (nat \<times> nat \<times> (bool \<times> bytes) list) result" where
  "mixed_plan json env open_file =
     rbind (load_dataset json env open_file) (\<lambda>(write_source, read_source, amount).
     let write_target = amount div 5; read_target = amount - write_target;
         run = env_value env ''LOAD_RUN_ID'' ''mixed-1'' in
     rbind (mixed_writes json run write_target write_source 0) (\<lambda>write_payloads.
     rbind (mixed_reads json read_target read_source 0) (\<lambda>reads.
     Inr (write_target, read_target, schedule reads write_payloads))))"

subsection \<open>Reports\<close>

definition percentile :: "u64 list \<Rightarrow> nat \<Rightarrow> u64" where
  "percentile values percent =
     (if values = [] then 0 else values ! ((length values - 1) * percent div 100))"

definition pct :: "u64 list \<Rightarrow> nat \<Rightarrow> u64" where
  "pct values p = (if values = [] then 0 else values ! ((length values - 1) * p div 100))"


section \<open>Strings that are put together\<close>

lemma utf8_step_append: "utf8_step a = Some (c, r) \<Longrightarrow> utf8_step (a @ b) = Some (c, r @ b)"
  by (cases a) (auto simp: utf8_two_def utf8_three_def utf8_four_def split: if_splits list.splits)

lemma utf8_chars_append:
  "utf8_chars a = Some cs \<Longrightarrow> utf8_chars (a @ b) = map_option ((@) cs) (utf8_chars b)"
proof (induction a arbitrary: cs rule: utf8_chars.induct)
  case (1 a)
  show ?case
  proof (cases "a = []")
    case True
    with "1.prems" show ?thesis by (simp add: option.map_ident)
  next
    case False
    with "1.prems" obtain c r cs' where st: "utf8_step a = Some (c, r)" "utf8_chars r = Some cs'" "cs = c # cs'"
      by (auto simp: utf8_chars.simps [of a] split: option.splits prod.splits)
    from "1.IH" [OF False st(1) refl st(2)] utf8_step_append [OF st(1), of b] st(3) False
    show ?thesis by (simp add: utf8_chars.simps [of "a @ b"] option.map_comp comp_def)
  qed
qed

lemma str_ok_append:
  assumes "str_ok a" "str_ok b"
  shows "str_ok (a @ b)" "chars (a @ b) = chars a @ chars b"
proof -
  obtain cs ds where "utf8_chars a = Some cs" "utf8_chars b = Some ds" using assms by (auto simp: str_ok_def)
  moreover from this utf8_chars_append [of a cs b] have "utf8_chars (a @ b) = Some (cs @ ds)" by simp
  ultimately show "str_ok (a @ b)" "chars (a @ b) = chars a @ chars b" by (simp_all add: str_ok_def chars_def)
qed

section \<open>The generated operations\<close>

lemma decimal_inject [simp]: "decimal m = decimal n \<longleftrightarrow> m = n"
proof
  assume "decimal m = decimal n"
  then have "digits_value (map of_char (decimal m)) = digits_value (map of_char (decimal n))" by (rule arg_cong)
  then show "m = n" using decimal_codes by simp
qed simp

lemma length_decimal: "n < 10 ^ k \<Longrightarrow> 0 < k \<Longrightarrow> length (decimal n) \<le> k"
proof (induction n arbitrary: k rule: decimal.induct)
  case (1 n)
  show ?case
  proof (cases "n < 10")
    case False
    with 1(2) have "k \<noteq> 1" by auto
    then obtain j where j: "k = Suc j" "0 < j" using 1(3) by (cases k) auto
    then have "n div 10 < 10 ^ j" using 1(2) by (simp add: less_mult_imp_div_less)
    with 1(1) [OF False this j(2)] j show ?thesis by (subst decimal.simps) simp
  qed (use 1(3) in \<open>simp add: decimal.simps\<close>)
qed

definition op_of :: "bytes \<Rightarrow> nat \<Rightarrow> nat \<Rightarrow> nat \<Rightarrow> operation" where
  "op_of run owners skus index = \<lparr>operation_id = run @ ascii (''-'' @ decimal index),
     owner_id = ascii (''owner-'' @ decimal (index mod owners)), sku = ascii (''sku-'' @ decimal (index mod skus)),
     delta = 1, event_version = 1\<rparr>"

lemma dataset_operation_iff:
  "dataset_operation run owners skus index = Inr op \<longleftrightarrow> 0 < owners \<and> 0 < skus \<and> op = op_of run owners skus index"
  by (auto simp: dataset_operation_def op_of_def ensure_def)

lemma load_batch_ok:
  "0 < owners \<Longrightarrow> 0 < skus \<Longrightarrow> load_batch run owners skus indices = Inr (map (op_of run owners skus) indices)"
  unfolding load_batch_def by (rule collect_results_map) (simp add: dataset_operation_iff)

lemma digits_plain:
  assumes "c \<in> set (decimal n)"
  shows "\<not> is_whitespace (of_char c)" "\<not> is_control (of_char c)"
proof -
  have "is_digit (of_char c)" using decimal_codes [of n] assms by (simp add: list_all_iff)
  then show "\<not> is_whitespace (of_char c)" "\<not> is_control (of_char c)"
    by (auto simp: is_digit_def is_whitespace_def is_control_def)
qed

lemma ascii_only_append: "ascii_only (s @ t) \<longleftrightarrow> ascii_only s \<and> ascii_only t"
  by (simp add: ascii_only_def)

lemma numbered_ok:
  assumes "n < 10 ^ 20" "s \<noteq> []" "length s \<le> 108" "ascii_only s"
    and "list_all (\<lambda>c. \<not> is_whitespace (of_char c) \<and> \<not> is_control (of_char c)) s"
  shows "str_ok (ascii (s @ decimal n))" "identifier_ok (ascii (s @ decimal n))"
proof -
  have d: "decimal n \<noteq> []" "ascii_only (s @ decimal n)" using decimal_codes [of n] assms(4) by (simp_all add: ascii_only_append)
  then show "str_ok (ascii (s @ decimal n))" by (simp only: ascii_str_facts)
  have "length (decimal n) \<le> 20" using length_decimal [OF assms(1)] by simp
  moreover have "hd (s @ decimal n) \<in> set s" "last (s @ decimal n) \<in> set (decimal n)" using d(1) assms(2) by simp_all
  ultimately show "identifier_ok (ascii (s @ decimal n))"
    using d digits_plain [of _ n] assms(2,3,5) unfolding identifier_ok_ascii [OF d(2)]
    by (auto simp: list_all_iff Suc_le_eq)
qed

text \<open>An identifier is followed by a dash and a number.\<close>

lemma run_id_ok:
  assumes "str_ok run" "identifier_ok run" "length run \<le> 107" "n < 10 ^ 20"
  shows "str_ok (run @ ascii (''-'' @ decimal n))" "identifier_ok (run @ ascii (''-'' @ decimal n))"
proof -
  have n: "str_ok (ascii (''-'' @ decimal n))" "identifier_ok (ascii (''-'' @ decimal n))"
    by (rule numbered_ok [OF assms(4)]; simp add: ascii_only_def is_whitespace_def is_control_def)+
  have c: "str_ok (run @ ascii (''-'' @ decimal n))"
    "chars (run @ ascii (''-'' @ decimal n)) = chars run @ chars (ascii (''-'' @ decimal n))"
    using str_ok_append [OF assms(1) n(1)] by simp_all
  then show "str_ok (run @ ascii (''-'' @ decimal n))" by simp
  have "run \<noteq> []" "ascii (''-'' @ decimal n) \<noteq> []" using assms(2) by (auto simp: identifier_ok_def ascii_def)
  then have "chars run \<noteq> []" "chars (ascii (''-'' @ decimal n)) \<noteq> []" using assms(1) n(1) by (simp_all add: str_ok_chars_Nil_iff)
  moreover have "length (decimal n) \<le> 20" using length_decimal [OF assms(4)] by simp
  ultimately show "identifier_ok (run @ ascii (''-'' @ decimal n))"
    using assms(2,3) n(2) unfolding identifier_ok_def c(2) by auto
qed

lemma op_of_ok:
  assumes "str_ok run" "identifier_ok run" "length run \<le> 107" "index < 2 ^ 64"
  shows "op_strings_ok (op_of run owners skus index)" "operation_ok (op_of run owners skus index)"
proof -
  have "index < 10 ^ 20" using assms(4) by simp
  moreover have "index mod owners < 10 ^ 20" "index mod skus < 10 ^ 20"
    using calculation by (metis le_less_trans mod_less_eq_dividend)+
  moreover note run_id_ok [OF assms(1-3)]
  moreover have "str_ok (ascii (''owner-'' @ decimal m))" "identifier_ok (ascii (''owner-'' @ decimal m))"
    "str_ok (ascii (''sku-'' @ decimal m))" "identifier_ok (ascii (''sku-'' @ decimal m))" if "m < 10 ^ 20" for m
    by (rule numbered_ok [OF that]; simp add: ascii_only_def is_whitespace_def is_control_def)+
  ultimately show "op_strings_ok (op_of run owners skus index)" "operation_ok (op_of run owners skus index)"
    by (simp_all add: op_strings_ok_def operation_ok_def op_of_def)
qed

lemma ascii_inject: "ascii_only s \<Longrightarrow> ascii_only t \<Longrightarrow> ascii s = ascii t \<longleftrightarrow> s = t"
proof
  assume ok: "ascii_only s" "ascii_only t" and "ascii s = ascii t"
  then have "chars (ascii s) = chars (ascii t)" by simp
  then have "(map of_char s :: nat list) = map of_char t" using ok by (simp only: ascii_str_facts)
  then show "s = t" by (metis inj_map_eq_map inj_on_def of_char_eq_iff)
qed simp

lemma ascii_numbered_inject: "ascii_only s \<Longrightarrow> ascii (s @ decimal m) = ascii (s @ decimal n) \<longleftrightarrow> m = n"
  using decimal_codes [of m] decimal_codes [of n] by (simp add: ascii_inject ascii_only_append)

lemma op_of_id: "operation_id (op_of run owners skus i) = operation_id (op_of run owners skus j) \<longleftrightarrow> i = j"
  using ascii_numbered_inject [of "''-''" i j] by (simp add: op_of_def ascii_only_def)

section \<open>The batches of a run\<close>

lemma batch_indices_upt:
  "start < amount \<Longrightarrow> amount + batch \<le> 2 ^ 64 \<Longrightarrow> batch_indices amount batch start = [start ..< min (start + batch) amount]"
  by (simp add: batch_indices_def)

lemma step_by_batches:
  assumes "0 < batch" "amount + batch \<le> 2 ^ 64"
  shows "concat (map (batch_indices amount batch) (step_by start amount batch)) = [start ..< amount]"
  using assms
proof (induction start amount batch rule: step_by.induct)
  case (1 start amount batch)
  show ?case
  proof (cases "start < amount")
    case True
    have "concat (map (batch_indices amount batch) (step_by start amount batch))
        = [start ..< min (start + batch) amount] @ [start + batch ..< amount]"
      using 1 True by (subst step_by.simps) (simp add: batch_indices_upt)
    also have "\<dots> = [start ..< amount]"
    proof (cases "start + batch \<le> amount")
      case le: True
      then show ?thesis using upt_add_eq_append [of start "start + batch" "amount - (start + batch)"] by simp
    qed simp
    finally show ?thesis .
  qed (subst step_by.simps, simp)
qed

lemma step_by_sizes:
  assumes "0 < batch" "amount + batch \<le> 2 ^ 64" "s \<in> set (step_by start amount batch)"
  shows "1 \<le> length (batch_indices amount batch s)" "length (batch_indices amount batch s) \<le> batch"
proof -
  from assms(3) have "s < amount"
  proof (induction start amount batch rule: step_by.induct)
    case (1 start amount batch)
    then show ?case by (subst (asm) (2) step_by.simps) (auto split: if_splits)
  qed
  then show "1 \<le> length (batch_indices amount batch s)" "length (batch_indices amount batch s) \<le> batch"
    using assms(1,2) by (auto simp: batch_indices_upt)
qed

definition run_batches :: "bytes \<Rightarrow> nat \<Rightarrow> nat \<Rightarrow> nat \<Rightarrow> nat \<Rightarrow> operation list list" where
  "run_batches run owners skus amount batch =
     map (\<lambda>start. map (op_of run owners skus) (batch_indices amount batch start)) (step_by 0 amount batch)"

lemma concat_run_batches:
  "0 < batch \<Longrightarrow> amount + batch \<le> 2 ^ 64 \<Longrightarrow>
     concat (run_batches run owners skus amount batch) = map (op_of run owners skus) [0 ..< amount]"
  using step_by_batches [of batch amount 0]
  by (simp add: run_batches_def map_concat [symmetric] map_map [symmetric, unfolded comp_def] del: map_map)

lemma run_batches_sizes:
  "0 < batch \<Longrightarrow> amount + batch \<le> 2 ^ 64 \<Longrightarrow> c \<in> set (run_batches run owners skus amount batch) \<Longrightarrow>
     1 \<le> length c \<and> length c \<le> batch"
  using step_by_sizes [of batch amount _ 0] by (auto simp: run_batches_def)

section \<open>The dataset file\<close>

text \<open>
  What the code relies on of \<open>serde_json\<close>: strings can be written, the compact text of a value is
  one non-empty line of UTF-8, and it is parsed to the value; a parsed \<open>String\<close> is UTF-8.
\<close>

definition one_line :: "bytes \<Rightarrow> bool" where
  "one_line text \<longleftrightarrow> text \<noteq> [] \<and> str_ok text \<and> 10 \<notin> set text \<and> 13 \<notin> set text"

definition key_strings_ok :: "key \<Rightarrow> bool" where
  "key_strings_ok k \<longleftrightarrow> str_ok (fst k) \<and> str_ok (snd k)"

locale dataset_json =
  fixes json :: load_json
  assumes operations_text: "list_all op_strings_ok ops \<Longrightarrow>
      \<exists>text. lj_operations json ops = Inr text \<and> one_line text \<and> lj_parse_operations json text = Inr ops"
    and parsed_strings: "lj_parse_operations json text = Inr ops \<Longrightarrow> list_all op_strings_ok ops"
    and keys_text: "list_all key_strings_ok ks \<Longrightarrow>
      \<exists>text. lj_keys json ks = Inr text \<and> lj_parse_keys json text = Inr ks"
    and ids_text: "list_all str_ok ids \<Longrightarrow> \<exists>text. lj_ids json ids = Inr text"

lemma read_lines_line: "10 \<notin> set l \<Longrightarrow> 13 \<notin> set l \<Longrightarrow> read_lines (l @ 10 # bs) = l # read_lines bs"
  by (induction l) auto

lemma read_lines_texts: "\<forall>t \<in> set texts. one_line t \<Longrightarrow> read_lines (concat (map (\<lambda>t. t @ [10]) texts)) = texts"
  by (induction texts) (simp_all add: one_line_def read_lines_line)

text \<open>The loop of the readers over lines that parse.\<close>

definition read_step :: "load_json \<Rightarrow> (bytes \<Rightarrow> operation list \<Rightarrow> 'p result) \<Rightarrow> bytes \<Rightarrow> 'p list \<times> nat \<Rightarrow> ('p list \<times> nat) result" where
  "read_step json payload_of line = (\<lambda>(payloads, amount).
     rbind (ensure (str_ok line) Utf8Error) (\<lambda>_.
     if line = [] then Inr (payloads, amount)
     else rbind (lj_parse_operations json line) (\<lambda>operations.
          rbind (payload_of line operations) (\<lambda>payload.
          Inr (payloads @ [payload], amount + length operations)))))"

lemma read_loop_ok:
  assumes "list_all2 (\<lambda>t c. one_line t \<and> lj_parse_operations json t = Inr c) texts chunks"
    and "list_all2 (\<lambda>(t, c) p. payload_of t c = Inr p) (zip texts chunks) payloads"
  shows "for_each (read_step json payload_of) texts (done_payloads, n)
    = Inr (done_payloads @ payloads, n + length (concat chunks))"
  using assms
proof (induction texts chunks arbitrary: payloads done_payloads n rule: list_all2_induct)
  case (Cons t texts c chunks)
  then obtain p ps where "payloads = p # ps" "payload_of t c = Inr p"
    "list_all2 (\<lambda>(t, c) p. payload_of t c = Inr p) (zip texts chunks) ps" by (auto simp: list_all2_Cons1)
  with Cons.hyps Cons.IH [of ps "done_payloads @ [p]" "n + length c"] show ?case
    by (simp add: read_step_def one_line_def)
qed simp

lemma read_dataset_ok:
  assumes "prep_required env ''PREPARED_DATASET'' = Inr path" "open_file path = Inr (concat (map (\<lambda>t. t @ [10]) texts))"
    and "list_all2 (\<lambda>t c. one_line t \<and> lj_parse_operations json t = Inr c) texts chunks"
    and "list_all2 (\<lambda>(t, c) p. payload_of t c = Inr p) (zip texts chunks) payloads" "concat chunks \<noteq> []"
  shows "read_dataset json env open_file payload_of = Inr (payloads, length (concat chunks))"
proof -
  have "\<forall>t \<in> set texts. one_line t" using assms(3) by (auto simp: list_all2_conv_all_nth in_set_conv_nth)
  then have "read_lines (concat (map (\<lambda>t. t @ [10]) texts)) = texts" by (rule read_lines_texts)
  with assms(1,2,5) read_loop_ok [OF assms(3,4), of "[]" 0] show ?thesis
    by (simp add: read_dataset_def read_step_def [symmetric] del: length_concat)
qed

context dataset_json
begin

lemma chunk_texts:
  "\<forall>c \<in> set chunks. list_all op_strings_ok c \<Longrightarrow>
     \<exists>texts. list_all2 (\<lambda>t c. lj_operations json c = Inr t \<and> one_line t \<and> lj_parse_operations json t = Inr c) texts chunks"
proof (induction chunks)
  case (Cons c chunks)
  then obtain texts where "list_all2 (\<lambda>t c. lj_operations json c = Inr t \<and> one_line t \<and> lj_parse_operations json t = Inr c) texts chunks"
    by auto
  moreover obtain t where "lj_operations json c = Inr t \<and> one_line t \<and> lj_parse_operations json t = Inr c"
    using operations_text [of c] Cons.prems by auto
  ultimately show ?case by (intro exI [of _ "t # texts"]) simp
qed simp

end

lemma write_loop:
  assumes "0 < owners" "0 < skus"
    and "list_all2 (\<lambda>t start. lj_operations json (map (op_of run owners skus) (batch_indices amount batch start)) = Inr t) texts starts"
  shows "for_each (\<lambda>start output.
      rbind (collect_results (dataset_operation run owners skus) (batch_indices amount batch start)) (\<lambda>operations.
      rbind (lj_operations json operations) (\<lambda>text. Inr (output @ text @ [10])))) starts out
    = Inr (out @ concat (map (\<lambda>t. t @ [10]) texts))"
  using assms(3)
proof (induction texts starts arbitrary: out rule: list_all2_induct)
  case (Cons t texts start starts)
  from load_batch_ok [OF assms(1,2), of run "batch_indices amount batch start"] Cons show ?case
    by (simp add: load_batch_def)
qed simp

lemma prepare_ok:
  assumes "dataset_json json" "prep_required env ''PREPARED_DATASET'' = Inr path" "create path = Inr ()"
    and "prep_number env ''LOAD_OPERATIONS'' 1000000 = Inr amount" "prep_number env ''LOAD_BATCH_SIZE'' 1000 = Inr batch"
    and "prep_number env ''LOAD_OWNERS'' 10000 = Inr owners" "prep_number env ''LOAD_SKUS'' 1000 = Inr skus"
    and "0 < batch" "0 < owners" "0 < skus" "amount + batch \<le> 2 ^ 64"
    and "run = env_value env ''LOAD_RUN_ID'' ''prepared-1''" "str_ok run" "identifier_ok run" "length run \<le> 107"
  shows "\<exists>texts. prepare json env create = Inr (path, concat (map (\<lambda>t. t @ [10]) texts))
    \<and> list_all2 (\<lambda>t c. one_line t \<and> lj_parse_operations json t = Inr c) texts (run_batches run owners skus amount batch)"
proof -
  have ok: "op_strings_ok op" if "op \<in> set (concat (run_batches run owners skus amount batch))" for op
    using that op_of_ok(1) [OF assms(13-15)] assms(11) by (auto simp: concat_run_batches [OF assms(8,11)] simp del: set_concat)
  then obtain texts where texts:
    "list_all2 (\<lambda>t c. lj_operations json c = Inr t \<and> one_line t \<and> lj_parse_operations json t = Inr c) texts
      (run_batches run owners skus amount batch)"
    using dataset_json.chunk_texts [OF assms(1), of "run_batches run owners skus amount batch"] by (auto simp: list_all_iff)
  then have "list_all2 (\<lambda>t start. lj_operations json (map (op_of run owners skus) (batch_indices amount batch start)) = Inr t)
      texts (step_by 0 amount batch)"
    by (auto simp: run_batches_def list_all2_conv_all_nth)
  from write_loop [OF assms(9,10) this, of "[]"] have "prepare json env create = Inr (path, concat (map (\<lambda>t. t @ [10]) texts))"
    using assms(2-8,12) by (simp add: prepare_def Let_def)
  moreover have "list_all2 (\<lambda>t c. one_line t \<and> lj_parse_operations json t = Inr c) texts (run_batches run owners skus amount batch)"
    using texts by (rule list_all2_mono) simp
  ultimately show ?thesis by blast
qed

section \<open>The mixed load\<close>

definition renamed :: "bytes \<Rightarrow> operation \<Rightarrow> operation" where
  "renamed run op = op\<lparr>operation_id := run @ ascii ''-'' @ operation_id op\<rparr>"

context dataset_json
begin

lemma load_dataset_ok:
  assumes "prep_required env ''PREPARED_DATASET'' = Inr path" "open_file path = Inr (concat (map (\<lambda>t. t @ [10]) texts))"
    and "list_all2 (\<lambda>t c. one_line t \<and> lj_parse_operations json t = Inr c) texts chunks" "concat chunks \<noteq> []"
    and "list_all key_strings_ok (concat (map (map key_of) chunks))"
  shows "\<exists>keys. load_dataset json env open_file = Inr (texts, keys, length (concat chunks))
    \<and> list_all2 (\<lambda>p c. lj_parse_keys json p = Inr c) keys (map (map key_of) chunks)"
proof -
  have "\<exists>keys. list_all2 (\<lambda>k c. lj_keys json (map key_of c) = Inr k \<and> lj_parse_keys json k = Inr (map key_of c)) keys chunks"
    using assms(5)
  proof (induction chunks)
    case (Cons c chunks)
    then obtain keys k where "lj_keys json (map key_of c) = Inr k \<and> lj_parse_keys json k = Inr (map key_of c)"
      "list_all2 (\<lambda>k c. lj_keys json (map key_of c) = Inr k \<and> lj_parse_keys json k = Inr (map key_of c)) keys chunks"
      using keys_text [of "map key_of c"] by auto
    then show ?case by (intro exI [of _ "k # keys"]) simp
  qed simp
  then obtain keys where
    keys: "list_all2 (\<lambda>k c. lj_keys json (map key_of c) = Inr k \<and> lj_parse_keys json k = Inr (map key_of c)) keys chunks" ..
  have len: "length texts = length keys" using list_all2_lengthD [OF keys] list_all2_lengthD [OF assms(3)] by simp
  have "list_all2 (\<lambda>(t, c) p. rbind (lj_keys json (map key_of c)) (\<lambda>k. Inr (t, k)) = (Inr p :: (bytes \<times> bytes) result))
      (zip texts chunks) (zip texts keys)"
    using keys len list_all2_lengthD [OF assms(3)] by (simp add: list_all2_conv_all_nth)
  from read_dataset_ok [where open_file = open_file and path = path
      and payload_of = "\<lambda>line operations. rbind (lj_keys json (map key_of operations)) (\<lambda>k. Inr (line, k))",
      OF assms(1,2,3) this assms(4)] len
  have "load_dataset json env open_file = Inr (texts, keys, length (concat chunks))"
    by (simp add: load_dataset_def del: length_concat)
  moreover have "list_all2 (\<lambda>p c. lj_parse_keys json p = Inr c) keys (map (map key_of) chunks)"
    using keys by (simp add: list_all2_conv_all_nth)
  ultimately show ?thesis by blast
qed

lemma mixed_writes_ok:
  assumes "list_all2 (\<lambda>p c. lj_parse_operations json p = Inr c) source chunks" "str_ok run" "n \<le> target"
  shows "\<exists>texts. mixed_writes json run target source n = Inr texts
    \<and> (\<exists>cs. list_all2 (\<lambda>t c. lj_parse_operations json t = Inr c) texts cs
        \<and> concat cs = map (renamed run) (take (target - n) (concat chunks)))"
  using assms(1,3)
proof (induction source chunks arbitrary: n rule: list_all2_induct)
  case (Cons p source c chunks)
  show ?case
  proof (cases "n < target")
    case True
    let ?ops = "take (target - n) c"
    have cut: "(if n + length c > target then take (target - n) c else c) = ?ops" by auto
    have "list_all op_strings_ok c" by (rule parsed_strings [OF Cons.hyps(1)])
    then have "list_all op_strings_ok (map (renamed run) ?ops)"
      using assms(2) ascii_str_facts(1) [of "''-''"] unfolding list_all_iff
      by (auto simp: renamed_def op_strings_ok_def ascii_only_def intro!: str_ok_append(1) dest!: in_set_takeD)
    from operations_text [OF this] obtain t where t: "lj_operations json (map (renamed run) ?ops) = Inr t"
      "lj_parse_operations json t = Inr (map (renamed run) ?ops)" by blast
    have "n + length ?ops \<le> target" using True by simp
    from Cons.IH [OF this] obtain texts cs where rest_texts: "mixed_writes json run target source (n + length ?ops) = Inr texts"
      "list_all2 (\<lambda>t c. lj_parse_operations json t = Inr c) texts cs"
      "concat cs = map (renamed run) (take (target - (n + length ?ops)) (concat chunks))" by blast
    have "mixed_writes json run target (p # source) n = Inr (t # texts)"
      using True Cons.hyps(1) t(1) rest_texts(1) cut by (simp add: Let_def renamed_def [symmetric])
    moreover have "concat (map (renamed run) ?ops # cs) = map (renamed run) (take (target - n) (concat (c # chunks)))"
      using rest_texts(3) by (cases "length c \<le> target - n") simp_all
    ultimately show ?thesis using t(2) rest_texts(2) by (intro exI [of _ "t # texts"] conjI exI [of _ "map (renamed run) ?ops # cs"]) simp_all
  qed (use Cons.prems in \<open>auto intro!: exI [of _ "[] :: operation list list"]\<close>)
qed (simp add: exI [of _ "[]"])

lemma mixed_reads_ok:
  assumes "list_all2 (\<lambda>p c. lj_parse_keys json p = Inr c) source chunks" "list_all key_strings_ok (concat chunks)" "n \<le> target"
  shows "\<exists>texts. mixed_reads json target source n = Inr texts
    \<and> (\<exists>cs. list_all2 (\<lambda>t c. lj_parse_keys json t = Inr c) texts cs \<and> concat cs = take (target - n) (concat chunks))"
  using assms
proof (induction source chunks arbitrary: n rule: list_all2_induct)
  case (Cons p source c chunks)
  show ?case
  proof (cases "n < target")
    case True
    let ?ks = "take (target - n) c"
    have cut: "(if n + length c > target then take (target - n) c else c) = ?ks" by auto
    have "list_all key_strings_ok ?ks" using Cons.prems(1) by (auto simp: list_all_iff dest: in_set_takeD)
    from keys_text [OF this] obtain t where t: "lj_keys json ?ks = Inr t" "lj_parse_keys json t = Inr ?ks" by blast
    have "n + length ?ks \<le> target" using True by simp
    from Cons.IH [OF _ this] Cons.prems(1) obtain texts cs where
      rest_texts: "mixed_reads json target source (n + length ?ks) = Inr texts"
      "list_all2 (\<lambda>t c. lj_parse_keys json t = Inr c) texts cs"
      "concat cs = take (target - (n + length ?ks)) (concat chunks)" by auto
    have "mixed_reads json target (p # source) n = Inr (t # texts)"
      using True Cons.hyps(1) t(1) rest_texts(1) cut by (simp add: Let_def)
    moreover have "concat (?ks # cs) = take (target - n) (concat (c # chunks))"
      using rest_texts(3) by (cases "length c \<le> target - n") simp_all
    ultimately show ?thesis using t(2) rest_texts(2) by (intro exI [of _ "t # texts"] conjI exI [of _ "?ks # cs"]) simp_all
  qed (use Cons.prems in \<open>auto intro!: exI [of _ "[] :: key list list"]\<close>)
qed (simp add: exI [of _ "[]"])

end

text \<open>The schedule keeps the order of both kinds and lets four reads go before every write.\<close>

lemma schedule_kinds:
  "map snd (filter fst (schedule reads writes)) = writes"
  "map snd (filter (\<lambda>x. \<not> fst x) (schedule reads writes)) = reads"
proof (induction reads writes rule: schedule.induct)
  case (1 reads writes)
  have tags: "filter fst (map (Pair False) xs) = []" "filter (\<lambda>x. \<not> fst x) (map (Pair True) xs) = []"
    "filter fst (map (Pair True) xs) = map (Pair True) xs" "filter (\<lambda>x. \<not> fst x) (map (Pair False) xs) = map (Pair False) xs"
    for xs :: "'a list" by (induction xs) simp_all
  {
    case 1
    with "1.IH"(1) tags show ?case
      by (cases "reads = [] \<and> writes = []"; subst schedule.simps) (simp_all add: comp_def)
  next
    case 2
    with "1.IH"(2) tags show ?case
      by (cases "reads = [] \<and> writes = []"; subst schedule.simps) (simp_all add: comp_def)
  }
qed

lemma reads_then_write:
  "as @ (True, y) # bs = map (Pair False) fs @ (True, x) # xs \<Longrightarrow>
     as = map (Pair False) fs \<or> (\<exists>as'. as = map (Pair False) fs @ (True, x) # as' \<and> xs = as' @ (True, y) # bs)"
proof (induction fs arbitrary: as)
  case Nil
  then show ?case by (cases as) auto
next
  case (Cons f fs)
  then obtain as' where "as = (False, f) # as'" by (cases as) auto
  with Cons show ?case by auto
qed

lemma schedule_turns:
  "schedule reads writes = as @ (True, w) # bs \<Longrightarrow>
     length (filter (\<lambda>x. \<not> fst x) as) = min (4 * Suc (length (filter fst as))) (length reads)"
proof (induction reads writes arbitrary: as rule: schedule.induct)
  case (1 reads writes)
  have tags: "filter fst (map (Pair False) xs) = []" "filter (\<lambda>x. \<not> fst x) (map (Pair False) xs) = map (Pair False) xs"
    for xs :: "'a list" by (induction xs) simp_all
  have "writes = map snd (filter fst (as @ (True, w) # bs))" using schedule_kinds(1) [of reads writes] "1.prems" by simp
  then have "writes \<noteq> []" by auto
  then obtain x ws where w: "writes = x # ws" by (cases writes) auto
  then have "as @ (True, w) # bs = map (Pair False) (take 4 reads) @ (True, x) # schedule (drop 4 reads) ws"
    using "1.prems" by (subst (asm) schedule.simps) simp
  from reads_then_write [OF this] show ?case
  proof (elim disjE exE conjE)
    fix as'
    assume a: "as = map (Pair False) (take 4 reads) @ (True, x) # as'" "schedule (drop 4 reads) ws = as' @ (True, w) # bs"
    have "length (filter (\<lambda>x. \<not> fst x) as') = min (4 * Suc (length (filter fst as'))) (length (drop 4 reads))"
      by (rule "1.IH") (simp_all add: w a(2))
    with a(1) show ?thesis by (auto simp: tags min_def)
  qed (simp add: tags min_def)
qed

section \<open>Percentiles\<close>

lemma percentile_rank_aux:
  assumes "sorted values" "values \<noteq> []" "p \<le> 100" "k = (length values - 1) * p div 100"
  shows "k < length values" "length (filter (\<lambda>v. v < values ! k) values) \<le> k"
    "k < length (filter (\<lambda>v. v \<le> values ! k) values)"
proof -
  have "(length values - 1) * p \<le> (length values - 1) * 100" using assms(3) by (rule mult_le_mono2)
  then have "k \<le> (length values - 1) * 100 div 100" unfolding assms(4) by (rule div_le_mono)
  then show k: "k < length values" using assms(2) by (cases "values") simp_all
  let ?v = "values ! k"
  have split: "filter P values = filter P (take k values) @ filter P (drop k values)" for P
    by (metis append_take_drop_id filter_append)
  have after: "\<forall>v \<in> set (drop k values). ?v \<le> v"
  proof
    fix v
    assume "v \<in> set (drop k values)"
    then obtain i where "i < length values - k" "v = values ! (k + i)" by (auto simp: in_set_conv_nth)
    then show "?v \<le> v" using sorted_nth_mono [OF assms(1), of k "k + i"] by simp
  qed
  then have "filter (\<lambda>v. v < ?v) (drop k values) = []" by (auto simp: filter_empty_conv)
  then have "length (filter (\<lambda>v. v < ?v) values) \<le> length (take k values)" using split [of "\<lambda>v. v < ?v"] length_filter_le [of "\<lambda>v. v < ?v" "take k values"] by (simp only: append_Nil2)
  then show "length (filter (\<lambda>v. v < ?v) values) \<le> k" by simp
  have "\<forall>v \<in> set (take (Suc k) values). v \<le> ?v"
  proof
    fix v
    assume "v \<in> set (take (Suc k) values)"
    then obtain i where "i < Suc k" "v = values ! i" by (auto simp: in_set_conv_nth)
    then show "v \<le> ?v" using sorted_nth_mono [OF assms(1), of i k] k by simp
  qed
  then have "filter (\<lambda>v. v \<le> ?v) (take (Suc k) values) = take (Suc k) values" by simp
  then have "length (take (Suc k) values) \<le> length (filter (\<lambda>v. v \<le> ?v) values)"
    by (metis append_take_drop_id filter_append le_add1 length_append)
  with k show "k < length (filter (\<lambda>v. v \<le> ?v) values)" by simp
qed

section \<open>A JSON library for the examples\<close>

text \<open>
  Text in capital letters: two letters for a byte, \<open>Z\<close> after a field, \<open>X\<close> before an element of a
  list and \<open>Y\<close> after the last.
\<close>

definition plain :: "bytes \<Rightarrow> bytes" where
  "plain bs = concat (map (\<lambda>b. [word_of_nat (65 + unat b div 16), word_of_nat (65 + unat b mod 16)]) bs) @ [90]"

fun read_plain :: "bytes \<Rightarrow> (bytes \<times> bytes) option" where
  "read_plain (a # b # r) =
     (if a = 90 then Some ([], b # r)
      else map_option (\<lambda>(bs, r). (word_of_nat ((unat a - 65) * 16 + (unat b - 65)) # bs, r)) (read_plain r))"
| "read_plain [a] = (if a = 90 then Some ([], []) else None)"
| "read_plain [] = None"

fun plain_list :: "('a \<Rightarrow> bytes) \<Rightarrow> 'a list \<Rightarrow> bytes" where
  "plain_list f [] = [89]"
| "plain_list f (x # xs) = 88 # f x @ plain_list f xs"

fun read_plain_list :: "(bytes \<Rightarrow> ('a \<times> bytes) option) \<Rightarrow> nat \<Rightarrow> bytes \<Rightarrow> 'a list option" where
  "read_plain_list f 0 r = None"
| "read_plain_list f (Suc n) r =
     (if r = [89] then Some []
      else Option.bind (f (tl r)) (\<lambda>(x, r). map_option (Cons x) (read_plain_list f n r)))"

definition plain_op :: "operation \<Rightarrow> bytes" where
  "plain_op op = plain (operation_id op) @ plain (owner_id op) @ plain (sku op)
     @ plain (u64_to_le (delta op)) @ plain (u64_to_le (event_version op))"

definition read_plain_op :: "bytes \<Rightarrow> (operation \<times> bytes) option" where
  "read_plain_op r = Option.bind (read_plain r) (\<lambda>(i, r). Option.bind (read_plain r) (\<lambda>(ow, r).
     Option.bind (read_plain r) (\<lambda>(s, r). Option.bind (read_plain r) (\<lambda>(d, r).
     Option.bind (read_plain r) (\<lambda>(v, r).
       Some (\<lparr>operation_id = i, owner_id = ow, sku = s, delta = u64_from_le d, event_version = u64_from_le v\<rparr>, r))))))"

definition plain_key :: "key \<Rightarrow> bytes" where
  "plain_key k = plain (fst k) @ plain (snd k)"

definition read_plain_key :: "bytes \<Rightarrow> (key \<times> bytes) option" where
  "read_plain_key r = Option.bind (read_plain r) (\<lambda>(ow, r). Option.bind (read_plain r) (\<lambda>(s, r). Some ((ow, s), r)))"

definition plain_json :: load_json where
  "plain_json = \<lparr>
     lj_operations = (\<lambda>ops. Inr (plain_list plain_op ops)),
     lj_parse_operations = (\<lambda>t. case read_plain_list read_plain_op (length t) t of
       Some ops \<Rightarrow> if list_all op_strings_ok ops then Inr ops else Inl ParseError | None \<Rightarrow> Inl ParseError),
     lj_keys = (\<lambda>ks. Inr (plain_list plain_key ks)),
     lj_parse_keys = (\<lambda>t. case read_plain_list read_plain_key (length t) t of Some ks \<Rightarrow> Inr ks | None \<Rightarrow> Inl ParseError),
     lj_ids = (\<lambda>ids. Inr (plain_list plain ids))\<rparr>"

lemma read_plain_ok: "read_plain (plain bs @ r) = Some (bs, r)"
proof (induction bs)
  case Nil
  show ?case by (cases r) (simp_all add: plain_def)
next
  case (Cons b bs)
  let ?h = "word_of_nat (65 + unat b div 16) :: byte" and ?l = "word_of_nat (65 + unat b mod 16) :: byte"
  have b: "unat b div 16 < 16" "unat b mod 16 < 16" using unat_lt [of b] by simp_all
  then have u: "unat ?h = 65 + unat b div 16" "unat ?l = 65 + unat b mod 16" by (simp_all only: unat_byte_of_nat) simp_all
  have "unat ?h \<noteq> unat (90 :: byte)" unfolding u(1) using b(1) by simp
  then have h: "?h \<noteq> 90" by metis
  have "word_of_nat ((unat ?h - 65) * 16 + (unat ?l - 65)) = b"
    unfolding u add_diff_cancel_left' div_mult_mod_eq by simp
  moreover have "plain (b # bs) @ r = ?h # ?l # plain bs @ r" by (simp add: plain_def)
  ultimately show ?case using Cons.IH h by (simp only: read_plain.simps if_False option.map prod.case)
qed

lemma read_plain_list_ok:
  assumes "\<And>x r. x \<in> set xs \<Longrightarrow> f (g x @ r) = Some (x, r)" "length xs < n"
  shows "read_plain_list f n (plain_list g xs) = Some xs"
  using assms
proof (induction xs arbitrary: n)
  case Nil
  then show ?case by (cases n) simp_all
next
  case (Cons x xs)
  then obtain m where "n = Suc m" by (cases n) auto
  with Cons show ?case by simp
qed

lemma length_plain_list: "length xs < length (plain_list g xs)"
  by (induction xs) simp_all

lemma read_plain_op_ok: "read_plain_op (plain_op op @ r) = Some (op, r)"
  by (simp add: read_plain_op_def plain_op_def read_plain_ok)

lemma read_plain_key_ok: "read_plain_key (plain_key k @ r) = Some (k, r)"
  by (simp add: read_plain_key_def plain_key_def read_plain_ok)

lemma plain_letters: "b \<in> set (plain bs) \<Longrightarrow> 65 \<le> unat b \<and> unat b \<le> 90"
proof -
  have "65 \<le> unat (word_of_nat (65 + n) :: byte) \<and> unat (word_of_nat (65 + n) :: byte) \<le> 90" if "n < 16" for n
    using that by (simp only: unat_byte_of_nat) simp
  moreover have "unat b div 16 < 16" "unat b mod 16 < 16" for b :: byte using unat_lt [of b] by simp_all
  ultimately show "b \<in> set (plain bs) \<Longrightarrow> 65 \<le> unat b \<and> unat b \<le> 90" unfolding plain_def by fastforce
qed

lemma plain_list_letters:
  "\<forall>x. \<forall>b \<in> set (g x). 65 \<le> unat b \<and> unat b \<le> 90 \<Longrightarrow> b \<in> set (plain_list g xs) \<Longrightarrow> 65 \<le> unat b \<and> unat b \<le> 90"
  by (induction xs) auto

lemma plain_one_line: "one_line (plain_list plain_op ops)"
proof -
  have letters: "65 \<le> unat b \<and> unat b \<le> 90" if "b \<in> set (plain_list plain_op ops)" for b
    by (rule plain_list_letters [OF _ that]) (use plain_letters in \<open>auto simp: plain_op_def\<close>)
  then have "\<forall>b \<in> set (plain_list plain_op ops). b < 0x80" by (auto simp: word_less_nat_alt dest!: letters)
  then have "str_ok (plain_list plain_op ops)" by (rule ascii_str_ok)
  moreover have "10 \<notin> set (plain_list plain_op ops)" "13 \<notin> set (plain_list plain_op ops)"
    using letters [of 10] letters [of 13] by auto
  ultimately show ?thesis using length_plain_list [of ops plain_op] by (auto simp: one_line_def)
qed

interpretation plain: dataset_json plain_json
proof
  fix ops :: "operation list" and ks :: "key list" and ids t
  show "list_all op_strings_ok ops \<Longrightarrow>
      \<exists>text. lj_operations plain_json ops = Inr text \<and> one_line text \<and> lj_parse_operations plain_json text = Inr ops"
    using length_plain_list [of ops plain_op]
    by (simp add: plain_json_def plain_one_line read_plain_list_ok read_plain_op_ok)
  show "lj_parse_operations plain_json t = Inr ops \<Longrightarrow> list_all op_strings_ok ops"
    by (simp add: plain_json_def split: option.splits if_splits)
  show "\<exists>text. lj_keys plain_json ks = Inr text \<and> lj_parse_keys plain_json text = Inr ks"
    using length_plain_list [of ks plain_key] by (simp add: plain_json_def read_plain_list_ok read_plain_key_ok)
  show "\<exists>text. lj_ids plain_json ids = Inr text" by (simp add: plain_json_def)
qed


section \<open>The properties\<close>

text \<open>
  A prepared dataset is the whole run.  With positive batch size, owners and SKUs and a run
  name that is an identifier of at most 107 bytes, \<open>prepare\<close> writes a file that the reader of
  the write load takes apart into payloads that parse to the batches of the run: together the
  operations 0 to \<open>amount - 1\<close> in order, each of them once and with an id of its own, none of
  the batches empty or larger than asked for, and every operation one that the service accepts.
\<close>
theorem dataset_roundtrip:
  assumes "dataset_json json" "prep_required env ''PREPARED_DATASET'' = Inr path" "create path = Inr ()"
    and "prep_number env ''LOAD_OPERATIONS'' 1000000 = Inr amount" "prep_number env ''LOAD_BATCH_SIZE'' 1000 = Inr batch"
    and "prep_number env ''LOAD_OWNERS'' 10000 = Inr owners" "prep_number env ''LOAD_SKUS'' 1000 = Inr skus"
    and "0 < amount" "0 < batch" "0 < owners" "0 < skus" "amount + batch \<le> 2 ^ 64"
    and "run = env_value env ''LOAD_RUN_ID'' ''prepared-1''" "str_ok run" "identifier_ok run" "length run \<le> 107"
  shows "\<exists>content texts chunks. prepare json env create = Inr (path, content)
    \<and> (\<forall>open_file. open_file path = Inr content \<longrightarrow> load_write_dataset json env open_file = Inr (texts, amount))
    \<and> list_all2 (\<lambda>t c. lj_parse_operations json t = Inr c) texts chunks
    \<and> concat chunks = map (op_of run owners skus) [0 ..< amount]
    \<and> (\<forall>c \<in> set chunks. 1 \<le> length c \<and> length c \<le> batch \<and> (\<forall>op \<in> set c. validate op = Inr ()))
    \<and> distinct (map operation_id (concat chunks))"
proof -
  let ?chunks = "run_batches run owners skus amount batch"
  from prepare_ok [where create = create and path = path, OF assms(1-7,9-16)] obtain texts where
    p: "prepare json env create = Inr (path, concat (map (\<lambda>t. t @ [10]) texts))"
    "list_all2 (\<lambda>t c. one_line t \<and> lj_parse_operations json t = Inr c) texts ?chunks" by blast
  have ops: "concat ?chunks = map (op_of run owners skus) [0 ..< amount]" by (rule concat_run_batches [OF assms(9,12)])
  have "load_write_dataset json env open_file = Inr (texts, amount)"
    if "open_file path = Inr (concat (map (\<lambda>t. t @ [10]) texts))" for open_file
  proof -
    have "list_all2 (\<lambda>(t, c) p. Inr t = (Inr p :: bytes result)) (zip texts ?chunks) texts"
      using list_all2_lengthD [OF p(2)] by (simp add: list_all2_conv_all_nth)
    from read_dataset_ok [where open_file = open_file and path = path and payload_of = "\<lambda>line operations. Inr line", OF assms(2) that p(2) this] ops assms(8) show ?thesis
      by (simp add: load_write_dataset_def del: length_concat)
  qed
  moreover have "list_all2 (\<lambda>t c. lj_parse_operations json t = Inr c) texts ?chunks" using p(2) by (rule list_all2_mono) simp
  moreover have "\<forall>c \<in> set ?chunks. 1 \<le> length c \<and> length c \<le> batch \<and> (\<forall>op \<in> set c. validate op = Inr ())"
  proof (intro ballI conjI)
    fix c op
    assume c: "c \<in> set ?chunks"
    show "1 \<le> length c" "length c \<le> batch" using run_batches_sizes [OF assms(9,12) c] by simp_all
    assume "op \<in> set c"
    with c ops have "op \<in> set (map (op_of run owners skus) [0 ..< amount])" by (metis UN_I set_concat)
    then obtain i where "i < amount" "op = op_of run owners skus i" by auto
    with op_of_ok [OF assms(14-16), of i] assms(12) show "validate op = Inr ()" by (simp add: validate_iff)
  qed
  moreover have "distinct (map operation_id (concat ?chunks))"
    unfolding ops by (simp add: distinct_map inj_on_def op_of_id)
  ultimately show ?thesis using p(1) ops by blast
qed

text \<open>
  The mixed load is one fifth writes.  Of a dataset with \<open>amount\<close> operations the plan writes
  the first fifth, under new ids, and reads the positions of the first four fifths, in order, and
  nothing else; the payloads of both kinds are sent in order, and four reads go before every
  write as long as there are reads.
\<close>
theorem mixed_plan_exact:
  assumes "dataset_json json" "prep_required env ''PREPARED_DATASET'' = Inr path"
    and "open_file path = Inr (concat (map (\<lambda>t. t @ [10]) texts))"
    and "list_all2 (\<lambda>t c. one_line t \<and> lj_parse_operations json t = Inr c) texts chunks" "concat chunks \<noteq> []"
    and "amount = length (concat chunks)" "run = env_value env ''LOAD_RUN_ID'' ''mixed-1''" "str_ok run"
  shows "\<exists>plan writes reads. mixed_plan json env open_file = Inr (amount div 5, amount - amount div 5, plan)
    \<and> list_all2 (\<lambda>t c. lj_parse_operations json t = Inr c) (map snd (filter fst plan)) writes
    \<and> concat writes = map (renamed run) (take (amount div 5) (concat chunks))
    \<and> list_all2 (\<lambda>t c. lj_parse_keys json t = Inr c) (map snd (filter (\<lambda>x. \<not> fst x) plan)) reads
    \<and> concat reads = map key_of (take (amount - amount div 5) (concat chunks))
    \<and> (\<forall>as w bs. plan = as @ (True, w) # bs \<longrightarrow> length (filter (\<lambda>x. \<not> fst x) as)
          = min (4 * Suc (length (filter fst as))) (length reads))"
proof -
  have chunks: "list_all2 (\<lambda>p c. lj_parse_operations json p = Inr c) texts chunks" using assms(4) by (rule list_all2_mono) simp
  have "list_all op_strings_ok c" if "c \<in> set chunks" for c
    using that chunks dataset_json.parsed_strings [OF assms(1)] by (auto simp: list_all2_conv_all_nth in_set_conv_nth)
  then have strings: "list_all key_strings_ok (concat (map (map key_of) chunks))"
    by (auto simp: list_all_iff key_strings_ok_def op_strings_ok_def key_of_def)
  from dataset_json.load_dataset_ok [where open_file = open_file and path = path, OF assms(1-5) strings] obtain keys where ld:
    "load_dataset json env open_file = Inr (texts, keys, amount)"
    "list_all2 (\<lambda>p c. lj_parse_keys json p = Inr c) keys (map (map key_of) chunks)" unfolding assms(6) by blast
  from dataset_json.mixed_writes_ok [OF assms(1) chunks assms(8) le0, of "amount div 5"] obtain wt ws where w:
    "mixed_writes json run (amount div 5) texts 0 = Inr wt"
    "list_all2 (\<lambda>t c. lj_parse_operations json t = Inr c) wt ws"
    "concat ws = map (renamed run) (take (amount div 5) (concat chunks))" by auto
  from dataset_json.mixed_reads_ok [OF assms(1) ld(2) strings le0, of "amount - amount div 5"] obtain rt rs where r:
    "mixed_reads json (amount - amount div 5) keys 0 = Inr rt"
    "list_all2 (\<lambda>t c. lj_parse_keys json t = Inr c) rt rs"
    "concat rs = map key_of (take (amount - amount div 5) (concat chunks))"
    by (auto simp: map_concat [symmetric] take_map)
  have "mixed_plan json env open_file = Inr (amount div 5, amount - amount div 5, schedule rt wt)"
    using ld(1) assms(7) w(1) r(1) by (simp add: mixed_plan_def Let_def)
  moreover have "length rs = length rt" using list_all2_lengthD [OF r(2)] by simp
  ultimately show ?thesis
    using w(2,3) r(2,3) schedule_turns [of rt wt]
    by (intro exI [of _ "schedule rt wt"] exI [of _ ws] exI [of _ rs]) (simp add: schedule_kinds)
qed

text \<open>
  The percentile of sorted samples is one of them, no index is out of range, and its rank is the
  one asked for: at most \<open>p\<close> percent of the steps between the samples lie below it, more than
  that when its equals count.
\<close>

theorem percentile_rank:
  assumes "sorted values" "values \<noteq> []" "p \<le> 100"
  shows "percentile values p \<in> set values
    \<and> 100 * length (filter (\<lambda>v. v < percentile values p) values) \<le> (length values - 1) * p
    \<and> (length values - 1) * p < 100 * length (filter (\<lambda>v. v \<le> percentile values p) values)
    \<and> pct values p = percentile values p"
proof -
  let ?k = "(length values - 1) * p div 100"
  note rank = percentile_rank_aux [OF assms refl]
  have v: "percentile values p = values ! ?k" using assms(2) by (simp add: percentile_def)
  have "100 * ?k \<le> (length values - 1) * p" by simp
  with mult_le_mono2 [OF rank(2), of 100] have
    "100 * length (filter (\<lambda>v. v < values ! ?k) values) \<le> (length values - 1) * p" by (rule le_trans)
  moreover have "(length values - 1) * p < 100 * Suc ?k" using mod_less_divisor [of 100 "(length values - 1) * p"]
    mult_div_mod_eq [of 100 "(length values - 1) * p"] by (simp only: mult_Suc_right)
  moreover have "100 * Suc ?k \<le> 100 * length (filter (\<lambda>v. v \<le> values ! ?k) values)"
    using rank(3) by (intro mult_le_mono2 Suc_leI)
  ultimately show ?thesis using rank(1) unfolding v by (simp add: pct_def assms(2))
qed


section \<open>A run of five operations\<close>

definition sample_load_env :: environment where
  "sample_load_env = [''PREPARED_DATASET'' \<mapsto> ascii ''d'', ''LOAD_OPERATIONS'' \<mapsto> ascii (decimal 5)]"

lemma sample_load_env_facts:
  "prep_required sample_load_env ''PREPARED_DATASET'' = Inr (ascii ''d'')"
  "prep_number sample_load_env ''LOAD_OPERATIONS'' 1000000 = Inr 5"
  "prep_number sample_load_env ''LOAD_BATCH_SIZE'' 1000 = Inr 1000"
  "prep_number sample_load_env ''LOAD_OWNERS'' 10000 = Inr 10000"
  "prep_number sample_load_env ''LOAD_SKUS'' 1000 = Inr 1000"
  by (simp_all add: sample_load_env_def prep_required_def prep_number_def env_value_def parse_decimal unat_of_nat)

lemma sample_run_name:
  "env_value sample_load_env ''LOAD_RUN_ID'' fallback = ascii fallback" "str_ok (ascii ''prepared-1'')"
  "identifier_ok (ascii ''prepared-1'')" "length (ascii ''prepared-1'') \<le> 107" "str_ok (ascii ''mixed-1'')"
proof -
  have run: "ascii_only ''prepared-1''" "ascii_only ''mixed-1''" by (simp_all add: ascii_only_def)
  show "env_value sample_load_env ''LOAD_RUN_ID'' fallback = ascii fallback" by (simp add: sample_load_env_def env_value_def)
  show "str_ok (ascii ''prepared-1'')" "str_ok (ascii ''mixed-1'')" using run by (simp_all only: ascii_str_facts)
  show "identifier_ok (ascii ''prepared-1'')" unfolding identifier_ok_ascii [OF run(1)] by (simp add: is_whitespace_def is_control_def)
qed simp

lemma dataset_roundtrip_witness:
  "\<exists>content texts. prepare plain_json sample_load_env (\<lambda>_. Inr ()) = Inr (ascii ''d'', content)
    \<and> load_write_dataset plain_json sample_load_env (\<lambda>_. Inr content) = Inr (texts, 5)"
proof -
  have n: "0 < (5 :: nat)" "0 < (1000 :: nat)" "0 < (10000 :: nat)" "5 + 1000 \<le> (2 ^ 64 :: nat)" by simp_all
  from dataset_roundtrip [where create = "\<lambda>_. Inr ()" and path = "ascii ''d''", OF plain.dataset_json_axioms sample_load_env_facts(1) refl
      sample_load_env_facts(2-5) n(1,2,3,2,4) sample_run_name(1) [symmetric] sample_run_name(2-4)]
  obtain content texts where "prepare plain_json sample_load_env (\<lambda>_. Inr ()) = Inr (ascii ''d'', content)"
    and readers: "\<forall>open_file. open_file (ascii ''d'') = Inr content \<longrightarrow> load_write_dataset plain_json sample_load_env open_file = Inr (texts, 5)"
    by (elim exE conjE) (rule that)
  moreover have "load_write_dataset plain_json sample_load_env (\<lambda>_. Inr content) = Inr (texts, 5)" using readers by simp
  ultimately show ?thesis by blast
qed

lemma mixed_plan_exact_witness:
  "\<exists>content plan. prepare plain_json sample_load_env (\<lambda>_. Inr ()) = Inr (ascii ''d'', content)
    \<and> mixed_plan plain_json sample_load_env (\<lambda>_. Inr content) = Inr (1, 4, plan) \<and> filter fst plan \<noteq> []"
proof -
  let ?chunks = "run_batches (ascii ''prepared-1'') 10000 1000 5 1000"
  have n: "0 < (1000 :: nat)" "0 < (10000 :: nat)" "5 + 1000 \<le> (2 ^ 64 :: nat)" by simp_all
  have five: "concat ?chunks = map (op_of (ascii ''prepared-1'') 10000 1000) [0 ..< 5]" by (rule concat_run_batches [OF n(1,3)])
  then have ne: "concat ?chunks \<noteq> []" "length (concat ?chunks) = 5" by (simp_all del: length_concat concat_eq_Nil_conv upt_rec_numeral)
  from prepare_ok [where create = "\<lambda>_. Inr ()" and path = "ascii ''d''", OF plain.dataset_json_axioms sample_load_env_facts(1) refl
      sample_load_env_facts(2-5) n(1,2,1,3) sample_run_name(1) [symmetric] sample_run_name(2-4)]
  obtain texts where p: "prepare plain_json sample_load_env (\<lambda>_. Inr ()) = Inr (ascii ''d'', concat (map (\<lambda>t. t @ [10]) texts))"
    "list_all2 (\<lambda>t c. one_line t \<and> lj_parse_operations plain_json t = Inr c) texts ?chunks" by blast
  from mixed_plan_exact [where open_file = "\<lambda>_. Inr (concat (map (\<lambda>t. t @ [10]) texts))" and path = "ascii ''d''",
      OF plain.dataset_json_axioms sample_load_env_facts(1) refl p(2) ne(1) ne(2) [symmetric] sample_run_name(1) [symmetric]
        sample_run_name(5)]
  obtain plan ws where m: "mixed_plan plain_json sample_load_env (\<lambda>_. Inr (concat (map (\<lambda>t. t @ [10]) texts))) = Inr (1, 4, plan)"
    "list_all2 (\<lambda>t c. lj_parse_operations plain_json t = Inr c) (map snd (filter fst plan)) ws"
    "concat ws = map (renamed (ascii ''mixed-1'')) (take 1 (concat ?chunks))" by auto
  have "length (concat ws) = 1" unfolding m(3) five by (simp del: upt_rec_numeral length_concat)
  then have "filter fst plan \<noteq> []" using m(2) by auto
  with p(1) m(1) show ?thesis by blast
qed

end
