(* ===== verification/LoadClients.thy ===== *)
theory LoadClients
  imports LoadData ReadHandlers
begin

text \<open>
  The HTTP clients of the load generators: the retry loop of \<open>loadgen.rs\<close>, \<open>post_json\<close> and
  \<open>get_page\<close> of \<open>prepared_loadgen.rs\<close>, the loop over the pages, and the totals both report; and
  these clients together with the handlers.  A request is a step of the state \<open>'s\<close> of everything
  beyond the client.  Requests are sent one after the other (concurrency 1); times are
  milliseconds, and a send takes as long as its state says.
\<close>

section \<open>The code\<close>

subsection \<open>Replies\<close>

text \<open>
  A reply is a success, whose body may still be unreadable, another status, or no answer at all
  (\<open>send\<close> fails).
\<close>

datatype 'a http_reply = Success "'a result" | Status nat | NoAnswer

definition http_status :: "nat \<Rightarrow> error" where
  "http_status code = Msg (''HTTP status '' @ decimal code)"

subsection \<open>A batch of loadgen.rs\<close>

text \<open>Server errors and lost answers are retried \<open>max_retries\<close> times, a refusal is not.\<close>

function send_batch :: "('s \<Rightarrow> 'a http_reply \<times> 's) \<Rightarrow> nat \<Rightarrow> nat \<Rightarrow> 's \<Rightarrow> ('a \<times> nat) result \<times> 's" where
  "send_batch send max_retries retries s =
     (let (reply, s') = send s in
      case reply of
        Success body \<Rightarrow> (rbind body (\<lambda>results. Inr (results, retries)), s')
      | Status code \<Rightarrow>
          if \<not> (500 \<le> code \<and> code < 600) then (Inl (http_status code), s')
          else if retries < max_retries then send_batch send max_retries (retries + 1) s'
          else (Inl (http_status code), s')
      | NoAnswer \<Rightarrow>
          if retries < max_retries then send_batch send max_retries (retries + 1) s' else (Inl IoError, s'))"
  by pat_completeness auto
termination by (relation "measure (\<lambda>(send, max_retries, retries, s). max_retries - retries)") auto

declare send_batch.simps [simp del]

record run_totals =
  rt_completed :: nat
  rt_applied :: nat
  rt_duplicates :: nat
  rt_retried :: nat

text \<open>The results of the tasks are added up in the order in which the tasks end.\<close>

definition add_batch :: "(string list \<times> nat) result \<Rightarrow> run_totals \<Rightarrow> run_totals result" where
  "add_batch outcome t =
     rbind outcome (\<lambda>(results, retries).
       let applied = length (filter (\<lambda>status. status = ''applied'') results); duplicate = length results - applied in
       Inr \<lparr>rt_completed = rt_completed t + length results, rt_applied = rt_applied t + applied,
            rt_duplicates = rt_duplicates t + duplicate, rt_retried = rt_retried t + retries\<rparr>)"

text \<open>
  A zero for \<open>owners\<close> or \<open>skus\<close> makes every task panic before it sends anything.  All tasks are started before the first result is looked at, so that a failed batch does not
  keep back the next ones.
\<close>

fun send_all :: "(operation list \<Rightarrow> 's \<Rightarrow> 'a http_reply \<times> 's) \<Rightarrow> nat \<Rightarrow> operation list list \<Rightarrow> 's
    \<Rightarrow> ('a \<times> nat) result list \<times> 's" where
  "send_all send max_retries [] s = ([], s)"
| "send_all send max_retries (b # bs) s =
     (let (r, s') = send_batch (send b) max_retries 0 s; (rs, s'') = send_all send max_retries bs s' in (r # rs, s''))"

definition loadgen ::
  "environment \<Rightarrow> (operation list \<Rightarrow> 's \<Rightarrow> string list http_reply \<times> 's) \<Rightarrow> 's \<Rightarrow> run_totals result \<times> 's" where
  "loadgen env send s =
     (case rbind (load_number env ''LOAD_OPERATIONS'' 1000000) (\<lambda>amount.
           rbind (load_number env ''LOAD_BATCH_SIZE'' 1000) (\<lambda>batch_size.
           rbind (load_number env ''LOAD_CONCURRENCY'' 32) (\<lambda>concurrency.
           rbind (load_number env ''LOAD_OWNERS'' 10000) (\<lambda>owners.
           rbind (load_number env ''LOAD_SKUS'' 1000) (\<lambda>skus.
           rbind (load_number env ''LOAD_RETRIES'' 0) (\<lambda>max_retries.
           rbind (load_number env ''LOAD_RETRY_MS'' 50) (\<lambda>retry_ms.
           rbind (ensure (amount > 0 \<and> batch_size > 0 \<and> concurrency > 0)
             (Msg ''LOAD_OPERATIONS, LOAD_BATCH_SIZE and LOAD_CONCURRENCY must be positive'')) (\<lambda>_.
           let run_id = env_value env ''LOAD_RUN_ID'' ''baseline-1'' in
           rbind (collect_results (\<lambda>start. load_batch run_id owners skus (batch_indices amount batch_size start))
             (step_by 0 amount batch_size)) (\<lambda>batches.
           Inr (batches, max_retries)))))))))) of
        Inl e \<Rightarrow> (Inl e, s)
      | Inr (batches, max_retries) \<Rightarrow>
          (let (outcomes, s') = send_all send max_retries batches s in
           (for_each add_batch outcomes \<lparr>rt_completed = 0, rt_applied = 0, rt_duplicates = 0, rt_retried = 0\<rparr>, s')))"

subsection \<open>The requests of prepared\_loadgen.rs\<close>

definition gateway_status :: "nat \<Rightarrow> bool" where
  "gateway_status code \<longleftrightarrow> code = 502 \<or> code = 503 \<or> code = 504"

definition retry_delay :: "nat \<Rightarrow> nat" where
  "retry_delay attempt = min (25 * 2 ^ min attempt 4) 500"

text \<open>The upper limit of half a second is never the smaller one.\<close>

lemma retry_delay_cases: "retry_delay attempt \<in> {25, 50, 100, 200, 400}"
proof -
  have "min attempt 4 = 0 \<or> min attempt 4 = 1 \<or> min attempt 4 = 2 \<or> min attempt 4 = 3 \<or> min attempt 4 = 4"
    unfolding min_def by arith
  then show ?thesis by (elim disjE) (simp_all add: retry_delay_def)
qed

lemma retry_delay_bounds: "25 \<le> retry_delay attempt" "retry_delay attempt \<le> 400"
  using retry_delay_cases [of attempt] by auto

lemma retry_delay_pos [simp]: "0 < retry_delay attempt"
  using retry_delay_bounds(1) [of attempt] by simp

text \<open>
  \<open>post_json\<close> repeats a request until the deadline; \<open>regional_rtt_ms\<close> is slept before each
  attempt.  A send also gives the time it took.
\<close>

function post_json ::
  "('s \<Rightarrow> 'a http_reply \<times> nat \<times> 's) \<Rightarrow> nat \<Rightarrow> nat \<Rightarrow> nat \<Rightarrow> nat \<Rightarrow> 's \<Rightarrow> 'a result \<times> nat \<times> 's" where
  "post_json send regional_rtt_ms retry_deadline now attempt s =
     (let (reply, took, s') = send s; now' = now + regional_rtt_ms + took in
      case reply of
        Success body \<Rightarrow> (body, now', s')
      | Status code \<Rightarrow>
          if \<not> gateway_status code \<or> now' \<ge> retry_deadline then (Inl (http_status code), now', s')
          else post_json send regional_rtt_ms retry_deadline (now' + retry_delay attempt) (min (attempt + 1) (2 ^ 32 - 1)) s'
      | NoAnswer \<Rightarrow>
          if now' \<ge> retry_deadline then (Inl IoError, now', s')
          else post_json send regional_rtt_ms retry_deadline (now' + retry_delay attempt) (min (attempt + 1) (2 ^ 32 - 1)) s')"
  by pat_completeness auto
termination
  by (relation "measure (\<lambda>(send, rtt, deadline, now, attempt, s). deadline - now)")
    (auto intro!: diff_less_mono2 simp: add_pos_nonneg)

declare post_json.simps [simp del]

text \<open>\<open>get_page\<close> makes seven attempts; \<open>None\<close> stands for its \<open>unreachable!()\<close>.\<close>

function get_page :: "('s \<Rightarrow> 'a http_reply \<times> 's) \<Rightarrow> nat \<Rightarrow> 's \<Rightarrow> 'a result option \<times> 's" where
  "get_page send attempt s =
     (if attempt > 6 then (None, s)
      else
        (let (reply, s') = send s in
         case reply of
           Success body \<Rightarrow> (Some body, s')
         | Status code \<Rightarrow>
             if \<not> gateway_status code \<or> attempt = 6 then (Some (Inl (http_status code)), s') else get_page send (attempt + 1) s'
         | NoAnswer \<Rightarrow> if attempt = 6 then (Some (Inl IoError), s') else get_page send (attempt + 1) s'))"
  by pat_completeness auto
termination by (relation "measure (\<lambda>(send, attempt, s). 7 - attempt)") auto

declare get_page.simps [simp del]

text \<open>The loop of \<open>read_load\<close>: it ends with the first page without cursor, which may never come.\<close>

partial_function (option) read_pages ::
  "(bytes option \<Rightarrow> 's \<Rightarrow> history_page http_reply \<times> 's) \<Rightarrow> bytes option \<Rightarrow> nat \<Rightarrow> 's \<Rightarrow> (nat result \<times> 's) option" where
  "read_pages send cursor completed s =
     (case get_page (send cursor) 0 s of
        (Some (Inr p), s') \<Rightarrow>
          (case hp_next_cursor p of
             None \<Rightarrow> Some (Inr (completed + length (hp_operations p)), s')
           | Some c \<Rightarrow> read_pages send (Some c) (completed + length (hp_operations p)) s')
      | (Some (Inl e), s') \<Rightarrow> Some (Inl e, s')
      | (None, s') \<Rightarrow> Some (Inl (Msg ''internal error: entered unreachable code''), s'))"

definition read_load ::
  "load_json \<Rightarrow> environment \<Rightarrow> (bytes \<Rightarrow> bytes result) \<Rightarrow> (bytes option \<Rightarrow> 's \<Rightarrow> history_page http_reply \<times> 's) \<Rightarrow> 's
     \<Rightarrow> (nat result \<times> 's) option" where
  "read_load json env open_file send s =
     (case load_read_dataset json env open_file of
        Inl e \<Rightarrow> Some (Inl e, s)
      | Inr (_, amount) \<Rightarrow>
          map_option (\<lambda>(r, s'). (rbind r (\<lambda>completed.
            rbind (ensure (completed = amount) (Msg (''completed '' @ decimal completed @ '' instead of '' @ decimal amount)))
              (\<lambda>_. Inr completed)), s')) (read_pages send None 0 s))"

text \<open>\<open>finish\<close> and the end of \<open>mixed_load\<close>: the answers of the tasks must have as many elements as were asked for.\<close>

definition finish_load :: "nat \<Rightarrow> 'a list result list \<Rightarrow> nat result" where
  "finish_load expected answers =
     rbind (for_each (\<lambda>answer completed. rbind answer (\<lambda>xs. Inr (completed + length xs))) answers 0) (\<lambda>completed.
     rbind (ensure (completed = expected) (Msg (''completed '' @ decimal completed @ '' instead of '' @ decimal expected))) (\<lambda>_.
     Inr completed))"

definition finish_mixed :: "nat \<Rightarrow> nat \<Rightarrow> (bool \<times> 'a list result) list \<Rightarrow> (nat \<times> nat) result" where
  "finish_mixed write_target read_target answers =
     rbind (for_each (\<lambda>(is_write, answer) (writes, read). rbind answer (\<lambda>xs.
              Inr (if is_write then (writes + length xs, read) else (writes, read + length xs)))) answers (0, 0)) (\<lambda>(writes, read).
     rbind (ensure (writes = write_target \<and> read = read_target)
              (Msg (''mixed counts differ: writes='' @ decimal writes @ '', reads='' @ decimal read))) (\<lambda>_.
     Inr (writes, read)))"

section \<open>Repeated requests\<close>

text \<open>
  What a client that repeats a request needs of the server: an invariant \<open>inv\<close>, and an
  \<open>effect\<close> that an answered request has had and that a repetition does not undo.
\<close>

locale repeatable =
  fixes send :: "'s \<Rightarrow> 'a http_reply \<times> 's" and inv :: "'s \<Rightarrow> bool" and effect :: "'s \<Rightarrow> bool" and good_answer :: "'a \<Rightarrow> bool"
  assumes kept: "inv s \<Longrightarrow> inv (snd (send s))"
    and success: "inv s \<Longrightarrow> fst (send s) = Success (Inr x) \<Longrightarrow> effect (snd (send s)) \<and> good_answer x"
begin

lemma send_batch_safe:
  "inv s \<Longrightarrow> retries \<le> max_retries \<Longrightarrow> send_batch send max_retries retries s = (r, s') \<Longrightarrow>
     inv s' \<and> (\<forall>x k. r = Inr (x, k) \<longrightarrow> effect s' \<and> good_answer x \<and> k \<le> max_retries)"
proof (induction "max_retries - retries" arbitrary: retries s rule: less_induct)
  case less
  obtain reply s1 where st: "send s = (reply, s1)" by fastforce
  have s1: "inv s1" using kept [OF less.prems(1)] st by simp
  have again: ?case if "retries < max_retries" "send_batch send max_retries (retries + 1) s1 = (r, s')"
    by (rule less.hyps [OF _ s1 _ that(2)]) (use that(1) in simp_all)
  show ?case
  proof (cases reply)
    case (Success body)
    with less.prems st s1 success [OF less.prems(1)] show ?thesis
      by (cases body) (auto simp: send_batch.simps [of send max_retries retries])
  next
    case (Status code)
    with less.prems st s1 again show ?thesis
      by (auto simp: send_batch.simps [of send max_retries retries] split: if_splits)
  next
    case NoAnswer
    with less.prems st s1 again show ?thesis
      by (auto simp: send_batch.simps [of send max_retries retries] split: if_splits)
  qed
qed

text \<open>The client with a deadline; how long each request takes does not matter.\<close>

lemma post_json_safe:
  assumes timed: "\<And>s. \<exists>t. timed_send s = (fst (send s), t, snd (send s))"
  shows "inv s \<Longrightarrow> post_json timed_send rtt deadline now attempt s = (r, t, s') \<Longrightarrow>
     inv s' \<and> (\<forall>x. r = Inr x \<longrightarrow> effect s' \<and> good_answer x)"
proof (induction "deadline - now" arbitrary: now attempt s rule: less_induct)
  case less
  obtain took where st: "timed_send s = (fst (send s), took, snd (send s))" using timed [of s] by blast
  have s1: "inv (snd (send s))" by (rule kept [OF less.prems(1)])
  have again: ?case if "now + rtt + took < deadline"
    "post_json timed_send rtt deadline (now + rtt + took + retry_delay attempt) (min (attempt + 1) (2 ^ 32 - 1)) (snd (send s)) = (r, t, s')"
    by (rule less.hyps [OF _ s1 that(2)]) (use that(1) retry_delay_pos [of attempt] in linarith)
  note unfolded = less.prems(2) [unfolded post_json.simps [of timed_send rtt deadline now] st]
  show ?case
  proof (cases "fst (send s)")
    case (Success body)
    with unfolded s1 success [OF less.prems(1)] show ?thesis by (cases body) auto
  next
    case (Status code)
    with unfolded s1 again show ?thesis by (auto simp: Let_def not_le split: if_splits)
  next
    case NoAnswer
    with unfolded s1 again show ?thesis by (auto simp: Let_def not_le split: if_splits)
  qed
qed

end

section \<open>The handler as the server\<close>

fun status_number :: "status_code \<Rightarrow> nat" where
  "status_number BAD_REQUEST = 400"
| "status_number NOT_FOUND = 404"
| "status_number CONFLICT = 409"
| "status_number SERVICE_UNAVAILABLE = 503"

fun status_text :: "apply_status \<Rightarrow> string" where
  "status_text Applied = ''applied''"
| "status_text Duplicate = ''duplicate''"

definition reply_of :: "('b \<Rightarrow> 'a) \<Rightarrow> 'b outcome \<Rightarrow> 'a http_reply" where
  "reply_of f out =
     (case out of
        Answer (Inr x) \<Rightarrow> Success (Inr (f x))
      | Answer (Inl (code, _)) \<Rightarrow> Status (status_number code)
      | Waiting \<Rightarrow> NoAnswer
      | Aborted \<Rightarrow> NoAnswer)"

text \<open>
  What happens to an attempt: it is lost on the way to the node, or it is served with the
  surroundings of a request and its answer is delivered or not.
\<close>

datatype attempt = Lost | Served request_env bool

fun node_send ::
  "(bytes \<Rightarrow> bytes) \<Rightarrow> (bytes \<Rightarrow> bytes \<Rightarrow> u64) \<Rightarrow> 'd index_api \<Rightarrow> 'l log_api \<Rightarrow> operation list
     \<Rightarrow> ('d, 'l) node \<times> attempt list \<Rightarrow> string list http_reply \<times> ('d, 'l) node \<times> attempt list" where
  "node_send sha hash dapi api ops (nd, []) = (NoAnswer, nd, [])"
| "node_send sha hash dapi api ops (nd, Lost # as) = (NoAnswer, nd, as)"
| "node_send sha hash dapi api ops (nd, Served env delivered # as) =
     (let (out, nd') = apply_batch sha hash dapi api env (Inr ops) nd in
      (if delivered then reply_of (map (\<lambda>r. status_text (res_status r))) out else NoAnswer, nd', as))"

definition attempts_up :: "attempt list \<Rightarrow> bool" where
  "attempts_up as \<longleftrightarrow> (\<forall>env delivered. Served env delivered \<in> set as \<longrightarrow> (\<forall>i. rq_up env i))"

lemma attempts_up_simps [simp]:
  "attempts_up []" "attempts_up (Lost # as) = attempts_up as"
  "attempts_up (Served env delivered # as) \<longleftrightarrow> (\<forall>i. rq_up env i) \<and> attempts_up as"
  by (auto simp: attempts_up_def)

text \<open>A batch has no effect yet, or it has had its effect once.\<close>

definition at_most_once :: "(bytes \<Rightarrow> bytes) \<Rightarrow> operation list \<Rightarrow> replay_state \<Rightarrow> replay_state \<Rightarrow> bool" where
  "at_most_once sha ops st st' \<longleftrightarrow> st' = st \<or> replay_batch sha ops st = Some st'"

lemma replay_again:
  assumes "at_most_once sha ops st st'" "inj_on sha (operation_id ` set ops)" "replay_batch sha ops st' = Some st''"
  shows "replay_batch sha ops st = Some st''"
proof (cases "st' = st")
  case False
  with assms(1) have st': "replay_batch sha ops st = Some st'" by (simp add: at_most_once_def)
  obtain L B L' B' where p: "st = (L, B)" "st' = (L', B')" by fastforce
  from replay_batch_settles [OF st' [unfolded p] assms(2)] have "replay_batch sha ops st' = Some st'"
    unfolding p by (rule settled_replay)
  with st' assms(3) show ?thesis by simp
qed (use assms(3) in simp)

context dedup_index
begin

lemma served_attempt:
  assumes ok: "live_ok hash lookup good (nd_store nd)" and inj: "inj_on sha (operation_id ` set ops)"
    and len: "\<And>x. length (sha x) = 32" and up: "\<And>i. rq_up env i"
  shows "\<exists>out nd'. apply_batch sha hash api lapi env (Inr ops) nd = (Answer out, nd') \<and> live_ok hash lookup good (nd_store nd')
    \<and> (case out of
         Inl e \<Rightarrow> live_abs hash lookup (nd_store nd') = live_abs hash lookup (nd_store nd)
       | Inr results \<Rightarrow> length results = length ops
           \<and> replay_batch sha ops (live_abs hash lookup (nd_store nd)) = Some (live_abs hash lookup (nd_store nd')))"
proof (cases "\<exists>epoch. admitted env epoch ops")
  case True
  then obtain epoch where adm: "admitted env epoch ops" ..
  from apply_batch_ok [OF ok adm inj len up, of lapi] obtain out nd' where
    run: "apply_batch sha hash api lapi env (Inr ops) nd = (Answer out, nd')" "live_ok hash lookup good (nd_store nd')"
    and spec: "write_spec sha env ops (replication_of sha lapi env epoch
        (fresh_of sha (fst (live_abs hash lookup (nd_store nd))) ops) (nd_log nd)) (nd_log nd)
      (served_abs hash lookup (nd_store nd)) out (nd_log nd') (served_abs hash lookup (nd_store nd'))" by blast
  show ?thesis
  proof (cases out)
    case (Inl e)
    with write_spec_Inl [OF spec [unfolded Inl]] run show ?thesis by (simp add: served_abs_def)
  next
    case (Inr results)
    from write_spec_Inr(3,4) [OF spec [unfolded Inr]] have "length results = length ops"
      "replay_batch sha ops (live_abs hash lookup (nd_store nd)) = Some (live_abs hash lookup (nd_store nd'))"
      by (simp_all add: served_abs_def batch_results_def)
    with run Inr show ?thesis by simp
  qed
next
  case False
  then have "\<nexists>epoch. admitted env epoch ops" by simp
  from refused_batch [OF this, of sha hash api lapi nd] ok show ?thesis by fastforce
qed

lemma node_repeatable:
  fixes lapi :: "'l log_api"
  assumes "inj_on sha (operation_id ` set ops)" "\<And>x. length (sha x) = 32"
  shows "repeatable (node_send sha hash api lapi ops)
    (\<lambda>(nd :: (_, 'l) node, as). live_ok hash lookup good (nd_store nd) \<and> attempts_up as
       \<and> at_most_once sha ops st (live_abs hash lookup (nd_store nd)))
    (\<lambda>(nd, as). replay_batch sha ops st = Some (live_abs hash lookup (nd_store nd)))
    (\<lambda>statuses. length statuses = length ops)"
proof -
  let ?inv = "\<lambda>(nd :: (_, 'l) node, as). live_ok hash lookup good (nd_store nd) \<and> attempts_up as
    \<and> at_most_once sha ops st (live_abs hash lookup (nd_store nd))"
  let ?effect = "\<lambda>(nd :: (_, 'l) node, as). replay_batch sha ops st = Some (live_abs hash lookup (nd_store nd))"
  have attempt: "?inv s' \<and> (\<forall>x. reply = Success (Inr x) \<longrightarrow> ?effect s' \<and> length x = length ops)"
    if inv: "?inv (nd, as)" and send: "node_send sha hash api lapi ops (nd, as) = (reply, s')" for nd as reply s'
  proof (cases "\<exists>env delivered as'. as = Served env delivered # as'")
    case True
    then obtain env delivered as' where as: "as = Served env delivered # as'" by blast
    from inv as have up: "\<And>i. rq_up env i" and ok: "live_ok hash lookup good (nd_store nd)" by simp_all
    from served_attempt [OF ok assms(1,2) up, of lapi] obtain out nd' where
      run: "apply_batch sha hash api lapi env (Inr ops) nd = (Answer out, nd')" "live_ok hash lookup good (nd_store nd')"
      and out: "case out of
         Inl e \<Rightarrow> live_abs hash lookup (nd_store nd') = live_abs hash lookup (nd_store nd)
       | Inr results \<Rightarrow> length results = length ops
           \<and> replay_batch sha ops (live_abs hash lookup (nd_store nd)) = Some (live_abs hash lookup (nd_store nd'))" by blast
    from send as run(1) have s': "s' = (nd', as')"
      "reply = (if delivered then reply_of (map (\<lambda>r. status_text (res_status r))) (Answer out) else NoAnswer)" by simp_all
    show ?thesis
    proof (cases out)
      case (Inl e)
      with out inv as run(2) s' show ?thesis by (auto simp: reply_of_def split: prod.splits)
    next
      case (Inr results)
      with out have o: "length results = length ops"
        "replay_batch sha ops (live_abs hash lookup (nd_store nd)) = Some (live_abs hash lookup (nd_store nd'))" by simp_all
      from replay_again [OF _ assms(1) o(2)] inv have "replay_batch sha ops st = Some (live_abs hash lookup (nd_store nd'))" by simp
      with o(1) Inr inv as run(2) s' show ?thesis by (simp add: reply_of_def at_most_once_def)
    qed
  next
    case False
    then have "as = [] \<or> (\<exists>as'. as = Lost # as')" by (cases as) (metis attempt.exhaust)+
    with inv send show ?thesis by auto
  qed
  show ?thesis
  proof
    fix s x
    assume inv: "?inv s"
    obtain nd as where s: "s = (nd, as)" by fastforce
    note result = attempt [OF inv [unfolded s] surjective_pairing, folded s]
    show "?inv (snd (node_send sha hash api lapi ops s))" by (rule conjunct1 [OF result])
    show "?effect (snd (node_send sha hash api lapi ops s)) \<and> length x = length ops"
      if "fst (node_send sha hash api lapi ops s) = Success (Inr x)"
      using conjunct2 [OF result] that by (elim allE impE) assumption
  qed
qed

end

section \<open>A whole run\<close>

lemma firsts_all:
  "distinct (map (\<lambda>op. sha (operation_id op)) ops) \<Longrightarrow> \<forall>op \<in> set ops. sha (operation_id op) \<notin> S \<Longrightarrow> firsts sha S ops = ops"
proof (induction ops arbitrary: S)
  case (Cons op ops)
  have "\<forall>x \<in> set ops. sha (operation_id x) \<notin> insert (sha (operation_id op)) S"
    using Cons.prems by (auto simp: image_iff)
  with Cons show ?case by simp
qed simp

lemma add_batches:
  "for_each add_batch outcomes t = Inr t' \<Longrightarrow>
     (\<forall>r \<in> set outcomes. is_ok r)
     \<and> rt_completed t' = rt_completed t + sum_list (map (\<lambda>r. length (fst (projr r))) outcomes)
     \<and> rt_applied t' + rt_duplicates t' + rt_completed t = rt_applied t + rt_duplicates t + rt_completed t'"
proof (induction outcomes arbitrary: t)
  case (Cons r outcomes)
  from Cons.prems obtain t1 where t1: "add_batch r t = Inr t1" "for_each add_batch outcomes t1 = Inr t'"
    by (auto simp: rbind_Inr_iff)
  moreover from t1(1) obtain x k where "r = Inr (x, k)" by (cases r) (auto simp: add_batch_def)
  ultimately have r: "r = Inr (x, k)" "add_batch r t = Inr t1" "for_each add_batch outcomes t1 = Inr t'" by simp_all
  have "rt_completed t1 = rt_completed t + length x"
    "rt_applied t1 + rt_duplicates t1 = rt_applied t + rt_duplicates t + length x"
    using r(1,2) le_trans [OF length_filter_le [of "\<lambda>status. status = ''applied''" x] le_add2 [of "length x" "rt_duplicates t"]]
    by (auto simp: add_batch_def Let_def)
  with Cons.IH [OF r(3)] r(1) show ?case by simp
qed simp

lemma send_all_length: "length (fst (send_all send max_retries bs s)) = length bs"
  by (induction bs arbitrary: s) (simp_all add: Let_def split_beta)

context dedup_index
begin

lemma send_all_node:
  assumes "\<And>x. length (sha x) = 32"
  shows "live_ok hash lookup good (nd_store nd) \<Longrightarrow> attempts_up as \<Longrightarrow> \<forall>b \<in> set bs. inj_on sha (operation_id ` set b) \<Longrightarrow>
    send_all (node_send sha hash api lapi) max_retries bs (nd, as) = (outcomes, nd', as') \<Longrightarrow>
    live_ok hash lookup good (nd_store nd') \<and>
    ((\<forall>r \<in> set outcomes. is_ok r) \<longrightarrow> map (\<lambda>r. length (fst (projr r))) outcomes = map length bs
      \<and> replay_batches sha bs (live_abs hash lookup (nd_store nd)) = Some (live_abs hash lookup (nd_store nd')))"
proof (induction bs arbitrary: nd as outcomes)
  case (Cons b bs)
  obtain r nd1 as1 where first: "send_batch (node_send sha hash api lapi b) max_retries 0 (nd, as) = (r, nd1, as1)"
    by (metis prod_cases3)
  obtain rs where more_batches: "send_all (node_send sha hash api lapi) max_retries bs (nd1, as1) = (rs, nd', as')"
    "outcomes = r # rs" using Cons.prems(4) first by (auto simp: Let_def split: prod.splits)
  have "inj_on sha (operation_id ` set b)" using Cons.prems(3) by simp
  from repeatable.send_batch_safe [OF node_repeatable [where hash = hash and st = "live_abs hash lookup (nd_store nd)",
      OF this assms] _ le0 first] Cons.prems(1,2)
  have one: "live_ok hash lookup good (nd_store nd1)" "attempts_up as1"
    "\<forall>x k. r = Inr (x, k) \<longrightarrow> replay_batch sha b (live_abs hash lookup (nd_store nd)) = Some (live_abs hash lookup (nd_store nd1))
       \<and> length x = length b" by (auto simp: at_most_once_def)
  from Cons.IH [OF one(1,2) _ more_batches(1)] Cons.prems(3) one(3) show ?case
    by (cases r) (auto simp: more_batches(2))
qed simp

end

definition run_key :: "nat \<Rightarrow> nat \<Rightarrow> nat \<Rightarrow> key" where
  "run_key owners skus i = (ascii (''owner-'' @ decimal (i mod owners)), ascii (''sku-'' @ decimal (i mod skus)))"

lemma run_delta:
  "total_delta (map (op_of run owners skus) [0 ..< n]) k = word_of_nat (card {i. i < n \<and> run_key owners skus i = k})"
proof (induction n)
  case (Suc n)
  have "{i. i < Suc n \<and> run_key owners skus i = k}
      = (if run_key owners skus n = k then insert n {i. i < n \<and> run_key owners skus i = k}
         else {i. i < n \<and> run_key owners skus i = k})"
    by (auto simp: less_Suc_eq)
  then have "card {i. i < Suc n \<and> run_key owners skus i = k}
      = (if run_key owners skus n = k then 1 else 0) + card {i. i < n \<and> run_key owners skus i = k}" by simp
  moreover have "key_of (op_of run owners skus n) = run_key owners skus n" "delta (op_of run owners skus n) = 1"
    by (simp_all add: key_of_def op_of_def run_key_def)
  ultimately show ?case using Suc by simp
qed simp

lemma loadgen_batches:
  assumes "load_number env ''LOAD_OPERATIONS'' 1000000 = Inr amount" "load_number env ''LOAD_BATCH_SIZE'' 1000 = Inr batch"
    and "load_number env ''LOAD_OWNERS'' 10000 = Inr owners" "load_number env ''LOAD_SKUS'' 1000 = Inr skus"
    and "load_number env ''LOAD_RETRIES'' 0 = Inr max_retries" "run = env_value env ''LOAD_RUN_ID'' ''baseline-1''"
    and "0 < owners" "0 < skus" "loadgen env send s = (Inr totals, s')"
  shows "0 < amount \<and> 0 < batch \<and> (\<exists>outcomes. send_all send max_retries (run_batches run owners skus amount batch) s = (outcomes, s')
    \<and> for_each add_batch outcomes \<lparr>rt_completed = 0, rt_applied = 0, rt_duplicates = 0, rt_retried = 0\<rparr> = Inr totals)"
proof -
  have batches: "collect_results (\<lambda>start. load_batch run owners skus (batch_indices amount batch start)) (step_by 0 amount batch)
      = Inr (run_batches run owners skus amount batch)"
    unfolding run_batches_def by (rule collect_results_map) (rule load_batch_ok [OF assms(7,8)])
  obtain concurrency retry_ms where "load_number env ''LOAD_CONCURRENCY'' 32 = Inr concurrency"
    "load_number env ''LOAD_RETRY_MS'' 50 = Inr retry_ms" "amount > 0 \<and> batch > 0 \<and> concurrency > 0"
    using assms(1-6,9) by (auto simp: loadgen_def rbind_def ensure_def Let_def split: sum.splits if_splits)
  with assms(1-6,9) batches show ?thesis by (auto simp: loadgen_def Let_def split: prod.splits)
qed

section \<open>Reading all pages\<close>

lemma get_page_returns: "attempt \<le> 6 \<Longrightarrow> \<exists>r s'. get_page send attempt s = (Some r, s')"
proof (induction "7 - attempt" arbitrary: attempt s)
  case (Suc n)
  obtain reply s1 where st: "send s = (reply, s1)" by fastforce
  have again: "attempt \<noteq> 6 \<Longrightarrow> \<exists>r s'. get_page send (attempt + 1) s1 = (Some r, s')"
    by (rule Suc.hyps(1)) (use Suc.hyps(2) Suc.prems in linarith)+
  with Suc.prems st show ?case by (cases reply) (auto simp: get_page.simps [of send attempt s])
qed simp

lemma get_page_success: "attempt \<le> 6 \<Longrightarrow> send s = (Success body, s') \<Longrightarrow> get_page send attempt s = (Some body, s')"
  by (simp add: get_page.simps [of send attempt s])

lemma read_pages_all:
  assumes "sorted_wrt (<) ids" "0 < limit" "\<And>i. i \<in> set ids \<Longrightarrow> operation_id (f i) = i"
    and "\<And>cursor. send cursor s = (Success (Inr (history_page_of
          (map f (take limit (filter (\<lambda>i. \<not> at_or_before cursor i) ids))) limit)), s)"
  shows "read_pages send cursor completed s = Some (Inr (completed + length (filter (\<lambda>i. \<not> at_or_before cursor i) ids)), s)"
proof (induction "length (filter (\<lambda>i. \<not> at_or_before cursor i) ids)" arbitrary: cursor completed rule: less_induct)
  case less
  let ?left = "filter (\<lambda>i. \<not> at_or_before cursor i) ids"
  have sorted: "sorted_wrt (<) ?left" using assms(1) by (rule sorted_wrt_filter)
  have page: "get_page (send cursor) 0 s = (Some (Inr (history_page_of (map f (take limit ?left)) limit)), s)"
    by (rule get_page_success) (simp_all add: assms(4))
  show ?case
  proof (cases "limit \<le> length ?left")
    case True
    let ?l = "last (take limit ?left)"
    have ne: "take limit ?left \<noteq> []" using True assms(2) by auto
    then have l: "?l \<in> set ?left" by (meson in_set_takeD last_in_set)
    have after: "filter (\<lambda>i. \<not> at_or_before (Some ?l) i) ids = drop limit ?left"
    proof -
      have "filter (\<lambda>i. \<not> at_or_before (Some ?l) i) ids = filter (\<lambda>i. ?l < i) ?left"
        using l by (auto simp: at_or_before_def not_le intro!: filter_cong split: option.splits)
      also have "\<dots> = drop limit ?left" by (rule filter_after_take [OF sorted assms(2) True])
      finally show ?thesis .
    qed
    have c: "next_cursor limit (map f (take limit ?left)) = Some ?l"
      using True ne assms(3) [of ?l] l by (simp add: next_cursor_def last_map)
    have "length (drop limit ?left) < length ?left" using True assms(2) by simp
    from less [of "Some ?l" "completed + limit", unfolded after, OF this] True have
      rest_pages: "read_pages send (Some ?l) (completed + limit) s = Some (Inr (completed + length ?left), s)" by simp
    have "length (map f (take limit ?left)) = limit" using True by simp
    then have "read_pages send cursor completed s = read_pages send (Some ?l) (completed + limit) s"
      by (subst read_pages.simps) (simp only: page history_page_of_def c prod.case option.case sum.case history_page.simps)
    then show ?thesis by (simp only: rest_pages)
  next
    case False
    then have "next_cursor limit (map f (take limit ?left)) = None" by (simp add: next_cursor_def)
    with False show ?thesis by (subst read_pages.simps) (simp add: page history_page_of_def)
  qed
qed


text \<open>The final checks of the prepared runs compare sums.\<close>

lemma finish_load_iff:
  "finish_load expected answers = Inr n \<longleftrightarrow> (\<forall>r \<in> set answers. is_ok r) \<and> n = expected
     \<and> sum_list (map (\<lambda>r. length (projr r)) answers) = expected"
proof -
  have "for_each (\<lambda>answer completed. rbind answer (\<lambda>xs. Inr (completed + length xs))) answers m = Inr k \<longleftrightarrow>
      (\<forall>r \<in> set answers. is_ok r) \<and> k = m + sum_list (map (\<lambda>r. length (projr r)) answers)" for m k
    by (induction answers arbitrary: m) (auto simp: rbind_Inr_iff is_ok_iff)
  then show ?thesis by (auto simp: finish_load_def rbind_Inr_iff ensure_Inr_iff)
qed

lemma finish_mixed_iff:
  "finish_mixed write_target read_target answers = Inr p \<longleftrightarrow> (\<forall>(w, r) \<in> set answers. is_ok r) \<and> p = (write_target, read_target)
     \<and> sum_list (map (\<lambda>(w, r). length (projr r)) (filter fst answers)) = write_target
     \<and> sum_list (map (\<lambda>(w, r). length (projr r)) (filter (\<lambda>x. \<not> fst x) answers)) = read_target"
proof -
  have "for_each (\<lambda>(is_write, answer) (writes, read). rbind answer (\<lambda>xs.
        Inr (if is_write then (writes + length xs, read) else (writes, read + length xs)))) answers (m, n) = Inr k \<longleftrightarrow>
      (\<forall>(w, r) \<in> set answers. is_ok r)
      \<and> k = (m + sum_list (map (\<lambda>(w, r). length (projr r)) (filter fst answers)),
             n + sum_list (map (\<lambda>(w, r). length (projr r)) (filter (\<lambda>x. \<not> fst x) answers)))" for m n k
    by (induction answers arbitrary: m n) (auto simp: rbind_Inr_iff is_ok_iff)
  then show ?thesis by (auto simp: finish_mixed_def rbind_Inr_iff ensure_Inr_iff)
qed

definition page_reply :: "http_error + history_page \<Rightarrow> history_page http_reply" where
  "page_reply r = (case r of Inr p \<Rightarrow> Success (Inr p) | Inl (code, _) \<Rightarrow> Status (status_number code))"

section \<open>The attempts of post\_json\<close>

text \<open>A server that keeps the number of requests and its last reply.\<close>

definition observed :: "('s \<Rightarrow> 'a http_reply \<times> nat \<times> 's) \<Rightarrow> nat \<times> 'a http_reply option \<times> 's \<Rightarrow> 'a http_reply \<times> nat \<times> nat \<times> 'a http_reply option \<times> 's" where
  "observed send = (\<lambda>(n, _, s). let (reply, took, s') = send s in (reply, took, Suc n, Some reply, s'))"

lemma post_json_observed:
  "post_json (observed send) rtt deadline now attempt (n, l, s) = (r, t, n', last_reply, s') \<Longrightarrow>
     Suc n \<le> n' \<and> (n' = Suc n \<or> 25 * (n' - Suc (Suc n)) < deadline - now)
     \<and> (case last_reply of
         Some (Success body) \<Rightarrow> r = body
       | Some (Status code) \<Rightarrow> r = Inl (http_status code) \<and> (gateway_status code \<longrightarrow> deadline \<le> t)
       | Some NoAnswer \<Rightarrow> r = Inl IoError \<and> deadline \<le> t
       | None \<Rightarrow> False)"
proof (induction "deadline - now" arbitrary: now attempt n l s rule: less_induct)
  case less
  obtain reply took s1 where st: "send s = (reply, took, s1)" by (metis prod_cases3)
  have o: "observed send (n, l, s) = (reply, took, Suc n, Some reply, s1)" by (simp add: observed_def st)
  let ?now = "now + rtt + took + retry_delay attempt"
  note unfolded = less.prems [unfolded post_json.simps [of "observed send" rtt deadline now] o]
  have again: ?case if "now + rtt + took < deadline"
    "post_json (observed send) rtt deadline ?now (min (attempt + 1) (2 ^ 32 - 1)) (Suc n, Some reply, s1)
       = (r, t, n', last_reply, s')"
  proof -
    have d: "now + 25 \<le> ?now" using retry_delay_bounds(1) [of attempt] by simp
    then have "deadline - ?now < deadline - now" using that(1) by simp
    from less.hyps [OF this that(2)] have ih: "Suc (Suc n) \<le> n'"
      "n' = Suc (Suc n) \<or> 25 * (n' - Suc (Suc (Suc n))) < deadline - ?now"
      "case last_reply of
         Some (Success body) \<Rightarrow> r = body
       | Some (Status code) \<Rightarrow> r = Inl (http_status code) \<and> (gateway_status code \<longrightarrow> deadline \<le> t)
       | Some NoAnswer \<Rightarrow> r = Inl IoError \<and> deadline \<le> t
       | None \<Rightarrow> False" by blast+
    have "25 * (n' - Suc (Suc n)) < deadline - now" using ih(1,2) d that(1) by (elim disjE) simp_all
    with ih(1,3) show ?thesis by simp
  qed
  show ?case
  proof (cases reply)
    case (Status code)
    with unfolded again show ?thesis by (auto simp: Let_def not_le split: if_splits)
  next
    case NoAnswer
    with unfolded again show ?thesis by (auto simp: Let_def not_le split: if_splits)
  qed (use unfolded in \<open>auto simp: Let_def\<close>)
qed

section \<open>The properties\<close>

text \<open>
  Repeating a batch is safe.  Whatever happens to the attempts of \<open>loadgen\<close> on their way to
  a node that serves no other request: lost before or after they were served, refused, failed in the
  replication or in the write-ahead log: the batch counts at most once, and when the client is told
  success it has counted exactly once and every operation has a result.
\<close>
theorem retried_batch_once:
  assumes "dedup_index dapi lookup good" "live_ok hash lookup good (nd_store nd)" "attempts_up as"
    and "inj_on sha (operation_id ` set ops)" "\<forall>x. length (sha x) = 32" "st = live_abs hash lookup (nd_store nd)"
    and "send_batch (node_send sha hash dapi api ops) max_retries 0 (nd, as) = (r, nd', as')"
  shows "live_ok hash lookup good (nd_store nd') \<and> at_most_once sha ops st (live_abs hash lookup (nd_store nd'))
    \<and> (\<forall>statuses k. r = Inr (statuses, k) \<longrightarrow> replay_batch sha ops st = Some (live_abs hash lookup (nd_store nd'))
        \<and> length statuses = length ops \<and> k \<le> max_retries)"
proof -
  have len: "\<And>x. length (sha x) = 32" using assms(5) by simp
  from repeatable.send_batch_safe [OF dedup_index.node_repeatable [where hash = hash and st = st, OF assms(1,4) len] _ le0 assms(7)]
    assms(2,3,6) show ?thesis by (auto simp: at_most_once_def)
qed

text \<open>The same holds of the client with a deadline, however long its requests take.\<close>

theorem posted_batch_once:
  assumes "dedup_index dapi lookup good" "live_ok hash lookup good (nd_store nd)" "attempts_up as"
    and "inj_on sha (operation_id ` set ops)" "\<forall>x. length (sha x) = 32" "st = live_abs hash lookup (nd_store nd)"
    and "send = (\<lambda>s. (fst (node_send sha hash dapi api ops s), took s, snd (node_send sha hash dapi api ops s)))"
    and "post_json send rtt deadline now 0 (nd, as) = (r, t, nd', as')"
  shows "live_ok hash lookup good (nd_store nd') \<and> at_most_once sha ops st (live_abs hash lookup (nd_store nd'))
    \<and> (\<forall>statuses. r = Inr statuses \<longrightarrow> replay_batch sha ops st = Some (live_abs hash lookup (nd_store nd'))
        \<and> length statuses = length ops)"
proof -
  have len: "\<And>x. length (sha x) = 32" using assms(5) by simp
  have timed: "\<exists>t. send s = (fst (node_send sha hash dapi api ops s), t, snd (node_send sha hash dapi api ops s))" for s
    by (simp add: assms(7))
  from repeatable.post_json_safe [OF dedup_index.node_repeatable [where hash = hash and st = st, OF assms(1,4) len] timed _ assms(8)]
    assms(2,3,6) show ?thesis by (auto simp: at_most_once_def)
qed

text \<open>
  C12: a load run that reports success was counted exactly.  \<open>loadgen\<close> sends its batches one after
  the other to a node that serves no other request, with attempts lost or failed in any way; if it
  ends successfully, then it reports as many completed operations as were asked for, each applied
  or a duplicate, and on a node that did not know their ids before they are all accepted, and the
  balance of every owner and SKU has grown by the number of the run's operations on it.
\<close>
theorem load_run_exact:
  assumes "dedup_index dapi lookup good" "live_ok hash lookup good (nd_store nd)" "attempts_up as"
    and "load_number env ''LOAD_OPERATIONS'' 1000000 = Inr amount" "load_number env ''LOAD_BATCH_SIZE'' 1000 = Inr batch"
    and "load_number env ''LOAD_OWNERS'' 10000 = Inr owners" "load_number env ''LOAD_SKUS'' 1000 = Inr skus"
    and "load_number env ''LOAD_RETRIES'' 0 = Inr max_retries" "run = env_value env ''LOAD_RUN_ID'' ''baseline-1''"
    and "0 < owners" "0 < skus" "amount + batch \<le> 2 ^ 64" "ops = map (op_of run owners skus) [0 ..< amount]"
    and "inj_on sha (operation_id ` set ops)" "\<forall>x. length (sha x) = 32" "(L, B) = live_abs hash lookup (nd_store nd)"
    and "\<forall>op \<in> set ops. L (sha (operation_id op)) = None"
    and "loadgen env (node_send sha hash dapi api) (nd, as) = (Inr totals, nd', as')"
    and "(L', B') = live_abs hash lookup (nd_store nd')"
  shows "rt_completed totals = amount \<and> rt_applied totals + rt_duplicates totals = amount
    \<and> live_ok hash lookup good (nd_store nd') \<and> dom L' = dom L \<union> (\<lambda>op. sha (operation_id op)) ` set ops
    \<and> (\<forall>k. balance_at B' k = balance_at B k + word_of_nat (card {i. i < amount \<and> run_key owners skus i = k}))"
proof -
  let ?batches = "run_batches run owners skus amount batch"
  have len: "\<And>x. length (sha x) = 32" using assms(15) by simp
  from loadgen_batches [OF assms(4-11,18)] obtain outcomes where run: "0 < batch"
    "send_all (node_send sha hash dapi api) max_retries ?batches (nd, as) = (outcomes, nd', as')"
    "for_each add_batch outcomes \<lparr>rt_completed = 0, rt_applied = 0, rt_duplicates = 0, rt_retried = 0\<rparr> = Inr totals" by blast
  have ops: "concat ?batches = ops" unfolding assms(13) by (rule concat_run_batches [OF run(1) assms(12)])
  have "\<forall>b \<in> set ?batches. inj_on sha (operation_id ` set b)"
  proof
    fix b
    assume "b \<in> set ?batches"
    then have "set b \<subseteq> set ops" using ops by (metis UN_upper set_concat)
    then show "inj_on sha (operation_id ` set b)" by (intro inj_on_subset [OF assms(14)] image_mono)
  qed
  from dedup_index.send_all_node [OF assms(1) len assms(2,3) this run(2)] add_batches [OF run(3)]
  have served: "live_ok hash lookup good (nd_store nd')" "map (\<lambda>r. length (fst (projr r))) outcomes = map length ?batches"
    "replay_batches sha ?batches (L, B) = Some (L', B')" by (simp_all add: assms(16,19))
  have "sum_list (map length ?batches) = length (concat ?batches)" by (simp add: length_concat)
  then have done_count: "sum_list (map (\<lambda>r. length (fst (projr r))) outcomes) = amount" unfolding served(2) ops by (simp add: assms(13))
  have "distinct (map (\<lambda>op. sha (operation_id op)) ops)"
  proof -
    have "distinct (map operation_id ops)" unfolding assms(13) by (simp add: distinct_map inj_on_def op_of_id)
    with assms(14) have "distinct (map sha (map operation_id ops))" unfolding distinct_map [of sha] by simp
    then show ?thesis by (simp add: comp_def)
  qed
  then have "firsts sha (dom L) ops = ops" by (rule firsts_all) (use assms(17) in \<open>simp add: domIff\<close>)
  with replay_batches_effect [OF served(3)] have "dom L' = dom L \<union> (\<lambda>op. sha (operation_id op)) ` set ops"
    "\<forall>k. balance_at B' k = balance_at B k + total_delta ops k" unfolding ops by simp_all
  with add_batches [OF run(3)] done_count served(1) show ?thesis by (simp add: assms(13) run_delta)
qed

text \<open>
  A request with a deadline ends.  \<open>post_json\<close> sends at least once; each further attempt
  starts at least 25 ms after the one before and only if that one ended before the deadline, so that
  15 seconds allow for 601 attempts.  Its answer is that of the last attempt, and it gives up on a
  gateway error or a lost answer only when the deadline has passed.
\<close>
theorem post_json_ends:
  assumes "post_json (observed send) rtt deadline now 0 (0, None, s) = (r, t, n, last_reply, s')"
  shows "1 \<le> n \<and> (n = 1 \<or> 25 * (n - 2) < deadline - now)
    \<and> (case last_reply of
         Some (Success body) \<Rightarrow> r = body
       | Some (Status code) \<Rightarrow> r = Inl (http_status code) \<and> (gateway_status code \<longrightarrow> deadline \<le> t)
       | Some NoAnswer \<Rightarrow> r = Inl IoError \<and> deadline \<le> t
       | None \<Rightarrow> False)"
  using post_json_observed [OF assms] by (simp add: numeral_2_eq_2)

text \<open>
  The read load checks the whole history.  Against a node whose history is complete and that
  answers, following the pages ends, and the run succeeds exactly when the history has as many
  operations as the dataset; \<open>unreachable!()\<close> is not reached.
\<close>
theorem read_load_exact:
  assumes "kv_store lsm lc" "history_inv lc (rn_disk nd) H" "current (rn_checkpoint nd) \<le> rn_history nd"
    and "load_read_dataset json env open_file = Inr (payloads, amount)"
  shows "read_load json env open_file (\<lambda>cursor s. (page_reply (scan_request lsm nd cursor (Some 10000)), s)) s
    = Some (if card (dom H) = amount then Inr amount
            else Inl (Msg (''completed '' @ decimal (card (dom H)) @ '' instead of '' @ decimal amount)), s)"
proof -
  let ?send = "\<lambda>cursor s. (page_reply (scan_request lsm nd cursor (Some 10000)), s)"
  let ?ids = "selected_ids H (\<lambda>_. True)"
  have all: "filter (\<lambda>i. \<not> at_or_before None i) ids = ids" for ids by (simp add: at_or_before_def)
  have fin: "finite {i. \<exists>op. H i = Some op \<and> True}" by (rule kv_store.history_finite [OF assms(1,2)])
  then have ids: "set ?ids = dom H" "sorted_wrt (<) ?ids" by (auto simp: selected_ids_def dom_def)
  then have len: "length ?ids = card (dom H)" by (metis distinct_card strict_sorted_iff)
  have page: "?send cursor s = (Success (Inr (history_page_of
      (map (\<lambda>i. the (H i)) (take 10000 (filter (\<lambda>i. \<not> at_or_before cursor i) ?ids))) 10000)), s)" for cursor
    using kv_store.scan_page [OF assms(1,2), of 10000 cursor] node_complete [OF assms(3)]
    by (simp add: scan_request_def page_reply_def page_def)
  have "operation_id (the (H i)) = i" if "i \<in> set ?ids" for i using that ids(1) assms(2) by (auto simp: history_inv_def)
  from read_pages_all [where send = ?send and limit = 10000 and f = "\<lambda>i. the (H i)", OF ids(2) _ this page, of None 0]
  have "read_pages ?send None 0 s = Some (Inr (card (dom H)), s)" by (simp add: all len)
  with assms(4) show ?thesis by (simp add: read_load_def ensure_def)
qed

section \<open>Runs\<close>

lemma sample_read_dataset:
  "\<exists>content payloads. prepare plain_json sample_load_env (\<lambda>_. Inr ()) = Inr (ascii ''d'', content)
    \<and> load_read_dataset plain_json sample_load_env (\<lambda>_. Inr content) = Inr (payloads, 5)"
proof -
  let ?chunks = "run_batches (ascii ''prepared-1'') 10000 1000 5 1000"
  have n: "0 < (1000 :: nat)" "0 < (10000 :: nat)" "5 + 1000 \<le> (2 ^ 64 :: nat)" by simp_all
  have "concat ?chunks = map (op_of (ascii ''prepared-1'') 10000 1000) [0 ..< 5]" by (rule concat_run_batches [OF n(1,3)])
  then have five: "concat ?chunks \<noteq> []" "length (concat ?chunks) = 5" by (simp_all del: length_concat concat_eq_Nil_conv upt_rec_numeral)
  from prepare_ok [where create = "\<lambda>_. Inr ()" and path = "ascii ''d''", OF plain.dataset_json_axioms sample_load_env_facts(1) refl
      sample_load_env_facts(2-5) n(1,2,1,3) sample_run_name(1) [symmetric] sample_run_name(2-4)]
  obtain texts where p: "prepare plain_json sample_load_env (\<lambda>_. Inr ()) = Inr (ascii ''d'', concat (map (\<lambda>t. t @ [10]) texts))"
    "list_all2 (\<lambda>t c. one_line t \<and> lj_parse_operations plain_json t = Inr c) texts ?chunks" by blast
  let ?ids = "map (\<lambda>c. plain_list plain (map operation_id c)) ?chunks"
  have "list_all2 (\<lambda>(t, c) p. lj_ids plain_json (map operation_id c) = Inr p) (zip texts ?chunks) ?ids"
    using list_all2_lengthD [OF p(2)] by (simp add: list_all2_conv_all_nth plain_json_def)
  from read_dataset_ok [where open_file = "\<lambda>_. Inr (concat (map (\<lambda>t. t @ [10]) texts))" and path = "ascii ''d''"
      and payload_of = "\<lambda>line operations. lj_ids plain_json (map operation_id operations)",
      OF sample_load_env_facts(1) refl p(2) this five(1)] p(1) five(2)
  show ?thesis by (auto simp: load_read_dataset_def simp del: length_concat)
qed

text \<open>The sample node takes every batch of storable operations that contradicts nothing.\<close>

lemma sample_node_serves:
  assumes "\<forall>op \<in> set ops. storable op" "1 \<le> length ops" "length ops \<le> 10000" "inj_on pad (operation_id ` set ops)"
    and "replay_batch pad ops (sample_abs sample_live) \<noteq> None"
  shows "\<exists>results nd'. apply_batch pad sample_hash sample_api list_log_api sample_request_env (Inr ops) sample_node
    = (Answer (Inr results), nd')"
proof -
  let ?fresh = "fresh_of pad (fst (sample_abs sample_live)) ops"
  have adm: "admitted sample_request_env 3 ops"
    using assms(1-3) storable_validate by (auto simp: admitted_def sample_request_env_def ensure_writer_def list_all_iff)
  have sub: "set ?fresh \<subseteq> set ops" by (rule fresh_of_facts(1) [OF assms(4)])
  have "distinct (map (\<lambda>op. pad (operation_id op)) ?fresh)" by (rule fresh_of_facts(2) [OF assms(4)])
  then have "length ?fresh = card (set ?fresh)" by (simp add: distinct_map distinct_card)
  also have "\<dots> \<le> length ops" using sub by (metis List.finite_set card_length card_mono le_trans)
  finally have "length ?fresh < 2 ^ 32" using assms(3) by simp
  moreover have "list_all operation_fits ?fresh" using sub assms(1) by (auto simp: list_all_iff storable_facts)
  ultimately obtain p where p: "encode_log_operations 3 ?fresh = Inr p" by (auto simp: encode_log_operations_iff)
  have rep: "\<exists>log'. replication_of pad list_log_api sample_request_env 3 ?fresh (Some ([], [])) = (Inr (), log')"
    using p by (auto simp: replication_of_def replicate_checked_def replicate_ops_def log_append_def list_log_api_def
        sample_request_env_def ensure_writer_def)
  have up: "\<And>i. rq_up sample_request_env i" by (simp add: sample_request_env_def)
  have log: "nd_log sample_node = Some ([], [])" "nd_store sample_node = sample_live" by (simp_all add: sample_node_def)
  from alist_disk.index.apply_batch_ok [OF sample_node_ok adm assms(4) length_pad up, of list_log_api]
  obtain out nd' where run: "apply_batch pad sample_hash sample_api list_log_api sample_request_env (Inr ops) sample_node = (Answer out, nd')"
    "write_spec pad sample_request_env ops (replication_of pad list_log_api sample_request_env 3 ?fresh (Some ([], [])))
      (Some ([], [])) (sample_served sample_live) out (nd_log nd') (sample_served (nd_store nd'))"
    unfolding log by blast
  from assms(5) obtain st where st: "replay_batch pad ops (fst (sample_served sample_live)) = Some st" by (auto simp: served_abs_def)
  from rep run(2) [unfolded write_spec_Some [OF st]] have "\<exists>results. out = Inr results"
    by (auto simp: sample_request_env_def)
  with run(1) show ?thesis by blast
qed

abbreviation "sample_run \<equiv> map (op_of (ascii ''baseline-1'') 10000 1000) [0 ..< 5]"

lemma sample_run_free:
  assumes "k ! 0 = 98"
  shows "fst (sample_abs sample_live) k = None"
proof -
  have "sample_key 2 ! 0 = 2" "(98 :: byte) \<noteq> 2" by (simp_all add: sample_key_def)
  with assms have ne: "k \<noteq> sample_key 2" by metis
  have shards: "dedup_lsm_shard k = 34" "dedup_disk_shard k = 2"
    using assms by (simp_all add: dedup_lsm_shard_def dedup_disk_shard_def DEDUP_LSM_SHARDS_def DEDUP_SHARDS_def)
  have "sample_lookup sample_disk k = None" using ne by (simp add: disk_index_def shards sample_disk_def alist_eval)
  then show ?thesis by (simp add: live_abs_def sample_live_def ledger_of_def mem_at_start)
qed

lemma pad_first: "x \<noteq> [] \<Longrightarrow> pad x ! 0 = x ! 0"
  by (simp add: pad_def nth_append)

lemma pad_inject: "length x = length y \<Longrightarrow> length x \<le> 32 \<Longrightarrow> pad x = pad y \<longleftrightarrow> x = y"
  by (auto simp: pad_def min_def)

lemma sample_run_ids: "i < 10 \<Longrightarrow> length (operation_id (op_of (ascii ''baseline-1'') owners skus i)) = 12"
  "operation_id (op_of (ascii ''baseline-1'') owners skus i) ! 0 = 98"
  by (simp_all add: op_of_def decimal.simps nth_append) (simp add: ascii_def)

lemma sample_run_ok:
  "\<forall>op \<in> set sample_run. storable op" "inj_on pad (operation_id ` set sample_run)"
  "\<forall>op \<in> set sample_run. fst (sample_abs sample_live) (pad (operation_id op)) = None"
  "replay_batch pad sample_run (sample_abs sample_live) \<noteq> None"
proof -
  have run: "ascii_only ''baseline-1''" by (simp add: ascii_only_def)
  have name: "str_ok (ascii ''baseline-1'')" using run by (simp only: ascii_str_facts)
  have ident: "identifier_ok (ascii ''baseline-1'')"
    unfolding identifier_ok_ascii [OF run] by (simp add: is_whitespace_def is_control_def)
  show "\<forall>op \<in> set sample_run. storable op"
    using op_of_ok [OF name ident] by (auto simp: storable_def simp del: upt_rec_numeral)
  show "inj_on pad (operation_id ` set sample_run)"
  proof (rule inj_onI)
    fix x y
    assume "x \<in> operation_id ` set sample_run" "y \<in> operation_id ` set sample_run" and eq: "pad x = pad y"
    then have "length x = 12" "length y = 12" by (auto simp: sample_run_ids simp del: upt_rec_numeral)
    with eq show "x = y" by (simp add: pad_inject)
  qed
  have free: "fst (sample_abs sample_live) (pad (operation_id op)) = None" if "op \<in> set sample_run" for op
  proof (rule sample_run_free)
    from that obtain i where i: "i < 5" "op = op_of (ascii ''baseline-1'') 10000 1000 i" by (auto simp del: upt_rec_numeral)
    have "operation_id op \<noteq> []" using sample_run_ids(1) [of i 10000 1000] i by auto
    then show "pad (operation_id op) ! 0 = 98" using i sample_run_ids(2) by (simp add: pad_first)
  qed
  then show "\<forall>op \<in> set sample_run. fst (sample_abs sample_live) (pad (operation_id op)) = None" by blast
  have "fingerprint pad op = fingerprint pad op'"
    if "op \<in> set sample_run" "op' \<in> set sample_run" "operation_id op = operation_id op'" for op op'
    using that by (auto simp: op_of_id simp del: upt_rec_numeral)
  with free have "batch_consistent pad (fst (sample_abs sample_live)) sample_run" unfolding batch_consistent_def by blast
  then show "replay_batch pad sample_run (sample_abs sample_live) \<noteq> None"
    by (cases "sample_abs sample_live") (simp add: replay_batch_def del: upt_rec_numeral)
qed


interpretation sample_server: repeatable "node_send pad sample_hash sample_api list_log_api sample_ops"
  "\<lambda>(nd :: (_, list_log) node, as). live_ok sample_hash sample_lookup sample_good (nd_store nd) \<and> attempts_up as
     \<and> at_most_once pad sample_ops (sample_abs sample_live) (sample_abs (nd_store nd))"
  "\<lambda>(nd, as). replay_batch pad sample_ops (sample_abs sample_live) = Some (sample_abs (nd_store nd))"
  "\<lambda>statuses. length statuses = length sample_ops"
  by (rule alist_disk.index.node_repeatable [OF sample_ops_inj length_pad])

text \<open>The first attempt is served but its answer is lost, the second one is lost before.\<close>

lemma retried_batch_once_witness:
  "\<exists>r nd' as'. send_batch (node_send pad sample_hash sample_api list_log_api sample_ops) 2 0
      (sample_node, [Served sample_request_env False, Lost]) = (r, nd', as')
    \<and> at_most_once pad sample_ops (sample_abs sample_live) (sample_abs (nd_store nd'))"
proof -
  let ?send = "node_send pad sample_hash sample_api list_log_api sample_ops"
  obtain r nd' as' where run: "send_batch ?send 2 0 (sample_node, [Served sample_request_env False, Lost]) = (r, nd', as')"
    by (metis prod_cases3)
  have "attempts_up [Served sample_request_env False, Lost]" "\<forall>x. length (pad x) = 32"
    by (simp_all add: sample_request_env_def length_pad)
  from retried_batch_once [OF alist_disk.index.dedup_index_axioms sample_node_ok this(1) sample_ops_inj this(2) refl run] run
  show ?thesis by (simp add: sample_node_def)
qed

definition sample_one_env :: environment where
  "sample_one_env = [''LOAD_OPERATIONS'' \<mapsto> ascii (decimal 5)]"

lemma sample_one_env_facts:
  "load_number sample_one_env ''LOAD_OPERATIONS'' 1000000 = Inr 5" "load_number sample_one_env ''LOAD_BATCH_SIZE'' 1000 = Inr 1000"
  "load_number sample_one_env ''LOAD_OWNERS'' 10000 = Inr 10000" "load_number sample_one_env ''LOAD_SKUS'' 1000 = Inr 1000"
  "load_number sample_one_env ''LOAD_RETRIES'' 0 = Inr 0" "load_number sample_one_env ''LOAD_CONCURRENCY'' 32 = Inr 32"
  "load_number sample_one_env ''LOAD_RETRY_MS'' 50 = Inr 50" "ascii ''baseline-1'' = env_value sample_one_env ''LOAD_RUN_ID'' ''baseline-1''"
  by (simp_all add: sample_one_env_def load_number_def env_value_def parse_decimal unat_of_nat)

lemma sample_loadgen:
  "\<exists>totals nd' as'. loadgen sample_one_env (node_send pad sample_hash sample_api list_log_api)
     (sample_node, [Served sample_request_env True]) = (Inr totals, nd', as')"
proof -
  let ?send = "node_send pad sample_hash sample_api list_log_api"
  have step: "step_by 0 5 1000 = [0]" "batch_indices 5 1000 0 = [0 ..< 5]"
    by (simp_all add: step_by.simps batch_indices_def del: upt_rec_numeral)
  have batch: "load_batch (ascii ''baseline-1'') 10000 1000 [0 ..< 5] = Inr sample_run" by (rule load_batch_ok) simp_all
  have "1 \<le> length sample_run" "length sample_run \<le> 10000" by (simp_all del: upt_rec_numeral)
  from sample_node_serves [OF sample_run_ok(1) this sample_run_ok(2,4)] obtain results nd' where
    "apply_batch pad sample_hash sample_api list_log_api sample_request_env (Inr sample_run) sample_node = (Answer (Inr results), nd')" by blast
  then have "?send sample_run (sample_node, [Served sample_request_env True])
      = (Success (Inr (map (\<lambda>r. status_text (res_status r)) results)), nd', [])"
    by (simp add: reply_of_def del: upt_rec_numeral)
  then have "send_batch (?send sample_run) 0 0 (sample_node, [Served sample_request_env True])
      = (Inr (map (\<lambda>r. status_text (res_status r)) results, 0), nd', [])"
    by (simp add: send_batch.simps del: upt_rec_numeral)
  then show ?thesis
    by (simp add: loadgen_def sample_one_env_facts(1-7) sample_one_env_facts(8) [symmetric] step batch Let_def add_batch_def del: upt_rec_numeral)
qed

lemma load_run_exact_witness:
  "\<exists>totals nd' as'. loadgen sample_one_env (node_send pad sample_hash sample_api list_log_api)
     (sample_node, [Served sample_request_env True]) = (Inr totals, nd', as')
   \<and> rt_completed totals = 5 \<and> balance_at (snd (sample_abs (nd_store nd'))) (run_key 10000 1000 3)
       = balance_at (snd (sample_abs sample_live)) (run_key 10000 1000 3) + 1"
proof -
  from sample_loadgen obtain totals nd' as' where run: "loadgen sample_one_env (node_send pad sample_hash sample_api list_log_api)
     (sample_node, [Served sample_request_env True]) = (Inr totals, nd', as')" by blast
  have n: "0 < (10000 :: nat)" "0 < (1000 :: nat)" "5 + 1000 \<le> (2 ^ 64 :: nat)" by simp_all
  have up: "attempts_up [Served sample_request_env True]" "\<forall>x. length (pad x) = 32"
    by (simp_all add: sample_request_env_def length_pad)
  have live: "nd_store sample_node = sample_live" by (simp add: sample_node_def)
  from load_run_exact [OF alist_disk.index.dedup_index_axioms sample_node_ok up(1) sample_one_env_facts(1-5,8) n refl
      sample_run_ok(2) up(2) prod.collapse sample_run_ok(3) [folded live] run prod.collapse]
  have eq: "rt_completed totals = 5" "\<forall>k. balance_at (snd (sample_abs (nd_store nd'))) k
       = balance_at (snd (sample_abs sample_live)) k + word_of_nat (card {i. i < 5 \<and> run_key 10000 1000 i = k})"
    unfolding live by blast+
  have "balance_at (snd (sample_abs (nd_store nd'))) (run_key 10000 1000 3)
       = balance_at (snd (sample_abs sample_live)) (run_key 10000 1000 3)
         + word_of_nat (card {i. i < 5 \<and> run_key 10000 1000 i = run_key 10000 1000 3})"
    using eq(2) by blast
  moreover have "i = 3" if "i < 5" "run_key 10000 1000 i = run_key 10000 1000 3" for i
  proof -
    have "ascii_only ''sku-''" by (simp add: ascii_only_def)
    moreover have "ascii (''sku-'' @ decimal (i mod 1000)) = ascii (''sku-'' @ decimal (3 mod 1000))"
      using that(2) by (simp only: run_key_def prod.inject)
    ultimately have "i mod 1000 = 3 mod 1000" by (simp only: ascii_numbered_inject)
    with that(1) show ?thesis by simp
  qed
  then have "{i. i < 5 \<and> run_key 10000 1000 i = run_key 10000 1000 3} = {3}" by auto
  ultimately show ?thesis using run eq(1) by simp
qed


text \<open>A server that never answers, ten milliseconds a time.\<close>

lemma post_json_ends_witness:
  "\<exists>r t n reply. post_json (observed (\<lambda>s. (NoAnswer :: nat http_reply, 10, s))) 0 100 0 0 (0, None, ()) = (r, t, n, reply, ())
    \<and> 1 \<le> n \<and> n \<le> 5"
proof -
  obtain r t n reply s' where run:
    "post_json (observed (\<lambda>s. (NoAnswer :: nat http_reply, 10, s))) 0 100 0 0 (0, None, ()) = (r, t, n, reply, s')"
    by (metis prod_cases5)
  from post_json_ends [OF run] have "1 \<le> n \<and> n \<le> 5" by auto
  moreover have "s' = ()" by simp
  ultimately show ?thesis using run by blast
qed

abbreviation "sample_history_map \<equiv> history_of sample_log_records (unat (ht_published sample_tailed))"

lemma read_load_exact_witness:
  "\<exists>content. prepare plain_json sample_load_env (\<lambda>_. Inr ()) = Inr (ascii ''d'', content)
    \<and> read_load plain_json sample_load_env (\<lambda>_. Inr content)
        (\<lambda>cursor s. (page_reply (scan_request alist_api (sample_reader 2) cursor (Some 10000)), s)) ()
      = Some (if card (dom sample_history_map) = 5 then Inr 5
              else Inl (Msg (''completed '' @ decimal (card (dom sample_history_map)) @ '' instead of '' @ decimal 5)), ())"
proof -
  have nd: "rn_disk (sample_reader 2) = ht_disk sample_tailed" "rn_history (sample_reader 2) = ht_published sample_tailed"
    "current (rn_checkpoint (sample_reader 2)) = 2"
    by (simp_all add: sample_reader_def current_def)
  have small: "length (fst (ht_log sample_tailed)) < 2 ^ 64 - 1" by (simp add: sample_tailed_facts(5))
  have inv: "history_inv alist_of (rn_disk (sample_reader 2)) sample_history_map"
    using history_tail_steps [OF sample_history_log.history_log_axioms sample_tail_at_start sample_tailed_facts(1)
        sample_tailed_facts(3) [unfolded sample_tailed_facts(2)] sample_tailed_facts(4) small]
    by (simp add: nd(1) sample_tailed_facts(2))
  have complete: "current (rn_checkpoint (sample_reader 2)) \<le> rn_history (sample_reader 2)"
    using sample_tailed_facts(6) by (simp add: nd word_le_nat_alt)
  obtain content payloads where ds: "prepare plain_json sample_load_env (\<lambda>_. Inr ()) = Inr (ascii ''d'', content)"
    "load_read_dataset plain_json sample_load_env (\<lambda>_. Inr content) = Inr (payloads, 5)"
    using sample_read_dataset by blast
  from read_load_exact [OF alist.kv_store_axioms inv complete ds(2), of "()"] ds(1) show ?thesis by blast
qed

end
