(* ===== verification/PreparedRuns.thy ===== *)
theory PreparedRuns
  imports LoadClients
begin

text \<open>
  The write and the mixed load of \<open>src/bin/prepared_loadgen.rs\<close>: the dataset, the plan, the
  requests one after the other (\<open>post_json\<close> with its two variables), and the final count; and a
  write load against the handlers of a node.  A deadline beyond the range of the clock is left out.
\<close>

section \<open>The code\<close>

text \<open>A variable that is absent or not a number counts as the default.\<close>

definition env_u64 :: "environment \<Rightarrow> string \<Rightarrow> nat \<Rightarrow> nat" where
  "env_u64 env name fallback =
     (case env name of
        Some v \<Rightarrow> (case parse_u64 (chars v) of Inr n \<Rightarrow> unat n | Inl _ \<Rightarrow> fallback)
      | None \<Rightarrow> fallback)"

definition post_request :: "environment \<Rightarrow> ('s \<Rightarrow> 'a http_reply \<times> nat \<times> 's) \<Rightarrow> nat \<Rightarrow> 's \<Rightarrow> 'a result \<times> nat \<times> 's" where
  "post_request env send now s =
     (let retry_seconds = env_u64 env ''LOAD_RETRY_SECONDS'' 15;
          retry_deadline = now + 1000 * retry_seconds;
          regional_rtt_ms = env_u64 env ''LOAD_RTT_MS'' 0
      in post_json send regional_rtt_ms retry_deadline now 0 s)"

fun post_all :: "environment \<Rightarrow> ('p \<Rightarrow> 's \<Rightarrow> 'a http_reply \<times> nat \<times> 's) \<Rightarrow> 'p list \<Rightarrow> nat \<Rightarrow> 's \<Rightarrow> 'a result list \<times> nat \<times> 's" where
  "post_all env send [] now s = ([], now, s)"
| "post_all env send (p # ps) now s =
     (let (r, now', s') = post_request env (send p) now s; (rs, now'', s'') = post_all env send ps now' s'
      in (r # rs, now'', s''))"

text \<open>
  \<open>None\<close> stands for a run that never ends: the first \<open>acquire_owned\<close> of a semaphore without
  permits.  The dataset is not empty, so that there is a first request.
\<close>

definition write_load ::
  "load_json \<Rightarrow> environment \<Rightarrow> (bytes \<Rightarrow> bytes result) \<Rightarrow> (bytes \<Rightarrow> 's \<Rightarrow> 'a list http_reply \<times> nat \<times> 's) \<Rightarrow> nat \<Rightarrow> 's
     \<Rightarrow> (nat result \<times> nat \<times> 's) option" where
  "write_load json env open_file send now s =
     (case rbind (load_write_dataset json env open_file) (\<lambda>(payloads, amount).
           rbind (prep_number env ''LOAD_CONCURRENCY'' 32) (\<lambda>concurrency. Inr (payloads, amount, concurrency))) of
        Inl e \<Rightarrow> Some (Inl e, now, s)
      | Inr (payloads, amount, concurrency) \<Rightarrow>
          if concurrency = 0 then None
          else (let (answers, now', s') = post_all env send payloads now s
                in Some (finish_load amount answers, now', s')))"

definition mixed_load ::
  "load_json \<Rightarrow> environment \<Rightarrow> (bytes \<Rightarrow> bytes result) \<Rightarrow> (bool \<times> bytes \<Rightarrow> 's \<Rightarrow> 'a list http_reply \<times> nat \<times> 's) \<Rightarrow> nat \<Rightarrow> 's
     \<Rightarrow> ((nat \<times> nat) result \<times> nat \<times> 's) option" where
  "mixed_load json env open_file send now s =
     (case rbind (mixed_plan json env open_file) (\<lambda>(write_target, read_target, scheduled).
           rbind (prep_number env ''LOAD_CONCURRENCY'' 64) (\<lambda>concurrency.
             Inr (write_target, read_target, scheduled, concurrency))) of
        Inl e \<Rightarrow> Some (Inl e, now, s)
      | Inr (write_target, read_target, scheduled, concurrency) \<Rightarrow>
          if concurrency = 0 \<and> scheduled \<noteq> [] then None
          else (let (answers, now', s') = post_all env send scheduled now s
                in Some (finish_mixed write_target read_target (zip (map fst scheduled) answers), now', s')))"

section \<open>Runs that never start\<close>

lemma write_load_hangs:
  "write_load json env open_file send now s = None \<longleftrightarrow>
     prep_number env ''LOAD_CONCURRENCY'' 32 = Inr 0 \<and> is_ok (load_write_dataset json env open_file)"
  by (auto simp: write_load_def rbind_def is_ok_iff split: sum.splits prod.splits)

section \<open>Against the handler\<close>

text \<open>The node parses the payload; what is no list of operations is refused.\<close>

definition payload_send ::
  "load_json \<Rightarrow> (('d, 'l) node \<times> attempt list \<Rightarrow> nat) \<Rightarrow> (bytes \<Rightarrow> bytes) \<Rightarrow> (bytes \<Rightarrow> bytes \<Rightarrow> u64) \<Rightarrow> 'd index_api \<Rightarrow> 'l log_api
     \<Rightarrow> bytes \<Rightarrow> ('d, 'l) node \<times> attempt list \<Rightarrow> string list http_reply \<times> nat \<times> ('d, 'l) node \<times> attempt list" where
  "payload_send json took sha hash dapi api payload s =
     (case lj_parse_operations json payload of
        Inl e \<Rightarrow> (Status 400, took s, s)
      | Inr ops \<Rightarrow> (let (reply, s') = node_send sha hash dapi api ops s in (reply, took s, s')))"

lemma payload_send_parsed:
  "lj_parse_operations json payload = Inr ops \<Longrightarrow>
     payload_send json took sha hash dapi api payload s
       = (fst (node_send sha hash dapi api ops s), took s, snd (node_send sha hash dapi api ops s))"
  by (simp add: payload_send_def split_beta)

context dedup_index
begin

lemma post_all_node:
  assumes "\<And>x. length (sha x) = 32"
  shows "list_all2 (\<lambda>t c. lj_parse_operations json t = Inr c) texts chunks \<Longrightarrow>
    live_ok hash lookup good (nd_store nd) \<Longrightarrow> attempts_up as \<Longrightarrow> \<forall>c \<in> set chunks. inj_on sha (operation_id ` set c) \<Longrightarrow>
    post_all env (payload_send json took sha hash api lapi) texts now (nd, as) = (answers, t, nd', as') \<Longrightarrow>
    live_ok hash lookup good (nd_store nd') \<and>
    ((\<forall>r \<in> set answers. is_ok r) \<longrightarrow> map (\<lambda>r. length (projr r)) answers = map length chunks
      \<and> replay_batches sha chunks (live_abs hash lookup (nd_store nd)) = Some (live_abs hash lookup (nd_store nd')))"
proof (induction texts chunks arbitrary: nd as now answers rule: list_all2_induct)
  case (Cons p texts c chunks)
  obtain r now1 nd1 as1 where first: "post_request env (payload_send json took sha hash api lapi p) now (nd, as) = (r, now1, nd1, as1)"
    by (metis prod_cases4)
  obtain rs where later: "post_all env (payload_send json took sha hash api lapi) texts now1 (nd1, as1) = (rs, t, nd', as')"
    "answers = r # rs" using Cons.prems(4) first by (auto simp: Let_def split: prod.splits)
  have inj: "inj_on sha (operation_id ` set c)" using Cons.prems(3) by simp
  have timed: "\<exists>t. payload_send json took sha hash api lapi p s
      = (fst (node_send sha hash api lapi c s), t, snd (node_send sha hash api lapi c s))" for s
    using payload_send_parsed [OF Cons.hyps(1)] by blast
  from repeatable.post_json_safe [OF node_repeatable [where hash = hash and st = "live_abs hash lookup (nd_store nd)",
      OF inj assms] timed _ first [unfolded post_request_def Let_def]] Cons.prems(1,2)
  have one: "live_ok hash lookup good (nd_store nd1)" "attempts_up as1"
    "\<forall>x. r = Inr x \<longrightarrow> replay_batch sha c (live_abs hash lookup (nd_store nd)) = Some (live_abs hash lookup (nd_store nd1))
       \<and> length x = length c" by (auto simp: at_most_once_def)
  from Cons.IH [OF one(1,2) _ later(1)] Cons.prems(3) one(3) show ?case
    by (cases r) (auto simp: later(2))
qed simp

end

text \<open>
  A write load that reports success has been counted exactly, batch by batch; however long the
  requests take and whatever happens to the attempts, the store keeps its invariant.
\<close>

theorem write_load_exact:
  assumes "dedup_index dapi lookup good" "live_ok hash lookup good (nd_store nd)" "attempts_up as" "\<forall>x. length (sha x) = 32"
    and "prep_required env ''PREPARED_DATASET'' = Inr path" "open_file path = Inr (concat (map (\<lambda>t. t @ [10]) texts))"
    and "list_all2 (\<lambda>t c. one_line t \<and> lj_parse_operations json t = Inr c) texts chunks" "concat chunks \<noteq> []"
    and "\<forall>c \<in> set chunks. inj_on sha (operation_id ` set c)"
    and "write_load json env open_file (payload_send json took sha hash dapi api) now (nd, as) = Some (Inr n, t, nd', as')"
  shows "n = length (concat chunks) \<and> live_ok hash lookup good (nd_store nd')
    \<and> replay_batches sha chunks (live_abs hash lookup (nd_store nd)) = Some (live_abs hash lookup (nd_store nd'))"
proof -
  have len: "\<And>x. length (sha x) = 32" using assms(4) by simp
  have "list_all2 (\<lambda>(t, c) p. Inr t = (Inr p :: bytes result)) (zip texts chunks) texts"
    using list_all2_lengthD [OF assms(7)] by (simp add: list_all2_conv_all_nth)
  from read_dataset_ok [where open_file = open_file and path = path and payload_of = "\<lambda>line operations. Inr line", OF assms(5-7) this assms(8)]
  have dataset: "load_write_dataset json env open_file = Inr (texts, length (concat chunks))" by (simp add: load_write_dataset_def)
  obtain answers where run: "post_all env (payload_send json took sha hash dapi api) texts now (nd, as) = (answers, t, nd', as')"
    "finish_load (length (concat chunks)) answers = Inr n"
    using assms(10) unfolding write_load_def dataset
    by (auto simp: rbind_def Let_def split: sum.splits prod.splits if_splits)
  have parsed: "list_all2 (\<lambda>t c. lj_parse_operations json t = Inr c) texts chunks" using assms(7) by (rule list_all2_mono) simp
  from dedup_index.post_all_node [OF assms(1) len parsed assms(2,3,9) run(1)] run(2) show ?thesis
    unfolding finish_load_iff by blast
qed

end
