(* ===== verification/ChaosDriver.thy ===== *)
theory ChaosDriver
  imports StreamSetup CatchUp Snapshot
begin

text \<open>
  The fault driver \<open>src/bin/chaos.rs\<close>: it writes a snapshot of the oldest format, and it
  publishes messages to the replicated log past the writer: an unreadable one, arbitrary bytes
  in hexadecimal, and a batch under an epoch of its choice.  \<open>serde_json\<close> and the calls of the
  NATS client are parameters.  A command-line argument is a string; a slice of it that cuts a
  character is a panic and an error like the others.
\<close>

section \<open>The code\<close>

definition argument :: "bytes list \<Rightarrow> nat \<Rightarrow> string \<Rightarrow> bytes result" where
  "argument args n name =
     (if n < length args then Inr (args ! n) else Inl (Msg (name @ '' is required'')))"

text \<open>\<open>u8::from_str_radix(\_, 16)\<close> of two characters; a leading plus sign is accepted.\<close>

definition hex_value :: "byte \<Rightarrow> nat option" where
  "hex_value c =
     (if 48 \<le> c \<and> c \<le> 57 then Some (unat c - 48)
      else if 97 \<le> c \<and> c \<le> 102 then Some (unat c - 87)
      else if 65 \<le> c \<and> c \<le> 70 then Some (unat c - 55) else None)"

definition parse_hex_byte :: "byte \<Rightarrow> byte \<Rightarrow> byte result" where
  "parse_hex_byte a b =
     (case (if a = 43 then Some 0 else hex_value a, hex_value b) of
        (Some x, Some y) \<Rightarrow> Inr (word_of_nat (16 * x + y))
      | _ \<Rightarrow> Inl ParseError)"

fun hex_payload :: "bytes \<Rightarrow> bytes result" where
  "hex_payload [] = Inr []"
| "hex_payload [a] = Inl (Msg ''hex payload has odd length'')"
| "hex_payload (a # b # cs) =
     rbind (parse_hex_byte a b) (\<lambda>x. rbind (hex_payload cs) (\<lambda>xs. Inr (x # xs)))"

definition decode_hex :: "bytes \<Rightarrow> bytes result" where
  "decode_hex encoded =
     rbind (ensure (length encoded mod 2 = 0) (Msg ''hex payload has odd length'')) (\<lambda>_. hex_payload encoded)"

text \<open>The fingerprint is computed like that of the service, with the fields written out.\<close>

definition legacy_fingerprint :: "(bytes \<Rightarrow> bytes) \<Rightarrow> bytes \<Rightarrow> bytes \<Rightarrow> i64 \<Rightarrow> bytes" where
  "legacy_fingerprint sha owner sku_value d =
     sha (concat (map (\<lambda>field. u64_to_le (word_of_nat (length field)) @ field)
       [owner, sku_value, u64_to_le d, u64_to_le 1]))"

text \<open>The document has no \<open>writer_epoch\<close>, which \<open>#[serde(default)]\<close> reads as 0.\<close>

definition legacy_document :: "(bytes \<Rightarrow> bytes) \<Rightarrow> bytes \<Rightarrow> bytes \<Rightarrow> bytes \<Rightarrow> i64 \<Rightarrow> snapshot_data" where
  "legacy_document sha i owner sku_value d =
     \<lparr>sn_version = 1, sn_sequence = 0,
      sn_balances = [\<lparr>bs_owner_id = owner, bs_sku = sku_value, bs_balance = d\<rparr>],
      sn_dedup = [\<lparr>ds_operation_id = i, ds_fingerprint = legacy_fingerprint sha owner sku_value d\<rparr>],
      sn_writer_epoch = 0\<rparr>"

definition legacy_file :: "(bytes \<Rightarrow> bytes) \<Rightarrow> bytes \<Rightarrow> bytes" where
  "legacy_file sha payload =
     SNAP_LEGACY_MAGIC @ u64_to_le (word_of_nat (length payload)) @ sha payload @ payload"

definition parse_delta :: "bytes \<Rightarrow> i64 result" where
  "parse_delta text = (case parse_i64 (chars text) of Some d \<Rightarrow> Inr (word_of_int d) | None \<Rightarrow> Inl ParseError)"

definition write_legacy_snapshot :: "(bytes \<Rightarrow> bytes) \<Rightarrow> (snapshot_data \<Rightarrow> bytes) \<Rightarrow> bytes list \<Rightarrow> bytes result" where
  "write_legacy_snapshot sha to_json args =
     rbind (argument args 2 ''operation_id'') (\<lambda>i.
     rbind (argument args 3 ''owner_id'') (\<lambda>owner.
     rbind (argument args 4 ''sku'') (\<lambda>sku_value.
     rbind (argument args 5 ''delta'') (\<lambda>text.
     rbind (parse_delta text) (\<lambda>d.
     Inr (legacy_file sha (to_json (legacy_document sha i owner sku_value d))))))))"

text \<open>The batch of \<open>publish-stale\<close>, as the value of its JSON text.\<close>

definition stale_record :: "bytes list \<Rightarrow> log_record result" where
  "stale_record args =
     rbind (argument args 2 ''epoch'') (\<lambda>text.
     rbind (parse_u64 (chars text)) (\<lambda>epoch.
     rbind (argument args 3 ''operation_id'') (\<lambda>i.
     rbind (argument args 4 ''owner_id'') (\<lambda>owner.
     rbind (argument args 5 ''sku'') (\<lambda>sku_value.
     rbind (argument args 6 ''delta'') (\<lambda>text.
     rbind (parse_delta text) (\<lambda>d.
     Inr (LogOperations epoch [\<lparr>operation_id = i, owner_id = owner, sku = sku_value, delta = d, event_version = 1\<rparr>]))))))))"

definition poison :: bytes where
  "poison = ascii ''{invalid-json''"

text \<open>
  How the other calls end: the unauthenticated connection (\<open>None\<close> after three seconds), the
  authenticated one, the write of the file, and the count of the dead letters.
\<close>

record chaos_calls =
  cc_anonymous :: "unit result option"
  cc_connect :: "bytes \<Rightarrow> bytes \<Rightarrow> bytes \<Rightarrow> bytes \<Rightarrow> unit result"
  cc_write :: "unit result"
  cc_dlq_messages :: "nat result"

definition publish_printed :: "'l log_api \<Rightarrow> bytes result \<Rightarrow> 'l \<Rightarrow> string result \<times> 'l" where
  "publish_printed api payload l =
     (case payload of
        Inl e \<Rightarrow> (Inl e, l)
      | Inr p \<Rightarrow> (let (r, l') = js_publish api None p l in (rbind r (\<lambda>q. Inr (decimal (unat q))), l')))"

definition chaos_connect :: "environment \<Rightarrow> chaos_calls \<Rightarrow> unit result" where
  "chaos_connect env calls =
     (let url = env_value env ''NATS_URL'' ''nats://nats-1:4222'' in
      rbind (required_var env ''WAREHOUSE_NATS_USER'') (\<lambda>user.
      rbind (required_var env ''WAREHOUSE_NATS_PASSWORD'') (\<lambda>password.
      rbind (required_var env ''WAREHOUSE_NATS_CA'') (\<lambda>ca.
      cc_connect calls url user password ca))))"

text \<open>The printed line, the log, and the file \<open>/data/state.snapshot\<close> if it was written.\<close>

definition chaos ::
  "(bytes \<Rightarrow> bytes) \<Rightarrow> (snapshot_data \<Rightarrow> bytes) \<Rightarrow> (log_record \<Rightarrow> bytes) \<Rightarrow> environment \<Rightarrow> chaos_calls \<Rightarrow> 'l log_api
     \<Rightarrow> bytes list \<Rightarrow> 'l \<Rightarrow> string result \<times> 'l \<times> bytes option" where
  "chaos sha snapshot_json record_json env calls api args l =
     (case argument args 1 ''command'' of
        Inl e \<Rightarrow> (Inl e, l, None)
      | Inr command \<Rightarrow>
          if command = ascii ''expect-auth-rejected'' then
            (case cc_anonymous calls of
               Some (Inr _) \<Rightarrow> (Inl (Msg ''unauthenticated NATS connection was accepted''), l, None)
             | _ \<Rightarrow> (Inr ''authentication_rejected'', l, None))
          else if command = ascii ''write-legacy-snapshot'' then
            (case write_legacy_snapshot sha snapshot_json args of
               Inl e \<Rightarrow> (Inl e, l, None)
             | Inr data \<Rightarrow>
                 (case cc_write calls of
                    Inl e \<Rightarrow> (Inl e, l, None)
                  | Inr _ \<Rightarrow> (Inr ''legacy_snapshot_written'', l, Some data)))
          else (case chaos_connect env calls of
            Inl e \<Rightarrow> (Inl e, l, None)
          | Inr _ \<Rightarrow>
              if command = ascii ''publish-poison'' then
                (let (r, l') = publish_printed api (Inr poison) l in (r, l', None))
              else if command = ascii ''publish-hex'' then
                (let (r, l') = publish_printed api (rbind (argument args 2 ''hex payload'') decode_hex) l in (r, l', None))
              else if command = ascii ''publish-stale'' then
                (let (r, l') = publish_printed api (rbind (stale_record args) (\<lambda>rec. Inr (record_json rec))) l in (r, l', None))
              else if command = ascii ''dlq-count'' then
                (rbind (cc_dlq_messages calls) (\<lambda>n. Inr (decimal n)), l, None)
              else (Inl (Msg ''unknown command''), l, None)))"

section \<open>Hexadecimal\<close>

lemma digit_value: "n < 16 \<Longrightarrow> hex_value (of_char (digit n)) = Some n \<and> (of_char (digit n) :: byte) \<noteq> 43"
proof -
  assume n: "n < 16"
  then have u: "unat (of_char (digit n) :: byte) = (if n < 10 then 48 + n else 87 + n)" unfolding unat_of_char by (simp add: digit_def)
  then have "unat (of_char (digit n) :: byte) \<noteq> 43" by simp
  then have "(of_char (digit n) :: byte) \<noteq> 43" by auto
  moreover have "hex_value (of_char (digit n)) = Some n"
    using n u by (auto simp: hex_value_def word_le_nat_alt split: if_splits)
  ultimately show ?thesis by simp
qed

lemma hex_payload_hex: "hex_payload (ascii (hex p)) = Inr p"
proof (induction p)
  case (Cons b p)
  have b: "unat b div 16 < 16" "unat b mod 16 < 16" using unat_lt [of b] by simp_all
  have "parse_hex_byte (of_char (digit (unat b div 16))) (of_char (digit (unat b mod 16))) = Inr b"
    using digit_value [OF b(1)] digit_value [OF b(2)] by (simp add: parse_hex_byte_def)
  with Cons show ?case by (simp add: hex_def ascii_def)
qed (simp add: hex_def ascii_def)

text \<open>What was printed in hexadecimal is published; a sign in front of a digit is taken for a zero.\<close>

lemma decode_hex_roundtrip: "decode_hex (ascii (hex p)) = Inr p"
proof -
  have "length (hex p) = 2 * length p" by (simp add: hex_def length_concat comp_def sum_list_triv)
  then show ?thesis by (simp add: decode_hex_def hex_payload_hex)
qed

lemma hex_accepts_sign: "decode_hex (ascii ''+f'') = Inr [15]"
  by (simp add: decode_hex_def ascii_def parse_hex_byte_def hex_value_def)

section \<open>Messages past the writer\<close>

lemma poison_unreadable:
  assumes "json_record json poison = Inl e1" "json_operations json poison = Inl e2"
  shows "record_of json poison = LogOperations (- 1) []"
proof -
  have "\<not> starts_with LOG_MAGIC poison" by (simp add: starts_with_def LOG_MAGIC_def poison_def ascii_def)
  then show ?thesis using assms by (simp add: record_of_def decode_record_def parse_record_def decode_log_def)
qed

text \<open>A record that no replica takes: an empty batch, or one of another epoch than the active one.\<close>

definition ignored :: "log_record list \<Rightarrow> log_record \<Rightarrow> bool" where
  "ignored R rec \<longleftrightarrow> (\<exists>epoch ops. rec = LogOperations epoch ops \<and> (ops = [] \<or> epoch \<noteq> epoch_after 0 R))"

lemma ignored_append:
  "ignored R rec \<Longrightarrow> accepted_batches 0 (R @ [rec]) = accepted_batches 0 R \<and> epoch_after 0 (R @ [rec]) = epoch_after 0 R"
  by (auto simp: ignored_def accepted_batches_append epoch_after_append)

lemma published_ignored:
  assumes "replicated_log api contents" "publish_printed api (Inr p) l = (r, l')"
    and "ignored (log_records json (contents l)) (record_of json p)"
  shows "accepted_batches 0 (log_records json (contents l')) = accepted_batches 0 (log_records json (contents l))
    \<and> epoch_after 0 (log_records json (contents l')) = epoch_after 0 (log_records json (contents l))"
proof -
  have "l' = snd (js_publish api None p l)" using assms(2) by (auto simp: publish_printed_def Let_def split: prod.splits)
  then have "contents l' \<in> {contents l, contents l @ [(None, p)]}"
    using replicated_log.publish_contents [OF assms(1), of None p l] by simp
  then show ?thesis
    using ignored_append [OF assms(3)] by (elim insertE) (simp_all add: log_records_append, simp_all add: log_records_def)
qed

section \<open>A snapshot of the oldest format\<close>

lemma legacy_file_loads:
  assumes "length (sha p) = 32" "length p \<le> 4 * 1024 * 1024 * 1024"
  shows "snap_load sha json (FileData (legacy_file sha p)) =
    rbind (map_err (\<lambda>_. Msg ''invalid legacy snapshot payload'') (json p)) (\<lambda>s.
    rbind (ensure (1 \<le> sn_version s \<and> sn_version s \<le> 3) (Msg ''unsupported snapshot version''))
      (\<lambda>_. Inr (Some s)))"
proof -
  let ?d = "legacy_file sha p"
  have "length SNAP_LEGACY_MAGIC = 8" by (simp add: SNAP_LEGACY_MAGIC_def)
  then have "take 8 ?d = SNAP_LEGACY_MAGIC" "take 8 (drop 8 ?d) = u64_to_le (word_of_nat (length p))"
    "drop 48 ?d = p" "take 32 (drop 16 ?d) = sha p" "length ?d = 48 + length p"
    using assms(1) by (simp_all add: legacy_file_def)
  with assms(2) show ?thesis by (simp add: snap_load_def SNAP_HEADER_SIZE_def Let_def unat_of_nat)
qed

lemma legacy_fingerprint_eq:
  "legacy_fingerprint sha (owner_id op) (sku op) (delta op) = fingerprint sha (op\<lparr>event_version := 1\<rparr>)"
  by (simp add: legacy_fingerprint_def fingerprint_def hash_field_def)

context dedup_index
begin

lemma start_without_log:
  assumes "good d" "0 < n" "n < 2 ^ 64" "\<And>x. length (sha x) = 32"
    and "\<forall>(k, f) \<in> set (snapshot_entries sha snapshot). length f = 32"
  shows "\<exists>st. store_start sha hash ins n [] snapshot d = Inr st
    \<and> good (st_disk st) \<and> shards_ok hash (st_shards st) \<and> merged hash (st_shards st) = snapshot_balances snapshot
    \<and> lookup (st_disk st) = lookup d ++ map_of (rev (snapshot_entries sha snapshot))"
proof -
  from start_snapshot_ok [OF assms, of hash] obtain shards a d1 where
    s: "start_snapshot sha hash ins n snapshot d = Inr (shards, a, d1)" "good d1" "entries_ok a"
      "shards_ok hash shards" "merged hash shards = snapshot_balances snapshot"
      "known_with (a, d1) = lookup d ++ map_of (rev (snapshot_entries sha snapshot))" by blast
  have "entries_ok []" by (simp add: entries_ok_def)
  from insert_chunk_ok [OF s(2) this] obtain d2 where
    2: "insert_chunk ins [] d1 = Inr d2" "good d2" "lookup d2 = lookup d1" by auto
  from insert_chunk_ok [OF 2(2) s(3)] obtain d3 where
    3: "insert_chunk ins a d2 = Inr d3" "good d3" "lookup d3 = lookup d2 ++ map_of (rev a)" by blast
  have "lookup d3 = lookup d ++ map_of (rev (snapshot_entries sha snapshot))" using s(6) by (simp add: 3(3) 2(3) known_with_def)
  then show ?thesis using s(4,5) 3(2) by (simp add: store_start_def s(1) 2(1) 3(1))
qed

end

section \<open>The properties\<close>

text \<open>
  Messages past the writer change nothing.  Neither the unreadable message of
  \<open>publish-poison\<close> nor the batch of \<open>publish-stale\<close> under another epoch than the active one, in
  whatever way the publication ends, changes the batches that replicas accept from the log or the
  active epoch.
\<close>
theorem chaos_publications_ignored:
  assumes "replicated_log api contents" "args ! 1 \<in> {ascii ''publish-poison'', ascii ''publish-stale''}" "1 < length args"
    and "json_record json poison = Inl e1" "json_operations json poison = Inl e2"
    and "\<And>epoch ops. stale_record args = Inr (LogOperations epoch ops) \<Longrightarrow>
      epoch \<noteq> epoch_after 0 (log_records json (contents l))"
    and "\<And>rec. stale_record args = Inr rec \<Longrightarrow> record_of json (record_json rec) \<in> {rec, LogOperations (- 1) []}"
    and "chaos sha snapshot_json record_json env calls api args l = (printed, l', file)"
  shows "accepted_batches 0 (log_records json (contents l')) = accepted_batches 0 (log_records json (contents l))
    \<and> epoch_after 0 (log_records json (contents l')) = epoch_after 0 (log_records json (contents l))"
proof -
  let ?same = "\<lambda>l'. accepted_batches 0 (log_records json (contents l')) = accepted_batches 0 (log_records json (contents l))
    \<and> epoch_after 0 (log_records json (contents l')) = epoch_after 0 (log_records json (contents l))"
  have names: "ascii ''publish-poison'' \<noteq> ascii ''publish-stale''" "ascii ''publish-hex'' \<noteq> ascii ''publish-stale''"
    "ascii ''publish-poison'' \<noteq> ascii ''expect-auth-rejected''" "ascii ''publish-stale'' \<noteq> ascii ''expect-auth-rejected''"
    "ascii ''publish-poison'' \<noteq> ascii ''write-legacy-snapshot''" "ascii ''publish-stale'' \<noteq> ascii ''write-legacy-snapshot''"
    by (simp_all add: ascii_def)
  show ?thesis
  proof (cases "chaos_connect env calls")
    case (Inl e)
    with assms(2,3,8) names have "l' = l" by (auto simp: chaos_def argument_def)
    then show ?thesis by simp
  next
    case (Inr u)
    show ?thesis
    proof (cases "args ! 1 = ascii ''publish-poison''")
      case True
      have "ignored (log_records json (contents l)) (record_of json poison)"
        unfolding poison_unreadable [OF assms(4,5)] by (simp add: ignored_def)
      moreover obtain r where "publish_printed api (Inr poison) l = (r, l')"
        using True Inr assms(3,8) names by (auto simp: chaos_def argument_def Let_def split: prod.splits)
      ultimately show ?thesis by (intro published_ignored [OF assms(1)])
    next
      case False
      then have stale: "args ! 1 = ascii ''publish-stale''" using assms(2) by simp
      with Inr assms(3,8) names obtain r where
        pub: "publish_printed api (rbind (stale_record args) (\<lambda>rec. Inr (record_json rec))) l = (r, l')"
        by (auto simp: chaos_def argument_def Let_def split: prod.splits)
      show ?thesis
      proof (cases "stale_record args")
        case (Inl e)
        with pub have "l' = l" by (simp add: publish_printed_def)
        then show ?thesis by simp
      next
        case rec: (Inr rec)
        then obtain epoch ops where "rec = LogOperations epoch ops" by (auto simp: stale_record_def rbind_Inr_iff)
        with assms(6,7) rec have "ignored (log_records json (contents l)) (record_of json (record_json rec))"
          by (auto simp: ignored_def)
        with pub rec show ?thesis by (intro published_ignored [OF assms(1)]) simp_all
      qed
    qed
  qed
qed

text \<open>
  A snapshot of the oldest format still counts.  The file of \<open>write-legacy-snapshot\<close> is
  loaded, and a store started from it has the balance of its operation, and has accepted it: to
  deliver the operation again changes nothing, to deliver another one under its id is a conflict.
\<close>
theorem legacy_snapshot_accepted:
  assumes "dedup_index api lookup good" "good d" "0 < n" "n < 2 ^ 64" "\<forall>x. length (sha x) = 32"
    and "write_legacy_snapshot sha to_json args = Inr file" "parse_delta (args ! 5) = Inr (delta op)"
    and "operation_id op = args ! 2" "owner_id op = args ! 3" "sku op = args ! 4" "event_version op = 1"
    and "doc = legacy_document sha (args ! 2) (args ! 3) (args ! 4) (delta op)"
    and "json (to_json doc) = Inr doc" "length (to_json doc) \<le> 4 * 1024 * 1024 * 1024"
  shows "snap_load sha json (FileData file) = Inr (Some doc)
    \<and> (\<exists>st. store_start sha hash (ix_insert_many api (Inr ())) n [] (Some doc) d = Inr st
        \<and> merged hash (st_shards st) = [key_of op \<mapsto> delta op]
        \<and> (let known = (lookup (st_disk st), merged hash (st_shards st)) in
           replay_batch sha [op] known = Some known
           \<and> (fingerprint sha op' \<noteq> fingerprint sha op \<longrightarrow> operation_id op' = operation_id op \<longrightarrow> replay_batch sha [op'] known = None)))"
proof -
  have len: "\<And>x. length (sha x) = 32" using assms(5) by simp
  have op: "op\<lparr>event_version := 1\<rparr> = op" using assms(11) by simp
  have fp: "legacy_fingerprint sha (args ! 3) (args ! 4) (delta op) = fingerprint sha op"
    using legacy_fingerprint_eq [of sha op] assms(9,10) op by simp
  have bytes: "file = legacy_file sha (to_json doc)"
    using assms(6,7,12) by (auto simp: write_legacy_snapshot_def rbind_Inr_iff argument_def split: if_splits)
  have load: "snap_load sha json (FileData file) = Inr (Some doc)"
    using legacy_file_loads [of sha "to_json doc" json, OF len assms(14)] assms(12,13)
    by (simp add: bytes legacy_document_def)
  have entries: "snapshot_entries sha (Some doc) = [(sha (operation_id op), fingerprint sha op)]"
    using assms(8,12) fp by (simp add: snapshot_entries_def legacy_document_def dedup_entry_of_def)
  have "\<forall>(k, f) \<in> set (snapshot_entries sha (Some doc)). length f = 32" by (simp add: entries fingerprint_def len)
  from dedup_index.start_without_log [where hash = hash, OF assms(1-4) len this] obtain st where st:
    "store_start sha hash (ix_insert_many api (Inr ())) n [] (Some doc) d = Inr st"
    "merged hash (st_shards st) = snapshot_balances (Some doc)"
    "lookup (st_disk st) = (lookup d)(sha (operation_id op) \<mapsto> fingerprint sha op)" by (auto simp: entries)
  have balances: "snapshot_balances (Some doc) = [key_of op \<mapsto> delta op]"
    using assms(9,10,12) by (simp add: snapshot_balances_def row_map_def legacy_document_def key_of_def)
  have "settled sha (lookup (st_disk st)) [op]" by (simp add: settled_def st(3))
  then have again: "replay_batch sha [op] (lookup (st_disk st), B) = Some (lookup (st_disk st), B)" for B by (rule settled_replay)
  have "replay_batch sha [op'] (lookup (st_disk st), B) = None"
    if "fingerprint sha op' \<noteq> fingerprint sha op" "operation_id op' = operation_id op" for B
    using that by (simp add: replay_batch_def batch_consistent_def st(3))
  with load st(1,2) balances again show ?thesis by auto
qed

section \<open>Two runs\<close>

definition sample_chaos_env :: environment where
  "sample_chaos_env = [''WAREHOUSE_NATS_USER'' \<mapsto> [], ''WAREHOUSE_NATS_PASSWORD'' \<mapsto> [], ''WAREHOUSE_NATS_CA'' \<mapsto> []]"

definition sample_chaos_calls :: chaos_calls where
  "sample_chaos_calls = \<lparr>cc_anonymous = None, cc_connect = (\<lambda>_ _ _ _. Inr ()), cc_write = Inr (), cc_dlq_messages = Inr 0\<rparr>"

lemma chaos_publications_ignored_witness:
  "\<exists>printed l'. chaos pad (\<lambda>_. []) (\<lambda>_. []) sample_chaos_env sample_chaos_calls list_log_api [[], ascii ''publish-poison''] ([], [])
      = (printed, l', None)
    \<and> length (fst l') = 1 \<and> accepted_batches 0 (log_records sample_json (fst l')) = []"
proof -
  let ?args = "[[], ascii ''publish-poison'']"
  have connected: "chaos_connect sample_chaos_env sample_chaos_calls = Inr ()"
    by (simp add: chaos_connect_def sample_chaos_env_def sample_chaos_calls_def required_var_def)
  have names: "ascii ''publish-poison'' \<noteq> ascii ''expect-auth-rejected''" "ascii ''publish-poison'' \<noteq> ascii ''write-legacy-snapshot''"
    by (simp_all add: ascii_def)
  have run: "chaos pad (\<lambda>_. []) (\<lambda>_. []) sample_chaos_env sample_chaos_calls list_log_api ?args ([], [])
      = (Inr (decimal 1), ([(None, poison)], []), None)"
    by (simp add: chaos_def argument_def connected names publish_printed_def list_log_api_def)
  have args: "?args ! 1 \<in> {ascii ''publish-poison'', ascii ''publish-stale''}" "1 < length ?args" by simp_all
  have json: "json_record sample_json poison = Inl ParseError" "json_operations sample_json poison = Inl ParseError"
    by (simp_all add: sample_json_def)
  have none: "stale_record ?args = Inr rec \<Longrightarrow> P" for rec P by (simp add: stale_record_def argument_def)
  from chaos_publications_ignored [OF list_log.replicated_log_axioms args json none none run] run
  show ?thesis by (simp add: log_records_def)
qed

lemma legacy_snapshot_accepted_witness:
  "\<exists>file doc st. write_legacy_snapshot pad (\<lambda>_. [1]) [[], [], ascii ''op-1'', ascii ''ann'', ascii ''bolt'', ascii ''5''] = Inr file
    \<and> snap_load pad (\<lambda>_. Inr doc) (FileData file) = Inr (Some doc)
    \<and> store_start pad sample_hash (ix_insert_many (disk_index_api alist_api alist_api) (Inr ())) 4 [] (Some doc) sample_disk = Inr st
    \<and> merged sample_hash (st_shards st) = [(ascii ''ann'', ascii ''bolt'') \<mapsto> 5]"
proof -
  let ?args = "[[], [], ascii ''op-1'', ascii ''ann'', ascii ''bolt'', ascii ''5'']"
  let ?op = "sample_op ''op-1'' ''ann'' ''bolt'' 5"
  let ?doc = "legacy_document pad (?args ! 2) (?args ! 3) (?args ! 4) (delta ?op)"
  have five: "ascii_only ''5''" by (simp add: ascii_only_def)
  have delta: "parse_delta (?args ! 5) = Inr (delta ?op)"
    by (simp add: parse_delta_def ascii_str_facts [OF five] parse_i64_def is_digit_def digits_value_def sample_op_def)
  then have w: "write_legacy_snapshot pad (\<lambda>_. [1]) ?args = Inr (legacy_file pad [1])"
    by (simp add: write_legacy_snapshot_def argument_def)
  have op: "operation_id ?op = ?args ! 2" "owner_id ?op = ?args ! 3" "sku ?op = ?args ! 4" "event_version ?op = 1"
    by (simp_all add: sample_op_def)
  have n: "0 < (4 :: nat)" "4 < (2 ^ 64 :: nat)" "\<forall>x. length (pad x) = 32" "length [1 :: byte] \<le> 4 * 1024 * 1024 * 1024"
    by (simp_all add: length_pad)
  from legacy_snapshot_accepted [where hash = sample_hash and json = "\<lambda>_. Inr ?doc" and to_json = "\<lambda>_. [1]",
      OF alist_disk.index.dedup_index_axioms _ n(1-3) w delta op refl refl n(4), of sample_disk] sample_disk_ok
  obtain st where "snap_load pad (\<lambda>_. Inr ?doc) (FileData (legacy_file pad [1])) = Inr (Some ?doc)"
    "store_start pad sample_hash (ix_insert_many (disk_index_api alist_api alist_api) (Inr ())) 4 [] (Some ?doc) sample_disk = Inr st"
    "merged sample_hash (st_shards st) = [key_of ?op \<mapsto> delta ?op]" by auto
  with w show ?thesis by (auto simp: key_of_def sample_op_def)
qed

end
