(* ===== verification/Service.thy ===== *)
theory Service
  imports ReadHandlers LoadData
begin

text \<open>
  The rest of the service process (\<open>src/main.rs\<close>): the routes of the HTTP server, the values
  and tasks with which it starts, the refreshing of the entry counts, and the metrics page with
  what it asks of the log (\<open>src/cluster.rs\<close>) and of the store (\<open>src/state.rs\<close>).  Matching a path
  against the patterns is the router of axum, a parameter with its documented rule in the locale
  \<open>path_router\<close>.  The files whose lengths are shown, the embedded stores' own figures and the
  text of a number of seconds are parameters.
\<close>

section \<open>The code\<close>

subsection \<open>Routes\<close>

datatype http_method = GET | POST

datatype endpoint =
    Live | Ready | MetricsPage | ApplyOne | GetOperation | ReadOperations | ScanOperations | OperationsByOwner
  | OperationsBySku | ApplyBatch | GetBalance | ReadBalances | GetOwnerBalances

definition routes :: "(string \<times> http_method \<times> endpoint) list" where
  "routes =
     [(''/live'', GET, Live),
      (''/ready'', GET, Ready),
      (''/metrics'', GET, MetricsPage),
      (''/v1/operations'', POST, ApplyOne),
      (''/v1/operations/:operation_id'', GET, GetOperation),
      (''/v1/operations/read-batch'', POST, ReadOperations),
      (''/v1/operations/scan'', GET, ScanOperations),
      (''/v1/operations/by-owner/:owner_id'', GET, OperationsByOwner),
      (''/v1/operations/by-sku/:sku'', GET, OperationsBySku),
      (''/v1/operations/batch'', POST, ApplyBatch),
      (''/v1/balances/:owner_id/:sku'', GET, GetBalance),
      (''/v1/balances/read-batch'', POST, ReadBalances),
      (''/v1/balances/:owner_id'', GET, GetOwnerBalances)]"

datatype routed = Handled endpoint | MethodNotAllowed | NoRoute | BodyTooLarge

text \<open>
  The pattern of the path decides the route, its method the handler; a body over 16 MiB is
  refused before the handler sees it.
\<close>

definition route :: "(bytes list \<Rightarrow> bytes \<Rightarrow> bytes option) \<Rightarrow> http_method \<Rightarrow> bytes \<Rightarrow> nat \<Rightarrow> routed" where
  "route find_route method path body_length =
     (case find_route (map (\<lambda>(p, _). ascii p) routes) path of
        None \<Rightarrow> NoRoute
      | Some pattern \<Rightarrow>
          (case find (\<lambda>(p, m, _). ascii p = pattern \<and> m = method) routes of
             None \<Rightarrow> MethodNotAllowed
           | Some (_, _, e) \<Rightarrow>
               if method = POST \<and> body_length > 16 * 1024 * 1024 then BodyTooLarge else Handled e))"

subsection \<open>Health\<close>

definition live :: "nat \<Rightarrow> string \<times> nat" where
  "live uptime_seconds = (''ok'', uptime_seconds)"

text \<open>The argument \<open>--healthcheck\<close>: the status of \<open>/live\<close>, or the error of the request.\<close>

definition healthcheck :: "nat result \<Rightarrow> unit result" where
  "healthcheck response =
     rbind response (\<lambda>status.
       ensure (200 \<le> status \<and> status < 300) (Msg (''health endpoint returned '' @ decimal status)))"

subsection \<open>Entry counts\<close>

record storage_counts =
  sc_dedup :: nat
  sc_history :: nat

definition storage_lengths :: "'l kv_api \<Rightarrow> 'r kv_api \<Rightarrow> ('l, 'r) disk \<Rightarrow> storage_counts result" where
  "storage_lengths lsm red d =
     rbind (disk_len lsm red d) (\<lambda>dedup.
     rbind (history_len lsm red d) (\<lambda>history. Inr \<lparr>sc_dedup = dedup, sc_history = history\<rparr>))"

text \<open>A turn of \<open>run_storage_count_refresh\<close>; \<open>None\<close> when the reader task panics.\<close>

definition refresh_turn :: "storage_counts result option \<Rightarrow> storage_counts \<Rightarrow> storage_counts" where
  "refresh_turn lengths counts =
     (case lengths of
        Some (Inr c) \<Rightarrow> c
      | Some (Inl _) \<Rightarrow> counts
      | None \<Rightarrow> counts)"

subsection \<open>From the compaction to the server\<close>

datatype task = LiveTailTask | HistoryTask | LeaseTask | CountRefreshTask

record 'd serving =
  sv_counts :: storage_counts
  sv_history_checkpoint :: u64
  sv_tasks :: "task list"
  sv_disk :: 'd

text \<open>
  \<open>migrate\<close> and \<open>lease\<close> are how the commit of the migration and the first calls of the lease
  end; \<open>replicated\<close> says whether there is a replicated log.
\<close>

definition start_serving ::
  "'l kv_api \<Rightarrow> 'r kv_api \<Rightarrow> bool \<Rightarrow> bool \<Rightarrow> unit result \<Rightarrow> unit result \<Rightarrow> ('l, 'r) disk \<Rightarrow> ('l, 'r) disk serving result" where
  "start_serving lsm red live_tail replicated migrate lease d =
     rbind (storage_lengths lsm red d) (\<lambda>counts.
     let (migration, d') = prepare_binary_history_migration lsm migrate d in
     rbind migration (\<lambda>(history_sequence, _).
     rbind (if replicated then lease else Inr ()) (\<lambda>_.
     Inr \<lparr>sv_counts = counts, sv_history_checkpoint = history_sequence,
          sv_tasks = (if live_tail \<and> replicated then [LiveTailTask] else [])
            @ (if replicated then [HistoryTask, LeaseTask] else []) @ [CountRefreshTask],
          sv_disk = d'\<rparr>)))"

subsection \<open>What the metrics page asks\<close>

record stream_info =
  si_last_sequence :: u64
  si_messages :: u64
  si_bytes :: u64
  si_max_bytes :: i64

definition last_sequence_of :: "unit result \<Rightarrow> stream_info result \<Rightarrow> u64 result" where
  "last_sequence_of stream info = rbind stream (\<lambda>_. rbind info (\<lambda>i. Inr (si_last_sequence i)))"

definition storage_state :: "unit result \<Rightarrow> stream_info result \<Rightarrow> (u64 \<times> u64 \<times> u64 \<times> u64) result" where
  "storage_state stream info =
     rbind stream (\<lambda>_. rbind info (\<lambda>i.
       Inr (si_last_sequence i, si_messages i, si_bytes i, if 0 \<le> sint (si_max_bytes i) then si_max_bytes i else 0)))"

text \<open>\<open>entries_of\<close> iterates over the values of a \<open>HashMap\<close> in an order of its own.\<close>

definition runtime_cardinality ::
  "((bytes \<Rightarrow> dedup_entry option) \<Rightarrow> dedup_entry list) \<Rightarrow> memory \<Rightarrow> nat \<Rightarrow> nat \<times> nat \<times> nat" where
  "runtime_cardinality entries_of mem positions =
     (let (committed, pending) =
        fold (\<lambda>shard n. fold (\<lambda>entry (committed, pending).
            case entry of
              Committed _ \<Rightarrow> (committed + 1, pending)
            | Pending _ _ \<Rightarrow> (committed, pending + 1)) (entries_of shard) n) mem (0, 0)
      in (committed, pending, positions))"

text \<open>\<open>str::split_whitespace\<close> on the characters of a line.\<close>

fun split_whitespace :: "nat list \<Rightarrow> nat list list" where
  "split_whitespace [] = []"
| "split_whitespace (c # cs) =
     (if is_whitespace c then split_whitespace cs
      else if cs = [] \<or> is_whitespace (hd cs) then [c] # split_whitespace cs
      else (case split_whitespace cs of w # ws \<Rightarrow> (c # w) # ws | [] \<Rightarrow> [[c]]))"

text \<open>The file \<open>/proc/self/status\<close>, or \<open>None\<close> when it cannot be read.\<close>

definition process_memory_bytes :: "bytes option \<Rightarrow> u64 option" where
  "process_memory_bytes status =
     (case status of
        None \<Rightarrow> None
      | Some content \<Rightarrow>
          if \<not> str_ok content then None
          else (case find (\<lambda>line. take 6 line = ascii ''VmRSS:'') (read_lines content) of
             None \<Rightarrow> None
           | Some line \<Rightarrow>
               (case split_whitespace (chars line) of
                  _ # word # _ \<Rightarrow>
                    (case parse_u64 word of
                       Inr n \<Rightarrow> if unat n * 1024 < 2 ^ 64 then Some (n * 1024) else None
                     | Inl _ \<Rightarrow> None)
                | _ \<Rightarrow> None)))"

subsection \<open>The metrics page\<close>

text \<open>\<open>fetch_add\<close> wraps around; a duration over \<open>u64::MAX\<close> nanoseconds counts as that.\<close>

definition record_duration :: "nat \<Rightarrow> u64 \<Rightarrow> u64" where
  "record_duration elapsed target = target + word_of_nat (min elapsed (2 ^ 64 - 1))"

record pipeline =
  pl_json_decode_ns :: u64
  pl_preflight_ns :: u64
  pl_quorum_ns :: u64
  pl_apply_ns :: u64
  pl_finish_ns :: u64
  pl_handler_ns :: u64

text \<open>
  What a request of the page sees.  \<open>mv_storage\<close>: the state of the stream as far as it is known
  after 500 ms, or \<open>None\<close> on a node without log; \<open>mv_owns\<close> and \<open>mv_epoch\<close>: the two answers of
  the lease, for 250 ms ahead, or \<open>None\<close> on a node without lease; the lengths of files are
  \<open>None\<close> when they cannot be read.
\<close>

record metrics_view =
  mv_checkpoint :: checkpoint
  mv_storage :: "(u64 \<times> u64 \<times> u64 \<times> u64) result option option"
  mv_owns :: "bool option"
  mv_epoch :: "u64 option option"
  mv_wal_bytes :: "u64 option"
  mv_dedup_bytes :: "u64 option"
  mv_history_bytes :: "u64 option"
  mv_counts :: storage_counts
  mv_history_checkpoint :: u64
  mv_status :: "bytes option"
  mv_cardinality :: "nat \<times> nat \<times> nat"
  mv_disk_memory :: "u64 \<times> u64 \<times> u64 \<times> nat"
  mv_bloom_ready :: bool
  mv_metrics :: metrics
  mv_pipeline :: pipeline

definition saturating_sub :: "u64 \<Rightarrow> u64 \<Rightarrow> u64" where
  "saturating_sub a b = (if b \<le> a then a - b else 0)"

definition stream_view :: "metrics_view \<Rightarrow> bool \<times> u64 \<times> u64 \<times> u64 \<times> u64" where
  "stream_view v =
     (case mv_storage v of
        Some (Some (Inr (sequence, messages, bytes, max_bytes))) \<Rightarrow> (True, sequence, messages, bytes, max_bytes)
      | Some _ \<Rightarrow> (False, current (mv_checkpoint v), 0, 0, 0)
      | None \<Rightarrow> (False, current (mv_checkpoint v), 0, 0, 0))"

definition or_zero :: "u64 option \<Rightarrow> u64" where
  "or_zero n = (case n of Some k \<Rightarrow> k | None \<Rightarrow> 0)"

text \<open>
  The page is a format of 37 lines with one hole each, and the list of the arguments that are
  put into the holes in their order.  A line has the name twice: in the declaration of its
  kind, and before the hole.  A hole shows a number, or seconds with nine digits.
\<close>

datatype hole = Plain | Nine

datatype format_arg = Number nat | Float u64 \<comment> \<open>the seconds of so many nanoseconds\<close>

type_synonym format_line = "string \<times> string \<times> string \<times> hole"

definition metrics_format :: "format_line list" where
  "metrics_format =
    [
     (''warehouse_operations_applied_total'', ''counter'', ''warehouse_operations_applied_total'', Plain),
     (''warehouse_operations_duplicate_total'', ''counter'', ''warehouse_operations_duplicate_total'', Plain),
     (''warehouse_conflicts_total'', ''counter'', ''warehouse_conflicts_total'', Plain),
     (''warehouse_unavailable_total'', ''counter'', ''warehouse_unavailable_total'', Plain),
     (''warehouse_quorum_available'', ''gauge'', ''warehouse_quorum_available'', Plain),
     (''warehouse_writer_lease_owned'', ''gauge'', ''warehouse_writer_lease_owned'', Plain),
     (''warehouse_writer_epoch'', ''gauge'', ''warehouse_writer_epoch'', Plain),
     (''warehouse_replication_checkpoint'', ''gauge'', ''warehouse_replication_checkpoint'', Plain),
     (''warehouse_replication_last_sequence'', ''gauge'', ''warehouse_replication_last_sequence'', Plain),
     (''warehouse_replication_lag'', ''gauge'', ''warehouse_replication_lag'', Plain),
     (''warehouse_wal_bytes'', ''gauge'', ''warehouse_wal_bytes'', Plain),
     (''warehouse_process_memory_bytes'', ''gauge'', ''warehouse_process_memory_bytes'', Plain),
     (''warehouse_memory_dedup_committed'', ''gauge'', ''warehouse_memory_dedup_committed'', Plain),
     (''warehouse_memory_dedup_pending'', ''gauge'', ''warehouse_memory_dedup_pending'', Plain),
     (''warehouse_balance_positions'', ''gauge'', ''warehouse_balance_positions'', Plain),
     (''warehouse_lsm_cache_bytes'', ''gauge'', ''warehouse_lsm_cache_bytes'', Plain),
     (''warehouse_lsm_cache_capacity_bytes'', ''gauge'', ''warehouse_lsm_cache_capacity_bytes'', Plain),
     (''warehouse_lsm_write_buffer_bytes'', ''gauge'', ''warehouse_lsm_write_buffer_bytes'', Plain),
     (''warehouse_lsm_outstanding_flushes'', ''gauge'', ''warehouse_lsm_outstanding_flushes'', Plain),
     (''warehouse_disk_dedup_entries'', ''gauge'', ''warehouse_disk_dedup_entries'', Plain),
     (''warehouse_disk_dedup_bytes'', ''gauge'', ''warehouse_disk_dedup_bytes'', Plain),
     (''warehouse_history_entries'', ''gauge'', ''warehouse_history_entries'', Plain),
     (''warehouse_history_bytes'', ''gauge'', ''warehouse_history_bytes'', Plain),
     (''warehouse_history_checkpoint'', ''gauge'', ''warehouse_history_checkpoint'', Plain),
     (''warehouse_history_lag'', ''gauge'', ''warehouse_history_lag'', Plain),
     (''warehouse_stream_messages'', ''gauge'', ''warehouse_stream_messages'', Plain),
     (''warehouse_stream_bytes'', ''gauge'', ''warehouse_stream_bytes'', Plain),
     (''warehouse_stream_max_bytes'', ''gauge'', ''warehouse_stream_max_bytes'', Plain),
     (''warehouse_disk_bloom_ready'', ''gauge'', ''warehouse_disk_bloom_ready'', Plain),
     (''warehouse_pipeline_batch_requests_total'', ''counter'', ''warehouse_pipeline_batch_requests_total'', Plain),
     (''warehouse_pipeline_operations_total'', ''counter'', ''warehouse_pipeline_operations_total'', Plain),
     (''warehouse_pipeline_json_decode_seconds_total'', ''counter'', ''warehouse_pipeline_json_decode_seconds_total'', Nine),
     (''warehouse_pipeline_preflight_seconds_total'', ''counter'', ''warehouse_pipeline_preflight_seconds_total'', Nine),
     (''warehouse_pipeline_quorum_seconds_total'', ''counter'', ''warehouse_pipeline_quorum_seconds_total'', Nine),
     (''warehouse_pipeline_wal_apply_seconds_total'', ''counter'', ''warehouse_pipeline_wal_apply_seconds_total'', Nine),
     (''warehouse_pipeline_publish_seconds_total'', ''counter'', ''warehouse_pipeline_publish_seconds_total'', Nine),
     (''warehouse_pipeline_handler_seconds_total'', ''counter'', ''warehouse_pipeline_handler_seconds_total'', Nine)]"

definition metrics_args :: "metrics_view \<Rightarrow> format_arg list" where
  "metrics_args v =
     (let (quorum, last_sequence, messages, bytes, max_bytes) = stream_view v;
          checkpoint = current (mv_checkpoint v);
          (committed, pending, positions) = mv_cardinality v;
          (cache, capacity, buffer, flushes) = mv_disk_memory v;
          m = mv_metrics v; p = mv_pipeline v
      in [Number (unat (m_applied m)), Number (unat (m_duplicates m)),
         Number (unat (m_conflicts m)), Number (unat (m_unavailable m)),
         Number (of_bool quorum), Number (of_bool (mv_owns v = Some True)),
         Number (unat (case mv_epoch v of Some e \<Rightarrow> or_zero e | None \<Rightarrow> 0)), Number (unat checkpoint), Number (unat last_sequence),
         Number (unat (saturating_sub last_sequence checkpoint)), Number (unat (or_zero (mv_wal_bytes v))),
         Number (unat (or_zero (process_memory_bytes (mv_status v)))),
         Number committed, Number pending, Number positions, Number (unat cache), Number (unat capacity),
         Number (unat buffer), Number flushes,
         Number (sc_dedup (mv_counts v)), Number (unat (or_zero (mv_dedup_bytes v))),
         Number (sc_history (mv_counts v)), Number (unat (or_zero (mv_history_bytes v))),
         Number (unat (mv_history_checkpoint v)), Number (unat (saturating_sub last_sequence (mv_history_checkpoint v))),
         Number (unat messages), Number (unat bytes), Number (unat max_bytes),
         Number (of_bool (mv_bloom_ready v)), Number (unat (m_batch_requests m)), Number (unat (m_pipeline_operations m)),
         Float (pl_json_decode_ns p), Float (pl_preflight_ns p),
         Float (pl_quorum_ns p), Float (pl_apply_ns p),
         Float (pl_finish_ns p), Float (pl_handler_ns p)])"

text \<open>
  \<open>shown\<close> prints a number of nanoseconds as seconds.  The compiler refuses a format with too
  many or too few arguments.
\<close>

fun show_arg :: "(u64 \<Rightarrow> string) \<Rightarrow> hole \<Rightarrow> format_arg \<Rightarrow> string option" where
  "show_arg shown Plain (Number n) = Some (decimal n)"
| "show_arg shown Nine (Float ns) = Some (shown ns)"
| "show_arg shown _ _ = None"

fun fill_lines :: "(u64 \<Rightarrow> string) \<Rightarrow> format_line list \<Rightarrow> format_arg list \<Rightarrow> string option" where
  "fill_lines shown [] [] = Some []"
| "fill_lines shown ((declared, kind, name, hole) # ls) (a # as) =
     (case (show_arg shown hole a, fill_lines shown ls as) of
        (Some x, Some text) \<Rightarrow> Some (''# TYPE '' @ declared @ '' '' @ kind @ [CHR 0x0A] @ name @ '' '' @ x @ [CHR 0x0A] @ text)
      | _ \<Rightarrow> None)"
| "fill_lines shown _ _ = None"

definition metrics_page :: "(u64 \<Rightarrow> string) \<Rightarrow> metrics_view \<Rightarrow> string option" where
  "metrics_page shown v = fill_lines shown metrics_format (metrics_args v)"

section \<open>The router\<close>

fun split_on :: "'a \<Rightarrow> 'a list \<Rightarrow> 'a list list" where
  "split_on sep [] = [[]]"
| "split_on sep (c # cs) =
     (if c = sep then [] # split_on sep cs
      else case split_on sep cs of s # ss \<Rightarrow> (c # s) # ss | [] \<Rightarrow> [[c]])"

text \<open>A segment that starts with a colon matches any segment that is not empty.\<close>

definition segment_matches :: "bytes \<Rightarrow> bytes \<Rightarrow> bool" where
  "segment_matches p s \<longleftrightarrow> (if p \<noteq> [] \<and> hd p = 58 then s \<noteq> [] else p = s)"

definition pattern_matches :: "bytes \<Rightarrow> bytes \<Rightarrow> bool" where
  "pattern_matches p path \<longleftrightarrow> list_all2 segment_matches (split_on 47 p) (split_on 47 path)"

text \<open>What the documentation of the router promises: patterns without captures come first.\<close>

locale path_router =
  fixes find_route :: "bytes list \<Rightarrow> bytes \<Rightarrow> bytes option"
  assumes literal: "path \<in> set patterns \<Longrightarrow> 58 \<notin> set path \<Longrightarrow> find_route patterns path = Some path"
    and found: "find_route patterns path = Some p \<Longrightarrow> p \<in> set patterns \<and> pattern_matches p path"
    and complete: "p \<in> set patterns \<Longrightarrow> pattern_matches p path \<Longrightarrow> find_route patterns path \<noteq> None"

lemma split_on_ne [simp]: "split_on sep cs \<noteq> []"
  by (cases cs) (auto split: list.splits)

lemma segments_plain: "sep \<notin> set bs \<Longrightarrow> split_on sep bs = [bs]"
  by (induction bs) auto

lemma segments_chars: "s \<in> set (split_on 47 bs) \<Longrightarrow> set s \<subseteq> set bs"
proof (induction bs arbitrary: s)
  case (Cons b bs)
  obtain t ts where t: "split_on 47 bs = t # ts" by (meson neq_Nil_conv split_on_ne)
  with Cons.IH have "set t \<subseteq> set bs" "x \<in> set ts \<Longrightarrow> set x \<subseteq> set bs" for x by auto
  with Cons.prems t show ?case by (auto split: if_splits)
qed simp

lemma pattern_matches_literal: "58 \<notin> set p \<Longrightarrow> pattern_matches p p"
  unfolding pattern_matches_def list_all2_same
  using segments_chars hd_in_set by (fastforce simp: segment_matches_def)

definition find_first :: "bytes list \<Rightarrow> bytes \<Rightarrow> bytes option" where
  "find_first patterns path =
     (if path \<in> set patterns \<and> 58 \<notin> set path then Some path else find (\<lambda>p. pattern_matches p path) patterns)"

interpretation first_router: path_router find_first
proof
  show "find_first patterns path = Some path" if "path \<in> set patterns" "58 \<notin> set path" for patterns path
    using that by (simp add: find_first_def)
  show "p \<in> set patterns \<and> pattern_matches p path" if "find_first patterns path = Some p" for patterns path p
    using that pattern_matches_literal by (auto simp: find_first_def find_Some_iff split: if_splits)
  show "find_first patterns path \<noteq> None" if "p \<in> set patterns" "pattern_matches p path" for patterns path p
    using that find_None_iff [of "\<lambda>p. pattern_matches p path" patterns] by (auto simp: find_first_def)
qed

text \<open>The patterns, taken apart.\<close>

lemma of_char_byte_eq: "(of_char c :: byte) = of_char d \<longleftrightarrow> c = d"
  by (metis of_char_eq_iff unat_of_char)

lemma ascii_eq: "ascii s = ascii t \<longleftrightarrow> s = t"
  by (simp add: ascii_def inj_map_eq_map inj_def of_char_byte_eq)

lemma segments_ascii: "split_on 47 (ascii s) = map ascii (split_on CHR ''/'' s)"
proof (induction s)
  case (Cons c s)
  have "(of_char c :: byte) = 47 \<longleftrightarrow> c = CHR ''/''" using of_char_byte_eq [of c "CHR ''/''"] by simp
  with Cons show ?case by (simp add: ascii_def split: list.split)
qed (simp add: ascii_def)

lemma route_parts:
  "map (\<lambda>(p, _). (p, split_on CHR ''/'' p)) routes =
     [(''/live'', [[], ''live'']), (''/ready'', [[], ''ready'']), (''/metrics'', [[], ''metrics'']),
      (''/v1/operations'', [[], ''v1'', ''operations'']),
      (''/v1/operations/:operation_id'', [[], ''v1'', ''operations'', '':operation_id'']),
      (''/v1/operations/read-batch'', [[], ''v1'', ''operations'', ''read-batch'']),
      (''/v1/operations/scan'', [[], ''v1'', ''operations'', ''scan'']),
      (''/v1/operations/by-owner/:owner_id'', [[], ''v1'', ''operations'', ''by-owner'', '':owner_id'']),
      (''/v1/operations/by-sku/:sku'', [[], ''v1'', ''operations'', ''by-sku'', '':sku'']),
      (''/v1/operations/batch'', [[], ''v1'', ''operations'', ''batch'']),
      (''/v1/balances/:owner_id/:sku'', [[], ''v1'', ''balances'', '':owner_id'', '':sku'']),
      (''/v1/balances/read-batch'', [[], ''v1'', ''balances'', ''read-batch'']),
      (''/v1/balances/:owner_id'', [[], ''v1'', ''balances'', '':owner_id''])]"
  by (simp add: routes_def)

lemma segment_matches_ascii:
  "segment_matches (ascii p) s \<longleftrightarrow> (if take 1 p = '':'' then s \<noteq> [] else s = ascii p)"
proof (cases p)
  case (Cons c cs)
  have "(of_char c :: byte) = 58 \<longleftrightarrow> c = CHR '':''"
    using of_char_byte_eq [of c "CHR '':''"] by simp
  with Cons show ?thesis by (auto simp: segment_matches_def ascii_def)
qed (auto simp: segment_matches_def ascii_def)

lemma route_patterns_of:
  assumes "p \<in> set (map (\<lambda>(p, _). ascii p) routes)" "pattern_matches p path"
  shows "\<exists>q ps. (q, ps) \<in> set (map (\<lambda>(p, _). (p, split_on CHR ''/'' p)) routes) \<and> p = ascii q
    \<and> list_all2 segment_matches (map ascii ps) (split_on 47 path)"
proof -
  from assms(1) obtain q r where q: "(q, r) \<in> set routes" "p = ascii q" by auto
  then have "(q, split_on CHR ''/'' q) \<in> set (map (\<lambda>(p, _). (p, split_on CHR ''/'' p)) routes)" by (force simp: image_iff)
  moreover have "list_all2 segment_matches (map ascii (split_on CHR ''/'' q)) (split_on 47 path)"
    using assms(2) q(2) by (simp add: pattern_matches_def segments_ascii)
  ultimately show ?thesis using q(2) by blast
qed

lemma operation_segments:
  "47 \<notin> set i \<Longrightarrow> split_on 47 (ascii ''/v1/operations/'' @ i) = map ascii [[], ''v1'', ''operations''] @ [i]"
  by (simp add: ascii_def segments_plain)

lemma route_four:
  "filter (\<lambda>(q, ps). length ps = 4) (map (\<lambda>(p, _). (p, split_on CHR ''/'' p)) routes) =
     [(''/v1/operations/:operation_id'', [[], ''v1'', ''operations'', '':operation_id'']),
      (''/v1/operations/read-batch'', [[], ''v1'', ''operations'', ''read-batch'']),
      (''/v1/operations/scan'', [[], ''v1'', ''operations'', ''scan'']),
      (''/v1/operations/batch'', [[], ''v1'', ''operations'', ''batch'']),
      (''/v1/balances/read-batch'', [[], ''v1'', ''balances'', ''read-batch'']),
      (''/v1/balances/:owner_id'', [[], ''v1'', ''balances'', '':owner_id''])]"
  unfolding route_parts by simp

text \<open>The patterns that a path \<open>/v1/operations/...\<close> with one more segment can match.\<close>

lemma operation_patterns:
  assumes "47 \<notin> set i" "i \<noteq> []" "p \<in> set (map (\<lambda>(p, _). ascii p) routes)"
    and "pattern_matches p (ascii ''/v1/operations/'' @ i)"
  shows "p = ascii ''/v1/operations/:operation_id''
    \<or> (p = ascii ''/v1/operations/'' @ i \<and> i \<in> {ascii ''read-batch'', ascii ''scan'', ascii ''batch''})"
proof -
  obtain q ps where q: "(q, ps) \<in> set (map (\<lambda>(p, _). (p, split_on CHR ''/'' p)) routes)" "p = ascii q"
    "list_all2 segment_matches (map ascii ps) (map ascii [[], ''v1'', ''operations''] @ [i])"
    using route_patterns_of [OF assms(3,4)] unfolding operation_segments [OF assms(1)] by blast
  have fourth: "ps = [a, b, c, x] \<Longrightarrow> segment_matches (ascii c) (ascii ''operations'') \<and> segment_matches (ascii x) i" for a b c x
    using q(3) by simp
  have "length ps = 4" using list_all2_lengthD [OF q(3)] by simp
  with q(1) have "(q, ps) \<in> set (filter (\<lambda>(q, ps). length ps = 4) (map (\<lambda>(p, _). (p, split_on CHR ''/'' p)) routes))" by simp
  then have "q = ''/v1/operations/:operation_id'' \<or> (\<exists>x \<in> {''read-batch'', ''scan'', ''batch''}.
      q = ''/v1/operations/'' @ x \<and> ps = [[], ''v1'', ''operations'', x]) \<or> (\<exists>x. ps = [[], ''v1'', ''balances'', x])"
    unfolding route_four by (simp only: list.set insert_iff empty_iff prod.inject) (elim disjE; simp)
  then consider "q = ''/v1/operations/:operation_id''"
    | x where "x \<in> {''read-batch'', ''scan'', ''batch''}" "q = ''/v1/operations/'' @ x" "ps = [[], ''v1'', ''operations'', x]"
    | x where "ps = [[], ''v1'', ''balances'', x]" by blast
  then show ?thesis
  proof cases
    case 1
    then show ?thesis using q(2) by simp
  next
    case 2
    then have "take 1 x \<noteq> '':''" by auto
    with fourth [OF 2(3)] have "i = ascii x" by (simp add: segment_matches_ascii)
    moreover have "p = ascii ''/v1/operations/'' @ ascii x" using 2(2) q(2) by (simp add: ascii_def)
    ultimately show ?thesis using 2(1) by blast
  next
    case 3
    from fourth [OF this] show ?thesis by (simp add: segment_matches_ascii ascii_eq)
  qed
qed

context path_router
begin

lemma operation_route:
  assumes "i \<noteq> []" "47 \<notin> set i"
  shows "find_route (map (\<lambda>(p, _). ascii p) routes) (ascii ''/v1/operations/'' @ i) =
    Some (if i \<in> {ascii ''read-batch'', ascii ''scan'', ascii ''batch''} then ascii ''/v1/operations/'' @ i
          else ascii ''/v1/operations/:operation_id'')"
proof -
  let ?patterns = "map (\<lambda>(p, _). ascii p) routes" and ?path = "ascii ''/v1/operations/'' @ i"
  have joined: "ascii ''/v1/operations/'' @ ascii s = ascii (''/v1/operations/'' @ s)" for s by (simp add: ascii_def)
  show ?thesis
  proof (cases "i \<in> {ascii ''read-batch'', ascii ''scan'', ascii ''batch''}")
    case True
    then have "?path \<in> set ?patterns" by (auto simp: joined routes_def)
    moreover have "58 \<notin> set ?path" using True by (auto simp: ascii_def)
    ultimately show ?thesis using literal True by simp
  next
    case False
    have "ascii ''/v1/operations/:operation_id'' \<in> set ?patterns" by (simp add: routes_def)
    moreover have "pattern_matches (ascii ''/v1/operations/:operation_id'') ?path"
      using assms by (simp add: pattern_matches_def segments_ascii operation_segments segment_matches_ascii)
    ultimately obtain p where p: "find_route ?patterns ?path = Some p" using complete by blast
    with found have "p \<in> set ?patterns" "pattern_matches p ?path" by blast+
    with operation_patterns [OF assms(2,1)] False have "p = ascii ''/v1/operations/:operation_id''" by blast
    with p False show ?thesis by simp
  qed
qed

end

text \<open>
  C27: which ids can be asked for.  An operation id without a slash in the path of
  GET \<open>/v1/operations/:operation_id\<close> reaches the lookup, except for three ids that the service
  accepts for operations: \<open>scan\<close> reaches the scan of the history, and \<open>batch\<close> and
  \<open>read-batch\<close> are refused with 405, because the patterns without captures come first.
\<close>
theorem operation_id_route:
  assumes "path_router find_route" "i \<noteq> []" "47 \<notin> set i"
  shows "route find_route GET (ascii ''/v1/operations/'' @ i) n =
      (if i = ascii ''scan'' then Handled ScanOperations
       else if i \<in> {ascii ''batch'', ascii ''read-batch''} then MethodNotAllowed else Handled GetOperation)
    \<and> (\<forall>s \<in> {''scan'', ''batch'', ''read-batch''}. \<exists>op. operation_id op = ascii s \<and> validate op = Inr ())"
proof -
  have joined: "ascii ''/v1/operations/'' @ ascii s = ascii (''/v1/operations/'' @ s)" for s by (simp add: ascii_def)
  have "\<exists>op. operation_id op = ascii s \<and> validate op = Inr ()" if "s \<in> {''scan'', ''batch'', ''read-batch''}" for s
  proof -
    have "op_strings_ok (sample_op s ''o'' ''s'' 1)" "operation_ok (sample_op s ''o'' ''s'' 1)"
      using that by (auto simp: sample_simps)
    then have "validate (sample_op s ''o'' ''s'' 1) = Inr ()" by (simp add: validate_iff)
    then show ?thesis by (intro exI [of _ "sample_op s ''o'' ''s'' 1"]) (simp add: sample_op_def)
  qed
  then show ?thesis
    using path_router.operation_route [OF assms] by (auto simp: route_def joined routes_def ascii_eq)
qed

lemma operation_id_route_witness:
  "route find_first GET (ascii ''/v1/operations/'' @ ascii ''scan'') 0 = Handled ScanOperations
   \<and> route find_first GET (ascii ''/v1/operations/'' @ ascii ''op-1'') 0 = Handled GetOperation"
  using operation_id_route [OF first_router.path_router_axioms, of "ascii ''scan''" 0]
    operation_id_route [OF first_router.path_router_axioms, of "ascii ''op-1''" 0]
  by (simp add: ascii_eq) (simp add: ascii_def)

section \<open>Entry counts and cardinalities\<close>

text \<open>The counts are those of the last refresh that succeeded.\<close>

lemma refresh_keeps_last:
  "fold refresh_turn (turns @ [Some (Inr c)] @ failed) counts = c"
  if "\<forall>t \<in> set failed. t = None \<or> (\<exists>e. t = Some (Inl e))"
  using that by (induction failed arbitrary: c) (auto simp: refresh_turn_def)

lemma refresh_keeps_first:
  "\<forall>t \<in> set failed. t = None \<or> (\<exists>e. t = Some (Inl e)) \<Longrightarrow> fold refresh_turn failed counts = counts"
  by (induction failed) (auto simp: refresh_turn_def)

fun is_pending :: "dedup_entry \<Rightarrow> bool" where
  "is_pending (Pending _ _) = True"
| "is_pending (Committed _) = False"

text \<open>The figure of pending ids counts the reservations in memory, those of lost requests included.\<close>

lemma runtime_cardinality_counts:
  "runtime_cardinality entries_of mem positions =
     (length (filter (\<lambda>e. \<not> is_pending e) (concat (map entries_of mem))),
      length (filter is_pending (concat (map entries_of mem))), positions)"
proof -
  have one: "fold (\<lambda>entry (committed, pending). case entry of Committed _ \<Rightarrow> (committed + 1, pending)
        | Pending _ _ \<Rightarrow> (committed, pending + 1)) es (a, b)
      = (a + length (filter (\<lambda>e. \<not> is_pending e) es), b + length (filter is_pending es))" for es and a b :: nat
    by (induction es arbitrary: a b) (auto split: dedup_entry.splits)
  have "fold (\<lambda>shard n. fold (\<lambda>entry (committed, pending). case entry of Committed _ \<Rightarrow> (committed + 1, pending)
        | Pending _ _ \<Rightarrow> (committed, pending + 1)) (entries_of shard) n) mem (a, b)
      = (a + length (filter (\<lambda>e. \<not> is_pending e) (concat (map entries_of mem))),
         b + length (filter is_pending (concat (map entries_of mem))))" for a b :: nat
    by (induction mem arbitrary: a b) (simp_all add: one)
  then show ?thesis by (simp add: runtime_cardinality_def)
qed

lemma no_pending_figure:
  assumes "\<forall>f \<in> set mem. set (entries_of f) = ran f"
  shows "fst (snd (runtime_cardinality entries_of mem positions)) = 0
    \<longleftrightarrow> (\<forall>f \<in> set mem. \<forall>k p r. f k \<noteq> Some (Pending p r))"
proof -
  have "is_pending e \<longleftrightarrow> (\<exists>p r. e = Pending p r)" for e by (cases e) simp_all
  then show ?thesis using assms unfolding runtime_cardinality_counts by (fastforce simp: filter_empty_conv ran_def)
qed

section \<open>Process memory\<close>

lemma split_whitespace_skip: "list_all is_whitespace ws \<Longrightarrow> split_whitespace (ws @ cs) = split_whitespace cs"
  by (induction ws) auto

lemma split_whitespace_word:
  "w \<noteq> [] \<Longrightarrow> list_all (\<lambda>c. \<not> is_whitespace c) w \<Longrightarrow> is_whitespace s \<Longrightarrow>
     split_whitespace (w @ s # cs) = w # split_whitespace cs"
proof (induction w)
  case (Cons c w)
  then show ?case by (cases w) auto
qed simp

text \<open>A line \<open>VmRSS: n kB\<close> with any spaces or tabs between gives \<open>n\<close> kibibytes.\<close>

lemma vmrss_line:
  assumes "chars line = map of_char ''VmRSS:'' @ ws @ map of_char (decimal n) @ 32 # cs"
    and "ws \<noteq> []" "list_all is_whitespace ws" "n < 2 ^ 54"
    and "str_ok content" "find (\<lambda>line. take 6 line = ascii ''VmRSS:'') (read_lines content) = Some line"
  shows "process_memory_bytes (Some content) = Some (word_of_nat (1024 * n))"
proof -
  obtain w ws' where ws: "ws = w # ws'" using assms(2) by (cases ws) auto
  note codes = decimal_codes [of n]
  have digits: "list_all (\<lambda>c. \<not> is_whitespace c) (map of_char (decimal n) :: nat list)"
    using codes by (auto simp: list_all_iff is_digit_def is_whitespace_def)
  have label: "list_all (\<lambda>c. \<not> is_whitespace c) (map of_char ''VmRSS:'' :: nat list)" by (simp add: is_whitespace_def)
  have "split_whitespace (chars line) = map of_char ''VmRSS:'' # map of_char (decimal n) # split_whitespace cs"
  proof -
    have "split_whitespace (chars line) = map of_char ''VmRSS:'' # split_whitespace (ws' @ map of_char (decimal n) @ 32 # cs)"
      unfolding assms(1) ws append_Cons [of w]
      by (rule split_whitespace_word [OF _ label]) (use assms(3) ws in simp_all)
    also have "split_whitespace (ws' @ map of_char (decimal n) @ 32 # cs) = map of_char (decimal n) # split_whitespace cs"
      unfolding split_whitespace_skip [OF _, of ws'] using assms(3) ws codes digits
      by (subst split_whitespace_skip) (simp_all add: split_whitespace_word is_whitespace_def)
    finally show ?thesis .
  qed
  moreover have "parse_u64 (map of_char (decimal n)) = Inr (word_of_nat n)"
    using parse_decimal [of n] assms(4) codes by (simp add: ascii_str_facts)
  ultimately show ?thesis using assms(4-6) by (simp add: process_memory_bytes_def unat_of_nat)
qed

section \<open>Reading the page\<close>

text \<open>The specification: the figure that each name stands for, and its kind.\<close>

datatype figure = Counter nat | Gauge nat | Seconds u64

definition figures :: "metrics_view \<Rightarrow> (string \<times> figure) list" where
  "figures v =
     (let (quorum, last_sequence, messages, bytes, max_bytes) = stream_view v;
          checkpoint = current (mv_checkpoint v);
          (committed, pending, positions) = mv_cardinality v;
          (cache, capacity, buffer, flushes) = mv_disk_memory v;
          m = mv_metrics v; p = mv_pipeline v
      in [(''warehouse_operations_applied_total'', Counter (unat (m_applied m))),
          (''warehouse_operations_duplicate_total'', Counter (unat (m_duplicates m))),
          (''warehouse_conflicts_total'', Counter (unat (m_conflicts m))),
          (''warehouse_unavailable_total'', Counter (unat (m_unavailable m))),
          (''warehouse_quorum_available'', Gauge (of_bool quorum)),
          (''warehouse_writer_lease_owned'', Gauge (of_bool (mv_owns v = Some True))),
          (''warehouse_writer_epoch'', Gauge (unat (case mv_epoch v of Some e \<Rightarrow> or_zero e | None \<Rightarrow> 0))),
          (''warehouse_replication_checkpoint'', Gauge (unat checkpoint)),
          (''warehouse_replication_last_sequence'', Gauge (unat last_sequence)),
          (''warehouse_replication_lag'', Gauge (unat (saturating_sub last_sequence checkpoint))),
          (''warehouse_wal_bytes'', Gauge (unat (or_zero (mv_wal_bytes v)))),
          (''warehouse_process_memory_bytes'', Gauge (unat (or_zero (process_memory_bytes (mv_status v))))),
          (''warehouse_memory_dedup_committed'', Gauge committed),
          (''warehouse_memory_dedup_pending'', Gauge pending),
          (''warehouse_balance_positions'', Gauge positions),
          (''warehouse_lsm_cache_bytes'', Gauge (unat cache)),
          (''warehouse_lsm_cache_capacity_bytes'', Gauge (unat capacity)),
          (''warehouse_lsm_write_buffer_bytes'', Gauge (unat buffer)),
          (''warehouse_lsm_outstanding_flushes'', Gauge flushes),
          (''warehouse_disk_dedup_entries'', Gauge (sc_dedup (mv_counts v))),
          (''warehouse_disk_dedup_bytes'', Gauge (unat (or_zero (mv_dedup_bytes v)))),
          (''warehouse_history_entries'', Gauge (sc_history (mv_counts v))),
          (''warehouse_history_bytes'', Gauge (unat (or_zero (mv_history_bytes v)))),
          (''warehouse_history_checkpoint'', Gauge (unat (mv_history_checkpoint v))),
          (''warehouse_history_lag'', Gauge (unat (saturating_sub last_sequence (mv_history_checkpoint v)))),
          (''warehouse_stream_messages'', Gauge (unat messages)),
          (''warehouse_stream_bytes'', Gauge (unat bytes)),
          (''warehouse_stream_max_bytes'', Gauge (unat max_bytes)),
          (''warehouse_disk_bloom_ready'', Gauge (of_bool (mv_bloom_ready v))),
          (''warehouse_pipeline_batch_requests_total'', Counter (unat (m_batch_requests m))),
          (''warehouse_pipeline_operations_total'', Counter (unat (m_pipeline_operations m))),
          (''warehouse_pipeline_json_decode_seconds_total'', Seconds (pl_json_decode_ns p)),
          (''warehouse_pipeline_preflight_seconds_total'', Seconds (pl_preflight_ns p)),
          (''warehouse_pipeline_quorum_seconds_total'', Seconds (pl_quorum_ns p)),
          (''warehouse_pipeline_wal_apply_seconds_total'', Seconds (pl_apply_ns p)),
          (''warehouse_pipeline_publish_seconds_total'', Seconds (pl_finish_ns p)),
          (''warehouse_pipeline_handler_seconds_total'', Seconds (pl_handler_ns p))])"

fun figure_text :: "(u64 \<Rightarrow> string) \<Rightarrow> figure \<Rightarrow> string \<times> string" where
  "figure_text seconds (Counter n) = (''counter'', decimal n)"
| "figure_text seconds (Gauge n) = (''gauge'', decimal n)"
| "figure_text seconds (Seconds ns) = (''counter'', seconds ns)"

definition specified_page :: "(u64 \<Rightarrow> string) \<Rightarrow> metrics_view \<Rightarrow> string" where
  "specified_page seconds v =
     concat (map (\<lambda>(name, x). let (kind, shown) = figure_text seconds x in
       ''# TYPE '' @ name @ '' '' @ kind @ [CHR 0x0A] @ name @ '' '' @ shown @ [CHR 0x0A]) (figures v))"

text \<open>What a scraper reads: names and values of the lines that are not comments.\<close>

definition scrape :: "string \<Rightarrow> (string \<times> string) list" where
  "scrape body = map (\<lambda>l. (takeWhile (\<lambda>c. c \<noteq> CHR '' '') l, drop 1 (dropWhile (\<lambda>c. c \<noteq> CHR '' '') l)))
     (filter (\<lambda>l. l \<noteq> [] \<and> hd l \<noteq> CHR ''#'') (split_on (CHR 0x0A) body))"

definition plain_name :: "string \<Rightarrow> bool" where
  "plain_name n \<longleftrightarrow> take 1 n = ''w'' \<and> list_all (\<lambda>c. c \<noteq> CHR '' '' \<and> c \<noteq> CHR 0x0A) n"

lemma split_on_line: "sep \<notin> set l \<Longrightarrow> split_on sep (l @ sep # r) = l # split_on sep r"
  by (induction l) auto

lemma decimal_line: "CHR 0x0A \<notin> set (decimal n)"
proof
  assume "CHR 0x0A \<in> set (decimal n)"
  then have "is_digit (of_char (CHR 0x0A))" using decimal_codes [of n] by (auto simp: list_all_iff)
  then show False by (simp add: is_digit_def)
qed

lemma figure_text_line:
  "\<forall>ns. CHR 0x0A \<notin> set (seconds ns) \<Longrightarrow> figure_text seconds x = (kind, shown) \<Longrightarrow>
     CHR 0x0A \<notin> set kind \<and> CHR 0x0A \<notin> set shown"
  using decimal_line by (cases x) auto

lemma scrape_lines:
  assumes "\<forall>ns. CHR 0x0A \<notin> set (seconds ns)"
  shows "\<forall>(n, x) \<in> set xs. plain_name n \<Longrightarrow>
    scrape (concat (map (\<lambda>(name, x). let (kind, shown) = figure_text seconds x in
       ''# TYPE '' @ name @ '' '' @ kind @ [CHR 0x0A] @ name @ '' '' @ shown @ [CHR 0x0A]) xs))
      = map (\<lambda>(n, x). (n, snd (figure_text seconds x))) xs"
proof (induction xs)
  case (Cons nx xs)
  obtain n x kind shown where nx: "nx = (n, x)" "figure_text seconds x = (kind, shown)" by fastforce
  let ?body = "concat (map (\<lambda>(name, x). let (kind, shown) = figure_text seconds x in
    ''# TYPE '' @ name @ '' '' @ kind @ [CHR 0x0A] @ name @ '' '' @ shown @ [CHR 0x0A]) xs)"
  obtain m where n: "n = CHR ''w'' # m" "\<forall>c \<in> set n. c \<noteq> CHR '' '' \<and> c \<noteq> CHR 0x0A"
    using Cons.prems nx(1) by (cases n) (auto simp: plain_name_def list_all_iff)
  have lines: "CHR 0x0A \<notin> set (''# TYPE '' @ n @ '' '' @ kind)" "CHR 0x0A \<notin> set (n @ '' '' @ shown)"
    using figure_text_line [OF assms nx(2)] n(2) by auto
  have "split_on (CHR 0x0A) ((''# TYPE '' @ n @ '' '' @ kind) @ CHR 0x0A # (n @ '' '' @ shown) @ CHR 0x0A # ?body)
      = (''# TYPE '' @ n @ '' '' @ kind) # (n @ '' '' @ shown) # split_on (CHR 0x0A) ?body"
    unfolding split_on_line [OF lines(1)] split_on_line [OF lines(2)] ..
  moreover have "takeWhile (\<lambda>c. c \<noteq> CHR '' '') (n @ '' '' @ shown) = n"
    "dropWhile (\<lambda>c. c \<noteq> CHR '' '') (n @ '' '' @ shown) = '' '' @ shown"
    using n(2) by (simp_all add: takeWhile_append dropWhile_append)
  moreover have "n @ '' '' @ shown \<noteq> []" "hd (n @ '' '' @ shown) \<noteq> CHR ''#''" using n(1) by simp_all
  ultimately show ?case using Cons nx by (simp add: scrape_def del: split_on.simps)
qed (simp add: scrape_def)

lemma figure_names:
  "map fst (figures v) = map ((@) ''warehouse_'')
     [''operations_applied_total'', ''operations_duplicate_total'', ''conflicts_total'', ''unavailable_total'',
      ''quorum_available'', ''writer_lease_owned'', ''writer_epoch'', ''replication_checkpoint'', ''replication_last_sequence'',
      ''replication_lag'', ''wal_bytes'', ''process_memory_bytes'', ''memory_dedup_committed'', ''memory_dedup_pending'',
      ''balance_positions'', ''lsm_cache_bytes'', ''lsm_cache_capacity_bytes'', ''lsm_write_buffer_bytes'',
      ''lsm_outstanding_flushes'', ''disk_dedup_entries'', ''disk_dedup_bytes'', ''history_entries'', ''history_bytes'',
      ''history_checkpoint'', ''history_lag'', ''stream_messages'', ''stream_bytes'', ''stream_max_bytes'', ''disk_bloom_ready'',
      ''pipeline_batch_requests_total'', ''pipeline_operations_total'', ''pipeline_json_decode_seconds_total'',
      ''pipeline_preflight_seconds_total'', ''pipeline_quorum_seconds_total'', ''pipeline_wal_apply_seconds_total'',
      ''pipeline_publish_seconds_total'', ''pipeline_handler_seconds_total'']"
proof -
  obtain quorum last messages bytes max_bytes where a: "stream_view v = (quorum, last, messages, bytes, max_bytes)"
    by (rule prod_cases5)
  obtain committed pending positions where b: "mv_cardinality v = (committed, pending, positions)" by (rule prod_cases3)
  obtain cache capacity buffer flushes where c: "mv_disk_memory v = (cache, capacity, buffer, flushes)" by (rule prod_cases4)
  show ?thesis unfolding figures_def a b c Let_def prod.case by (simp only: list.map fst_conv append.simps)
qed

lemma figure_names_ok: "list_all plain_name (map fst (figures v))" "distinct (map fst (figures v))"
  unfolding figure_names by (simp add: plain_name_def) (simp add: distinct_map inj_on_def)

text \<open>The page of the code is the specified one: every argument meets the line of its name.\<close>

fun figure_arg :: "figure \<Rightarrow> format_arg" where
  "figure_arg (Counter n) = Number n"
| "figure_arg (Gauge n) = Number n"
| "figure_arg (Seconds ns) = Float ns"

fun figure_line :: "string \<times> figure \<Rightarrow> format_line" where
  "figure_line (name, Counter n) = (name, ''counter'', name, Plain)"
| "figure_line (name, Gauge n) = (name, ''gauge'', name, Plain)"
| "figure_line (name, Seconds ns) = (name, ''counter'', name, Nine)"

lemma fill_figures:
  "fill_lines seconds (map figure_line xs) (map (\<lambda>(name, x). figure_arg x) xs)
     = Some (concat (map (\<lambda>(name, x). let (kind, shown) = figure_text seconds x in
         ''# TYPE '' @ name @ '' '' @ kind @ [CHR 0x0A] @ name @ '' '' @ shown @ [CHR 0x0A]) xs))"
proof (induction xs)
  case (Cons nx xs)
  obtain n x where nx: "nx = (n, x)" by fastforce
  from Cons nx show ?case by (cases x) simp_all
qed simp

lemma metrics_page_specified: "metrics_page seconds v = Some (specified_page seconds v)"
proof -
  obtain quorum last messages bytes max_bytes where a: "stream_view v = (quorum, last, messages, bytes, max_bytes)"
    by (rule prod_cases5)
  obtain committed pending positions where b: "mv_cardinality v = (committed, pending, positions)" by (rule prod_cases3)
  obtain cache capacity buffer flushes where c: "mv_disk_memory v = (cache, capacity, buffer, flushes)" by (rule prod_cases4)
  have format: "metrics_format = map figure_line (figures v)"
    unfolding figures_def a b c Let_def prod.case metrics_format_def by (simp only: list.map figure_line.simps)
  have args: "metrics_args v = map (\<lambda>(name, x). figure_arg x) (figures v)"
    unfolding figures_def a b c Let_def prod.case metrics_args_def by (simp only: list.map figure_arg.simps prod.case)
  show ?thesis unfolding metrics_page_def format args fill_figures specified_page_def ..
qed

lemma scraped_figure:
  assumes "\<forall>ns. CHR 0x0A \<notin> set (seconds ns)" "(n, x) \<in> set (figures v)"
  shows "map_of (scrape (specified_page seconds v)) n = Some (snd (figure_text seconds x))"
proof -
  have plain: "\<forall>(n, x) \<in> set (figures v). plain_name n" using figure_names_ok(1) [of v] by (auto simp: list_all_iff)
  have "map_of (figures v) n = Some x" using assms(2) figure_names_ok(2) by (rule map_of_is_SomeI [rotated])
  then show ?thesis
    unfolding specified_page_def scrape_lines [OF assms(1) plain] by (simp add: map_of_map)
qed

lemma unat_saturating_sub: "unat (saturating_sub a b) = unat a - unat b"
  by (simp add: saturating_sub_def unat_sub word_le_nat_alt)

lemma stream_figures:
  assumes "stream_view v = (quorum, last_sequence, messages, bytes, max_bytes)"
  shows "(''warehouse_quorum_available'', Gauge (of_bool quorum)) \<in> set (figures v)"
    and "(''warehouse_replication_lag'', Gauge (unat last_sequence - unat (current (mv_checkpoint v)))) \<in> set (figures v)"
    and "(''warehouse_history_lag'', Gauge (unat last_sequence - unat (mv_history_checkpoint v))) \<in> set (figures v)"
  by (simp_all only: figures_def assms Let_def prod.case case_prod_unfold fst_conv snd_conv unat_saturating_sub list.set insert_iff simp_thms)

text \<open>
  C26: the metrics page says what it should.  The 37 arguments fit the format, and every figure
  is shown under the name that is specified for it (\<open>figures\<close>): it can be read back from the text
  of the page by its name, under which nothing else is shown, and as long as seconds are shown on
  one line nothing runs into the next figure.  With an answer of the log within half a second,
  the page reports a quorum, and as lag how far the checkpoint and the history are behind; without
  one it reports no quorum, and the lag of 0 says nothing.
\<close>
theorem metrics_page_scrapes:
  assumes "\<forall>ns. CHR 0x0A \<notin> set (seconds ns)"
  shows "\<exists>body. metrics_page seconds v = Some body \<and> distinct (map fst (scrape body))
    \<and> scrape body = map (\<lambda>(n, x). (n, snd (figure_text seconds x))) (figures v)
    \<and> (case mv_storage v of
         Some (Some (Inr (last_sequence, _))) \<Rightarrow>
           map_of (scrape body) ''warehouse_quorum_available'' = Some ''1''
           \<and> map_of (scrape body) ''warehouse_replication_lag''
               = Some (decimal (unat last_sequence - unat (current (mv_checkpoint v))))
           \<and> map_of (scrape body) ''warehouse_history_lag''
               = Some (decimal (unat last_sequence - unat (mv_history_checkpoint v)))
       | _ \<Rightarrow>
           map_of (scrape body) ''warehouse_quorum_available'' = Some ''0''
           \<and> map_of (scrape body) ''warehouse_replication_lag'' = Some ''0'')"
proof -
  let ?body = "specified_page seconds v"
  have plain: "\<forall>(n, x) \<in> set (figures v). plain_name n" using figure_names_ok(1) [of v] by (auto simp: list_all_iff)
  have scraped: "scrape ?body = map (\<lambda>(n, x). (n, snd (figure_text seconds x))) (figures v)"
    unfolding specified_page_def by (rule scrape_lines [OF assms plain])
  then have "map fst (scrape ?body) = map fst (figures v)" by (simp add: case_prod_unfold comp_def)
  with figure_names_ok(2) [of v] have names: "distinct (map fst (scrape ?body))" by (simp only:)
  obtain quorum last_sequence messages bytes max_bytes where
    view: "stream_view v = (quorum, last_sequence, messages, bytes, max_bytes)" by (rule prod_cases5)
  note figure = stream_figures [OF view, THEN scraped_figure [OF assms]]
  have digits: "decimal 0 = ''0''" "decimal 1 = ''1''" by code_simp+
  have "case mv_storage v of
      Some (Some (Inr (sq, _))) \<Rightarrow> quorum \<and> last_sequence = sq
    | _ \<Rightarrow> \<not> quorum \<and> last_sequence = current (mv_checkpoint v)"
    using view by (auto simp: stream_view_def split: option.splits sum.splits prod.splits)
  with figure digits have lag: "case mv_storage v of
         Some (Some (Inr (last_sequence, _))) \<Rightarrow>
           map_of (scrape ?body) ''warehouse_quorum_available'' = Some ''1''
           \<and> map_of (scrape ?body) ''warehouse_replication_lag''
               = Some (decimal (unat last_sequence - unat (current (mv_checkpoint v))))
           \<and> map_of (scrape ?body) ''warehouse_history_lag''
               = Some (decimal (unat last_sequence - unat (mv_history_checkpoint v)))
       | _ \<Rightarrow>
           map_of (scrape ?body) ''warehouse_quorum_available'' = Some ''0''
           \<and> map_of (scrape ?body) ''warehouse_replication_lag'' = Some ''0''"
    by (auto split: option.splits sum.splits prod.splits)
  from metrics_page_specified names scraped lag show ?thesis by blast
qed

definition sample_view :: metrics_view where
  "sample_view =
     \<lparr>mv_checkpoint = \<lparr>cp_file = None, cp_tmp = None, cp_value = checkpoint_default\<rparr>, mv_storage = Some (Some (Inr (7, 7, 900, 0))),
      mv_owns = Some True, mv_epoch = Some (Some 2), mv_wal_bytes = Some 100, mv_dedup_bytes = None, mv_history_bytes = None,
      mv_counts = \<lparr>sc_dedup = 3, sc_history = 3\<rparr>, mv_history_checkpoint = 6, mv_status = None, mv_cardinality = (3, 0, 2),
      mv_disk_memory = (0, 0, 0, 0), mv_bloom_ready = True, mv_metrics = metrics_default,
      mv_pipeline = \<lparr>pl_json_decode_ns = 0, pl_preflight_ns = 0, pl_quorum_ns = 0, pl_apply_ns = 0, pl_finish_ns = 0, pl_handler_ns = 0\<rparr>\<rparr>"

lemma metrics_page_scrapes_witness:
  "\<exists>body. metrics_page (\<lambda>_. ''0.000000000'') sample_view = Some body
   \<and> map_of (scrape body) ''warehouse_replication_lag'' = Some ''7'' \<and> map_of (scrape body) ''warehouse_history_lag'' = Some ''1''"
proof -
  have "\<forall>ns::u64. CHR 0x0A \<notin> set ''0.000000000''" by simp
  note page = metrics_page_scrapes [OF this, of sample_view]
  have "mv_storage sample_view = Some (Some (Inr (7, 7, 900, 0)))" "current (mv_checkpoint sample_view) = 0"
    "mv_history_checkpoint sample_view = 6" by (simp_all add: sample_view_def current_def checkpoint_default_def)
  moreover have "decimal 7 = ''7''" "decimal 1 = ''1''" by code_simp+
  ultimately show ?thesis using page by auto
qed

text \<open>The history task begins with the position that the server reports.\<close>

lemma start_serving_history:
  assumes "start_serving lsm red live_tail replicated migrate lease d = Inr s"
  shows "\<exists>h. history_start lsm migrate d l = Inr h \<and> ht_published h = sv_history_checkpoint s \<and> ht_disk h = sv_disk s
    \<and> (HistoryTask \<in> set (sv_tasks s) \<longleftrightarrow> replicated) \<and> (LeaseTask \<in> set (sv_tasks s) \<longleftrightarrow> replicated)
    \<and> storage_lengths lsm red d = Inr (sv_counts s)"
  using assms
  by (auto simp: start_serving_def history_start_def rbind_Inr_iff Let_def split: prod.splits sum.splits if_splits)

end
